(* ===== verification/Prelude.thy ===== *)
theory Prelude
  imports Complex_Main "HOL-Library.AList" "HOL-Library.Word" "HOL-Library.Multiset"
begin

text \<open>
  The prelude of the development: how Python programs are read as HOL functions.
  \<^item> Exceptions are values: \<open>'a result\<close> is \<open>error + 'a\<close>, and \<open>rbind\<close> is the sequencing of
    statements (the first exception ends the execution).  The state an exception leaves behind
    is not described: a function that raises returns the exception only.
  \<^item> \<open>foldM\<close> is a \<open>for\<close> loop over a list whose body updates a state and may raise.
  \<^item> A Python \<open>dict\<close> (insertion ordered) and \<open>OrderedDict\<close> are association lists with distinct
    keys; \<open>AList.update\<close> and \<open>AList.delete\<close> of the library are exactly item assignment and
    deletion.  A \<open>dict\<close> whose order is never observed is a map.
  \<^item> Python integers are \<open>int\<close>; lengths and indices that cannot be negative are \<open>nat\<close>.
\<close>

named_theorems py_simps \<open>unfolding rules for the shallow embedding of Python statements\<close>
named_theorems store_frame \<open>what an operation on the block store leaves unchanged\<close>

section \<open>Exceptions\<close>

datatype error =
    AssertionError
  | ValueError
  | RuntimeError
  | IndexError
  | KeyError
  | TypeError
  | NotImplementedError
  | OverflowError
  | ZeroDivisionError
  | StopIteration
  | AttributeError

type_synonym 'a result = "error + 'a"

fun rbind :: "'a result \<Rightarrow> ('a \<Rightarrow> 'b result) \<Rightarrow> 'b result" where
  "rbind (Inl e) f = Inl e"
| "rbind (Inr x) f = f x"

definition py_assert :: "bool \<Rightarrow> 'a result \<Rightarrow> 'a result" where
  "py_assert b k = (if b then k else Inl AssertionError)"

lemma py_assert_simps [simp]:
  "py_assert True k = k"
  "py_assert False k = Inl AssertionError"
  by (simp_all add: py_assert_def)

lemma py_assert_Inr [simp]: "py_assert b k = Inr y \<longleftrightarrow> b \<and> k = Inr y"
  by (simp add: py_assert_def)

lemma rbind_Inr_iff [simp]: "rbind m f = Inr y \<longleftrightarrow> (\<exists>x. m = Inr x \<and> f x = Inr y)"
  by (cases m) auto

lemma rbind_Inl_iff: "rbind m f = Inl e \<longleftrightarrow> m = Inl e \<or> (\<exists>x. m = Inr x \<and> f x = Inl e)"
  by (cases m) auto

lemma rbind_assoc: "rbind (rbind m f) g = rbind m (\<lambda>x. rbind (f x) g)"
  by (cases m) auto

lemma rbind_cong [fundef_cong]:
  "m = m' \<Longrightarrow> (\<And>x. m' = Inr x \<Longrightarrow> f x = f' x) \<Longrightarrow> rbind m f = rbind m' f'"
  by (cases m') auto

text \<open>Python's \<open>bytes\<close>.\<close>

type_synonym bytes = "8 word list"

section \<open>Loops\<close>

fun foldM :: "('a \<Rightarrow> 's \<Rightarrow> 's result) \<Rightarrow> 'a list \<Rightarrow> 's \<Rightarrow> 's result" where
  "foldM f [] s = Inr s"
| "foldM f (x # xs) s = rbind (f x s) (foldM f xs)"

lemma foldM_append: "foldM f (xs @ ys) s = rbind (foldM f xs s) (foldM f ys)"
proof (induction xs arbitrary: s)
  case (Cons x xs)
  then have "foldM f (xs @ ys) = (\<lambda>s. rbind (foldM f xs s) (foldM f ys))" by (rule ext)
  then show ?case by (simp add: rbind_assoc)
qed simp

lemma foldM_invariant:
  assumes "\<And>x s s'. x \<in> set xs \<Longrightarrow> P s \<Longrightarrow> f x s = Inr s' \<Longrightarrow> P s'"
    and "P s" and "foldM f xs s = Inr s'"
  shows "P s'"
  using assms
proof (induction xs arbitrary: s)
  case (Cons x xs)
  then obtain s1 where s1: "f x s = Inr s1" "foldM f xs s1 = Inr s'" by auto
  moreover have "P s1" using Cons.prems(1,2) s1(1) by (meson list.set_intros(1))
  ultimately show ?case using Cons.IH Cons.prems(1) by (meson list.set_intros(2))
qed simp

lemma foldM_total:
  assumes "\<And>x s. x \<in> set xs \<Longrightarrow> P s \<Longrightarrow> \<exists>s'. f x s = Inr s' \<and> P s'" and "P s"
  shows "\<exists>s'. foldM f xs s = Inr s' \<and> P s'"
  using assms
proof (induction xs arbitrary: s)
  case (Cons x xs)
  then obtain s1 where s1: "f x s = Inr s1" "P s1" by (meson list.set_intros(1))
  have "\<exists>s'. foldM f xs s1 = Inr s' \<and> P s'"
    using Cons.IH Cons.prems(1) s1(2) by (meson list.set_intros(2))
  with s1 show ?case by simp
qed simp

text \<open>A list comprehension whose body may raise.\<close>

fun mapM :: "('a \<Rightarrow> 'b result) \<Rightarrow> 'a list \<Rightarrow> 'b list result" where
  "mapM f [] = Inr []"
| "mapM f (x # xs) = rbind (f x) (\<lambda>y. rbind (mapM f xs) (\<lambda>ys. Inr (y # ys)))"

lemma mapM_cong [fundef_cong]: "xs = ys \<Longrightarrow> (\<And>x. x \<in> set ys \<Longrightarrow> f x = g x) \<Longrightarrow> mapM f xs = mapM g ys"
proof (induction ys arbitrary: xs)
  case (Cons y ys)
  have "mapM f ys = mapM g ys" by (rule Cons.IH) (simp_all add: Cons.prems(2))
  then show ?case using Cons.prems by simp
qed simp

lemma mapM_Inr: "(\<And>x. x \<in> set xs \<Longrightarrow> \<exists>y. f x = Inr y) \<Longrightarrow> \<exists>ys. mapM f xs = Inr ys"
proof (induction xs)
  case (Cons x xs)
  then obtain y ys where "f x = Inr y" "mapM f xs = Inr ys" by fastforce
  then show ?case by simp
qed simp

lemma mapM_map: "(\<And>x. x \<in> set xs \<Longrightarrow> f x = Inr (g x)) \<Longrightarrow> mapM f xs = Inr (map g xs)"
  by (induction xs) auto

lemma mapM_map_of:
  assumes "mapM f xs = Inr ys" and "\<And>k p. f k = Inr p \<Longrightarrow> fst p = k"
  shows "map_of ys k = (if k \<in> set xs then Some (snd (projr (f k))) else None)"
  using assms(1)
proof (induction xs arbitrary: ys)
  case (Cons x xs)
  then obtain y zs where "f x = Inr y" "mapM f xs = Inr zs" "ys = y # zs" by auto
  with Cons.IH [of zs] assms(2) [of x y] show ?case by (cases y) auto
qed simp

lemma mapM_length: "mapM f xs = Inr ys \<Longrightarrow> length ys = length xs"
  by (induction xs arbitrary: ys) auto

lemma mapM_list_all2: "mapM f xs = Inr ys \<longleftrightarrow> list_all2 (\<lambda>x y. f x = Inr y) xs ys"
  by (induction xs arbitrary: ys) (auto simp: list_all2_Cons1)

section \<open>Ceiling division\<close>

text \<open>\<open>vllm.utils.math_utils.cdiv\<close>: \<open>-(a // -b)\<close>, for a positive divisor.\<close>

definition cdiv :: "int \<Rightarrow> int \<Rightarrow> int" where
  "cdiv a b = - (a div (- b))"

lemma le_div_iff_int: "0 < b \<Longrightarrow> k \<le> a div b \<longleftrightarrow> k * b \<le> a" for a b k :: int
proof
  assume b: "0 < b" and "k \<le> a div b"
  then have "k * b \<le> a div b * b" by (simp add: mult_right_mono)
  also have "\<dots> \<le> a" using b by (simp add: div_mult_mod_eq [symmetric] flip: minus_mod_eq_div_mult)
  finally show "k * b \<le> a" .
next
  assume b: "0 < b" and "k * b \<le> a"
  then have "k * b div b \<le> a div b" by (intro zdiv_mono1)
  with b show "k \<le> a div b" by simp
qed

lemma cdiv_le_iff: "0 < b \<Longrightarrow> cdiv a b \<le> k \<longleftrightarrow> a \<le> k * b"
proof -
  assume b: "0 < b"
  have "cdiv a b \<le> k \<longleftrightarrow> - k \<le> (- a) div b"
    by (simp add: cdiv_def div_minus_right) linarith
  also have "\<dots> \<longleftrightarrow> (- k) * b \<le> - a" using b by (rule le_div_iff_int)
  finally show ?thesis by simp
qed

lemma cdiv_upper: "0 < b \<Longrightarrow> a \<le> cdiv a b * b"
  using cdiv_le_iff [of b a "cdiv a b"] by simp

lemma cdiv_mono: "0 < b \<Longrightarrow> a \<le> a' \<Longrightarrow> cdiv a b \<le> cdiv a' b"
  using cdiv_le_iff [of b a "cdiv a' b"] cdiv_upper [of b a'] by simp

lemma cdiv_nonneg: "0 < b \<Longrightarrow> 0 \<le> a \<Longrightarrow> 0 \<le> cdiv a b"
  using cdiv_le_iff [of b a "-1"] by (smt (verit) mult_minus_left mult_1)

lemma cdiv_mult [simp]: "0 < b \<Longrightarrow> cdiv (k * b) b = k"
  by (simp add: cdiv_def div_minus_right flip: mult_minus_left)

section \<open>Insertion-ordered dictionaries\<close>

type_synonym ('k, 'v) odict = "('k \<times> 'v) list"

text \<open>\<open>OrderedDict.move_to_end(key)\<close>, which raises \<open>KeyError\<close> for a missing key.\<close>

definition move_to_end :: "'k \<Rightarrow> ('k, 'v) odict \<Rightarrow> ('k, 'v) odict result" where
  "move_to_end k d =
     (case map_of d k of None \<Rightarrow> Inl KeyError | Some v \<Rightarrow> Inr (AList.delete k d @ [(k, v)]))"

text \<open>\<open>d[key]\<close>.\<close>

definition dget :: "('k, 'v) odict \<Rightarrow> 'k \<Rightarrow> 'v result" where
  "dget d k = (case map_of d k of None \<Rightarrow> Inl KeyError | Some v \<Rightarrow> Inr v)"

lemma dget_Inr [simp]: "dget d k = Inr v \<longleftrightarrow> map_of d k = Some v"
  by (auto simp: dget_def split: option.splits)

lemma map_of_update [simp]: "map_of (AList.update k v d) = (map_of d)(k \<mapsto> v)"
  by (rule update_conv')

lemma update_new: "k \<notin> fst ` set d \<Longrightarrow> AList.update k v d = d @ [(k, v)]"
  by (induction d) auto

lemma map_of_delete_same [simp]: "map_of (AList.delete k d) k = None"
  by (simp add: delete_conv')

lemma map_of_delete_other [simp]: "k' \<noteq> k \<Longrightarrow> map_of (AList.delete k d) k' = map_of d k'"
  by (simp add: delete_conv')

section \<open>Python lists\<close>

text \<open>\<open>xs[i]\<close> for a list: negative indices count from the end.\<close>

definition py_position :: "nat \<Rightarrow> int \<Rightarrow> nat result" where
  "py_position len i =
     (if i \<ge> int len \<or> i < - int len then Inl IndexError
      else Inr (nat (if i \<ge> 0 then i else i + int len)))"

definition py_index :: "'a list \<Rightarrow> int \<Rightarrow> 'a result" where
  "py_index xs i = rbind (py_position (length xs) i) (\<lambda>k. Inr (xs ! k))"

lemma py_index_nat [simp]: "i < length xs \<Longrightarrow> py_index xs (int i) = Inr (xs ! i)"
  by (simp add: py_index_def py_position_def)

lemma py_index_last [simp]: "xs \<noteq> [] \<Longrightarrow> py_index xs (-1) = Inr (last xs)"
  by (cases xs) (simp_all add: py_index_def py_position_def last_conv_nth)

section \<open>Blocks of a sequence\<close>

lemma Suc_mult_le_of_less_div: "i < n div b \<Longrightarrow> 0 < b \<Longrightarrow> Suc i * b \<le> n" for i n b :: nat
  by (metis Suc_leI less_eq_div_iff_mult_less_eq)

lemma upt_split: "n \<le> m \<Longrightarrow> [0..<n] @ [n..<m] = [0..<m]"
  using upt_add_eq_append [of 0 n "m - n"] by simp

end
