(* ===== verification/Free_Queue.thy ===== *)
theory Free_Queue
  imports Prelude
begin

text \<open>
  \<open>KVCacheBlock\<close> and \<open>FreeKVCacheBlockQueue\<close> of \<open>vllm/v1/core/kv_cache_utils.py\<close>.

  The blocks are mutable objects that are shared by the free queue, the prefix cache and the
  block tables of the requests, so the model has an explicit store from block references to block
  records.  A reference is \<open>Blk i\<close> for \<open>block_pool.blocks[i]\<close>, or one of the two fake blocks of
  the free queue.  The queue is the doubly linked list threaded through the fields
  \<open>prev_free_block\<close> and \<open>next_free_block\<close> of the store.  The lemmas show that every operation
  implements the list operation it stands for, as an interpretation of the locale
  \<open>free_list\<close>, and that no operation touches any other field of a block.
\<close>

section \<open>Blocks and the store\<close>

datatype bref = Blk nat | FakeHead | FakeTail

record kv_cache_block =
  block_id :: int
  ref_cnt :: int
  block_hash :: "bytes option"
  prev_free_block :: "bref option"
  next_free_block :: "bref option"
  is_null :: bool

type_synonym store = "bref \<Rightarrow> kv_cache_block"

definition KVCacheBlock :: "int \<Rightarrow> kv_cache_block" where
  "KVCacheBlock i = \<lparr>block_id = i, ref_cnt = 0, block_hash = None,
     prev_free_block = None, next_free_block = None, is_null = False\<rparr>"

text \<open>Assignments to the link fields of the object behind a reference.\<close>

definition set_next :: "bref \<Rightarrow> bref option \<Rightarrow> store \<Rightarrow> store" where
  "set_next a v h = h(a := (h a)\<lparr>next_free_block := v\<rparr>)"

definition set_prev :: "bref \<Rightarrow> bref option \<Rightarrow> store \<Rightarrow> store" where
  "set_prev a v h = h(a := (h a)\<lparr>prev_free_block := v\<rparr>)"

text \<open>The state of the queue object: the store and the counter.  A record that extends it (the
  block pool) is a queue state too.\<close>

record fq_state =
  heap :: store
  num_free_blocks :: int

section \<open>The operations of the queue\<close>

definition link_step :: "bref list \<Rightarrow> nat \<Rightarrow> store \<Rightarrow> store" where
  "link_step blocks i h =
     (let h1 = (if 0 < i then set_prev (blocks ! i) (Some (blocks ! (i - 1))) h else h)
      in if i + 1 < length blocks then set_next (blocks ! i) (Some (blocks ! (i + 1))) h1 else h1)"

definition free_queue_init :: "bref list \<Rightarrow> 'a fq_state_scheme \<Rightarrow> 'a fq_state_scheme" where
  "free_queue_init blocks s =
     (let h1 = fold (link_step blocks) [0..<length blocks] (heap s);
          h2 = h1(FakeHead := KVCacheBlock (-1), FakeTail := KVCacheBlock (-1));
          h3 = (if blocks \<noteq> []
                then set_next (last blocks) (Some FakeTail)
                      (set_prev FakeTail (Some (last blocks))
                        (set_prev (hd blocks) (Some FakeHead)
                          (set_next FakeHead (Some (hd blocks)) h2)))
                else set_prev FakeTail (Some FakeHead) (set_next FakeHead (Some FakeTail) h2))
      in s\<lparr>heap := h3, num_free_blocks := int (length blocks)\<rparr>)"

definition popleft :: "'a fq_state_scheme \<Rightarrow> (bref \<times> 'a fq_state_scheme) result" where
  "popleft s =
     (case next_free_block (heap s FakeHead) of
        None \<Rightarrow> py_assert (num_free_blocks s = 0) (Inl ValueError)
      | Some first_block \<Rightarrow>
          if first_block = FakeTail then py_assert (num_free_blocks s = 0) (Inl ValueError)
          else
            (case next_free_block (heap s first_block) of
               None \<Rightarrow> Inl RuntimeError
             | Some second \<Rightarrow>
                 let h1 = set_next FakeHead (Some second) (heap s);
                     h2 = set_prev second (Some FakeHead) h1;
                     h3 = set_next first_block None (set_prev first_block None h2)
                 in Inr (first_block,
                         s\<lparr>heap := h3, num_free_blocks := num_free_blocks s - 1\<rparr>)))"

fun popleft_loop ::
  "nat \<Rightarrow> bref option \<Rightarrow> store \<Rightarrow> (bref list \<times> bref option \<times> store) result" where
  "popleft_loop 0 curr_block h = Inr ([], curr_block, h)"
| "popleft_loop (Suc n) None h = Inl AssertionError"
| "popleft_loop (Suc n) (Some b) h =
     rbind (popleft_loop n (next_free_block (h b)) (set_next b None (set_prev b None h)))
       (\<lambda>(ret, curr_block, h'). Inr (b # ret, curr_block, h'))"

definition popleft_n :: "int \<Rightarrow> 'a fq_state_scheme \<Rightarrow> (bref list \<times> 'a fq_state_scheme) result" where
  "popleft_n n s =
     (if n = 0 then Inr ([], s)
      else py_assert (n \<le> num_free_blocks s)
        (rbind (popleft_loop (nat n) (next_free_block (heap s FakeHead)) (heap s))
           (\<lambda>(ret, curr_block, h).
              let h' = (case curr_block of
                          None \<Rightarrow> h
                        | Some c \<Rightarrow> set_prev c (Some FakeHead) (set_next FakeHead (Some c) h))
              in Inr (ret, s\<lparr>heap := h', num_free_blocks := num_free_blocks s - n\<rparr>))))"

definition fq_remove :: "bref \<Rightarrow> 'a fq_state_scheme \<Rightarrow> 'a fq_state_scheme result" where
  "fq_remove b s =
     (case (prev_free_block (heap s b), next_free_block (heap s b)) of
        (Some p, Some q) \<Rightarrow>
          let h1 = set_next p (Some q) (heap s);
              h2 = set_prev q (Some p) h1;
              h3 = set_next b None (set_prev b None h2)
          in Inr (s\<lparr>heap := h3, num_free_blocks := num_free_blocks s - 1\<rparr>)
      | _ \<Rightarrow> Inl RuntimeError)"

definition fq_append :: "bref \<Rightarrow> 'a fq_state_scheme \<Rightarrow> 'a fq_state_scheme result" where
  "fq_append b s =
     (case prev_free_block (heap s FakeTail) of
        None \<Rightarrow> Inl RuntimeError
      | Some last_block \<Rightarrow>
          let h1 = set_prev b (Some last_block) (set_next last_block (Some b) (heap s));
              h2 = set_prev FakeTail (Some b) (set_next b (Some FakeTail) h1)
          in Inr (s\<lparr>heap := h2, num_free_blocks := num_free_blocks s + 1\<rparr>))"

fun append_loop :: "bref list \<Rightarrow> bref \<Rightarrow> store \<Rightarrow> bref \<times> store" where
  "append_loop [] last_block h = (last_block, h)"
| "append_loop (b # bs) last_block h =
     append_loop bs b (set_next last_block (Some b) (set_prev b (Some last_block) h))"

definition append_n :: "bref list \<Rightarrow> 'a fq_state_scheme \<Rightarrow> 'a fq_state_scheme result" where
  "append_n blocks s =
     (if blocks = [] then Inr s
      else case prev_free_block (heap s FakeTail) of
        None \<Rightarrow> Inl AssertionError
      | Some last_block \<Rightarrow>
          let (l, h) = append_loop blocks last_block (heap s);
              h' = set_prev FakeTail (Some l) (set_next l (Some FakeTail) h)
          in Inr (s\<lparr>heap := h', num_free_blocks := num_free_blocks s + int (length blocks)\<rparr>))"

text \<open>The \<open>while\<close> loop of \<open>get_all_free_blocks\<close> follows \<open>next_free_block\<close> until it is \<open>None\<close>;
  on a cyclic list it would not end, which is the value \<open>None\<close>.\<close>

partial_function (option) free_blocks_walk :: "store \<Rightarrow> bref \<Rightarrow> bref list option" where
  "free_blocks_walk h curr_block =
     (case next_free_block (h curr_block) of
        None \<Rightarrow> Some []
      | Some nxt \<Rightarrow> Option.bind (free_blocks_walk h nxt) (\<lambda>ret. Some (curr_block # ret)))"

definition get_all_free_blocks :: "'a fq_state_scheme \<Rightarrow> bref list option result" where
  "get_all_free_blocks s =
     (case next_free_block (heap s FakeHead) of
        None \<Rightarrow> Inl RuntimeError
      | Some c \<Rightarrow> Inr (free_blocks_walk (heap s) c))"

section \<open>The list behind the links\<close>

text \<open>\<open>linked h ys\<close>: consecutive elements of \<open>ys\<close> point to each other.\<close>

fun linked :: "store \<Rightarrow> bref list \<Rightarrow> bool" where
  "linked h (a # b # ys) \<longleftrightarrow>
     next_free_block (h a) = Some b \<and> prev_free_block (h b) = Some a \<and> linked h (b # ys)"
| "linked h ys \<longleftrightarrow> True"

definition free_rel :: "'a fq_state_scheme \<Rightarrow> bref list \<Rightarrow> bool" where
  "free_rel s xs \<longleftrightarrow>
     linked (heap s) (FakeHead # xs @ [FakeTail])
     \<and> distinct xs \<and> FakeHead \<notin> set xs \<and> FakeTail \<notin> set xs
     \<and> num_free_blocks s = int (length xs)
     \<and> next_free_block (heap s FakeTail) = None
     \<and> prev_free_block (heap s FakeHead) = None
     \<and> (\<forall>i. Blk i \<notin> set xs \<longrightarrow>
          prev_free_block (heap s (Blk i)) = None \<and> next_free_block (heap s (Blk i)) = None)"

text \<open>Everything of a queue state but the links and the counter.\<close>

definition block_data :: "kv_cache_block \<Rightarrow> int \<times> int \<times> bytes option \<times> bool" where
  "block_data b = (block_id b, ref_cnt b, block_hash b, is_null b)"

definition fq_data :: "'a fq_state_scheme \<Rightarrow> (bref \<Rightarrow> int \<times> int \<times> bytes option \<times> bool) \<times> 'a" where
  "fq_data s = (\<lambda>a. block_data (heap s a), fq_state.more s)"

lemma link_fields [simp]:
  "next_free_block (set_next a v h b) = (if b = a then v else next_free_block (h b))"
  "prev_free_block (set_next a v h b) = prev_free_block (h b)"
  "prev_free_block (set_prev a v h b) = (if b = a then v else prev_free_block (h b))"
  "next_free_block (set_prev a v h b) = next_free_block (h b)"
  "block_data (set_next a v h b) = block_data (h b)"
  "block_data (set_prev a v h b) = block_data (h b)"
  by (simp_all add: set_next_def set_prev_def block_data_def)

lemma linked_append: "linked h (xs @ a # ys) \<longleftrightarrow> linked h (xs @ [a]) \<and> linked h (a # ys)"
  by (induction h xs rule: linked.induct) auto

lemma in_set_tlD: "x \<in> set (tl xs) \<Longrightarrow> x \<in> set xs"
  by (cases xs) auto

lemma linked_cong:
  assumes "\<And>a. a \<in> set (butlast ys) \<Longrightarrow> next_free_block (h' a) = next_free_block (h a)"
    and "\<And>a. a \<in> set (tl ys) \<Longrightarrow> prev_free_block (h' a) = prev_free_block (h a)"
  shows "linked h' ys = linked h ys"
  using assms by (induction h ys rule: linked.induct) auto

definition clear_links :: "bref list \<Rightarrow> store \<Rightarrow> store" where
  "clear_links bs h = fold (\<lambda>b h. set_next b None (set_prev b None h)) bs h"

lemma clear_links_fields [simp]:
  "next_free_block (clear_links bs h a) = (if a \<in> set bs then None else next_free_block (h a))"
  "prev_free_block (clear_links bs h a) = (if a \<in> set bs then None else prev_free_block (h a))"
  "block_data (clear_links bs h a) = block_data (h a)"
  unfolding clear_links_def by (induction bs arbitrary: h) auto

section \<open>Each operation implements the list operation\<close>

lemma popleft_empty: "free_rel s [] \<Longrightarrow> popleft s = Inl ValueError"
  by (simp add: free_rel_def popleft_def)

lemma popleft_refines:
  assumes "free_rel s (x # xs)"
  shows "\<exists>s'. popleft s = Inr (x, s') \<and> free_rel s' xs \<and> fq_data s' = fq_data s"
proof -
  obtain y ys where ys: "xs @ [FakeTail] = y # ys" by (cases "xs @ [FakeTail]") auto
  have "linked (heap s) (FakeHead # x # xs @ [FakeTail])" and
    "distinct (FakeHead # x # xs @ [FakeTail])"
    using assms by (auto simp: free_rel_def)
  then have l: "linked (heap s) (FakeHead # x # y # ys)" and d: "distinct (FakeHead # x # y # ys)"
    by (simp_all only: ys)
  define h' where "h' = set_next x None (set_prev x None (set_prev y (Some FakeHead)
    (set_next FakeHead (Some y) (heap s))))"
  have pop: "popleft s = Inr (x, s\<lparr>heap := h', num_free_blocks := num_free_blocks s - 1\<rparr>)"
    using l assms by (auto simp: popleft_def h'_def free_rel_def Let_def)
  have "linked h' (y # ys) = linked (heap s) (y # ys)"
    using d by (intro linked_cong) (auto simp: h'_def dest: in_set_butlastD split: if_splits)
  then have "linked h' (FakeHead # xs @ [FakeTail])"
    using l d by (auto simp: h'_def ys)
  then show ?thesis using assms d l unfolding pop
    by (auto simp: free_rel_def fq_data_def h'_def ys)
qed

lemma popleft_loop_linked:
  assumes "linked h (xs @ y # ys)" and "distinct (xs @ y # ys)"
  shows "popleft_loop (length xs) (Some (hd (xs @ [y]))) h = Inr (xs, Some y, clear_links xs h)"
  using assms
proof (induction xs arbitrary: h)
  case (Cons x xs)
  let ?h = "set_next x None (set_prev x None h)"
  have nxt: "next_free_block (h x) = Some (hd (xs @ [y]))"
    using Cons.prems(1) by (cases xs) auto
  have "linked ?h (xs @ y # ys) = linked h (xs @ y # ys)"
    using Cons.prems(2) by (intro linked_cong) (auto dest: in_set_butlastD in_set_tlD)
  moreover have "linked h (xs @ y # ys)" using Cons.prems(1) by (cases xs) auto
  ultimately have "popleft_loop (length xs) (Some (hd (xs @ [y]))) ?h =
      Inr (xs, Some y, clear_links xs ?h)"
    using Cons.IH [of ?h] Cons.prems(2) by simp
  then show ?case using nxt by (simp add: clear_links_def)
qed (simp add: clear_links_def)

lemma popleft_n_refines:
  assumes rel: "free_rel s (xs @ ys)"
  shows "\<exists>s'. popleft_n (int (length xs)) s = Inr (xs, s') \<and> free_rel s' ys \<and> fq_data s' = fq_data s"
proof (cases "xs = []")
  case True
  with rel show ?thesis by (simp add: popleft_n_def)
next
  case ne: False
  obtain y zs where zs: "ys @ [FakeTail] = y # zs" by (cases "ys @ [FakeTail]") auto
  have "linked (heap s) (FakeHead # xs @ ys @ [FakeTail])" and
    "distinct (FakeHead # xs @ ys @ [FakeTail])"
    using rel by (auto simp: free_rel_def)
  then have l: "linked (heap s) (FakeHead # xs @ y # zs)" and d: "distinct (FakeHead # xs @ y # zs)"
    by (simp_all only: zs)
  have hd: "next_free_block (heap s FakeHead) = Some (hd (xs @ [y]))" and l': "linked (heap s) (xs @ y # zs)"
    using l by (cases xs; simp)+
  define h' where "h' = set_prev y (Some FakeHead) (set_next FakeHead (Some y) (clear_links xs (heap s)))"
  have "popleft_n (int (length xs)) s =
      Inr (xs, s\<lparr>heap := h', num_free_blocks := num_free_blocks s - int (length xs)\<rparr>)"
    using popleft_loop_linked [OF l'] d rel ne
    by (simp add: popleft_n_def hd h'_def free_rel_def)
  moreover have "linked h' (y # zs) = linked (heap s) (y # zs)"
    using d by (intro linked_cong) (auto simp: h'_def dest: in_set_butlastD split: if_splits)
  then have "linked h' (FakeHead # y # zs)"
    using l' linked_append [of "heap s" xs y zs] by (simp add: h'_def)
  then have "linked h' (FakeHead # ys @ [FakeTail])" by (simp only: zs)
  moreover have "next_free_block (h' FakeTail) = None" "prev_free_block (h' FakeHead) = None"
    using rel d by (auto simp: h'_def free_rel_def)
  moreover have "prev_free_block (h' (Blk i)) = None \<and> next_free_block (h' (Blk i)) = None"
    if "Blk i \<notin> set ys" for i
  proof -
    have "Blk i \<noteq> y" using that zs by (cases ys) auto
    with rel that show ?thesis by (auto simp: h'_def free_rel_def)
  qed
  ultimately show ?thesis using rel by (auto simp: free_rel_def fq_data_def h'_def)
qed

lemma popleft_n_underflow:
  "free_rel s xs \<Longrightarrow> int (length xs) < n \<Longrightarrow> popleft_n n s = Inl AssertionError"
  by (simp add: free_rel_def popleft_n_def py_assert_def)

lemma fq_remove_refines:
  assumes rel: "free_rel s (as @ x # bs)"
  shows "\<exists>s'. fq_remove x s = Inr s' \<and> free_rel s' (as @ bs) \<and> fq_data s' = fq_data s"
proof -
  obtain p ps where ps: "FakeHead # as = ps @ [p]" by (metis append_butlast_last_id list.distinct(1))
  obtain q qs where qs: "bs @ [FakeTail] = q # qs" by (cases "bs @ [FakeTail]") auto
  have "linked (heap s) ((FakeHead # as) @ x # bs @ [FakeTail])" and
    "distinct ((FakeHead # as) @ x # bs @ [FakeTail])"
    using rel by (auto simp: free_rel_def)
  then have l: "linked (heap s) (ps @ p # x # q # qs)" and d: "distinct (ps @ p # x # q # qs)"
    unfolding ps qs by simp_all
  have l1: "linked (heap s) (ps @ [p])" and l2: "linked (heap s) (q # qs)"
    and px: "prev_free_block (heap s x) = Some p" "next_free_block (heap s x) = Some q"
    using l linked_append [of "heap s" ps p "x # q # qs"] by auto
  define h' where "h' = set_next x None (set_prev x None (set_prev q (Some p) (set_next p (Some q) (heap s))))"
  have rem: "fq_remove x s = Inr (s\<lparr>heap := h', num_free_blocks := num_free_blocks s - 1\<rparr>)"
    by (simp add: fq_remove_def px h'_def Let_def)
  have "linked h' (ps @ [p]) = linked (heap s) (ps @ [p])"
    using d by (intro linked_cong) (auto simp: h'_def dest: in_set_tlD)
  moreover have "linked h' (q # qs) = linked (heap s) (q # qs)"
    using d by (intro linked_cong) (auto simp: h'_def dest: in_set_butlastD split: if_splits)
  moreover have "next_free_block (h' p) = Some q" "prev_free_block (h' q) = Some p"
    using d by (auto simp: h'_def)
  ultimately have "linked h' (ps @ p # q # qs)"
    using l1 l2 by (subst linked_append) simp
  then have "linked h' ((FakeHead # as) @ bs @ [FakeTail])" unfolding ps qs by simp
  moreover have "next_free_block (h' FakeTail) = None" "prev_free_block (h' FakeHead) = None"
  proof -
    have "p \<noteq> FakeTail" using ps rel by (metis Un_iff bref.distinct(5) free_rel_def in_set_conv_decomp
          set_ConsD set_append)
    moreover have "q \<noteq> FakeHead" using qs rel
      by (cases bs) (auto simp: free_rel_def)
    ultimately show "next_free_block (h' FakeTail) = None" "prev_free_block (h' FakeHead) = None"
      using rel by (auto simp: h'_def free_rel_def)
  qed
  moreover have "prev_free_block (h' (Blk i)) = None \<and> next_free_block (h' (Blk i)) = None"
    if "Blk i \<notin> set (as @ bs)" for i
  proof (cases "Blk i = x")
    case False
    have "Blk i \<noteq> p" using ps that by (metis UnCI bref.distinct(1) last_in_set last_snoc list.distinct(1)
          set_ConsD set_append)
    moreover have "Blk i \<noteq> q" using qs that by (cases bs) auto
    ultimately show ?thesis using rel that False by (auto simp: h'_def free_rel_def)
  qed (simp add: h'_def)
  ultimately show ?thesis unfolding rem using rel by (auto simp: free_rel_def fq_data_def h'_def)
qed

lemma fq_remove_not_free:
  "free_rel s xs \<Longrightarrow> Blk i \<notin> set xs \<Longrightarrow> fq_remove (Blk i) s = Inl RuntimeError"
  by (simp add: free_rel_def fq_remove_def)

lemma append_loop_links:
  assumes "distinct (l # bs)" and "append_loop bs l h = (l', h')"
  shows "l' = last (l # bs)" and "linked h' (l # bs)"
    and "\<And>a. a \<notin> set (butlast (l # bs)) \<Longrightarrow> next_free_block (h' a) = next_free_block (h a)"
    and "\<And>a. a \<notin> set bs \<Longrightarrow> prev_free_block (h' a) = prev_free_block (h a)"
    and "\<And>a. block_data (h' a) = block_data (h a)"
proof -
  have "l' = last (l # bs) \<and> linked h' (l # bs)
    \<and> (\<forall>a. a \<notin> set (butlast (l # bs)) \<longrightarrow> next_free_block (h' a) = next_free_block (h a))
    \<and> (\<forall>a. a \<notin> set bs \<longrightarrow> prev_free_block (h' a) = prev_free_block (h a))
    \<and> (\<forall>a. block_data (h' a) = block_data (h a))"
    using assms
  proof (induction bs arbitrary: l h)
    case (Cons b bs)
    let ?h = "set_next l (Some b) (set_prev b (Some l) h)"
    have IH: "l' = last (b # bs)" "linked h' (b # bs)"
      "\<forall>a. a \<notin> set (butlast (b # bs)) \<longrightarrow> next_free_block (h' a) = next_free_block (?h a)"
      "\<forall>a. a \<notin> set bs \<longrightarrow> prev_free_block (h' a) = prev_free_block (?h a)"
      "\<forall>a. block_data (h' a) = block_data (?h a)"
      using Cons.IH [of b ?h] Cons.prems by auto
    have "l \<notin> set (butlast (b # bs))" "b \<notin> set bs"
      using Cons.prems(1) by (auto dest: in_set_butlastD split: if_splits)
    then have "next_free_block (h' l) = Some b" "prev_free_block (h' b) = Some l"
      using IH(3,4) by auto
    with IH show ?case by auto
  qed auto
  then show "l' = last (l # bs)" and "linked h' (l # bs)"
    and "\<And>a. a \<notin> set (butlast (l # bs)) \<Longrightarrow> next_free_block (h' a) = next_free_block (h a)"
    and "\<And>a. a \<notin> set bs \<Longrightarrow> prev_free_block (h' a) = prev_free_block (h a)"
    and "\<And>a. block_data (h' a) = block_data (h a)" by auto
qed

lemma append_n_refines:
  assumes rel: "free_rel s xs" and d: "distinct (xs @ bs)"
    and fakes: "FakeHead \<notin> set bs" "FakeTail \<notin> set bs"
  shows "\<exists>s'. append_n bs s = Inr s' \<and> free_rel s' (xs @ bs) \<and> fq_data s' = fq_data s"
proof (cases "bs = []")
  case True
  with rel show ?thesis by (simp add: append_n_def)
next
  case ne: False
  obtain p ps where ps: "FakeHead # xs = ps @ [p]" by (metis append_butlast_last_id list.distinct(1))
  have "linked (heap s) ((FakeHead # xs) @ [FakeTail])" and dd: "distinct ((FakeHead # xs) @ bs @ [FakeTail])"
    using rel d fakes by (auto simp: free_rel_def)
  then have l: "linked (heap s) (ps @ p # [FakeTail])" and dp: "distinct (ps @ p # bs @ [FakeTail])"
    unfolding ps by simp_all
  have lp: "linked (heap s) (ps @ [p])" and tail: "prev_free_block (heap s FakeTail) = Some p"
    using l linked_append [of "heap s" ps p "[FakeTail]"] by auto
  obtain l' h1 where loop: "append_loop bs p (heap s) = (l', h1)" by fastforce
  have dpb: "distinct (p # bs)" using dp by simp
  note L = append_loop_links [OF dpb loop]
  define h' where "h' = set_prev FakeTail (Some l') (set_next l' (Some FakeTail) h1)"
  have app: "append_n bs s = Inr (s\<lparr>heap := h', num_free_blocks := num_free_blocks s + int (length bs)\<rparr>)"
    using ne by (simp add: append_n_def tail loop h'_def)
  obtain cs where cs: "bs = cs @ [l']" using ne L(1) by (metis append_butlast_last_id last.simps)
  have "butlast (p # bs) = p # cs" by (simp add: cs butlast_append)
  note L3 = L(3) [unfolded this] and L4 = L(4) [unfolded cs]
  have "next_free_block (h' a) = next_free_block (heap s a)" if "a \<in> set ps" for a
    using that dp L3 [of a] by (auto simp: h'_def cs)
  moreover have "prev_free_block (h' a) = prev_free_block (heap s a)" if "a \<in> set (tl (ps @ [p]))" for a
    using in_set_tlD [OF that] dp L4 [of a] by (auto simp: h'_def cs)
  ultimately have "linked h' (ps @ [p]) = linked (heap s) (ps @ [p])"
    by (intro linked_cong) auto
  moreover have "linked h' (p # cs @ [l']) = linked h1 (p # cs @ [l'])"
    using dp cs by (intro linked_cong) (auto simp: h'_def butlast_append)
  moreover have "linked h' (l' # [FakeTail])" by (simp add: h'_def)
  ultimately have "linked h' (ps @ p # cs @ [l', FakeTail])"
    using lp L(2) cs linked_append [of h' ps p "cs @ [l', FakeTail]"]
      linked_append [of h' "p # cs" l' "[FakeTail]"] by simp
  then have "linked h' ((FakeHead # xs) @ bs @ [FakeTail])" unfolding ps cs by simp
  moreover have "next_free_block (h' FakeTail) = None" "prev_free_block (h' FakeHead) = None"
    using rel fakes ps cs dp L(3) [of FakeTail] L(4) [of FakeHead]
    by (auto simp: h'_def free_rel_def butlast_append)
  moreover have "prev_free_block (h' (Blk i)) = None \<and> next_free_block (h' (Blk i)) = None"
    if "Blk i \<notin> set (xs @ bs)" for i
  proof -
    have "Blk i \<noteq> p" using ps that by (metis UnCI bref.distinct(1) last_in_set last_snoc list.distinct(1)
          set_ConsD set_append)
    with that show ?thesis using rel L(3,4) [of "Blk i"] cs
      by (auto simp: h'_def free_rel_def butlast_append)
  qed
  ultimately show ?thesis unfolding app using rel d fakes L(5)
    by (auto simp: free_rel_def fq_data_def h'_def)
qed

lemma fq_append_eq_append_n:
  "prev_free_block (heap s FakeTail) \<noteq> None \<Longrightarrow> fq_append b s = append_n [b] s"
  by (auto simp: fq_append_def append_n_def set_next_def set_prev_def fun_eq_iff
      intro!: arg_cong [where f = "\<lambda>h. heap_update (\<lambda>_. h) s"])

lemma fq_append_refines:
  assumes "free_rel s xs" and "Blk i \<notin> set xs"
  shows "\<exists>s'. fq_append (Blk i) s = Inr s' \<and> free_rel s' (xs @ [Blk i]) \<and> fq_data s' = fq_data s"
proof -
  have "linked (heap s) ((FakeHead # xs) @ [FakeTail])" using assms(1) by (simp add: free_rel_def)
  then have "prev_free_block (heap s FakeTail) \<noteq> None"
    by (metis append_butlast_last_id linked_append linked.simps(1) list.distinct(1) option.distinct(1)
        append.assoc append_Cons append_Nil)
  then show ?thesis
    using append_n_refines [OF assms(1), of "[Blk i]"] assms
    by (simp add: fq_append_eq_append_n free_rel_def)
qed

lemma free_blocks_walk_linked:
  assumes "linked h (xs @ [FakeTail])" and "next_free_block (h FakeTail) = None"
  shows "free_blocks_walk h (hd (xs @ [FakeTail])) = Some xs"
  using assms
proof (induction xs)
  case Nil
  then show ?case by (simp add: free_blocks_walk.simps)
next
  case (Cons x xs)
  then have "next_free_block (h x) = Some (hd (xs @ [FakeTail]))" "linked h (xs @ [FakeTail])"
    by (cases xs; simp)+
  with Cons show ?case by (subst free_blocks_walk.simps) simp
qed

lemma get_all_free_blocks_refines: "free_rel s xs \<Longrightarrow> get_all_free_blocks s = Inr (Some xs)"
  using free_blocks_walk_linked [of "heap s" xs]
  by (cases xs) (auto simp: free_rel_def get_all_free_blocks_def)

section \<open>Initialisation\<close>

lemma linked_nthI:
  assumes "\<And>i. Suc i < length ys \<Longrightarrow>
      next_free_block (h (ys ! i)) = Some (ys ! Suc i) \<and> prev_free_block (h (ys ! Suc i)) = Some (ys ! i)"
  shows "linked h ys"
  using assms
proof (induction h ys rule: linked.induct)
  case (1 h a b ys)
  have "linked h (b # ys)"
  proof (rule "1.IH")
    fix i
    assume "Suc i < length (b # ys)"
    then show "next_free_block (h ((b # ys) ! i)) = Some ((b # ys) ! Suc i) \<and>
        prev_free_block (h ((b # ys) ! Suc i)) = Some ((b # ys) ! i)"
      using "1.prems" [of "Suc i"] by simp
  qed
  then show ?case using "1.prems" [of 0] by simp
qed auto

lemma link_step_fields:
  "next_free_block (link_step bs i h a) =
     (if a = bs ! i \<and> Suc i < length bs then Some (bs ! Suc i) else next_free_block (h a))"
  "prev_free_block (link_step bs i h a) =
     (if a = bs ! i \<and> 0 < i then Some (bs ! (i - 1)) else prev_free_block (h a))"
  "block_data (link_step bs i h a) = block_data (h a)"
  by (auto simp: link_step_def Let_def)

lemma link_fold:
  fixes h :: store
  assumes "distinct bs" and "m \<le> length bs"
  defines "h' \<equiv> fold (link_step bs) [0..<m] h"
  shows "(\<forall>i < m. next_free_block (h' (bs ! i)) =
              (if Suc i < length bs then Some (bs ! Suc i) else next_free_block (h (bs ! i))))
       \<and> (\<forall>i < m. prev_free_block (h' (bs ! i)) =
              (if 0 < i then Some (bs ! (i - 1)) else prev_free_block (h (bs ! i))))
       \<and> (\<forall>a. a \<notin> set (take m bs) \<longrightarrow> next_free_block (h' a) = next_free_block (h a)
              \<and> prev_free_block (h' a) = prev_free_block (h a))
       \<and> (\<forall>a. block_data (h' a) = block_data (h a))"
  unfolding h'_def using assms(2)
proof (induction m)
  case (Suc m)
  let ?g = "fold (link_step bs) [0..<m] h"
  have m: "m < length bs" using Suc.prems by simp
  have neq: "bs ! i \<noteq> bs ! m" if "i < m" for i
    using assms(1) m that by (simp add: nth_eq_iff_index_eq)
  have notin: "bs ! m \<notin> set (take m bs)" using neq m by (auto simp: in_set_conv_nth)
  have fold_Suc: "fold (link_step bs) [0..<Suc m] h = link_step bs m ?g" by simp
  have tk: "set (take (Suc m) bs) = insert (bs ! m) (set (take m bs))"
    using m by (simp add: take_Suc_conv_app_nth)
  show ?case
    using Suc.IH Suc.prems neq notin unfolding fold_Suc tk
    by (auto simp: link_step_fields less_Suc_eq)
qed auto

lemma free_queue_init_refines:
  assumes d: "distinct bs" and fakes: "FakeHead \<notin> set bs" "FakeTail \<notin> set bs"
    and fresh: "\<And>i. prev_free_block (heap s (Blk i)) = None \<and> next_free_block (heap s (Blk i)) = None"
  shows "free_rel (free_queue_init bs s) bs"
proof (cases "bs = []")
  case True
  then show ?thesis using fresh by (simp add: free_rel_def free_queue_init_def KVCacheBlock_def)
next
  case ne: False
  define g where "g = fold (link_step bs) [0..<length bs] (heap s)"
  define h where "h = heap (free_queue_init bs s)"
  note F = link_fold [OF d order_refl, of "heap s", folded g_def]
  have hdef: "h = set_next (last bs) (Some FakeTail) (set_prev FakeTail (Some (last bs))
      (set_prev (hd bs) (Some FakeHead) (set_next FakeHead (Some (hd bs))
        (g(FakeHead := KVCacheBlock (-1), FakeTail := KVCacheBlock (-1))))))"
    using ne by (simp add: h_def free_queue_init_def g_def Let_def)
  have nofake: "bs ! i \<noteq> FakeHead" "bs ! i \<noteq> FakeTail" if "i < length bs" for i
    using fakes that by (metis nth_mem)+
  have last: "last bs = bs ! (length bs - 1)" and hd: "hd bs = bs ! 0"
    using ne by (simp_all add: last_conv_nth hd_conv_nth)
  have idx: "bs ! i = bs ! j \<longleftrightarrow> i = j" if "i < length bs" "j < length bs" for i j
    using d that by (simp add: nth_eq_iff_index_eq)
  have mid: "linked h bs"
  proof (rule linked_nthI)
    fix i
    assume i: "Suc i < length bs"
    then show "next_free_block (h (bs ! i)) = Some (bs ! Suc i) \<and> prev_free_block (h (bs ! Suc i)) = Some (bs ! i)"
      using ne F nofake [of i] nofake [of "Suc i"] idx [of i "length bs - 1"] idx [of "Suc i" 0]
      by (auto simp: hdef last hd)
  qed
  have hl: "hd bs \<noteq> FakeTail" "last bs \<noteq> FakeHead" "hd bs \<noteq> FakeHead" "last bs \<noteq> FakeTail"
    using ne fakes by (metis hd_in_set last_in_set)+
  have ends: "next_free_block (h FakeHead) = Some (hd bs)" "prev_free_block (h (hd bs)) = Some FakeHead"
    "next_free_block (h (last bs)) = Some FakeTail" "prev_free_block (h FakeTail) = Some (last bs)"
    using hl by (auto simp: hdef)
  obtain c cs where c: "bs = c # cs" using ne by (cases bs) auto
  have "linked h (FakeHead # bs)" using mid ends c by simp
  then have "linked h ((FakeHead # butlast bs) @ last bs # [FakeTail])"
    using ne ends by (subst linked_append) simp
  moreover have "(FakeHead # butlast bs) @ last bs # [FakeTail] = FakeHead # bs @ [FakeTail]"
    using append_butlast_last_id [OF ne] by (metis append.assoc append_Cons append_Nil)
  ultimately have "linked h (FakeHead # bs @ [FakeTail])" by (simp only:)
  moreover have "next_free_block (h FakeTail) = None" "prev_free_block (h FakeHead) = None"
    using hl by (auto simp: hdef KVCacheBlock_def)
  moreover have "prev_free_block (h (Blk i)) = None \<and> next_free_block (h (Blk i)) = None"
    if "Blk i \<notin> set bs" for i
  proof -
    have "Blk i \<noteq> hd bs" "Blk i \<noteq> last bs" using that ne by auto
    then show ?thesis using F that fresh [of i] by (simp add: hdef)
  qed
  ultimately show ?thesis using d fakes ne
    by (auto simp: free_rel_def h_def free_queue_init_def Let_def)
qed

lemma free_queue_init_data:
  assumes "FakeHead \<notin> set bs" "FakeTail \<notin> set bs" and d: "distinct bs"
  shows "block_data (heap (free_queue_init bs s) (Blk i)) = block_data (heap s (Blk i))"
    and "fq_state.more (free_queue_init bs s) = fq_state.more s"
  using link_fold [OF d order_refl, of "heap s"]
  by (simp_all add: free_queue_init_def Let_def)

section \<open>The contract of the free list\<close>

text \<open>
  What the block pool relies on: the free list behaves like a list of blocks from which the first
  blocks are taken, to the end of which blocks are appended, and from which any block can be
  removed; \<open>data\<close> is the part of the state that no operation changes.
\<close>

locale free_list =
  fixes rel :: "'s \<Rightarrow> 'b list \<Rightarrow> bool"
    and data :: "'s \<Rightarrow> 'd"
    and valid :: "'b \<Rightarrow> bool"
    and pop :: "'s \<Rightarrow> ('b \<times> 's) result"
    and pop_n :: "int \<Rightarrow> 's \<Rightarrow> ('b list \<times> 's) result"
    and rm :: "'b \<Rightarrow> 's \<Rightarrow> 's result"
    and add_n :: "'b list \<Rightarrow> 's \<Rightarrow> 's result"
  assumes rel_valid: "rel s xs \<Longrightarrow> list_all valid xs \<and> distinct xs"
    and pop_law: "rel s (x # xs) \<Longrightarrow> \<exists>s'. pop s = Inr (x, s') \<and> rel s' xs \<and> data s' = data s"
    and pop_n_law: "rel s (xs @ ys) \<Longrightarrow>
      \<exists>s'. pop_n (int (length xs)) s = Inr (xs, s') \<and> rel s' ys \<and> data s' = data s"
    and rm_law: "rel s (xs @ x # ys) \<Longrightarrow>
      \<exists>s'. rm x s = Inr s' \<and> rel s' (xs @ ys) \<and> data s' = data s"
    and add_n_law: "rel s xs \<Longrightarrow> distinct (xs @ bs) \<Longrightarrow> list_all valid bs \<Longrightarrow>
      \<exists>s'. add_n bs s = Inr s' \<and> rel s' (xs @ bs) \<and> data s' = data s"
begin

lemma pop_n_take:
  assumes "rel s xs" and "n \<le> length xs"
  shows "\<exists>s'. pop_n (int n) s = Inr (take n xs, s') \<and> rel s' (drop n xs) \<and> data s' = data s"
  using pop_n_law [of s "take n xs" "drop n xs"] assms by simp

lemma rm_filter:
  assumes "rel s xs" and "x \<in> set xs"
  shows "\<exists>s'. rm x s = Inr s' \<and> rel s' (removeAll x xs) \<and> data s' = data s"
proof -
  from assms(2) obtain as bs where xs: "xs = as @ x # bs" by (meson split_list)
  with rel_valid assms(1) have "x \<notin> set as" "x \<notin> set bs" by fastforce+
  then have "removeAll x xs = as @ bs" by (simp add: xs)
  then show ?thesis using rm_law assms(1) xs by simp
qed

text \<open>Eviction order: what is given back last is handed out last.\<close>

lemma give_back_fifo:
  assumes "rel s xs" and "distinct (xs @ bs)" and "list_all valid bs" and "n \<le> length xs"
  shows "\<exists>s1 s2. add_n bs s = Inr s1 \<and> pop_n (int n) s1 = Inr (take n xs, s2)
    \<and> rel s2 (drop n xs @ bs) \<and> data s2 = data s"
proof -
  obtain s1 where s1: "add_n bs s = Inr s1" "rel s1 (xs @ bs)" "data s1 = data s"
    using add_n_law assms by blast
  moreover from pop_n_take [OF s1(2), of n] assms(4)
  obtain s2 where "pop_n (int n) s1 = Inr (take n xs, s2)" "rel s2 (drop n xs @ bs)" "data s2 = data s1"
    by auto
  ultimately show ?thesis by metis
qed

end

definition is_blk :: "bref \<Rightarrow> bool" where
  "is_blk b \<longleftrightarrow> b \<noteq> FakeHead \<and> b \<noteq> FakeTail"

lemma is_blk_iff: "is_blk b \<longleftrightarrow> (\<exists>i. b = Blk i)"
  by (cases b) (auto simp: is_blk_def)

interpretation fq: free_list free_rel fq_data is_blk popleft popleft_n fq_remove append_n
proof
  show "list_all is_blk xs \<and> distinct xs" if "free_rel s xs" for s :: "'a fq_state_scheme" and xs
    using that by (auto simp: free_rel_def is_blk_def list_all_iff)
  show "\<exists>s'. append_n bs s = Inr s' \<and> free_rel s' (xs @ bs) \<and> fq_data s' = fq_data s"
    if "free_rel s xs" "distinct (xs @ bs)" "list_all is_blk bs" for s :: "'a fq_state_scheme" and xs bs
    using that by (intro append_n_refines) (auto simp: list_all_iff is_blk_def)
qed (rule popleft_refines popleft_n_refines fq_remove_refines, assumption)+

section \<open>Properties\<close>

definition sample_queue :: "nat \<Rightarrow> fq_state" where
  "sample_queue n = free_queue_init (map Blk [0..<n])
     \<lparr>heap = (\<lambda>b. case b of Blk i \<Rightarrow> KVCacheBlock (int i) | _ \<Rightarrow> KVCacheBlock (-1)), num_free_blocks = 0\<rparr>"

lemma sample_queue_rel: "free_rel (sample_queue n) (map Blk [0..<n])"
  unfolding sample_queue_def
  by (rule free_queue_init_refines) (auto simp: distinct_map inj_on_def KVCacheBlock_def)

text \<open>C15: the free queue is first in, first out: blocks given back with \<open>append_n\<close> are handed out by
  \<open>popleft_n\<close> only after everything that was in the queue before, in the order in which they were
  given back, and neither operation changes any data of a block.\<close>

theorem free_queue_fifo:
  assumes "free_rel s xs" and "distinct (xs @ bs)" and "list_all is_blk bs" and "n \<le> length xs"
  shows "\<exists>s1 s2. append_n bs s = Inr s1 \<and> popleft_n (int n) s1 = Inr (take n xs, s2)
    \<and> free_rel s2 (drop n xs @ bs) \<and> fq_data s2 = fq_data s"
  using assms by (rule fq.give_back_fifo)

theorem free_queue_fifo_witness:
  "\<exists>s1 s2. append_n [Blk 7, Blk 5] (sample_queue 3) = Inr s1
    \<and> popleft_n (int 2) s1 = Inr (take 2 (map Blk [0..<3]), s2)
    \<and> free_rel s2 (drop 2 (map Blk [0..<3]) @ [Blk 7, Blk 5]) \<and> fq_data s2 = fq_data (sample_queue 3)"
  by (rule free_queue_fifo [OF sample_queue_rel]) (auto simp: distinct_map inj_on_def is_blk_def)

text \<open>A block anywhere in the free queue is unlinked in place: \<open>remove\<close> succeeds, leaves the order
  of the other blocks unchanged, and the walk \<open>get_all_free_blocks\<close> then ends and returns exactly the
  remaining blocks.\<close>

theorem free_queue_remove:
  assumes "free_rel s xs" and "x \<in> set xs"
  shows "\<exists>s'. fq_remove x s = Inr s' \<and> free_rel s' (removeAll x xs)
    \<and> get_all_free_blocks s' = Inr (Some (removeAll x xs)) \<and> fq_data s' = fq_data s"
  using fq.rm_filter [OF assms] get_all_free_blocks_refines by blast

theorem free_queue_remove_witness:
  "\<exists>s'. fq_remove (Blk 1) (sample_queue 3) = Inr s' \<and> free_rel s' (removeAll (Blk 1) (map Blk [0..<3]))
    \<and> get_all_free_blocks s' = Inr (Some (removeAll (Blk 1) (map Blk [0..<3])))
    \<and> fq_data s' = fq_data (sample_queue 3)"
  by (rule free_queue_remove [OF sample_queue_rel]) auto

end
