(* ===== verification/Request.thy ===== *)
theory Request
  imports Prelude "HOL-Library.List_Lexorder" "HOL-Library.Char_ord" "HOL-Library.Product_Lexorder"
begin

text \<open>
  Requests: \<open>vllm/v1/request.py\<close> (the class \<open>Request\<close>, \<open>RequestStatus\<close> and its finish reasons),
  \<open>length_from_prompt_token_ids_or_embeds\<close> of \<open>vllm/utils\<close>, \<open>PlaceholderRange\<close> of
  \<open>vllm/multimodal/inputs.py\<close> and \<open>check_stop\<close> and \<open>remove_all\<close> of \<open>vllm/v1/core/sched/utils.py\<close>.

  A request is a record.  The closure \<open>get_hash_new_full_blocks\<close> is an argument of the operations
  that call it; \<open>time.time()\<close> is the argument \<open>now\<close>; the address \<open>id(self)\<close> is the field
  \<open>obj_id\<close>.  Payloads the core never looks into (trace headers, KV transfer parameters,
  structured output parameters) are strings.
\<close>

section \<open>Data\<close>

datatype request_status =
    WAITING | WAITING_FOR_FSM | WAITING_FOR_REMOTE_KVS | RUNNING | PREEMPTED
  | FINISHED_STOPPED | FINISHED_LENGTH_CAPPED | FINISHED_ABORTED | FINISHED_IGNORED | FINISHED_ERROR

datatype finish_reason = FR_STOP | FR_LENGTH | FR_ABORT | FR_ERROR

text \<open>\<open>enum.auto()\<close> numbers the members from 1 in the order of their definition.\<close>

fun status_value :: "request_status \<Rightarrow> int" where
  "status_value WAITING = 1"
| "status_value WAITING_FOR_FSM = 2"
| "status_value WAITING_FOR_REMOTE_KVS = 3"
| "status_value RUNNING = 4"
| "status_value PREEMPTED = 5"
| "status_value FINISHED_STOPPED = 6"
| "status_value FINISHED_LENGTH_CAPPED = 7"
| "status_value FINISHED_ABORTED = 8"
| "status_value FINISHED_IGNORED = 9"
| "status_value FINISHED_ERROR = 10"

definition status_is_finished :: "request_status \<Rightarrow> bool" where
  "status_is_finished st \<longleftrightarrow> status_value PREEMPTED < status_value st"

fun get_finished_reason :: "request_status \<Rightarrow> finish_reason option" where
  "get_finished_reason FINISHED_STOPPED = Some FR_STOP"
| "get_finished_reason FINISHED_LENGTH_CAPPED = Some FR_LENGTH"
| "get_finished_reason FINISHED_ABORTED = Some FR_ABORT"
| "get_finished_reason FINISHED_IGNORED = Some FR_LENGTH"
| "get_finished_reason FINISHED_ERROR = Some FR_ERROR"
| "get_finished_reason _ = None"

datatype engine_core_event_type = EV_QUEUED | EV_SCHEDULED | EV_PREEMPTED

text \<open>The fields of \<open>SamplingParams\<close> and \<open>PoolingParams\<close> that the core reads.\<close>

record sampling_params =
  sp_max_tokens :: "int option"
  sp_min_tokens :: int
  sp_ignore_eos :: bool
  sp_stop_token_ids :: "int list option"
  sp_skip_reading_prefix_cache :: "bool option"
  sp_structured_outputs :: "string option"
  sp_kv_transfer_params :: "string option"

record pooling_params =
  pp_skip_reading_prefix_cache :: "bool option"

record lora_request =
  adapter_id :: int
  lora_name :: string

record placeholder_range =
  offset :: int
  pr_length :: int
  is_embed :: "bool list option"

record mm_feature =
  mm_identifier :: string
  mm_position :: placeholder_range

definition get_num_embeds :: "placeholder_range \<Rightarrow> int result" where
  "get_num_embeds p =
     (case is_embed p of
        None \<Rightarrow> Inr (pr_length p)
      | Some em \<Rightarrow> if em = [] then Inl IndexError else Inr (int (length (filter id em))))"

record request =
  request_id :: string
  obj_id :: nat
  client_index :: int
  priority :: int
  arrival_time :: real
  sampling :: "sampling_params option"
  pooling :: "pooling_params option"
  eos_token_id :: "int option"
  lora :: "lora_request option"
  structured_output_request :: "string option"
  status :: request_status
  events :: "(engine_core_event_type \<times> real) list"
  stop_reason :: "int option"
  kv_transfer_params :: "string option"
  max_tokens :: int
  prompt_token_ids :: "int list option"
  prompt_embeds :: "bytes list option"
  num_prompt_tokens :: int
  output_token_ids :: "int list"
  all_token_ids :: "int list"
  num_output_placeholders :: int
  discard_latest_async_tokens :: bool
  spec_token_ids :: "int list"
  num_computed_tokens :: int
  cache_salt :: "string option"
  mm_features :: "mm_feature list"
  num_cached_tokens :: int
  num_nans_in_logits :: int
  num_preemptions :: int
  num_external_computed_tokens :: int
  block_hashes :: "bytes list"
  skip_reading_prefix_cache :: bool

section \<open>Operations\<close>

definition length_from_prompt_token_ids_or_embeds ::
  "int list option \<Rightarrow> bytes list option \<Rightarrow> int result" where
  "length_from_prompt_token_ids_or_embeds toks embeds =
     (case toks of
        None \<Rightarrow> (case embeds of None \<Rightarrow> Inl ValueError | Some e \<Rightarrow> Inr (int (length e)))
      | Some t \<Rightarrow>
          (case embeds of
             None \<Rightarrow> Inr (int (length t))
           | Some e \<Rightarrow> if length e \<noteq> length t then Inl ValueError else Inr (int (length t))))"

definition get_skip_reading_prefix_cache ::
  "sampling_params option \<Rightarrow> pooling_params option \<Rightarrow> bool" where
  "get_skip_reading_prefix_cache sp pp =
     (case Option.bind sp sp_skip_reading_prefix_cache of
        Some b \<Rightarrow> b
      | None \<Rightarrow> (case Option.bind pp pp_skip_reading_prefix_cache of Some b \<Rightarrow> b | None \<Rightarrow> False))"

definition attach_block_hashes :: "(request \<Rightarrow> bytes list result) option \<Rightarrow> request \<Rightarrow> request result" where
  "attach_block_hashes hasher r =
     (case hasher of
        None \<Rightarrow> Inr r
      | Some f \<Rightarrow> rbind (f r) (\<lambda>bhs. Inr (r\<lparr>block_hashes := bhs\<rparr>)))"

text \<open>The constructor; \<open>hasher\<close> is the optional \<open>block_hasher\<close>, called on the finished object.\<close>

definition Request_init ::
  "(request \<Rightarrow> bytes list result) option \<Rightarrow> real \<Rightarrow> string \<Rightarrow> nat \<Rightarrow> int list option \<Rightarrow>
   sampling_params option \<Rightarrow> pooling_params option \<Rightarrow> int option \<Rightarrow> int \<Rightarrow> real option \<Rightarrow>
   bytes list option \<Rightarrow> mm_feature list option \<Rightarrow> lora_request option \<Rightarrow> string option \<Rightarrow> int \<Rightarrow>
   request result" where
  "Request_init hasher now rid oid toks sp pp eos client arrival embeds mms lo salt prio =
     (let so = Option.bind sp sp_structured_outputs in
      rbind
        (case pp of
           Some _ \<Rightarrow> Inr (1, WAITING, None)
         | None \<Rightarrow>
             (case sp of
                Some p \<Rightarrow>
                  (case sp_max_tokens p of
                     None \<Rightarrow> Inl AssertionError
                   | Some m \<Rightarrow> Inr (m, if so \<noteq> None then WAITING_FOR_FSM else WAITING,
                                 sp_kv_transfer_params p))
              | None \<Rightarrow> Inl ValueError))
        (\<lambda>(maxtok, st, kvp).
          rbind (length_from_prompt_token_ids_or_embeds toks embeds)
            (\<lambda>npt.
              let r = \<lparr>request_id = rid, obj_id = oid, client_index = client, priority = prio,
                arrival_time = (case arrival of None \<Rightarrow> now | Some t \<Rightarrow> t),
                sampling = sp, pooling = pp, eos_token_id = eos, lora = lo,
                structured_output_request = so, status = st, events = [], stop_reason = None,
                kv_transfer_params = kvp, max_tokens = maxtok, prompt_token_ids = toks,
                prompt_embeds = embeds, num_prompt_tokens = npt, output_token_ids = [],
                all_token_ids = (case toks of Some t \<Rightarrow> t | None \<Rightarrow> replicate (nat npt) 0),
                num_output_placeholders = 0, discard_latest_async_tokens = False,
                spec_token_ids = [], num_computed_tokens = 0, cache_salt = salt,
                mm_features = (case mms of None \<Rightarrow> [] | Some m \<Rightarrow> m),
                num_cached_tokens = -1, num_nans_in_logits = 0, num_preemptions = 0,
                num_external_computed_tokens = 0, block_hashes = [],
                skip_reading_prefix_cache = get_skip_reading_prefix_cache sp pp\<rparr>
              in attach_block_hashes hasher r)))"

text \<open>\<open>append_output_token_ids\<close>; a single token id is the list with that element.\<close>

definition append_output_token_ids ::
  "(request \<Rightarrow> bytes list result) option \<Rightarrow> int list \<Rightarrow> request \<Rightarrow> request result" where
  "append_output_token_ids hasher toks r =
     (let r1 = r\<lparr>output_token_ids := output_token_ids r @ toks, all_token_ids := all_token_ids r @ toks\<rparr>
      in case hasher of
           None \<Rightarrow> Inr r1
         | Some f \<Rightarrow> rbind (f r1) (\<lambda>bhs. Inr (r1\<lparr>block_hashes := block_hashes r1 @ bhs\<rparr>)))"

definition num_tokens :: "request \<Rightarrow> int" where
  "num_tokens r = int (length (all_token_ids r))"

definition num_tokens_with_spec :: "request \<Rightarrow> int" where
  "num_tokens_with_spec r = int (length (all_token_ids r)) + int (length (spec_token_ids r))"

definition num_output_tokens :: "request \<Rightarrow> int" where
  "num_output_tokens r = int (length (output_token_ids r))"

definition is_finished :: "request \<Rightarrow> bool" where
  "is_finished r \<longleftrightarrow> status_is_finished (status r)"

definition get_num_encoder_embeds :: "request \<Rightarrow> nat \<Rightarrow> int result" where
  "get_num_encoder_embeds r i =
     py_assert (i < length (mm_features r)) (get_num_embeds (mm_position (mm_features r ! i)))"

definition record_event :: "engine_core_event_type \<Rightarrow> real \<Rightarrow> request \<Rightarrow> request" where
  "record_event ev t r = r\<lparr>events := events r @ [(ev, t)]\<rparr>"

definition take_events :: "request \<Rightarrow> (engine_core_event_type \<times> real) list option \<times> request" where
  "take_events r = (if events r = [] then (None, r) else (Some (events r), r\<lparr>events := []\<rparr>))"

text \<open>\<open>Request.__lt__\<close>.\<close>

definition request_lt :: "request \<Rightarrow> request \<Rightarrow> bool" where
  "request_lt a b =
     (if priority a \<noteq> priority b then priority a < priority b
      else if arrival_time a \<noteq> arrival_time b then arrival_time a < arrival_time b
      else if request_id a \<noteq> request_id b then request_id a < request_id b
      else obj_id a < obj_id b)"

definition check_stop :: "request \<Rightarrow> int \<Rightarrow> (bool \<times> request) result" where
  "check_stop r max_model_len =
     py_assert (pooling r = None)
       (case sampling r of
          None \<Rightarrow> Inl AssertionError
        | Some sp \<Rightarrow>
            if num_output_tokens r < sp_min_tokens sp then Inr (False, r)
            else rbind (py_index (output_token_ids r) (-1))
              (\<lambda>last_token_id.
                if \<not> sp_ignore_eos sp \<and> Some last_token_id = eos_token_id r
                then Inr (True, r\<lparr>status := FINISHED_STOPPED\<rparr>)
                else if last_token_id \<in> set (case sp_stop_token_ids sp of None \<Rightarrow> [] | Some ts \<Rightarrow> ts)
                then Inr (True, r\<lparr>status := FINISHED_STOPPED, stop_reason := Some last_token_id\<rparr>)
                else if max_model_len \<le> num_tokens r \<or> max_tokens r \<le> num_output_tokens r
                then Inr (True, r\<lparr>status := FINISHED_LENGTH_CAPPED\<rparr>)
                else Inr (False, r)))"

text \<open>\<open>remove_all\<close> of a list and a set, given as a duplicate-free list.\<close>

definition remove_all :: "'a list \<Rightarrow> 'a list \<Rightarrow> 'a list" where
  "remove_all lst items =
     (if items = [] then lst
      else if length items = 1 then remove1 (hd items) lst
      else filter (\<lambda>x. x \<notin> set items) lst)"

section \<open>Lemmas\<close>

text \<open>The order of \<open>__lt__\<close> is the lexicographic order of the keys.\<close>

definition request_key :: "request \<Rightarrow> int \<times> real \<times> string \<times> nat" where
  "request_key r = (priority r, arrival_time r, request_id r, obj_id r)"

lemma request_lt_key: "request_lt a b \<longleftrightarrow> request_key a < request_key b"
  by (auto simp: request_lt_def request_key_def less_prod_def)

text \<open>A well-formed request: its token list is the prompt followed by the output.\<close>

definition request_wf :: "request \<Rightarrow> bool" where
  "request_wf r \<longleftrightarrow>
     (\<exists>p. all_token_ids r = p @ output_token_ids r \<and> int (length p) = num_prompt_tokens r
       \<and> (prompt_token_ids r \<noteq> None \<longrightarrow> prompt_token_ids r = Some p))"

lemma Request_init_attach:
  assumes "Request_init hasher now rid oid toks sp pp eos client arrival embeds mms lo salt prio = Inr r"
  shows "\<exists>r0. block_hashes r0 = [] \<and> attach_block_hashes hasher r0 = Inr r"
  using assms unfolding Request_init_def Let_def rbind_Inr_iff split_paired_Ex case_prod_conv
  by (elim exE conjE) (intro exI conjI, erule_tac [2] asm_rl, simp)

lemma Request_init_wf:
  assumes "Request_init hasher now rid oid toks sp pp eos client arrival embeds mms lo salt prio = Inr r"
  shows "request_wf r"
  using assms unfolding Request_init_def request_wf_def
  by (auto simp: length_from_prompt_token_ids_or_embeds_def attach_block_hashes_def Let_def
      split: option.splits if_splits)

lemma append_output_token_ids_wf:
  assumes "request_wf r" and "append_output_token_ids hasher toks r = Inr r'"
  shows "request_wf r' \<and> num_tokens r' = num_tokens r + int (length toks)"
  using assms unfolding append_output_token_ids_def request_wf_def num_tokens_def
  by (auto simp: Let_def split: option.splits)

lemma finished_has_reason: "status_is_finished st \<longleftrightarrow> get_finished_reason st \<noteq> None"
  by (cases st) (auto simp: status_is_finished_def)

text \<open>The outcomes of \<open>check_stop\<close>, by the branch that is taken.\<close>

lemma check_stop_cases:
  assumes "check_stop r n = Inr (b, r')"
  obtains (go_on) "\<not> b" "r' = r"
    | (eos) "b" "r' = r\<lparr>status := FINISHED_STOPPED\<rparr>"
    | (stop_token) t where "b" "r' = r\<lparr>status := FINISHED_STOPPED, stop_reason := Some t\<rparr>"
    | (length_capped) "b" "r' = r\<lparr>status := FINISHED_LENGTH_CAPPED\<rparr>"
proof -
  obtain sp where sp: "sampling r = Some sp" using assms by (cases "sampling r") (auto simp: check_stop_def)
  let ?go = "Inr (False, r) :: (bool \<times> request) result"
  have "check_stop r n = ?go \<or> check_stop r n = Inr (True, r\<lparr>status := FINISHED_STOPPED\<rparr>)
    \<or> (\<exists>t. check_stop r n = Inr (True, r\<lparr>status := FINISHED_STOPPED, stop_reason := Some t\<rparr>))
    \<or> check_stop r n = Inr (True, r\<lparr>status := FINISHED_LENGTH_CAPPED\<rparr>)
    \<or> (\<exists>e. check_stop r n = Inl e)"
  proof (cases "py_index (output_token_ids r) (-1)")
    case (Inr t)
    show ?thesis unfolding check_stop_def sp option.case py_assert_def Inr rbind.simps
      by (simp only: if_True if_False split: if_split) blast
  qed (simp add: check_stop_def sp py_assert_def)
  with assms that show thesis by auto
qed

lemma check_stop_keeps_tokens:
  assumes "check_stop r n = Inr (b, r')"
  shows "output_token_ids r' = output_token_ids r \<and> all_token_ids r' = all_token_ids r"
  using assms by (cases rule: check_stop_cases) simp_all

lemma check_stop_total:
  assumes "pooling r = None" and "sampling r = Some sp" and "output_token_ids r \<noteq> []"
  shows "\<exists>b r'. check_stop r n = Inr (b, r')"
proof -
  have "py_index (output_token_ids r) (-1) = Inr (last (output_token_ids r))" using assms by simp
  then show ?thesis
    unfolding check_stop_def py_assert_def assms(1,2) option.case rbind.simps
    by (simp only: rbind.simps if_True if_False HOL.simp_thms split: if_split) blast
qed

lemma remove_all_filter:
  assumes "distinct lst"
  shows "remove_all lst items = filter (\<lambda>x. x \<notin> set items) lst"
proof (cases "length items = 1")
  case True
  then obtain x where "items = [x]" by (cases items) auto
  then show ?thesis
    using assms by (simp add: remove_all_def distinct_remove1_removeAll removeAll_filter_not_eq eq_commute)
qed (simp add: remove_all_def)

section \<open>A concrete request\<close>

text \<open>The generation request that the witnesses of the development run on: \<open>max_tokens = 16\<close>,
  everything else at its default.\<close>

definition sample_request :: "string \<Rightarrow> int list \<Rightarrow> request" where
  "sample_request rid toks =
     \<lparr>request_id = rid, obj_id = 0, client_index = 0, priority = 0, arrival_time = 0,
      sampling = Some \<lparr>sp_max_tokens = Some 16, sp_min_tokens = 0, sp_ignore_eos = False,
        sp_stop_token_ids = None, sp_skip_reading_prefix_cache = None, sp_structured_outputs = None,
        sp_kv_transfer_params = None\<rparr>,
      pooling = None, eos_token_id = Some 2, lora = None, structured_output_request = None,
      status = WAITING, events = [], stop_reason = None, kv_transfer_params = None, max_tokens = 16,
      prompt_token_ids = Some toks, prompt_embeds = None, num_prompt_tokens = int (length toks),
      output_token_ids = [], all_token_ids = toks, num_output_placeholders = 0,
      discard_latest_async_tokens = False, spec_token_ids = [], num_computed_tokens = 0,
      cache_salt = None, mm_features = [], num_cached_tokens = -1, num_nans_in_logits = 0,
      num_preemptions = 0, num_external_computed_tokens = 0, block_hashes = [],
      skip_reading_prefix_cache = False\<rparr>"

end
