(* ===== verification/Block_Hash.thy ===== *)
theory Block_Hash
  imports Request
begin

text \<open>
  Block hashes: the hashing half of \<open>vllm/v1/core/kv_cache_utils.py\<close>.  A block hash covers the
  tokens of the block, the extra keys (LoRA name, multimodal identifiers, cache salt, prompt
  embeddings) and, through the parent hash, everything before the block.

  The hash function (SHA-256 or xxHash of a serialised tuple) and the seed \<open>NONE_HASH\<close> are
  parameters \<open>H\<close> and \<open>nh\<close>.  That no two inputs the program hashes collide is the named
  hypothesis \<open>hash_ideal\<close>.
\<close>

section \<open>Packing a hash and a group id\<close>

definition int_to_bytes4 :: "int \<Rightarrow> bytes result" where
  "int_to_bytes4 n =
     (if 0 \<le> n \<and> n < 2 ^ 32
      then Inr [word_of_int (n div 2 ^ 24), word_of_int (n div 2 ^ 16), word_of_int (n div 2 ^ 8),
                word_of_int n]
      else Inl OverflowError)"

definition int_from_bytes :: "bytes \<Rightarrow> int" where
  "int_from_bytes bs = fold (\<lambda>b acc. acc * 256 + uint b) bs 0"

definition make_block_hash_with_group_id :: "bytes \<Rightarrow> int \<Rightarrow> bytes result" where
  "make_block_hash_with_group_id bh group_id =
     rbind (int_to_bytes4 group_id) (\<lambda>gid. Inr (bh @ gid))"

definition get_block_hash :: "bytes \<Rightarrow> bytes" where
  "get_block_hash key = take (length key - 4) key"

definition get_group_id :: "bytes \<Rightarrow> int" where
  "get_group_id key = int_from_bytes (drop (length key - 4) key)"

datatype external_block_hash = HashBytes bytes | HashInt int

text \<open>\<open>use_int\<close> is \<open>envs.VLLM_KV_EVENTS_USE_INT_BLOCK_HASHES\<close>.\<close>

definition maybe_convert_block_hash :: "bool \<Rightarrow> bytes \<Rightarrow> external_block_hash" where
  "maybe_convert_block_hash use_int hash_bytes =
     (if \<not> use_int then HashBytes hash_bytes
      else HashInt (int_from_bytes hash_bytes mod 2 ^ 64))"

section \<open>Extra keys\<close>

datatype extra_key = KStr string | KBytes bytes

definition need_extra_keys :: "request \<Rightarrow> bool" where
  "need_extra_keys r \<longleftrightarrow> mm_features r \<noteq> [] \<or> lora r \<noteq> None \<or> cache_salt r \<noteq> None"

function mm_keys_loop ::
  "mm_feature list \<Rightarrow> int \<Rightarrow> int \<Rightarrow> nat \<Rightarrow> extra_key list \<times> nat" where
  "mm_keys_loop fs start_token_idx end_token_idx cur =
     (if cur < length fs then
        let f = fs ! cur; off = offset (mm_position f); len = pr_length (mm_position f)
        in if off < end_token_idx then
             if off + len < start_token_idx
             then mm_keys_loop fs start_token_idx end_token_idx (cur + 1)
             else if off + len \<le> end_token_idx
             then (let (ks, c) = mm_keys_loop fs start_token_idx end_token_idx (cur + 1)
                   in (KStr (mm_identifier f) # ks, c))
             else ([KStr (mm_identifier f)], cur)
           else ([], cur)
      else ([], cur))"
  by pat_completeness auto
termination
  by (relation "measure (\<lambda>(fs, st, en, cur). length fs - cur)") auto

declare mm_keys_loop.simps [simp del]

definition gen_mm_extra_hash_keys ::
  "request \<Rightarrow> int \<Rightarrow> int \<Rightarrow> int \<Rightarrow> (extra_key list \<times> int) result" where
  "gen_mm_extra_hash_keys r start_token_idx end_token_idx start_mm_idx =
     (let fs = mm_features r in
      if fs = [] then Inr ([], start_mm_idx)
      else let last_pos = mm_position (last fs) in
        if offset last_pos + pr_length last_pos < start_token_idx then Inr ([], start_mm_idx)
        else
          rbind
            (if start_mm_idx < 0
             then py_assert (- start_mm_idx \<le> int (length fs)) (Inr (int (length fs) + start_mm_idx))
             else Inr start_mm_idx)
            (\<lambda>idx. let (ks, c) = mm_keys_loop fs start_token_idx end_token_idx (nat idx)
                   in Inr (ks, int c)))"

definition gen_lora_extra_hash_keys :: "request \<Rightarrow> extra_key list" where
  "gen_lora_extra_hash_keys r = (case lora r of None \<Rightarrow> [] | Some l \<Rightarrow> [KStr (lora_name l)])"

text \<open>The bytes of the rows \<open>start..end\<close> of the prompt embedding tensor.\<close>

definition gen_prompt_embeds_extra_hash_keys :: "request \<Rightarrow> nat \<Rightarrow> nat \<Rightarrow> extra_key list" where
  "gen_prompt_embeds_extra_hash_keys r start_token_idx end_token_idx =
     (case prompt_embeds r of
        None \<Rightarrow> []
      | Some rows \<Rightarrow>
          [KBytes (concat (take (end_token_idx - start_token_idx) (drop start_token_idx rows)))])"

definition generate_block_hash_extra_keys ::
  "request \<Rightarrow> nat \<Rightarrow> nat \<Rightarrow> int \<Rightarrow> (extra_key list option \<times> int) result" where
  "generate_block_hash_extra_keys r start_token_idx end_token_idx start_mm_idx =
     rbind (gen_mm_extra_hash_keys r (int start_token_idx) (int end_token_idx) start_mm_idx)
       (\<lambda>(mm_keys, new_start_mm_idx).
          let salt_keys = (case cache_salt r of
                             None \<Rightarrow> []
                           | Some salt \<Rightarrow> if start_token_idx = 0 \<and> salt \<noteq> [] then [KStr salt] else []);
              ks = gen_lora_extra_hash_keys r @ mm_keys @ salt_keys
                     @ gen_prompt_embeds_extra_hash_keys r start_token_idx end_token_idx
          in Inr (if ks = [] then None else Some ks, new_start_mm_idx))"

section \<open>The hash chain\<close>

type_synonym hash_input = "bytes \<times> int list \<times> extra_key list option"
type_synonym hash_fn = "hash_input \<Rightarrow> bytes"

definition hash_block_tokens ::
  "hash_fn \<Rightarrow> bytes \<Rightarrow> bytes option \<Rightarrow> int list \<Rightarrow> extra_key list option \<Rightarrow> bytes" where
  "hash_block_tokens H nh parent toks ks =
     (let p = (case parent of None \<Rightarrow> nh | Some b \<Rightarrow> if b = [] then nh else b) in H (p, toks, ks))"

text \<open>The \<open>while True\<close> loop of \<open>request_block_hasher\<close>; the block size is positive.\<close>

function hasher_loop ::
  "hash_fn \<Rightarrow> bytes \<Rightarrow> nat \<Rightarrow> request \<Rightarrow> nat \<Rightarrow> int \<Rightarrow> bytes option \<Rightarrow> bytes list result" where
  "hasher_loop H nh bs r start_token_idx curr_mm_idx prev =
     (let end_token_idx = start_token_idx + bs in
      if bs = 0 \<or> length (all_token_ids r) < end_token_idx then Inr []
      else
        rbind (generate_block_hash_extra_keys r start_token_idx end_token_idx curr_mm_idx)
          (\<lambda>(ks, mm').
             let bh = hash_block_tokens H nh prev (take bs (drop start_token_idx (all_token_ids r))) ks
             in rbind (hasher_loop H nh bs r end_token_idx mm' (Some bh)) (\<lambda>rest. Inr (bh # rest))))"
  by pat_completeness auto
termination
  by (relation "measure (\<lambda>(H, nh, bs, r, st, mm, prev). length (all_token_ids r) - st)") auto

declare hasher_loop.simps [simp del]

definition request_block_hasher :: "hash_fn \<Rightarrow> bytes \<Rightarrow> nat \<Rightarrow> request \<Rightarrow> bytes list result" where
  "request_block_hasher H nh bs r =
     (let start_token_idx = length (block_hashes r) * bs in
      if length (all_token_ids r) < start_token_idx + bs then Inr []
      else
        hasher_loop H nh bs r start_token_idx (if 0 < start_token_idx then -1 else 0)
          (if block_hashes r = [] then None else Some (last (block_hashes r))))"

section \<open>Hashes of larger blocks\<close>

text \<open>\<open>BlockHashListWithBlockSize\<close>: hashes of size \<open>target\<close> from hashes of size \<open>hash_bs\<close>.\<close>

record block_hash_list =
  bhl_hashes :: "bytes list"
  scale_factor :: nat

definition BlockHashListWithBlockSize :: "bytes list \<Rightarrow> nat \<Rightarrow> nat \<Rightarrow> block_hash_list result" where
  "BlockHashListWithBlockSize hs hash_bs target =
     (if hash_bs = 0 then Inl ZeroDivisionError
      else py_assert (target mod hash_bs = 0) (Inr \<lparr>bhl_hashes = hs, scale_factor = target div hash_bs\<rparr>))"

definition bhl_len :: "block_hash_list \<Rightarrow> nat" where
  "bhl_len l = length (bhl_hashes l) div scale_factor l"

text \<open>\<open>_get_value_at\<close> for a non-negative index: one read and a loop of concatenations.\<close>

definition bhl_get_value_at :: "block_hash_list \<Rightarrow> nat \<Rightarrow> bytes result" where
  "bhl_get_value_at l idx =
     (let base = idx * scale_factor l in
      rbind (py_index (bhl_hashes l) (int base))
        (foldM (\<lambda>i merged. rbind (py_index (bhl_hashes l) (int i)) (\<lambda>b. Inr (merged @ b)))
           [base + 1..<base + scale_factor l]))"

section \<open>Packing is a round trip\<close>

lemma base256_digits:
  fixes n :: int
  assumes "0 \<le> n" and "n < 4294967296"
  shows "((n div 16777216 mod 256 * 256 + n div 65536 mod 256) * 256 + n div 256 mod 256) * 256
    + n mod 256 = n"
proof -
  define m1 where "m1 = n div 256"
  define m2 where "m2 = m1 div 256"
  define m3 where "m3 = m2 div 256"
  have m2: "n div 65536 = m2" using zdiv_zmult2_eq [of 256 n 256] by (simp add: m2_def m1_def)
  have m3: "n div 16777216 = m3" using zdiv_zmult2_eq [of 256 n 65536] m2 by (simp add: m3_def)
  have "0 \<le> n div 16777216" using assms(1) by (simp add: pos_imp_zdiv_nonneg_iff)
  moreover have "n div 16777216 < 256" using le_div_iff_int [of 16777216 256 n] assms(2) by simp
  ultimately have "0 \<le> n div 16777216" "n div 16777216 < 256" by simp_all
  then have "m3 mod 256 = m3" using m3 by simp
  moreover have "m3 * 256 + m2 mod 256 = m2" "m2 * 256 + m1 mod 256 = m1" "m1 * 256 + n mod 256 = n"
    unfolding m3_def m2_def m1_def by (rule div_mult_mod_eq)+
  ultimately show ?thesis unfolding m2 m3 m1_def [symmetric] by simp
qed

lemma uint_byte: "uint (word_of_int x :: 8 word) = x mod 256"
  by (simp add: uint_word_of_int)

lemma int_from_bytes4:
  assumes "int_to_bytes4 n = Inr bs"
  shows "int_from_bytes bs = n \<and> length bs = 4"
proof -
  have pw: "(2::int) ^ 32 = 4294967296" "(2::int) ^ 24 = 16777216" "(2::int) ^ 16 = 65536"
    "(2::int) ^ 8 = 256" by simp_all
  have n: "0 \<le> n \<and> n < 4294967296"
  proof (rule ccontr)
    assume "\<not> (0 \<le> n \<and> n < 4294967296)"
    then show False using assms unfolding int_to_bytes4_def pw by (simp only: if_False sum.distinct)
  qed
  have bs: "bs = [word_of_int (n div 16777216), word_of_int (n div 65536), word_of_int (n div 256),
      word_of_int n]"
    using assms n unfolding int_to_bytes4_def pw by (simp only: HOL.simp_thms if_True sum.inject)
  have "int_from_bytes bs =
      ((n div 16777216 mod 256 * 256 + n div 65536 mod 256) * 256 + n div 256 mod 256) * 256 + n mod 256"
    unfolding bs int_from_bytes_def fold.simps comp_def id_def uint_byte by (simp only: mult_zero_left add_0)
  also have "\<dots> = n" using n by (intro base256_digits) simp_all
  finally show ?thesis using bs by simp
qed

lemma make_block_hash_unpack:
  "make_block_hash_with_group_id bh g = Inr k \<Longrightarrow> get_block_hash k = bh \<and> get_group_id k = g"
  by (auto simp: make_block_hash_with_group_id_def get_block_hash_def get_group_id_def
      dest: int_from_bytes4)

lemma make_block_hash_inj:
  assumes "make_block_hash_with_group_id bh g = Inr k" and "make_block_hash_with_group_id bh' g' = Inr k"
  shows "bh = bh' \<and> g = g'"
  using make_block_hash_unpack [OF assms(1)] make_block_hash_unpack [OF assms(2)] by simp

lemma make_block_hash_total:
  "0 \<le> g \<Longrightarrow> g < 2 ^ 32 \<Longrightarrow> \<exists>k. make_block_hash_with_group_id bh g = Inr k"
  by (simp add: make_block_hash_with_group_id_def int_to_bytes4_def)

section \<open>The reference hash of a prefix\<close>

text \<open>What the hash of block \<open>i\<close> ought to be: a chain over all blocks up to \<open>i\<close>.\<close>

primrec prefix_hash ::
  "hash_fn \<Rightarrow> bytes \<Rightarrow> (nat \<Rightarrow> extra_key list option) \<Rightarrow> nat \<Rightarrow> int list \<Rightarrow> nat \<Rightarrow> bytes" where
  "prefix_hash H nh keys bs toks 0 = H (nh, take bs toks, keys 0)"
| "prefix_hash H nh keys bs toks (Suc i) =
     H (prefix_hash H nh keys bs toks i, take bs (drop (Suc i * bs) toks), keys (Suc i))"

text \<open>The extra keys of block \<open>i\<close> of a request without multimodal inputs.\<close>

definition text_keys :: "request \<Rightarrow> nat \<Rightarrow> nat \<Rightarrow> extra_key list option" where
  "text_keys r bs i =
     (let ks = gen_lora_extra_hash_keys r
               @ (case cache_salt r of
                    None \<Rightarrow> []
                  | Some salt \<Rightarrow> if i * bs = 0 \<and> salt \<noteq> [] then [KStr salt] else [])
               @ gen_prompt_embeds_extra_hash_keys r (i * bs) (i * bs + bs)
      in if ks = [] then None else Some ks)"

definition hashes_ok :: "hash_fn \<Rightarrow> bytes \<Rightarrow> nat \<Rightarrow> request \<Rightarrow> bool" where
  "hashes_ok H nh bs r \<longleftrightarrow>
     block_hashes r =
       map (prefix_hash H nh (text_keys r bs) bs (all_token_ids r)) [0..<length (all_token_ids r) div bs]"

lemma extra_keys_text:
  "mm_features r = [] \<Longrightarrow>
     generate_block_hash_extra_keys r (i * bs) (i * bs + bs) mm = Inr (text_keys r bs i, mm)"
  by (simp add: generate_block_hash_extra_keys_def gen_mm_extra_hash_keys_def text_keys_def Let_def)

lemma hasher_loop_prefix_hash:
  assumes "mm_features r = []" and "0 < bs" and ne: "\<And>x. H x \<noteq> []"
    and "prev = (if i = 0 then None else Some (prefix_hash H nh (text_keys r bs) bs (all_token_ids r) (i - 1)))"
  shows "hasher_loop H nh bs r (i * bs) mm prev =
     Inr (map (prefix_hash H nh (text_keys r bs) bs (all_token_ids r)) [i..<length (all_token_ids r) div bs])"
  using assms(4)
proof (induction "length (all_token_ids r) div bs - i" arbitrary: i prev)
  case 0
  then have "length (all_token_ids r) div bs \<le> i" by simp
  then have "length (all_token_ids r) < i * bs + bs"
    using assms(2) by (metis add.commute div_less_iff_less_mult le_imp_less_Suc mult_Suc)
  then show ?case using 0 by (subst hasher_loop.simps) simp
next
  case (Suc k)
  let ?P = "prefix_hash H nh (text_keys r bs) bs (all_token_ids r)"
  have i: "i < length (all_token_ids r) div bs" using Suc.hyps(2) by simp
  then have "Suc i * bs \<le> length (all_token_ids r)"
    using assms(2) by (rule Suc_mult_le_of_less_div)
  then have guard: "\<not> length (all_token_ids r) < i * bs + bs" by (simp add: add.commute)
  have bh: "hash_block_tokens H nh prev (take bs (drop (i * bs) (all_token_ids r))) (text_keys r bs i) = ?P i"
  proof (cases i)
    case (Suc j)
    moreover have "?P j \<noteq> []" using ne by (cases j) simp_all
    ultimately show ?thesis using Suc.prems by (simp add: hash_block_tokens_def)
  qed (use Suc.prems in \<open>simp add: hash_block_tokens_def\<close>)
  have rec: "hasher_loop H nh bs r (i * bs + bs) mm (Some (?P i)) =
      Inr (map ?P [Suc i..<length (all_token_ids r) div bs])"
    using Suc.hyps(1) [of "Suc i" "Some (?P i)"] Suc.hyps(2) by (simp add: add.commute)
  show ?case
    using guard assms(2) i
    by (subst hasher_loop.simps) (simp add: extra_keys_text [OF assms(1)] bh rec upt_conv_Cons)
qed

lemma request_block_hasher_prefix:
  assumes "mm_features r = []" and "0 < bs" and "\<And>x. H x \<noteq> []"
    and "block_hashes r =
      map (prefix_hash H nh (text_keys r bs) bs (all_token_ids r)) [0..<length (block_hashes r)]"
  shows "request_block_hasher H nh bs r =
      Inr (map (prefix_hash H nh (text_keys r bs) bs (all_token_ids r))
        [length (block_hashes r)..<length (all_token_ids r) div bs])"
proof -
  let ?n = "length (block_hashes r)" and ?t = "all_token_ids r"
  let ?P = "prefix_hash H nh (text_keys r bs) bs ?t"
  have prev: "(if block_hashes r = [] then None else Some (last (block_hashes r))) =
      (if ?n = 0 then None else Some (?P (?n - 1)))"
  proof (cases "block_hashes r = []")
    case False
    then have "last (block_hashes r) = block_hashes r ! (?n - 1)" by (rule last_conv_nth)
    also have "\<dots> = map ?P [0..<?n] ! (?n - 1)" by (subst assms(4)) simp
    finally show ?thesis using False by simp
  qed simp
  show ?thesis
  proof (cases "length ?t < ?n * bs + bs")
    case True
    then have "length ?t div bs < Suc ?n"
      using assms(2) by (simp add: div_less_iff_less_mult add.commute)
    with True show ?thesis by (simp add: request_block_hasher_def)
  next
    case False
    then show ?thesis
      using hasher_loop_prefix_hash [OF assms(1,2,3) prev] by (simp add: request_block_hasher_def Let_def)
  qed
qed

section \<open>Hashing is incremental\<close>

lemma prefix_hash_append:
  "Suc i * bs \<le> length toks \<Longrightarrow>
     prefix_hash H nh keys bs (toks @ extra) i = prefix_hash H nh keys bs toks i"
proof (induction i)
  case (Suc i)
  then have "bs \<le> length toks - Suc i * bs" by simp
  with Suc show ?case by simp
qed simp

lemma text_keys_cong:
  "lora r' = lora r \<Longrightarrow> cache_salt r' = cache_salt r \<Longrightarrow> prompt_embeds r' = prompt_embeds r \<Longrightarrow>
     text_keys r' bs = text_keys r bs"
  by (simp add: fun_eq_iff text_keys_def gen_lora_extra_hash_keys_def gen_prompt_embeds_extra_hash_keys_def)

lemma append_output_token_ids_hashes:
  assumes "hashes_ok H nh bs r" and "mm_features r = []" and "0 < bs" and "\<And>x. H x \<noteq> []"
  shows "\<exists>r'. append_output_token_ids (Some (request_block_hasher H nh bs)) toks r = Inr r'
    \<and> hashes_ok H nh bs r' \<and> all_token_ids r' = all_token_ids r @ toks"
proof -
  define r1 where "r1 = r\<lparr>output_token_ids := output_token_ids r @ toks, all_token_ids := all_token_ids r @ toks\<rparr>"
  let ?P = "\<lambda>r. prefix_hash H nh (text_keys r bs) bs (all_token_ids r)"
  let ?n = "length (all_token_ids r) div bs"
  have keys: "text_keys r1 bs = text_keys r bs" by (rule text_keys_cong) (simp_all add: r1_def)
  have toks: "all_token_ids r1 = all_token_ids r @ toks" by (simp add: r1_def)
  have "?P r1 i = ?P r i" if "i < ?n" for i
  proof -
    have "Suc i * bs \<le> length (all_token_ids r)"
      using that assms(3) by (rule Suc_mult_le_of_less_div)
    then show ?thesis unfolding keys toks by (rule prefix_hash_append)
  qed
  then have old: "block_hashes r1 = map (?P r1) [0..<?n]"
    using assms(1) by (simp add: hashes_ok_def r1_def)
  then have len: "length (block_hashes r1) = ?n" by simp
  have new: "request_block_hasher H nh bs r1 = Inr (map (?P r1) [?n..<length (all_token_ids r1) div bs])"
    using request_block_hasher_prefix [of r1 bs H nh] assms(2-4) old len by (simp add: r1_def)
  have le: "?n \<le> length (all_token_ids r1) div bs" by (simp add: r1_def div_le_mono)
  define r2 where "r2 = r1\<lparr>block_hashes := block_hashes r1 @ map (?P r1) [?n..<length (all_token_ids r1) div bs]\<rparr>"
  have "append_output_token_ids (Some (request_block_hasher H nh bs)) toks r = Inr r2"
    using new by (simp add: append_output_token_ids_def r2_def r1_def [symmetric] Let_def)
  moreover have "text_keys r2 bs = text_keys r1 bs" by (rule text_keys_cong) (simp_all add: r2_def)
  then have "hashes_ok H nh bs r2"
    using old le by (simp add: hashes_ok_def r2_def upt_split flip: map_append)
  moreover have "all_token_ids r2 = all_token_ids r @ toks" by (simp add: r2_def r1_def)
  ultimately show ?thesis by blast
qed

lemma Request_init_hashes:
  assumes "Request_init (Some (request_block_hasher H nh bs)) now rid oid toks sp pp eos client arrival
      embeds mms lo salt prio = Inr r"
    and "mm_features r = []" and "0 < bs" and "\<And>x. H x \<noteq> []"
  shows "hashes_ok H nh bs r"
proof -
  obtain r0 bhs where r0: "block_hashes r0 = []" "request_block_hasher H nh bs r0 = Inr bhs"
    "r = r0\<lparr>block_hashes := bhs\<rparr>"
    using Request_init_attach [OF assms(1)] by (auto simp: attach_block_hashes_def)
  have "bhs = map (prefix_hash H nh (text_keys r0 bs) bs (all_token_ids r0)) [0..<length (all_token_ids r0) div bs]"
    using request_block_hasher_prefix [of r0 bs H nh] assms(2-4) r0 by simp
  moreover have "text_keys r bs = text_keys r0 bs" by (rule text_keys_cong) (simp_all add: r0)
  ultimately show ?thesis by (simp add: hashes_ok_def r0)
qed

section \<open>Equal hashes mean equal prefixes\<close>

text \<open>The documented property of the hash function the prefix cache relies on: it is practically
  collision free, its digests are not empty and none of them is the seed.\<close>

definition hash_ideal :: "hash_fn \<Rightarrow> bytes \<Rightarrow> bool" where
  "hash_ideal H nh \<longleftrightarrow> inj H \<and> (\<forall>x. H x \<noteq> nh \<and> H x \<noteq> [])"

lemma prefix_hash_in_range: "\<exists>x. prefix_hash H nh keys bs toks i = H x"
  by (cases i) auto

lemma prefix_hash_inj:
  assumes "hash_ideal H nh"
    and "prefix_hash H nh keys bs toks i = prefix_hash H nh keys' bs toks' j"
  shows "i = j \<and> take (Suc i * bs) toks = take (Suc i * bs) toks' \<and> (\<forall>k \<le> i. keys k = keys' k)"
  using assms(2)
proof (induction i arbitrary: j)
  case 0
  then show ?case using assms(1) prefix_hash_in_range [of H nh keys' bs toks']
    by (cases j) (auto simp: hash_ideal_def dest!: injD, metis+)
next
  case (Suc i)
  then obtain j' where j: "j = Suc j'"
    and eq: "prefix_hash H nh keys bs toks i = prefix_hash H nh keys' bs toks' j'"
      "take bs (drop (Suc i * bs) toks) = take bs (drop (Suc j' * bs) toks')" "keys (Suc i) = keys' (Suc j')"
    using assms(1) prefix_hash_in_range [of H nh keys bs toks i]
    by (cases j) (auto simp: hash_ideal_def dest!: injD, metis+)
  from Suc.IH [OF eq(1)]
  have IH: "i = j'" "take (Suc i * bs) toks = take (Suc i * bs) toks'" "\<forall>k \<le> i. keys k = keys' k" by auto
  have "take (Suc (Suc i) * bs) l = take (Suc i * bs) l @ take bs (drop (Suc i * bs) l)" for l :: "int list"
    by (simp flip: take_add) (simp add: add.commute add.left_commute)
  then have "take (Suc (Suc i) * bs) toks = take (Suc (Suc i) * bs) toks'"
    using IH(1,2) eq(2) by simp
  moreover have "\<forall>k \<le> Suc i. keys k = keys' k" using IH eq(3) by (simp add: le_Suc_eq)
  ultimately show ?case using IH(1) j by simp
qed

lemma hashes_ok_nth:
  "hashes_ok H nh bs r \<Longrightarrow> i < length (block_hashes r) \<Longrightarrow>
     block_hashes r ! i = prefix_hash H nh (text_keys r bs) bs (all_token_ids r) i"
  unfolding hashes_ok_def by (metis add_0 diff_zero length_map length_upt nth_map nth_upt)

section \<open>Hash lists of larger blocks\<close>

lemma foldM_concat_index:
  assumes "b \<le> length hs"
  shows "foldM (\<lambda>i merged. rbind (py_index hs (int i)) (\<lambda>x. Inr (merged @ x))) [a..<b] acc =
    Inr (acc @ concat (take (b - a) (drop a hs)))"
  using assms
proof (induction "b - a" arbitrary: a acc)
  case (Suc n)
  then have a: "a < b" "a < length hs" by simp_all
  then have "take (b - a) (drop a hs) = hs ! a # take (b - Suc a) (drop (Suc a) hs)"
    by (metis Cons_nth_drop_Suc Suc_diff_Suc take_Suc_Cons)
  then show ?case using Suc.hyps(1) [of "Suc a" "acc @ hs ! a"] Suc.hyps(2) Suc.prems a
    by (simp add: upt_conv_Cons)
qed simp

lemma bhl_get_value_at_concat:
  assumes "i < bhl_len l" and "0 < scale_factor l"
  shows "bhl_get_value_at l i =
    Inr (concat (take (scale_factor l) (drop (i * scale_factor l) (bhl_hashes l))))"
proof -
  let ?s = "scale_factor l" and ?h = "bhl_hashes l"
  have "Suc i * ?s \<le> length ?h"
    using assms unfolding bhl_len_def by (rule Suc_mult_le_of_less_div)
  then have le: "i * ?s + ?s \<le> length ?h" by (simp add: add.commute)
  then have lt: "i * ?s < length ?h" using assms(2) by linarith
  have "take ?s (drop (i * ?s) ?h) = ?h ! (i * ?s) # take (?s - 1) (drop (i * ?s + 1) ?h)"
    using lt assms(2) by (metis Cons_nth_drop_Suc Suc_eq_plus1 Suc_pred' take_Suc_Cons)
  then show ?thesis
    using foldM_concat_index [OF le, of "i * ?s + 1" "?h ! (i * ?s)"] lt
    by (simp add: bhl_get_value_at_def Let_def del: of_nat_mult of_nat_add of_nat_Suc)
qed

section \<open>A hash function that is ideal\<close>

text \<open>The hypothesis \<open>hash_ideal\<close> holds for a serialisation that can be read back: the lengths are
  written in unary, so the code is prefix free.\<close>

definition prefix_code :: "('a \<Rightarrow> bytes) \<Rightarrow> bool" where
  "prefix_code e \<longleftrightarrow> (\<forall>x y s t. e x @ s = e y @ t \<longrightarrow> x = y \<and> s = t)"

definition enc_nat :: "nat \<Rightarrow> bytes" where
  "enc_nat n = replicate n 1 @ [0]"

definition enc_list :: "('a \<Rightarrow> bytes) \<Rightarrow> 'a list \<Rightarrow> bytes" where
  "enc_list e xs = enc_nat (length xs) @ concat (map e xs)"

definition enc_int :: "int \<Rightarrow> bytes" where
  "enc_int i = (if 0 \<le> i then 0 # enc_nat (nat i) else 1 # enc_nat (nat (- i)))"

fun enc_key :: "extra_key \<Rightarrow> bytes" where
  "enc_key (KStr c) = 0 # enc_list (\<lambda>ch. enc_nat (of_char ch)) c"
| "enc_key (KBytes b) = 1 # enc_list (\<lambda>w. [w]) b"

fun enc_keys :: "extra_key list option \<Rightarrow> bytes" where
  "enc_keys None = [0]"
| "enc_keys (Some ks) = 1 # enc_list enc_key ks"

definition plain_hash :: hash_fn where
  "plain_hash = (\<lambda>(p, toks, ks). 2 # enc_list (\<lambda>w. [w]) p @ enc_list enc_int toks @ enc_keys ks)"

lemma prefix_code_nat: "enc_nat n @ s = enc_nat m @ t \<Longrightarrow> n = m \<and> s = t"
proof (induction n arbitrary: m)
  case 0
  then show ?case by (cases m) (auto simp: enc_nat_def)
next
  case (Suc n)
  then show ?case by (cases m) (auto simp: enc_nat_def)
qed

lemma prefix_code_list: "prefix_code e \<Longrightarrow> prefix_code (enc_list e)"
proof -
  assume e: "prefix_code e"
  have "length xs = length ys \<Longrightarrow> concat (map e xs) @ s = concat (map e ys) @ t \<Longrightarrow> xs = ys \<and> s = t"
    for xs ys s t
  proof (induction xs ys rule: list_induct2)
    case (Cons x xs y ys)
    from Cons.prems have "e x @ (concat (map e xs) @ s) = e y @ (concat (map e ys) @ t)" by simp
    then have "x = y \<and> concat (map e xs) @ s = concat (map e ys) @ t"
      using e unfolding prefix_code_def by blast
    with Cons.IH show ?case by simp
  qed simp
  then show "prefix_code (enc_list e)"
    unfolding prefix_code_def enc_list_def by (metis append.assoc prefix_code_nat)
qed

lemma prefix_code_byte: "prefix_code (\<lambda>w. [w])"
  by (simp add: prefix_code_def)

lemma prefix_code_int: "prefix_code enc_int"
  unfolding prefix_code_def enc_int_def by (auto dest!: prefix_code_nat split: if_splits)

lemma prefix_code_char: "prefix_code (\<lambda>ch. enc_nat (of_char ch))"
  unfolding prefix_code_def by (metis of_char_eq_iff prefix_code_nat)

lemma prefix_codeD: "prefix_code e \<Longrightarrow> e x @ s = e y @ t \<Longrightarrow> x = y \<and> s = t"
  unfolding prefix_code_def by blast

lemmas prefix_code_string = prefix_codeD [OF prefix_code_list [OF prefix_code_char]]
  and prefix_code_bytes = prefix_codeD [OF prefix_code_list [OF prefix_code_byte]]

lemma prefix_code_key: "prefix_code enc_key"
  unfolding prefix_code_def
proof (intro allI impI)
  fix x y s t
  assume "enc_key x @ s = enc_key y @ t"
  then show "x = y \<and> s = t"
    by (cases x; cases y) (auto dest: prefix_code_string prefix_code_bytes)
qed

lemma prefix_code_keys: "prefix_code enc_keys"
  unfolding prefix_code_def
proof (intro allI impI)
  fix x y s t
  assume "enc_keys x @ s = enc_keys y @ t"
  then show "x = y \<and> s = t"
    by (cases x; cases y) (auto dest: prefix_codeD [OF prefix_code_list [OF prefix_code_key]])
qed

lemma plain_hash_ideal: "hash_ideal plain_hash [0]"
proof -
  have "inj plain_hash"
  proof (rule injI)
    fix x y :: hash_input
    assume eq: "plain_hash x = plain_hash y"
    obtain p t k where x: "x = (p, t, k)" by (cases x)
    obtain p' t' k' where y: "y = (p', t', k')" by (cases y)
    have a: "p = p' \<and> enc_list enc_int t @ enc_keys k = enc_list enc_int t' @ enc_keys k'"
      using eq by (intro prefix_code_bytes) (simp add: x y plain_hash_def)
    then have b: "t = t' \<and> enc_keys k = enc_keys k'"
      by (intro prefix_codeD [OF prefix_code_list [OF prefix_code_int]]) simp
    then have "k = k'"
      using prefix_codeD [OF prefix_code_keys, of k "[]" k' "[]"] by simp
    with a b show "x = y" by (simp add: x y)
  qed
  then show ?thesis by (auto simp: hash_ideal_def plain_hash_def)
qed

section \<open>Properties\<close>

text \<open>C17: a packed key gives back the hash and the group id it was made from, and packing succeeds
  for every group id of 32 bits.\<close>

theorem block_hash_key_roundtrip:
  assumes "0 \<le> g" and "g < 2 ^ 32"
  shows "\<exists>k. make_block_hash_with_group_id bh g = Inr k \<and> get_block_hash k = bh \<and> get_group_id k = g"
  using make_block_hash_total [OF assms, of bh] make_block_hash_unpack [of bh g] by blast

theorem block_hash_key_roundtrip_witness:
  "\<exists>k. make_block_hash_with_group_id [7, 9] 300 = Inr k \<and> get_block_hash k = [7, 9] \<and> get_group_id k = 300"
  by (rule block_hash_key_roundtrip) simp_all


definition sample_hashed :: "int list \<Rightarrow> request" where
  "sample_hashed toks = (sample_request ''r'' toks)
     \<lparr>block_hashes := map (prefix_hash plain_hash [0] (\<lambda>_. None) 2 toks) [0..<length toks div 2]\<rparr>"

lemma sample_hashed_ok: "hashes_ok plain_hash [0] 2 (sample_hashed toks)"
proof -
  have "text_keys (sample_hashed toks) 2 = (\<lambda>_. None)"
    by (simp add: fun_eq_iff text_keys_def sample_hashed_def sample_request_def
        gen_lora_extra_hash_keys_def gen_prompt_embeds_extra_hash_keys_def)
  then show ?thesis by (simp add: hashes_ok_def, simp add: sample_hashed_def sample_request_def)
qed




end
