(* ===== verification/Block_Pool.thy ===== *)
theory Block_Pool
  imports Free_Queue Block_Hash
begin

text \<open>
  The block pool: \<open>BlockHashToBlockMap\<close> and \<open>BlockPool\<close> of \<open>vllm/v1/core/block_pool.py\<close>.

  The pool record extends the state of the free queue with the prefix cache and the event queue.
  The hash map is an insertion-ordered dictionary from packed hashes to either one block or a
  dictionary of blocks by block id, as in the source.  The environment variable that selects
  integer block hashes in events is the field \<open>use_int_hashes\<close>; the optional metrics collector is
  absent.  \<open>pool_inv\<close> is the invariant of the pool: the free queue holds exactly the unreferenced
  blocks and the hash map agrees with the hashes the blocks carry.
\<close>

section \<open>The map from hashes to blocks\<close>

datatype cached_blocks = One bref | Many "(int, bref) odict"

type_synonym hash_map = "(bytes, cached_blocks) odict"

definition get_one_block :: "bytes \<Rightarrow> hash_map \<Rightarrow> bref option result" where
  "get_one_block key m =
     (case map_of m key of
        None \<Rightarrow> Inr None
      | Some (One b) \<Rightarrow> Inr (Some b)
      | Some (Many []) \<Rightarrow> Inl StopIteration
      | Some (Many ((_, b) # _)) \<Rightarrow> Inr (Some b))"

definition hm_insert :: "store \<Rightarrow> bytes \<Rightarrow> bref \<Rightarrow> hash_map \<Rightarrow> hash_map" where
  "hm_insert h key b m =
     (case map_of m key of
        None \<Rightarrow> AList.update key (One b) m
      | Some (One b0) \<Rightarrow>
          AList.update key (Many (AList.update (block_id (h b)) b [(block_id (h b0), b0)])) m
      | Some (Many d) \<Rightarrow> AList.update key (Many (AList.update (block_id (h b)) b d)) m)"

text \<open>\<open>pop\<close> takes the entry out and puts back what is left of it, at the end of the dictionary.\<close>

definition hm_pop :: "store \<Rightarrow> bytes \<Rightarrow> int \<Rightarrow> hash_map \<Rightarrow> bref option \<times> hash_map" where
  "hm_pop h key bid m =
     (case map_of m key of
        None \<Rightarrow> (None, m)
      | Some (One b) \<Rightarrow>
          if block_id (h b) = bid then (Some b, AList.delete key m)
          else (None, AList.update key (One b) (AList.delete key m))
      | Some (Many d) \<Rightarrow>
          let d' = AList.delete bid d in
          (map_of d bid,
           if d' \<noteq> [] then AList.update key (Many d') (AList.delete key m) else AList.delete key m))"

section \<open>The pool\<close>

datatype kv_cache_event =
    BlockStored "external_block_hash list" "external_block_hash option" "int list" nat
      "int option" "string option"
  | BlockRemoved "external_block_hash list"
  | AllBlocksCleared

record block_pool = fq_state +
  num_gpu_blocks :: int
  enable_caching :: bool
  hash_block_size :: nat
  blocks :: "bref list"
  cached_block_hash_to_block :: hash_map
  null_block :: bref
  enable_kv_cache_events :: bool
  kv_event_queue :: "kv_cache_event list"
  use_int_hashes :: bool

definition BlockPool_init :: "int \<Rightarrow> bool \<Rightarrow> nat \<Rightarrow> bool \<Rightarrow> bool \<Rightarrow> block_pool result" where
  "BlockPool_init n caching hbs kv_events use_int =
     py_assert (0 < n)
       (let bs = map Blk [0..<nat n];
            h = (\<lambda>b. case b of Blk i \<Rightarrow> KVCacheBlock (int i) | _ \<Rightarrow> KVCacheBlock (-1));
            s = free_queue_init bs
                  \<lparr>heap = h, num_free_blocks = 0, num_gpu_blocks = n, enable_caching = caching,
                   hash_block_size = hbs, blocks = bs, cached_block_hash_to_block = [],
                   null_block = FakeHead, enable_kv_cache_events = kv_events, kv_event_queue = [],
                   use_int_hashes = use_int\<rparr>
        in rbind (popleft s)
             (\<lambda>(b, s'). Inr (s'\<lparr>null_block := b, heap := (heap s')(b := (heap s' b)\<lparr>is_null := True\<rparr>)\<rparr>)))"

text \<open>Assignments to the data fields of a block.  The setter of \<open>block_hash\<close> asserts that the block
  has no hash.\<close>

definition add_ref :: "int \<Rightarrow> bref \<Rightarrow> block_pool \<Rightarrow> block_pool" where
  "add_ref d b s = s\<lparr>heap := (heap s)(b := (heap s b)\<lparr>ref_cnt := ref_cnt (heap s b) + d\<rparr>)\<rparr>"

definition reset_hash :: "bref \<Rightarrow> block_pool \<Rightarrow> block_pool" where
  "reset_hash b s = s\<lparr>heap := (heap s)(b := (heap s b)\<lparr>block_hash := None\<rparr>)\<rparr>"

definition set_block_hash :: "bref \<Rightarrow> bytes \<Rightarrow> block_pool \<Rightarrow> block_pool result" where
  "set_block_hash b k s =
     py_assert (block_hash (heap s b) = None)
       (Inr (s\<lparr>heap := (heap s)(b := (heap s b)\<lparr>block_hash := Some k\<rparr>)\<rparr>))"

definition push_event :: "kv_cache_event \<Rightarrow> block_pool \<Rightarrow> block_pool" where
  "push_event ev s =
     (if enable_kv_cache_events s then s\<lparr>kv_event_queue := kv_event_queue s @ [ev]\<rparr> else s)"

fun get_cached_block :: "block_pool \<Rightarrow> bytes \<Rightarrow> int list \<Rightarrow> bref list option result" where
  "get_cached_block s bh [] = Inr (Some [])"
| "get_cached_block s bh (gid # gids) =
     rbind (make_block_hash_with_group_id bh gid) (\<lambda>key.
       rbind (get_one_block key (cached_block_hash_to_block s)) (\<lambda>ob.
         case ob of
           None \<Rightarrow> Inr None
         | Some b \<Rightarrow> rbind (get_cached_block s bh gids) (\<lambda>rest. Inr (map_option ((#) b) rest))))"

text \<open>The hashes at the granularity of \<open>block_size\<close>: \<open>block_hashes[start:]\<close> and \<open>block_hashes[i]\<close>
  for the plain list and for \<open>BlockHashListWithBlockSize\<close>.\<close>

definition hashes_from :: "nat \<Rightarrow> nat \<Rightarrow> bytes list \<Rightarrow> nat \<Rightarrow> bytes list result" where
  "hashes_from hbs block_size hs start =
     (if block_size = hbs then Inr (drop start hs)
      else rbind (BlockHashListWithBlockSize hs hbs block_size) (\<lambda>l.
        if scale_factor l = 0 then Inl ZeroDivisionError
        else foldM (\<lambda>i acc. rbind (bhl_get_value_at l i) (\<lambda>v. Inr (acc @ [v]))) [start..<bhl_len l] []))"

definition hash_at :: "nat \<Rightarrow> nat \<Rightarrow> bytes list \<Rightarrow> nat \<Rightarrow> bytes result" where
  "hash_at hbs block_size hs i =
     (if block_size = hbs then py_index hs (int i)
      else rbind (BlockHashListWithBlockSize hs hbs block_size) (\<lambda>l. bhl_get_value_at l i))"

definition cache_block_step ::
  "bytes list \<Rightarrow> int \<Rightarrow> nat \<times> bref \<Rightarrow> block_pool \<times> external_block_hash list \<Rightarrow>
   (block_pool \<times> external_block_hash list) result" where
  "cache_block_step new_block_hashes gid = (\<lambda>(i, blk) (s, new_hashes).
     if is_null (heap s blk) then Inr (s, new_hashes)
     else py_assert (block_hash (heap s blk) = None)
       (rbind (py_index new_block_hashes (int i)) (\<lambda>bh.
         rbind (make_block_hash_with_group_id bh gid) (\<lambda>key.
           rbind (set_block_hash blk key s) (\<lambda>s1.
             Inr (s1\<lparr>cached_block_hash_to_block :=
                      hm_insert (heap s1) key blk (cached_block_hash_to_block s1)\<rparr>,
                  new_hashes @ [maybe_convert_block_hash (use_int_hashes s1) bh]))))))"

definition cache_full_blocks ::
  "request \<Rightarrow> bref list \<Rightarrow> nat \<Rightarrow> nat \<Rightarrow> nat \<Rightarrow> int \<Rightarrow> block_pool \<Rightarrow> block_pool result" where
  "cache_full_blocks r blks num_cached_blocks num_full_blocks block_size gid s =
     (if num_full_blocks \<le> num_cached_blocks then Inr s
      else
        let new_full_blocks = take (num_full_blocks - num_cached_blocks) (drop num_cached_blocks blks) in
        py_assert (num_full_blocks \<le> length (block_hashes r))
          (if block_size \<noteq> hash_block_size s \<and> hash_block_size s = 0 then Inl ZeroDivisionError
           else py_assert (block_size = hash_block_size s \<or> block_size mod hash_block_size s = 0)
            (rbind (hashes_from (hash_block_size s) block_size (block_hashes r) num_cached_blocks)
              (\<lambda>new_block_hashes.
                rbind (foldM (cache_block_step new_block_hashes gid)
                         (zip [0..<length new_full_blocks] new_full_blocks) (s, []))
                  (\<lambda>(s1, new_hashes).
                    if \<not> enable_kv_cache_events s1 then Inr s1
                    else
                      rbind (if num_cached_blocks = 0 then Inr None
                             else rbind (hash_at (hash_block_size s1) block_size (block_hashes r)
                                           (num_cached_blocks - 1))
                                    (\<lambda>bh. Inr (Some (maybe_convert_block_hash (use_int_hashes s1) bh))))
                        (\<lambda>parent_block_hash.
                          Inr (push_event
                            (BlockStored new_hashes parent_block_hash
                              (take (num_full_blocks * block_size - num_cached_blocks * block_size)
                                (drop (num_cached_blocks * block_size) (all_token_ids r)))
                              block_size (map_option adapter_id (lora r)) (map_option lora_name (lora r)))
                            s1)))))))"

definition get_num_free_blocks :: "block_pool \<Rightarrow> int" where
  "get_num_free_blocks s = num_free_blocks s"

definition maybe_evict_cached_block :: "bref \<Rightarrow> block_pool \<Rightarrow> bool \<times> block_pool" where
  "maybe_evict_cached_block b s =
     (case block_hash (heap s b) of
        None \<Rightarrow> (False, s)
      | Some k \<Rightarrow>
          (case hm_pop (heap s) k (block_id (heap s b)) (cached_block_hash_to_block s) of
             (None, m) \<Rightarrow> (False, s\<lparr>cached_block_hash_to_block := m\<rparr>)
           | (Some _, m) \<Rightarrow>
               (True, push_event (BlockRemoved [maybe_convert_block_hash (use_int_hashes s) (get_block_hash k)])
                        (reset_hash b (s\<lparr>cached_block_hash_to_block := m\<rparr>)))))"

definition get_new_blocks :: "int \<Rightarrow> block_pool \<Rightarrow> (bref list \<times> block_pool) result" where
  "get_new_blocks num_blocks s =
     (if get_num_free_blocks s < num_blocks then Inl ValueError
      else rbind (popleft_n num_blocks s) (\<lambda>(ret, s1).
        rbind (foldM (\<lambda>b s. let s' = (if enable_caching s1 then snd (maybe_evict_cached_block b s) else s)
                            in py_assert (ref_cnt (heap s' b) = 0) (Inr (add_ref 1 b s'))) ret s1)
          (\<lambda>s2. Inr (ret, s2))))"

definition touch :: "bref list \<Rightarrow> block_pool \<Rightarrow> block_pool result" where
  "touch bs s =
     foldM (\<lambda>b s. rbind (if ref_cnt (heap s b) = 0 \<and> \<not> is_null (heap s b) then fq_remove b s else Inr s)
              (\<lambda>s'. Inr (add_ref 1 b s'))) bs s"

definition free_blocks :: "bref list \<Rightarrow> block_pool \<Rightarrow> block_pool result" where
  "free_blocks ordered_blocks s =
     (let s1 = fold (add_ref (-1)) ordered_blocks s
      in append_n (filter (\<lambda>b. ref_cnt (heap s1 b) = 0 \<and> \<not> is_null (heap s1 b)) ordered_blocks) s1)"

text \<open>\<open>block_ids\<close> is a set in the source: here the list of its elements in the order of the
  iteration.\<close>

definition evict_blocks :: "int list \<Rightarrow> block_pool \<Rightarrow> block_pool result" where
  "evict_blocks block_ids s =
     foldM (\<lambda>bid s. py_assert (bid < int (length (blocks s)))
              (rbind (py_index (blocks s) bid) (\<lambda>b. Inr (snd (maybe_evict_cached_block b s)))))
       block_ids s"

definition reset_prefix_cache :: "block_pool \<Rightarrow> bool \<times> block_pool" where
  "reset_prefix_cache s =
     (if num_gpu_blocks s - get_num_free_blocks s \<noteq> 1 then (False, s)
      else (True, push_event AllBlocksCleared
                    (fold reset_hash (blocks s) (s\<lparr>cached_block_hash_to_block := []\<rparr>))))"

definition get_usage :: "block_pool \<Rightarrow> real" where
  "get_usage s =
     (let total_gpu_blocks = num_gpu_blocks s - 1
      in if total_gpu_blocks = 0 then 0
         else 1 - real_of_int (get_num_free_blocks s) / real_of_int total_gpu_blocks)"

definition pool_take_events :: "block_pool \<Rightarrow> kv_cache_event list \<times> block_pool" where
  "pool_take_events s =
     (if \<not> enable_kv_cache_events s then ([], s) else (kv_event_queue s, s\<lparr>kv_event_queue := []\<rparr>))"

section \<open>The hash map is a multimap\<close>

fun entry_blocks :: "cached_blocks \<Rightarrow> bref list" where
  "entry_blocks (One b) = [b]"
| "entry_blocks (Many d) = map snd d"

definition blocks_of :: "hash_map \<Rightarrow> bytes \<Rightarrow> bref list" where
  "blocks_of m k = (case map_of m k of None \<Rightarrow> [] | Some e \<Rightarrow> entry_blocks e)"

fun entry_ok :: "(bref \<Rightarrow> int) \<Rightarrow> cached_blocks \<Rightarrow> bool" where
  "entry_ok ident (One b) = True"
| "entry_ok ident (Many d) \<longleftrightarrow>
     d \<noteq> [] \<and> distinct (map fst d) \<and> (\<forall>(i, b) \<in> set d. ident b = i)"

definition hm_wf :: "(bref \<Rightarrow> int) \<Rightarrow> hash_map \<Rightarrow> bool" where
  "hm_wf ident m \<longleftrightarrow> distinct (map fst m) \<and> (\<forall>k e. map_of m k = Some e \<longrightarrow> entry_ok ident e)"

abbreviation ids_of :: "store \<Rightarrow> bref \<Rightarrow> int" where
  "ids_of h \<equiv> \<lambda>b. block_id (h b)"

text \<open>What the pool relies on: a multimap in which every block of a key has its own identity.\<close>

locale block_multimap =
  fixes wf :: "('b \<Rightarrow> int) \<Rightarrow> 'm \<Rightarrow> bool"
    and vals :: "'m \<Rightarrow> 'k \<Rightarrow> 'b list"
    and find :: "'k \<Rightarrow> 'm \<Rightarrow> 'b option result"
    and ins :: "('b \<Rightarrow> int) \<Rightarrow> 'k \<Rightarrow> 'b \<Rightarrow> 'm \<Rightarrow> 'm"
    and del :: "('b \<Rightarrow> int) \<Rightarrow> 'k \<Rightarrow> int \<Rightarrow> 'm \<Rightarrow> 'b option \<times> 'm"
  assumes find_law: "wf ident m \<Longrightarrow>
      find k m = Inr (if vals m k = [] then None else Some (hd (vals m k)))"
    and ins_law: "wf ident m \<Longrightarrow> \<forall>b' \<in> set (vals m k). ident b' \<noteq> ident b \<Longrightarrow>
      wf ident (ins ident k b m) \<and> vals (ins ident k b m) = (vals m)(k := vals m k @ [b])"
    and del_law: "wf ident m \<Longrightarrow> b \<in> set (vals m k) \<Longrightarrow> inj_on ident (set (vals m k)) \<Longrightarrow>
      \<exists>m'. del ident k (ident b) m = (Some b, m') \<and> wf ident m'
        \<and> vals m' = (vals m)(k := removeAll b (vals m k))"
begin

lemma find_mem: "wf ident m \<Longrightarrow> find k m = Inr (Some b) \<Longrightarrow> b \<in> set (vals m k)"
  by (auto simp: find_law split: if_splits)

lemma find_after_ins:
  assumes "wf ident m" and "vals m k = []"
  shows "find k (ins ident k b m) = Inr (Some b)"
  using ins_law [of ident m k b] assms find_law [of ident "ins ident k b m" k] by simp

text \<open>Inserting a duplicate does not change which block a lookup returns.\<close>

lemma find_stable:
  assumes "wf ident m" and "find k m = Inr (Some b)" and "\<forall>b' \<in> set (vals m k). ident b' \<noteq> ident c"
  shows "find k (ins ident k c m) = Inr (Some b)"
  using ins_law [OF assms(1,3)] assms(2) find_law [OF assms(1)] find_law [of ident "ins ident k c m" k]
  by (auto split: if_splits)

end

lemma hm_wf_entry: "hm_wf ident m \<Longrightarrow> map_of m k = Some e \<Longrightarrow> entry_ok ident e"
  by (auto simp: hm_wf_def)

lemma hm_wf_update: "hm_wf ident m \<Longrightarrow> entry_ok ident e \<Longrightarrow> hm_wf ident (AList.update k e m)"
  by (auto simp: hm_wf_def distinct_update)

lemma hm_wf_delete: "hm_wf ident m \<Longrightarrow> hm_wf ident (AList.delete k m)"
  by (auto simp: hm_wf_def distinct_delete delete_conv' restrict_map_def split: if_splits)

lemma blocks_of_update [simp]:
  "blocks_of (AList.update k e m) = (blocks_of m)(k := entry_blocks e)"
  by (auto simp: blocks_of_def fun_eq_iff)

lemma blocks_of_delete [simp]: "blocks_of (AList.delete k m) = (blocks_of m)(k := [])"
  by (auto simp: blocks_of_def fun_eq_iff delete_conv' restrict_map_def)

lemma blocks_of_map: "map_of m k = Some e \<Longrightarrow> blocks_of m k = entry_blocks e"
  by (simp add: blocks_of_def)

lemma alist_delete_snd:
  assumes "distinct (map fst d)" "\<forall>(i, b) \<in> set d. ident b = i" "inj_on ident (snd ` set d)" "b \<in> snd ` set d"
  shows "map snd (AList.delete (ident b) d) = removeAll b (map snd d)"
proof -
  have "ident b \<noteq> fst p \<longleftrightarrow> snd p \<noteq> b" if "p \<in> set d" for p
  proof -
    have "ident (snd p) = fst p" and "snd p \<in> snd ` set d" using assms(2) that by auto
    then show ?thesis using assms(3,4) by (metis inj_onD)
  qed
  then have "filter (\<lambda>p. ident b \<noteq> fst p) d = filter (\<lambda>p. snd p \<noteq> b) d" by (intro filter_cong) auto
  moreover have "removeAll b (map snd d) = map snd (filter (\<lambda>p. snd p \<noteq> b) d)" by (induction d) auto
  ultimately show ?thesis by (simp add: AList.delete_eq case_prod_unfold)
qed

lemma hm_insert_wf:
  assumes wf: "hm_wf (ids_of h) m" and new: "\<forall>b' \<in> set (blocks_of m k). block_id (h b') \<noteq> block_id (h b)"
  shows "hm_wf (ids_of h) (hm_insert h k b m)
    \<and> blocks_of (hm_insert h k b m) = (blocks_of m)(k := blocks_of m k @ [b])"
proof (cases "map_of m k")
  case None
  then show ?thesis using wf by (simp add: hm_insert_def hm_wf_update blocks_of_def)
next
  case (Some e)
  note ok = hm_wf_entry [OF wf Some] and bl = blocks_of_map [OF Some]
  show ?thesis
  proof (cases e)
    case (One b0)
    then show ?thesis using Some wf new bl by (auto simp: hm_insert_def intro!: hm_wf_update)
  next
    case (Many d)
    with ok new bl have nk: "block_id (h b) \<notin> fst ` set d" by (fastforce simp: case_prod_unfold)
    have "entry_ok (ids_of h) (Many (d @ [(block_id (h b), b)]))" using ok Many nk by auto
    then show ?thesis using Some Many wf bl
      by (auto simp: hm_insert_def update_new [OF nk] intro!: hm_wf_update)
  qed
qed

lemma hm_pop_wf:
  assumes wf: "hm_wf (ids_of h) m" and b: "b \<in> set (blocks_of m k)" and inj: "inj_on (ids_of h) (set (blocks_of m k))"
  shows "\<exists>m'. hm_pop h k (block_id (h b)) m = (Some b, m') \<and> hm_wf (ids_of h) m'
    \<and> blocks_of m' = (blocks_of m)(k := removeAll b (blocks_of m k))"
proof -
  obtain e where e: "map_of m k = Some e" using b by (cases "map_of m k") (auto simp: blocks_of_def)
  note ok = hm_wf_entry [OF wf e] and bl = blocks_of_map [OF e]
  show ?thesis
  proof (cases e)
    case (One b0)
    then show ?thesis using e b bl wf by (simp add: hm_pop_def hm_wf_delete)
  next
    case (Many d)
    have d: "distinct (map fst d)" "\<forall>(i, b) \<in> set d. block_id (h b) = i" "inj_on (ids_of h) (snd ` set d)"
      "b \<in> snd ` set d"
      using ok Many inj b bl by auto
    have del: "map snd (AList.delete (block_id (h b)) d) = removeAll b (map snd d)"
      using alist_delete_snd [OF d] .
    have "(block_id (h b), b) \<in> set d" using d(2,4) by auto
    then have mo: "map_of d (block_id (h b)) = Some b" using d(1) by simp
    have "entry_ok (ids_of h) (Many (AList.delete (block_id (h b)) d))"
      if "AList.delete (block_id (h b)) d \<noteq> []"
      using that d(1,2) distinct_delete [OF d(1), of "block_id (h b)"] by (auto simp: AList.delete_eq)
    then have "hm_wf (ids_of h) (snd (hm_pop h k (block_id (h b)) m))"
      using e Many wf by (auto simp: hm_pop_def Let_def intro: hm_wf_update hm_wf_delete)
    moreover have "blocks_of (snd (hm_pop h k (block_id (h b)) m)) = (blocks_of m)(k := removeAll b (blocks_of m k))"
      using e Many bl del by (auto simp: hm_pop_def Let_def)
    ultimately show ?thesis using e Many mo by (auto simp: hm_pop_def Let_def)
  qed
qed

lemma get_one_block_hd:
  assumes "hm_wf ident m"
  shows "get_one_block k m = Inr (if blocks_of m k = [] then None else Some (hd (blocks_of m k)))"
proof (cases "map_of m k")
  case (Some e)
  with hm_wf_entry [OF assms this] show ?thesis
    by (cases e) (auto simp: get_one_block_def blocks_of_def neq_Nil_conv)
qed (simp add: get_one_block_def blocks_of_def)

text \<open>The model's map operations read block ids from a store; any identity function is the \<open>block_id\<close>
  of some store.\<close>

definition store_of_ids :: "(bref \<Rightarrow> int) \<Rightarrow> store" where
  "store_of_ids ident = (\<lambda>b. KVCacheBlock (ident b))"

lemma block_id_store_of_ids [simp]: "block_id (store_of_ids ident b) = ident b"
  by (simp add: store_of_ids_def KVCacheBlock_def)

lemma hm_insert_ids: "hm_insert h k b m = hm_insert (store_of_ids (ids_of h)) k b m"
  by (simp add: hm_insert_def split: option.split cached_blocks.split)

lemma hm_pop_ids: "hm_pop h k i m = hm_pop (store_of_ids (ids_of h)) k i m"
  by (simp add: hm_pop_def split: option.split cached_blocks.split)

interpretation hm: block_multimap hm_wf blocks_of get_one_block
  "\<lambda>ident. hm_insert (store_of_ids ident)" "\<lambda>ident. hm_pop (store_of_ids ident)"
proof
  fix ident :: "bref \<Rightarrow> int" and m k b
  assume wf: "hm_wf ident m"
  show "get_one_block k m = Inr (if blocks_of m k = [] then None else Some (hd (blocks_of m k)))"
    using wf by (rule get_one_block_hd)
  show "hm_wf ident (hm_insert (store_of_ids ident) k b m)
      \<and> blocks_of (hm_insert (store_of_ids ident) k b m) = (blocks_of m)(k := blocks_of m k @ [b])"
    if "\<forall>b' \<in> set (blocks_of m k). ident b' \<noteq> ident b"
    using hm_insert_wf [of "store_of_ids ident"] wf that by simp
  show "\<exists>m'. hm_pop (store_of_ids ident) k (ident b) m = (Some b, m') \<and> hm_wf ident m'
      \<and> blocks_of m' = (blocks_of m)(k := removeAll b (blocks_of m k))"
    if "b \<in> set (blocks_of m k)" "inj_on ident (set (blocks_of m k))"
    using hm_pop_wf [of "store_of_ids ident"] wf that by simp
qed

section \<open>What the operations observe of a pool\<close>

definition refs :: "block_pool \<Rightarrow> bref \<Rightarrow> int" where
  "refs s = (\<lambda>b. ref_cnt (heap s b))"

definition hashes :: "block_pool \<Rightarrow> bref \<Rightarrow> bytes option" where
  "hashes s = (\<lambda>b. block_hash (heap s b))"

lemma refs_fold [simp]: "ref_cnt (heap s b) = refs s b"
  by (simp add: refs_def)

lemma hashes_fold [simp]: "block_hash (heap s b) = hashes s b"
  by (simp add: hashes_def)

abbreviation cmap :: "block_pool \<Rightarrow> hash_map" where
  "cmap s \<equiv> cached_block_hash_to_block s"

text \<open>What no operation changes after the construction.\<close>

definition static :: "block_pool \<Rightarrow> (int \<times> bool \<times> nat \<times> bref list \<times> bref \<times> bool \<times> bool) \<times> (bref \<Rightarrow> int \<times> bool)" where
  "static s = ((num_gpu_blocks s, enable_caching s, hash_block_size s, blocks s, null_block s,
     enable_kv_cache_events s, use_int_hashes s), (\<lambda>b. (block_id (heap s b), is_null (heap s b))))"

lemma static_eq:
  "static s' = static s \<longleftrightarrow>
     num_gpu_blocks s' = num_gpu_blocks s \<and> enable_caching s' = enable_caching s
     \<and> hash_block_size s' = hash_block_size s \<and> blocks s' = blocks s \<and> null_block s' = null_block s
     \<and> enable_kv_cache_events s' = enable_kv_cache_events s \<and> use_int_hashes s' = use_int_hashes s
     \<and> (\<forall>b. block_id (heap s' b) = block_id (heap s b) \<and> is_null (heap s' b) = is_null (heap s b))"
  by (auto simp: static_def fun_eq_iff)

text \<open>A list operation changes nothing the pool observes but the free list.\<close>

lemma fq_data_pool:
  assumes "fq_data s' = fq_data (s :: block_pool)"
  shows "refs s' = refs s" "hashes s' = hashes s" "cmap s' = cmap s" "static s' = static s"
    "kv_event_queue s' = kv_event_queue s"
proof -
  have "block_data (heap s' b) = block_data (heap s b)" for b
    using assms by (simp add: fq_data_def fun_eq_iff)
  then have d: "ref_cnt (heap s' b) = ref_cnt (heap s b)" "block_hash (heap s' b) = block_hash (heap s b)"
    "block_id (heap s' b) = block_id (heap s b)" "is_null (heap s' b) = is_null (heap s b)" for b
    by (simp_all add: block_data_def)
  have m: "fq_state.more s' = fq_state.more s" using assms by (simp add: fq_data_def)
  show "refs s' = refs s" "hashes s' = hashes s" using d by (simp_all only: refs_def hashes_def)
  show "cmap s' = cmap s" "kv_event_queue s' = kv_event_queue s"
    using m by (cases s; cases s'; simp)+
  show "static s' = static s"
    using m d by (simp add: static_eq) (cases s; cases s'; simp)
qed

lemma free_rel_cong:
  assumes "free_rel s xs" and "num_free_blocks s' = num_free_blocks s"
    and "\<And>b. next_free_block (heap s' b) = next_free_block (heap s b)
      \<and> prev_free_block (heap s' b) = prev_free_block (heap s b)"
  shows "free_rel s' xs"
  using assms linked_cong [of "FakeHead # xs @ [FakeTail]" "heap s'" "heap s"]
  by (simp add: free_rel_def)

lemma add_ref_obs [simp]:
  "refs (add_ref d b s) = (refs s)(b := refs s b + d)"
  "hashes (add_ref d b s) = hashes s" "cmap (add_ref d b s) = cmap s" "static (add_ref d b s) = static s"
  "free_rel s xs \<Longrightarrow> free_rel (add_ref d b s) xs"
  by (auto simp: add_ref_def static_eq fun_eq_iff refs_def hashes_def simp del: refs_fold hashes_fold elim!: free_rel_cong)

lemma reset_hash_obs [simp]:
  "refs (reset_hash b s) = refs s" "hashes (reset_hash b s) = (hashes s)(b := None)"
  "cmap (reset_hash b s) = cmap s" "static (reset_hash b s) = static s"
  "free_rel s xs \<Longrightarrow> free_rel (reset_hash b s) xs"
  by (auto simp: reset_hash_def static_eq fun_eq_iff refs_def hashes_def simp del: refs_fold hashes_fold elim!: free_rel_cong)

lemma set_block_hash_obs:
  assumes "hashes s b = None"
  obtains s' where "set_block_hash b k s = Inr s'" "refs s' = refs s" "hashes s' = (hashes s)(b := Some k)"
    "cmap s' = cmap s" "static s' = static s" "\<And>xs. free_rel s xs \<Longrightarrow> free_rel s' xs"
  using assms by (intro that [of "s\<lparr>heap := (heap s)(b := (heap s b)\<lparr>block_hash := Some k\<rparr>)\<rparr>"])
    (auto simp: set_block_hash_def static_eq fun_eq_iff refs_def hashes_def simp del: refs_fold hashes_fold elim!: free_rel_cong)

lemma push_event_obs [simp]:
  "refs (push_event e s) = refs s" "hashes (push_event e s) = hashes s" "cmap (push_event e s) = cmap s" "static (push_event e s) = static s"
  "free_rel s xs \<Longrightarrow> free_rel (push_event e s) xs"
  by (auto simp: push_event_def static_eq refs_def hashes_def simp del: refs_fold hashes_fold elim!: free_rel_cong)

lemma cmap_update_obs [simp]:
  "static (s\<lparr>cached_block_hash_to_block := m\<rparr>) = static s"
  "refs (s\<lparr>cached_block_hash_to_block := m\<rparr>) = refs s"
  "hashes (s\<lparr>cached_block_hash_to_block := m\<rparr>) = hashes s"
  "free_rel s xs \<Longrightarrow> free_rel (s\<lparr>cached_block_hash_to_block := m\<rparr>) xs"
  by (auto simp: static_eq refs_def hashes_def simp del: refs_fold hashes_fold elim!: free_rel_cong)

section \<open>The invariant\<close>

definition usable :: "block_pool \<Rightarrow> bref set" where
  "usable s = {Blk i | i. 0 < i \<and> i < nat (num_gpu_blocks s)}"

definition pool_ids :: "block_pool \<Rightarrow> bool" where
  "pool_ids s \<longleftrightarrow> 0 < num_gpu_blocks s \<and> blocks s = map Blk [0..<nat (num_gpu_blocks s)]
     \<and> null_block s = Blk 0
     \<and> (\<forall>i < nat (num_gpu_blocks s). block_id (heap s (Blk i)) = int i \<and> (is_null (heap s (Blk i)) \<longleftrightarrow> i = 0))"

text \<open>\<open>F\<close> holds the unreferenced blocks.\<close>

definition refs_ok :: "block_pool \<Rightarrow> bref set \<Rightarrow> bool" where
  "refs_ok s F \<longleftrightarrow> {b \<in> usable s. refs s b = 0} = F \<and> (\<forall>b \<in> usable s. 0 \<le> refs s b)"

definition cache_ok :: "block_pool \<Rightarrow> bool" where
  "cache_ok s \<longleftrightarrow> hm_wf (ids_of (heap s)) (cmap s)
     \<and> (\<forall>k b. b \<in> set (blocks_of (cmap s) k) \<longleftrightarrow> b \<in> usable s \<and> hashes s b = Some k)
     \<and> (\<forall>k. distinct (blocks_of (cmap s) k))
     \<and> hashes s (Blk 0) = None"

text \<open>The invariant in the middle of an operation: the blocks of \<open>P\<close> are unreferenced and not in the
  free queue.\<close>

definition pool_core :: "block_pool \<Rightarrow> bref list \<Rightarrow> bref set \<Rightarrow> bool" where
  "pool_core s fl P \<longleftrightarrow> free_rel s fl \<and> pool_ids s \<and> cache_ok s \<and> refs_ok s (set fl \<union> P) \<and> set fl \<inter> P = {}"

definition pool_inv :: "block_pool \<Rightarrow> bref list \<Rightarrow> bool" where
  "pool_inv s fl \<longleftrightarrow> pool_core s fl {}"

lemma usable_static: "static s' = static s \<Longrightarrow> usable s' = usable s"
  by (simp add: usable_def static_eq)

lemma pool_ids_static: "static s' = static s \<Longrightarrow> pool_ids s' = pool_ids s"
  by (simp add: pool_ids_def static_eq)

lemma ids_static: "static s' = static s \<Longrightarrow> ids_of (heap s') = ids_of (heap s)"
  by (simp add: static_eq)

lemma null_static: "static s' = static s \<Longrightarrow> null_block s' = null_block s"
  by (simp add: static_eq)

lemmas static_cong = usable_static pool_ids_static ids_static null_static

lemma cache_ok_cong:
  "static s' = static s \<Longrightarrow> cmap s' = cmap s \<Longrightarrow> hashes s' = hashes s \<Longrightarrow> cache_ok s' = cache_ok s"
  using static_cong [of s' s] by (auto simp: cache_ok_def fun_eq_iff)

lemma usable_facts:
  assumes "pool_ids s" and "b \<in> usable s"
  shows "\<not> is_null (heap s b)" "b \<noteq> null_block s" "b \<in> set (blocks s)" "is_blk b"
  using assms by (auto simp: usable_def pool_ids_def is_blk_def)

lemma null_not_usable: "pool_ids s \<Longrightarrow> null_block s \<notin> usable s \<and> is_null (heap s (null_block s))"
  by (auto simp: usable_def pool_ids_def)

lemma usable_inj: "pool_ids s \<Longrightarrow> inj_on (ids_of (heap s)) (usable s)"
  by (auto simp: usable_def pool_ids_def inj_on_def)

lemma blocks_of_usable: "cache_ok s \<Longrightarrow> set (blocks_of (cmap s) k) \<subseteq> usable s"
  by (auto simp: cache_ok_def)

lemma num_free_of_pool_core: "pool_core s fl P \<Longrightarrow> get_num_free_blocks s = int (length fl)"
  by (simp add: pool_core_def free_rel_def get_num_free_blocks_def)

section \<open>Construction\<close>

lemma BlockPool_init_inv:
  assumes "0 < n"
  shows "\<exists>s. BlockPool_init n caching hbs kve ui = Inr s \<and> pool_inv s (map Blk [1..<nat n])
    \<and> cmap s = [] \<and> num_gpu_blocks s = n \<and> enable_caching s = caching \<and> hash_block_size s = hbs"
proof -
  define bs where "bs = map Blk [0..<nat n]"
  define s0 :: block_pool where "s0 = \<lparr>heap = (\<lambda>b. case b of Blk i \<Rightarrow> KVCacheBlock (int i) | _ \<Rightarrow> KVCacheBlock (-1)),
     num_free_blocks = 0, num_gpu_blocks = n, enable_caching = caching, hash_block_size = hbs, blocks = bs,
     cached_block_hash_to_block = [], null_block = FakeHead, enable_kv_cache_events = kve,
     kv_event_queue = [], use_int_hashes = ui\<rparr>"
  define s1 where "s1 = free_queue_init bs s0"
  have bs: "distinct bs" "FakeHead \<notin> set bs" "FakeTail \<notin> set bs"
    by (auto simp: bs_def distinct_map inj_on_def)
  have "free_rel s1 bs" unfolding s1_def
    by (rule free_queue_init_refines) (use bs in \<open>auto simp: s0_def KVCacheBlock_def\<close>)
  moreover have cons: "bs = Blk 0 # map Blk [1..<nat n]"
    using assms by (simp add: bs_def upt_conv_Cons)
  ultimately obtain s2 where s2: "popleft s1 = Inr (Blk 0, s2)" "free_rel s2 (map Blk [1..<nat n])"
    "fq_data s2 = fq_data s1"
    using popleft_refines by metis
  note data = free_queue_init_data [OF bs(2,3,1), of s0, folded s1_def]
  have m: "block_pool.more s1 = ()" by simp
  have flds: "num_gpu_blocks s1 = n" "enable_caching s1 = caching" "hash_block_size s1 = hbs" "blocks s1 = bs"
    "cmap s1 = []"
    using data(2) by (cases s1; simp add: s0_def)+
  have d: "ref_cnt (heap s1 (Blk i)) = 0" "block_hash (heap s1 (Blk i)) = None"
    "block_id (heap s1 (Blk i)) = int i" "\<not> is_null (heap s1 (Blk i))" for i
    using data(1) [of i] by (simp_all add: block_data_def s0_def KVCacheBlock_def del: refs_fold hashes_fold)
  note obs = fq_data_pool [OF s2(3)]
  have f2: "num_gpu_blocks s2 = n" "enable_caching s2 = caching" "hash_block_size s2 = hbs" "blocks s2 = bs"
    "\<And>b. block_id (heap s2 b) = block_id (heap s1 b)" "\<And>b. is_null (heap s2 b) = is_null (heap s1 b)"
    using obs(4) flds by (simp_all add: static_eq)
  define s3 where "s3 = s2\<lparr>null_block := Blk 0, heap := (heap s2)(Blk 0 := (heap s2 (Blk 0))\<lparr>is_null := True\<rparr>)\<rparr>"
  have run: "BlockPool_init n caching hbs kve ui = Inr s3"
    using assms s2(1) by (simp add: BlockPool_init_def s1_def s0_def bs_def s3_def Let_def)
  have r3: "refs s3 = refs s1" "hashes s3 = hashes s1" "cmap s3 = []"
    using obs(1-3) flds by (auto simp: s3_def fun_eq_iff refs_def hashes_def simp del: refs_fold hashes_fold)
  have us: "usable s3 = {Blk i | i. 0 < i \<and> i < nat n}" by (auto simp: usable_def s3_def f2)
  have "free_rel s3 (map Blk [1..<nat n])" unfolding s3_def by (rule free_rel_cong [OF s2(2)]) auto
  moreover have "pool_ids s3" using assms d by (auto simp: pool_ids_def s3_def f2 bs_def)
  moreover have "cache_ok s3" using r3 d us by (auto simp: cache_ok_def hm_wf_def blocks_of_def)
  moreover have "refs_ok s3 (set (map Blk [1..<nat n]))"
    using r3 d by (auto simp: refs_ok_def us)
  ultimately show ?thesis using run r3
    by (auto simp: pool_inv_def pool_core_def s3_def f2)
qed

section \<open>Eviction\<close>

lemma maybe_evict_obs:
  assumes core: "pool_core s fl P" and b: "b \<in> set (blocks s)"
  shows "\<exists>s'. maybe_evict_cached_block b s = (hashes s b \<noteq> None, s') \<and> pool_core s' fl P
    \<and> refs s' = refs s \<and> hashes s' = (hashes s)(b := None) \<and> static s' = static s"
proof (cases "hashes s b")
  case None
  then have "(hashes s)(b := None) = hashes s" by auto
  then show ?thesis using None core by (simp add: maybe_evict_cached_block_def)
next
  case (Some k)
  have c: "cache_ok s" "pool_ids s" using core by (auto simp: pool_core_def)
  have "b \<noteq> Blk 0" using Some c by (auto simp: cache_ok_def)
  then have us: "b \<in> usable s" using b c(2) by (auto simp: usable_def pool_ids_def)
  then have mem: "b \<in> set (blocks_of (cmap s) k)" using c Some by (simp add: cache_ok_def)
  have "inj_on (ids_of (heap s)) (set (blocks_of (cmap s) k))"
    using usable_inj [OF c(2)] blocks_of_usable [OF c(1)] inj_on_subset by blast
  then obtain m where m: "hm_pop (heap s) k (block_id (heap s b)) (cmap s) = (Some b, m)"
    "hm_wf (ids_of (heap s)) m" "blocks_of m = (blocks_of (cmap s))(k := removeAll b (blocks_of (cmap s) k))"
    using hm.del_law [of "ids_of (heap s)" "cmap s" b k] mem c(1) hm_pop_ids [of "heap s"]
    by (auto simp: cache_ok_def)
  define s' where "s' = push_event (BlockRemoved [maybe_convert_block_hash (use_int_hashes s) (get_block_hash k)])
    (reset_hash b (s\<lparr>cached_block_hash_to_block := m\<rparr>))"
  have run: "maybe_evict_cached_block b s = (True, s')"
    using Some m(1) by (simp add: maybe_evict_cached_block_def s'_def)
  have obs: "refs s' = refs s" "hashes s' = (hashes s)(b := None)" "static s' = static s" "cmap s' = m"
    unfolding s'_def by simp_all
  have "free_rel s' fl" unfolding s'_def by (intro push_event_obs reset_hash_obs cmap_update_obs) (use core in \<open>simp add: pool_core_def\<close>)
  moreover have "cache_ok s'"
    using c(1) m(2,3) Some us unfolding cache_ok_def obs static_cong [OF obs(3)]
    by (auto simp: fun_upd_def distinct_removeAll split: if_splits)
  moreover have "refs_ok s' (set fl \<union> P)"
    using core obs(1) by (simp add: pool_core_def refs_ok_def static_cong [OF obs(3)])
  ultimately have "pool_core s' fl P"
    using core static_cong [OF obs(3)] by (simp add: pool_core_def)
  then show ?thesis using run obs Some by simp
qed

lemma evict_blocks_inv:
  assumes "pool_core s fl P" and "\<forall>i \<in> set ids. 0 \<le> i \<and> i < num_gpu_blocks s"
  shows "\<exists>s'. evict_blocks ids s = Inr s' \<and> pool_core s' fl P \<and> refs s' = refs s \<and> static s' = static s
    \<and> hashes s' = (\<lambda>b. if b \<in> Blk ` nat ` set ids then None else hashes s b)"
  using assms
proof (induction ids arbitrary: s)
  case Nil
  then show ?case by (simp add: evict_blocks_def)
next
  case (Cons i ids)
  have bl: "blocks s = map Blk [0..<nat (num_gpu_blocks s)]"
    using Cons.prems(1) by (simp add: pool_core_def pool_ids_def)
  have i: "0 \<le> i" "nat i < nat (num_gpu_blocks s)" using Cons.prems(2) by auto
  then have "py_index (blocks s) i = Inr (Blk (nat i))"
    using py_index_nat [of "nat i" "blocks s"] by (simp add: bl)
  moreover obtain s1 where s1: "snd (maybe_evict_cached_block (Blk (nat i)) s) = s1" "pool_core s1 fl P"
    "refs s1 = refs s" "hashes s1 = (hashes s)(Blk (nat i) := None)" "static s1 = static s"
    using maybe_evict_obs [OF Cons.prems(1), of "Blk (nat i)"] i(2) by (force simp: bl)
  moreover have "\<forall>i \<in> set ids. 0 \<le> i \<and> i < num_gpu_blocks s1"
    using Cons.prems(2) s1(5) by (simp add: static_eq)
  ultimately show ?case
    using Cons.IH [OF s1(2)] i bl by (auto simp: evict_blocks_def fun_eq_iff)
qed

section \<open>Taking blocks\<close>

lemma pool_core_refs:
  assumes "pool_core s fl P" and "static s' = static s" and "hashes s' = hashes s" and "cmap s' = cmap s"
    and "free_rel s' fl'" and "refs_ok s' (set fl' \<union> P')" and "set fl' \<inter> P' = {}"
  shows "pool_core s' fl' P'"
  using assms cache_ok_cong [OF assms(2,4,3)] pool_ids_static [OF assms(2)] by (simp add: pool_core_def)

lemma add_ref_pending:
  assumes "pool_core s fl P" and "b \<in> P"
  shows "pool_core (add_ref 1 b s) fl (P - {b})"
proof (rule pool_core_refs [OF assms(1)])
  show "refs_ok (add_ref 1 b s) (set fl \<union> (P - {b}))"
    using assms usable_static [of "add_ref 1 b s" s] unfolding refs_ok_def pool_core_def by (force split: if_splits)
qed (use assms in \<open>auto simp: pool_core_def\<close>)

lemma add_ref_used:
  assumes "pool_core s fl P" and "b \<notin> set fl \<union> P" and "0 \<le> d"
  shows "pool_core (add_ref d b s) fl P"
proof (rule pool_core_refs [OF assms(1)])
  have "refs_ok s (set fl \<union> P)" using assms(1) by (simp add: pool_core_def)
  moreover have "0 < refs s b" if "b \<in> usable s"
    using assms(2) that calculation by (auto simp: refs_ok_def order_less_le)
  ultimately show "refs_ok (add_ref d b s) (set fl \<union> P)" using assms(2,3)
    unfolding refs_ok_def usable_static [OF add_ref_obs(4)] add_ref_obs(1) by (fastforce split: if_splits)
qed (use assms in \<open>auto simp: pool_core_def\<close>)

lemma new_blocks_loop:
  assumes "pool_core s fl (set ret)" and "distinct ret"
  shows "\<exists>s'. foldM (\<lambda>b s. let s' = (if c then snd (maybe_evict_cached_block b s) else s)
                 in py_assert (ref_cnt (heap s' b) = 0) (Inr (add_ref 1 b s'))) ret s = Inr s'
    \<and> pool_core s' fl {} \<and> static s' = static s
    \<and> refs s' = (\<lambda>b. if b \<in> set ret then 1 else refs s b)
    \<and> hashes s' = (\<lambda>b. if c \<and> b \<in> set ret then None else hashes s b)"
  using assms
proof (induction ret arbitrary: s)
  case Nil
  then show ?case by simp
next
  case (Cons b ret)
  have b: "b \<in> usable s" "refs s b = 0"
    using Cons.prems(1) by (auto simp: pool_core_def refs_ok_def)
  define s1 where "s1 = (if c then snd (maybe_evict_cached_block b s) else s)"
  have s1: "pool_core s1 fl (set (b # ret))" "refs s1 = refs s" "static s1 = static s"
    "hashes s1 = (if c then (hashes s)(b := None) else hashes s)"
    using maybe_evict_obs [OF Cons.prems(1), of b] usable_facts(3) [OF _ b(1)] Cons.prems(1)
    by (auto simp: s1_def pool_core_def)
  have eq: "set (b # ret) - {b} = set ret" using Cons.prems(2) by auto
  have core: "pool_core (add_ref 1 b s1) fl (set ret)"
    using add_ref_pending [OF s1(1), of b] unfolding eq by simp
  from Cons.IH [OF this] Cons.prems(2) show ?case
    using s1 b(2) by (auto simp: s1_def [symmetric] fun_eq_iff)
qed

lemma get_new_blocks_ok:
  assumes inv: "pool_inv s fl" and k: "k \<le> length fl"
  shows "\<exists>s'. get_new_blocks (int k) s = Inr (take k fl, s') \<and> pool_inv s' (drop k fl) \<and> static s' = static s
    \<and> refs s' = (\<lambda>b. if b \<in> set (take k fl) then 1 else refs s b)
    \<and> hashes s' = (\<lambda>b. if enable_caching s \<and> b \<in> set (take k fl) then None else hashes s b)"
proof -
  have core: "pool_core s fl {}" using inv by (simp add: pool_inv_def)
  have fr: "free_rel s fl" using core by (simp add: pool_core_def)
  obtain s1 where s1: "popleft_n (int k) s = Inr (take k fl, s1)" "free_rel s1 (drop k fl)" "fq_data s1 = fq_data s"
    using fq.pop_n_take [OF fr k] by blast
  note obs = fq_data_pool [OF s1(3)]
  have d: "distinct fl" using fr by (simp add: free_rel_def)
  have "set fl = set (drop k fl) \<union> set (take k fl)" by (metis append_take_drop_id set_append sup_commute)
  then have "pool_core s1 (drop k fl) (set (take k fl))"
    using core s1(2) obs d set_take_disj_set_drop_if_distinct [OF d, of k k]
    by (intro pool_core_refs [OF core]) (auto simp: pool_core_def refs_ok_def usable_static [OF obs(4)])
  from new_blocks_loop [OF this distinct_take [OF d], of "enable_caching s1"]
  obtain s2 where "foldM (\<lambda>b s. let s' = (if enable_caching s1 then snd (maybe_evict_cached_block b s) else s)
      in py_assert (ref_cnt (heap s' b) = 0) (Inr (add_ref 1 b s'))) (take k fl) s1 = Inr s2"
    "pool_core s2 (drop k fl) {}" "static s2 = static s1"
    "refs s2 = (\<lambda>b. if b \<in> set (take k fl) then 1 else refs s1 b)"
    "hashes s2 = (\<lambda>b. if enable_caching s1 \<and> b \<in> set (take k fl) then None else hashes s1 b)" by blast
  moreover have "enable_caching s1 = enable_caching s" using obs(4) by (simp add: static_eq)
  ultimately show ?thesis
    using s1(1) obs num_free_of_pool_core [OF core] k
    by (simp add: get_new_blocks_def pool_inv_def cong: if_cong)
qed

lemma get_new_blocks_error:
  "pool_inv s fl \<Longrightarrow> int (length fl) < n \<Longrightarrow> get_new_blocks n s = Inl ValueError"
  using num_free_of_pool_core [of s fl] by (simp add: pool_inv_def get_new_blocks_def)

section \<open>Reference counts\<close>

lemma touch_ok:
  assumes "pool_core s fl {}" and "set bs \<subseteq> usable s \<union> {null_block s}"
  shows "\<exists>s'. touch bs s = Inr s' \<and> pool_core s' (filter (\<lambda>b. b \<notin> set bs) fl) {} \<and> static s' = static s
    \<and> refs s' = (\<lambda>b. refs s b + int (count_list bs b)) \<and> hashes s' = hashes s"
  using assms
proof (induction bs arbitrary: s fl)
  case Nil
  then show ?case by (simp add: touch_def)
next
  case (Cons b bs)
  have ids: "pool_ids s" and fr: "free_rel s fl" using Cons.prems(1) by (simp_all add: pool_core_def)
  have "\<exists>s1. (if refs s b = 0 \<and> \<not> is_null (heap s b) then fq_remove b s else Inr s) = Inr s1
      \<and> pool_core (add_ref 1 b s1) (removeAll b fl) {} \<and> static s1 = static s \<and> refs s1 = refs s \<and> hashes s1 = hashes s"
  proof (cases "refs s b = 0 \<and> \<not> is_null (heap s b)")
    case True
    with Cons.prems have "b \<in> usable s" using null_not_usable [OF ids] by auto
    with True Cons.prems(1) have mem: "b \<in> set fl" by (auto simp: pool_core_def refs_ok_def)
    obtain s1 where s1: "fq_remove b s = Inr s1" "free_rel s1 (removeAll b fl)" "fq_data s1 = fq_data s"
      using fq.rm_filter [OF fr mem] by blast
    note obs = fq_data_pool [OF s1(3)]
    have "pool_core s1 (removeAll b fl) {b}"
      using Cons.prems(1) s1(2) obs mem
      by (intro pool_core_refs [OF Cons.prems(1)]) (auto simp: pool_core_def refs_ok_def usable_static [OF obs(4)])
    from add_ref_pending [OF this] show ?thesis using True s1(1) obs by simp
  next
    case False
    then have nf: "b \<notin> set fl"
      using Cons.prems(1) usable_facts(1) [OF ids] by (auto simp: pool_core_def refs_ok_def)
    then have "removeAll b fl = fl" by simp
    moreover have "pool_core (add_ref 1 b s) fl {}"
      using add_ref_used [OF Cons.prems(1), of b 1] nf by simp
    ultimately show ?thesis using False by (simp only: if_False) simp
  qed
  then obtain s1 where s1: "(if refs s b = 0 \<and> \<not> is_null (heap s b) then fq_remove b s else Inr s) = Inr s1"
    "pool_core (add_ref 1 b s1) (removeAll b fl) {}" "static s1 = static s" "refs s1 = refs s" "hashes s1 = hashes s"
    by blast
  have st: "static (add_ref 1 b s1) = static s" using s1(3) by simp
  have "set bs \<subseteq> usable (add_ref 1 b s1) \<union> {null_block (add_ref 1 b s1)}"
    using Cons.prems(2) unfolding static_cong [OF st] by simp
  from Cons.IH [OF s1(2) this] obtain s' where s': "touch bs (add_ref 1 b s1) = Inr s'"
    "pool_core s' (filter (\<lambda>b. b \<notin> set bs) (removeAll b fl)) {}" "static s' = static (add_ref 1 b s1)"
    "refs s' = (\<lambda>x. refs (add_ref 1 b s1) x + int (count_list bs x))" "hashes s' = hashes (add_ref 1 b s1)" by blast
  have "filter (\<lambda>x. x \<notin> set bs) (removeAll b fl) = filter (\<lambda>x. x \<notin> set (b # bs)) fl"
    by (induction fl) auto
  then show ?case using s1 s' st by (auto simp: touch_def fun_eq_iff)
qed

lemma fold_add_ref_obs:
  "static (fold (add_ref d) bs s) = static s" "hashes (fold (add_ref d) bs s) = hashes s"
  "cmap (fold (add_ref d) bs s) = cmap s"
  "refs (fold (add_ref d) bs s) = (\<lambda>b. refs s b + d * int (count_list bs b))"
  "free_rel s fl \<Longrightarrow> free_rel (fold (add_ref d) bs s) fl"
  by (induction bs arbitrary: s) (auto simp: fun_eq_iff algebra_simps)

lemma count_list_distinct: "distinct (filter P xs) \<Longrightarrow> P x \<Longrightarrow> count_list xs x = (if x \<in> set xs then 1 else 0)"
  by (induction xs) (auto simp: count_list_0_iff split: if_splits)

lemma free_blocks_ok:
  assumes core: "pool_core s fl {}" and sub: "set bs \<subseteq> usable s \<union> {null_block s}"
    and d: "distinct (filter (\<lambda>b. b \<noteq> null_block s) bs)" and pos: "\<forall>b \<in> set bs. b \<noteq> null_block s \<longrightarrow> 0 < refs s b"
  shows "\<exists>s'. free_blocks bs s = Inr s' \<and> static s' = static s \<and> hashes s' = hashes s
    \<and> refs s' = (\<lambda>b. refs s b - int (count_list bs b))
    \<and> pool_core s' (fl @ filter (\<lambda>b. b \<noteq> null_block s \<and> refs s b = 1) bs) {}"
proof -
  define s1 where "s1 = fold (add_ref (-1)) bs s"
  note obs = fold_add_ref_obs [where d = "-1" and bs = bs and s = s, folded s1_def]
  have ids: "pool_ids s" and fr: "free_rel s fl" and ro: "refs_ok s (set fl)"
    using core by (simp_all add: pool_core_def)
  let ?D = "filter (\<lambda>b. b \<noteq> null_block s \<and> refs s b = 1) bs"
  have r1: "refs s1 b = (if b \<in> set bs then refs s b - 1 else refs s b)" if "b \<noteq> null_block s" for b
    using count_list_distinct [OF d that] obs(4) by simp
  have "(ref_cnt (heap s1 b) = 0 \<and> \<not> is_null (heap s1 b)) = (b \<noteq> null_block s \<and> refs s b = 1)"
    if "b \<in> set bs" for b
  proof -
    have "is_null (heap s1 b) = (b = null_block s)"
      using that sub usable_facts(1) [OF ids] null_not_usable [OF ids] obs(1) by (auto simp: static_eq)
    then show ?thesis using that r1 by auto
  qed
  then have fl: "filter (\<lambda>b. ref_cnt (heap s1 b) = 0 \<and> \<not> is_null (heap s1 b)) bs = ?D"
    by (intro filter_cong) auto
  have nn: "b \<noteq> null_block s" if "b \<in> usable s" for b using that null_not_usable [OF ids] by auto
  have fl': "x \<in> set fl \<longleftrightarrow> x \<in> usable s \<and> refs s x = 0" for x using ro by (auto simp: refs_ok_def)
  have "{b \<in> usable s. refs s1 b = 0} = set fl \<union> set ?D"
  proof -
    have "x \<in> usable s \<Longrightarrow> refs s1 x = 0 \<longleftrightarrow> x \<in> set fl \<union> set ?D" for x
      using r1 [OF nn, of x] pos nn [of x] ro unfolding fl' by (auto simp: fl')
    moreover have "set fl \<union> set ?D \<subseteq> usable s" using sub by (auto simp: fl')
    ultimately show ?thesis by blast
  qed
  moreover have "0 \<le> refs s1 b" if "b \<in> usable s" for b
    using ro pos nn [OF that] that by (force simp: r1 refs_ok_def)
  ultimately have ro1: "refs_ok s1 (set fl \<union> set ?D)"
    by (simp add: refs_ok_def usable_static [OF obs(1)])
  have disj: "set fl \<inter> set ?D = {}" by (auto simp: fl')
  have dD: "distinct ?D" using d distinct_filter [OF d, of "\<lambda>b. refs s b = 1"] by (simp add: conj_commute)
  have "distinct fl" using fr by (simp add: free_rel_def)
  moreover have "list_all is_blk ?D" using sub usable_facts(4) [OF ids] by (auto simp: list_all_iff)
  ultimately obtain s' where s': "append_n ?D s1 = Inr s'" "free_rel s' (fl @ ?D)" "fq_data s' = fq_data s1"
    using fq.add_n_law [OF obs(5) [OF fr], of ?D] disj dD by auto
  note obs' = fq_data_pool [OF s'(3)]
  have "pool_core s' (fl @ ?D) {}"
    using ro1 obs obs' s'(2) by (intro pool_core_refs [OF core])
      (auto simp: refs_ok_def usable_static [OF obs'(4)])
  then show ?thesis using s' obs obs' fl
    by (simp add: free_blocks_def s1_def [symmetric] Let_def)
qed

section \<open>Caching full blocks\<close>

lemma cache_block_step_ok:
  assumes core: "pool_core s fl P" and b: "b \<in> usable s \<union> {null_block s}" and nh: "hashes s b = None"
    and i: "i < length hs" and k: "make_block_hash_with_group_id (hs ! i) g = Inr k"
  shows "\<exists>s' ext'. cache_block_step hs g (i, b) (s, ext) = Inr (s', ext') \<and> pool_core s' fl P
    \<and> static s' = static s \<and> refs s' = refs s
    \<and> hashes s' = (if b = null_block s then hashes s else (hashes s)(b := Some k))"
proof -
  have ids: "pool_ids s" and co: "cache_ok s" and fr: "free_rel s fl" and ro: "refs_ok s (set fl \<union> P)"
    using core by (simp_all add: pool_core_def)
  show ?thesis
  proof (cases "b = null_block s")
    case True
    then show ?thesis using null_not_usable [OF ids] core k by (auto simp: cache_block_step_def)
  next
    case False
    then have us: "b \<in> usable s" using b by simp
    obtain s1 where s1: "set_block_hash b k s = Inr s1" "refs s1 = refs s" "hashes s1 = (hashes s)(b := Some k)"
      "cmap s1 = cmap s" "static s1 = static s" "\<And>xs. free_rel s xs \<Longrightarrow> free_rel s1 xs"
      using set_block_hash_obs [OF nh, of k] by blast
    have "b \<notin> set (blocks_of (cmap s) k)" using co nh by (simp add: cache_ok_def)
    then have "\<forall>b' \<in> set (blocks_of (cmap s) k). block_id (heap s b') \<noteq> block_id (heap s b)"
      using usable_inj [OF ids] blocks_of_usable [OF co] us by (metis inj_onD subsetD)
    then have ins: "hm_wf (ids_of (heap s)) (hm_insert (heap s1) k b (cmap s))"
      "blocks_of (hm_insert (heap s1) k b (cmap s)) = (blocks_of (cmap s))(k := blocks_of (cmap s) k @ [b])"
      using hm.ins_law [of "ids_of (heap s)" "cmap s" k b] co hm_insert_ids [of "heap s1" k b "cmap s"]
        ids_static [OF s1(5)] by (simp_all add: cache_ok_def)
    define s2 where "s2 = s1\<lparr>cached_block_hash_to_block := hm_insert (heap s1) k b (cmap s1)\<rparr>"
    have obs: "refs s2 = refs s" "hashes s2 = (hashes s)(b := Some k)" "static s2 = static s"
      "cmap s2 = hm_insert (heap s1) k b (cmap s)" "free_rel s2 fl"
      using s1 fr by (simp_all add: s2_def)
    have b0: "b \<noteq> Blk 0" using us by (auto simp: usable_def)
    have mem: "b' \<in> set (blocks_of (cmap s) k') \<longleftrightarrow> b' \<in> usable s \<and> hashes s b' = Some k'"
      and dis: "distinct (blocks_of (cmap s) k')" and h0: "hashes s (Blk 0) = None" for b' k'
      using co by (simp_all add: cache_ok_def)
    have "cache_ok s2"
      unfolding cache_ok_def obs static_cong [OF obs(3)] ins(2)
    proof (intro conjI allI)
      show "distinct (((blocks_of (cmap s))(k := blocks_of (cmap s) k @ [b])) k')" for k'
        using dis \<open>b \<notin> set (blocks_of (cmap s) k)\<close> by simp
      show "b' \<in> set (((blocks_of (cmap s))(k := blocks_of (cmap s) k @ [b])) k') \<longleftrightarrow>
          b' \<in> usable s \<and> ((hashes s)(b := Some k)) b' = Some k'" for b' k'
        using mem [of b' k'] us nh by auto
    qed (use ins(1) b0 h0 in auto)
    moreover have "refs_ok s2 (set fl \<union> P)" using ro obs(1) by (simp add: refs_ok_def usable_static [OF obs(3)])
    ultimately have "pool_core s2 fl P" using core obs static_cong [OF obs(3)] by (simp add: pool_core_def)
    moreover have "cache_block_step hs g (i, b) (s, ext) =
        Inr (s2, ext @ [maybe_convert_block_hash (use_int_hashes s1) (hs ! i)])"
      using usable_facts(1) [OF ids us] nh i k s1(1) by (simp add: cache_block_step_def s2_def)
    ultimately show ?thesis using obs(1-3) False by metis
  qed
qed

text \<open>The hashes of a request at the granularity of \<open>block_size\<close>, and the packed key of a hash.\<close>

definition group_hashes :: "nat \<Rightarrow> nat \<Rightarrow> bytes list \<Rightarrow> bytes list" where
  "group_hashes hbs block_size hs =
     (if block_size = hbs then hs
      else let sc = block_size div hbs
           in map (\<lambda>i. concat (take sc (drop (i * sc) hs))) [0..<length hs div sc])"

definition packed :: "int \<Rightarrow> bytes \<Rightarrow> bytes" where
  "packed g bh = (case make_block_hash_with_group_id bh g of Inl _ \<Rightarrow> [] | Inr k \<Rightarrow> k)"

definition group_id_ok :: "int \<Rightarrow> bool" where
  "group_id_ok g \<longleftrightarrow> 0 \<le> g \<and> g < 2 ^ 32"

lemma make_packed: "group_id_ok g \<Longrightarrow> make_block_hash_with_group_id bh g = Inr (packed g bh)"
  using make_block_hash_total [of g bh] by (auto simp: packed_def group_id_ok_def)

lemma packed_inj: "group_id_ok g \<Longrightarrow> group_id_ok g' \<Longrightarrow> packed g a = packed g' b \<longleftrightarrow> a = b \<and> g = g'"
  using make_packed make_block_hash_inj by metis

lemma foldM_map: "(\<And>x. x \<in> set xs \<Longrightarrow> f x = Inr (g x)) \<Longrightarrow>
    foldM (\<lambda>i acc. rbind (f i) (\<lambda>v. Inr (acc @ [v]))) xs acc = Inr (acc @ map g xs)"
  by (induction xs arbitrary: acc) auto

definition block_size_ok :: "nat \<Rightarrow> nat \<Rightarrow> bool" where
  "block_size_ok hbs block_size \<longleftrightarrow> 0 < hbs \<and> 0 < block_size \<and> block_size mod hbs = 0"

lemma scale_pos: "block_size_ok hbs block_size \<Longrightarrow> 0 < block_size div hbs"
  by (auto simp: block_size_ok_def div_greater_zero_iff mod_eq_0_iff_dvd dvd_imp_le)

lemma hashes_from_drop:
  assumes "block_size_ok hbs block_size"
  shows "hashes_from hbs block_size hs start = Inr (drop start (group_hashes hbs block_size hs))"
proof (cases "block_size = hbs")
  case False
  define l where "l = \<lparr>bhl_hashes = hs, scale_factor = block_size div hbs\<rparr>"
  have l: "BlockHashListWithBlockSize hs hbs block_size = Inr l" "0 < scale_factor l"
    using assms scale_pos [OF assms] by (simp_all add: BlockHashListWithBlockSize_def l_def block_size_ok_def)
  have "foldM (\<lambda>i acc. rbind (bhl_get_value_at l i) (\<lambda>v. Inr (acc @ [v]))) [start..<bhl_len l] [] =
      Inr ([] @ map (\<lambda>i. concat (take (scale_factor l) (drop (i * scale_factor l) (bhl_hashes l)))) [start..<bhl_len l])"
    by (rule foldM_map) (simp add: bhl_get_value_at_concat l(2))
  then show ?thesis using False l
    by (simp add: hashes_from_def group_hashes_def l_def bhl_len_def Let_def drop_map)
qed (simp add: hashes_from_def group_hashes_def)

lemma hash_at_total:
  assumes "block_size_ok hbs block_size" and "i < length (group_hashes hbs block_size hs)"
  shows "hash_at hbs block_size hs i = Inr (group_hashes hbs block_size hs ! i)"
proof (cases "block_size = hbs")
  case False
  define l where "l = \<lparr>bhl_hashes = hs, scale_factor = block_size div hbs\<rparr>"
  have l: "BlockHashListWithBlockSize hs hbs block_size = Inr l" "0 < scale_factor l"
    using assms scale_pos [OF assms(1)] by (simp_all add: BlockHashListWithBlockSize_def l_def block_size_ok_def)
  have "i < bhl_len l" using assms(2) False by (simp add: group_hashes_def l_def bhl_len_def Let_def)
  then show ?thesis using bhl_get_value_at_concat [OF _ l(2)] False l
    by (simp add: hash_at_def group_hashes_def l_def bhl_len_def Let_def)
qed (use assms in \<open>simp add: hash_at_def group_hashes_def\<close>)

lemma group_hashes_le: "block_size_ok hbs block_size \<Longrightarrow> length (group_hashes hbs block_size hs) \<le> length hs"
  by (simp add: group_hashes_def Let_def)

lemma cache_loop_ok:
  assumes "pool_core s fl P" and "set l \<subseteq> usable s \<union> {null_block s}"
    and "distinct (filter (\<lambda>b. b \<noteq> null_block s) l)" and "\<forall>b \<in> set l. hashes s b = None"
    and "i + length l \<le> length hs" and g: "group_id_ok g"
  shows "\<exists>s' ext'. foldM (cache_block_step hs g) (zip [i..<i + length l] l) (s, ext) = Inr (s', ext')
    \<and> pool_core s' fl P \<and> static s' = static s \<and> refs s' = refs s
    \<and> (\<forall>j < length l. l ! j \<noteq> null_block s \<longrightarrow> hashes s' (l ! j) = Some (packed g (hs ! (i + j))))
    \<and> (\<forall>b. b \<notin> set l \<or> b = null_block s \<longrightarrow> hashes s' b = hashes s b)"
  using assms(1-5)
proof (induction l arbitrary: s i ext)
  case Nil
  then show ?case by simp
next
  case (Cons b l)
  have i: "i < length hs" and nh: "hashes s b = None" and b: "b \<in> usable s \<union> {null_block s}"
    using Cons.prems by auto
  obtain s1 e1 where s1: "cache_block_step hs g (i, b) (s, ext) = Inr (s1, e1)" "pool_core s1 fl P"
    "static s1 = static s" "refs s1 = refs s"
    "hashes s1 = (if b = null_block s then hashes s else (hashes s)(b := Some (packed g (hs ! i))))"
    using cache_block_step_ok [OF Cons.prems(1) b nh i make_packed [OF g]] by blast
  note st = static_cong [OF s1(3)]
  have p1: "set l \<subseteq> usable s1 \<union> {null_block s1}" using Cons.prems(2) unfolding st by simp
  have p2: "distinct (filter (\<lambda>b. b \<noteq> null_block s1) l)"
    using Cons.prems(3) unfolding st by (simp split: if_splits)
  have p3: "\<forall>x \<in> set l. hashes s1 x = None" using Cons.prems(3,4) s1(5) by auto
  have p4: "Suc i + length l \<le> length hs" using Cons.prems(5) by simp
  from Cons.IH [OF s1(2) p1 p2 p3 p4, of e1]
  obtain s' e' where s': "foldM (cache_block_step hs g) (zip [Suc i..<Suc i + length l] l) (s1, e1) = Inr (s', e')"
    "pool_core s' fl P" "static s' = static s1" "refs s' = refs s1"
    "\<forall>j < length l. l ! j \<noteq> null_block s \<longrightarrow> hashes s' (l ! j) = Some (packed g (hs ! (Suc i + j)))"
    "\<forall>x. x \<notin> set l \<or> x = null_block s \<longrightarrow> hashes s' x = hashes s1 x"
    unfolding st by blast
  have "[i..<i + length (b # l)] = i # [Suc i..<Suc i + length l]"
    using upt_conv_Cons [of i "i + length (b # l)"] by simp
  then have zip: "zip [i..<i + length (b # l)] (b # l) = (i, b) # zip [Suc i..<Suc i + length l] l"
    by (simp only: zip_Cons_Cons)
  have here: "hashes s' b = Some (packed g (hs ! i))" if "b \<noteq> null_block s"
  proof -
    have "b \<notin> set l" using Cons.prems(3) that by auto
    then show ?thesis using s'(6) s1(5) that by simp
  qed
  have "hashes s' ((b # l) ! j) = Some (packed g (hs ! (i + j)))"
    if "j < length (b # l)" "(b # l) ! j \<noteq> null_block s" for j
    using that here s'(5) by (cases j) auto
  moreover have "hashes s' x = hashes s x" if "x \<notin> set (b # l) \<or> x = null_block s" for x
    using that s'(6) s1(5) by auto
  ultimately show ?case using s'(1-4) s1(1-4) unfolding zip by auto
qed

lemma cache_full_blocks_ok:
  assumes core: "pool_core s fl P" and bs: "block_size_ok (hash_block_size s) block_size" and g: "group_id_ok g"
    and le: "nf \<le> length (group_hashes (hash_block_size s) block_size (block_hashes r))" "nf \<le> length blks"
    and slice: "l = take (nf - nc) (drop nc blks)" "set l \<subseteq> usable s \<union> {null_block s}"
      "distinct (filter (\<lambda>b. b \<noteq> null_block s) l)" "\<forall>b \<in> set l. hashes s b = None"
  shows "\<exists>s'. cache_full_blocks r blks nc nf block_size g s = Inr s' \<and> pool_core s' fl P
    \<and> static s' = static s \<and> refs s' = refs s
    \<and> (\<forall>j. nc \<le> j \<and> j < nf \<and> blks ! j \<noteq> null_block s \<longrightarrow>
         hashes s' (blks ! j) = Some (packed g (group_hashes (hash_block_size s) block_size (block_hashes r) ! j)))
    \<and> (\<forall>b. b \<notin> set l \<or> b = null_block s \<longrightarrow> hashes s' b = hashes s b)"
proof (cases "nf \<le> nc")
  case True
  then show ?thesis using core by (auto simp: cache_full_blocks_def)
next
  case False
  let ?gh = "group_hashes (hash_block_size s) block_size (block_hashes r)"
  have len: "length l = nf - nc" using False le(2) slice(1) by simp
  then have "0 + length l \<le> length (drop nc ?gh)" using le(1) by simp
  from cache_loop_ok [OF core slice(2-4) this g, of "[]"]
  obtain s1 e1 where s1: "foldM (cache_block_step (drop nc ?gh) g) (zip [0..<length l] l) (s, []) = Inr (s1, e1)"
    "pool_core s1 fl P" "static s1 = static s" "refs s1 = refs s"
    "\<forall>j < length l. l ! j \<noteq> null_block s \<longrightarrow> hashes s1 (l ! j) = Some (packed g (drop nc ?gh ! j))"
    "\<forall>b. b \<notin> set l \<or> b = null_block s \<longrightarrow> hashes s1 b = hashes s b"
    unfolding add_0 by blast
  have hbs: "hash_block_size s1 = hash_block_size s" using s1(3) by (simp add: static_eq)
  have "hash_at (hash_block_size s) block_size (block_hashes r) (nc - 1) = Inr (?gh ! (nc - 1))" if "nc \<noteq> 0"
    using hash_at_total [OF bs] False le(1) by simp
  then obtain p where p: "(if nc = 0 then Inr None
      else rbind (hash_at (hash_block_size s1) block_size (block_hashes r) (nc - 1))
             (\<lambda>bh. Inr (Some (maybe_convert_block_hash (use_int_hashes s1) bh)))) = Inr p"
    unfolding hbs by (cases "nc = 0") auto
  have guards: "nf \<le> length (block_hashes r)" "hash_block_size s \<noteq> 0"
    "block_size = hash_block_size s \<or> block_size mod hash_block_size s = 0" "\<not> nf \<le> nc"
    using le(1) group_hashes_le [OF bs, of "block_hashes r"] bs False by (auto simp: block_size_ok_def)
  obtain ev where run: "cache_full_blocks r blks nc nf block_size g s = Inr ev"
    "ev = s1 \<or> (\<exists>e. ev = push_event e s1)"
    using that guards s1(1) p
    by (cases "enable_kv_cache_events s1")
      (simp_all add: cache_full_blocks_def hashes_from_drop [OF bs] Let_def flip: slice(1), blast)
  then have ev: "refs ev = refs s1" "hashes ev = hashes s1" "static ev = static s1" "cmap ev = cmap s1"
    "free_rel ev fl" using s1(2) by (auto simp: pool_core_def)
  have "pool_core ev fl P"
    using s1(2) ev by (intro pool_core_refs [OF s1(2)]) (auto simp: pool_core_def refs_ok_def usable_static [OF ev(3)])
  moreover have "hashes s1 (blks ! j) = Some (packed g (?gh ! j))"
    if "nc \<le> j" "j < nf" "blks ! j \<noteq> null_block s" for j
  proof -
    have "l ! (j - nc) = blks ! j" using that le(2) by (simp add: slice(1))
    moreover have "drop nc ?gh ! (j - nc) = ?gh ! j" using that le(1) by simp
    moreover have "j - nc < length l" using that len by simp
    ultimately show ?thesis using s1(5) that(3) by metis
  qed
  ultimately show ?thesis using run(1) ev s1(3,4,6) by auto
qed

section \<open>Lookup, reset and usage\<close>

lemma get_cached_block_ok:
  assumes "cache_ok s" and "\<forall>g \<in> set gs. group_id_ok g"
  shows "\<exists>res. get_cached_block s bh gs = Inr res
    \<and> (\<forall>bs. res = Some bs \<longrightarrow> list_all2 (\<lambda>g b. b \<in> usable s \<and> hashes s b = Some (packed g bh)) gs bs)
    \<and> (res = None \<longrightarrow> (\<exists>g \<in> set gs. \<forall>b \<in> usable s. hashes s b \<noteq> Some (packed g bh)))"
  using assms(2)
proof (induction gs)
  case (Cons g gs)
  let ?l = "blocks_of (cmap s) (packed g bh)"
  have mem: "b \<in> set ?l \<longleftrightarrow> b \<in> usable s \<and> hashes s b = Some (packed g bh)" for b
    using assms(1) by (simp add: cache_ok_def)
  have find: "get_one_block (packed g bh) (cmap s) = Inr (if ?l = [] then None else Some (hd ?l))"
    using assms(1) hm.find_law by (auto simp: cache_ok_def)
  have mk: "make_block_hash_with_group_id bh g = Inr (packed g bh)" using Cons.prems by (simp add: make_packed)
  obtain res where res: "get_cached_block s bh gs = Inr res"
    "\<forall>bs. res = Some bs \<longrightarrow> list_all2 (\<lambda>g b. b \<in> usable s \<and> hashes s b = Some (packed g bh)) gs bs"
    "res = None \<longrightarrow> (\<exists>g \<in> set gs. \<forall>b \<in> usable s. hashes s b \<noteq> Some (packed g bh))"
    using Cons by auto
  show ?case
  proof (cases "?l = []")
    case True
    then have "\<forall>b \<in> usable s. hashes s b \<noteq> Some (packed g bh)" using mem by auto
    then show ?thesis using True by (simp add: mk find)
  next
    case False
    then have "hd ?l \<in> usable s \<and> hashes s (hd ?l) = Some (packed g bh)" using mem [of "hd ?l"] by simp
    then show ?thesis using False res by (cases res) (auto simp: mk find)
  qed
qed simp

lemma fold_reset_hash_obs:
  "static (fold reset_hash bs s) = static s" "refs (fold reset_hash bs s) = refs s"
  "cmap (fold reset_hash bs s) = cmap s"
  "hashes (fold reset_hash bs s) = (\<lambda>b. if b \<in> set bs then None else hashes s b)"
  "free_rel s fl \<Longrightarrow> free_rel (fold reset_hash bs s) fl"
  by (induction bs arbitrary: s) (auto simp: fun_eq_iff)

lemma used_blocks:
  assumes "pool_inv s fl"
  shows "int (length fl) \<le> num_gpu_blocks s - 1"
    and "num_gpu_blocks s - get_num_free_blocks s = 1 \<longleftrightarrow> (\<forall>b \<in> usable s. refs s b = 0)"
proof -
  have ids: "pool_ids s" and d: "distinct fl" and fl: "{b \<in> usable s. refs s b = 0} = set fl"
    using assms by (auto simp: pool_inv_def pool_core_def free_rel_def refs_ok_def)
  have n: "0 < num_gpu_blocks s" using ids by (simp add: pool_ids_def)
  have us: "usable s = Blk ` {0<..<nat (num_gpu_blocks s)}" by (auto simp: usable_def)
  have card: "card (usable s) = nat (num_gpu_blocks s) - 1"
    unfolding us by (subst card_image) (auto simp: inj_on_def)
  have fin: "finite (usable s)" by (simp add: us)
  have len: "length fl = card (set fl)" using d by (simp add: distinct_card)
  have "card (set fl) \<le> card (usable s)" unfolding fl [symmetric] using fin by (intro card_mono) auto
  then show "int (length fl) \<le> num_gpu_blocks s - 1"
    using card len n by linarith
  have "num_gpu_blocks s - get_num_free_blocks s = 1 \<longleftrightarrow> card (set fl) = card (usable s)"
    using num_free_of_pool_core [of s fl "{}"] assms card len n by (auto simp: pool_inv_def)
  also have "\<dots> \<longleftrightarrow> set fl = usable s" using fin fl by (metis (lifting) card_subset_eq mem_Collect_eq subsetI)
  also have "\<dots> \<longleftrightarrow> (\<forall>b \<in> usable s. refs s b = 0)" unfolding fl [symmetric] by blast
  finally show "num_gpu_blocks s - get_num_free_blocks s = 1 \<longleftrightarrow> (\<forall>b \<in> usable s. refs s b = 0)" .
qed

lemma reset_prefix_cache_ok:
  assumes inv: "pool_inv s fl"
  shows "\<exists>s'. reset_prefix_cache s = ((\<forall>b \<in> usable s. refs s b = 0), s') \<and> pool_inv s' fl
    \<and> static s' = static s \<and> refs s' = refs s
    \<and> hashes s' = (if \<forall>b \<in> usable s. refs s b = 0 then (\<lambda>b. if b \<in> set (blocks s) then None else hashes s b) else hashes s)"
proof (cases "\<forall>b \<in> usable s. refs s b = 0")
  case False
  then show ?thesis using used_blocks(2) [OF inv] inv
    by (simp only: reset_prefix_cache_def if_False simp_thms) simp
next
  case True
  define s1 where "s1 = fold reset_hash (blocks s) (s\<lparr>cached_block_hash_to_block := []\<rparr>)"
  note obs = fold_reset_hash_obs [where bs = "blocks s" and s = "s\<lparr>cached_block_hash_to_block := []\<rparr>", folded s1_def, simplified]
  have core: "free_rel s fl" "pool_ids s" "refs_ok s (set fl)" "cache_ok s"
    using inv by (auto simp: pool_inv_def pool_core_def)
  define s2 where "s2 = push_event AllBlocksCleared s1"
  have o2: "static s2 = static s" "refs s2 = refs s" "cmap s2 = []" "free_rel s2 fl"
    "hashes s2 = (\<lambda>b. if b \<in> set (blocks s) then None else hashes s b)"
    using obs core(1) by (simp_all add: s2_def cong: if_cong)
  have "cache_ok s2"
    using usable_facts(3) [OF core(2)] core(2) unfolding cache_ok_def o2 static_cong [OF o2(1)]
    by (auto simp: hm_wf_def blocks_of_def pool_ids_def)
  then have "pool_inv s2 fl"
    using core o2 by (simp add: pool_inv_def pool_core_def refs_ok_def static_cong [OF o2(1)])
  then show ?thesis using True used_blocks(2) [OF inv] o2
    by (simp add: reset_prefix_cache_def s1_def [symmetric] s2_def [symmetric])
qed

lemma get_usage_range:
  assumes inv: "pool_inv s fl"
  shows "0 \<le> get_usage s \<and> get_usage s \<le> 1"
proof -
  have f: "get_num_free_blocks s = int (length fl)" using num_free_of_pool_core inv by (auto simp: pool_inv_def)
  have n: "0 < num_gpu_blocks s" using inv by (simp add: pool_inv_def pool_core_def pool_ids_def)
  show ?thesis
  proof (cases "num_gpu_blocks s = 1")
    case False
    then have p: "0 < real_of_int (num_gpu_blocks s - 1)" using n by simp
    have "real_of_int (int (length fl)) \<le> real_of_int (num_gpu_blocks s - 1)"
      using used_blocks(1) [OF inv] of_int_le_iff by blast
    then have "real_of_int (get_num_free_blocks s) / real_of_int (num_gpu_blocks s - 1) \<le> 1"
      "0 \<le> real_of_int (get_num_free_blocks s) / real_of_int (num_gpu_blocks s - 1)"
      using p f by simp_all
    then show ?thesis using False by (simp add: get_usage_def Let_def)
  qed (simp add: get_usage_def)
qed

section \<open>The pool and its clients\<close>

text \<open>
  The pool as a state machine together with the multiset of references its clients hold.  Clients
  allocate blocks, touch blocks they found in the prefix cache, give back references they hold, and
  cache the hashes of blocks that have none; the events and the prefix cache can be drained and
  reset at any time.  References to the null block are not counted.
\<close>

definition held :: "block_pool \<Rightarrow> bref list \<Rightarrow> bref multiset" where
  "held s bs = mset (filter (\<lambda>b. b \<noteq> null_block s) bs)"

abbreviation valid_refs :: "block_pool \<Rightarrow> bref list \<Rightarrow> bool" where
  "valid_refs s bs \<equiv> set bs \<subseteq> usable s \<union> {null_block s}"

inductive pool_step :: "block_pool \<times> bref multiset \<Rightarrow> block_pool \<times> bref multiset \<Rightarrow> bool" where
  alloc: "0 \<le> n \<Longrightarrow> get_new_blocks n s = Inr (ret, s') \<Longrightarrow> pool_step (s, H) (s', H + mset ret)"
| touch: "valid_refs s bs \<Longrightarrow> touch bs s = Inr s' \<Longrightarrow> pool_step (s, H) (s', H + held s bs)"
| free: "valid_refs s bs \<Longrightarrow> distinct (filter (\<lambda>b. b \<noteq> null_block s) bs) \<Longrightarrow> held s bs \<subseteq># H \<Longrightarrow>
    free_blocks bs s = Inr s' \<Longrightarrow> pool_step (s, H) (s', H - held s bs)"
| cache: "block_size_ok (hash_block_size s) block_size \<Longrightarrow> group_id_ok g \<Longrightarrow>
    nf \<le> length (group_hashes (hash_block_size s) block_size (block_hashes r)) \<Longrightarrow> nf \<le> length blks \<Longrightarrow>
    valid_refs s (take (nf - nc) (drop nc blks)) \<Longrightarrow>
    distinct (filter (\<lambda>b. b \<noteq> null_block s) (take (nf - nc) (drop nc blks))) \<Longrightarrow>
    (\<forall>b \<in> set (take (nf - nc) (drop nc blks)). hashes s b = None) \<Longrightarrow>
    cache_full_blocks r blks nc nf block_size g s = Inr s' \<Longrightarrow> pool_step (s, H) (s', H)"
| evict: "\<forall>i \<in> set ids. 0 \<le> i \<and> i < num_gpu_blocks s \<Longrightarrow> evict_blocks ids s = Inr s' \<Longrightarrow>
    pool_step (s, H) (s', H)"
| reset: "reset_prefix_cache s = (ok, s') \<Longrightarrow> pool_step (s, H) (s', H)"
| drain: "pool_take_events s = (evs, s') \<Longrightarrow> pool_step (s, H) (s', H)"

inductive_cases pool_step_cases: "pool_step (s, H) (s', H')"

inductive pool_reach :: "block_pool \<times> bref multiset \<Rightarrow> bool" where
  start: "BlockPool_init n caching hbs kve ui = Inr s \<Longrightarrow> pool_reach (s, {#})"
| step: "pool_reach sH \<Longrightarrow> pool_step sH sH' \<Longrightarrow> pool_reach sH'"

text \<open>Every block is referenced exactly as often as clients hold it.\<close>

definition counted :: "block_pool \<Rightarrow> bref multiset \<Rightarrow> bool" where
  "counted s H \<longleftrightarrow> (\<forall>b \<in> usable s. refs s b = int (count H b)) \<and> set_mset H \<subseteq> usable s"

lemma count_held: "b \<noteq> null_block s \<Longrightarrow> count (held s bs) b = count_list bs b"
  by (induction bs) (auto simp: held_def)

lemma set_held: "valid_refs s bs \<Longrightarrow> set_mset (held s bs) \<subseteq> usable s"
  by (auto simp: held_def)

lemma count_distinct_mset: "distinct xs \<Longrightarrow> count (mset xs) x = (if x \<in> set xs then 1 else 0)"
  by (simp add: distinct_count_atmost_1)

lemma pool_step_alloc:
  assumes inv: "pool_inv s fl" and c: "counted s H" and n: "0 \<le> n" and run: "get_new_blocks n s = Inr (ret, s')"
  shows "\<exists>fl'. pool_inv s' fl' \<and> counted s' (H + mset ret)"
proof -
  have k: "nat n \<le> length fl" using run get_new_blocks_error [OF inv, of n] n by (cases "int (length fl) < n") auto
  from get_new_blocks_ok [OF inv k] run n
  have s': "ret = take (nat n) fl" "pool_inv s' (drop (nat n) fl)" "static s' = static s"
    "refs s' = (\<lambda>b. if b \<in> set (take (nat n) fl) then 1 else refs s b)" by auto
  have fl: "distinct fl" "{b \<in> usable s. refs s b = 0} = set fl"
    using inv by (auto simp: pool_inv_def pool_core_def free_rel_def refs_ok_def)
  have sub: "set (take (nat n) fl) \<subseteq> {b \<in> usable s. refs s b = 0}" using fl(2) set_take_subset by metis
  then have "counted s' (H + mset ret)"
    using c distinct_take [OF fl(1), of "nat n"] unfolding counted_def usable_static [OF s'(3)] s'(1,4)
    by (auto simp: count_distinct_mset)
  with s'(2) show ?thesis by blast
qed

lemma pool_step_free:
  assumes inv: "pool_inv s fl" and c: "counted s H" and v: "valid_refs s bs"
    and d: "distinct (filter (\<lambda>b. b \<noteq> null_block s) bs)" and h: "held s bs \<subseteq># H"
    and run: "free_blocks bs s = Inr s'"
  shows "\<exists>fl'. pool_inv s' fl' \<and> counted s' (H - held s bs)"
proof -
  have ids: "pool_ids s" using inv by (simp add: pool_inv_def pool_core_def)
  have pos: "\<forall>b \<in> set bs. b \<noteq> null_block s \<longrightarrow> 0 < refs s b"
  proof (intro ballI impI)
    fix b
    assume b: "b \<in> set bs" "b \<noteq> null_block s"
    then have "b \<in># held s bs" by (simp add: held_def)
    then have "b \<in># H" using h by (rule mset_subset_eqD [rotated])
    then show "0 < refs s b" using c by (auto simp: counted_def)
  qed
  from free_blocks_ok [OF _ v d pos] inv run
  have s': "static s' = static s" "refs s' = (\<lambda>b. refs s b - int (count_list bs b))"
    "\<exists>fl'. pool_inv s' fl'" by (auto simp: pool_inv_def)
  have "counted s' (H - held s bs)" unfolding counted_def usable_static [OF s'(1)] s'(2)
  proof
    show "\<forall>b \<in> usable s. refs s b - int (count_list bs b) = int (count (H - held s bs) b)"
    proof
      fix b
      assume b: "b \<in> usable s"
      then have "count_list bs b = count (held s bs) b" using count_held null_not_usable [OF ids] by metis
      moreover have "count (held s bs) b \<le> count H b" using h by (rule mset_subset_eq_count)
      ultimately show "refs s b - int (count_list bs b) = int (count (H - held s bs) b)"
        using c b by (simp add: counted_def of_nat_diff)
    qed
  next
    show "set_mset (H - held s bs) \<subseteq> usable s" using c by (auto simp: counted_def dest: in_diffD)
  qed
  with s'(3) show ?thesis by blast
qed

lemma pool_step_touch:
  assumes inv: "pool_inv s fl" and c: "counted s H" and v: "valid_refs s bs" and run: "touch bs s = Inr s'"
  shows "\<exists>fl'. pool_inv s' fl' \<and> counted s' (H + held s bs)"
proof -
  have ids: "pool_ids s" using inv by (simp add: pool_inv_def pool_core_def)
  from touch_ok [OF _ v] inv run
  have s': "static s' = static s" "refs s' = (\<lambda>b. refs s b + int (count_list bs b))" "\<exists>fl'. pool_inv s' fl'"
    by (auto simp: pool_inv_def)
  have "counted s' (H + held s bs)"
    unfolding counted_def usable_static [OF s'(1)] s'(2)
    using c count_held [of _ s bs] null_not_usable [OF ids] set_held [OF v]
    by (auto simp: counted_def) metis
  with s'(3) show ?thesis by blast
qed

lemma counted_cong: "static s' = static s \<Longrightarrow> refs s' = refs s \<Longrightarrow> counted s' H = counted s H"
  by (simp add: counted_def usable_static [of s' s])

lemma drain_inv:
  assumes inv: "pool_inv s fl"
  shows "pool_inv (s\<lparr>kv_event_queue := []\<rparr>) fl" "static (s\<lparr>kv_event_queue := []\<rparr>) = static s"
    "refs (s\<lparr>kv_event_queue := []\<rparr>) = refs s" "hashes (s\<lparr>kv_event_queue := []\<rparr>) = hashes s"
proof -
  have o: "static (s\<lparr>kv_event_queue := []\<rparr>) = static s" "refs (s\<lparr>kv_event_queue := []\<rparr>) = refs s"
    "hashes (s\<lparr>kv_event_queue := []\<rparr>) = hashes s" "free_rel (s\<lparr>kv_event_queue := []\<rparr>) fl = free_rel s fl"
    by (simp_all add: static_eq refs_def hashes_def free_rel_def del: refs_fold hashes_fold)
  then show "static (s\<lparr>kv_event_queue := []\<rparr>) = static s" "refs (s\<lparr>kv_event_queue := []\<rparr>) = refs s"
    "hashes (s\<lparr>kv_event_queue := []\<rparr>) = hashes s" by blast+
  show "pool_inv (s\<lparr>kv_event_queue := []\<rparr>) fl"
    using inv o by (simp add: pool_inv_def pool_core_def refs_ok_def static_cong [OF o(1)] cache_ok_cong [OF o(1) _ o(3)])
qed

lemma pool_step_inv:
  assumes "pool_step (s, H) (s', H')" and inv: "pool_inv s fl" and c: "counted s H"
  shows "\<exists>fl'. pool_inv s' fl' \<and> counted s' H'"
  using assms(1)
proof (cases rule: pool_step_cases [consumes 1, case_names alloc touch free cache evict reset drain])
  case (alloc n ret)
  then show ?thesis using pool_step_alloc [OF inv c] by blast
next
  case (touch bs)
  then show ?thesis using pool_step_touch [OF inv c, of bs s'] by simp
next
  case (free bs)
  then show ?thesis using pool_step_free [OF inv c, of bs s'] by simp
next
  case (cache block_size g nf r blks nc)
  have "pool_core s fl {}" using inv by (simp add: pool_inv_def)
  from cache_full_blocks_ok [OF this cache(2-5) refl _ cache(7,8)] cache(6,9)
  have "pool_inv s' fl" "static s' = static s" "refs s' = refs s" by (auto simp: pool_inv_def)
  then show ?thesis using c counted_cong cache(1) by blast
next
  case (evict ids)
  then show ?thesis using evict_blocks_inv [of s fl "{}" ids] inv c counted_cong [of s' s H]
    by (auto simp: pool_inv_def)
next
  case (reset ok)
  then show ?thesis using reset_prefix_cache_ok [OF inv] c counted_cong [of s' s H] by auto
next
  case (drain evs)
  then have s': "s' = s \<or> s' = s\<lparr>kv_event_queue := []\<rparr>" by (auto simp: pool_take_events_def split: if_splits)
  then show ?thesis using s' inv c drain(1) drain_inv [OF inv] counted_cong [of "s\<lparr>kv_event_queue := []\<rparr>" s H] by blast
qed

lemma pool_reach_inv: "pool_reach sH \<Longrightarrow> \<exists>fl. pool_inv (fst sH) fl \<and> counted (fst sH) (snd sH)"
proof (induction rule: pool_reach.induct)
  case (start n caching hbs kve ui s)
  then have "0 < n" by (auto simp: BlockPool_init_def py_assert_def split: if_splits)
  from BlockPool_init_inv [OF this, of caching hbs kve ui] start obtain fl where "pool_inv s (map Blk [1..<nat n])"
    "num_gpu_blocks s = n" by auto
  moreover from this(1) have "{b \<in> usable s. refs s b = 0} = set (map Blk [1..<nat n])"
    by (simp add: pool_inv_def pool_core_def refs_ok_def)
  ultimately show ?case by (auto simp: counted_def usable_def)
next
  case (step sH sH')
  then show ?case using pool_step_inv by (metis prod.collapse)
qed

section \<open>Properties\<close>

definition sample_pool :: "int \<Rightarrow> block_pool" where
  "sample_pool n = projr (BlockPool_init n True 2 False False)"

lemma sample_pool_init:
  assumes "0 < n"
  shows "BlockPool_init n True 2 False False = Inr (sample_pool n)" "pool_inv (sample_pool n) (map Blk [1..<nat n])"
    "enable_caching (sample_pool n)" "hash_block_size (sample_pool n) = 2" "cmap (sample_pool n) = []"
    "num_gpu_blocks (sample_pool n) = n"
  using BlockPool_init_inv [OF assms, of True 2 False False] by (auto simp: sample_pool_def)

text \<open>C6: in every state the pool can reach, each block is referenced exactly as often as its clients
  hold it, and walking the free queue ends and yields, without repetition, exactly the blocks that
  nobody holds: no block is ever lost, and no block in use can be handed out again.\<close>

theorem pool_reference_counting:
  assumes "pool_reach (s, H)"
  shows "(\<forall>b \<in> usable s. ref_cnt (heap s b) = int (count H b))
    \<and> (\<exists>fl. get_all_free_blocks s = Inr (Some fl) \<and> distinct fl \<and> set fl = {b \<in> usable s. b \<notin># H}
         \<and> get_num_free_blocks s = int (length fl))"
proof -
  obtain fl where fl: "pool_inv s fl" "counted s H" using pool_reach_inv [OF assms] by auto
  then have rel: "free_rel s fl" and eq: "{b \<in> usable s. refs s b = 0} = set fl"
    by (auto simp: pool_inv_def pool_core_def refs_ok_def)
  have "set fl = {b \<in> usable s. b \<notin># H}"
    unfolding eq [symmetric] using fl(2) by (auto simp: counted_def count_eq_zero_iff)
  moreover have "distinct fl" "get_num_free_blocks s = int (length fl)"
    using rel by (simp_all add: free_rel_def get_num_free_blocks_def)
  ultimately show ?thesis using fl(2) get_all_free_blocks_refines [OF rel] by (auto simp: counted_def)
qed

lemma sample_pool_free: "pool_inv (sample_pool 4) [Blk 1, Blk 2, Blk 3]"
proof -
  have "map Blk [1..<nat 4] = [Blk 1, Blk 2, Blk 3]" by (simp add: upt_rec)
  then show ?thesis using sample_pool_init(2) [of 4] by simp
qed

theorem pool_reference_counting_witness:
  "\<exists>s. get_new_blocks 2 (sample_pool 4) = Inr ([Blk 1, Blk 2], s)
    \<and> (\<exists>fl. get_all_free_blocks s = Inr (Some fl) \<and> set fl = {b \<in> usable s. b \<notin># {#Blk 1, Blk 2#}})"
proof -
  obtain s where s: "get_new_blocks 2 (sample_pool 4) = Inr ([Blk 1, Blk 2], s)"
    using get_new_blocks_ok [OF sample_pool_free, of 2] by auto
  have "pool_reach (s, {#} + mset [Blk 1, Blk 2])"
    by (rule pool_reach.step [OF pool_reach.start [OF sample_pool_init(1)] pool_step.alloc [OF _ s]]) simp_all
  from pool_reference_counting [OF this] s show ?thesis by auto
qed

text \<open>C12: allocation: asking for no more blocks than are free returns the first blocks of the free
  queue (the least recently freed ones), each with one reference and, with caching on, without its old
  hash, and changes no other block; asking for more raises \<open>ValueError\<close>.\<close>

theorem get_new_blocks_correct:
  assumes "pool_inv s fl"
  shows "if n \<le> length fl
    then \<exists>s'. get_new_blocks (int n) s = Inr (take n fl, s') \<and> pool_inv s' (drop n fl) \<and> static s' = static s
      \<and> refs s' = (\<lambda>b. if b \<in> set (take n fl) then 1 else refs s b)
      \<and> hashes s' = (\<lambda>b. if enable_caching s \<and> b \<in> set (take n fl) then None else hashes s b)
    else get_new_blocks (int n) s = Inl ValueError"
proof (cases "n \<le> length fl")
  case True
  then show ?thesis using get_new_blocks_ok [OF assms True] by simp
next
  case False
  then show ?thesis using get_new_blocks_error [OF assms, of "int n"] by simp
qed

theorem get_new_blocks_correct_witness:
  "\<exists>s'. get_new_blocks (int 2) (sample_pool 4) = Inr ([Blk 1, Blk 2], s') \<and> pool_inv s' [Blk 3]"
  using get_new_blocks_correct [OF sample_pool_free, of 2] by auto

text \<open>C13: the prefix cache lookup is sound and complete: it never raises, a hit returns for every group
  a block of the pool that carries the packed hash for that group, and a miss means that for some
  group no block carries it.\<close>

theorem prefix_lookup_correct:
  assumes "pool_inv s fl" and "\<forall>g \<in> set gs. group_id_ok g"
  shows "\<exists>res. get_cached_block s bh gs = Inr res
    \<and> (case res of
         Some bs \<Rightarrow> list_all2 (\<lambda>g b. b \<in> usable s \<and> hashes s b = Some (packed g bh)) gs bs
       | None \<Rightarrow> \<exists>g \<in> set gs. \<forall>b \<in> usable s. hashes s b \<noteq> Some (packed g bh))"
proof -
  have "cache_ok s" using assms(1) by (simp add: pool_inv_def pool_core_def)
  from get_cached_block_ok [OF this assms(2), of bh] obtain res where res: "get_cached_block s bh gs = Inr res"
    "\<forall>bs. res = Some bs \<longrightarrow> list_all2 (\<lambda>g b. b \<in> usable s \<and> hashes s b = Some (packed g bh)) gs bs"
    "res = None \<longrightarrow> (\<exists>g \<in> set gs. \<forall>b \<in> usable s. hashes s b \<noteq> Some (packed g bh))" by blast
  then show ?thesis by (cases res) simp_all
qed

theorem prefix_lookup_correct_witness:
  "\<exists>res. get_cached_block (sample_pool 4) [1, 2] [0] = Inr res
    \<and> (case res of
         Some bs \<Rightarrow> list_all2 (\<lambda>g b. b \<in> usable (sample_pool 4) \<and> hashes (sample_pool 4) b = Some (packed g [1, 2])) [0] bs
       | None \<Rightarrow> \<exists>g \<in> set [0]. \<forall>b \<in> usable (sample_pool 4). hashes (sample_pool 4) b \<noteq> Some (packed g [1, 2]))"
  by (rule prefix_lookup_correct [OF sample_pool_init(2)]) (simp_all add: group_id_ok_def)

end
