(* ===== verification/KV_Specs.thy ===== *)
theory KV_Specs
  imports Prelude
begin

text \<open>
  KV cache specifications: \<open>vllm/v1/kv_cache_interface.py\<close>.  The class hierarchy is a datatype with
  one constructor per concrete class; the fields of \<open>AttentionSpec\<close> and of \<open>FullAttentionSpec\<close> that
  subclasses inherit are records.  \<open>isinstance\<close> tests are predicates on the constructors.
  \<open>UniformTypeKVCacheSpecs\<close>, which is only ever built from layer specs, is a second level.  A
  \<open>torch.dtype\<close> is its name and its element size.
\<close>

section \<open>Data\<close>

record torch_dtype =
  dtype_name :: string
  element_size :: int

record attention_spec =
  as_block_size :: int
  num_kv_heads :: int
  head_size :: int
  as_dtype :: torch_dtype
  page_size_padded :: "int option"

record full_fields =
  head_size_v :: int
  full_sliding_window :: "int option"
  full_attention_chunk_size :: "int option"

datatype layer_spec =
    FullAttentionSpec attention_spec full_fields
  | MLAAttentionSpec attention_spec full_fields "string option"
  | SinkFullAttentionSpec attention_spec full_fields "int option"
  | ChunkedLocalAttentionSpec attention_spec int
  | SlidingWindowSpec attention_spec int
  | MambaSpec int "int list list" "torch_dtype list" "int option" string int
  | EncoderOnlyAttentionSpec attention_spec
  | CrossAttentionSpec attention_spec

datatype kv_cache_spec =
    Layer layer_spec
  | UniformTypeKVCacheSpecs int "(string, layer_spec) odict"

text \<open>The values of the configuration that the specs read.\<close>

record vllm_config =
  max_model_len :: int
  decode_context_parallel_size :: int
  prefill_context_parallel_size :: int
  max_num_batched_tokens :: int
  max_num_encoder_input_tokens :: int

record kv_cache_tensor =
  kt_size :: int
  shared_by :: "string list"

record kv_cache_group_spec =
  layer_names :: "string list"
  group_spec :: kv_cache_spec

record kv_cache_config =
  num_blocks :: int
  kv_cache_tensors :: "kv_cache_tensor list"
  kv_cache_groups :: "kv_cache_group_spec list"

section \<open>Page sizes and memory\<close>

fun layer_block_size :: "layer_spec \<Rightarrow> int" where
  "layer_block_size (FullAttentionSpec a _) = as_block_size a"
| "layer_block_size (MLAAttentionSpec a _ _) = as_block_size a"
| "layer_block_size (SinkFullAttentionSpec a _ _) = as_block_size a"
| "layer_block_size (ChunkedLocalAttentionSpec a _) = as_block_size a"
| "layer_block_size (SlidingWindowSpec a _) = as_block_size a"
| "layer_block_size (MambaSpec b _ _ _ _ _) = b"
| "layer_block_size (EncoderOnlyAttentionSpec a) = as_block_size a"
| "layer_block_size (CrossAttentionSpec a) = as_block_size a"

fun spec_block_size :: "kv_cache_spec \<Rightarrow> int" where
  "spec_block_size (Layer l) = layer_block_size l"
| "spec_block_size (UniformTypeKVCacheSpecs b _) = b"

definition attention_real_page_size_bytes :: "attention_spec \<Rightarrow> int" where
  "attention_real_page_size_bytes a =
     2 * as_block_size a * num_kv_heads a * head_size a * element_size (as_dtype a)"

definition full_real_page_size_bytes :: "attention_spec \<Rightarrow> full_fields \<Rightarrow> int" where
  "full_real_page_size_bytes a f =
     as_block_size a * num_kv_heads a * (head_size a + head_size_v f) * element_size (as_dtype a)"

definition mla_real_page_size_bytes :: "attention_spec \<Rightarrow> string option \<Rightarrow> int" where
  "mla_real_page_size_bytes a cache_dtype_str =
     (if cache_dtype_str = Some ''fp8_ds_mla'' then as_block_size a * 656
      else as_block_size a * num_kv_heads a * head_size a * element_size (as_dtype a))"

definition mamba_page_size :: "int list list \<Rightarrow> torch_dtype list \<Rightarrow> int" where
  "mamba_page_size shapes dtypes =
     sum_list (map (\<lambda>(shape, dt). prod_list shape * element_size dt) (zip shapes dtypes))"

definition padded_page_size :: "int option \<Rightarrow> int \<Rightarrow> int result" where
  "padded_page_size padded real_page_size =
     (case padded of
        None \<Rightarrow> Inr real_page_size
      | Some p \<Rightarrow> py_assert (real_page_size \<le> p) (Inr p))"

fun layer_page_size_bytes :: "layer_spec \<Rightarrow> int result" where
  "layer_page_size_bytes (FullAttentionSpec a f) =
     padded_page_size (page_size_padded a) (full_real_page_size_bytes a f)"
| "layer_page_size_bytes (MLAAttentionSpec a _ c) =
     padded_page_size (page_size_padded a) (mla_real_page_size_bytes a c)"
| "layer_page_size_bytes (SinkFullAttentionSpec a f _) =
     padded_page_size (page_size_padded a) (full_real_page_size_bytes a f)"
| "layer_page_size_bytes (ChunkedLocalAttentionSpec a _) =
     padded_page_size (page_size_padded a) (attention_real_page_size_bytes a)"
| "layer_page_size_bytes (SlidingWindowSpec a _) =
     padded_page_size (page_size_padded a) (attention_real_page_size_bytes a)"
| "layer_page_size_bytes (MambaSpec _ shapes dtypes padded _ _) =
     padded_page_size padded (mamba_page_size shapes dtypes)"
| "layer_page_size_bytes (EncoderOnlyAttentionSpec a) =
     padded_page_size (page_size_padded a) (attention_real_page_size_bytes a)"
| "layer_page_size_bytes (CrossAttentionSpec a) =
     padded_page_size (page_size_padded a) (attention_real_page_size_bytes a)"

definition sumM :: "('a \<Rightarrow> int result) \<Rightarrow> 'a list \<Rightarrow> int result" where
  "sumM f xs = foldM (\<lambda>x acc. rbind (f x) (\<lambda>v. Inr (acc + v))) xs 0"

fun spec_page_size_bytes :: "kv_cache_spec \<Rightarrow> int result" where
  "spec_page_size_bytes (Layer l) = layer_page_size_bytes l"
| "spec_page_size_bytes (UniformTypeKVCacheSpecs _ specs) = sumM (\<lambda>(_, l). layer_page_size_bytes l) specs"

text \<open>Full attention: every context parallel rank keeps its share of the tokens.\<close>

definition full_max_tokens :: "vllm_config \<Rightarrow> int" where
  "full_max_tokens cfg =
     (let ws = decode_context_parallel_size cfg * prefill_context_parallel_size cfg
      in if 1 < ws then cdiv (max_model_len cfg) ws else max_model_len cfg)"

text \<open>\<open>cdiv\<close> by a zero block size raises.\<close>

definition pages_times :: "int \<Rightarrow> int \<Rightarrow> int \<Rightarrow> layer_spec \<Rightarrow> int result" where
  "pages_times num_tokens bs extra l =
     (if bs = 0 then Inl ZeroDivisionError
      else rbind (layer_page_size_bytes l) (\<lambda>p. Inr ((cdiv num_tokens bs + extra) * p)))"

fun layer_max_memory_usage_bytes :: "vllm_config \<Rightarrow> layer_spec \<Rightarrow> int result" where
  "layer_max_memory_usage_bytes cfg (FullAttentionSpec a f) =
     pages_times (full_max_tokens cfg) (as_block_size a) 0 (FullAttentionSpec a f)"
| "layer_max_memory_usage_bytes cfg (MLAAttentionSpec a f c) =
     pages_times (full_max_tokens cfg) (as_block_size a) 0 (MLAAttentionSpec a f c)"
| "layer_max_memory_usage_bytes cfg (SinkFullAttentionSpec a f n) =
     pages_times (full_max_tokens cfg) (as_block_size a) 0 (SinkFullAttentionSpec a f n)"
| "layer_max_memory_usage_bytes cfg (ChunkedLocalAttentionSpec a c) =
     pages_times (min (c + max_num_batched_tokens cfg) (max_model_len cfg)) (as_block_size a) 0
       (ChunkedLocalAttentionSpec a c)"
| "layer_max_memory_usage_bytes cfg (SlidingWindowSpec a w) =
     py_assert (decode_context_parallel_size cfg = 1)
       (pages_times (min (w - 1 + max_num_batched_tokens cfg) (max_model_len cfg)) (as_block_size a) 1
         (SlidingWindowSpec a w))"
| "layer_max_memory_usage_bytes cfg (MambaSpec b sh dt pd mt ns) =
     pages_times (max_model_len cfg) b 0 (MambaSpec b sh dt pd mt ns)"
| "layer_max_memory_usage_bytes cfg (EncoderOnlyAttentionSpec a) = Inr 0"
| "layer_max_memory_usage_bytes cfg (CrossAttentionSpec a) =
     pages_times (max_num_encoder_input_tokens cfg) (as_block_size a) 0 (CrossAttentionSpec a)"

definition layer_max_pages :: "vllm_config \<Rightarrow> layer_spec \<Rightarrow> int result" where
  "layer_max_pages cfg l =
     rbind (layer_max_memory_usage_bytes cfg l) (\<lambda>m.
       rbind (layer_page_size_bytes l) (\<lambda>p.
         if p = 0 then Inl ZeroDivisionError else Inr (cdiv m p)))"

text \<open>\<open>max\<close> of an empty sequence raises \<open>ValueError\<close>.\<close>

definition maxM :: "('a \<Rightarrow> int result) \<Rightarrow> 'a list \<Rightarrow> int result" where
  "maxM f xs =
     (case xs of
        [] \<Rightarrow> Inl ValueError
      | x # rest \<Rightarrow> rbind (f x) (foldM (\<lambda>y acc. rbind (f y) (\<lambda>v. Inr (max acc v))) rest))"

fun spec_max_memory_usage_bytes :: "vllm_config \<Rightarrow> kv_cache_spec \<Rightarrow> int result" where
  "spec_max_memory_usage_bytes cfg (Layer l) = layer_max_memory_usage_bytes cfg l"
| "spec_max_memory_usage_bytes cfg (UniformTypeKVCacheSpecs b specs) =
     rbind (maxM (\<lambda>(_, l). layer_max_pages cfg l) specs) (\<lambda>max_num_pages.
       rbind (spec_page_size_bytes (UniformTypeKVCacheSpecs b specs)) (\<lambda>p. Inr (max_num_pages * p)))"

section \<open>Copying and merging\<close>

fun copy_with_new_block_size :: "int \<Rightarrow> layer_spec \<Rightarrow> layer_spec" where
  "copy_with_new_block_size b (FullAttentionSpec a f) = FullAttentionSpec (a\<lparr>as_block_size := b\<rparr>) f"
| "copy_with_new_block_size b (MLAAttentionSpec a f c) = MLAAttentionSpec (a\<lparr>as_block_size := b\<rparr>) f c"
| "copy_with_new_block_size b (SinkFullAttentionSpec a f n) = SinkFullAttentionSpec (a\<lparr>as_block_size := b\<rparr>) f n"
| "copy_with_new_block_size b (ChunkedLocalAttentionSpec a c) = ChunkedLocalAttentionSpec (a\<lparr>as_block_size := b\<rparr>) c"
| "copy_with_new_block_size b (SlidingWindowSpec a w) = SlidingWindowSpec (a\<lparr>as_block_size := b\<rparr>) w"
| "copy_with_new_block_size b (MambaSpec _ sh dt pd mt ns) = MambaSpec b sh dt pd mt ns"
| "copy_with_new_block_size b (EncoderOnlyAttentionSpec a) = EncoderOnlyAttentionSpec (a\<lparr>as_block_size := b\<rparr>)"
| "copy_with_new_block_size b (CrossAttentionSpec a) = CrossAttentionSpec (a\<lparr>as_block_size := b\<rparr>)"

fun is_full :: "layer_spec \<Rightarrow> bool" where
  "is_full (FullAttentionSpec _ _) = True"
| "is_full (MLAAttentionSpec _ _ _) = True"
| "is_full (SinkFullAttentionSpec _ _ _) = True"
| "is_full _ = False"

fun is_mla :: "layer_spec \<Rightarrow> bool" where
  "is_mla (MLAAttentionSpec _ _ _) = True"
| "is_mla _ = False"

fun is_attention :: "layer_spec \<Rightarrow> bool" where
  "is_attention (MambaSpec _ _ _ _ _ _) = False"
| "is_attention _ = True"

fun attention_of :: "layer_spec \<Rightarrow> attention_spec option" where
  "attention_of (FullAttentionSpec a _) = Some a"
| "attention_of (MLAAttentionSpec a _ _) = Some a"
| "attention_of (SinkFullAttentionSpec a _ _) = Some a"
| "attention_of (ChunkedLocalAttentionSpec a _) = Some a"
| "attention_of (SlidingWindowSpec a _) = Some a"
| "attention_of (MambaSpec _ _ _ _ _ _) = None"
| "attention_of (EncoderOnlyAttentionSpec a) = Some a"
| "attention_of (CrossAttentionSpec a) = Some a"

fun full_of :: "layer_spec \<Rightarrow> full_fields option" where
  "full_of (FullAttentionSpec _ f) = Some f"
| "full_of (MLAAttentionSpec _ f _) = Some f"
| "full_of (SinkFullAttentionSpec _ f _) = Some f"
| "full_of _ = None"

text \<open>The set of window sizes as the list of its distinct elements.\<close>

definition merge_window_sizes :: "int list \<Rightarrow> int option result" where
  "merge_window_sizes window_sizes =
     (case remdups window_sizes of [] \<Rightarrow> Inr None | [w] \<Rightarrow> Inr (Some w) | _ \<Rightarrow> Inl ValueError)"

definition windows_of :: "(full_fields \<Rightarrow> int option) \<Rightarrow> layer_spec list \<Rightarrow> int list" where
  "windows_of sel specs = List.map_filter (\<lambda>s. Option.bind (full_of s) sel) specs"

text \<open>\<open>FullAttentionSpec.merge\<close> and \<open>SinkFullAttentionSpec.merge\<close>, which differ in the class they
  construct: \<open>mk\<close> takes the merged fields and the first spec.  \<open>specs[0]\<close> of an empty list
  raises \<open>IndexError\<close>.\<close>

definition merge_full ::
  "(attention_spec \<Rightarrow> full_fields \<Rightarrow> layer_spec result) \<Rightarrow> layer_spec list \<Rightarrow> layer_spec result" where
  "merge_full mk specs =
     py_assert (list_all is_full specs)
       (py_assert (\<not> list_ex is_mla specs)
         (case specs of
            [] \<Rightarrow> Inl IndexError
          | s0 # _ \<Rightarrow>
              (case (attention_of s0, full_of s0) of
                 (Some a, Some f) \<Rightarrow>
                   rbind (merge_window_sizes (windows_of full_sliding_window specs)) (\<lambda>sw.
                     rbind (merge_window_sizes (windows_of full_attention_chunk_size specs)) (\<lambda>ac.
                       rbind (mk a \<lparr>head_size_v = head_size_v f, full_sliding_window = sw,
                                full_attention_chunk_size = ac\<rparr>)
                         (\<lambda>merged_spec.
                           py_assert (list_all (\<lambda>s. attention_of s = attention_of merged_spec) specs)
                             (py_assert (\<not> (sw \<noteq> None \<and> ac \<noteq> None)) (Inr merged_spec)))))
               | _ \<Rightarrow> Inl AssertionError)))"

definition merge_mla :: "layer_spec list \<Rightarrow> layer_spec result" where
  "merge_mla specs =
     py_assert (list_all is_mla specs)
       (case specs of
          MLAAttentionSpec a f c # _ \<Rightarrow>
            py_assert (list_all (\<lambda>s. case s of MLAAttentionSpec _ _ c' \<Rightarrow> c' = c | _ \<Rightarrow> False) specs)
              (Inr (MLAAttentionSpec a
                 \<lparr>head_size_v = head_size a, full_sliding_window = None, full_attention_chunk_size = None\<rparr> c))
        | _ \<Rightarrow> Inl AssertionError)"

text \<open>\<open>specs[0].merge(specs)\<close>: the class of the first spec decides.  A sink spec keeps the
  \<open>sink_len\<close> of the first one.\<close>

definition merge_specs :: "layer_spec list \<Rightarrow> layer_spec result" where
  "merge_specs specs =
     (case specs of
        [] \<Rightarrow> Inl IndexError
      | FullAttentionSpec _ _ # _ \<Rightarrow> merge_full (\<lambda>a f. Inr (FullAttentionSpec a f)) specs
      | SinkFullAttentionSpec _ _ n # _ \<Rightarrow> merge_full (\<lambda>a f. Inr (SinkFullAttentionSpec a f n)) specs
      | MLAAttentionSpec _ _ _ # _ \<Rightarrow> merge_mla specs
      | s0 # rest \<Rightarrow> py_assert (list_all (\<lambda>s. s = s0) rest) (Inr s0))"

section \<open>Uniform types\<close>

definition is_uniform_type :: "(string, layer_spec) odict \<Rightarrow> bool result" where
  "is_uniform_type specs =
     (let ls = map snd specs in
      if 1 < card (set (map layer_block_size ls)) then Inr False
      else case ls of
        [] \<Rightarrow> Inl StopIteration
      | one_spec # _ \<Rightarrow>
          (case one_spec of
             CrossAttentionSpec _ \<Rightarrow> Inr (list_all (\<lambda>s. case s of CrossAttentionSpec _ \<Rightarrow> True | _ \<Rightarrow> False) ls)
           | SlidingWindowSpec _ w \<Rightarrow>
               Inr (list_all (\<lambda>s. case s of SlidingWindowSpec _ w' \<Rightarrow> w' = w | _ \<Rightarrow> False) ls)
           | ChunkedLocalAttentionSpec _ c \<Rightarrow>
               Inr (list_all (\<lambda>s. case s of ChunkedLocalAttentionSpec _ c' \<Rightarrow> c' = c | _ \<Rightarrow> False) ls)
           | MambaSpec _ _ _ _ _ ns \<Rightarrow>
               Inr (list_all (\<lambda>s. case s of MambaSpec _ _ _ _ _ ns' \<Rightarrow> ns' = ns | _ \<Rightarrow> False) ls)
           | EncoderOnlyAttentionSpec _ \<Rightarrow> Inl NotImplementedError
           | _ \<Rightarrow> Inr (list_all is_full ls)))"

definition from_specs :: "(string, layer_spec) odict \<Rightarrow> kv_cache_spec option result" where
  "from_specs specs =
     rbind (is_uniform_type specs) (\<lambda>u.
       if u then (case specs of
                    [] \<Rightarrow> Inl StopIteration
                  | (_, l) # _ \<Rightarrow> Inr (Some (UniformTypeKVCacheSpecs (layer_block_size l) specs)))
       else Inr None)"

section \<open>Lemmas\<close>

lemma foldM_sum: "(\<And>x. x \<in> set xs \<Longrightarrow> f x = Inr (g x)) \<Longrightarrow>
    foldM (\<lambda>x acc. rbind (f x) (\<lambda>v. Inr (acc + v))) xs acc = Inr (acc + sum_list (map g xs))"
  for g :: "'a \<Rightarrow> int"
  by (induction xs arbitrary: acc) (auto simp: add.assoc)

lemma sumM_sum: "(\<And>x. x \<in> set xs \<Longrightarrow> f x = Inr (g x)) \<Longrightarrow> sumM f xs = Inr (sum_list (map g xs))"
  unfolding sumM_def by (subst foldM_sum) auto

lemma foldM_max: "(\<And>x. x \<in> set xs \<Longrightarrow> f x = Inr (g x)) \<Longrightarrow>
    foldM (\<lambda>y acc. rbind (f y) (\<lambda>v. Inr (max acc v))) xs acc = Inr (fold (\<lambda>y acc. max acc (g y)) xs acc)"
  by (induction xs arbitrary: acc) auto

lemma fold_max_Max: "fold (\<lambda>y acc. max acc (g y)) xs acc = Max (insert acc (g ` set xs))"
  for g :: "'a \<Rightarrow> int"
proof (induction xs arbitrary: acc)
  case (Cons x xs)
  have "Max (insert (max acc (g x)) (g ` set xs)) = Max (insert acc (insert (g x) (g ` set xs)))"
    by (cases "xs = []") (simp_all add: max.assoc)
  then show ?case using Cons by simp
qed simp

lemma maxM_Max:
  assumes "\<And>x. x \<in> set xs \<Longrightarrow> f x = Inr (g x)" and "xs \<noteq> []"
  shows "maxM f xs = Inr (Max (g ` set xs))"
  using assms by (cases xs) (simp_all add: maxM_def foldM_max [where g = g] fold_max_Max)

lemma padded_page_size_ge: "padded_page_size pd sz = Inr p \<Longrightarrow> sz \<le> p"
  by (auto simp: padded_page_size_def split: option.splits)

text \<open>A merged full attention spec agrees with every layer on the inherited fields.\<close>

lemma merge_full_fields:
  assumes "merge_full mk specs = Inr m" and "s \<in> set specs"
  shows "is_full s \<and> \<not> is_mla s \<and> attention_of s = attention_of m"
  using assms by (auto simp: merge_full_def list_all_iff list_ex_iff split: list.splits option.splits)

lemma merge_full_first:
  assumes "merge_full (\<lambda>a f. Inr (mk a f)) specs = Inr m"
  obtains a f sw ac where "specs \<noteq> []" "attention_of (hd specs) = Some a" "full_of (hd specs) = Some f"
    "m = mk a \<lparr>head_size_v = head_size_v f, full_sliding_window = sw, full_attention_chunk_size = ac\<rparr>"
    "sw = None \<or> ac = None"
  using assms by (auto simp: merge_full_def split: list.splits option.splits)

lemma merge_specs_full:
  assumes "merge_specs specs = Inr m" and "is_full (hd specs)" and "\<not> is_mla (hd specs)" and "specs \<noteq> []"
  shows "\<exists>mk. merge_full (\<lambda>a f. Inr (mk a f)) specs = Inr m
    \<and> (mk = FullAttentionSpec \<or> (\<exists>n. mk = (\<lambda>a f. SinkFullAttentionSpec a f n)))"
proof -
  obtain s0 rest where specs: "specs = s0 # rest" using assms(4) by (cases specs) auto
  show ?thesis
  proof (cases s0)
    case (SinkFullAttentionSpec a f n)
    then show ?thesis using assms(1) specs
      by (intro exI [of _ "\<lambda>a f. SinkFullAttentionSpec a f n"]) (auto simp: merge_specs_def)
  qed (use assms specs in \<open>auto simp: merge_specs_def intro: exI [of _ FullAttentionSpec]\<close>)
qed

lemma full_page_size:
  assumes "is_full s" "\<not> is_mla s" "attention_of s = Some a" "full_of s = Some f"
  shows "layer_page_size_bytes s = padded_page_size (page_size_padded a) (full_real_page_size_bytes a f)
    \<and> layer_block_size s = as_block_size a"
  using assms by (cases s) auto

section \<open>Properties\<close>

text \<open>Merging the specs of the layers of a full attention group succeeds only if all layers agree
  on block size, number of heads, head size, data type and padding; if they also agree on the size of
  the value heads, every layer has the page size and the block size of the merged spec, so one block
  table fits all layers of the group.\<close>

theorem merge_page_size:
  assumes "merge_specs specs = Inr m" and "s0 = hd specs" and "is_full s0" and "\<not> is_mla s0"
    and "s \<in> set specs" and "map_option head_size_v (full_of s) = map_option head_size_v (full_of s0)"
  shows "attention_of s = attention_of m \<and> layer_block_size s = layer_block_size m
    \<and> layer_page_size_bytes s = layer_page_size_bytes m"
proof -
  have ne: "specs \<noteq> []" using assms(5) by auto
  obtain mk where mk: "merge_full (\<lambda>a f. Inr (mk a f)) specs = Inr m"
    "mk = FullAttentionSpec \<or> (\<exists>n. mk = (\<lambda>a f. SinkFullAttentionSpec a f n))"
    using merge_specs_full assms(1-4) ne by metis
  obtain a f sw ac where m: "attention_of s0 = Some a" "full_of s0 = Some f"
    "m = mk a \<lparr>head_size_v = head_size_v f, full_sliding_window = sw, full_attention_chunk_size = ac\<rparr>"
    using merge_full_first [OF mk(1)] assms(2) by metis
  have s: "is_full s" "\<not> is_mla s" "attention_of s = attention_of m"
    using merge_full_fields [OF mk(1) assms(5)] by auto
  have am: "attention_of m = Some a" using mk(2) m(3) by auto
  obtain fs where fs: "full_of s = Some fs" "head_size_v fs = head_size_v f"
    using assms(6) m(2) by auto
  show ?thesis using full_page_size [OF s(1,2) _ fs(1)] s(3) am mk(2) m(3) fs(2)
    by (auto simp: full_real_page_size_bytes_def)
qed

definition sample_attention :: attention_spec where
  "sample_attention = \<lparr>as_block_size = 16, num_kv_heads = 8, head_size = 128,
     as_dtype = \<lparr>dtype_name = ''bfloat16'', element_size = 2\<rparr>, page_size_padded = None\<rparr>"

definition sample_full :: "int \<Rightarrow> int option \<Rightarrow> layer_spec" where
  "sample_full hv w = FullAttentionSpec sample_attention
     \<lparr>head_size_v = hv, full_sliding_window = w, full_attention_chunk_size = None\<rparr>"

theorem merge_page_size_witness:
  "merge_specs [sample_full 128 None, sample_full 128 (Some 4096)] = Inr (sample_full 128 (Some 4096))
   \<and> layer_page_size_bytes (sample_full 128 None) = layer_page_size_bytes (sample_full 128 (Some 4096))"
proof -
  have m: "merge_specs [sample_full 128 None, sample_full 128 (Some 4096)] = Inr (sample_full 128 (Some 4096))"
    by (simp add: merge_specs_def merge_full_def sample_full_def windows_of_def merge_window_sizes_def
        List.map_filter_simps)
  from merge_page_size [OF m refl, of "sample_full 128 None"] m show ?thesis
    by (simp add: sample_full_def)
qed

text \<open>The merge does not compare the size of the value heads: two layers that differ in it are
  merged into a spec whose page is too small for one of them.\<close>

theorem merge_ignores_head_size_v:
  "\<exists>specs m s p q. merge_specs specs = Inr m \<and> s \<in> set specs \<and> layer_page_size_bytes m = Inr p
     \<and> layer_page_size_bytes s = Inr q \<and> p < q"
proof (intro exI conjI)
  show "merge_specs [sample_full 64 None, sample_full 128 None] = Inr (sample_full 64 None)"
    by (simp add: merge_specs_def merge_full_def sample_full_def windows_of_def merge_window_sizes_def
        List.map_filter_simps)
  show "sample_full 128 None \<in> set [sample_full 64 None, sample_full 128 None]" by simp
  show "layer_page_size_bytes (sample_full 64 None) = Inr 49152"
    and "layer_page_size_bytes (sample_full 128 None) = Inr 65536"
    by (simp_all add: sample_full_def sample_attention_def padded_page_size_def full_real_page_size_bytes_def)
qed simp

end
