(* ===== verification/Single_Type.thy ===== *)
theory Single_Type
  imports Block_Pool KV_Specs
begin

text \<open>
  The managers of one KV cache group: \<open>vllm/v1/core/single_type_kv_cache_manager.py\<close> without the
  cache lookups, which are in the theory \<open>Cache_Hit\<close>.

  A manager is a record; the block pool it shares with the other managers is passed along.  The
  class of a manager is determined by its spec (\<open>spec_manager_map\<close>), so an overridden method is a
  case distinction on the spec.  \<open>req_to_blocks\<close> is a \<open>defaultdict\<close>: reading a missing key inserts
  an empty list, which \<open>rtb_touch\<close> makes explicit.  Field-wise equality of two blocks of a pool is
  equality of the references, because their block ids differ.
\<close>

section \<open>State\<close>

record st_manager =
  m_block_size :: int
  m_spec :: layer_spec
  m_enable_caching :: bool
  req_to_blocks :: "(string, bref list) odict"
  num_cached_block :: "(string, int) odict"
  kv_cache_group_id :: int
  m_null_block :: bref
  sink_blocks :: "bref list"

fun is_cross :: "layer_spec \<Rightarrow> bool" where
  "is_cross (CrossAttentionSpec _) = True"
| "is_cross _ = False"

definition SingleTypeKVCacheManager ::
  "layer_spec \<Rightarrow> block_pool \<Rightarrow> bool \<Rightarrow> int \<Rightarrow> int \<Rightarrow> int \<Rightarrow> st_manager" where
  "SingleTypeKVCacheManager spec pool caching gid dcp pcp =
     \<lparr>m_block_size = (if 1 < dcp * pcp then layer_block_size spec * (dcp * pcp) else layer_block_size spec),
      m_spec = spec, m_enable_caching = caching, req_to_blocks = [], num_cached_block = [],
      kv_cache_group_id = gid, m_null_block = null_block pool, sink_blocks = []\<rparr>"

text \<open>The constructor of \<open>SinkFullAttentionManager\<close> takes its sink blocks straight from the free
  queue.\<close>

definition SinkFullAttentionManager_init ::
  "int option \<Rightarrow> st_manager \<Rightarrow> block_pool \<Rightarrow> (st_manager \<times> block_pool) result" where
  "SinkFullAttentionManager_init sink_len m s =
     (case sink_len of
        None \<Rightarrow> Inl AssertionError
      | Some n \<Rightarrow>
          if m_block_size m = 0 then (if 0 < n then Inl ZeroDivisionError else Inl AssertionError)
          else py_assert (0 < n \<and> n mod m_block_size m = 0)
            (rbind (popleft_n (n div m_block_size m) s) (\<lambda>(bs, s'). Inr (m\<lparr>sink_blocks := bs\<rparr>, s'))))"

text \<open>\<open>spec_manager_map\<close> has no entry for \<open>EncoderOnlyAttentionSpec\<close> nor for
  \<open>UniformTypeKVCacheSpecs\<close>.\<close>

definition get_manager_for_kv_cache_spec ::
  "kv_cache_spec \<Rightarrow> block_pool \<Rightarrow> bool \<Rightarrow> int \<Rightarrow> int \<Rightarrow> int \<Rightarrow> (st_manager \<times> block_pool) result" where
  "get_manager_for_kv_cache_spec spec s caching gid dcp pcp =
     (case spec of
        UniformTypeKVCacheSpecs _ _ \<Rightarrow> Inl KeyError
      | Layer l \<Rightarrow>
          (let m = SingleTypeKVCacheManager l s caching gid dcp pcp in
           case l of
             EncoderOnlyAttentionSpec _ \<Rightarrow> Inl KeyError
           | SinkFullAttentionSpec _ _ n \<Rightarrow> SinkFullAttentionManager_init n m s
           | _ \<Rightarrow> Inr (m, s)))"

section \<open>Skipped tokens\<close>

definition get_num_skipped_tokens :: "st_manager \<Rightarrow> int \<Rightarrow> int" where
  "get_num_skipped_tokens m computed =
     (case m_spec m of
        SlidingWindowSpec _ w \<Rightarrow> max 0 (computed - w + 1)
      | ChunkedLocalAttentionSpec _ c \<Rightarrow> computed div c * c
      | MambaSpec _ _ _ _ _ _ \<Rightarrow> computed - 1
      | _ \<Rightarrow> 0)"

section \<open>Allocation\<close>

definition blocks_of_request :: "st_manager \<Rightarrow> string \<Rightarrow> bref list" where
  "blocks_of_request m rid = (case map_of (req_to_blocks m) rid of None \<Rightarrow> [] | Some bs \<Rightarrow> bs)"

definition rtb_set :: "string \<Rightarrow> bref list \<Rightarrow> st_manager \<Rightarrow> st_manager" where
  "rtb_set rid bs m = m\<lparr>req_to_blocks := AList.update rid bs (req_to_blocks m)\<rparr>"

text \<open>\<open>self.req_to_blocks[request_id]\<close>.\<close>

definition rtb_touch :: "string \<Rightarrow> st_manager \<Rightarrow> st_manager" where
  "rtb_touch rid m = rtb_set rid (blocks_of_request m rid) m"

definition base_num_blocks_to_allocate ::
  "st_manager \<Rightarrow> block_pool \<Rightarrow> string \<Rightarrow> int \<Rightarrow> bref list \<Rightarrow> int \<Rightarrow> int result" where
  "base_num_blocks_to_allocate m s rid num_toks new_computed_blocks total_computed_tokens =
     (let num_required_blocks = cdiv num_toks (m_block_size m);
          num_req_blocks = int (length (blocks_of_request m rid)) in
      if map_of (num_cached_block m) rid \<noteq> None
      then py_assert (new_computed_blocks = []) (Inr (max (num_required_blocks - num_req_blocks) 0))
      else
        let num_skipped_tokens = get_num_skipped_tokens m total_computed_tokens;
            num_local_computed_blocks = int (length new_computed_blocks) + num_req_blocks;
            num_skipped_blocks = num_skipped_tokens div m_block_size m;
            num_new_blocks = max (num_required_blocks - max num_skipped_blocks num_local_computed_blocks) 0;
            num_skipped_new_computed_blocks = max 0 (num_skipped_blocks - num_req_blocks);
            num_evictable_blocks = int (length (filter (\<lambda>b. ref_cnt (heap s b) = 0 \<and> \<not> is_null (heap s b))
              (drop (nat num_skipped_new_computed_blocks) new_computed_blocks)))
        in Inr (num_new_blocks + num_evictable_blocks))"

text \<open>\<open>MambaManager\<close> adds the speculative blocks to the tokens.\<close>

definition speculative_tokens :: "st_manager \<Rightarrow> int" where
  "speculative_tokens m =
     (case m_spec m of MambaSpec b _ _ _ _ ns \<Rightarrow> if 0 < ns then b * ns else 0 | _ \<Rightarrow> 0)"

definition get_num_blocks_to_allocate ::
  "st_manager \<Rightarrow> block_pool \<Rightarrow> string \<Rightarrow> int \<Rightarrow> bref list \<Rightarrow> int \<Rightarrow> int result" where
  "get_num_blocks_to_allocate m s rid num_toks new_computed_blocks total_computed_tokens =
     base_num_blocks_to_allocate m s rid (num_toks + speculative_tokens m) new_computed_blocks
       total_computed_tokens"

definition base_allocate_new_computed_blocks ::
  "string \<Rightarrow> bref list \<Rightarrow> int \<Rightarrow> int \<Rightarrow> st_manager \<times> block_pool \<Rightarrow> (st_manager \<times> block_pool) result" where
  "base_allocate_new_computed_blocks rid new_computed num_local_computed_tokens num_external = (\<lambda>(m, s).
     if map_of (num_cached_block m) rid \<noteq> None
     then py_assert (new_computed = []) (Inr (m, s))
     else
       let req_blocks = blocks_of_request m rid in
       py_assert (req_blocks = [])
         (let num_total_computed_tokens = num_local_computed_tokens + num_external;
              num_skipped_tokens = get_num_skipped_tokens m num_total_computed_tokens;
              num_skipped_blocks = num_skipped_tokens div m_block_size m;
              new_computed_blocks =
                (if 0 < num_skipped_blocks then drop (nat num_skipped_blocks) new_computed else new_computed);
              num_external_computed_tokens =
                (if 0 < num_skipped_blocks
                 then min (num_total_computed_tokens - num_skipped_tokens) num_external else num_external)
          in rbind (if m_enable_caching m then touch new_computed_blocks s
                    else py_assert (new_computed_blocks = []) (Inr s)) (\<lambda>s1.
            let req1 = replicate (nat num_skipped_blocks) (m_null_block m) @ new_computed_blocks;
                m1 = (rtb_set rid req1 m)\<lparr>num_cached_block :=
                        AList.update rid (int (length req1)) (num_cached_block m)\<rparr>
            in if 0 < num_external_computed_tokens
               then rbind (get_new_blocks (cdiv num_total_computed_tokens (m_block_size m) - int (length req1)) s1)
                      (\<lambda>(allocated, s2). Inr (rtb_set rid (req1 @ allocated) m1, s2))
               else Inr (m1, s1))))"

definition allocate_new_computed_blocks ::
  "string \<Rightarrow> bref list \<Rightarrow> int \<Rightarrow> int \<Rightarrow> st_manager \<times> block_pool \<Rightarrow> (st_manager \<times> block_pool) result" where
  "allocate_new_computed_blocks rid new_computed nlocal nexternal = (\<lambda>(m, s).
     if is_cross (m_spec m) then py_assert (new_computed = []) (Inr (m, s))
     else base_allocate_new_computed_blocks rid new_computed nlocal nexternal (m, s))"

definition base_allocate_new_blocks ::
  "string \<Rightarrow> int \<Rightarrow> st_manager \<times> block_pool \<Rightarrow> (bref list \<times> st_manager \<times> block_pool) result" where
  "base_allocate_new_blocks rid num_toks = (\<lambda>(m, s).
     let req_blocks = blocks_of_request m rid;
         num_required_blocks = cdiv num_toks (m_block_size m);
         num_new_blocks = num_required_blocks - int (length req_blocks)
     in if num_new_blocks \<le> 0 then Inr ([], rtb_touch rid m, s)
        else rbind (get_new_blocks num_new_blocks s)
               (\<lambda>(new_blocks, s'). Inr (new_blocks, rtb_set rid (req_blocks @ new_blocks) m, s')))"

definition allocate_new_blocks ::
  "string \<Rightarrow> int \<Rightarrow> st_manager \<times> block_pool \<Rightarrow> (bref list \<times> st_manager \<times> block_pool) result" where
  "allocate_new_blocks rid num_toks = (\<lambda>(m, s).
     base_allocate_new_blocks rid (num_toks + speculative_tokens m) (m, s))"

section \<open>Caching and freeing\<close>

definition cache_blocks ::
  "request \<Rightarrow> int \<Rightarrow> st_manager \<times> block_pool \<Rightarrow> (st_manager \<times> block_pool) result" where
  "cache_blocks r num_toks = (\<lambda>(m, s).
     if is_cross (m_spec m) then Inl ValueError
     else
       let num_cached_blocks = (case map_of (num_cached_block m) (request_id r) of None \<Rightarrow> 0 | Some n \<Rightarrow> n);
           num_full_blocks = num_toks div m_block_size m
       in if num_full_blocks \<le> num_cached_blocks then Inr (m, s)
          else rbind (cache_full_blocks r (blocks_of_request m (request_id r)) (nat num_cached_blocks)
                        (nat num_full_blocks) (nat (m_block_size m)) (kv_cache_group_id m) s)
                 (\<lambda>s'. Inr ((rtb_touch (request_id r) m)\<lparr>num_cached_block :=
                          AList.update (request_id r) num_full_blocks (num_cached_block m)\<rparr>, s')))"

definition free_request :: "string \<Rightarrow> st_manager \<times> block_pool \<Rightarrow> (st_manager \<times> block_pool) result" where
  "free_request rid = (\<lambda>(m, s).
     rbind (free_blocks (rev (blocks_of_request m rid)) s) (\<lambda>s'.
       Inr (m\<lparr>req_to_blocks := AList.delete rid (req_to_blocks m),
              num_cached_block := AList.delete rid (num_cached_block m)\<rparr>, s')))"

text \<open>The loop of \<open>remove_skipped_blocks\<close> from index \<open>n - 1\<close> down to 0, which stops at the first null
  block.\<close>

fun skip_loop :: "bref \<Rightarrow> nat \<Rightarrow> bref list \<Rightarrow> bref list \<times> bref list" where
  "skip_loop null 0 bs = ([], bs)"
| "skip_loop null (Suc i) bs =
     (if bs ! i = null then ([], bs)
      else let (removed, bs') = skip_loop null i (bs[i := null]) in (bs ! i # removed, bs'))"

definition remove_skipped_blocks ::
  "string \<Rightarrow> int \<Rightarrow> st_manager \<times> block_pool \<Rightarrow> (st_manager \<times> block_pool) result" where
  "remove_skipped_blocks rid total_computed_tokens = (\<lambda>(m, s).
     let num_skipped_tokens = get_num_skipped_tokens m total_computed_tokens in
     if num_skipped_tokens \<le> 0 then Inr (m, s)
     else
       let bs = blocks_of_request m rid;
           num_skipped_blocks = min (num_skipped_tokens div m_block_size m) (int (length bs));
           (removed, bs') = skip_loop (m_null_block m) (nat num_skipped_blocks) bs
       in rbind (free_blocks removed s) (\<lambda>s'. Inr (rtb_set rid bs' m, s')))"

text \<open>Only full attention managers count common blocks.\<close>

definition get_num_common_prefix_blocks ::
  "string \<Rightarrow> st_manager \<times> block_pool \<Rightarrow> int \<times> st_manager" where
  "get_num_common_prefix_blocks rid = (\<lambda>(m, s).
     if \<not> is_full (m_spec m) then (0, m)
     else let m' = rtb_touch rid m
          in (int (length (takeWhile (\<lambda>b. ref_cnt (heap s b) = int (length (req_to_blocks m')))
                     (blocks_of_request m rid))), m'))"

section \<open>The block table of one request\<close>

text \<open>
  The invariant of a block table \<open>bs\<close> of which the first \<open>nc\<close> blocks are cached, when everybody else
  holds the references \<open>R\<close>: reference counts are exact, no block occurs twice, and the blocks from
  \<open>nc\<close> on carry no hash and belong to this table only.
\<close>

definition table_ok :: "block_pool \<Rightarrow> bref list \<Rightarrow> bool" where
  "table_ok s bs \<longleftrightarrow> valid_refs s bs \<and> distinct (filter (\<lambda>b. b \<noteq> null_block s) bs)"

definition no_hashes :: "block_pool \<Rightarrow> bool" where
  "no_hashes s \<longleftrightarrow> (\<forall>b \<in> usable s. hashes s b = None)"

definition private_block :: "bref multiset \<Rightarrow> block_pool \<Rightarrow> bref \<Rightarrow> bool" where
  "private_block R s b \<longleftrightarrow> b = null_block s \<or> hashes s b = None \<and> b \<notin># R"

definition cell_inv :: "bref multiset \<Rightarrow> block_pool \<Rightarrow> bref list \<Rightarrow> nat \<Rightarrow> bool" where
  "cell_inv R s bs nc \<longleftrightarrow> (\<exists>fl. pool_inv s fl) \<and> counted s (R + held s bs) \<and> table_ok s bs
     \<and> nc \<le> length bs \<and> (\<forall>b \<in> set (drop nc bs). private_block R s b)
     \<and> (\<not> enable_caching s \<longrightarrow> no_hashes s)"

text \<open>What an operation on a table leaves of the tables of others: a block of theirs without a hash
  that was not in the table stays so.\<close>

definition cell_frame :: "bref multiset \<Rightarrow> block_pool \<Rightarrow> bref list \<Rightarrow> block_pool \<Rightarrow> bref list \<Rightarrow> bool" where
  "cell_frame R s bs s' bs' \<longleftrightarrow> static s' = static s
     \<and> (\<forall>b. b \<in># R \<and> hashes s b = None \<and> b \<notin># held s bs \<longrightarrow> hashes s' b = None \<and> b \<notin># held s' bs')"

lemma held_append [simp]: "held s (xs @ ys) = held s xs + held s ys"
  by (simp add: held_def)

lemma held_Nil [simp]: "held s [] = {#}"
  by (simp add: held_def)

lemma held_null [simp]: "held s (replicate n (null_block s)) = {#}"
  by (induction n) (simp_all add: held_def)

lemma held_static: "static s' = static s \<Longrightarrow> held s' bs = held s bs"
  by (simp add: held_def static_eq)

lemma in_held [simp]: "b \<in># held s bs \<longleftrightarrow> b \<in> set bs \<and> b \<noteq> null_block s"
  by (auto simp: held_def)

lemma table_ok_static: "static s' = static s \<Longrightarrow> table_ok s' bs = table_ok s bs"
  using usable_static [of s' s] null_static [of s' s] by (simp add: table_ok_def)

lemma enable_static: "static s' = static s \<Longrightarrow> enable_caching s' = enable_caching s"
  by (simp add: static_eq)

lemma null_unhashed: "pool_inv s fl \<Longrightarrow> hashes s (null_block s) = None"
  by (simp add: pool_inv_def pool_core_def cache_ok_def pool_ids_def)

lemma count_held_le_1: "table_ok s bs \<Longrightarrow> count (held s bs) b = (if b \<in> set bs \<and> b \<noteq> null_block s then 1 else 0)"
  using count_distinct_mset [of "filter (\<lambda>b. b \<noteq> null_block s) bs" b] unfolding table_ok_def held_def
  by (simp only: set_filter mem_Collect_eq)

lemma free_block_not_held:
  assumes "pool_inv s fl" and "counted s T" and "b \<in> set fl"
  shows "b \<in> usable s \<and> b \<notin># T"
proof -
  have b: "b \<in> usable s" "refs s b = 0"
    using assms(1,3) by (auto simp: pool_inv_def pool_core_def refs_ok_def)
  then have "int (count T b) = 0" using assms(2) by (metis counted_def)
  with b show ?thesis by (simp add: count_eq_zero_iff)
qed

lemma no_hashes_static:
  "static s' = static s \<Longrightarrow> (\<And>b. hashes s b = None \<Longrightarrow> hashes s' b = None) \<Longrightarrow> no_hashes s \<Longrightarrow> no_hashes s'"
  by (simp add: no_hashes_def usable_static [of s' s])

text \<open>The table grows by new blocks.\<close>

lemma cell_extend:
  assumes inv: "cell_inv R s bs nc" and k: "int k \<le> get_num_free_blocks s"
  shows "\<exists>new s'. get_new_blocks (int k) s = Inr (new, s') \<and> length new = k
    \<and> cell_inv R s' (bs @ new) nc \<and> cell_frame R s bs s' (bs @ new)
    \<and> get_num_free_blocks s' = get_num_free_blocks s - int k"
proof -
  obtain fl where fl: "pool_inv s fl" and c: "counted s (R + held s bs)" and t: "table_ok s bs"
    and nc: "nc \<le> length bs" and priv: "\<And>b. b \<in> set (drop nc bs) \<Longrightarrow> private_block R s b"
    and nh: "\<not> enable_caching s \<longrightarrow> no_hashes s"
    using inv by (auto simp: cell_inv_def)
  have core: "pool_core s fl {}" using fl by (simp add: pool_inv_def)
  have kl: "k \<le> length fl" using k num_free_of_pool_core [OF core] by simp
  define new where "new = take k fl"
  obtain s' where s': "get_new_blocks (int k) s = Inr (new, s')" "pool_inv s' (drop k fl)" "static s' = static s"
    "refs s' = (\<lambda>b. if b \<in> set new then 1 else refs s b)"
    "hashes s' = (\<lambda>b. if enable_caching s \<and> b \<in> set new then None else hashes s b)"
    using get_new_blocks_ok [OF fl kl] by (auto simp: new_def)
  have ids: "pool_ids s" using core by (simp add: pool_core_def)
  have mem: "b \<in> usable s \<and> b \<notin># R + held s bs" if "b \<in> set new" for b
    using free_block_not_held [OF fl c, of b] that set_take_subset [of k fl] by (auto simp: new_def)
  have d: "distinct new" using core by (simp add: pool_core_def free_rel_def new_def)
  have nn: "b \<noteq> null_block s" if "b \<in> set new" for b
    using mem [OF that] null_not_usable [OF ids] by auto
  have filt: "filter (\<lambda>b. b \<noteq> null_block s) new = new" using nn by (simp add: filter_id_conv)
  have nhash: "hashes s' b = None" if "b \<in> set new" for b
    using that nh mem by (auto simp: s'(5) no_hashes_def)
  have same: "hashes s' b = hashes s b" if "b \<notin> set new" for b using that by (simp add: s'(5))
  have hn: "held s new = mset new" by (simp only: held_def filt)
  define T where "T = R + held s bs"
  have T: "count T b = 0" if "b \<in> set new" for b using mem [OF that] unfolding T_def count_eq_zero_iff by blast
  have "counted s' (T + mset new)" unfolding counted_def usable_static [OF s'(3)] s'(4)
  proof
    show "\<forall>b \<in> usable s. (if b \<in> set new then 1 else refs s b) = int (count (T + mset new) b)"
      using c T count_distinct_mset [OF d] by (simp add: counted_def T_def [symmetric])
    show "set_mset (T + mset new) \<subseteq> usable s" using c mem by (auto simp: counted_def T_def [symmetric])
  qed
  then have "counted s' (R + held s' (bs @ new))"
    unfolding held_static [OF s'(3)] held_append hn T_def by (simp only: add.assoc)
  moreover have "table_ok s' (bs @ new)"
    unfolding table_ok_static [OF s'(3)] using t mem d nn filt by (auto simp: table_ok_def)
  moreover have "\<forall>b \<in> set (drop nc (bs @ new)). private_block R s' b"
  proof
    fix b
    assume "b \<in> set (drop nc (bs @ new))"
    then consider "b \<in> set (drop nc bs)" "b \<notin> set new" | "b \<in> set new" using nc by auto
    then show "private_block R s' b"
    proof cases
      case 1
      then show ?thesis using priv [of b] same [of b] by (simp add: private_block_def null_static [OF s'(3)])
    next
      case 2
      then show ?thesis using mem [of b] nhash [of b] by (simp add: private_block_def)
    qed
  qed
  moreover have "\<not> enable_caching s' \<longrightarrow> no_hashes s'"
    using nh no_hashes_static [OF s'(3)] enable_static [OF s'(3)] by (auto simp: s'(5))
  ultimately have "cell_inv R s' (bs @ new) nc" using s'(2) nc unfolding cell_inv_def by auto
  moreover have "b \<notin> set new" if "b \<in># R" for b using mem [of b] that by auto
  then have "cell_frame R s bs s' (bs @ new)"
    unfolding cell_frame_def held_static [OF s'(3)] using s'(3) same by auto
  moreover have "get_num_free_blocks s' = get_num_free_blocks s - int k"
    using num_free_of_pool_core [OF core] num_free_of_pool_core [of s' "drop k fl" "{}"] s'(2) kl
    by (simp add: pool_inv_def)
  ultimately show ?thesis using s'(1) kl by (auto simp: new_def)
qed

text \<open>A new table starts with blocks found in the prefix cache.\<close>

definition hit_blocks_ok :: "block_pool \<Rightarrow> bref list \<Rightarrow> bool" where
  "hit_blocks_ok s cs \<longleftrightarrow> table_ok s cs \<and> (\<forall>b \<in> set cs. b \<noteq> null_block s \<longrightarrow> hashes s b \<noteq> None)"

definition evictable :: "block_pool \<Rightarrow> bref list \<Rightarrow> int" where
  "evictable s cs = int (length (filter (\<lambda>b. ref_cnt (heap s b) = 0 \<and> \<not> is_null (heap s b)) cs))"

lemma touch_free_count:
  assumes inv: "pool_inv s fl" and t: "table_ok s cs"
  shows "int (length (filter (\<lambda>b. b \<notin> set cs) fl)) = int (length fl) - evictable s cs"
proof -
  have ids: "pool_ids s" and d: "distinct fl" and fl: "set fl = {b \<in> usable s. refs s b = 0}"
    using inv by (auto simp: pool_inv_def pool_core_def free_rel_def refs_ok_def)
  have ev: "(ref_cnt (heap s b) = 0 \<and> \<not> is_null (heap s b)) = (b \<noteq> null_block s \<and> b \<in> set fl)" if "b \<in> set cs" for b
    using that t usable_facts(1) [OF ids] null_not_usable [OF ids] by (auto simp: table_ok_def fl)
  have "filter (\<lambda>b. ref_cnt (heap s b) = 0 \<and> \<not> is_null (heap s b)) cs =
      filter (\<lambda>b. b \<in> set fl) (filter (\<lambda>b. b \<noteq> null_block s) cs)"
    unfolding filter_filter using ev by (intro filter_cong) auto
  moreover have "distinct (filter (\<lambda>b. b \<in> set fl) (filter (\<lambda>b. b \<noteq> null_block s) cs))"
    using t by (simp only: table_ok_def distinct_filter)
  moreover have "set (filter (\<lambda>b. b \<in> set fl) (filter (\<lambda>b. b \<noteq> null_block s) cs)) = set cs \<inter> set fl"
    using null_not_usable [OF ids] fl by auto
  ultimately have "length (filter (\<lambda>b. ref_cnt (heap s b) = 0 \<and> \<not> is_null (heap s b)) cs)
      = card (set cs \<inter> set fl)"
    by (metis distinct_card)
  moreover have "length (filter (\<lambda>b. b \<in> set cs) fl) = card (set cs \<inter> set fl)"
    using distinct_card [OF distinct_filter [OF d]] by (metis Int_commute inter_set_filter)
  moreover have "length (filter (\<lambda>b. b \<in> set cs) fl) + length (filter (\<lambda>b. b \<notin> set cs) fl) = length fl"
    by (rule sum_length_filter_compl)
  ultimately show ?thesis by (simp add: evictable_def)
qed

lemma cell_hit:
  assumes inv: "cell_inv R s [] 0" and hit: "hit_blocks_ok s cs"
    and bs: "bs = replicate k (null_block s) @ cs"
  shows "\<exists>s'. touch cs s = Inr s' \<and> cell_inv R s' bs (length bs) \<and> cell_frame R s [] s' bs
    \<and> get_num_free_blocks s' = get_num_free_blocks s - evictable s cs"
proof -
  obtain fl where fl: "pool_inv s fl" and c: "counted s R" and nh: "\<not> enable_caching s \<longrightarrow> no_hashes s"
    using inv by (auto simp: cell_inv_def)
  have t: "table_ok s cs" and v: "valid_refs s cs" using hit by (simp_all add: hit_blocks_ok_def table_ok_def)
  have core: "pool_core s fl {}" and ids: "pool_ids s" using fl by (simp_all add: pool_inv_def pool_core_def)
  obtain s' where s': "touch cs s = Inr s'" "pool_inv s' (filter (\<lambda>b. b \<notin> set cs) fl)" "static s' = static s"
    "refs s' = (\<lambda>b. refs s b + int (count_list cs b))" "hashes s' = hashes s"
    using touch_ok [OF core v] by (auto simp: pool_inv_def)
  have h: "held s' bs = held s cs" unfolding held_static [OF s'(3)] bs by simp
  have cl: "count_list cs b = count (held s cs) b" if "b \<in> usable s" for b
    using count_held [of b s cs] null_not_usable [OF ids] that by metis
  have "counted s' (R + held s' bs)"
    unfolding counted_def usable_static [OF s'(3)] h s'(4)
    using c cl v by (auto simp: counted_def)
  moreover have "table_ok s' bs"
    unfolding table_ok_static [OF s'(3)] using t by (auto simp: bs table_ok_def)
  moreover have "\<not> enable_caching s' \<longrightarrow> no_hashes s'"
    using nh no_hashes_static [OF s'(3)] enable_static [OF s'(3)] s'(5) by auto
  ultimately have "cell_inv R s' bs (length bs)" using s'(2) by (auto simp: cell_inv_def)
  moreover have "cell_frame R s [] s' bs"
    unfolding cell_frame_def h using s'(3,5) hit by (auto simp: hit_blocks_ok_def)
  moreover have "get_num_free_blocks s' = get_num_free_blocks s - evictable s cs"
    using num_free_of_pool_core [OF core] num_free_of_pool_core [of s' _ "{}"] s'(2)
      touch_free_count [OF fl t] by (auto simp: pool_inv_def)
  ultimately show ?thesis using s'(1) by blast
qed

text \<open>References \<open>L\<close> of the table are given back.\<close>

lemma cell_free:
  assumes inv: "cell_inv R s bs nc" and L: "table_ok s L" and split: "held s bs = held s bs' + held s L"
    and bs': "table_ok s bs'" "nc' \<le> length bs'" "\<And>b. b \<in> set (drop nc' bs') \<Longrightarrow> b = null_block s \<or> b \<in> set (drop nc bs)"
  shows "\<exists>s'. free_blocks L s = Inr s' \<and> cell_inv R s' bs' nc' \<and> cell_frame R s bs s' bs'
    \<and> get_num_free_blocks s \<le> get_num_free_blocks s'"
proof -
  obtain fl where fl: "pool_inv s fl" and c: "counted s (R + held s bs)"
    and priv: "\<And>b. b \<in> set (drop nc bs) \<Longrightarrow> private_block R s b" and nh: "\<not> enable_caching s \<longrightarrow> no_hashes s"
    using inv by (auto simp: cell_inv_def)
  have core: "pool_core s fl {}" and ids: "pool_ids s" using fl by (simp_all add: pool_inv_def pool_core_def)
  have pos: "0 < refs s b" if "b \<in> set L" "b \<noteq> null_block s" for b
  proof -
    have "b \<in> usable s" using that L by (auto simp: table_ok_def)
    moreover have "b \<in># held s bs" using that split in_held [of b s L] by (metis union_iff)
    then have "0 < count (R + held s bs) b" by (simp only: count_union count_greater_zero_iff [symmetric])
    ultimately show ?thesis using c by (simp only: counted_def)
  qed
  obtain s' where s': "free_blocks L s = Inr s'" "static s' = static s" "hashes s' = hashes s"
    "refs s' = (\<lambda>b. refs s b - int (count_list L b))"
    "pool_inv s' (fl @ filter (\<lambda>b. b \<noteq> null_block s \<and> refs s b = 1) L)"
    using free_blocks_ok [OF core, of L] L pos by (auto simp: pool_inv_def table_ok_def)
  have cl: "count_list L b = count (held s L) b" if "b \<in> usable s" for b
    using count_held [of b s L] null_not_usable [OF ids] that by metis
  have "counted s' (R + held s' bs')"
    unfolding counted_def usable_static [OF s'(2)] held_static [OF s'(2)] s'(4)
    using c cl unfolding counted_def split by (auto simp: table_ok_def)
  moreover have "\<forall>b \<in> set (drop nc' bs'). private_block R s' b"
    using bs'(3) priv by (auto simp: private_block_def s'(3) null_static [OF s'(2)])
  moreover have "\<not> enable_caching s' \<longrightarrow> no_hashes s'"
    using nh no_hashes_static [OF s'(2)] enable_static [OF s'(2)] s'(3) by auto
  ultimately have "cell_inv R s' bs' nc'"
    using s'(5) bs'(1,2) table_ok_static [OF s'(2)] by (auto simp: cell_inv_def)
  moreover have "cell_frame R s bs s' bs'"
    unfolding cell_frame_def held_static [OF s'(2)] split using s'(2,3) by auto
  moreover have "get_num_free_blocks s \<le> get_num_free_blocks s'"
    using num_free_of_pool_core [OF core] num_free_of_pool_core [of s' _ "{}"] s'(5) by (auto simp: pool_inv_def)
  ultimately show ?thesis using s'(1) by blast
qed

text \<open>Full blocks of the table enter the prefix cache.\<close>

lemma cell_cache:
  assumes inv: "cell_inv R s bs nc" and caching: "enable_caching s"
    and bsz: "block_size_ok (hash_block_size s) block_size" and g: "group_id_ok g"
    and nf: "nc \<le> nf" "nf \<le> length bs" "nf \<le> length (group_hashes (hash_block_size s) block_size (block_hashes r))"
  shows "\<exists>s'. cache_full_blocks r bs nc nf block_size g s = Inr s' \<and> cell_inv R s' bs nf \<and> cell_frame R s bs s' bs
    \<and> get_num_free_blocks s' = get_num_free_blocks s
    \<and> (\<forall>j. nc \<le> j \<and> j < nf \<and> bs ! j \<noteq> null_block s \<longrightarrow>
         hashes s' (bs ! j) = Some (packed g (group_hashes (hash_block_size s) block_size (block_hashes r) ! j)))"
proof -
  obtain fl where fl: "pool_inv s fl" and c: "counted s (R + held s bs)" and t: "table_ok s bs"
    and priv: "\<And>b. b \<in> set (drop nc bs) \<Longrightarrow> private_block R s b"
    using inv by (auto simp: cell_inv_def)
  have core: "pool_core s fl {}" using fl by (simp add: pool_inv_def)
  define l where "l = take (nf - nc) (drop nc bs)"
  have "drop (nf - nc) (drop nc bs) = drop nf bs" using nf(1) by simp
  then have drop: "drop nc bs = l @ drop nf bs" by (metis append_take_drop_id l_def)
  then have bs: "bs = take nc bs @ l @ drop nf bs" by (metis append_take_drop_id)
  have dist: "distinct (filter (\<lambda>b. b \<noteq> null_block s) (take nc bs @ l @ drop nf bs))"
    using t bs by (simp add: table_ok_def)
  have sub: "set l \<subseteq> set bs" using in_set_takeD in_set_dropD by (fastforce simp: l_def)
  have l: "valid_refs s l" "distinct (filter (\<lambda>b. b \<noteq> null_block s) l)" "\<forall>b \<in> set l. hashes s b = None"
    using t sub dist priv null_unhashed [OF fl] drop
    by (auto simp: table_ok_def private_block_def)
  obtain s' where s': "cache_full_blocks r bs nc nf block_size g s = Inr s'" "pool_inv s' fl" "static s' = static s"
    "refs s' = refs s"
    "\<forall>j. nc \<le> j \<and> j < nf \<and> bs ! j \<noteq> null_block s \<longrightarrow>
       hashes s' (bs ! j) = Some (packed g (group_hashes (hash_block_size s) block_size (block_hashes r) ! j))"
    "\<forall>b. b \<notin> set l \<or> b = null_block s \<longrightarrow> hashes s' b = hashes s b"
    using cache_full_blocks_ok [OF core bsz g nf(3,2) l_def l] by (auto simp: pool_inv_def)
  have "private_block R s' b" if b: "b \<in> set (drop nf bs)" for b
  proof (cases "b = null_block s")
    case True
    then show ?thesis by (simp add: private_block_def null_static [OF s'(3)])
  next
    case False
    then have "b \<notin> set l" using dist b by auto
    then show ?thesis using s'(6) priv [of b] b drop False
      by (auto simp: private_block_def null_static [OF s'(3)])
  qed
  moreover have "counted s' (R + held s' bs)"
    using c counted_cong [OF s'(3,4)] held_static [OF s'(3)] by simp
  ultimately have "cell_inv R s' bs nf"
    using s'(2) t nf(2) caching table_ok_static [OF s'(3)] enable_static [OF s'(3)] by (auto simp: cell_inv_def)
  moreover have "cell_frame R s bs s' bs"
    unfolding cell_frame_def held_static [OF s'(3)] using s'(3,6) sub by auto
  moreover have "get_num_free_blocks s' = get_num_free_blocks s"
    using num_free_of_pool_core [OF core] num_free_of_pool_core [of s' _ "{}"] s'(2) by (auto simp: pool_inv_def)
  ultimately show ?thesis using s'(1,5) by blast
qed

text \<open>The tables of others are not affected.\<close>

lemma cell_other:
  assumes other: "cell_inv (Q + held s bs) s bs2 nc2" and cell: "cell_inv (Q + held s bs2) s' bs' nc'"
    and frame: "cell_frame (Q + held s bs2) s bs s' bs'"
  shows "cell_inv (Q + held s' bs') s' bs2 nc2"
proof -
  have st: "static s' = static s" using frame by (simp add: cell_frame_def)
  have "private_block (Q + held s' bs') s' b" if b: "b \<in> set (drop nc2 bs2)" for b
  proof (cases "b = null_block s")
    case False
    then have "hashes s b = None" "b \<notin># Q" "b \<notin># held s bs"
      using other b by (auto simp: cell_inv_def private_block_def)
    moreover have "b \<in># held s bs2" using b False by (auto dest: in_set_dropD)
    ultimately have "hashes s' b = None" "b \<notin># held s' bs'"
      using frame unfolding cell_frame_def by (meson union_iff)+
    then show ?thesis using \<open>b \<notin># Q\<close> by (simp add: private_block_def null_static [OF st])
  qed (simp add: private_block_def null_static [OF st])
  moreover have "(Q + held s' bs') + held s' bs2 = (Q + held s bs2) + held s' bs'"
    unfolding held_static [OF st] by (simp add: ac_simps)
  then have "counted s' ((Q + held s' bs') + held s' bs2)" using cell by (simp only: cell_inv_def)
  ultimately show ?thesis
    using cell other table_ok_static [OF st, of bs2] unfolding cell_inv_def by blast
qed

section \<open>A manager\<close>

definition alist_held :: "block_pool \<Rightarrow> (string, bref list) odict \<Rightarrow> bref multiset" where
  "alist_held s d = sum_list (map (\<lambda>(_, bs). held s bs) d)"

definition alist_get :: "(string, bref list) odict \<Rightarrow> string \<Rightarrow> bref list" where
  "alist_get d rid = (case map_of d rid of None \<Rightarrow> [] | Some bs \<Rightarrow> bs)"

definition others :: "block_pool \<Rightarrow> st_manager \<Rightarrow> string \<Rightarrow> bref multiset" where
  "others s m rid = alist_held s (AList.delete rid (req_to_blocks m))"

definition mgr_held :: "block_pool \<Rightarrow> st_manager \<Rightarrow> bref multiset" where
  "mgr_held s m = alist_held s (req_to_blocks m)"

definition ncached :: "st_manager \<Rightarrow> string \<Rightarrow> nat" where
  "ncached m rid = nat (case map_of (num_cached_block m) rid of None \<Rightarrow> 0 | Some n \<Rightarrow> n)"

lemma blocks_of_request_get: "blocks_of_request m rid = alist_get (req_to_blocks m) rid"
  by (simp add: blocks_of_request_def alist_get_def)

lemma alist_held_split:
  "distinct (map fst d) \<Longrightarrow> alist_held s d = held s (alist_get d rid) + alist_held s (AList.delete rid d)"
proof (induction d)
  case (Cons p d)
  then show ?case
    by (cases p) (auto simp: alist_held_def alist_get_def ac_simps delete_idem dest: weak_map_of_SomeI)
qed (simp add: alist_held_def alist_get_def)

lemma mgr_held_split:
  "distinct (map fst (req_to_blocks m)) \<Longrightarrow> mgr_held s m = held s (blocks_of_request m rid) + others s m rid"
  unfolding mgr_held_def others_def blocks_of_request_get by (rule alist_held_split)

lemma alist_held_static: "static s' = static s \<Longrightarrow> alist_held s' d = alist_held s d"
  by (simp add: alist_held_def held_static [of s' s])

fun window_ok :: "layer_spec \<Rightarrow> bool" where
  "window_ok (SlidingWindowSpec _ w) \<longleftrightarrow> 1 \<le> w"
| "window_ok (ChunkedLocalAttentionSpec _ c) \<longleftrightarrow> 0 < c"
| "window_ok _ \<longleftrightarrow> True"

definition mgr_wf :: "block_pool \<Rightarrow> st_manager \<Rightarrow> bool" where
  "mgr_wf s m \<longleftrightarrow> m_null_block m = null_block s \<and> 0 < m_block_size m
     \<and> m_enable_caching m = enable_caching s \<and> window_ok (m_spec m)
     \<and> distinct (map fst (req_to_blocks m)) \<and> (\<forall>rid n. map_of (num_cached_block m) rid = Some n \<longrightarrow> 0 \<le> n)"

text \<open>The invariant of a manager, when other managers hold the references \<open>R\<close>.\<close>

definition mgr_inv :: "bref multiset \<Rightarrow> block_pool \<Rightarrow> st_manager \<Rightarrow> bool" where
  "mgr_inv R s m \<longleftrightarrow> mgr_wf s m
     \<and> (\<forall>rid. cell_inv (R + others s m rid) s (blocks_of_request m rid) (ncached m rid))"

definition mgr_frame :: "bref multiset \<Rightarrow> block_pool \<Rightarrow> st_manager \<Rightarrow> block_pool \<Rightarrow> st_manager \<Rightarrow> bool" where
  "mgr_frame R s m s' m' \<longleftrightarrow> static s' = static s
     \<and> (\<forall>b. b \<in># R \<and> hashes s b = None \<and> b \<notin># mgr_held s m \<longrightarrow> hashes s' b = None \<and> b \<notin># mgr_held s' m')"

lemma mgr_step:
  assumes inv: "mgr_inv R s m" and wf: "mgr_wf s' m'"
    and del: "AList.delete rid (req_to_blocks m') = AList.delete rid (req_to_blocks m)"
    and nc: "\<And>rid'. rid' \<noteq> rid \<Longrightarrow> map_of (num_cached_block m') rid' = map_of (num_cached_block m) rid'"
    and cell: "cell_inv (R + others s m rid) s' (blocks_of_request m' rid) (ncached m' rid)"
    and frame: "cell_frame (R + others s m rid) s (blocks_of_request m rid) s' (blocks_of_request m' rid)"
  shows "mgr_inv R s' m' \<and> mgr_frame R s m s' m'"
proof -
  have st: "static s' = static s" using frame by (simp add: cell_frame_def)
  have d: "distinct (map fst (req_to_blocks m))" and d': "distinct (map fst (req_to_blocks m'))"
    using inv wf by (simp_all add: mgr_inv_def mgr_wf_def)
  have oth: "others s' m' rid = others s m rid"
    by (simp add: others_def del alist_held_static [OF st])
  have "cell_inv (R + others s' m' rid') s' (blocks_of_request m' rid') (ncached m' rid')" for rid'
  proof (cases "rid' = rid")
    case True
    then show ?thesis using cell oth by simp
  next
    case False
    let ?bs = "blocks_of_request m rid" and ?bs' = "blocks_of_request m' rid"
    have same: "map_of (req_to_blocks m') rid' = map_of (req_to_blocks m) rid'"
      using False del by (metis map_of_delete_other)
    then have b: "blocks_of_request m' rid' = blocks_of_request m rid'" by (simp add: blocks_of_request_def)
    have n: "ncached m' rid' = ncached m rid'" using nc [OF False] by (simp add: ncached_def)
    have g: "alist_get (AList.delete rid d) rid' = alist_get d rid'"
      "alist_get (AList.delete rid' d) rid = alist_get d rid" for d
      using False by (simp_all add: alist_get_def)
    define D where "D = alist_held s (AList.delete rid' (AList.delete rid (req_to_blocks m)))"
    define Q where "Q = R + D"
    have e: "others s m rid' = held s ?bs + D" "others s m rid = held s (blocks_of_request m rid') + D"
      using alist_held_split [OF distinct_delete [OF d], of s rid' rid]
        alist_held_split [OF distinct_delete [OF d], of s rid rid']
      by (simp_all add: others_def blocks_of_request_get g D_def delete_twist [of rid rid'])
    have "AList.delete rid (AList.delete rid' (req_to_blocks m')) = AList.delete rid' (AList.delete rid (req_to_blocks m))"
      by (simp add: delete_twist [of rid rid'] del)
    then have e3: "others s' m' rid' = held s' ?bs' + D"
      using alist_held_split [OF distinct_delete [OF d'], of s' rid' rid]
      by (simp add: others_def blocks_of_request_get g D_def alist_held_static [OF st])
    have "cell_inv (Q + held s ?bs) s (blocks_of_request m rid') (ncached m rid')"
    proof -
      have "cell_inv (R + others s m rid') s (blocks_of_request m rid') (ncached m rid')"
        using inv by (simp add: mgr_inv_def)
      then show ?thesis using e(1) by (simp add: Q_def ac_simps)
    qed
    moreover have "cell_inv (Q + held s (blocks_of_request m rid')) s' ?bs' (ncached m' rid)"
      "cell_frame (Q + held s (blocks_of_request m rid')) s ?bs s' ?bs'"
      using cell frame e(2) by (simp_all add: Q_def ac_simps)
    ultimately have "cell_inv (Q + held s' ?bs') s' (blocks_of_request m rid') (ncached m rid')"
      by (rule cell_other)
    then show ?thesis unfolding b n e3 by (simp add: Q_def ac_simps)
  qed
  then have "mgr_inv R s' m'" using wf by (simp add: mgr_inv_def)
  moreover have "mgr_frame R s m s' m'"
    using frame unfolding mgr_frame_def cell_frame_def mgr_held_split [OF d, of s rid] mgr_held_split [OF d', of s' rid] oth
    by (auto simp del: in_held)
  ultimately show ?thesis by simp
qed

section \<open>The operations of a manager\<close>

lemma rtb_set_simps [simp]:
  "blocks_of_request (rtb_set rid bs m) rid = bs"
  "AList.delete rid (req_to_blocks (rtb_set rid bs m)) = AList.delete rid (req_to_blocks m)"
  "num_cached_block (rtb_set rid bs m) = num_cached_block m"
  "m_block_size (rtb_set rid bs m) = m_block_size m" "m_spec (rtb_set rid bs m) = m_spec m"
  "m_null_block (rtb_set rid bs m) = m_null_block m"
  "m_enable_caching (rtb_set rid bs m) = m_enable_caching m"
  "kv_cache_group_id (rtb_set rid bs m) = kv_cache_group_id m"
  by (simp_all add: rtb_set_def blocks_of_request_def delete_update_same)

lemma rtb_set_wf: "mgr_wf s m \<Longrightarrow> static s' = static s \<Longrightarrow> mgr_wf s' (rtb_set rid bs m)"
  by (simp add: mgr_wf_def rtb_set_def distinct_update static_eq)

lemma ncached_rtb_set [simp]: "ncached (rtb_set rid bs m) rid' = ncached m rid'"
  by (simp add: ncached_def)

lemma mgr_cell: "mgr_inv R s m \<Longrightarrow> cell_inv (R + others s m rid) s (blocks_of_request m rid) (ncached m rid)"
  by (simp add: mgr_inv_def)

lemma mgr_inv_wf: "mgr_inv R s m \<Longrightarrow> mgr_wf s m"
  by (simp add: mgr_inv_def)

lemma mgr_update:
  assumes inv: "mgr_inv R s m" and cell: "cell_inv (R + others s m rid) s' bs' (ncached m rid)"
    and frame: "cell_frame (R + others s m rid) s (blocks_of_request m rid) s' bs'"
  shows "mgr_inv R s' (rtb_set rid bs' m) \<and> mgr_frame R s m s' (rtb_set rid bs' m)"
  by (rule mgr_step [OF inv, where rid = rid])
    (use cell frame rtb_set_wf [OF mgr_inv_wf [OF inv]] in \<open>auto simp: cell_frame_def\<close>)

lemma cell_frame_refl [simp]: "cell_frame R s bs s bs"
  by (simp add: cell_frame_def)

lemma mgr_frame_refl [simp]: "mgr_frame R s m s m"
  by (simp add: mgr_frame_def)

lemma mgr_frame_trans: "mgr_frame R s m s1 m1 \<Longrightarrow> mgr_frame R s1 m1 s2 m2 \<Longrightarrow> mgr_frame R s m s2 m2"
  unfolding mgr_frame_def by metis

lemma mgr_frame_static: "mgr_frame R s m s' m' \<Longrightarrow> static s' = static s"
  by (simp add: mgr_frame_def)

text \<open>\<open>allocate_new_blocks\<close> succeeds when enough blocks are free, and then the table has a slot for
  every token.\<close>

definition missing_blocks :: "st_manager \<Rightarrow> string \<Rightarrow> int \<Rightarrow> int" where
  "missing_blocks m rid num_toks =
     max (cdiv (num_toks + speculative_tokens m) (m_block_size m) - int (length (blocks_of_request m rid))) 0"

lemma allocate_new_blocks_ok:
  assumes inv: "mgr_inv R s m" and cap: "missing_blocks m rid n \<le> get_num_free_blocks s"
  shows "\<exists>new m' s'. allocate_new_blocks rid n (m, s) = Inr (new, m', s') \<and> mgr_inv R s' m'
    \<and> mgr_frame R s m s' m' \<and> blocks_of_request m' rid = blocks_of_request m rid @ new
    \<and> int (length new) = missing_blocks m rid n
    \<and> get_num_free_blocks s' = get_num_free_blocks s - missing_blocks m rid n
    \<and> m' = rtb_set rid (blocks_of_request m rid @ new) m"
proof (cases "missing_blocks m rid n = 0")
  case True
  then have "allocate_new_blocks rid n (m, s) = Inr ([], rtb_touch rid m, s)"
    by (simp add: allocate_new_blocks_def base_allocate_new_blocks_def missing_blocks_def Let_def max_def split: if_splits)
  moreover have "mgr_inv R s (rtb_touch rid m) \<and> mgr_frame R s m s (rtb_touch rid m)"
    unfolding rtb_touch_def by (rule mgr_update [OF inv mgr_cell [OF inv]]) simp
  ultimately show ?thesis using True by (simp add: rtb_touch_def)
next
  case False
  define k where "k = nat (missing_blocks m rid n)"
  have k: "int k = cdiv (n + speculative_tokens m) (m_block_size m) - int (length (blocks_of_request m rid))"
    "int k = missing_blocks m rid n" "0 < int k"
    using False by (auto simp: k_def missing_blocks_def max_def split: if_splits)
  obtain new s' where s': "get_new_blocks (int k) s = Inr (new, s')" "length new = k"
    "cell_inv (R + others s m rid) s' (blocks_of_request m rid @ new) (ncached m rid)"
    "cell_frame (R + others s m rid) s (blocks_of_request m rid) s' (blocks_of_request m rid @ new)"
    "get_num_free_blocks s' = get_num_free_blocks s - int k"
    using cell_extend [OF mgr_cell [OF inv]] cap k(2) by metis
  have "allocate_new_blocks rid n (m, s) = Inr (new, rtb_set rid (blocks_of_request m rid @ new) m, s')"
    using s'(1) k(1,3) by (simp add: allocate_new_blocks_def base_allocate_new_blocks_def Let_def)
  then show ?thesis using mgr_update [OF inv s'(3,4)] s'(2,5) k(2) by auto
qed

text \<open>Freeing a request never fails.\<close>

lemma table_ok_rev: "table_ok s (rev bs) = table_ok s bs"
  by (simp add: table_ok_def rev_filter [symmetric])

lemma free_request_ok:
  assumes inv: "mgr_inv R s m"
  shows "\<exists>m' s'. free_request rid (m, s) = Inr (m', s') \<and> mgr_inv R s' m' \<and> mgr_frame R s m s' m'
    \<and> blocks_of_request m' rid = [] \<and> map_of (num_cached_block m') rid = None
    \<and> get_num_free_blocks s \<le> get_num_free_blocks s'
    \<and> m' = m\<lparr>req_to_blocks := AList.delete rid (req_to_blocks m), num_cached_block := AList.delete rid (num_cached_block m)\<rparr>"
proof -
  define m' where "m' = m\<lparr>req_to_blocks := AList.delete rid (req_to_blocks m),
    num_cached_block := AList.delete rid (num_cached_block m)\<rparr>"
  let ?bs = "blocks_of_request m rid"
  have t: "table_ok s ?bs" using mgr_cell [OF inv, of rid] by (simp add: cell_inv_def)
  have "table_ok s []" by (simp add: table_ok_def)
  moreover have "held s (rev ?bs) = held s ?bs" by (simp add: held_def rev_filter [symmetric])
  ultimately obtain s' where s': "free_blocks (rev ?bs) s = Inr s'" "cell_inv (R + others s m rid) s' [] 0"
    "cell_frame (R + others s m rid) s ?bs s' []" "get_num_free_blocks s \<le> get_num_free_blocks s'"
    using cell_free [OF mgr_cell [OF inv, of rid], of "rev ?bs" "[]" 0] t by (auto simp: table_ok_rev)
  have b: "blocks_of_request m' rid = []" "ncached m' rid = 0"
    by (simp_all add: m'_def blocks_of_request_def ncached_def)
  have "mgr_wf s' m'"
    using mgr_inv_wf [OF inv] s'(3)
    by (auto simp: mgr_wf_def m'_def cell_frame_def static_eq distinct_delete delete_conv' split: if_splits)
  then have "mgr_inv R s' m' \<and> mgr_frame R s m s' m'"
    by (rule mgr_step [OF inv, where rid = rid]) (use s' b in \<open>simp_all add: m'_def delete_idem\<close>)
  moreover have "free_request rid (m, s) = Inr (m', s')" using s'(1) by (simp add: free_request_def m'_def)
  ultimately show ?thesis using b s'(4) by (simp add: m'_def)
qed

text \<open>Blocks outside the attention window are replaced by the null block and given back.\<close>

lemma held_update:
  assumes "i < length bs" and "bs ! i \<noteq> null_block s"
  shows "held s bs = add_mset (bs ! i) (held s (bs[i := null_block s]))"
proof -
  have "bs ! i \<in># mset bs" using assms(1) by simp
  then obtain M where M: "mset bs = add_mset (bs ! i) M" by (meson multi_member_split)
  show ?thesis unfolding held_def mset_filter mset_update [OF assms(1)] M using assms(2) by simp
qed

lemma distinct_count_le_1: "distinct xs \<longleftrightarrow> (\<forall>b. count (mset xs) b \<le> 1)"
proof
  assume *: "\<forall>b. count (mset xs) b \<le> 1"
  have "count (mset xs) b = (if b \<in> set xs then 1 else 0)" for b
  proof (cases "b \<in> set xs")
    case True
    then have "0 < count (mset xs) b" by simp
    then show ?thesis using * True by (metis One_nat_def Suc_leI le_antisym)
  qed (simp add: count_eq_zero_iff)
  then show "distinct xs" by (simp add: distinct_count_atmost_1)
qed (simp add: count_distinct_mset)

lemma table_ok_held: "table_ok s bs \<longleftrightarrow> set_mset (held s bs) \<subseteq> usable s \<and> (\<forall>b. count (held s bs) b \<le> 1)"
  unfolding table_ok_def distinct_count_le_1 held_def by auto

lemma skip_loop_ok:
  assumes "n \<le> length bs" and "skip_loop (null_block s) n bs = (removed, bs')"
  shows "held s bs = held s bs' + held s removed \<and> length bs' = length bs
    \<and> (\<forall>i < length bs. bs' ! i = bs ! i \<or> i < n \<and> bs' ! i = null_block s)"
  using assms
proof (induction n arbitrary: bs removed bs')
  case (Suc i)
  show ?case
  proof (cases "bs ! i = null_block s")
    case True
    then show ?thesis using Suc.prems by simp
  next
    case False
    obtain rm where rm: "skip_loop (null_block s) i (bs[i := null_block s]) = (rm, bs')" "removed = bs ! i # rm"
      using Suc.prems(2) False by (auto split: prod.splits)
    have "held s (bs ! i # rm) = add_mset (bs ! i) (held s rm)" using False by (simp add: held_def)
    then show ?thesis
      using Suc.IH [OF _ rm(1)] Suc.prems(1) held_update [of i bs s] False rm(2)
      by (auto simp: nth_list_update less_Suc_eq split: if_splits)
  qed
qed auto

lemma skip_loop_all:
  assumes "n \<le> length bs" and "skip_loop null n bs = (removed, bs')"
    and "\<And>i j. j \<le> i \<Longrightarrow> i < n \<Longrightarrow> bs ! i = null \<Longrightarrow> bs ! j = null"
  shows "\<forall>i < n. bs' ! i = null"
  using assms
proof (induction n arbitrary: bs removed bs')
  case (Suc i)
  show ?case
  proof (cases "bs ! i = null")
    case True
    then have "bs' = bs" using Suc.prems(2) by simp
    then show ?thesis using True Suc.prems(3) [of _ i] by (simp add: less_Suc_eq_le)
  next
    case False
    obtain rm where rm: "skip_loop null i (bs[i := null]) = (rm, bs')"
      using Suc.prems(2) False by (auto split: prod.splits)
    have "\<forall>j < i. bs' ! j = null"
      using Suc.IH [OF _ rm] Suc.prems(1,3) by (simp add: nth_list_update)
    moreover have "\<And>k l. k \<le> i \<Longrightarrow> skip_loop null k l = (rm, bs') \<Longrightarrow> i < length l \<Longrightarrow> bs' ! i = l ! i"
    proof -
      have "skip_loop null k l = (r, l') \<Longrightarrow> k \<le> i \<Longrightarrow> l' ! i = l ! i" for k l r l'
        by (induction k arbitrary: l r l') (auto split: if_splits prod.splits)
      then show "\<And>k l. k \<le> i \<Longrightarrow> skip_loop null k l = (rm, bs') \<Longrightarrow> i < length l \<Longrightarrow> bs' ! i = l ! i" by blast
    qed
    then have "bs' ! i = null" using rm Suc.prems(1) by fastforce
    ultimately show ?thesis by (auto simp: less_Suc_eq)
  qed
qed simp

lemma remove_skipped_blocks_ok:
  assumes inv: "mgr_inv R s m"
  shows "\<exists>m' s'. remove_skipped_blocks rid n (m, s) = Inr (m', s') \<and> mgr_inv R s' m' \<and> mgr_frame R s m s' m'
    \<and> length (blocks_of_request m' rid) = length (blocks_of_request m rid)
    \<and> num_cached_block m' = num_cached_block m \<and> get_num_free_blocks s \<le> get_num_free_blocks s'"
proof (cases "get_num_skipped_tokens m n \<le> 0")
  case True
  then show ?thesis using inv by (auto simp: remove_skipped_blocks_def)
next
  case False
  let ?bs = "blocks_of_request m rid"
  define k where "k = min (get_num_skipped_tokens m n div m_block_size m) (int (length ?bs))"
  have null: "m_null_block m = null_block s" using mgr_inv_wf [OF inv] by (simp add: mgr_wf_def)
  obtain rm bs' where sk: "skip_loop (null_block s) (nat k) ?bs = (rm, bs')" by fastforce
  have "nat k \<le> length ?bs" by (simp add: k_def)
  note ok = skip_loop_ok [OF this sk]
  have t: "table_ok s ?bs" and nc: "ncached m rid \<le> length ?bs"
    using mgr_cell [OF inv, of rid] by (simp_all add: cell_inv_def)
  have c: "count (held s ?bs) b = count (held s bs') b + count (held s rm) b" for b using ok by simp
  have sub: "set_mset (held s ?bs) = set_mset (held s bs') \<union> set_mset (held s rm)" using ok by simp
  have t': "table_ok s bs'" "table_ok s rm"
    using t c sub unfolding table_ok_held by (metis add_leE le_sup_iff)+
  have "b = null_block s \<or> b \<in> set (drop (ncached m rid) ?bs)" if b: "b \<in> set (drop (ncached m rid) bs')" for b
  proof -
    obtain i where i: "i < length bs'" "ncached m rid \<le> i" "b = bs' ! i"
      using b by (auto simp: in_set_conv_nth) (metis add.commute le_add2 less_diff_conv)
    then show ?thesis using ok by (metis Cons_nth_drop_Suc list.set_intros(1) set_drop_subset_set_drop subsetD)
  qed
  then obtain s' where s': "free_blocks rm s = Inr s'" "cell_inv (R + others s m rid) s' bs' (ncached m rid)"
    "cell_frame (R + others s m rid) s ?bs s' bs'" "get_num_free_blocks s \<le> get_num_free_blocks s'"
    using cell_free [OF mgr_cell [OF inv, of rid] t'(2) _ t'(1), of "ncached m rid"] ok nc by auto
  have "remove_skipped_blocks rid n (m, s) = Inr (rtb_set rid bs' m, s')"
    using False sk s'(1) by (simp add: remove_skipped_blocks_def null k_def Let_def)
  then show ?thesis using mgr_update [OF inv s'(2,3)] s'(4) ok by simp
qed

text \<open>Caching the full blocks of a table.\<close>

definition cacheable :: "block_pool \<Rightarrow> st_manager \<Rightarrow> request \<Rightarrow> int \<Rightarrow> bool" where
  "cacheable s m r n \<longleftrightarrow> enable_caching s \<and> \<not> is_cross (m_spec m) \<and> group_id_ok (kv_cache_group_id m)
     \<and> block_size_ok (hash_block_size s) (nat (m_block_size m))
     \<and> nat (n div m_block_size m) \<le> length (blocks_of_request m (request_id r))
     \<and> nat (n div m_block_size m) \<le> length (group_hashes (hash_block_size s) (nat (m_block_size m)) (block_hashes r))"

lemma cache_blocks_ok:
  assumes inv: "mgr_inv R s m" and ca: "cacheable s m r n"
  shows "\<exists>m' s'. cache_blocks r n (m, s) = Inr (m', s') \<and> mgr_inv R s' m' \<and> mgr_frame R s m s' m'
    \<and> blocks_of_request m' (request_id r) = blocks_of_request m (request_id r)
    \<and> get_num_free_blocks s' = get_num_free_blocks s \<and> m_spec m' = m_spec m
    \<and> (\<forall>j. ncached m (request_id r) \<le> j \<and> j < nat (n div m_block_size m)
         \<and> blocks_of_request m (request_id r) ! j \<noteq> null_block s \<longrightarrow>
         hashes s' (blocks_of_request m (request_id r) ! j) = Some (packed (kv_cache_group_id m)
           (group_hashes (hash_block_size s) (nat (m_block_size m)) (block_hashes r) ! j)))"
proof -
  let ?rid = "request_id r" and ?bs = "blocks_of_request m (request_id r)" and ?nf = "n div m_block_size m"
  let ?nc = "case map_of (num_cached_block m) ?rid of None \<Rightarrow> 0 | Some k \<Rightarrow> k"
  have nc0: "0 \<le> ?nc" using mgr_inv_wf [OF inv] by (auto simp: mgr_wf_def split: option.split)
  show ?thesis
  proof (cases "?nf \<le> ?nc")
    case True
    then have "cache_blocks r n (m, s) = Inr (m, s)" using ca by (simp add: cache_blocks_def cacheable_def)
    moreover have "nat ?nf \<le> ncached m ?rid" using True by (simp add: ncached_def nat_mono)
    ultimately show ?thesis using inv by auto
  next
    case False
    have nc: "ncached m ?rid = nat ?nc" by (simp add: ncached_def)
    have le: "ncached m ?rid \<le> nat ?nf" using False unfolding nc by (intro nat_mono) linarith
    have c: "enable_caching s" "block_size_ok (hash_block_size s) (nat (m_block_size m))"
      "group_id_ok (kv_cache_group_id m)" "nat ?nf \<le> length ?bs"
      "nat ?nf \<le> length (group_hashes (hash_block_size s) (nat (m_block_size m)) (block_hashes r))"
      using ca by (simp_all add: cacheable_def)
    from cell_cache [OF mgr_cell [OF inv, of ?rid] c(1-3) le c(4,5)]
    obtain s' where s': "cache_full_blocks r ?bs (nat ?nc) (nat ?nf) (nat (m_block_size m)) (kv_cache_group_id m) s = Inr s'"
      "cell_inv (R + others s m ?rid) s' ?bs (nat ?nf)" "cell_frame (R + others s m ?rid) s ?bs s' ?bs"
      "get_num_free_blocks s' = get_num_free_blocks s"
      "\<forall>j. nat ?nc \<le> j \<and> j < nat ?nf \<and> ?bs ! j \<noteq> null_block s \<longrightarrow> hashes s' (?bs ! j) =
         Some (packed (kv_cache_group_id m) (group_hashes (hash_block_size s) (nat (m_block_size m)) (block_hashes r) ! j))"
      unfolding nc by blast
    define m' where "m' = (rtb_touch ?rid m)\<lparr>num_cached_block := AList.update ?rid ?nf (num_cached_block m)\<rparr>"
    have run: "cache_blocks r n (m, s) = Inr (m', s')"
      using False s'(1) ca by (simp add: cache_blocks_def cacheable_def m'_def)
    have b: "blocks_of_request m' ?rid = ?bs" "ncached m' ?rid = nat ?nf"
      by (simp_all add: m'_def rtb_touch_def blocks_of_request_def rtb_set_def ncached_def)
    have "mgr_wf s' m'" using mgr_inv_wf [OF inv] s'(3) False nc0
      by (auto simp: mgr_wf_def m'_def rtb_touch_def rtb_set_def cell_frame_def static_eq distinct_update)
    then have "mgr_inv R s' m' \<and> mgr_frame R s m s' m'"
      by (rule mgr_step [OF inv, where rid = ?rid])
        (use s' b in \<open>simp_all add: m'_def rtb_touch_def rtb_set_def delete_update_same\<close>)
    moreover have "m_spec m' = m_spec m" by (simp add: m'_def rtb_touch_def)
    ultimately show ?thesis using run b s'(4,5) nc by auto
  qed
qed

lemma skipped_le:
  assumes "window_ok (m_spec m)" and "0 \<le> c"
  shows "get_num_skipped_tokens m c \<le> c"
proof (cases "m_spec m")
  case (ChunkedLocalAttentionSpec a w)
  then have "0 < w" using assms(1) by simp
  then have "c div w * w \<le> c" using le_div_iff_int [of w "c div w" c] by simp
  then show ?thesis using ChunkedLocalAttentionSpec by (simp add: get_num_skipped_tokens_def)
qed (use assms in \<open>auto simp: get_num_skipped_tokens_def\<close>)

section \<open>A new request\<close>

text \<open>The number of leading blocks of a new table that are outside the window.\<close>

definition skipped_blocks :: "st_manager \<Rightarrow> int \<Rightarrow> nat" where
  "skipped_blocks m tot = nat (get_num_skipped_tokens m tot div m_block_size m)"

definition fresh_request :: "st_manager \<Rightarrow> string \<Rightarrow> bool" where
  "fresh_request m rid \<longleftrightarrow> map_of (num_cached_block m) rid = None \<and> blocks_of_request m rid = []"

text \<open>The capacity a new request needs: new blocks and the hits that leave the free queue.\<close>

lemma num_blocks_new_request:
  assumes "fresh_request m rid"
  shows "get_num_blocks_to_allocate m s rid n cs tot =
    Inr (max (cdiv (n + speculative_tokens m) (m_block_size m)
               - max (get_num_skipped_tokens m tot div m_block_size m) (int (length cs))) 0
         + evictable s (drop (skipped_blocks m tot) cs))"
  using assms by (simp add: get_num_blocks_to_allocate_def base_num_blocks_to_allocate_def fresh_request_def
      evictable_def skipped_blocks_def Let_def max_def)

lemma hit_blocks_ok_drop: "hit_blocks_ok s cs \<Longrightarrow> hit_blocks_ok s (drop k cs)"
proof -
  assume h: "hit_blocks_ok s cs"
  then have "distinct (filter (\<lambda>b. b \<noteq> null_block s) (take k cs @ drop k cs))"
    by (simp only: append_take_drop_id) (simp add: hit_blocks_ok_def table_ok_def)
  then have "distinct (filter (\<lambda>b. b \<noteq> null_block s) (drop k cs))" by (simp only: filter_append distinct_append)
  moreover have "set (drop k cs) \<subseteq> set cs" by (rule set_drop_subset)
  ultimately show ?thesis using h unfolding hit_blocks_ok_def table_ok_def by blast
qed

definition external_blocks :: "st_manager \<Rightarrow> int \<Rightarrow> int \<Rightarrow> nat \<Rightarrow> int" where
  "external_blocks m nlocal nexternal len =
     (let tot = nlocal + nexternal; skipped = get_num_skipped_tokens m tot in
      if 0 < (if 0 < skipped div m_block_size m then min (tot - skipped) nexternal else nexternal)
      then cdiv tot (m_block_size m) - int len else 0)"

lemma allocate_new_computed_blocks_ok:
  assumes inv: "mgr_inv R s m" and new: "fresh_request m rid" and nx: "\<not> is_cross (m_spec m)"
    and hit: "hit_blocks_ok s cs" and caching: "enable_caching s \<or> cs = []"
    and len: "len = max (skipped_blocks m (nl + ne)) (length cs)"
    and ext: "0 \<le> external_blocks m nl ne len"
    and cap: "evictable s (drop (skipped_blocks m (nl + ne)) cs) + external_blocks m nl ne len \<le> get_num_free_blocks s"
  shows "\<exists>m' s'. allocate_new_computed_blocks rid cs nl ne (m, s) = Inr (m', s') \<and> mgr_inv R s' m'
    \<and> mgr_frame R s m s' m' \<and> int (length (blocks_of_request m' rid)) = int len + external_blocks m nl ne len
    \<and> m_spec m' = m_spec m \<and> m_block_size m' = m_block_size m
    \<and> get_num_free_blocks s' = get_num_free_blocks s
        - evictable s (drop (skipped_blocks m (nl + ne)) cs) - external_blocks m nl ne len"
proof -
  define k where "k = skipped_blocks m (nl + ne)"
  define cs' where "cs' = drop k cs"
  define bs where "bs = replicate k (null_block s) @ cs'"
  have wf: "m_null_block m = null_block s" "m_enable_caching m = enable_caching s"
    using mgr_inv_wf [OF inv] by (simp_all add: mgr_wf_def)
  have lbs: "length bs = len" by (simp add: bs_def cs'_def len k_def)
  have b0: "blocks_of_request m rid = []" "ncached m rid = 0" "map_of (num_cached_block m) rid = None"
    using new by (simp_all add: fresh_request_def ncached_def)
  have cell: "cell_inv (R + others s m rid) s [] 0" using mgr_cell [OF inv, of rid] b0 by simp
  have hit': "hit_blocks_ok s cs'" unfolding cs'_def by (rule hit_blocks_ok_drop [OF hit])
  obtain s1 where s1: "touch cs' s = Inr s1" "cell_inv (R + others s m rid) s1 bs (length bs)"
    "cell_frame (R + others s m rid) s [] s1 bs" "get_num_free_blocks s1 = get_num_free_blocks s - evictable s cs'"
    using cell_hit [OF cell hit' bs_def] by blast
  have pre: "(if m_enable_caching m then touch cs' s else py_assert (cs' = []) (Inr s)) = Inr s1"
    using s1(1) wf(2) caching by (auto simp: cs'_def touch_def)
  have cs': "(if 0 < get_num_skipped_tokens m (nl + ne) div m_block_size m
      then drop (nat (get_num_skipped_tokens m (nl + ne) div m_block_size m)) cs else cs) = cs'"
    by (simp add: cs'_def k_def skipped_blocks_def)
  define m1 where "m1 = (rtb_set rid bs m)\<lparr>num_cached_block := AList.update rid (int (length bs)) (num_cached_block m)\<rparr>"
  have m1: "blocks_of_request m1 rid = bs" "ncached m1 rid = length bs" "others s m1 rid = others s m rid"
    "m_spec m1 = m_spec m" "m_block_size m1 = m_block_size m"
    by (simp_all add: m1_def ncached_def others_def blocks_of_request_def rtb_set_def delete_update_same)
  have "mgr_wf s1 m1" using mgr_inv_wf [OF inv] s1(3)
    by (auto simp: mgr_wf_def m1_def rtb_set_def cell_frame_def static_eq distinct_update)
  then have inv1: "mgr_inv R s1 m1 \<and> mgr_frame R s m s1 m1"
    by (rule mgr_step [OF inv, where rid = rid])
      (use s1 m1 b0 in \<open>simp_all add: m1_def rtb_set_def delete_update_same\<close>)
  have run: "allocate_new_computed_blocks rid cs nl ne (m, s) =
      (if 0 < (if 0 < get_num_skipped_tokens m (nl + ne) div m_block_size m
               then min (nl + ne - get_num_skipped_tokens m (nl + ne)) ne else ne)
       then rbind (get_new_blocks (cdiv (nl + ne) (m_block_size m) - int (length bs)) s1)
              (\<lambda>(allocated, s2). Inr (rtb_set rid (bs @ allocated) m1, s2))
       else Inr (m1, s1))"
    using nx
    by (simp only: allocate_new_computed_blocks_def base_allocate_new_computed_blocks_def prod.case if_False
        HOL.simp_thms Let_def b0(1,3) cs' pre rbind.simps wf(1) py_assert_simps m1_def bs_def k_def skipped_blocks_def)
  show ?thesis
  proof (cases "0 < (if 0 < get_num_skipped_tokens m (nl + ne) div m_block_size m
               then min (nl + ne - get_num_skipped_tokens m (nl + ne)) ne else ne)")
    case False
    then have "external_blocks m nl ne len = 0" by (simp add: external_blocks_def Let_def)
    then show ?thesis using run False inv1 m1 s1(4) lbs by (simp add: cs'_def k_def)
  next
    case True
    define e where "e = nat (external_blocks m nl ne len)"
    have e: "external_blocks m nl ne len = cdiv (nl + ne) (m_block_size m) - int (length bs)" "int e = external_blocks m nl ne len"
      using True ext by (simp_all add: external_blocks_def Let_def lbs e_def)
    have cap': "int e \<le> get_num_free_blocks s1" using cap s1(4) e(2) by (simp add: cs'_def k_def)
    have st: "static s1 = static s" using s1(3) by (simp add: cell_frame_def)
    obtain new s2 where s2: "get_new_blocks (int e) s1 = Inr (new, s2)" "length new = e"
      "cell_inv (R + others s1 m1 rid) s2 (bs @ new) (ncached m1 rid)"
      "cell_frame (R + others s1 m1 rid) s1 (blocks_of_request m1 rid) s2 (bs @ new)"
      "get_num_free_blocks s2 = get_num_free_blocks s1 - int e"
      using cell_extend [OF mgr_cell [of R s1 m1 rid] cap'] inv1 m1 by auto
    have "mgr_inv R s2 (rtb_set rid (bs @ new) m1) \<and> mgr_frame R s1 m1 s2 (rtb_set rid (bs @ new) m1)"
      using mgr_update [of R s1 m1 rid s2 "bs @ new"] inv1 s2(3,4) by simp
    then show ?thesis
      using run True s2 e inv1 mgr_frame_trans m1 lbs s1(4) by (auto simp: cs'_def k_def)
  qed
qed

lemma cdiv_ge_div: "0 < b \<Longrightarrow> a div b \<le> cdiv a b"
  using cdiv_upper [of b a] by (metis zdiv_mono1 nonzero_mult_div_cancel_right less_irrefl)

lemma table_fits:
  assumes "window_ok (m_spec m)" and b: "0 < m_block_size m" and "0 \<le> nl" and "0 \<le> ne"
    and cs: "int (length cs) * m_block_size m \<le> nl"
  shows "int (max (skipped_blocks m (nl + ne)) (length cs)) \<le> cdiv (nl + ne) (m_block_size m)"
proof -
  have "get_num_skipped_tokens m (nl + ne) div m_block_size m \<le> (nl + ne) div m_block_size m"
    using skipped_le [OF assms(1), of "nl + ne"] assms(3,4) b by (intro zdiv_mono1) auto
  moreover have "0 \<le> cdiv (nl + ne) (m_block_size m)" using assms by (intro cdiv_nonneg) auto
  ultimately have "int (skipped_blocks m (nl + ne)) \<le> cdiv (nl + ne) (m_block_size m)"
    using cdiv_ge_div [OF b, of "nl + ne"] by (simp add: skipped_blocks_def)
  moreover have "int (length cs) * m_block_size m \<le> cdiv (nl + ne) (m_block_size m) * m_block_size m"
    using cs assms(4) cdiv_upper [OF b, of "nl + ne"] by linarith
  then have "int (length cs) \<le> cdiv (nl + ne) (m_block_size m)" using b by simp
  ultimately show ?thesis by simp
qed

lemma speculative_nonneg:
  assumes "mgr_wf s m" and "m_block_size m = layer_block_size (m_spec m)"
  shows "0 \<le> speculative_tokens m"
  using assms by (cases "m_spec m") (auto simp: speculative_tokens_def mgr_wf_def)

text \<open>The capacity check is exact: a new request for which it succeeds gets all its blocks.\<close>

lemma new_request_capacity:
  assumes inv: "mgr_inv R s m" and new: "fresh_request m rid" and nx: "\<not> is_cross (m_spec m)"
    and hit: "hit_blocks_ok s cs" and caching: "enable_caching s \<or> cs = []"
    and need: "get_num_blocks_to_allocate m s rid n cs (nl + ne) = Inr need" and cap: "need \<le> get_num_free_blocks s"
    and nl: "0 \<le> nl" and ne: "0 \<le> ne" and cs: "int (length cs) * m_block_size m \<le> nl"
    and n: "nl + ne \<le> n + speculative_tokens m"
  shows "\<exists>m1 s1 blks m2 s2. allocate_new_computed_blocks rid cs nl ne (m, s) = Inr (m1, s1)
    \<and> allocate_new_blocks rid n (m1, s1) = Inr (blks, m2, s2) \<and> mgr_inv R s2 m2 \<and> mgr_frame R s m s2 m2
    \<and> int (length (blocks_of_request m2 rid)) = cdiv (n + speculative_tokens m) (m_block_size m)
    \<and> get_num_free_blocks s2 = get_num_free_blocks s - need"
proof -
  have wf: "window_ok (m_spec m)" "0 < m_block_size m" using mgr_inv_wf [OF inv] by (simp_all add: mgr_wf_def)
  define len where "len = max (skipped_blocks m (nl + ne)) (length cs)"
  define req where "req = cdiv (n + speculative_tokens m) (m_block_size m)"
  have len: "int len \<le> cdiv (nl + ne) (m_block_size m)"
    unfolding len_def using table_fits [OF wf nl ne cs] .
  have req: "cdiv (nl + ne) (m_block_size m) \<le> req" unfolding req_def using n wf(2) by (intro cdiv_mono)
  have "max (get_num_skipped_tokens m (nl + ne) div m_block_size m) (int (length cs)) = int len"
    by (auto simp: len_def skipped_blocks_def)
  then have need_eq: "need = req - int len + evictable s (drop (skipped_blocks m (nl + ne)) cs)"
    using need len req unfolding num_blocks_new_request [OF new] req_def [symmetric]
    by (auto simp: max_def split: if_splits)
  have ext: "0 \<le> external_blocks m nl ne len" "external_blocks m nl ne len \<le> req - int len"
    using len req by (auto simp: external_blocks_def Let_def)
  obtain m1 s1 where s1: "allocate_new_computed_blocks rid cs nl ne (m, s) = Inr (m1, s1)" "mgr_inv R s1 m1"
    "mgr_frame R s m s1 m1" "int (length (blocks_of_request m1 rid)) = int len + external_blocks m nl ne len"
    "m_spec m1 = m_spec m" "m_block_size m1 = m_block_size m"
    "get_num_free_blocks s1 = get_num_free_blocks s
        - evictable s (drop (skipped_blocks m (nl + ne)) cs) - external_blocks m nl ne len"
    using allocate_new_computed_blocks_ok [OF inv new nx hit caching len_def ext(1)] cap ext(2) need_eq by auto
  have miss: "missing_blocks m1 rid n = req - int len - external_blocks m nl ne len"
    using ext(2) s1(4-6) by (simp add: missing_blocks_def req_def speculative_tokens_def)
  have cap1: "missing_blocks m1 rid n \<le> get_num_free_blocks s1" using miss s1(7) cap need_eq by simp
  obtain blks m2 s2 where s2: "allocate_new_blocks rid n (m1, s1) = Inr (blks, m2, s2)" "mgr_inv R s2 m2"
    "mgr_frame R s1 m1 s2 m2" "blocks_of_request m2 rid = blocks_of_request m1 rid @ blks"
    "int (length blks) = missing_blocks m1 rid n"
    "get_num_free_blocks s2 = get_num_free_blocks s1 - missing_blocks m1 rid n"
    using allocate_new_blocks_ok [OF s1(2) cap1] by blast
  have "int (length (blocks_of_request m2 rid)) = req" using s2(4,5) s1(4) miss by simp
  moreover have "get_num_free_blocks s2 = get_num_free_blocks s - need" using s2(6) s1(7) miss need_eq by simp
  moreover have "mgr_frame R s m s2 m2" by (rule mgr_frame_trans [OF s1(3) s2(3)])
  ultimately show ?thesis using s1(1) s2(1,2) unfolding req_def by blast
qed

section \<open>Several managers\<close>

definition pool_ok :: "block_pool \<Rightarrow> bref multiset \<Rightarrow> bool" where
  "pool_ok s T \<longleftrightarrow> (\<exists>fl. pool_inv s fl) \<and> counted s T \<and> (\<not> enable_caching s \<longrightarrow> no_hashes s)"

text \<open>Somebody whose references change from \<open>H\<close> to \<open>H'\<close> leaves the unhashed blocks of \<open>R\<close> alone.\<close>

definition held_frame :: "bref multiset \<Rightarrow> block_pool \<Rightarrow> bref multiset \<Rightarrow> block_pool \<Rightarrow> bref multiset \<Rightarrow> bool" where
  "held_frame R s H s' H' \<longleftrightarrow> static s' = static s
     \<and> (\<forall>b. b \<in># R \<and> hashes s b = None \<and> b \<notin># H \<longrightarrow> hashes s' b = None \<and> b \<notin># H')"

lemma mgr_frame_held: "mgr_frame R s m s' m' = held_frame R s (mgr_held s m) s' (mgr_held s' m')"
  by (simp add: mgr_frame_def held_frame_def)

lemma held_frame_refl [simp]: "held_frame R s H s H"
  by (simp add: held_frame_def)

lemma held_frame_static: "held_frame R s H s' H' \<Longrightarrow> static s' = static s"
  by (simp add: held_frame_def)

lemma held_frame_trans: "held_frame R s H s1 H1 \<Longrightarrow> held_frame R s1 H1 s2 H2 \<Longrightarrow> held_frame R s H s2 H2"
  unfolding held_frame_def by metis

lemma mgr_inv_pool: "mgr_inv R s m \<Longrightarrow> pool_ok s (R + mgr_held s m)"
proof -
  assume inv: "mgr_inv R s m"
  have d: "distinct (map fst (req_to_blocks m))" using mgr_inv_wf [OF inv] by (simp add: mgr_wf_def)
  show ?thesis using mgr_cell [OF inv, of "[]"] mgr_held_split [OF d, of s "[]"]
    by (simp add: cell_inv_def pool_ok_def ac_simps)
qed

lemma mgr_held_static: "static s' = static s \<Longrightarrow> mgr_held s' m = mgr_held s m"
  unfolding mgr_held_def by (rule alist_held_static)

lemma mgr_other:
  assumes other: "mgr_inv (Q + H) s m2" and pool: "pool_ok s' (Q + mgr_held s m2 + H')"
    and frame: "held_frame (Q + mgr_held s m2) s H s' H'"
  shows "mgr_inv (Q + H') s' m2"
proof -
  have st: "static s' = static s" using frame by (rule held_frame_static)
  have wf: "mgr_wf s m2" using other by (rule mgr_inv_wf)
  have d: "distinct (map fst (req_to_blocks m2))" using wf by (simp add: mgr_wf_def)
  have "mgr_wf s' m2" using wf st by (simp add: mgr_wf_def static_eq)
  moreover have "cell_inv (Q + H' + others s' m2 rid) s' (blocks_of_request m2 rid) (ncached m2 rid)" for rid
  proof -
    let ?bs = "blocks_of_request m2 rid"
    have o: "others s' m2 rid = others s m2 rid" by (simp add: others_def alist_held_static [OF st])
    have c: "cell_inv (Q + H + others s m2 rid) s ?bs (ncached m2 rid)"
      using other by (simp add: mgr_inv_def)
    have "private_block (Q + H' + others s m2 rid) s' b" if b: "b \<in> set (drop (ncached m2 rid) ?bs)" for b
    proof (cases "b = null_block s")
      case False
      then have p: "hashes s b = None" "b \<notin># Q" "b \<notin># H" "b \<notin># others s m2 rid"
        using c b by (auto simp: cell_inv_def private_block_def)
      have "b \<in># held s ?bs" using b False by (auto dest: in_set_dropD)
      then have "b \<in># mgr_held s m2" unfolding mgr_held_split [OF d, of s rid] by simp
      then have "hashes s' b = None" "b \<notin># H'"
        using frame p unfolding held_frame_def by (meson union_iff)+
      then show ?thesis using p by (simp add: private_block_def)
    qed (simp add: private_block_def null_static [OF st])
    moreover have "counted s' ((Q + H' + others s m2 rid) + held s' ?bs)"
      using pool unfolding pool_ok_def mgr_held_split [OF d, of s rid] held_static [OF st]
      by (simp add: ac_simps)
    ultimately show ?thesis
      using c pool table_ok_static [OF st, of ?bs] unfolding cell_inv_def o pool_ok_def by blast
  qed
  ultimately show ?thesis by (simp add: mgr_inv_def)
qed

section \<open>Properties\<close>

text \<open>The tokens a manager must keep to compute the token at position \<open>c\<close>: the window of the
  attention type; for Mamba the state after the last computed token.\<close>

definition in_window :: "layer_spec \<Rightarrow> int \<Rightarrow> int \<Rightarrow> bool" where
  "in_window spec c t \<longleftrightarrow>
     (case spec of
        SlidingWindowSpec _ w \<Rightarrow> c - w < t
      | ChunkedLocalAttentionSpec _ w \<Rightarrow> t div w = c div w
      | MambaSpec _ _ _ _ _ _ \<Rightarrow> t = c - 1
      | _ \<Rightarrow> True)"

lemma in_window_not_skipped:
  assumes "in_window (m_spec m) c t" and "window_ok (m_spec m)" and "0 \<le> t"
  shows "get_num_skipped_tokens m c \<le> t"
proof (cases "m_spec m")
  case (ChunkedLocalAttentionSpec a w)
  then have w: "0 < w" "t div w = c div w" using assms by (simp_all add: in_window_def)
  then show ?thesis using ChunkedLocalAttentionSpec le_div_iff_int [of w "c div w" t]
    by (simp add: get_num_skipped_tokens_def)
qed (use assms in \<open>auto simp: get_num_skipped_tokens_def in_window_def\<close>)

text \<open>C11: removing the blocks that fell out of the attention window never fails and never touches a
  block that still holds a token inside the window of the next token, for every attention type.\<close>

theorem window_blocks_kept:
  assumes "mgr_inv R s m" and "in_window (m_spec m) c t" and "0 \<le> t"
    and "nat t div nat (m_block_size m) < length (blocks_of_request m rid)"
  shows "\<exists>m' s'. remove_skipped_blocks rid c (m, s) = Inr (m', s') \<and> mgr_inv R s' m'
    \<and> blocks_of_request m' rid ! (nat t div nat (m_block_size m)) = blocks_of_request m rid ! (nat t div nat (m_block_size m))"
proof -
  let ?bs = "blocks_of_request m rid" and ?i = "nat t div nat (m_block_size m)"
  have wf: "m_null_block m = null_block s" "window_ok (m_spec m)" "0 < m_block_size m"
    using mgr_inv_wf [OF assms(1)] by (simp_all add: mgr_wf_def)
  obtain m' s' where r: "remove_skipped_blocks rid c (m, s) = Inr (m', s')" "mgr_inv R s' m'"
    using remove_skipped_blocks_ok [OF assms(1)] by blast
  have "get_num_skipped_tokens m c div m_block_size m \<le> t div m_block_size m"
    using in_window_not_skipped [OF assms(2) wf(2) assms(3)] wf(3) by (intro zdiv_mono1)
  moreover have "int ?i = t div m_block_size m" using assms(3) wf(3) by (simp add: zdiv_int)
  ultimately have i: "nat (min (get_num_skipped_tokens m c div m_block_size m) (int (length ?bs))) \<le> ?i" by linarith
  have "blocks_of_request m' rid ! ?i = ?bs ! ?i"
  proof (cases "get_num_skipped_tokens m c \<le> 0")
    case True
    then show ?thesis using r(1) by (simp add: remove_skipped_blocks_def)
  next
    case False
    define k where "k = nat (min (get_num_skipped_tokens m c div m_block_size m) (int (length ?bs)))"
    obtain rm bs' where sk: "skip_loop (null_block s) k ?bs = (rm, bs')" by fastforce
    have "blocks_of_request m' rid = bs'"
      using r(1) False sk by (auto simp: remove_skipped_blocks_def wf(1) k_def Let_def)
    moreover have "k \<le> length ?bs" by (simp add: k_def)
    ultimately show ?thesis using skip_loop_ok [OF _ sk] i assms(4) by (auto simp: k_def)
  qed
  then show ?thesis using r by blast
qed

definition sample_manager :: "layer_spec \<Rightarrow> st_manager" where
  "sample_manager spec = SingleTypeKVCacheManager spec (sample_pool 4) True 0 1 1"

lemma sample_pool_null: "null_block (sample_pool 4) = Blk 0"
  using sample_pool_free by (simp add: pool_inv_def pool_core_def pool_ids_def)

lemma sample_pool_refs: "b \<in> usable (sample_pool 4) \<Longrightarrow> refs (sample_pool 4) b = 0"
proof -
  assume "b \<in> usable (sample_pool 4)"
  moreover have "usable (sample_pool 4) = set [Blk 1, Blk 2, Blk 3]"
    using sample_pool_init(6) [of 4] by (auto simp: usable_def)
  ultimately show ?thesis
    using sample_pool_free by (simp only: pool_inv_def pool_core_def refs_ok_def) blast
qed

lemma sample_manager_inv:
  assumes "0 < layer_block_size spec" and "window_ok spec"
  shows "mgr_inv {#} (sample_pool 4) (sample_manager spec)"
  using assms sample_pool_free sample_pool_init(3) [of 4] sample_pool_refs
  by (auto simp: mgr_inv_def mgr_wf_def cell_inv_def counted_def table_ok_def blocks_of_request_def ncached_def
      others_def alist_held_def sample_manager_def SingleTypeKVCacheManager_def)

theorem window_blocks_kept_witness:
  "\<exists>new m s m' s'. allocate_new_blocks ''r'' 3 (sample_manager (SlidingWindowSpec (sample_attention\<lparr>as_block_size := 1\<rparr>) 2), sample_pool 4)
      = Inr (new, m, s) \<and> length new = 3
    \<and> remove_skipped_blocks ''r'' 2 (m, s) = Inr (m', s') \<and> blocks_of_request m' ''r'' ! 2 = blocks_of_request m ''r'' ! 2"
proof -
  let ?spec = "SlidingWindowSpec (sample_attention\<lparr>as_block_size := 1\<rparr>) 2"
  have inv: "mgr_inv {#} (sample_pool 4) (sample_manager ?spec)" by (rule sample_manager_inv) simp_all
  have miss: "missing_blocks (sample_manager ?spec) ''r'' 3 = 3"
    by (simp add: missing_blocks_def sample_manager_def SingleTypeKVCacheManager_def speculative_tokens_def
        blocks_of_request_def cdiv_def)
  moreover have "get_num_free_blocks (sample_pool 4) = 3"
    using num_free_of_pool_core [of "sample_pool 4" "[Blk 1, Blk 2, Blk 3]" "{}"] sample_pool_free by (simp add: pool_inv_def)
  ultimately obtain new m s where a: "allocate_new_blocks ''r'' 3 (sample_manager ?spec, sample_pool 4) = Inr (new, m, s)"
    "mgr_inv {#} s m" "blocks_of_request m ''r'' = blocks_of_request (sample_manager ?spec) ''r'' @ new" "length new = 3"
    "m = rtb_set ''r'' (blocks_of_request (sample_manager ?spec) ''r'' @ new) (sample_manager ?spec)"
    using allocate_new_blocks_ok [OF inv, of "''r''" 3] by auto
  have ms: "m_spec m = ?spec" "m_block_size m = 1"
    by (simp_all add: a(5) sample_manager_def SingleTypeKVCacheManager_def)
  then show ?thesis
    using window_blocks_kept [OF a(2), of 2 2 "''r''"] a(1,3,4) by (auto simp: in_window_def)
qed

text \<open>A manager with attention sinks takes its sink blocks from the free queue without counting a
  reference; from then on the prefix cache of the pool cannot be reset, although no request holds a
  block.\<close>

theorem sink_blocks_disable_reset:
  assumes "pool_inv s fl" and "m_block_size m = 1" and "0 < k" and "k \<le> length fl"
  shows "\<exists>m' s'. SinkFullAttentionManager_init (Some (int k)) m s = Inr (m', s')
    \<and> (\<forall>b. ref_cnt (heap s' b) = ref_cnt (heap s b)) \<and> reset_prefix_cache s' = (False, s')"
proof -
  have fr: "free_rel s fl" using assms(1) by (simp add: pool_inv_def pool_core_def)
  obtain s' where s': "popleft_n (int k) s = Inr (take k fl, s')" "free_rel s' (drop k fl)" "fq_data s' = fq_data s"
    using fq.pop_n_take [OF fr assms(4)] by blast
  note obs = fq_data_pool [OF s'(3)]
  have "num_gpu_blocks s' = num_gpu_blocks s" using obs(4) by (simp add: static_eq)
  moreover have "get_num_free_blocks s' = int (length fl) - int k"
    using s'(2) assms(4) by (simp add: free_rel_def get_num_free_blocks_def)
  moreover have "int (length fl) \<le> num_gpu_blocks s - 1" by (rule used_blocks(1) [OF assms(1)])
  ultimately have "reset_prefix_cache s' = (False, s')" using assms(3) by (simp add: reset_prefix_cache_def)
  then show ?thesis using s'(1) obs(1) assms(2,3) by (simp add: SinkFullAttentionManager_init_def)
qed

theorem sink_blocks_disable_reset_witness:
  "\<exists>m' s'. SinkFullAttentionManager_init (Some (int 1))
      (sample_manager (SinkFullAttentionSpec (sample_attention\<lparr>as_block_size := 1\<rparr>)
        \<lparr>head_size_v = 1, full_sliding_window = None, full_attention_chunk_size = None\<rparr> (Some 1))) (sample_pool 4) = Inr (m', s')
    \<and> (\<forall>b. ref_cnt (heap s' b) = ref_cnt (heap (sample_pool 4) b)) \<and> reset_prefix_cache s' = (False, s')"
  by (rule sink_blocks_disable_reset [OF sample_pool_free]) (simp_all add: sample_manager_def SingleTypeKVCacheManager_def)

end
