(* ===== verification/Cache_Hit.thy ===== *)
theory Cache_Hit
  imports Single_Type
begin

text \<open>
  The prefix cache lookups \<open>find_longest_cache_hit\<close> of the managers in
  \<open>vllm/v1/core/single_type_kv_cache_manager.py\<close>, one per attention type.  A lookup returns one list
  of blocks per KV cache group; blocks outside the attention window are the null block.  The loops
  of the source are recursive functions on the block index; the tuple of lists that the source
  mutates is passed along.
\<close>

section \<open>Block hash lists\<close>

datatype bh_list = Plain "bytes list" | Scaled block_hash_list

fun bh_len :: "bh_list \<Rightarrow> nat" where
  "bh_len (Plain hs) = length hs"
| "bh_len (Scaled l) = bhl_len l"

fun bh_get :: "bh_list \<Rightarrow> nat \<Rightarrow> bytes result" where
  "bh_get (Plain hs) i = py_index hs (int i)"
| "bh_get (Scaled l) i = bhl_get_value_at l i"

section \<open>Full attention\<close>

text \<open>\<open>get_cached_block\<close> in a condition: a non-empty list of blocks.\<close>

definition lookup :: "block_pool \<Rightarrow> int list \<Rightarrow> bh_list \<Rightarrow> nat \<Rightarrow> bref list option result" where
  "lookup s gids bh i =
     rbind (bh_get bh i) (\<lambda>h. rbind (get_cached_block s h gids) (\<lambda>ob.
       Inr (case ob of Some (b # bs) \<Rightarrow> Some (b # bs) | _ \<Rightarrow> None)))"

fun full_scan ::
  "block_pool \<Rightarrow> int list \<Rightarrow> bh_list \<Rightarrow> nat \<Rightarrow> nat \<Rightarrow> bref list list \<Rightarrow> bref list list result" where
  "full_scan s gids bh i 0 computed = Inr computed"
| "full_scan s gids bh i (Suc n) computed =
     (if bh_len bh \<le> i then Inr computed
      else rbind (lookup s gids bh i) (\<lambda>ob.
        case ob of
          None \<Rightarrow> Inr computed
        | Some cached \<Rightarrow> full_scan s gids bh (i + 1) n (map2 (\<lambda>c b. c @ [b]) computed cached)))"

text \<open>Popping the last block of every group until the length is aligned.\<close>

function align_loop :: "int \<Rightarrow> int \<Rightarrow> bref list list \<Rightarrow> bref list list result" where
  "align_loop bs al computed =
     (case computed of
        [] \<Rightarrow> Inl IndexError
      | c # _ \<Rightarrow>
          if bs \<noteq> al \<and> int (length c) * bs mod al \<noteq> 0 then align_loop bs al (map butlast computed)
          else Inr computed)"
  by pat_completeness auto
termination
proof (relation "measure (\<lambda>(bs, al, computed). length (hd computed))")
  fix bs al computed and c :: "bref list" and cs
  assume "computed = c # cs" "bs \<noteq> al \<and> int (length c) * bs mod al \<noteq> 0"
  then have "c \<noteq> []" by auto
  then show "((bs, al, map butlast computed), bs, al, computed) \<in> measure (\<lambda>(bs, al, computed). length (hd computed))"
    using \<open>computed = c # cs\<close> by simp
qed simp

declare align_loop.simps [simp del]

text \<open>\<open>if use_eagle and computed_blocks[0]\<close>.\<close>

definition eagle_drop :: "bool \<Rightarrow> bref list list \<Rightarrow> bref list list result" where
  "eagle_drop use_eagle computed =
     (if \<not> use_eagle then Inr computed
      else case computed of
        [] \<Rightarrow> Inl IndexError
      | c # _ \<Rightarrow> Inr (if c \<noteq> [] then map butlast computed else computed))"

definition find_full ::
  "bh_list \<Rightarrow> int \<Rightarrow> int list \<Rightarrow> block_pool \<Rightarrow> layer_spec \<Rightarrow> bool \<Rightarrow> int \<Rightarrow> int \<Rightarrow> int \<Rightarrow> bref list list result" where
  "find_full bh max_length gids s spec use_eagle al dcp pcp =
     (let bs = (if 1 < dcp * pcp then layer_block_size spec * (dcp * pcp) else layer_block_size spec);
          max_num_blocks = max_length div bs
      in if max_num_blocks < 0 then Inl ValueError
         else rbind (full_scan s gids bh 0 (nat max_num_blocks) (replicate (length gids) []))
           (\<lambda>computed. rbind (eagle_drop use_eagle computed) (align_loop bs al)))"

section \<open>Sliding window\<close>

text \<open>The search from right to left; the result is the lists, the number of contiguous hits and
  whether a match was found.\<close>

fun sw_scan ::
  "block_pool \<Rightarrow> int list \<Rightarrow> bh_list \<Rightarrow> int \<Rightarrow> int \<Rightarrow> int \<Rightarrow> nat \<Rightarrow> bref list list \<Rightarrow> nat \<Rightarrow>
   (bref list list \<times> nat \<times> bool) result" where
  "sw_scan s gids bh needed bs al 0 computed k = Inr (computed, k, False)"
| "sw_scan s gids bh needed bs al (Suc i) computed k =
     rbind (lookup s gids bh i) (\<lambda>ob.
       case ob of
         None \<Rightarrow> sw_scan s gids bh needed bs al i computed 0
       | Some cached \<Rightarrow>
           if k = 0 \<and> bs \<noteq> al \<and> (int i + 1) * bs mod al \<noteq> 0
           then sw_scan s gids bh needed bs al i computed k
           else
             let computed' = map2 (\<lambda>c b. c[i := b]) computed cached; k' = k + 1
             in if needed \<le> int k' then Inr (map (take (i + k')) computed', k', True)
                else sw_scan s gids bh needed bs al i computed' k')"

definition find_sliding_window ::
  "bh_list \<Rightarrow> int \<Rightarrow> int list \<Rightarrow> block_pool \<Rightarrow> layer_spec \<Rightarrow> bool \<Rightarrow> int \<Rightarrow> int \<Rightarrow> int \<Rightarrow> bref list list result" where
  "find_sliding_window bh max_length gids s spec use_eagle al dcp pcp =
     (case spec of
        SlidingWindowSpec a w \<Rightarrow>
          py_assert (dcp = 1) (py_assert (pcp = 1)
            (let bs = as_block_size a;
                 contiguous = cdiv (w - 1) bs + (if use_eagle then 1 else 0);
                 max_num_blocks = nat (max_length div bs)
             in rbind (sw_scan s gids bh contiguous bs al max_num_blocks
                        (replicate (length gids) (replicate max_num_blocks (null_block s))) 0)
                  (\<lambda>(computed, k, match_found).
                    rbind (if match_found then Inr computed else align_loop bs al (map (take k) computed))
                      (\<lambda>computed1.
                        if use_eagle \<and> computed1 = [] then Inl IndexError
                        else if use_eagle \<and> hd computed1 \<noteq> []
                        then py_assert (bs = al) (Inr (map butlast computed1))
                        else Inr computed1))))
      | _ \<Rightarrow> Inl AssertionError)"

section \<open>Chunked local attention\<close>

fun chunk_scan ::
  "block_pool \<Rightarrow> int list \<Rightarrow> bh_list \<Rightarrow> nat \<Rightarrow> nat \<Rightarrow> bref list list \<Rightarrow> bref list list result" where
  "chunk_scan s gids bh i 0 computed = Inr computed"
| "chunk_scan s gids bh i (Suc n) computed =
     rbind (lookup s gids bh i) (\<lambda>ob.
       case ob of
         None \<Rightarrow> Inr computed
       | Some cached \<Rightarrow> chunk_scan s gids bh (i + 1) n (map2 (\<lambda>c b. c @ [b]) computed cached))"

definition find_chunked ::
  "bh_list \<Rightarrow> int \<Rightarrow> int list \<Rightarrow> block_pool \<Rightarrow> layer_spec \<Rightarrow> bool \<Rightarrow> int \<Rightarrow> int \<Rightarrow> int \<Rightarrow> bref list list result" where
  "find_chunked bh max_length gids s spec use_eagle al dcp pcp =
     (case spec of
        ChunkedLocalAttentionSpec a chunk \<Rightarrow>
          py_assert (\<not> use_eagle) (py_assert (dcp = 1) (py_assert (pcp = 1) (py_assert (as_block_size a = al)
            (let bs = as_block_size a;
                 max_num_blocks = max_length div bs;
                 local_attention_start_idx = (if 0 < max_length then max_length div chunk * chunk else 0);
                 start = nat (local_attention_start_idx div bs)
             in chunk_scan s gids bh start (nat max_num_blocks - start)
                  (replicate (length gids) (replicate start (null_block s)))))))
      | _ \<Rightarrow> Inl AssertionError)"

section \<open>Mamba and cross attention\<close>

fun mamba_scan ::
  "block_pool \<Rightarrow> int list \<Rightarrow> bh_list \<Rightarrow> int \<Rightarrow> int \<Rightarrow> nat \<Rightarrow> bref list list result" where
  "mamba_scan s gids bh bs al 0 = Inr (replicate (length gids) [])"
| "mamba_scan s gids bh bs al (Suc i) =
     rbind (lookup s gids bh i) (\<lambda>ob.
       case ob of
         None \<Rightarrow> mamba_scan s gids bh bs al i
       | Some cached \<Rightarrow>
           if bs \<noteq> al \<and> (int i + 1) * bs mod al \<noteq> 0 then mamba_scan s gids bh bs al i
           else Inr (map (\<lambda>b. replicate i (null_block s) @ [b]) cached))"

definition find_mamba ::
  "bh_list \<Rightarrow> int \<Rightarrow> int list \<Rightarrow> block_pool \<Rightarrow> layer_spec \<Rightarrow> bool \<Rightarrow> int \<Rightarrow> int \<Rightarrow> int \<Rightarrow> bref list list result" where
  "find_mamba bh max_length gids s spec use_eagle al dcp pcp =
     (case spec of
        MambaSpec b _ _ _ _ _ \<Rightarrow>
          py_assert (dcp = 1) (py_assert (pcp = 1)
            (mamba_scan s gids bh b al (nat (max_length div b))))
      | _ \<Rightarrow> Inl AssertionError)"

text \<open>The class method of the manager class that \<open>spec_manager_map\<close> gives for the spec.\<close>

definition find_longest_cache_hit ::
  "bh_list \<Rightarrow> int \<Rightarrow> int list \<Rightarrow> block_pool \<Rightarrow> layer_spec \<Rightarrow> bool \<Rightarrow> int \<Rightarrow> int \<Rightarrow> int \<Rightarrow> bref list list result" where
  "find_longest_cache_hit bh max_length gids s spec use_eagle al dcp pcp =
     (case spec of
        SlidingWindowSpec _ _ \<Rightarrow> find_sliding_window bh max_length gids s spec use_eagle al dcp pcp
      | ChunkedLocalAttentionSpec _ _ \<Rightarrow> find_chunked bh max_length gids s spec use_eagle al dcp pcp
      | MambaSpec _ _ _ _ _ _ \<Rightarrow> find_mamba bh max_length gids s spec use_eagle al dcp pcp
      | CrossAttentionSpec _ \<Rightarrow> Inl NotImplementedError
      | EncoderOnlyAttentionSpec _ \<Rightarrow> Inl KeyError
      | _ \<Rightarrow> find_full bh max_length gids s spec use_eagle al dcp pcp)"

section \<open>Hits\<close>

fun bh_vals :: "bh_list \<Rightarrow> bytes list" where
  "bh_vals (Plain hs) = hs"
| "bh_vals (Scaled l) =
     map (\<lambda>i. concat (take (scale_factor l) (drop (i * scale_factor l) (bhl_hashes l)))) [0..<bhl_len l]"

fun bh_wf :: "bh_list \<Rightarrow> bool" where
  "bh_wf (Plain _) = True"
| "bh_wf (Scaled l) \<longleftrightarrow> 0 < scale_factor l"

lemma bh_get_ok: "bh_wf bh \<Longrightarrow> i < bh_len bh \<Longrightarrow> bh_get bh i = Inr (bh_vals bh ! i)"
  by (cases bh) (simp_all add: bhl_get_value_at_concat)

text \<open>Block \<open>b\<close> holds what group \<open>g\<close> needs at position \<open>i\<close>.\<close>

definition is_hit :: "block_pool \<Rightarrow> bh_list \<Rightarrow> int \<Rightarrow> nat \<Rightarrow> bref \<Rightarrow> bool" where
  "is_hit s bh g i b \<longleftrightarrow> b \<in> usable s \<and> hashes s b = Some (packed g (bh_vals bh ! i))"

definition hit_at :: "block_pool \<Rightarrow> int list \<Rightarrow> bh_list \<Rightarrow> nat \<Rightarrow> bool" where
  "hit_at s gids bh i \<longleftrightarrow> (\<forall>g \<in> set gids. \<exists>b. is_hit s bh g i b)"

text \<open>The setting of a lookup.\<close>

definition lookup_ok :: "block_pool \<Rightarrow> int list \<Rightarrow> bh_list \<Rightarrow> bool" where
  "lookup_ok s gids bh \<longleftrightarrow> cache_ok s \<and> gids \<noteq> [] \<and> (\<forall>g \<in> set gids. group_id_ok g) \<and> bh_wf bh"

lemma lookup_cases:
  assumes ok: "lookup_ok s gids bh" and i: "i < bh_len bh"
  obtains (miss) "lookup s gids bh i = Inr None" "\<not> hit_at s gids bh i"
  | (hit) bs where "lookup s gids bh i = Inr (Some bs)" "hit_at s gids bh i" "length bs = length gids"
      "\<And>j. j < length gids \<Longrightarrow> is_hit s bh (gids ! j) i (bs ! j)"
proof -
  have h: "bh_get bh i = Inr (bh_vals bh ! i)" using bh_get_ok ok i by (simp add: lookup_ok_def)
  have c: "cache_ok s" and g: "\<forall>g \<in> set gids. group_id_ok g" using ok by (simp_all add: lookup_ok_def)
  from get_cached_block_ok [OF c g, of "bh_vals bh ! i"]
  obtain res where res: "get_cached_block s (bh_vals bh ! i) gids = Inr res"
    "\<forall>bs. res = Some bs \<longrightarrow> list_all2 (\<lambda>g b. b \<in> usable s \<and> hashes s b = Some (packed g (bh_vals bh ! i))) gids bs"
    "res = None \<longrightarrow> (\<exists>g \<in> set gids. \<forall>b \<in> usable s. hashes s b \<noteq> Some (packed g (bh_vals bh ! i)))" by blast
  show thesis
  proof (cases res)
    case None
    then have "\<not> hit_at s gids bh i" using res(3) by (auto simp: hit_at_def is_hit_def)
    then show thesis using miss None res(1) h by (simp add: lookup_def)
  next
    case (Some bs)
    then have l2: "list_all2 (\<lambda>g b. is_hit s bh g i b) gids bs" using res(2) by (simp add: is_hit_def)
    then have len: "length bs = length gids" by (simp add: list_all2_lengthD)
    then obtain b rest where "bs = b # rest" using ok by (cases bs) (auto simp: lookup_ok_def)
    then have "lookup s gids bh i = Inr (Some bs)" using Some res(1) h by (simp add: lookup_def)
    moreover have all: "is_hit s bh (gids ! j) i (bs ! j)" if "j < length gids" for j
      using l2 that by (simp add: list_all2_conv_all_nth)
    then have "hit_at s gids bh i" unfolding hit_at_def by (metis in_set_conv_nth)
    ultimately show thesis using hit len all by blast
  qed
qed

text \<open>\<open>L\<close> blocks per group, hits at the indices \<open>E\<close> and hits or null blocks elsewhere.\<close>

definition cols_ok ::
  "block_pool \<Rightarrow> int list \<Rightarrow> bh_list \<Rightarrow> (nat \<Rightarrow> bool) \<Rightarrow> nat \<Rightarrow> bref list list \<Rightarrow> bool" where
  "cols_ok s gids bh E L cols \<longleftrightarrow> length cols = length gids
     \<and> (\<forall>j < length gids. length (cols ! j) = L
          \<and> (\<forall>i < L. is_hit s bh (gids ! j) i (cols ! j ! i) \<or> cols ! j ! i = null_block s \<and> \<not> E i))"

lemma cols_ok_weaken: "cols_ok s gids bh E L cols \<Longrightarrow> (\<And>i. i < L \<Longrightarrow> E' i \<Longrightarrow> E i) \<Longrightarrow> cols_ok s gids bh E' L cols"
  unfolding cols_ok_def by blast

lemma cols_ok_take: "cols_ok s gids bh E L cols \<Longrightarrow> k \<le> L \<Longrightarrow> cols_ok s gids bh E k (map (take k) cols)"
  unfolding cols_ok_def by auto

lemma cols_ok_butlast: "cols_ok s gids bh E L cols \<Longrightarrow> cols_ok s gids bh E (L - 1) (map butlast cols)"
  unfolding cols_ok_def by (auto simp: nth_butlast)

lemma cols_ok_append:
  assumes "cols_ok s gids bh E L cols" and "length bs = length gids"
    and "\<And>j. j < length gids \<Longrightarrow> is_hit s bh (gids ! j) L (bs ! j)"
  shows "cols_ok s gids bh E (Suc L) (map2 (\<lambda>c b. c @ [b]) cols bs)"
  using assms unfolding cols_ok_def by (auto simp: nth_append less_Suc_eq)

lemma cols_ok_update:
  assumes "cols_ok s gids bh E L cols" and "length bs = length gids" and "i < L"
    and "\<And>j. j < length gids \<Longrightarrow> is_hit s bh (gids ! j) i (bs ! j)"
  shows "cols_ok s gids bh (\<lambda>x. E x \<or> x = i) L (map2 (\<lambda>c b. c[i := b]) cols bs)"
  using assms unfolding cols_ok_def by (auto simp: nth_list_update)

lemma cols_ok_nulls: "cols_ok s gids bh (\<lambda>_. False) n (replicate (length gids) (replicate n (null_block s)))"
  by (auto simp: cols_ok_def)

lemma cols_ok_hd: "cols_ok s gids bh E L cols \<Longrightarrow> gids \<noteq> [] \<Longrightarrow> cols \<noteq> [] \<and> length (hd cols) = L"
  unfolding cols_ok_def by (cases cols) force+

lemma align_loop_ok:
  assumes "cols_ok s gids bh E L cols" and g: "gids \<noteq> []"
  shows "\<exists>cols' L'. align_loop bs al cols = Inr cols' \<and> cols_ok s gids bh E L' cols' \<and> L' \<le> L
    \<and> (bs \<noteq> al \<longrightarrow> int L' * bs mod al = 0) \<and> (bs = al \<longrightarrow> L' = L)"
  using assms(1)
proof (induction L arbitrary: cols)
  case 0
  then obtain c cs where "cols = c # cs" "length c = 0" using cols_ok_hd [OF 0 g] by (cases cols) auto
  then show ?case using 0 by (subst align_loop.simps) auto
next
  case (Suc L)
  then obtain c cs where c: "cols = c # cs" "length c = Suc L" using cols_ok_hd [OF Suc.prems g] by (cases cols) auto
  show ?case
  proof (cases "bs \<noteq> al \<and> int (length c) * bs mod al \<noteq> 0")
    case True
    then have "align_loop bs al cols = align_loop bs al (map butlast cols)"
      using c(1) by (subst align_loop.simps) simp
    then show ?thesis using Suc.IH [of "map butlast cols"] cols_ok_butlast [OF Suc.prems] True by fastforce
  next
    case False
    then have "align_loop bs al cols = Inr cols" using c(1) by (subst align_loop.simps) auto
    then show ?thesis using False c(2) Suc.prems by auto
  qed
qed

lemma full_scan_ok:
  assumes ok: "lookup_ok s gids bh" and "cols_ok s gids bh (\<lambda>_. True) i cols"
  shows "\<exists>cols' L. full_scan s gids bh i n cols = Inr cols' \<and> cols_ok s gids bh (\<lambda>_. True) L cols'
    \<and> i \<le> L \<and> L \<le> i + n \<and> (L = i + n \<or> bh_len bh \<le> L \<or> \<not> hit_at s gids bh L)"
  using assms(2)
proof (induction n arbitrary: i cols)
  case (Suc n)
  show ?case
  proof (cases "bh_len bh \<le> i")
    case True
    then show ?thesis using Suc.prems by auto
  next
    case False
    then have "i < bh_len bh" by simp
    from ok this show ?thesis
    proof (cases rule: lookup_cases)
      case miss
      then show ?thesis using False Suc.prems by auto
    next
      case (hit bs)
      from Suc.IH [OF cols_ok_append [OF Suc.prems hit(3,4)]] False hit(1) show ?thesis by fastforce
    qed
  qed
qed auto

lemma find_full_ok:
  assumes ok: "lookup_ok s gids bh" and ml: "0 \<le> max_length"
    and bs: "bs = (if 1 < dcp * pcp then layer_block_size spec * (dcp * pcp) else layer_block_size spec)" "0 < bs"
  shows "\<exists>cols L. find_full bh max_length gids s spec use_eagle al dcp pcp = Inr cols
    \<and> cols_ok s gids bh (\<lambda>_. True) L cols \<and> int L * bs \<le> max_length \<and> (bs \<noteq> al \<longrightarrow> int L * bs mod al = 0)
    \<and> (\<not> use_eagle \<and> bs = al \<longrightarrow>
         L = nat (max_length div bs) \<or> bh_len bh \<le> L \<or> \<not> hit_at s gids bh L)
    \<and> (use_eagle \<longrightarrow> L = 0 \<or> int L < max_length div bs)"
proof -
  have g: "gids \<noteq> []" using ok by (simp add: lookup_ok_def)
  have n0: "0 \<le> max_length div bs" using ml bs(2) by (simp add: pos_imp_zdiv_nonneg_iff)
  have "cols_ok s gids bh (\<lambda>_. True) 0 (replicate (length gids) [])" by (simp add: cols_ok_def)
  from full_scan_ok [OF ok this, of "nat (max_length div bs)"]
  obtain c0 L0 where c0: "full_scan s gids bh 0 (nat (max_length div bs)) (replicate (length gids) []) = Inr c0"
    "cols_ok s gids bh (\<lambda>_. True) L0 c0" "L0 \<le> nat (max_length div bs)"
    "L0 = nat (max_length div bs) \<or> bh_len bh \<le> L0 \<or> \<not> hit_at s gids bh L0" by auto
  obtain c cs where hd: "c0 = c # cs" "length c = L0" using cols_ok_hd [OF c0(2) g] by (cases c0) auto
  define c1 where "c1 = (if use_eagle \<and> c \<noteq> [] then map butlast c0 else c0)"
  define L1 where "L1 = (if use_eagle then L0 - 1 else L0)"
  have e: "eagle_drop use_eagle c0 = Inr c1" using hd(1) by (simp add: eagle_drop_def c1_def)
  have c1: "cols_ok s gids bh (\<lambda>_. True) L1 c1" using c0(2) hd(2) cols_ok_butlast [OF c0(2)] by (auto simp: c1_def L1_def)
  from align_loop_ok [OF c1 g, of bs al] obtain c2 L2 where c2: "align_loop bs al c1 = Inr c2" "cols_ok s gids bh (\<lambda>_. True) L2 c2" "L2 \<le> L1"
    "bs \<noteq> al \<longrightarrow> int L2 * bs mod al = 0" "bs = al \<longrightarrow> L2 = L1"
    by (elim exE conjE)
  have le: "int L2 \<le> max_length div bs" using c2(3) c0(3) n0 by (auto simp: L1_def split: if_splits)
  then have "int L2 * bs \<le> max_length" using le_div_iff_int [OF bs(2)] by simp
  moreover have "use_eagle \<longrightarrow> L2 = 0 \<or> int L2 < max_length div bs"
    using c2(3) c0(3) n0 by (auto simp: L1_def)
  moreover have "find_full bh max_length gids s spec use_eagle al dcp pcp = Inr c2"
    using c0(1) e c2(1) n0 by (simp add: find_full_def Let_def flip: bs(1))
  ultimately show ?thesis using c2 c0(4) by (auto simp: L1_def)
qed

text \<open>What a scan that started with \<open>M\<close> candidate blocks of \<open>N\<close> returns.\<close>

definition sw_result ::
  "block_pool \<Rightarrow> int list \<Rightarrow> bh_list \<Rightarrow> int \<Rightarrow> int \<Rightarrow> int \<Rightarrow> nat \<Rightarrow> nat \<Rightarrow> (bref list list \<times> nat \<times> bool) result \<Rightarrow> bool" where
  "sw_result s gids bh needed bs al N M res \<longleftrightarrow> (\<exists>cols k found. res = Inr (cols, k, found)
    \<and> (if found
        then \<exists>L \<le> M. cols_ok s gids bh (\<lambda>x. int L - needed \<le> int x) L cols \<and> (bs = al \<or> int L * bs mod al = 0)
        else k \<le> M \<and> cols_ok s gids bh (\<lambda>x. x < k) N cols))"

lemma sw_result_mono:
  "sw_result s gids bh needed bs al N M res \<Longrightarrow> M \<le> M' \<Longrightarrow> sw_result s gids bh needed bs al N M' res"
  unfolding sw_result_def by (metis order_trans)

lemma sw_scan_ok:
  assumes ok: "lookup_ok s gids bh" and "i \<le> bh_len bh" and "i + k \<le> N"
    and "cols_ok s gids bh (\<lambda>x. i \<le> x \<and> x < i + k) N cols"
    and "k = 0 \<or> bs = al \<or> int (i + k) * bs mod al = 0"
  shows "sw_result s gids bh needed bs al N (i + k) (sw_scan s gids bh needed bs al i cols k)"
  using assms(2-5)
proof (induction i arbitrary: cols k)
  case 0
  then have "cols_ok s gids bh (\<lambda>x. x < k) N cols" by simp
  then show ?case unfolding sw_result_def by (intro exI [of _ cols] exI [of _ k] exI [of _ False]) simp
next
  case (Suc i)
  have i: "i < bh_len bh" "i \<le> bh_len bh" "i + 0 \<le> N" using Suc.prems(1,2) by simp_all
  have c0: "cols_ok s gids bh (\<lambda>x. i \<le> x \<and> x < i + 0) N cols"
    by (rule cols_ok_weaken [OF Suc.prems(3)]) simp
  have rest: "sw_result s gids bh needed bs al N (Suc i + k) (sw_scan s gids bh needed bs al i cols 0)"
    by (rule sw_result_mono [OF Suc.IH [OF i(2,3) c0]]) simp_all
  from ok i(1) show ?case
  proof (cases rule: lookup_cases)
    case miss
    then show ?thesis using rest by simp
  next
    case (hit cb)
    show ?thesis
    proof (cases "k = 0 \<and> bs \<noteq> al \<and> (int i + 1) * bs mod al \<noteq> 0")
      case True
      then show ?thesis using rest hit(1) by simp
    next
      case False
      define cols1 where "cols1 = map2 (\<lambda>c b. c[i := b]) cols cb"
      have "cols_ok s gids bh (\<lambda>x. (Suc i \<le> x \<and> x < Suc i + k) \<or> x = i) N cols1"
        unfolding cols1_def using Suc.prems(2) by (intro cols_ok_update [OF Suc.prems(3) hit(3) _ hit(4)]) auto
      then have c1: "cols_ok s gids bh (\<lambda>x. i \<le> x \<and> x < i + (k + 1)) N cols1"
        by (rule cols_ok_weaken) auto
      have al: "bs = al \<or> int (i + (k + 1)) * bs mod al = 0"
        using False Suc.prems(4) by (auto simp: add.commute)
      show ?thesis
      proof (cases "needed \<le> int (k + 1)")
        case True
        let ?L = "i + (k + 1)"
        have "cols_ok s gids bh (\<lambda>x. i \<le> x \<and> x < ?L) ?L (map (take ?L) cols1)"
          using c1 Suc.prems(2) by (intro cols_ok_take) auto
        then have "cols_ok s gids bh (\<lambda>x. int ?L - needed \<le> int x) ?L (map (take ?L) cols1)"
          by (rule cols_ok_weaken) (use True in auto)
        moreover have "?L \<le> Suc i + k" by simp
        ultimately have ex: "\<exists>L \<le> Suc i + k. cols_ok s gids bh (\<lambda>x. int L - needed \<le> int x) L (map (take ?L) cols1)
            \<and> (bs = al \<or> int L * bs mod al = 0)" using al by (intro exI [of _ ?L] conjI)
        have "sw_scan s gids bh needed bs al (Suc i) cols k = Inr (map (take ?L) cols1, k + 1, True)"
          unfolding sw_scan.simps hit(1) rbind.simps option.case if_not_P [OF False] Let_def cols1_def
          using True by (simp only: if_True)
        then show ?thesis unfolding sw_result_def
          by (intro exI [of _ "map (take ?L) cols1"] exI [of _ "k + 1"] exI [of _ True] conjI) (simp_all only: if_True ex)
      next
        case more: False
        have "sw_scan s gids bh needed bs al (Suc i) cols k = sw_scan s gids bh needed bs al i cols1 (k + 1)"
          unfolding sw_scan.simps hit(1) rbind.simps option.case if_not_P [OF False] Let_def cols1_def
          using more by (simp only: if_False)
        moreover have "i + (k + 1) \<le> N" "k + 1 = 0 \<or> bs = al \<or> int (i + (k + 1)) * bs mod al = 0"
          using Suc.prems(2) al by auto
        ultimately show ?thesis using Suc.IH [OF i(2) _ c1] by simp
      qed
    qed
  qed
qed

lemma find_sliding_window_ok:
  assumes ok: "lookup_ok s gids bh" and bs: "bs = as_block_size a" "0 < bs" and ml: "0 \<le> max_length"
    and w: "1 \<le> w" and len: "nat (max_length div bs) \<le> bh_len bh" and eagle: "use_eagle \<longrightarrow> bs = al"
  shows "\<exists>cols L. find_sliding_window bh max_length gids s (SlidingWindowSpec a w) use_eagle al 1 1 = Inr cols
    \<and> cols_ok s gids bh (\<lambda>x. int L - cdiv (w - 1) bs \<le> int x) L cols \<and> int L * bs \<le> max_length
    \<and> (bs \<noteq> al \<longrightarrow> int L * bs mod al = 0) \<and> (use_eagle \<longrightarrow> L = 0 \<or> int L < max_length div bs)"
proof -
  have g: "gids \<noteq> []" using ok by (simp add: lookup_ok_def)
  define N where "N = nat (max_length div bs)"
  have N: "int N = max_length div bs" using ml bs(2) by (simp add: N_def pos_imp_zdiv_nonneg_iff)
  define needed where "needed = cdiv (w - 1) bs + (if use_eagle then 1 else 0)"
  have c: "cols_ok s gids bh (\<lambda>x. N \<le> x \<and> x < N + 0) N (replicate (length gids) (replicate N (null_block s)))"
    by (rule cols_ok_weaken [OF cols_ok_nulls]) linarith
  have le: "N \<le> bh_len bh" "N + 0 \<le> N" using len by (simp_all add: N_def)
  have "0 = (0::nat) \<or> bs = al \<or> int (N + 0) * bs mod al = 0" by simp
  from sw_scan_ok [OF ok le c this, of needed]
  have "sw_result s gids bh needed bs al N N
      (sw_scan s gids bh needed bs al N (replicate (length gids) (replicate N (null_block s))) 0)"
    by (simp only: add_0_right)
  then obtain cols k found where sw: "sw_scan s gids bh needed bs al N (replicate (length gids) (replicate N (null_block s))) 0
      = Inr (cols, k, found)"
    "if found then \<exists>L \<le> N. cols_ok s gids bh (\<lambda>x. int L - needed \<le> int x) L cols \<and> (bs = al \<or> int L * bs mod al = 0)
     else k \<le> N \<and> cols_ok s gids bh (\<lambda>x. x < k) N cols"
    unfolding sw_result_def by (elim exE conjE)
  have "\<exists>cols1 L. (if found then Inr cols else align_loop bs al (map (take k) cols)) = Inr cols1 \<and> L \<le> N
      \<and> cols_ok s gids bh (\<lambda>x. int L - needed \<le> int x) L cols1 \<and> (bs = al \<or> int L * bs mod al = 0)"
  proof (cases found)
    case True
    then show ?thesis using sw(2) by auto
  next
    case False
    then have k: "k \<le> N" "cols_ok s gids bh (\<lambda>x. x < k) N cols" using sw(2) by simp_all
    from align_loop_ok [OF cols_ok_take [OF k(2,1)] g, of bs al]
    obtain c2 L2 where c2: "align_loop bs al (map (take k) cols) = Inr c2" "cols_ok s gids bh (\<lambda>x. x < k) L2 c2"
      "L2 \<le> k" "bs \<noteq> al \<longrightarrow> int L2 * bs mod al = 0" by (elim exE conjE)
    have "cols_ok s gids bh (\<lambda>x. int L2 - needed \<le> int x) L2 c2"
      by (rule cols_ok_weaken [OF c2(2)]) (use c2(3) in simp)
    moreover have "L2 \<le> N" "bs = al \<or> int L2 * bs mod al = 0" using c2(3,4) k(1) by auto
    ultimately show ?thesis using c2(1) False by (intro exI [of _ c2] exI [of _ L2]) simp
  qed
  then obtain cols1 L where r: "(if found then Inr cols else align_loop bs al (map (take k) cols)) = Inr cols1" "L \<le> N"
    "cols_ok s gids bh (\<lambda>x. int L - needed \<le> int x) L cols1" "bs = al \<or> int L * bs mod al = 0" by (elim exE conjE)
  have hd: "cols1 \<noteq> []" "length (hd cols1) = L" using cols_ok_hd [OF r(3) g] by simp_all
  have run: "find_sliding_window bh max_length gids s (SlidingWindowSpec a w) use_eagle al 1 1 =
      (if use_eagle \<and> hd cols1 \<noteq> [] then py_assert (bs = al) (Inr (map butlast cols1)) else Inr cols1)"
    using sw(1) r(1) hd(1) unfolding find_sliding_window_def
    by (simp add: Let_def needed_def N_def bs(1) [symmetric])
  show ?thesis
  proof (cases "use_eagle \<and> hd cols1 \<noteq> []")
    case True
    have L: "0 < L" using True hd(2) by auto
    have "cols_ok s gids bh (\<lambda>x. int L - needed \<le> int x) (L - 1) (map butlast cols1)" by (rule cols_ok_butlast [OF r(3)])
    then have "cols_ok s gids bh (\<lambda>x. int (L - 1) - cdiv (w - 1) bs \<le> int x) (L - 1) (map butlast cols1)"
      by (rule cols_ok_weaken) (use True L in \<open>auto simp: needed_def of_nat_diff\<close>)
    moreover have lt: "int (L - 1) < max_length div bs" using L r(2) N by linarith
    moreover have "int (L - 1) * bs \<le> max_length" using le_div_iff_int [OF bs(2)] lt by (metis less_imp_le)
    ultimately show ?thesis using run True eagle by auto
  next
    case False
    have "cols_ok s gids bh (\<lambda>x. int L - cdiv (w - 1) bs \<le> int x) L cols1"
      by (rule cols_ok_weaken [OF r(3)]) (simp add: needed_def split: if_splits)
    moreover have "int L * bs \<le> max_length" using le_div_iff_int [OF bs(2)] r(2) N by (metis of_nat_le_iff)
    moreover have "use_eagle \<longrightarrow> L = 0" using False hd(2) by auto
    ultimately show ?thesis using run False r(4) by auto
  qed
qed

lemma chunk_scan_ok:
  assumes ok: "lookup_ok s gids bh" and "i + n \<le> bh_len bh" and "cols_ok s gids bh (\<lambda>x. st \<le> x) i cols"
  shows "\<exists>cols' L. chunk_scan s gids bh i n cols = Inr cols' \<and> cols_ok s gids bh (\<lambda>x. st \<le> x) L cols'
    \<and> i \<le> L \<and> L \<le> i + n"
  using assms(2,3)
proof (induction n arbitrary: i cols)
  case (Suc n)
  have "i < bh_len bh" using Suc.prems(1) by simp
  from ok this show ?case
  proof (cases rule: lookup_cases)
    case miss
    then show ?thesis using Suc.prems by auto
  next
    case (hit bs)
    from Suc.IH [OF _ cols_ok_append [OF Suc.prems(2) hit(3,4)]] Suc.prems(1) hit(1) show ?thesis by fastforce
  qed
qed auto

lemma mamba_scan_ok:
  assumes ok: "lookup_ok s gids bh" and "n \<le> bh_len bh"
  shows "\<exists>cols L. mamba_scan s gids bh bs al n = Inr cols \<and> cols_ok s gids bh (\<lambda>x. x = L - 1) L cols
    \<and> L \<le> n \<and> (bs = al \<or> int L * bs mod al = 0)"
  using assms(2)
proof (induction n)
  case 0
  show ?case by (auto simp: cols_ok_def)
next
  case (Suc i)
  have "i < bh_len bh" using Suc.prems by simp
  from ok this show ?case
  proof (cases rule: lookup_cases)
    case miss
    then show ?thesis using Suc by fastforce
  next
    case (hit cb)
    show ?thesis
    proof (cases "bs \<noteq> al \<and> (int i + 1) * bs mod al \<noteq> 0")
      case True
      then show ?thesis using Suc hit(1) by fastforce
    next
      case False
      have "cols_ok s gids bh (\<lambda>x. x = Suc i - 1) (Suc i) (map (\<lambda>b. replicate i (null_block s) @ [b]) cb)"
        using hit(3,4) by (auto simp: cols_ok_def nth_append less_Suc_eq)
      then show ?thesis using False hit(1) by (intro exI [of _ _] exI [of _ "Suc i"]) (auto simp: add.commute)
    qed
  qed
qed

section \<open>Soundness of every lookup\<close>

text \<open>Block \<open>i\<close> holds a token that is needed to compute the token at position \<open>c\<close>.\<close>

definition needed_block :: "layer_spec \<Rightarrow> int \<Rightarrow> int \<Rightarrow> nat \<Rightarrow> bool" where
  "needed_block spec bs c i \<longleftrightarrow> (\<exists>t. int i * bs \<le> t \<and> t < (int i + 1) * bs \<and> in_window spec c t)"

fun finder_ok :: "layer_spec \<Rightarrow> bool \<Rightarrow> int \<Rightarrow> int \<Rightarrow> int \<Rightarrow> bool" where
  "finder_ok (SlidingWindowSpec a w) use_eagle al dcp pcp \<longleftrightarrow>
     dcp = 1 \<and> pcp = 1 \<and> 1 \<le> w \<and> (use_eagle \<longrightarrow> as_block_size a = al)"
| "finder_ok (ChunkedLocalAttentionSpec a c) use_eagle al dcp pcp \<longleftrightarrow>
     \<not> use_eagle \<and> dcp = 1 \<and> pcp = 1 \<and> as_block_size a = al \<and> 0 < c \<and> as_block_size a dvd c"
| "finder_ok (MambaSpec _ _ _ _ _ _) use_eagle al dcp pcp \<longleftrightarrow> dcp = 1 \<and> pcp = 1"
| "finder_ok (CrossAttentionSpec _) use_eagle al dcp pcp \<longleftrightarrow> False"
| "finder_ok (EncoderOnlyAttentionSpec _) use_eagle al dcp pcp \<longleftrightarrow> False"
| "finder_ok _ use_eagle al dcp pcp \<longleftrightarrow> True"

definition finder_block_size :: "layer_spec \<Rightarrow> int \<Rightarrow> int \<Rightarrow> int" where
  "finder_block_size spec dcp pcp =
     (if 1 < dcp * pcp then layer_block_size spec * (dcp * pcp) else layer_block_size spec)"

lemma sliding_needed:
  assumes bs: "0 < bs" and "needed_block (SlidingWindowSpec a w) bs (int L * bs) i"
  shows "int L - cdiv (w - 1) bs \<le> int i"
proof -
  obtain t where t: "t < (int i + 1) * bs" "int L * bs - w < t"
    using assms(2) by (auto simp: needed_block_def in_window_def)
  then have "(int L - (int i + 1)) * bs < w - 1 + 1" by (simp add: algebra_simps)
  also have "w - 1 + 1 \<le> cdiv (w - 1) bs * bs + 1" using cdiv_upper [OF bs, of "w - 1"] by simp
  finally have "(int L - (int i + 1)) * bs \<le> cdiv (w - 1) bs * bs" by simp
  then have "int L - (int i + 1) \<le> cdiv (w - 1) bs" using bs by simp
  moreover have "int L - (int i + 1) \<noteq> cdiv (w - 1) bs"
  proof
    assume eq: "int L - (int i + 1) = cdiv (w - 1) bs"
    have "int L * bs - w \<le> (int i + 1) * bs - 2" using t by linarith
    then have "(int L - (int i + 1)) * bs + 1 \<le> w - 1" by (simp add: algebra_simps)
    then show False using eq cdiv_upper [OF bs, of "w - 1"] by simp
  qed
  ultimately show ?thesis by linarith
qed

lemma chunk_needed:
  assumes bs: "0 < bs" "bs dvd c" and c: "0 < c" and st: "st = m div c * c div bs"
    and L: "st \<le> int L" "int L * bs \<le> m" and m: "0 \<le> m"
    and need: "needed_block (ChunkedLocalAttentionSpec a c) bs (int L * bs) i"
  shows "st \<le> int i"
proof -
  obtain t where t: "t < (int i + 1) * bs" "t div c = int L * bs div c"
    using need by (auto simp: needed_block_def in_window_def)
  have "bs dvd m div c * c" using bs(2) by simp
  then have stb: "st * bs = m div c * c" by (simp add: st)
  have "m div c * c \<le> int L * bs" using L(1) bs(1) by (metis stb mult_right_mono less_imp_le)
  then have "m div c \<le> int L * bs div c" using le_div_iff_int [OF c] by simp
  moreover have "int L * bs div c \<le> m div c" using L(2) c by (intro zdiv_mono1)
  ultimately have "m div c \<le> t div c" using t(2) by simp
  then have "st * bs \<le> t" using le_div_iff_int [OF c, of "m div c" t] stb by simp
  then have "st * bs < (int i + 1) * bs" using t(1) by linarith
  then show ?thesis using bs(1) by simp
qed

lemma find_chunked_ok:
  assumes ok: "lookup_ok s gids bh" and bs: "0 < as_block_size a" "as_block_size a dvd c" and c: "0 < c"
    and ml: "0 \<le> max_length" and len: "nat (max_length div as_block_size a) \<le> bh_len bh"
  shows "\<exists>cols L. find_chunked bh max_length gids s (ChunkedLocalAttentionSpec a c) False (as_block_size a) 1 1 = Inr cols
    \<and> cols_ok s gids bh (needed_block (ChunkedLocalAttentionSpec a c) (as_block_size a) (int L * as_block_size a)) L cols
    \<and> int L * as_block_size a \<le> max_length"
proof -
  let ?b = "as_block_size a"
  define st where "st = max_length div c * c div ?b"
  have start: "(if 0 < max_length then max_length div c * c else 0) div ?b = st"
    using ml by (auto simp: st_def)
  have "max_length div c * c \<le> max_length" using le_div_iff_int [OF c, of "max_length div c" max_length] by simp
  then have le: "st \<le> max_length div ?b" unfolding st_def using bs(1) by (intro zdiv_mono1)
  have st0: "0 \<le> st" unfolding st_def using ml c bs(1) by (simp add: pos_imp_zdiv_nonneg_iff)
  have "cols_ok s gids bh (\<lambda>x. nat st \<le> x) (nat st) (replicate (length gids) (replicate (nat st) (null_block s)))"
    by (rule cols_ok_weaken [OF cols_ok_nulls]) simp
  moreover have "nat st + (nat (max_length div ?b) - nat st) \<le> bh_len bh" using len le st0 by simp
  ultimately obtain cols L where r: "chunk_scan s gids bh (nat st) (nat (max_length div ?b) - nat st)
      (replicate (length gids) (replicate (nat st) (null_block s))) = Inr cols"
    "cols_ok s gids bh (\<lambda>x. nat st \<le> x) L cols" "nat st \<le> L" "L \<le> nat st + (nat (max_length div ?b) - nat st)"
    using chunk_scan_ok [OF ok] by blast
  have "int L \<le> max_length div ?b" using r(4) le st0 by linarith
  then have Lb: "int L * ?b \<le> max_length" using le_div_iff_int [OF bs(1)] by simp
  have stL: "st \<le> int L" using r(3) st0 by linarith
  have "cols_ok s gids bh (needed_block (ChunkedLocalAttentionSpec a c) ?b (int L * ?b)) L cols"
    by (rule cols_ok_weaken [OF r(2)]) (use chunk_needed [OF bs c st_def stL Lb ml] in fastforce)
  moreover have "find_chunked bh max_length gids s (ChunkedLocalAttentionSpec a c) False ?b 1 1 = Inr cols"
    using r(1) start by (simp add: find_chunked_def Let_def)
  ultimately show ?thesis using Lb by blast
qed

lemma mamba_needed:
  assumes "0 < bs" and "needed_block (MambaSpec b sh dt pd mt ns) bs (int L * bs) i" and "i < L"
  shows "i = L - 1"
proof -
  have "int L * bs - 1 < (int i + 1) * bs" using assms(2) by (auto simp: needed_block_def in_window_def)
  then have "int L * bs \<le> (int i + 1) * bs" by linarith
  then have "int L \<le> int i + 1" using assms(1) by simp
  then show ?thesis using assms(3) by linarith
qed

lemma full_like_ok:
  assumes ok: "lookup_ok s gids bh" and bs: "bs = finder_block_size spec dcp pcp" "0 < bs" and ml: "0 \<le> max_length"
    and full: "is_full spec"
  shows "\<exists>cols L. find_longest_cache_hit bh max_length gids s spec use_eagle al dcp pcp = Inr cols
    \<and> cols_ok s gids bh (needed_block spec bs (int L * bs)) L cols \<and> int L * bs \<le> max_length"
proof -
  obtain cols L where r: "find_full bh max_length gids s spec use_eagle al dcp pcp = Inr cols"
    "cols_ok s gids bh (\<lambda>_. True) L cols" "int L * bs \<le> max_length"
    using find_full_ok [OF ok ml, of bs dcp pcp spec use_eagle al] bs by (auto simp: finder_block_size_def)
  moreover have "find_longest_cache_hit bh max_length gids s spec use_eagle al dcp pcp =
      find_full bh max_length gids s spec use_eagle al dcp pcp"
    using full by (cases spec) (simp_all add: find_longest_cache_hit_def)
  moreover have "cols_ok s gids bh (needed_block spec bs (int L * bs)) L cols"
    by (rule cols_ok_weaken [OF r(2)]) simp
  ultimately show ?thesis by auto
qed

lemma find_longest_cache_hit_ok:
  assumes ok: "lookup_ok s gids bh" and bs: "bs = finder_block_size spec dcp pcp" "0 < bs" and ml: "0 \<le> max_length"
    and len: "nat (max_length div bs) \<le> bh_len bh" and f: "finder_ok spec use_eagle al dcp pcp"
  shows "\<exists>cols L. find_longest_cache_hit bh max_length gids s spec use_eagle al dcp pcp = Inr cols
    \<and> cols_ok s gids bh (needed_block spec bs (int L * bs)) L cols \<and> int L * bs \<le> max_length"
proof (cases spec)
  case (SlidingWindowSpec a w)
  then have *: "dcp = 1" "pcp = 1" "1 \<le> w" "use_eagle \<longrightarrow> bs = al" "bs = as_block_size a"
    using f bs by (simp_all add: finder_block_size_def)
  from find_sliding_window_ok [OF ok *(5) bs(2) ml *(3) len *(4)]
  obtain cols L where r: "find_sliding_window bh max_length gids s spec use_eagle al dcp pcp = Inr cols"
    "cols_ok s gids bh (\<lambda>x. int L - cdiv (w - 1) bs \<le> int x) L cols" "int L * bs \<le> max_length"
    unfolding SlidingWindowSpec *(1,2) by (elim exE conjE)
  have "cols_ok s gids bh (needed_block spec bs (int L * bs)) L cols"
    by (rule cols_ok_weaken [OF r(2)]) (use sliding_needed [OF bs(2)] SlidingWindowSpec in blast)
  then show ?thesis using r SlidingWindowSpec by (auto simp: find_longest_cache_hit_def)
next
  case (ChunkedLocalAttentionSpec a c)
  then have *: "dcp = 1" "pcp = 1" "\<not> use_eagle" "al = as_block_size a" "bs = as_block_size a" "0 < c" "as_block_size a dvd c"
    using f bs by (auto simp: finder_block_size_def)
  have "0 < as_block_size a" using bs *(5) by simp
  from find_chunked_ok [OF ok this *(7,6) ml] len show ?thesis
    using * by (simp add: find_longest_cache_hit_def ChunkedLocalAttentionSpec)
next
  case (MambaSpec b sh dt pd mt ns)
  then have *: "dcp = 1" "pcp = 1" "bs = b" using f bs by (simp_all add: finder_block_size_def)
  obtain cols L where r: "mamba_scan s gids bh b al (nat (max_length div b)) = Inr cols"
    "cols_ok s gids bh (\<lambda>x. x = L - 1) L cols" "L \<le> nat (max_length div b)"
    using mamba_scan_ok [OF ok, of "nat (max_length div b)" b al] len *(3) by blast
  have "0 \<le> max_length div b" using ml bs(2) *(3) by (simp add: pos_imp_zdiv_nonneg_iff)
  then have "int L \<le> max_length div bs" using r(3) *(3) by simp
  then have "int L * bs \<le> max_length" using le_div_iff_int [OF bs(2)] by simp
  moreover have "cols_ok s gids bh (needed_block spec bs (int L * bs)) L cols"
    by (rule cols_ok_weaken [OF r(2)]) (use mamba_needed [OF bs(2)] MambaSpec in blast)
  ultimately show ?thesis using r(1) * MambaSpec by (auto simp: find_longest_cache_hit_def find_mamba_def)
qed (use f full_like_ok [OF ok bs ml] in auto)

text \<open>The blocks of a hit can be handed to \<open>allocate_new_computed_blocks\<close>.\<close>

lemma cols_ok_hit_blocks:
  assumes c: "cols_ok s gids bh E L cols" and j: "j < length gids" and g: "group_id_ok (gids ! j)"
    and d: "distinct (bh_vals bh)" and len: "L \<le> length (bh_vals bh)"
  shows "hit_blocks_ok s (cols ! j)"
proof -
  let ?c = "cols ! j"
  have cl: "length ?c = L" and e: "\<And>i. i < L \<Longrightarrow> ?c ! i \<noteq> null_block s \<Longrightarrow> is_hit s bh (gids ! j) i (?c ! i)"
    using c j by (auto simp: cols_ok_def)
  have inj: "i = i'" if "i < L" "i' < L" "?c ! i \<noteq> null_block s" "?c ! i = ?c ! i'" for i i'
  proof -
    have "packed (gids ! j) (bh_vals bh ! i) = packed (gids ! j) (bh_vals bh ! i')"
      using e [of i] e [of i'] that by (simp add: is_hit_def)
    then show ?thesis using packed_inj [OF g g] that d len by (simp add: nth_eq_iff_index_eq)
  qed
  have "distinct (filter (\<lambda>b. b \<noteq> null_block s) xs)"
    if "\<And>i i'. i < length xs \<Longrightarrow> i' < length xs \<Longrightarrow> xs ! i \<noteq> null_block s \<Longrightarrow> xs ! i = xs ! i' \<Longrightarrow> i = i'" for xs
    using that
  proof (induction xs)
    case (Cons x xs)
    have "distinct (filter (\<lambda>b. b \<noteq> null_block s) xs)"
      by (rule Cons.IH) (use Cons.prems [of "Suc _" "Suc _"] in auto)
    moreover have "x = null_block s \<or> x \<notin> set xs"
      using Cons.prems [of 0 "Suc _"] by (force simp: in_set_conv_nth)
    ultimately show ?case by auto
  qed simp
  then have "distinct (filter (\<lambda>b. b \<noteq> null_block s) ?c)" using inj cl by blast
  moreover have "b = null_block s \<or> b \<in> usable s \<and> hashes s b \<noteq> None" if "b \<in> set ?c" for b
    using that e cl by (auto simp: in_set_conv_nth is_hit_def)
  ultimately show ?thesis by (auto simp: hit_blocks_ok_def table_ok_def)
qed

section \<open>Properties\<close>

text \<open>C9: for every attention type the prefix cache lookup returns, without raising, the same number of
  blocks for every group, no more than the tokens it was asked for; every block is either the null block
  or a cached block with the hash of its position, and every block that holds a token inside the
  attention window of the first token after the hit is a cached block, never the null block.\<close>

theorem cache_hit_sound:
  assumes "lookup_ok s gids bh" and "bs = finder_block_size spec dcp pcp" and "0 < bs" and "0 \<le> max_length"
    and "nat (max_length div bs) \<le> bh_len bh" and "finder_ok spec use_eagle al dcp pcp"
  shows "\<exists>cols L. find_longest_cache_hit bh max_length gids s spec use_eagle al dcp pcp = Inr cols
    \<and> length cols = length gids \<and> int L * bs \<le> max_length
    \<and> (\<forall>j < length gids. length (cols ! j) = L
        \<and> (\<forall>i < L. is_hit s bh (gids ! j) i (cols ! j ! i)
              \<or> cols ! j ! i = null_block s \<and> \<not> needed_block spec bs (int L * bs) i))"
  using find_longest_cache_hit_ok [OF assms] unfolding cols_ok_def by blast

lemma sample_lookup_ok: "lookup_ok (sample_pool 4) [0] (Plain [[1], [2]])"
  using sample_pool_free by (simp add: lookup_ok_def pool_inv_def pool_core_def group_id_ok_def)

theorem cache_hit_sound_witness:
  "\<exists>cols L. find_longest_cache_hit (Plain [[1], [2]]) 8 [0] (sample_pool 4)
      (SlidingWindowSpec (sample_attention\<lparr>as_block_size := 4\<rparr>) 5) False 4 1 1 = Inr cols
    \<and> length cols = length [0::int] \<and> int L * 4 \<le> 8
    \<and> (\<forall>j < length [0::int]. length (cols ! j) = L
        \<and> (\<forall>i < L. is_hit (sample_pool 4) (Plain [[1], [2]]) ([0] ! j) i (cols ! j ! i)
              \<or> cols ! j ! i = null_block (sample_pool 4)
                \<and> \<not> needed_block (SlidingWindowSpec (sample_attention\<lparr>as_block_size := 4\<rparr>) 5) 4 (int L * 4) i))"
  by (rule cache_hit_sound [OF sample_lookup_ok]) (simp_all add: finder_block_size_def)



end
