(* ===== verification/Coordinator.thy ===== *)
theory Coordinator
  imports Cache_Hit
begin

text \<open>
  The coordinators: \<open>vllm/v1/core/kv_cache_coordinator.py\<close>.  A coordinator owns the block pool and one
  manager per KV cache group.  The loops over the managers pass the pool along.  The three classes
  differ in the prefix cache lookup and in the common prefix count; the class is the field
  \<open>c_kind\<close>.  The \<open>while True\<close> loop of the hybrid lookup is a partial function, and the lemmas show
  that it returns.
\<close>

section \<open>State\<close>

text \<open>The attention groups of a hybrid model: a spec and the ids of the groups that have it.\<close>

type_synonym attention_group = "layer_spec \<times> nat list"

datatype coordinator_kind =
    NoPrefixCache
  | Unitary layer_spec int int int
  | Hybrid "attention_group list" int nat

record coordinator =
  c_pool :: block_pool
  c_managers :: "st_manager list"
  c_groups :: "kv_cache_group_spec list"
  c_use_eagle :: bool
  c_enable_caching :: bool
  c_kind :: coordinator_kind

section \<open>Loops over the managers\<close>

fun for_managers ::
  "(nat \<Rightarrow> st_manager \<times> block_pool \<Rightarrow> (st_manager \<times> block_pool) result) \<Rightarrow> nat \<Rightarrow> st_manager list \<Rightarrow>
   block_pool \<Rightarrow> (st_manager list \<times> block_pool) result" where
  "for_managers f i [] s = Inr ([], s)"
| "for_managers f i (m # ms) s =
     rbind (f i (m, s)) (\<lambda>(m', s').
       rbind (for_managers f (i + 1) ms s') (\<lambda>(ms', s''). Inr (m' # ms', s'')))"

text \<open>\<open>new_computed_blocks[i]\<close>.\<close>

abbreviation group_blocks :: "bref list list \<Rightarrow> nat \<Rightarrow> bref list result" where
  "group_blocks blks i \<equiv> py_index blks (int i)"

fun coord_num_blocks ::
  "string \<Rightarrow> int \<Rightarrow> bref list list \<Rightarrow> int \<Rightarrow> int \<Rightarrow> nat \<Rightarrow> st_manager list \<Rightarrow> block_pool \<Rightarrow> int result" where
  "coord_num_blocks rid n blks nenc tot i [] s = Inr 0"
| "coord_num_blocks rid n blks nenc tot i (m # ms) s =
     rbind (if is_cross (m_spec m) then get_num_blocks_to_allocate m s rid nenc [] 0
            else rbind (group_blocks blks i) (\<lambda>b. get_num_blocks_to_allocate m s rid n b tot)) (\<lambda>k.
       rbind (coord_num_blocks rid n blks nenc tot (i + 1) ms s) (\<lambda>rest. Inr (k + rest)))"

definition coord_allocate_new_computed_blocks ::
  "string \<Rightarrow> bref list list \<Rightarrow> int \<Rightarrow> int \<Rightarrow> st_manager list \<Rightarrow> block_pool \<Rightarrow> (st_manager list \<times> block_pool) result" where
  "coord_allocate_new_computed_blocks rid blks nlocal nexternal =
     for_managers (\<lambda>i ms. rbind (group_blocks blks i) (\<lambda>b.
       allocate_new_computed_blocks rid b nlocal nexternal ms)) 0"

fun coord_allocate_new_blocks ::
  "string \<Rightarrow> int \<Rightarrow> int \<Rightarrow> st_manager list \<Rightarrow> block_pool \<Rightarrow> (bref list list \<times> st_manager list \<times> block_pool) result" where
  "coord_allocate_new_blocks rid n nenc [] s = Inr ([], [], s)"
| "coord_allocate_new_blocks rid n nenc (m # ms) s =
     rbind (allocate_new_blocks rid (if is_cross (m_spec m) then nenc else n) (m, s)) (\<lambda>(new, m', s').
       rbind (coord_allocate_new_blocks rid n nenc ms s') (\<lambda>(news, ms', s''). Inr (new # news, m' # ms', s'')))"

definition coord_cache_blocks :: "request \<Rightarrow> int \<Rightarrow> st_manager list \<Rightarrow> block_pool \<Rightarrow> (st_manager list \<times> block_pool) result" where
  "coord_cache_blocks r n = for_managers (\<lambda>_. cache_blocks r n) 0"

definition coord_free :: "string \<Rightarrow> st_manager list \<Rightarrow> block_pool \<Rightarrow> (st_manager list \<times> block_pool) result" where
  "coord_free rid = for_managers (\<lambda>_. free_request rid) 0"

definition coord_remove_skipped_blocks ::
  "string \<Rightarrow> int \<Rightarrow> st_manager list \<Rightarrow> block_pool \<Rightarrow> (st_manager list \<times> block_pool) result" where
  "coord_remove_skipped_blocks rid n = for_managers (\<lambda>_. remove_skipped_blocks rid n) 0"

definition coord_common_prefix ::
  "coordinator_kind \<Rightarrow> string \<Rightarrow> st_manager list \<Rightarrow> block_pool \<Rightarrow> int list \<times> st_manager list" where
  "coord_common_prefix kind rid ms s =
     (case kind of
        NoPrefixCache \<Rightarrow> (replicate (length ms) 0, ms)
      | _ \<Rightarrow> (map (\<lambda>m. fst (get_num_common_prefix_blocks rid (m, s))) ms,
              map (\<lambda>m. snd (get_num_common_prefix_blocks rid (m, s))) ms))"

definition coord_get_blocks :: "string \<Rightarrow> st_manager list \<Rightarrow> bref list list" where
  "coord_get_blocks rid ms = map (\<lambda>m. blocks_of_request m rid) ms"

section \<open>The hybrid lookup\<close>

text \<open>Groups with the same spec are looked up together; full attention comes first.\<close>

fun add_group :: "layer_spec \<Rightarrow> nat \<Rightarrow> attention_group list \<Rightarrow> attention_group list" where
  "add_group spec i [] = [(spec, [i])]"
| "add_group spec i ((sp, ids) # gs) = (if sp = spec then (sp, ids @ [i]) # gs else (sp, ids) # add_group spec i gs)"

definition split_groups :: "layer_spec list \<Rightarrow> attention_group list" where
  "split_groups specs = fold (\<lambda>(i, sp). add_group sp i) (zip [0..<length specs] specs) []"

definition verify_and_split_kv_cache_groups :: "layer_spec list \<Rightarrow> (attention_group list \<times> int) result" where
  "verify_and_split_kv_cache_groups specs =
     (let gs = split_groups specs in
      py_assert (1 < length gs)
        (Inr (filter (\<lambda>g. is_full (fst g)) gs @ filter (\<lambda>g. \<not> is_full (fst g)) gs,
              fold lcm (map (\<lambda>g. layer_block_size (fst g)) gs) 1)))"

definition get_block_hashes :: "nat \<Rightarrow> bytes list \<Rightarrow> layer_spec \<Rightarrow> bh_list result" where
  "get_block_hashes hbs hs spec =
     (if layer_block_size spec = int hbs then Inr (Plain hs)
      else rbind (BlockHashListWithBlockSize hs hbs (nat (layer_block_size spec))) (\<lambda>l. Inr (Scaled l)))"

type_synonym group_hits = "bref list option list"

text \<open>\<open>del blocks[n:]\<close>.\<close>

definition del_from :: "int \<Rightarrow> 'a list \<Rightarrow> 'a list" where
  "del_from n xs = take (nat (if n < 0 then n + int (length xs) else n)) xs"

definition hybrid_step ::
  "block_pool \<Rightarrow> bytes list \<Rightarrow> nat \<Rightarrow> bool \<Rightarrow> int \<Rightarrow> attention_group \<Rightarrow> int \<times> group_hits \<Rightarrow> (int \<times> group_hits) result" where
  "hybrid_step s hs hbs use_eagle al = (\<lambda>(spec, ids) (curr_hit, hits).
     let bs = layer_block_size spec in
     if is_full spec \<and> hits ! hd ids \<noteq> None
     then let nb = curr_hit div bs in
          rbind (foldM (\<lambda>gid hits. case hits ! gid of
                           None \<Rightarrow> Inl AssertionError
                         | Some blks \<Rightarrow> Inr (hits[gid := Some (del_from nb blks)])) ids hits)
            (\<lambda>hits'. Inr (nb * bs, hits'))
     else
       rbind (get_block_hashes hbs hs spec) (\<lambda>bh.
         rbind (find_longest_cache_hit bh curr_hit (map int ids) s spec use_eagle al 1 1) (\<lambda>hit_blocks.
           case hit_blocks of
             [] \<Rightarrow> Inl IndexError
           | c # _ \<Rightarrow> Inr (int (length c) * bs,
                          fold (\<lambda>(gid, blks) hits. hits[gid := Some blks]) (zip ids hit_blocks) hits))))"

partial_function (option) hybrid_loop ::
  "block_pool \<Rightarrow> bytes list \<Rightarrow> nat \<Rightarrow> bool \<Rightarrow> int \<Rightarrow> attention_group list \<Rightarrow> int \<Rightarrow> group_hits \<Rightarrow>
   (int \<times> group_hits) result option" where
  "hybrid_loop s hs hbs use_eagle al gs hit_length hits =
     (case foldM (hybrid_step s hs hbs use_eagle al) gs (hit_length, hits) of
        Inl e \<Rightarrow> Some (Inl e)
      | Inr (curr_hit, hits') \<Rightarrow>
          if curr_hit < hit_length then hybrid_loop s hs hbs use_eagle al gs curr_hit hits'
          else Some (Inr (hit_length, hits')))"

definition hybrid_find_longest_cache_hit ::
  "block_pool \<Rightarrow> bytes list \<Rightarrow> nat \<Rightarrow> bool \<Rightarrow> int \<Rightarrow> attention_group list \<Rightarrow> nat \<Rightarrow> int \<Rightarrow>
   (bref list list \<times> int) result option" where
  "hybrid_find_longest_cache_hit s hs hbs use_eagle al gs num_groups max_hit =
     map_option (\<lambda>r. rbind r (\<lambda>(hit_length, hits).
         Inr (map (\<lambda>h. case h of None \<Rightarrow> [] | Some b \<Rightarrow> b) hits, hit_length)))
       (hybrid_loop s hs hbs use_eagle al gs max_hit (replicate num_groups None))"

section \<open>The lookup of a coordinator\<close>

definition coord_find_longest_cache_hit ::
  "coordinator \<Rightarrow> bytes list \<Rightarrow> int \<Rightarrow> (bref list list \<times> int) result option" where
  "coord_find_longest_cache_hit c hs max_hit =
     (case c_kind c of
        NoPrefixCache \<Rightarrow> Some (Inr (replicate (length (c_managers c)) [], 0))
      | Unitary spec bs dcp pcp \<Rightarrow>
          Some (rbind (find_longest_cache_hit (Plain hs) max_hit [0] (c_pool c) spec (c_use_eagle c) bs dcp pcp)
                 (\<lambda>cols. case cols of [] \<Rightarrow> Inl IndexError | col # _ \<Rightarrow> Inr (cols, int (length col) * bs)))
      | Hybrid gs al hbs \<Rightarrow>
          hybrid_find_longest_cache_hit (c_pool c) hs hbs (c_use_eagle c) al gs (length (c_groups c)) max_hit)"

section \<open>Construction\<close>

definition layer_of :: "kv_cache_spec \<Rightarrow> layer_spec option" where
  "layer_of spec = (case spec of Layer l \<Rightarrow> Some l | _ \<Rightarrow> None)"

fun make_managers ::
  "kv_cache_group_spec list \<Rightarrow> bool \<Rightarrow> int \<Rightarrow> int \<Rightarrow> int \<Rightarrow> block_pool \<Rightarrow> (st_manager list \<times> block_pool) result" where
  "make_managers [] caching i dcp pcp s = Inr ([], s)"
| "make_managers (g # gs) caching i dcp pcp s =
     rbind (get_manager_for_kv_cache_spec (group_spec g) s caching i dcp pcp) (\<lambda>(m, s1).
       rbind (make_managers gs caching (i + 1) dcp pcp s1) (\<lambda>(ms, s2). Inr (m # ms, s2)))"

definition KVCacheCoordinator_init ::
  "kv_cache_config \<Rightarrow> bool \<Rightarrow> bool \<Rightarrow> bool \<Rightarrow> int \<Rightarrow> int \<Rightarrow> nat \<Rightarrow> bool \<Rightarrow> coordinator result" where
  "KVCacheCoordinator_init cfg use_eagle caching kv_events dcp pcp hbs use_int =
     rbind (BlockPool_init (num_blocks cfg) caching hbs kv_events use_int) (\<lambda>pool.
       rbind (make_managers (kv_cache_groups cfg) caching 0 dcp pcp pool) (\<lambda>(ms, s).
         Inr \<lparr>c_pool = s, c_managers = ms, c_groups = kv_cache_groups cfg, c_use_eagle = use_eagle,
              c_enable_caching = caching, c_kind = NoPrefixCache\<rparr>))"

definition UnitaryKVCacheCoordinator_init :: "bool \<Rightarrow> int \<Rightarrow> int \<Rightarrow> nat \<Rightarrow> coordinator \<Rightarrow> coordinator result" where
  "UnitaryKVCacheCoordinator_init caching dcp pcp hbs c =
     (case c_groups c of
        [] \<Rightarrow> Inl IndexError
      | g # _ \<Rightarrow>
          (case layer_of (group_spec g) of
             None \<Rightarrow> Inl KeyError
           | Some spec \<Rightarrow>
               let bs1 = (if 1 < dcp then layer_block_size spec * dcp else layer_block_size spec);
                   bs = (if 1 < pcp then bs1 * pcp else bs1)
               in py_assert (\<not> caching \<or> int hbs = bs)
                    (py_assert (length (c_groups c) = 1) (Inr (c\<lparr>c_kind := Unitary spec bs dcp pcp\<rparr>)))))"

definition HybridKVCacheCoordinator_init :: "int \<Rightarrow> int \<Rightarrow> nat \<Rightarrow> coordinator \<Rightarrow> coordinator result" where
  "HybridKVCacheCoordinator_init dcp pcp hbs c =
     (if hbs = 0 then Inl ZeroDivisionError
      else py_assert (list_all (\<lambda>g. spec_block_size (group_spec g) mod int hbs = 0) (c_groups c))
        (py_assert (dcp = 1) (py_assert (pcp = 1)
          (rbind (verify_and_split_kv_cache_groups (map m_spec (c_managers c))) (\<lambda>(gs, al).
             Inr (c\<lparr>c_kind := Hybrid gs al hbs\<rparr>))))))"

definition get_kv_cache_coordinator ::
  "kv_cache_config \<Rightarrow> bool \<Rightarrow> bool \<Rightarrow> bool \<Rightarrow> int \<Rightarrow> int \<Rightarrow> nat \<Rightarrow> bool \<Rightarrow> coordinator result" where
  "get_kv_cache_coordinator cfg use_eagle caching kv_events dcp pcp hbs use_int =
     (if \<not> caching then KVCacheCoordinator_init cfg use_eagle False kv_events dcp pcp hbs use_int
      else rbind (KVCacheCoordinator_init cfg use_eagle caching kv_events dcp pcp hbs use_int) (\<lambda>c.
        if length (kv_cache_groups cfg) = 1 then UnitaryKVCacheCoordinator_init caching dcp pcp hbs c
        else HybridKVCacheCoordinator_init dcp pcp hbs c))"

section \<open>The invariant of all managers\<close>

definition sys_held :: "block_pool \<Rightarrow> st_manager list \<Rightarrow> bref multiset" where
  "sys_held s ms = sum_list (map (mgr_held s) ms)"

text \<open>Every manager keeps its invariant with respect to all others and the outside \<open>R\<close>.\<close>

fun sys_inv :: "bref multiset \<Rightarrow> block_pool \<Rightarrow> st_manager list \<Rightarrow> bool" where
  "sys_inv R s [] = pool_ok s R"
| "sys_inv R s (m # ms) \<longleftrightarrow> mgr_inv (R + sys_held s ms) s m \<and> sys_inv (R + mgr_held s m) s ms"

lemma sys_held_simps [simp]: "sys_held s [] = {#}" "sys_held s (m # ms) = mgr_held s m + sys_held s ms"
  by (simp_all add: sys_held_def)

lemma sys_held_static: "static s' = static s \<Longrightarrow> sys_held s' ms = sys_held s ms"
proof (induction ms)
  case (Cons m ms)
  then show ?case using mgr_held_static [of s' s m] by simp
qed simp

lemma sys_inv_pool: "sys_inv R s ms \<Longrightarrow> pool_ok s (R + sys_held s ms)"
proof (induction ms arbitrary: R)
  case (Cons m ms)
  then have "pool_ok s (R + mgr_held s m + sys_held s ms)" by simp
  then show ?case by (simp add: ac_simps)
qed simp

lemma sys_other:
  assumes "sys_inv (Q + H) s ms" and "pool_ok s' (Q + sys_held s ms + H')"
    and frame: "held_frame (Q + sys_held s ms) s H s' H'"
  shows "sys_inv (Q + H') s' ms"
  using assms
proof (induction ms arbitrary: Q)
  case (Cons m ms)
  have st: "static s' = static s" using Cons.prems(3) by (rule held_frame_static)
  note held = mgr_held_static [OF st, of m] sys_held_static [OF st, of ms]
  have eq: "Q + sys_held s (m # ms) = (Q + sys_held s ms) + mgr_held s m"
    "Q + sys_held s (m # ms) = (Q + mgr_held s m) + sys_held s ms" by (simp_all add: ac_simps)
  have "mgr_inv ((Q + sys_held s ms) + H) s m" using Cons.prems(1) by (simp add: ac_simps)
  from mgr_other [OF this] Cons.prems(2,3) have "mgr_inv ((Q + sys_held s ms) + H') s' m" unfolding eq(1) by blast
  moreover have "sys_inv ((Q + mgr_held s m) + H) s ms" using Cons.prems(1) by (simp add: ac_simps)
  from Cons.IH [OF this] Cons.prems(2,3) have "sys_inv ((Q + mgr_held s m) + H') s' ms" unfolding eq(2) by blast
  ultimately show ?case using held by (simp add: ac_simps)
qed simp

text \<open>One manager of a system makes a step.\<close>

lemma sys_head_step:
  assumes inv: "sys_inv R s (m # ms)" and m': "mgr_inv (R + sys_held s ms) s' m'"
    and frame: "mgr_frame (R + sys_held s ms) s m s' m'"
  shows "sys_inv R s' (m' # ms)"
proof -
  have st: "static s' = static s" using frame by (rule mgr_frame_static)
  have "sys_inv (R + mgr_held s' m') s' ms"
    using sys_other [of R "mgr_held s m" s ms s' "mgr_held s' m'"] inv mgr_inv_pool [OF m'] frame
    by (simp add: mgr_frame_held)
  then show ?thesis using m' sys_held_static [OF st, of ms] by simp
qed

text \<open>The rest of the system makes a step.\<close>

lemma sys_tail_step:
  assumes inv: "sys_inv R s (m # ms)" and ms': "sys_inv (R + mgr_held s m) s' ms'"
    and frame: "held_frame (R + mgr_held s m) s (sys_held s ms) s' (sys_held s' ms')"
  shows "sys_inv R s' (m # ms') \<and> held_frame R s (sys_held s (m # ms)) s' (sys_held s' (m # ms'))"
proof -
  have st: "static s' = static s" using frame by (rule held_frame_static)
  have "mgr_inv (R + sys_held s' ms') s' m"
    by (rule mgr_other [of R "sys_held s ms" s m s']) (use inv sys_inv_pool [OF ms'] frame in simp_all)
  moreover have "held_frame R s (sys_held s (m # ms)) s' (sys_held s' (m # ms'))"
    using frame mgr_held_static [OF st, of m] unfolding held_frame_def by auto
  ultimately show ?thesis using ms' mgr_held_static [OF st, of m] by simp
qed

lemma sys_cons_frame:
  assumes "mgr_frame (R + sys_held s ms) s m s' m'"
  shows "held_frame R s (sys_held s (m # ms)) s' (sys_held s' (m' # ms))"
proof -
  have st: "static s' = static s" using assms by (rule mgr_frame_static)
  show ?thesis using assms sys_held_static [OF st, of ms] unfolding mgr_frame_def held_frame_def by auto
qed

text \<open>An operation that succeeds for every manager succeeds for the loop over the managers.  \<open>Pre\<close> may
  depend on the fixed part of the pool only; \<open>J\<close> relates a manager before and after.\<close>

lemma for_managers_ok:
  assumes op: "\<And>i R s m. mgr_inv R s m \<Longrightarrow> Pre i s m \<Longrightarrow>
      \<exists>m' s'. f i (m, s) = Inr (m', s') \<and> mgr_inv R s' m' \<and> mgr_frame R s m s' m' \<and> J m m'
        \<and> get_num_free_blocks s \<le> get_num_free_blocks s'"
    and pre_static: "\<And>i s s' m. static s' = static s \<Longrightarrow> Pre i s m \<Longrightarrow> Pre i s' m"
    and "sys_inv R s ms" and "\<And>k. k < length ms \<Longrightarrow> Pre (i + k) s (ms ! k)"
  shows "\<exists>ms' s'. for_managers f i ms s = Inr (ms', s') \<and> sys_inv R s' ms'
    \<and> held_frame R s (sys_held s ms) s' (sys_held s' ms') \<and> list_all2 J ms ms'
    \<and> get_num_free_blocks s \<le> get_num_free_blocks s'"
  using assms(3,4)
proof (induction ms arbitrary: R s i)
  case (Cons m ms)
  have m: "mgr_inv (R + sys_held s ms) s m" using Cons.prems(1) by simp
  have "Pre i s m" using Cons.prems(2) [of 0] by simp
  from op [OF m this] obtain m' s1 where s1: "f i (m, s) = Inr (m', s1)" "mgr_inv (R + sys_held s ms) s1 m'"
    "mgr_frame (R + sys_held s ms) s m s1 m'" "J m m'" "get_num_free_blocks s \<le> get_num_free_blocks s1" by blast
  have st: "static s1 = static s" using s1(3) by (rule mgr_frame_static)
  have inv1: "sys_inv R s1 (m' # ms)" using Cons.prems(1) s1(2,3) by (rule sys_head_step)
  have "Pre (i + 1 + k) s1 (ms ! k)" if "k < length ms" for k
    using pre_static [OF st] Cons.prems(2) [of "Suc k"] that by simp
  then obtain ms' s2 where s2: "for_managers f (i + 1) ms s1 = Inr (ms', s2)" "sys_inv (R + mgr_held s1 m') s2 ms'"
    "held_frame (R + mgr_held s1 m') s1 (sys_held s1 ms) s2 (sys_held s2 ms')" "list_all2 J ms ms'"
    "get_num_free_blocks s1 \<le> get_num_free_blocks s2"
    using Cons.IH [of "R + mgr_held s1 m'" s1 "i + 1"] inv1 by auto
  from sys_tail_step [OF inv1 s2(2,3)]
  have fin: "sys_inv R s2 (m' # ms')" "held_frame R s1 (sys_held s1 (m' # ms)) s2 (sys_held s2 (m' # ms'))" by simp_all
  moreover have "held_frame R s (sys_held s (m # ms)) s2 (sys_held s2 (m' # ms'))"
    by (rule held_frame_trans [OF sys_cons_frame [OF s1(3)] fin(2)])
  ultimately show ?case using s1(1,4,5) s2(1,4,5) by auto
qed simp

section \<open>What an operation on one request changes of a manager\<close>

definition same_group :: "string \<Rightarrow> st_manager \<Rightarrow> st_manager \<Rightarrow> bool" where
  "same_group rid m m' \<longleftrightarrow> m_spec m' = m_spec m \<and> m_block_size m' = m_block_size m
     \<and> kv_cache_group_id m' = kv_cache_group_id m \<and> sink_blocks m' = sink_blocks m
     \<and> (\<forall>r. r \<noteq> rid \<longrightarrow> blocks_of_request m' r = blocks_of_request m r
            \<and> map_of (num_cached_block m') r = map_of (num_cached_block m) r)"

lemma same_group_refl [simp]: "same_group rid m m"
  by (simp add: same_group_def)

lemma same_group_trans: "same_group rid m m1 \<Longrightarrow> same_group rid m1 m2 \<Longrightarrow> same_group rid m m2"
  by (simp add: same_group_def)

lemma same_group_rtb_set [simp]: "same_group rid m (rtb_set rid bs m') = same_group rid m m'"
  by (simp add: same_group_def rtb_set_def blocks_of_request_def update_conv')

lemma same_group_delete [simp]:
  "same_group rid m (m\<lparr>req_to_blocks := AList.delete rid (req_to_blocks m)\<rparr>)"
  by (simp add: same_group_def blocks_of_request_def delete_conv')

lemma same_group_cached [simp]:
  "same_group rid m (m'\<lparr>num_cached_block := AList.update rid n (num_cached_block m')\<rparr>) = same_group rid m m'"
  "same_group rid m ((rtb_set rid bs m')\<lparr>num_cached_block := AList.update rid n (num_cached_block m')\<rparr>) = same_group rid m m'"
  "same_group rid m (m'\<lparr>req_to_blocks := AList.delete rid (req_to_blocks m'),
     num_cached_block := AList.delete rid (num_cached_block m')\<rparr>) = same_group rid m m'"
  by (simp_all add: same_group_def blocks_of_request_def rtb_set_def update_conv' delete_conv')

lemma same_group_remove_skipped:
  "remove_skipped_blocks rid n (m, s) = Inr (m', s') \<Longrightarrow> same_group rid m m'"
  by (auto simp: remove_skipped_blocks_def Let_def split: if_splits prod.splits)

lemma same_group_cache_blocks:
  "cache_blocks r n (m, s) = Inr (m', s') \<Longrightarrow> same_group (request_id r) m m'"
  by (auto simp: cache_blocks_def rtb_touch_def Let_def split: if_splits)

lemma same_group_computed:
  "allocate_new_computed_blocks rid cs nl ne (m, s) = Inr (m', s') \<Longrightarrow> same_group rid m m'"
  by (auto simp: allocate_new_computed_blocks_def base_allocate_new_computed_blocks_def py_assert_def Let_def
      split: if_splits)

text \<open>Without external tokens the computed blocks are only touched: no hash changes, and reference
  counts grow.\<close>

definition touched :: "block_pool \<Rightarrow> block_pool \<Rightarrow> bool" where
  "touched s s' \<longleftrightarrow> static s' = static s \<and> hashes s' = hashes s \<and> (\<forall>b. refs s b \<le> refs s' b)"

lemma touched_refl [simp]: "touched s s"
  by (simp add: touched_def)

lemma touched_trans: "touched s s1 \<Longrightarrow> touched s1 s2 \<Longrightarrow> touched s s2"
  unfolding touched_def by (metis order_trans)

lemma touched_hit_blocks: "touched s s' \<Longrightarrow> hit_blocks_ok s' cs = hit_blocks_ok s cs"
  using table_ok_static [of s' s cs] null_static [of s' s] by (simp add: touched_def hit_blocks_ok_def)

lemma touched_evictable:
  assumes "touched s s'" and "pool_inv s fl" and "valid_refs s cs"
  shows "evictable s' cs \<le> evictable s cs"
proof -
  have "refs s b = 0" if "b \<in> set cs" "refs s' b = 0" "\<not> is_null (heap s' b)" for b
  proof -
    have "b \<noteq> null_block s" using assms(1,2) that(3) null_not_usable [of s]
      by (auto simp: touched_def static_eq pool_inv_def pool_core_def)
    then have "0 \<le> refs s b" using assms(2,3) that(1) by (auto simp: pool_inv_def pool_core_def refs_ok_def)
    moreover have "refs s b \<le> refs s' b" using assms(1) by (simp add: touched_def)
    ultimately show ?thesis using that(2) by simp
  qed
  then have "length (filter (\<lambda>b. refs s' b = 0 \<and> \<not> is_null (heap s' b)) cs)
      \<le> length (filter (\<lambda>b. refs s b = 0 \<and> \<not> is_null (heap s b)) cs)"
    using assms(1) by (induction cs) (auto simp: touched_def static_eq)
  then show ?thesis by (simp add: evictable_def)
qed

lemma computed_touched:
  assumes "pool_inv s fl" and "valid_refs s cs" and "ne \<le> 0"
    and "allocate_new_computed_blocks rid cs nl ne (m, s) = Inr (m', s')"
  shows "touched s s'"
proof -
  have "touched s s1" if "touch bs s = Inr s1" "set bs \<subseteq> set cs" for bs s1
    using touch_ok [of s fl bs] that assms(1,2) by (auto simp: pool_inv_def touched_def)
  moreover have "set (drop k cs) \<subseteq> set cs" for k by (rule set_drop_subset)
  moreover have "\<not> 0 < (if c then min a ne else ne)" for c a using assms(3) by auto
  ultimately show ?thesis
    using assms(4)
    by (auto simp: allocate_new_computed_blocks_def base_allocate_new_computed_blocks_def py_assert_def Let_def
        split: if_splits)
qed

section \<open>The operations of a coordinator\<close>

lemma coord_free_ok:
  assumes "sys_inv R s ms"
  shows "\<exists>ms' s'. coord_free rid ms s = Inr (ms', s') \<and> sys_inv R s' ms'
    \<and> held_frame R s (sys_held s ms) s' (sys_held s' ms')
    \<and> list_all2 (\<lambda>m m'. same_group rid m m' \<and> fresh_request m' rid) ms ms'
    \<and> get_num_free_blocks s \<le> get_num_free_blocks s'"
  unfolding coord_free_def
proof (rule for_managers_ok [where Pre = "\<lambda>_ _ _. True"])
  show "\<exists>m' s'. free_request rid (m, s) = Inr (m', s') \<and> mgr_inv R s' m' \<and> mgr_frame R s m s' m'
      \<and> (same_group rid m m' \<and> fresh_request m' rid) \<and> get_num_free_blocks s \<le> get_num_free_blocks s'"
    if "mgr_inv R s m" for R s m
    using free_request_ok [OF that, of rid] by (auto simp: fresh_request_def)
qed (use assms in auto)

lemma coord_remove_skipped_ok:
  assumes "sys_inv R s ms"
  shows "\<exists>ms' s'. coord_remove_skipped_blocks rid n ms s = Inr (ms', s') \<and> sys_inv R s' ms'
    \<and> held_frame R s (sys_held s ms) s' (sys_held s' ms')
    \<and> list_all2 (\<lambda>m m'. same_group rid m m' \<and> num_cached_block m' = num_cached_block m
        \<and> length (blocks_of_request m' rid) = length (blocks_of_request m rid)) ms ms'
    \<and> get_num_free_blocks s \<le> get_num_free_blocks s'"
  unfolding coord_remove_skipped_blocks_def
proof (rule for_managers_ok [where Pre = "\<lambda>_ _ _. True"])
  show "\<exists>m' s'. remove_skipped_blocks rid n (m, s) = Inr (m', s') \<and> mgr_inv R s' m' \<and> mgr_frame R s m s' m'
      \<and> (same_group rid m m' \<and> num_cached_block m' = num_cached_block m
          \<and> length (blocks_of_request m' rid) = length (blocks_of_request m rid))
      \<and> get_num_free_blocks s \<le> get_num_free_blocks s'"
    if "mgr_inv R s m" for R s m
    using remove_skipped_blocks_ok [OF that, of rid n] same_group_remove_skipped [of rid n m s] by metis
qed (use assms in auto)

lemma cacheable_static: "static s' = static s \<Longrightarrow> cacheable s m r n \<Longrightarrow> cacheable s' m r n"
  by (simp add: cacheable_def static_eq)

lemma coord_cache_ok:
  assumes "sys_inv R s ms" and "\<And>m. m \<in> set ms \<Longrightarrow> cacheable s m r n"
  shows "\<exists>ms' s'. coord_cache_blocks r n ms s = Inr (ms', s') \<and> sys_inv R s' ms'
    \<and> held_frame R s (sys_held s ms) s' (sys_held s' ms')
    \<and> list_all2 (\<lambda>m m'. same_group (request_id r) m m'
        \<and> blocks_of_request m' (request_id r) = blocks_of_request m (request_id r)) ms ms'
    \<and> get_num_free_blocks s \<le> get_num_free_blocks s'"
  unfolding coord_cache_blocks_def
proof (rule for_managers_ok [where Pre = "\<lambda>_ s m. cacheable s m r n"])
  show "\<exists>m' s'. cache_blocks r n (m, s) = Inr (m', s') \<and> mgr_inv R s' m' \<and> mgr_frame R s m s' m'
      \<and> (same_group (request_id r) m m' \<and> blocks_of_request m' (request_id r) = blocks_of_request m (request_id r))
      \<and> get_num_free_blocks s \<le> get_num_free_blocks s'"
    if "mgr_inv R s m" "cacheable s m r n" for R s m
    using cache_blocks_ok [OF that] same_group_cache_blocks [of r n m s] by (metis order_refl)
qed (use assms cacheable_static in auto)

text \<open>The tokens a manager needs slots for.\<close>

abbreviation slot_tokens :: "int \<Rightarrow> int \<Rightarrow> st_manager \<Rightarrow> int" where
  "slot_tokens n nenc m \<equiv> if is_cross (m_spec m) then nenc else n"

definition grown :: "string \<Rightarrow> int \<Rightarrow> int \<Rightarrow> st_manager \<Rightarrow> st_manager \<Rightarrow> bool" where
  "grown rid n nenc m m' \<longleftrightarrow> same_group rid m m'
     \<and> take (length (blocks_of_request m rid)) (blocks_of_request m' rid) = blocks_of_request m rid
     \<and> int (length (blocks_of_request m' rid)) =
         max (int (length (blocks_of_request m rid)))
             (cdiv (slot_tokens n nenc m + speculative_tokens m) (m_block_size m))"

lemma coord_allocate_new_blocks_ok:
  assumes "sys_inv R s ms" and "(\<Sum>m \<leftarrow> ms. missing_blocks m rid (slot_tokens n nenc m)) \<le> get_num_free_blocks s"
  shows "\<exists>news ms' s'. coord_allocate_new_blocks rid n nenc ms s = Inr (news, ms', s') \<and> sys_inv R s' ms'
    \<and> held_frame R s (sys_held s ms) s' (sys_held s' ms') \<and> list_all2 (grown rid n nenc) ms ms'
    \<and> coord_get_blocks rid ms' = map2 (@) (coord_get_blocks rid ms) news
    \<and> get_num_free_blocks s' = get_num_free_blocks s - (\<Sum>m \<leftarrow> ms. missing_blocks m rid (slot_tokens n nenc m))"
  using assms
proof (induction ms arbitrary: R s)
  case (Cons m ms)
  let ?n = "slot_tokens n nenc m" and ?sum = "\<Sum>m \<leftarrow> ms. missing_blocks m rid (slot_tokens n nenc m)"
  have nn: "0 \<le> missing_blocks x rid k" for x k by (simp add: missing_blocks_def)
  have "0 \<le> ?sum" by (induction ms) (simp_all add: nn)
  then have cap: "missing_blocks m rid ?n \<le> get_num_free_blocks s" using Cons.prems(2) by simp
  have m: "mgr_inv (R + sys_held s ms) s m" using Cons.prems(1) by simp
  obtain new m' s1 where s1: "allocate_new_blocks rid ?n (m, s) = Inr (new, m', s1)"
    "mgr_inv (R + sys_held s ms) s1 m'" "mgr_frame (R + sys_held s ms) s m s1 m'"
    "blocks_of_request m' rid = blocks_of_request m rid @ new" "int (length new) = missing_blocks m rid ?n"
    "get_num_free_blocks s1 = get_num_free_blocks s - missing_blocks m rid ?n"
    "m' = rtb_set rid (blocks_of_request m rid @ new) m"
    using allocate_new_blocks_ok [OF m cap] by blast
  have g: "grown rid n nenc m m'"
    using s1(4,5) unfolding grown_def by (simp add: s1(7) missing_blocks_def)
  have inv1: "sys_inv R s1 (m' # ms)" using Cons.prems(1) s1(2,3) by (rule sys_head_step)
  then have inv1': "sys_inv (R + mgr_held s1 m') s1 ms" by simp
  obtain news ms' s2 where s2: "coord_allocate_new_blocks rid n nenc ms s1 = Inr (news, ms', s2)"
    "sys_inv (R + mgr_held s1 m') s2 ms'"
    "held_frame (R + mgr_held s1 m') s1 (sys_held s1 ms) s2 (sys_held s2 ms')" "list_all2 (grown rid n nenc) ms ms'"
    "coord_get_blocks rid ms' = map2 (@) (coord_get_blocks rid ms) news"
    "get_num_free_blocks s2 = get_num_free_blocks s1 - ?sum"
    using Cons.IH [OF inv1'] Cons.prems(2) s1(6) by auto
  note fin = sys_tail_step [OF inv1 s2(2,3)]
  have "held_frame R s (sys_held s (m # ms)) s2 (sys_held s2 (m' # ms'))"
    by (rule held_frame_trans [OF sys_cons_frame [OF s1(3)]]) (use fin in blast)
  then show ?case using s1(1,4,6) s2 g fin by (simp add: coord_get_blocks_def)
qed (simp add: coord_get_blocks_def)

text \<open>A new request takes its hits in every group, without external tokens.\<close>

definition takes_hit :: "string \<Rightarrow> int \<Rightarrow> st_manager \<Rightarrow> bref list \<Rightarrow> st_manager \<Rightarrow> bool" where
  "takes_hit rid nl m cs m' \<longleftrightarrow> same_group rid m m'
     \<and> length (blocks_of_request m' rid) = max (skipped_blocks m nl) (length cs)"

lemma external_blocks_0 [simp]: "external_blocks m nl 0 len = 0"
  by (simp add: external_blocks_def Let_def)

lemma evictable_nonneg [simp]: "0 \<le> evictable s cs"
  by (simp add: evictable_def)

lemma hits_after_touch:
  assumes "touched s s'" and "pool_inv s fl"
    and "list_all2 (\<lambda>m cs. fresh_request m rid \<and> \<not> is_cross (m_spec m) \<and> hit_blocks_ok s cs) ms css"
  shows "list_all2 (\<lambda>m cs. fresh_request m rid \<and> \<not> is_cross (m_spec m) \<and> hit_blocks_ok s' cs) ms css"
    and "(\<Sum>(m, cs) \<leftarrow> zip ms css. evictable s' (drop (skipped_blocks m nl) cs))
      \<le> (\<Sum>(m, cs) \<leftarrow> zip ms css. evictable s (drop (skipped_blocks m nl) cs))"
proof -
  show "list_all2 (\<lambda>m cs. fresh_request m rid \<and> \<not> is_cross (m_spec m) \<and> hit_blocks_ok s' cs) ms css"
    using assms(3) by (simp add: touched_hit_blocks [OF assms(1)])
  have "evictable s' (drop k cs) \<le> evictable s (drop k cs)" if "hit_blocks_ok s cs" for k cs
    using touched_evictable [OF assms(1,2)] hit_blocks_ok_drop [OF that, of k]
    by (auto simp: hit_blocks_ok_def table_ok_def)
  with assms(3) show "(\<Sum>(m, cs) \<leftarrow> zip ms css. evictable s' (drop (skipped_blocks m nl) cs))
      \<le> (\<Sum>(m, cs) \<leftarrow> zip ms css. evictable s (drop (skipped_blocks m nl) cs))"
    by (induction rule: list_all2_induct) (simp_all add: add_mono)
qed

lemma computed_step:
  assumes "mgr_inv R s m" and "fresh_request m rid" and "\<not> is_cross (m_spec m)" and "hit_blocks_ok s cs"
    and "enable_caching s \<or> cs = []" and "evictable s (drop (skipped_blocks m nl) cs) \<le> get_num_free_blocks s"
  obtains m' s' where "allocate_new_computed_blocks rid cs nl 0 (m, s) = Inr (m', s')" "mgr_inv R s' m'"
    "mgr_frame R s m s' m'" "takes_hit rid nl m cs m'" "touched s s'"
    "get_num_free_blocks s' = get_num_free_blocks s - evictable s (drop (skipped_blocks m nl) cs)"
proof -
  obtain m' s' where s': "allocate_new_computed_blocks rid cs nl 0 (m, s) = Inr (m', s')" "mgr_inv R s' m'"
    "mgr_frame R s m s' m'" "length (blocks_of_request m' rid) = max (skipped_blocks m nl) (length cs)"
    "get_num_free_blocks s' = get_num_free_blocks s - evictable s (drop (skipped_blocks m nl) cs)"
    using allocate_new_computed_blocks_ok [OF assms(1-5), of _ nl 0] assms(6) by auto
  obtain fl where "pool_inv s fl" using mgr_inv_pool [OF assms(1)] by (auto simp: pool_ok_def)
  moreover have "valid_refs s cs" using assms(4) by (auto simp: hit_blocks_ok_def table_ok_def)
  ultimately have "touched s s'" using computed_touched s'(1) by blast
  then show thesis using that s' same_group_computed [OF s'(1)] by (simp add: takes_hit_def)
qed

lemma computed_loop_ok:
  assumes "sys_inv R s ms"
    and "list_all2 (\<lambda>m cs. fresh_request m rid \<and> \<not> is_cross (m_spec m) \<and> hit_blocks_ok s cs) ms (drop i blks)"
    and "enable_caching s \<or> (\<forall>cs \<in> set blks. cs = [])"
    and "(\<Sum>(m, cs) \<leftarrow> zip ms (drop i blks). evictable s (drop (skipped_blocks m nl) cs)) \<le> get_num_free_blocks s"
  shows "\<exists>ms' s'. for_managers (\<lambda>i ms. rbind (group_blocks blks i) (\<lambda>b.
       allocate_new_computed_blocks rid b nl 0 ms)) i ms s = Inr (ms', s') \<and> sys_inv R s' ms' \<and> touched s s'
    \<and> held_frame R s (sys_held s ms) s' (sys_held s' ms')
    \<and> list_all2 (\<lambda>(m, cs). takes_hit rid nl m cs) (zip ms (drop i blks)) ms'
    \<and> get_num_free_blocks s - (\<Sum>(m, cs) \<leftarrow> zip ms (drop i blks). evictable s (drop (skipped_blocks m nl) cs))
       \<le> get_num_free_blocks s'"
  using assms
proof (induction ms arbitrary: R s i)
  case (Cons m ms)
  have i: "i < length blks" using Cons.prems(2) by (auto dest: list_all2_lengthD)
  then have drop: "drop i blks = blks ! i # drop (Suc i) blks" by (simp add: Cons_nth_drop_Suc)
  define css where "css = drop (Suc i) blks"
  define ev where "ev = (\<lambda>s. \<Sum>(m, cs) \<leftarrow> zip ms css. evictable s (drop (skipped_blocks m nl) cs))"
  have gb: "group_blocks blks i = Inr (blks ! i)" using i by simp
  have h: "fresh_request m rid" "\<not> is_cross (m_spec m)" "hit_blocks_ok s (blks ! i)"
    "list_all2 (\<lambda>m cs. fresh_request m rid \<and> \<not> is_cross (m_spec m) \<and> hit_blocks_ok s cs) ms css"
    using Cons.prems(2) by (simp_all add: drop css_def)
  have sum: "evictable s (drop (skipped_blocks m nl) (blks ! i)) + ev s \<le> get_num_free_blocks s"
    using Cons.prems(4) by (simp add: drop css_def ev_def)
  have evs: "(\<Sum>(m, cs) \<leftarrow> zip ms css. evictable s (drop (skipped_blocks m nl) cs)) = ev s" for s
    by (simp add: ev_def)
  have ev0: "0 \<le> ev s" for s unfolding ev_def by (rule sum_list_nonneg) auto
  have m: "mgr_inv (R + sys_held s ms) s m" using Cons.prems(1) by simp
  have "enable_caching s \<or> blks ! i = []" using Cons.prems(3) i by auto
  then obtain m' s1 where s1: "allocate_new_computed_blocks rid (blks ! i) nl 0 (m, s) = Inr (m', s1)"
    "mgr_inv (R + sys_held s ms) s1 m'" "mgr_frame (R + sys_held s ms) s m s1 m'" "takes_hit rid nl m (blks ! i) m'"
    "touched s s1" "get_num_free_blocks s1 = get_num_free_blocks s - evictable s (drop (skipped_blocks m nl) (blks ! i))"
    by (rule computed_step [OF m h(1-3)]) (use sum ev0 [of s] in auto)
  obtain fl where fl: "pool_inv s fl" using mgr_inv_pool [OF m] by (auto simp: pool_ok_def)
  note h1 = hits_after_touch(1) [OF s1(5) fl h(4)] hits_after_touch(2) [OF s1(5) fl h(4), of nl]
  have inv1: "sys_inv R s1 (m' # ms)" using Cons.prems(1) s1(2,3) by (rule sys_head_step)
  then have inv1': "sys_inv (R + mgr_held s1 m') s1 ms" by simp
  have ev1: "ev s1 \<le> ev s" using h1(2) by (simp add: ev_def)
  have caching: "enable_caching s1 \<or> (\<forall>cs \<in> set blks. cs = [])"
    using Cons.prems(3) s1(5) by (simp add: touched_def static_eq)
  obtain ms' s2 where s2: "for_managers (\<lambda>i ms. rbind (group_blocks blks i) (\<lambda>b.
       allocate_new_computed_blocks rid b nl 0 ms)) (i + 1) ms s1 = Inr (ms', s2)"
    "sys_inv (R + mgr_held s1 m') s2 ms'" "touched s1 s2"
    "held_frame (R + mgr_held s1 m') s1 (sys_held s1 ms) s2 (sys_held s2 ms')"
    "list_all2 (\<lambda>(m, cs). takes_hit rid nl m cs) (zip ms css) ms'" "get_num_free_blocks s1 - ev s1 \<le> get_num_free_blocks s2"
    using Cons.IH [OF inv1' _ caching, of "Suc i"] h1(1) sum s1(6) ev1 unfolding css_def [symmetric] evs
    by auto
  note fin = sys_tail_step [OF inv1 s2(2,4)]
  have "held_frame R s (sys_held s (m # ms)) s2 (sys_held s2 (m' # ms'))"
    by (rule held_frame_trans [OF sys_cons_frame [OF s1(3)]]) (use fin in blast)
  then show ?case
    using s1(1,4,6) s2 fin gb ev1 touched_trans [OF s1(5) s2(3)]
    by (simp add: drop css_def [symmetric] evs [simplified])
qed auto

end
