(* ===== verification/Hybrid_Lookup.thy ===== *)
theory Hybrid_Lookup
  imports Coordinator
begin

text \<open>
  The iterative lookup of \<open>HybridKVCacheCoordinator.find_longest_cache_hit\<close> returns, and what it
  returns is a cache hit of one common length for every attention type.  The measure of the loop is
  the candidate length; the invariant of a pass is that the columns of a full attention group, once
  computed, reach at least to the candidate length.
\<close>

section \<open>The setting\<close>

fun is_sliding :: "layer_spec \<Rightarrow> bool" where
  "is_sliding (SlidingWindowSpec _ _) = True"
| "is_sliding _ = False"

definition group_bh :: "nat \<Rightarrow> bytes list \<Rightarrow> layer_spec \<Rightarrow> bh_list" where
  "group_bh hbs hs spec =
     (if layer_block_size spec = int hbs then Plain hs
      else Scaled \<lparr>bhl_hashes = hs, scale_factor = nat (layer_block_size spec) div hbs\<rparr>)"

definition group_ok :: "block_pool \<Rightarrow> bytes list \<Rightarrow> nat \<Rightarrow> bool \<Rightarrow> int \<Rightarrow> nat \<Rightarrow> attention_group \<Rightarrow> bool" where
  "group_ok s hs hbs use_eagle al n = (\<lambda>(spec, ids).
     ids \<noteq> [] \<and> distinct ids \<and> (\<forall>i \<in> set ids. i < n \<and> group_id_ok (int i)) \<and> cache_ok s
     \<and> block_size_ok hbs (nat (layer_block_size spec)) \<and> finder_ok spec use_eagle al 1 1)"

text \<open>The columns of a group.\<close>

definition columns :: "group_hits \<Rightarrow> nat list \<Rightarrow> bref list list" where
  "columns hits ids = map (\<lambda>i. case hits ! i of None \<Rightarrow> [] | Some b \<Rightarrow> b) ids"

definition group_hit :: "block_pool \<Rightarrow> bytes list \<Rightarrow> nat \<Rightarrow> attention_group \<Rightarrow> group_hits \<Rightarrow> nat \<Rightarrow> bool" where
  "group_hit s hs hbs = (\<lambda>(spec, ids) hits L. (\<forall>i \<in> set ids. hits ! i \<noteq> None)
     \<and> cols_ok s (map int ids) (group_bh hbs hs spec)
         (needed_block spec (layer_block_size spec) (int L * layer_block_size spec)) L (columns hits ids))"

lemma get_block_hashes_ok:
  assumes "block_size_ok hbs (nat (layer_block_size spec))"
  shows "get_block_hashes hbs hs spec = Inr (group_bh hbs hs spec)" "bh_wf (group_bh hbs hs spec)"
  using assms scale_pos [OF assms]
  by (auto simp: get_block_hashes_def group_bh_def BlockHashListWithBlockSize_def block_size_ok_def)

lemma group_bh_len:
  assumes "block_size_ok hbs (nat (layer_block_size spec))" and "0 \<le> n" and "n \<le> int (length hs * hbs)"
  shows "nat (n div layer_block_size spec) \<le> bh_len (group_bh hbs hs spec)"
proof -
  define b where "b = nat (layer_block_size spec)"
  define sc where "sc = b div hbs"
  have b: "0 < b" "0 < hbs" "b = sc * hbs" "0 < sc"
    using assms(1) scale_pos [OF assms(1)] by (auto simp: block_size_ok_def b_def sc_def)
  have bs: "layer_block_size spec = int b" using b(1) by (simp add: b_def)
  have len: "bh_len (group_bh hbs hs spec) = length hs div sc"
    using b(2) by (simp add: group_bh_def bhl_len_def bs sc_def)
  have "nat (n div int b) = nat n div b" using assms(2) by (simp add: nat_div_distrib)
  also have "\<dots> \<le> (length hs * hbs) div b" using assms(3) by (intro div_le_mono) (simp only: nat_le_iff)
  also have "\<dots> = length hs div sc" using b(2) by (simp add: b(3) mult.commute)
  finally show ?thesis by (simp add: bs len)
qed

section \<open>One step\<close>

lemma find_group_ok:
  assumes g: "group_ok s hs hbs ue al n (spec, ids)" and c: "0 \<le> c" "c \<le> int (length hs * hbs)"
  shows "\<exists>cols L. find_longest_cache_hit (group_bh hbs hs spec) c (map int ids) s spec ue al 1 1 = Inr cols
    \<and> cols_ok s (map int ids) (group_bh hbs hs spec)
         (needed_block spec (layer_block_size spec) (int L * layer_block_size spec)) L cols
    \<and> int L * layer_block_size spec \<le> c
    \<and> (ue \<and> is_sliding spec \<longrightarrow> L = 0 \<or> int L * layer_block_size spec < c)"
proof -
  let ?bh = "group_bh hbs hs spec" and ?bs = "layer_block_size spec"
  have sz: "block_size_ok hbs (nat ?bs)" and f: "finder_ok spec ue al 1 1" using g by (simp_all add: group_ok_def)
  have ok: "lookup_ok s (map int ids) ?bh"
    using g get_block_hashes_ok [OF sz] by (auto simp: group_ok_def lookup_ok_def)
  have bs: "?bs = finder_block_size spec 1 1" "0 < ?bs" using sz by (auto simp: finder_block_size_def block_size_ok_def)
  have len: "nat (c div ?bs) \<le> bh_len ?bh" by (rule group_bh_len [OF sz c])
  show ?thesis
  proof (cases "ue \<and> is_sliding spec")
    case False
    then show ?thesis using find_longest_cache_hit_ok [OF ok bs c(1) len f] by auto
  next
    case True
    then obtain a w where spec: "spec = SlidingWindowSpec a w" by (cases spec) auto
    have w: "1 \<le> w" "ue \<longrightarrow> ?bs = al" "?bs = as_block_size a" using f spec by auto
    from find_sliding_window_ok [OF ok w(3) bs(2) c(1) w(1) len w(2)]
    obtain cols L where r: "find_sliding_window ?bh c (map int ids) s spec ue al 1 1 = Inr cols"
      "cols_ok s (map int ids) ?bh (\<lambda>x. int L - cdiv (w - 1) ?bs \<le> int x) L cols" "int L * ?bs \<le> c"
      "ue \<longrightarrow> L = 0 \<or> int L < c div ?bs"
      unfolding spec by (elim exE conjE)
    have "cols_ok s (map int ids) ?bh (needed_block spec ?bs (int L * ?bs)) L cols"
      by (rule cols_ok_weaken [OF r(2)]) (use sliding_needed [OF bs(2)] spec in blast)
    moreover have "int L * ?bs < c" if "int L < c div ?bs"
    proof -
      have "(int L + 1) * ?bs \<le> c" using that le_div_iff_int [OF bs(2), of "int L + 1" c] by simp
      then show ?thesis using bs(2) by (simp add: distrib_right)
    qed
    ultimately show ?thesis using r True spec by (auto simp: find_longest_cache_hit_def)
  qed
qed

text \<open>The ids of the groups.\<close>

definition ids_of_groups :: "attention_group list \<Rightarrow> nat set" where
  "ids_of_groups gs = (\<Union>g \<in> set gs. set (snd g))"

text \<open>Storing the columns of a lookup.\<close>

lemma store_columns:
  assumes "distinct ids" and "length cols = length ids" and "\<forall>i \<in> set ids. i < length hits"
  shows "length (fold (\<lambda>(gid, blks) hits. hits[gid := Some blks]) (zip ids cols) hits) = length hits
    \<and> (\<forall>j < length ids. fold (\<lambda>(gid, blks) hits. hits[gid := Some blks]) (zip ids cols) hits ! (ids ! j) = Some (cols ! j))
    \<and> (\<forall>i. i \<notin> set ids \<longrightarrow> fold (\<lambda>(gid, blks) hits. hits[gid := Some blks]) (zip ids cols) hits ! i = hits ! i)"
  using assms
proof (induction ids arbitrary: cols hits)
  case (Cons a ids)
  then obtain c cs where cols: "cols = c # cs" by (cases cols) auto
  have "\<forall>i \<in> set ids. i < length (hits[a := Some c])" using Cons.prems by simp
  from Cons.IH [OF _ _ this, of cs] show ?case using Cons.prems
    by (auto simp: cols nth_Cons less_Suc_eq_0_disj split: nat.split)
qed simp

text \<open>Truncating the columns of a full attention group.\<close>

definition trunc :: "int \<Rightarrow> nat \<Rightarrow> group_hits \<Rightarrow> group_hits result" where
  "trunc nb gid hits = (case hits ! gid of None \<Rightarrow> Inl AssertionError
     | Some blks \<Rightarrow> Inr (hits[gid := Some (del_from nb blks)]))"

lemma trunc_columns:
  assumes "distinct ids" and "\<forall>i \<in> set ids. i < length hits \<and> hits ! i \<noteq> None"
  shows "\<exists>hits'. foldM (trunc nb) ids hits = Inr hits' \<and> length hits' = length hits
    \<and> (\<forall>i \<in> set ids. hits' ! i = map_option (del_from nb) (hits ! i)) \<and> (\<forall>i. i \<notin> set ids \<longrightarrow> hits' ! i = hits ! i)"
  using assms
proof (induction ids arbitrary: hits)
  case (Cons a ids)
  then obtain c where c: "hits ! a = Some c" by auto
  have "\<forall>i \<in> set ids. i < length (hits[a := Some (del_from nb c)]) \<and> hits[a := Some (del_from nb c)] ! i \<noteq> None"
    using Cons.prems by (auto simp: nth_list_update)
  from Cons.IH [OF _ this] obtain hits' where
    "foldM (trunc nb) ids (hits[a := Some (del_from nb c)]) = Inr hits'" "length hits' = length hits"
    "\<forall>i \<in> set ids. hits' ! i = map_option (del_from nb) (hits[a := Some (del_from nb c)] ! i)"
    "\<forall>i. i \<notin> set ids \<longrightarrow> hits' ! i = hits[a := Some (del_from nb c)] ! i" using Cons.prems(1) by auto
  moreover have "trunc nb a hits = Inr (hits[a := Some (del_from nb c)])" using c by (simp add: trunc_def)
  ultimately show ?case using Cons.prems c by (auto simp: nth_list_update)
qed simp

lemma hybrid_step_full:
  "is_full spec \<Longrightarrow> hits ! hd ids \<noteq> None \<Longrightarrow>
     hybrid_step s hs hbs ue al (spec, ids) (c, hits) =
       rbind (foldM (trunc (c div layer_block_size spec)) ids hits)
         (\<lambda>hits'. Inr (c div layer_block_size spec * layer_block_size spec, hits'))"
  by (simp add: hybrid_step_def Let_def trunc_def [abs_def])

lemma columns_eq: "columns hits' ids = cols" if "length cols = length ids" "\<And>j. j < length ids \<Longrightarrow> hits' ! (ids ! j) = Some (cols ! j)"
  using that by (auto simp: columns_def list_eq_iff_nth_eq)

lemma group_hit_cong:
  assumes "\<And>i. i \<in> set (snd g) \<Longrightarrow> hits' ! i = hits ! i"
  shows "group_hit s hs hbs g hits' L = group_hit s hs hbs g hits L"
proof -
  have "columns hits' (snd g) = columns hits (snd g)" using assms by (simp add: columns_def)
  then show ?thesis using assms by (simp add: group_hit_def case_prod_unfold)
qed

text \<open>A group that has been visited.\<close>

abbreviation visited :: "block_pool \<Rightarrow> bytes list \<Rightarrow> nat \<Rightarrow> group_hits \<Rightarrow> int \<Rightarrow> attention_group \<Rightarrow> bool" where
  "visited s hs hbs hits c g \<equiv> is_full (fst g) \<and> hits ! hd (snd g) \<noteq> None \<longrightarrow>
     (\<exists>L. group_hit s hs hbs g hits L \<and> c \<le> int L * layer_block_size (fst g))"

lemma hybrid_step_ok:
  assumes g: "group_ok s hs hbs ue al n g" and c: "0 \<le> c" "c \<le> int (length hs * hbs)" and n: "length hits = n"
    and v: "visited s hs hbs hits c g"
  shows "\<exists>L hits'. hybrid_step s hs hbs ue al g (c, hits) = Inr (int L * layer_block_size (fst g), hits')
    \<and> length hits' = n \<and> group_hit s hs hbs g hits' L \<and> int L * layer_block_size (fst g) \<le> c
    \<and> (ue \<and> is_sliding (fst g) \<longrightarrow> L = 0 \<or> int L * layer_block_size (fst g) < c)
    \<and> (\<forall>i. i \<notin> set (snd g) \<longrightarrow> hits' ! i = hits ! i)"
proof -
  obtain spec ids where g': "g = (spec, ids)" by (cases g)
  let ?bs = "layer_block_size spec" and ?bh = "group_bh hbs hs spec"
  have ids: "distinct ids" "ids \<noteq> []" "\<forall>i \<in> set ids. i < length hits" and sz: "block_size_ok hbs (nat ?bs)"
    using g n by (auto simp: group_ok_def g')
  have bs: "0 < ?bs" using sz by (auto simp: block_size_ok_def)
  show ?thesis
  proof (cases "is_full spec \<and> hits ! hd ids \<noteq> None")
    case True
    then obtain L where L: "group_hit s hs hbs g hits L" "c \<le> int L * ?bs" using v by (auto simp: g')
    then have some: "\<forall>i \<in> set ids. i < length hits \<and> hits ! i \<noteq> None" and
      cols: "cols_ok s (map int ids) ?bh (needed_block spec ?bs (int L * ?bs)) L (columns hits ids)"
      using ids by (auto simp: group_hit_def g')
    define k where "k = nat (c div ?bs)"
    have k: "int k = c div ?bs" using c(1) bs by (simp add: k_def pos_imp_zdiv_nonneg_iff)
    have "c div ?bs \<le> int L" using L(2) bs by (metis zdiv_mono1 nonzero_mult_div_cancel_right less_irrefl)
    then have kL: "k \<le> L" using k by simp
    obtain hits' where h: "foldM (trunc (int k)) ids hits = Inr hits'" "length hits' = length hits"
      "\<forall>i \<in> set ids. hits' ! i = map_option (del_from (int k)) (hits ! i)" "\<forall>i. i \<notin> set ids \<longrightarrow> hits' ! i = hits ! i"
      using trunc_columns [OF ids(1) some, of "int k"] by blast
    have "columns hits' ids = map (take k) (columns hits ids)"
      using h(3) some by (auto simp: columns_def del_from_def)
    moreover have "needed_block spec ?bs x i = needed_block spec ?bs y i" for x y i
      using True by (cases spec) (simp_all add: needed_block_def in_window_def)
    ultimately have "cols_ok s (map int ids) ?bh (needed_block spec ?bs (int k * ?bs)) k (columns hits' ids)"
      using cols_ok_weaken [OF cols_ok_take [OF cols kL]] by metis
    then have "group_hit s hs hbs g hits' k" using h(3) some by (simp add: group_hit_def g')
    moreover have "int k * ?bs \<le> c" using k le_div_iff_int [OF bs, of "int k" c] by simp
    moreover have "\<not> is_sliding spec" using True by (cases spec) auto
    ultimately show ?thesis using True h n by (auto simp: hybrid_step_full k [symmetric] g')
  next
    case False
    have "cache_ok s" and "\<forall>i \<in> set ids. group_id_ok (int i)" using g by (auto simp: group_ok_def g')
    obtain cols L where f: "find_longest_cache_hit ?bh c (map int ids) s spec ue al 1 1 = Inr cols"
      "cols_ok s (map int ids) ?bh (needed_block spec ?bs (int L * ?bs)) L cols" "int L * ?bs \<le> c"
      "ue \<and> is_sliding spec \<longrightarrow> L = 0 \<or> int L * ?bs < c"
      using find_group_ok [OF g [unfolded g'] c] by blast
    define hits' where "hits' = fold (\<lambda>(gid, blks) hits. hits[gid := Some blks]) (zip ids cols) hits"
    have lc: "length cols = length ids" using f(2) by (simp add: cols_ok_def)
    obtain c0 rest where c0: "cols = c0 # rest" "length c0 = L"
      using cols_ok_hd [OF f(2)] ids(2) by (cases cols) auto
    note st = store_columns [OF ids(1) lc ids(3), folded hits'_def]
    have "columns hits' ids = cols" by (rule columns_eq [OF lc]) (use st in auto)
    moreover have "\<forall>i \<in> set ids. hits' ! i \<noteq> None" using st by (auto simp: in_set_conv_nth)
    ultimately have "group_hit s hs hbs g hits' L" using f(2) by (simp add: group_hit_def g')
    moreover have "hybrid_step s hs hbs ue al g (c, hits) = Inr (int L * ?bs, hits')"
      using False f(1) c0 get_block_hashes_ok [OF sz, of hs]
      by (auto simp: hybrid_step_def Let_def g' hits'_def)
    ultimately show ?thesis using f(3,4) st n by (auto simp: g')
  qed
qed

section \<open>A pass and the loop\<close>

fun disjoint_ids :: "attention_group list \<Rightarrow> bool" where
  "disjoint_ids [] \<longleftrightarrow> True"
| "disjoint_ids (g # gs) \<longleftrightarrow> set (snd g) \<inter> ids_of_groups gs = {} \<and> disjoint_ids gs"

definition hybrid_ok :: "block_pool \<Rightarrow> bytes list \<Rightarrow> nat \<Rightarrow> bool \<Rightarrow> int \<Rightarrow> nat \<Rightarrow> attention_group list \<Rightarrow> bool" where
  "hybrid_ok s hs hbs ue al n gs \<longleftrightarrow> disjoint_ids gs \<and> (\<forall>g \<in> set gs. group_ok s hs hbs ue al n g)"

text \<open>After a pass with the result \<open>c'\<close>, started at \<open>c\<close>.\<close>

abbreviation passed :: "block_pool \<Rightarrow> bytes list \<Rightarrow> nat \<Rightarrow> bool \<Rightarrow> group_hits \<Rightarrow> int \<Rightarrow> int \<Rightarrow> attention_group \<Rightarrow> bool" where
  "passed s hs hbs ue hits c c' g \<equiv>
     (\<exists>L. group_hit s hs hbs g hits L \<and> c' \<le> int L * layer_block_size (fst g) \<and> int L * layer_block_size (fst g) \<le> c
       \<and> (ue \<and> is_sliding (fst g) \<longrightarrow> L = 0 \<or> int L * layer_block_size (fst g) < c))"

lemma hybrid_pass_ok:
  assumes "hybrid_ok s hs hbs ue al n gs" and "0 \<le> c" and "c \<le> int (length hs * hbs)" and "length hits = n"
    and "\<And>g. g \<in> set gs \<Longrightarrow> visited s hs hbs hits c g"
  shows "\<exists>c' hits'. foldM (hybrid_step s hs hbs ue al) gs (c, hits) = Inr (c', hits') \<and> 0 \<le> c' \<and> c' \<le> c
    \<and> length hits' = n \<and> (\<forall>g \<in> set gs. passed s hs hbs ue hits' c c' g)
    \<and> (\<forall>i. i \<notin> ids_of_groups gs \<longrightarrow> hits' ! i = hits ! i)"
  using assms
proof (induction gs arbitrary: c hits)
  case (Cons g gs)
  let ?bs = "layer_block_size (fst g)"
  have g: "group_ok s hs hbs ue al n g" and gs: "hybrid_ok s hs hbs ue al n gs"
    and dj: "set (snd g) \<inter> ids_of_groups gs = {}" using Cons.prems(1) by (simp_all add: hybrid_ok_def)
  obtain L hits1 where s1: "hybrid_step s hs hbs ue al g (c, hits) = Inr (int L * ?bs, hits1)" "length hits1 = n"
    "group_hit s hs hbs g hits1 L" "int L * ?bs \<le> c" "ue \<and> is_sliding (fst g) \<longrightarrow> L = 0 \<or> int L * ?bs < c"
    "\<forall>i. i \<notin> set (snd g) \<longrightarrow> hits1 ! i = hits ! i"
    using hybrid_step_ok [OF g Cons.prems(2-4) Cons.prems(5)] by auto
  have "0 < ?bs" using g by (cases g) (auto simp: group_ok_def block_size_ok_def)
  then have c1: "0 \<le> int L * ?bs" "int L * ?bs \<le> int (length hs * hbs)" using s1(4) Cons.prems(3) by simp_all
  have "visited s hs hbs hits1 (int L * ?bs) h" if h: "h \<in> set gs" for h
  proof -
    have same: "hits1 ! i = hits ! i" if "i \<in> set (snd h)" for i
      using s1(6) dj h that by (auto simp: ids_of_groups_def)
    have "hd (snd h) \<in> set (snd h)" using gs h by (cases h) (auto simp: hybrid_ok_def group_ok_def)
    then have "hits1 ! hd (snd h) = hits ! hd (snd h)" by (rule same)
    then show ?thesis using Cons.prems(5) [of h] h s1(4) group_hit_cong [of h hits1 hits, OF same] by fastforce
  qed
  from Cons.IH [OF gs c1 s1(2) this] obtain c2 hits2 where
    s2: "foldM (hybrid_step s hs hbs ue al) gs (int L * ?bs, hits1) = Inr (c2, hits2)" "0 \<le> c2" "c2 \<le> int L * ?bs"
    "length hits2 = n" "\<forall>g \<in> set gs. passed s hs hbs ue hits2 (int L * ?bs) c2 g"
    "\<forall>i. i \<notin> ids_of_groups gs \<longrightarrow> hits2 ! i = hits1 ! i" by blast
  have "group_hit s hs hbs g hits2 L"
    using group_hit_cong [of g hits2 hits1] s1(3) s2(6) dj by blast
  then have "passed s hs hbs ue hits2 c c2 g" using s1(4,5) s2(3) by blast
  moreover have "passed s hs hbs ue hits2 c c2 h" if h: "h \<in> set gs" for h
    using s2(5) h s1(4) by fastforce
  moreover have "\<forall>i. i \<notin> ids_of_groups (g # gs) \<longrightarrow> hits2 ! i = hits ! i"
    using s1(6) s2(6) by (auto simp: ids_of_groups_def)
  ultimately show ?case using s1(1,4) s2(1-4) by auto
qed simp

text \<open>All groups agree on the hit.\<close>

definition hybrid_hit :: "block_pool \<Rightarrow> bytes list \<Rightarrow> nat \<Rightarrow> bool \<Rightarrow> attention_group list \<Rightarrow> int \<Rightarrow> group_hits \<Rightarrow> bool" where
  "hybrid_hit s hs hbs ue gs c hits \<longleftrightarrow> (\<forall>g \<in> set gs. \<exists>L. group_hit s hs hbs g hits L
     \<and> int L * layer_block_size (fst g) = c \<and> (ue \<and> is_sliding (fst g) \<longrightarrow> L = 0))"

lemma hybrid_loop_ok:
  assumes "hybrid_ok s hs hbs ue al n gs" and "0 \<le> c" and "c \<le> int (length hs * hbs)" and "length hits = n"
    and "\<And>g. g \<in> set gs \<Longrightarrow> visited s hs hbs hits c g"
  shows "\<exists>c' hits'. hybrid_loop s hs hbs ue al gs c hits = Some (Inr (c', hits')) \<and> 0 \<le> c' \<and> c' \<le> c
    \<and> length hits' = n \<and> hybrid_hit s hs hbs ue gs c' hits'"
  using assms
proof (induction "nat c" arbitrary: c hits rule: less_induct)
  case less
  obtain c1 hits1 where p: "foldM (hybrid_step s hs hbs ue al) gs (c, hits) = Inr (c1, hits1)" "0 \<le> c1" "c1 \<le> c"
    "length hits1 = n" "\<forall>g \<in> set gs. passed s hs hbs ue hits1 c c1 g"
    using hybrid_pass_ok [OF less.prems] by blast
  show ?case
  proof (cases "c1 < c")
    case True
    have "\<exists>c' hits'. hybrid_loop s hs hbs ue al gs c1 hits1 = Some (Inr (c', hits')) \<and> 0 \<le> c' \<and> c' \<le> c1
        \<and> length hits' = n \<and> hybrid_hit s hs hbs ue gs c' hits'"
      by (rule less.hyps) (use True p less.prems in auto)
    then show ?thesis using p(1) True by (subst hybrid_loop.simps) auto
  next
    case False
    then have "c1 = c" using p(3) by simp
    then have "hybrid_hit s hs hbs ue gs c hits1" using p(5) unfolding hybrid_hit_def by (metis order_antisym less_irrefl)
    then show ?thesis using p False less.prems(2) by (subst hybrid_loop.simps) auto
  qed
qed

lemma hybrid_start_ok:
  assumes "hybrid_ok s hs hbs ue al n gs" and "0 \<le> c" and "c \<le> int (length hs * hbs)"
  shows "\<exists>c' hits'. hybrid_loop s hs hbs ue al gs c (replicate n None) = Some (Inr (c', hits')) \<and> 0 \<le> c' \<and> c' \<le> c
    \<and> length hits' = n \<and> hybrid_hit s hs hbs ue gs c' hits'"
proof (rule hybrid_loop_ok [OF assms])
  show "visited s hs hbs (replicate n None) c g" if "g \<in> set gs" for g
  proof -
    have "hd (snd g) < n" using assms(1) that by (cases g) (auto simp: hybrid_ok_def group_ok_def)
    then show ?thesis by simp
  qed
qed simp

section \<open>The attention groups\<close>

lemma add_group_specs: "fst ` set (add_group sp i gs) = insert sp (fst ` set gs)"
  by (induction sp i gs rule: add_group.induct) auto

lemma add_group_distinct: "distinct (map fst gs) \<Longrightarrow> distinct (map fst (add_group sp i gs))"
proof (induction sp i gs rule: add_group.induct)
  case (2 spec i sp ids gs)
  then show ?case using add_group_specs [of spec i gs] by auto
qed simp

lemma add_group_ids:
  assumes "distinct (map fst gs)" and "(sp', ids') \<in> set (add_group sp i gs)"
  shows "sp' \<noteq> sp \<and> (sp', ids') \<in> set gs
    \<or> sp' = sp \<and> (ids' = [i] \<and> sp \<notin> fst ` set gs \<or> (\<exists>ids. (sp, ids) \<in> set gs \<and> ids' = ids @ [i]))"
  using assms
proof (induction sp i gs rule: add_group.induct)
  case (2 spec i sp ids gs)
  then show ?case by (cases "sp = spec") (force simp: image_iff)+
qed auto

lemma split_groups_snoc: "split_groups (specs @ [sp]) = add_group sp (length specs) (split_groups specs)"
proof -
  have z: "zip [0..<length (specs @ [sp])] (specs @ [sp]) = zip [0..<length specs] specs @ [(length specs, sp)]" by simp
  show ?thesis unfolding split_groups_def z by simp
qed

lemma split_groups_ok:
  "distinct (map fst (split_groups specs)) \<and> fst ` set (split_groups specs) = set specs
   \<and> (\<forall>(sp, ids) \<in> set (split_groups specs). ids = filter (\<lambda>i. specs ! i = sp) [0..<length specs])"
proof (induction specs rule: rev_induct)
  case Nil
  show ?case by (simp add: split_groups_def)
next
  case (snoc sp specs)
  let ?gs = "split_groups specs"
  have d: "distinct (map fst ?gs)" and f: "fst ` set ?gs = set specs"
    and i: "\<And>sp ids. (sp, ids) \<in> set ?gs \<Longrightarrow> ids = filter (\<lambda>i. specs ! i = sp) [0..<length specs]"
    using snoc by auto
  have old: "filter (\<lambda>i. (specs @ [sp]) ! i = sp') [0..<length specs] = filter (\<lambda>i. specs ! i = sp') [0..<length specs]" for sp'
    by (rule filter_cong) (auto simp: nth_append)
  have "ids' = filter (\<lambda>i. (specs @ [sp]) ! i = sp') [0..<length (specs @ [sp])]"
    if "(sp', ids') \<in> set (add_group sp (length specs) ?gs)" for sp' ids'
    using add_group_ids [OF d that]
  proof (elim disjE conjE exE)
    assume "sp' = sp" "ids' = [length specs]" "sp \<notin> fst ` set ?gs"
    then show ?thesis by (auto simp: old f filter_empty_conv in_set_conv_nth)
  qed (auto simp: old dest: i)
  then show ?case using add_group_specs [of sp "length specs" ?gs] add_group_distinct [OF d] f
    unfolding split_groups_snoc by auto
qed

lemma disjoint_ids_specs:
  assumes "distinct (map fst gs)" and "\<And>sp ids i. (sp, ids) \<in> set gs \<Longrightarrow> i \<in> set ids \<Longrightarrow> specs ! i = sp"
  shows "disjoint_ids gs"
  using assms
proof (induction gs)
  case (Cons g gs)
  obtain sp ids where g: "g = (sp, ids)" by (cases g)
  have "disjoint_ids gs" by (rule Cons.IH) (use Cons.prems in auto)
  moreover have False if "i \<in> set ids" "(sp', ids') \<in> set gs" "i \<in> set ids'" for i sp' ids'
  proof -
    have "sp' = sp" using Cons.prems(2) [of sp ids i] Cons.prems(2) [of sp' ids' i] that g by simp
    then show False using Cons.prems(1) that(2) g by (force simp: image_iff)
  qed
  ultimately show ?case by (auto simp: g ids_of_groups_def)
qed simp

lemma dvd_fold_lcm: "a dvd fold lcm xs a \<and> (\<forall>x \<in> set xs. x dvd fold lcm xs a)" for a :: int
proof (induction xs arbitrary: a)
  case (Cons y xs)
  have "lcm y a dvd fold lcm xs (lcm y a)" "\<forall>x \<in> set xs. x dvd fold lcm xs (lcm y a)" using Cons [of "lcm y a"] by simp_all
  then show ?case using dvd_lcm1 [of y a] dvd_lcm2 [of a y] by (auto intro: dvd_trans)
qed simp

section \<open>Properties\<close>

text \<open>The attention groups of a hybrid model partition the KV cache groups: every group id is in
  exactly one attention group, with the other ids of the same spec; full attention comes first; and the
  alignment is a multiple of every block size.\<close>

theorem attention_groups_partition:
  assumes "verify_and_split_kv_cache_groups specs = Inr (gs, al)"
  shows "disjoint_ids gs \<and> ids_of_groups gs = {..<length specs}
    \<and> (\<forall>(sp, ids) \<in> set gs. ids \<noteq> [] \<and> ids = filter (\<lambda>i. specs ! i = sp) [0..<length specs])
    \<and> (\<exists>k. list_all (\<lambda>g. is_full (fst g)) (take k gs) \<and> list_all (\<lambda>g. \<not> is_full (fst g)) (drop k gs))
    \<and> (\<forall>sp \<in> set specs. layer_block_size sp dvd al)"
proof -
  let ?sg = "split_groups specs" and ?full = "\<lambda>g. is_full (fst g)"
  have gs: "gs = filter ?full ?sg @ filter (\<lambda>g. \<not> is_full (fst g)) ?sg"
    and al: "al = fold lcm (map (\<lambda>g. layer_block_size (fst g)) ?sg) 1"
    using assms by (auto simp: verify_and_split_kv_cache_groups_def Let_def)
  have set: "set gs = set ?sg" by (auto simp: gs)
  have d: "distinct (map fst ?sg)" and f: "fst ` set ?sg = set specs"
    and i: "\<And>sp ids. (sp, ids) \<in> set gs \<Longrightarrow> ids = filter (\<lambda>i. specs ! i = sp) [0..<length specs]"
    using split_groups_ok [of specs] unfolding set by auto
  have "distinct (map fst gs)" using d by (auto simp: gs distinct_map inj_on_def)
  then have dj: "disjoint_ids gs" by (rule disjoint_ids_specs [where specs = specs]) (drule i, simp)
  have "\<exists>ids. (specs ! k, ids) \<in> set gs" if "k < length specs" for k
    using f nth_mem [OF that] unfolding set [symmetric] by force
  moreover have "i \<in> set ids \<longleftrightarrow> i < length specs \<and> specs ! i = sp" if "(sp, ids) \<in> set gs" for i sp ids
    by (subst i [OF that]) auto
  ultimately have "ids_of_groups gs = {..<length specs}" by (force simp: ids_of_groups_def)
  moreover have "ids \<noteq> [] \<and> ids = filter (\<lambda>i. specs ! i = sp) [0..<length specs]" if g: "(sp, ids) \<in> set gs" for sp ids
  proof -
    have "sp \<in> set specs" using g f by (force simp: set)
    then show ?thesis using i [OF g] by (auto simp: in_set_conv_nth filter_empty_conv)
  qed
  moreover have "\<exists>k. list_all ?full (take k gs) \<and> list_all (\<lambda>g. \<not> is_full (fst g)) (drop k gs)"
    by (rule exI [of _ "length (filter ?full ?sg)"]) (simp add: gs list_all_iff)
  moreover have "layer_block_size sp dvd al" if "sp \<in> set specs" for sp
    using dvd_fold_lcm [of 1 "map (\<lambda>g. layer_block_size (fst g)) ?sg"] that f unfolding al by force
  ultimately show ?thesis using dj by auto
qed

definition sample_sliding :: layer_spec where
  "sample_sliding = SlidingWindowSpec sample_attention 32"

theorem attention_groups_partition_witness:
  "\<exists>gs. verify_and_split_kv_cache_groups [sample_sliding, sample_full 128 None, sample_sliding] = Inr (gs, 16)
    \<and> disjoint_ids gs \<and> ids_of_groups gs = {..<3}"
proof -
  have v: "verify_and_split_kv_cache_groups [sample_sliding, sample_full 128 None, sample_sliding] =
      Inr ([(sample_full 128 None, [1]), (sample_sliding, [0, 2])], 16)"
    by (simp add: verify_and_split_kv_cache_groups_def split_groups_def sample_full_def sample_sliding_def
        sample_attention_def upt_rec)
  have three: "length [sample_sliding, sample_full 128 None, sample_sliding] = 3" by simp
  show ?thesis using attention_groups_partition [OF v, unfolded three] v by blast
qed

text \<open>C8: the iterative lookup of the hybrid coordinator terminates without raising, and its result is
  one hit length, at most the requested one, that is a multiple of the block size of every group; every
  group gets exactly the blocks of this length, and every block that its attention type needs to compute
  the next token is a cached block with the right hash.\<close>

theorem hybrid_lookup_converges:
  assumes "hybrid_ok s hs hbs ue al n gs" and "0 \<le> max_hit" and "max_hit \<le> int (length hs * hbs)"
  shows "\<exists>blks hit. hybrid_find_longest_cache_hit s hs hbs ue al gs n max_hit = Some (Inr (blks, hit))
    \<and> 0 \<le> hit \<and> hit \<le> max_hit \<and> length blks = n
    \<and> (\<forall>(spec, ids) \<in> set gs. \<exists>L. int L * layer_block_size spec = hit
         \<and> cols_ok s (map int ids) (group_bh hbs hs spec) (needed_block spec (layer_block_size spec) hit) L
              (map ((!) blks) ids))"
proof -
  let ?hits0 = "replicate n None :: group_hits"
  obtain c hits where r: "hybrid_loop s hs hbs ue al gs max_hit ?hits0 = Some (Inr (c, hits))" "0 \<le> c" "c \<le> max_hit"
    "length hits = n" "hybrid_hit s hs hbs ue gs c hits"
    using hybrid_start_ok [OF assms] by blast
  define blks where "blks = map (\<lambda>h. case h of None \<Rightarrow> [] | Some b \<Rightarrow> b) hits"
  have "\<exists>L. int L * layer_block_size spec = c \<and> cols_ok s (map int ids) (group_bh hbs hs spec)
      (needed_block spec (layer_block_size spec) c) L (map ((!) blks) ids)" if g: "(spec, ids) \<in> set gs" for spec ids
  proof -
    have "\<forall>i \<in> set ids. i < n" using assms(1) g by (auto simp: hybrid_ok_def group_ok_def)
    then have "columns hits ids = map ((!) blks) ids" using r(4) by (simp add: columns_def blks_def)
    then show ?thesis using r(5) g unfolding hybrid_hit_def group_hit_def by fastforce
  qed
  then show ?thesis using r(1-4) by (auto simp: hybrid_find_longest_cache_hit_def blks_def)
qed

lemma sample_hybrid_ok:
  "hybrid_ok (sample_pool 4) [[1], [2]] 16 ue 16 2 [(sample_full 128 None, [0]), (sample_sliding, [1])]"
  using sample_pool_free
  by (auto simp: hybrid_ok_def group_ok_def ids_of_groups_def block_size_ok_def group_id_ok_def sample_full_def
      sample_sliding_def sample_attention_def pool_inv_def pool_core_def)

theorem hybrid_lookup_converges_witness:
  "\<exists>blks hit. hybrid_find_longest_cache_hit (sample_pool 4) [[1], [2]] 16 False 16
      [(sample_full 128 None, [0]), (sample_sliding, [1])] 2 31 = Some (Inr (blks, hit)) \<and> hit \<le> 31 \<and> length blks = 2"
  using hybrid_lookup_converges [OF sample_hybrid_ok, of 31 False] by auto

text \<open>With speculative decoding (\<open>use_eagle\<close>) and a sliding window group the iteration drops a
  block in every pass and only ends at 0: the hybrid lookup never reports a hit, however much of the
  request is cached.\<close>

theorem hybrid_eagle_sliding_window_no_hit:
  assumes "hybrid_ok s hs hbs True al n gs" and "0 \<le> max_hit" and "max_hit \<le> int (length hs * hbs)"
    and "\<exists>g \<in> set gs. is_sliding (fst g)"
  shows "\<exists>blks. hybrid_find_longest_cache_hit s hs hbs True al gs n max_hit = Some (Inr (blks, 0))"
proof -
  let ?hits0 = "replicate n None :: group_hits"
  obtain c hits where r: "hybrid_loop s hs hbs True al gs max_hit ?hits0 = Some (Inr (c, hits))"
    "hybrid_hit s hs hbs True gs c hits"
    using hybrid_start_ok [OF assms(1-3)] by blast
  obtain g where g: "g \<in> set gs" "is_sliding (fst g)" using assms(4) by blast
  then have "c = 0" using r(2) unfolding hybrid_hit_def by fastforce
  then show ?thesis using r(1) by (simp add: hybrid_find_longest_cache_hit_def)
qed

theorem hybrid_eagle_sliding_window_no_hit_witness:
  "\<exists>blks. hybrid_find_longest_cache_hit (sample_pool 4) [[1], [2]] 16 True 16
      [(sample_full 128 None, [0]), (sample_sliding, [1])] 2 31 = Some (Inr (blks, 0))"
  using hybrid_eagle_sliding_window_no_hit [OF sample_hybrid_ok, of 31] by (auto simp: sample_sliding_def)

end
