(* ===== verification/Cache_Stats.thy ===== *)
theory Cache_Stats
  imports Prelude "HOL-Library.Sublist"
begin

text \<open>
  The prefix cache statistics of \<open>vllm/v1/metrics/stats.py\<close>: \<open>PrefixCacheStats\<close>, which the KV cache
  manager fills between two steps, and \<open>CachingMetrics\<close>, which aggregates them over a window of recent
  requests.  The window is a queue of updates beside running totals; the invariant ties the two
  together.
\<close>

section \<open>Statistics of one step\<close>

record prefix_cache_stats =
  stats_reset :: bool
  stats_requests :: int
  stats_queries :: int
  stats_hits :: int
  preempted_requests :: int
  preempted_queries :: int
  preempted_hits :: int

definition PrefixCacheStats :: prefix_cache_stats where
  "PrefixCacheStats = \<lparr>stats_reset = False, stats_requests = 0, stats_queries = 0, stats_hits = 0,
     preempted_requests = 0, preempted_queries = 0, preempted_hits = 0\<rparr>"

definition stats_record :: "int \<Rightarrow> int \<Rightarrow> bool \<Rightarrow> prefix_cache_stats \<Rightarrow> prefix_cache_stats" where
  "stats_record num_toks num_hits preempted st =
     (if preempted
      then st\<lparr>preempted_requests := preempted_requests st + 1,
              preempted_queries := preempted_queries st + num_toks,
              preempted_hits := preempted_hits st + num_hits\<rparr>
      else st\<lparr>stats_requests := stats_requests st + 1,
              stats_queries := stats_queries st + num_toks,
              stats_hits := stats_hits st + num_hits\<rparr>)"

section \<open>The window of recent requests\<close>

record caching_metrics =
  max_recent_requests :: int
  aggregated_requests :: int
  aggregated_query_total :: int
  aggregated_query_hit :: int
  query_queue :: "(int \<times> int \<times> int) list"

definition CachingMetrics :: "int \<Rightarrow> caching_metrics" where
  "CachingMetrics n = \<lparr>max_recent_requests = n, aggregated_requests = 0, aggregated_query_total = 0,
     aggregated_query_hit = 0, query_queue = []\<rparr>"

definition metrics_reset :: "caching_metrics \<Rightarrow> caching_metrics" where
  "metrics_reset m = m\<lparr>aggregated_requests := 0, aggregated_query_total := 0, aggregated_query_hit := 0,
     query_queue := []\<rparr>"

text \<open>The loop \<open>while len(self.query_queue) > 1 and aggregated_requests > max_recent_requests\<close>.\<close>

fun drop_oldest :: "int \<Rightarrow> (int \<times> int \<times> int) list \<Rightarrow> int \<Rightarrow> int \<Rightarrow> int \<Rightarrow>
    (int \<times> int \<times> int) list \<times> int \<times> int \<times> int" where
  "drop_oldest mx ((r, q, h) # e # es) ar aq ah =
     (if mx < ar then drop_oldest mx (e # es) (ar - r) (aq - q) (ah - h) else ((r, q, h) # e # es, ar, aq, ah))"
| "drop_oldest mx qs ar aq ah = (qs, ar, aq, ah)"

definition observe :: "prefix_cache_stats \<Rightarrow> caching_metrics \<Rightarrow> caching_metrics" where
  "observe st m0 =
     (let m = (if stats_reset st then metrics_reset m0 else m0) in
      if stats_requests st = 0 then m
      else
        let (qs, ar, aq, ah) = drop_oldest (max_recent_requests m)
              (query_queue m @ [(stats_requests st, stats_queries st, stats_hits st)])
              (aggregated_requests m + stats_requests st) (aggregated_query_total m + stats_queries st)
              (aggregated_query_hit m + stats_hits st)
        in m\<lparr>aggregated_requests := ar, aggregated_query_total := aq, aggregated_query_hit := ah, query_queue := qs\<rparr>)"

definition metrics_empty :: "caching_metrics \<Rightarrow> bool" where
  "metrics_empty m \<longleftrightarrow> aggregated_requests m = 0"

definition hit_rate :: "caching_metrics \<Rightarrow> real" where
  "hit_rate m =
     (if aggregated_query_total m = 0 then 0
      else real_of_int (aggregated_query_hit m) / real_of_int (aggregated_query_total m))"

section \<open>The totals are the sums of the window\<close>

definition totals :: "(int \<times> int \<times> int) list \<Rightarrow> int \<times> int \<times> int" where
  "totals qs = (\<Sum>(r, q, h) \<leftarrow> qs. r, \<Sum>(r, q, h) \<leftarrow> qs. q, \<Sum>(r, q, h) \<leftarrow> qs. h)"

definition metrics_inv :: "caching_metrics \<Rightarrow> bool" where
  "metrics_inv m \<longleftrightarrow> (aggregated_requests m, aggregated_query_total m, aggregated_query_hit m) = totals (query_queue m)
     \<and> (\<forall>(r, q, h) \<in> set (query_queue m). 0 < r \<and> 0 \<le> h \<and> h \<le> q)
     \<and> (length (query_queue m) \<le> 1 \<or> aggregated_requests m \<le> max_recent_requests m)"

lemma drop_oldest_ok:
  assumes "(ar, aq, ah) = totals qs" and "drop_oldest mx qs ar aq ah = (qs', ar', aq', ah')"
  shows "(ar', aq', ah') = totals qs' \<and> suffix qs' qs \<and> (qs \<noteq> [] \<longrightarrow> qs' \<noteq> []) \<and> (length qs' \<le> 1 \<or> ar' \<le> mx)"
  using assms
proof (induction mx qs ar aq ah rule: drop_oldest.induct)
  case (1 mx r q h e es ar aq ah)
  show ?case
  proof (cases "mx < ar")
    case True
    then have "(ar', aq', ah') = totals qs' \<and> suffix qs' (e # es) \<and> (e # es \<noteq> [] \<longrightarrow> qs' \<noteq> []) \<and> (length qs' \<le> 1 \<or> ar' \<le> mx)"
      using 1 by (auto simp: totals_def)
    then show ?thesis by (auto simp: suffix_Cons)
  qed (use 1 in auto)
qed auto

definition stats_ok :: "prefix_cache_stats \<Rightarrow> bool" where
  "stats_ok st \<longleftrightarrow> 0 \<le> stats_requests st \<and> 0 \<le> stats_hits st \<and> stats_hits st \<le> stats_queries st"

lemma stats_record_ok [simp]:
  "stats_ok PrefixCacheStats"
  "stats_ok st \<Longrightarrow> 0 \<le> h \<Longrightarrow> h \<le> n \<Longrightarrow> stats_ok (stats_record n h p st)"
  by (auto simp: stats_ok_def PrefixCacheStats_def stats_record_def)

lemma totals_bounds:
  "\<forall>(r, q, h) \<in> set qs. 0 < r \<and> 0 \<le> h \<and> h \<le> q \<Longrightarrow> totals qs = (a, b, c) \<Longrightarrow> 0 \<le> c \<and> c \<le> b"
  by (induction qs arbitrary: a b c) (fastforce simp: totals_def)+

section \<open>Properties\<close>

text \<open>Observing the statistics of a step keeps the running totals equal to the sums over the window;
  the window keeps the newest update and, unless that is the only one, counts at most the configured
  number of requests.\<close>

theorem observe_window:
  assumes "metrics_inv m" and "stats_ok st"
  shows "metrics_inv (observe st m)
    \<and> suffix (query_queue (observe st m))
        ((if stats_reset st then [] else query_queue m) @
         (if stats_requests st = 0 then [] else [(stats_requests st, stats_queries st, stats_hits st)]))
    \<and> (stats_requests st \<noteq> 0 \<longrightarrow> query_queue (observe st m) \<noteq> []
        \<and> last (query_queue (observe st m)) = (stats_requests st, stats_queries st, stats_hits st))"
proof (cases "stats_requests st = 0")
  case True
  then show ?thesis using assms(1) by (auto simp: observe_def Let_def metrics_reset_def metrics_inv_def totals_def)
next
  case False
  define m1 where "m1 = (if stats_reset st then metrics_reset m else m)"
  define e where "e = (stats_requests st, stats_queries st, stats_hits st)"
  have m1: "metrics_inv m1" using assms(1) by (auto simp: m1_def metrics_inv_def metrics_reset_def totals_def)
  obtain qs ar aq ah where d: "drop_oldest (max_recent_requests m1) (query_queue m1 @ [e])
      (aggregated_requests m1 + stats_requests st) (aggregated_query_total m1 + stats_queries st)
      (aggregated_query_hit m1 + stats_hits st) = (qs, ar, aq, ah)" by (metis prod_cases4)
  have "(aggregated_requests m1 + stats_requests st, aggregated_query_total m1 + stats_queries st,
      aggregated_query_hit m1 + stats_hits st) = totals (query_queue m1 @ [e])"
    using m1 by (simp add: metrics_inv_def totals_def e_def)
  from drop_oldest_ok [OF this d] have q: "(ar, aq, ah) = totals qs" "suffix qs (query_queue m1 @ [e])" "qs \<noteq> []"
    "length qs \<le> 1 \<or> ar \<le> max_recent_requests m1" by blast+
  have o: "observe st m = m1\<lparr>aggregated_requests := ar, aggregated_query_total := aq, aggregated_query_hit := ah, query_queue := qs\<rparr>"
    using False d by (simp add: observe_def Let_def m1_def [symmetric] e_def)
  have "\<forall>(r, q, h) \<in> set (query_queue m1 @ [e]). 0 < r \<and> 0 \<le> h \<and> h \<le> q"
    using m1 assms(2) False by (auto simp: metrics_inv_def e_def stats_ok_def)
  then have "metrics_inv (observe st m)" using q set_mono_suffix [OF q(2)] unfolding o metrics_inv_def by auto
  moreover have "last qs = e" using q(2,3) by (auto simp: suffix_def) (metis last_appendR last_snoc)
  moreover have "query_queue m1 = (if stats_reset st then [] else query_queue m)"
    by (simp add: m1_def metrics_reset_def)
  ultimately show ?thesis using q(2,3) False by (simp add: o e_def)
qed

theorem observe_window_witness:
  "metrics_inv (observe (stats_record 32 16 False PrefixCacheStats) (CachingMetrics 1000))"
proof -
  have "metrics_inv (CachingMetrics 1000)" by (simp add: metrics_inv_def CachingMetrics_def totals_def)
  from observe_window [OF this, of "stats_record 32 16 False PrefixCacheStats"] show ?thesis by simp
qed

text \<open>The reported hit rate is between 0 and 1.\<close>

theorem hit_rate_bounds:
  assumes "metrics_inv m"
  shows "0 \<le> hit_rate m \<and> hit_rate m \<le> 1"
proof -
  have "totals (query_queue m) = (aggregated_requests m, aggregated_query_total m, aggregated_query_hit m)"
    using assms by (simp add: metrics_inv_def)
  then have "0 \<le> aggregated_query_hit m \<and> aggregated_query_hit m \<le> aggregated_query_total m"
    using totals_bounds [of "query_queue m"] assms unfolding metrics_inv_def by blast
  then show ?thesis by (auto simp: hit_rate_def)
qed

theorem hit_rate_bounds_witness: "hit_rate (CachingMetrics 1000) \<le> 1"
  using hit_rate_bounds [of "CachingMetrics 1000"] by (simp add: metrics_inv_def CachingMetrics_def totals_def)

end
