(* ===== verification/KV_Manager.thy ===== *)
theory KV_Manager
  imports Hybrid_Lookup Cache_Stats
begin

text \<open>
  The KV cache manager, the interface between the scheduler and the block pool:
  \<open>vllm/v1/core/kv_cache_manager.py\<close>.  The manager owns a coordinator, which owns the pool and the
  managers of the groups.  \<open>allocate_slots\<close> returns \<open>None\<close> when the pool cannot serve the request, so
  its result is an option inside the result type of the exceptions.
\<close>

section \<open>State\<close>

text \<open>\<open>KVCacheBlocks\<close>.  \<open>kb_singleton\<close> says that the tuple of blocks is the preconstructed empty tuple
  \<open>empty_kv_cache_blocks.blocks\<close>, which \<open>allocate_slots\<close> recognises by object identity.\<close>

record kv_cache_blocks =
  kb_blocks :: "bref list list"
  kb_singleton :: bool

definition KVCacheBlocks :: "bref list list \<Rightarrow> kv_cache_blocks" where
  "KVCacheBlocks bs = \<lparr>kb_blocks = bs, kb_singleton = False\<rparr>"

definition kb_add :: "kv_cache_blocks \<Rightarrow> kv_cache_blocks \<Rightarrow> kv_cache_blocks" where
  "kb_add a b = KVCacheBlocks (map2 (@) (kb_blocks a) (kb_blocks b))"

definition kb_get_block_ids :: "bool \<Rightarrow> block_pool \<Rightarrow> kv_cache_blocks \<Rightarrow> int list list option" where
  "kb_get_block_ids allow_none s kb =
     (if allow_none \<and> list_all (\<lambda>g. length g = 0) (kb_blocks kb) then None
      else Some (map (map (\<lambda>b. block_id (heap s b))) (kb_blocks kb)))"

definition kb_get_unhashed_block_ids :: "block_pool \<Rightarrow> kv_cache_blocks \<Rightarrow> int list result" where
  "kb_get_unhashed_block_ids s kb =
     py_assert (length (kb_blocks kb) = 1)
       (Inr (map (\<lambda>b. block_id (heap s b)) (filter (\<lambda>b. block_hash (heap s b) = None) (kb_blocks kb ! 0))))"

definition kb_new_empty :: "kv_cache_blocks \<Rightarrow> kv_cache_blocks" where
  "kb_new_empty kb = KVCacheBlocks (replicate (length (kb_blocks kb)) [])"

record kv_manager =
  km_max_model_len :: int
  km_enable_caching :: bool
  km_use_eagle :: bool
  km_log_stats :: bool
  km_stats :: "prefix_cache_stats option"
  km_coordinator :: coordinator
  num_kv_cache_groups :: nat

definition empty_kv_cache_blocks :: "kv_manager \<Rightarrow> kv_cache_blocks" where
  "empty_kv_cache_blocks k = \<lparr>kb_blocks = replicate (num_kv_cache_groups k) [], kb_singleton = True\<rparr>"

definition KVCacheManager_init ::
  "kv_cache_config \<Rightarrow> int \<Rightarrow> nat \<Rightarrow> bool \<Rightarrow> bool \<Rightarrow> bool \<Rightarrow> bool \<Rightarrow> int \<Rightarrow> int \<Rightarrow> bool \<Rightarrow> kv_manager result" where
  "KVCacheManager_init cfg max_len hbs caching use_eagle log_stats kv_events dcp pcp use_int =
     rbind (get_kv_cache_coordinator cfg use_eagle caching kv_events dcp pcp hbs use_int) (\<lambda>c.
       Inr \<lparr>km_max_model_len = max_len, km_enable_caching = caching, km_use_eagle = use_eagle,
            km_log_stats = log_stats, km_stats = (if log_stats then Some PrefixCacheStats else None),
            km_coordinator = c, num_kv_cache_groups = length (kv_cache_groups cfg)\<rparr>)"

abbreviation km_pool :: "kv_manager \<Rightarrow> block_pool" where
  "km_pool k \<equiv> c_pool (km_coordinator k)"

abbreviation km_managers :: "kv_manager \<Rightarrow> st_manager list" where
  "km_managers k \<equiv> c_managers (km_coordinator k)"

text \<open>The managers and the pool they share after an operation of the coordinator.\<close>

definition km_put :: "kv_manager \<Rightarrow> st_manager list \<times> block_pool \<Rightarrow> kv_manager" where
  "km_put k = (\<lambda>(ms, s). k\<lparr>km_coordinator := (km_coordinator k)\<lparr>c_managers := ms, c_pool := s\<rparr>\<rparr>)"

section \<open>Operations\<close>

definition usage :: "kv_manager \<Rightarrow> real" where
  "usage k = get_usage (km_pool k)"

definition make_prefix_cache_stats :: "kv_manager \<Rightarrow> prefix_cache_stats option \<times> kv_manager" where
  "make_prefix_cache_stats k =
     (if \<not> km_log_stats k then (None, k) else (km_stats k, k\<lparr>km_stats := Some PrefixCacheStats\<rparr>))"

definition create_kv_cache_blocks :: "kv_manager \<Rightarrow> bref list list \<Rightarrow> kv_cache_blocks" where
  "create_kv_cache_blocks k blks =
     (if list_ex (\<lambda>b. b \<noteq> []) blks then KVCacheBlocks blks else empty_kv_cache_blocks k)"

definition record_stats :: "request \<Rightarrow> int \<Rightarrow> kv_manager \<Rightarrow> kv_manager result" where
  "record_stats r hits k =
     (if \<not> km_log_stats k then Inr k
      else case km_stats k of
        None \<Rightarrow> Inl AssertionError
      | Some st \<Rightarrow> Inr (k\<lparr>km_stats := Some (stats_record (num_tokens r) hits (0 < num_preemptions r) st)\<rparr>))"

definition get_computed_blocks ::
  "request \<Rightarrow> kv_manager \<Rightarrow> ((kv_cache_blocks \<times> int) \<times> kv_manager) result option" where
  "get_computed_blocks r k =
     (if \<not> km_enable_caching k \<or> skip_reading_prefix_cache r
      then Some (Inr ((empty_kv_cache_blocks k, 0), k))
      else
        let max_cache_hit_length = num_tokens r - 1 in
        map_option (\<lambda>res. rbind res (\<lambda>(computed_blocks, num_new_computed_tokens).
            rbind (record_stats r num_new_computed_tokens k) (\<lambda>k'.
              Inr ((create_kv_cache_blocks k computed_blocks, num_new_computed_tokens), k'))))
          (coord_find_longest_cache_hit (km_coordinator k) (block_hashes r) max_cache_hit_length))"

text \<open>The last two stages of \<open>allocate_slots\<close>: new blocks, and caching what is full.\<close>

definition allocate_and_cache ::
  "request \<Rightarrow> int \<Rightarrow> int \<Rightarrow> int \<Rightarrow> bool \<Rightarrow> kv_manager \<Rightarrow> st_manager list \<times> block_pool \<Rightarrow>
   (kv_cache_blocks option \<times> kv_manager) result" where
  "allocate_and_cache r num_tokens_need_slot num_encoder_tokens num_tokens_to_cache delay_cache_blocks k = (\<lambda>(ms, s).
     rbind (coord_allocate_new_blocks (request_id r) num_tokens_need_slot num_encoder_tokens ms s)
       (\<lambda>(new_blocks, ms', s').
         if \<not> km_enable_caching k \<or> delay_cache_blocks
         then Inr (Some (create_kv_cache_blocks k new_blocks), km_put k (ms', s'))
         else rbind (coord_cache_blocks r num_tokens_to_cache ms' s') (\<lambda>p.
           Inr (Some (create_kv_cache_blocks k new_blocks), km_put k p))))"

definition allocate_slots ::
  "request \<Rightarrow> int \<Rightarrow> int \<Rightarrow> kv_cache_blocks option \<Rightarrow> int \<Rightarrow> int \<Rightarrow> bool \<Rightarrow> int \<Rightarrow> kv_manager \<Rightarrow>
   (kv_cache_blocks option \<times> kv_manager) result" where
  "allocate_slots r num_new_tokens num_new_computed_tokens new_computed_blocks num_lookahead_tokens
       num_external delay_cache_blocks num_encoder_tokens k =
     (if num_new_tokens = 0 \<and> num_external = 0 then Inl ValueError
      else
        let computed = (case new_computed_blocks of Some kb \<Rightarrow> kb | None \<Rightarrow> empty_kv_cache_blocks k);
            new_computed_block_list = kb_blocks computed;
            num_local_computed_tokens = num_computed_tokens r + num_new_computed_tokens;
            total_computed_tokens = min (num_local_computed_tokens + num_external) (km_max_model_len k);
            num_tokens_need_slot = min (total_computed_tokens + num_new_tokens + num_lookahead_tokens) (km_max_model_len k)
        in
        rbind (coord_remove_skipped_blocks (request_id r) total_computed_tokens (km_managers k) (km_pool k)) (\<lambda>(ms, s).
          rbind (coord_num_blocks (request_id r) num_tokens_need_slot new_computed_block_list num_encoder_tokens
                   (num_local_computed_tokens + num_external) 0 ms s) (\<lambda>num_blocks_to_allocate.
            if get_num_free_blocks s < num_blocks_to_allocate then Inr (None, km_put k (ms, s))
            else
              rbind (if \<not> kb_singleton computed \<or> 0 < num_external
                     then coord_allocate_new_computed_blocks (request_id r) new_computed_block_list
                            num_local_computed_tokens num_external ms s
                     else Inr (ms, s))
                (allocate_and_cache r num_tokens_need_slot num_encoder_tokens
                   (min (total_computed_tokens + num_new_tokens) (num_tokens r)) delay_cache_blocks k))))"

definition free :: "request \<Rightarrow> kv_manager \<Rightarrow> kv_manager result" where
  "free r k = rbind (coord_free (request_id r) (km_managers k) (km_pool k)) (\<lambda>p. Inr (km_put k p))"

definition km_remove_skipped_blocks :: "string \<Rightarrow> int \<Rightarrow> kv_manager \<Rightarrow> kv_manager result" where
  "km_remove_skipped_blocks rid n k =
     rbind (coord_remove_skipped_blocks rid n (km_managers k) (km_pool k)) (\<lambda>p. Inr (km_put k p))"

definition km_evict_blocks :: "int list \<Rightarrow> kv_manager \<Rightarrow> kv_manager result" where
  "km_evict_blocks ids k = rbind (evict_blocks ids (km_pool k)) (\<lambda>s. Inr (km_put k (km_managers k, s)))"

definition km_reset_prefix_cache :: "kv_manager \<Rightarrow> (bool \<times> kv_manager) result" where
  "km_reset_prefix_cache k =
     (let (ok, s) = reset_prefix_cache (km_pool k); k' = km_put k (km_managers k, s) in
      if \<not> ok then Inr (False, k')
      else if km_log_stats k
      then (case km_stats k of
              None \<Rightarrow> Inl AssertionError
            | Some st \<Rightarrow> Inr (True, k'\<lparr>km_stats := Some (st\<lparr>stats_reset := True\<rparr>)\<rparr>))
      else Inr (True, k'))"

definition km_get_num_common_prefix_blocks :: "string \<Rightarrow> kv_manager \<Rightarrow> int list \<times> kv_manager" where
  "km_get_num_common_prefix_blocks rid k =
     (let (ns, ms) = coord_common_prefix (c_kind (km_coordinator k)) rid (km_managers k) (km_pool k)
      in (ns, km_put k (ms, km_pool k)))"

definition km_take_events :: "kv_manager \<Rightarrow> kv_cache_event list \<times> kv_manager" where
  "km_take_events k = (let (evs, s) = pool_take_events (km_pool k) in (evs, km_put k (km_managers k, s)))"

definition get_blocks :: "string \<Rightarrow> kv_manager \<Rightarrow> kv_cache_blocks" where
  "get_blocks rid k = create_kv_cache_blocks k (coord_get_blocks rid (km_managers k))"

definition get_block_ids :: "string \<Rightarrow> kv_manager \<Rightarrow> int list list option" where
  "get_block_ids rid k = kb_get_block_ids False (km_pool k) (get_blocks rid k)"

definition km_cache_blocks :: "request \<Rightarrow> int \<Rightarrow> kv_manager \<Rightarrow> kv_manager result" where
  "km_cache_blocks r n k =
     (if km_enable_caching k
      then rbind (coord_cache_blocks r n (km_managers k) (km_pool k)) (\<lambda>p. Inr (km_put k p))
      else Inr k)"

section \<open>The invariant\<close>

definition km_inv :: "kv_manager \<Rightarrow> bool" where
  "km_inv k \<longleftrightarrow> sys_inv {#} (km_pool k) (km_managers k) \<and> length (km_managers k) = num_kv_cache_groups k
     \<and> km_enable_caching k = enable_caching (km_pool k) \<and> (km_log_stats k \<longrightarrow> km_stats k \<noteq> None)"

lemma km_put_simps [simp]:
  "km_pool (km_put k (ms, s)) = s" "km_managers (km_put k (ms, s)) = ms"
  "num_kv_cache_groups (km_put k p) = num_kv_cache_groups k" "km_enable_caching (km_put k p) = km_enable_caching k"
  "km_log_stats (km_put k p) = km_log_stats k" "km_stats (km_put k p) = km_stats k"
  "km_max_model_len (km_put k p) = km_max_model_len k"
  by (cases p; simp add: km_put_def)+

lemma km_inv_put:
  assumes "km_inv k" and "sys_inv {#} s ms" and "static s = static (km_pool k)" and "length ms = length (km_managers k)"
  shows "km_inv (km_put k (ms, s))"
  using assms enable_static [OF assms(3)] by (simp add: km_inv_def)

text \<open>What no operation on a request changes.\<close>

definition km_frame :: "kv_manager \<Rightarrow> kv_manager \<Rightarrow> bool" where
  "km_frame k k' \<longleftrightarrow> static (km_pool k') = static (km_pool k)
     \<and> c_kind (km_coordinator k') = c_kind (km_coordinator k)
     \<and> c_use_eagle (km_coordinator k') = c_use_eagle (km_coordinator k)
     \<and> km_max_model_len k' = km_max_model_len k \<and> km_enable_caching k' = km_enable_caching k
     \<and> num_kv_cache_groups k' = num_kv_cache_groups k"

lemma km_frame_refl [simp]: "km_frame k k"
  and km_frame_trans: "km_frame k k1 \<Longrightarrow> km_frame k1 k2 \<Longrightarrow> km_frame k k2"
  by (simp_all add: km_frame_def)

lemma km_frame_put: "static s = static (km_pool k) \<Longrightarrow> km_frame k (km_put k (ms, s))"
  by (simp add: km_frame_def) (simp add: km_put_def)

lemma free_ok:
  assumes "km_inv k"
  shows "\<exists>k'. free r k = Inr k' \<and> km_inv k' \<and> list_all (\<lambda>m. fresh_request m (request_id r)) (km_managers k')
    \<and> get_num_free_blocks (km_pool k) \<le> get_num_free_blocks (km_pool k')
    \<and> km_frame k k' \<and> list_all2 (same_group (request_id r)) (km_managers k) (km_managers k')"
proof -
  have "sys_inv {#} (km_pool k) (km_managers k)" using assms by (simp add: km_inv_def)
  from coord_free_ok [OF this, of "request_id r"]
  obtain ms s where p: "coord_free (request_id r) (km_managers k) (km_pool k) = Inr (ms, s)" "sys_inv {#} s ms"
    "held_frame {#} (km_pool k) (sys_held (km_pool k) (km_managers k)) s (sys_held s ms)"
    "list_all2 (\<lambda>m m'. same_group (request_id r) m m' \<and> fresh_request m' (request_id r)) (km_managers k) ms"
    "get_num_free_blocks (km_pool k) \<le> get_num_free_blocks s" by blast
  have "km_inv (km_put k (ms, s))"
    using km_inv_put [OF assms p(2) held_frame_static [OF p(3)]] p(4) by (simp add: list_all2_lengthD)
  moreover have "list_all (\<lambda>m. fresh_request m (request_id r)) ms"
    using p(4) by (auto simp: list_all2_conv_all_nth list_all_length)
  moreover have "list_all2 (same_group (request_id r)) (km_managers k) ms" by (rule list_all2_mono [OF p(4)]) simp
  ultimately show ?thesis using p(1,5) km_frame_put [OF held_frame_static [OF p(3)]] by (simp add: free_def)
qed

section \<open>Construction\<close>

text \<open>The groups the managers support; sink attention is excluded because its manager takes blocks out of
  the pool that no table holds.\<close>

definition plain_group :: "kv_cache_group_spec \<Rightarrow> bool" where
  "plain_group g \<longleftrightarrow> (case group_spec g of
     Layer l \<Rightarrow> 0 < layer_block_size l \<and> window_ok l
       \<and> (case l of EncoderOnlyAttentionSpec _ \<Rightarrow> False | SinkFullAttentionSpec _ _ _ \<Rightarrow> False | _ \<Rightarrow> True)
   | UniformTypeKVCacheSpecs _ _ \<Rightarrow> False)"

definition new_manager :: "block_pool \<Rightarrow> bool \<Rightarrow> int \<Rightarrow> int \<Rightarrow> int \<Rightarrow> kv_cache_group_spec \<Rightarrow> st_manager \<Rightarrow> bool" where
  "new_manager s caching i dcp pcp g m \<longleftrightarrow> (\<exists>l. group_spec g = Layer l \<and> window_ok l \<and> 0 < layer_block_size l
     \<and> m = SingleTypeKVCacheManager l s caching i dcp pcp)"

lemma make_managers_ok:
  assumes "list_all plain_group gs"
  shows "\<exists>ms. make_managers gs caching i dcp pcp s = Inr (ms, s) \<and> length ms = length gs
    \<and> (\<forall>j < length gs. new_manager s caching (i + int j) dcp pcp (gs ! j) (ms ! j))"
  using assms
proof (induction gs arbitrary: i)
  case (Cons g gs)
  obtain l where l: "group_spec g = Layer l" "window_ok l" "0 < layer_block_size l"
    using Cons.prems by (auto simp: plain_group_def split: kv_cache_spec.splits)
  have "get_manager_for_kv_cache_spec (group_spec g) s caching i dcp pcp =
      Inr (SingleTypeKVCacheManager l s caching i dcp pcp, s)"
    using Cons.prems by (cases l) (simp_all add: plain_group_def l get_manager_for_kv_cache_spec_def)
  moreover obtain ms where "make_managers gs caching (i + 1) dcp pcp s = Inr (ms, s)" "length ms = length gs"
    "\<forall>j < length gs. new_manager s caching (i + 1 + int j) dcp pcp (gs ! j) (ms ! j)"
    using Cons.IH [of "i + 1"] Cons.prems by auto
  moreover have "new_manager s caching i dcp pcp g (SingleTypeKVCacheManager l s caching i dcp pcp)"
    using l by (simp add: new_manager_def)
  ultimately show ?case by (auto simp: nth_Cons add.commute add.left_commute split: nat.split)
qed simp

lemma new_manager_inv:
  assumes "pool_inv s fl" and "\<forall>b \<in> usable s. refs s b = 0" and "no_hashes s"
    and "new_manager s (enable_caching s) i dcp pcp g m" and "0 < dcp" and "0 < pcp"
  shows "mgr_inv {#} s m \<and> mgr_held s m = {#}"
  using assms
  by (auto simp: new_manager_def SingleTypeKVCacheManager_def mgr_inv_def mgr_wf_def cell_inv_def counted_def
      table_ok_def blocks_of_request_def ncached_def others_def alist_held_def mgr_held_def no_hashes_def)

lemma sys_inv_new:
  assumes "pool_inv s fl" and "\<forall>b \<in> usable s. refs s b = 0" and "no_hashes s"
    and "\<And>m. m \<in> set ms \<Longrightarrow> mgr_inv {#} s m \<and> mgr_held s m = {#}"
  shows "sys_inv {#} s ms \<and> sys_held s ms = {#}"
  using assms(4) by (induction ms) (use assms(1-3) in \<open>auto simp: pool_ok_def counted_def no_hashes_def\<close>)

lemma KVCacheCoordinator_init_ok:
  assumes "0 < num_blocks cfg" and "list_all plain_group (kv_cache_groups cfg)" and "0 < dcp" and "0 < pcp"
  shows "\<exists>c. KVCacheCoordinator_init cfg ue caching kve dcp pcp hbs ui = Inr c \<and> sys_inv {#} (c_pool c) (c_managers c)
    \<and> length (c_managers c) = length (kv_cache_groups cfg) \<and> c_groups c = kv_cache_groups cfg
    \<and> enable_caching (c_pool c) = caching \<and> hash_block_size (c_pool c) = hbs
    \<and> get_num_free_blocks (c_pool c) = num_blocks cfg - 1
    \<and> (\<forall>j < length (kv_cache_groups cfg). new_manager (c_pool c) caching (int j) dcp pcp (kv_cache_groups cfg ! j) (c_managers c ! j))"
proof -
  obtain s where s: "BlockPool_init (num_blocks cfg) caching hbs kve ui = Inr s"
    "pool_inv s (map Blk [1..<nat (num_blocks cfg)])" "cmap s = []" "num_gpu_blocks s = num_blocks cfg"
    "enable_caching s = caching" "hash_block_size s = hbs"
    using BlockPool_init_inv [OF assms(1), of caching hbs kve ui] by blast
  obtain ms where ms: "make_managers (kv_cache_groups cfg) caching 0 dcp pcp s = Inr (ms, s)"
    "length ms = length (kv_cache_groups cfg)"
    "\<forall>j < length (kv_cache_groups cfg). new_manager s caching (int j) dcp pcp (kv_cache_groups cfg ! j) (ms ! j)"
    using make_managers_ok [OF assms(2), of caching 0 dcp pcp s] by auto
  have r: "\<forall>b \<in> usable s. refs s b = 0"
    using s(2,4) by (force simp: pool_inv_def pool_core_def refs_ok_def usable_def)
  have "hashes s b = None" if "b \<in> usable s" for b
    using s(2,3) that by (cases "hashes s b") (auto simp: pool_inv_def pool_core_def cache_ok_def blocks_of_def)
  then have h: "no_hashes s" by (simp add: no_hashes_def)
  have "mgr_inv {#} s m \<and> mgr_held s m = {#}" if m: "m \<in> set ms" for m
  proof -
    obtain j where "j < length ms" "m = ms ! j" using m by (auto simp: in_set_conv_nth)
    then have "new_manager s (enable_caching s) (int j) dcp pcp (kv_cache_groups cfg ! j) m" using ms(2,3) s(5) by simp
    then show ?thesis by (rule new_manager_inv [OF s(2) r h _ assms(3,4)])
  qed
  then have "sys_inv {#} s ms" using sys_inv_new [OF s(2) r h] by blast
  moreover have "get_num_free_blocks s = num_blocks cfg - 1"
    using num_free_of_pool_core [of s "map Blk [1..<nat (num_blocks cfg)]" "{}"] s(2) assms(1) by (simp add: pool_inv_def)
  ultimately show ?thesis using s ms by (auto simp: KVCacheCoordinator_init_def)
qed

section \<open>Allocation\<close>

text \<open>The slots of a request can be cached: every group has a valid id and block size, and the hashes of
  all its full blocks are computed.\<close>

definition caching_ok :: "block_pool \<Rightarrow> st_manager \<Rightarrow> request \<Rightarrow> bool" where
  "caching_ok s m r \<longleftrightarrow> \<not> is_cross (m_spec m) \<and> group_id_ok (kv_cache_group_id m)
     \<and> block_size_ok (hash_block_size s) (nat (m_block_size m))
     \<and> nat (num_tokens r) div hash_block_size s \<le> length (block_hashes r)"

lemma caching_ok_cong: "static s' = static s \<Longrightarrow> same_group rid m m' \<Longrightarrow> caching_ok s' m' r = caching_ok s m r"
  by (simp add: caching_ok_def static_eq same_group_def)

lemma group_hashes_length:
  assumes "block_size_ok hbs b"
  shows "length (group_hashes hbs b hs) = length hs div (b div hbs)"
  using assms by (auto simp: group_hashes_def block_size_ok_def Let_def)

lemma cacheable_grown:
  assumes ok: "caching_ok s m r" and g: "grown (request_id r) n nenc m m'" and e: "enable_caching s"
    and n: "nc \<le> n" "nc \<le> num_tokens r" and sp: "0 \<le> speculative_tokens m"
  shows "cacheable s m' r nc"
proof -
  let ?b = "m_block_size m" and ?h = "hash_block_size s"
  have sz: "block_size_ok ?h (nat ?b)" and b: "0 < ?b"
    using ok by (auto simp: caching_ok_def block_size_ok_def)
  have same: "m_block_size m' = ?b" "m_spec m' = m_spec m" "kv_cache_group_id m' = kv_cache_group_id m"
    using g by (simp_all add: grown_def same_group_def)
  have "nc div ?b \<le> cdiv nc ?b" by (rule cdiv_ge_div [OF b])
  also have "\<dots> \<le> cdiv (n + speculative_tokens m) ?b" using n(1) sp b by (intro cdiv_mono) auto
  also have "\<dots> \<le> int (length (blocks_of_request m' (request_id r)))"
    using g ok by (simp add: grown_def caching_ok_def)
  finally have "nat (nc div ?b) \<le> length (blocks_of_request m' (request_id r))" by simp
  moreover have "nat (nc div ?b) \<le> length (group_hashes ?h (nat ?b) (block_hashes r))"
  proof (cases "0 \<le> nc")
    case True
    define sc where "sc = nat ?b div ?h"
    have bh: "nat ?b = ?h * sc" using sz by (auto simp: block_size_ok_def sc_def)
    have "nat (nc div ?b) = nat nc div nat ?b" using True b by (simp add: nat_div_distrib)
    also have "\<dots> \<le> nat (num_tokens r) div nat ?b" using n(2) by (intro div_le_mono) simp
    also have "\<dots> = nat (num_tokens r) div ?h div sc" by (simp only: bh div_mult2_eq)
    also have "\<dots> \<le> length (block_hashes r) div sc" using ok by (intro div_le_mono) (simp add: caching_ok_def)
    finally show ?thesis by (simp only: group_hashes_length [OF sz] sc_def)
  next
    case False
    then have "nc div ?b < 0" using b by (simp add: div_neg_pos_less0)
    then show ?thesis by simp
  qed
  ultimately show ?thesis using ok e sz same by (simp add: cacheable_def caching_ok_def)
qed

lemma allocate_and_cache_ok:
  assumes k: "km_inv k" and inv: "sys_inv {#} s ms" and st: "static s = static (km_pool k)"
    and len: "length ms = length (km_managers k)"
    and cap: "(\<Sum>m \<leftarrow> ms. missing_blocks m (request_id r) (slot_tokens n nenc m)) \<le> get_num_free_blocks s"
    and cache: "km_enable_caching k \<and> \<not> delay \<Longrightarrow> nc \<le> n \<and> nc \<le> num_tokens r
       \<and> (\<forall>m \<in> set ms. caching_ok (km_pool k) m r \<and> 0 \<le> speculative_tokens m)"
  shows "\<exists>kb k'. allocate_and_cache r n nenc nc delay k (ms, s) = Inr (Some kb, k') \<and> km_inv k'
    \<and> list_all2 (grown (request_id r) n nenc) ms (km_managers k') \<and> km_frame k k'"
proof -
  let ?rid = "request_id r"
  obtain news ms1 s1 where a: "coord_allocate_new_blocks ?rid n nenc ms s = Inr (news, ms1, s1)" "sys_inv {#} s1 ms1"
    "held_frame {#} s (sys_held s ms) s1 (sys_held s1 ms1)" "list_all2 (grown ?rid n nenc) ms ms1"
    using coord_allocate_new_blocks_ok [OF inv cap] by blast
  have st1: "static s1 = static (km_pool k)" using held_frame_static [OF a(3)] st by simp
  have len1: "length ms1 = length (km_managers k)" using len a(4) by (simp add: list_all2_lengthD)
  show ?thesis
  proof (cases "\<not> km_enable_caching k \<or> delay")
    case True
    then show ?thesis using a km_inv_put [OF k a(2) st1 len1] km_frame_put [OF st1] by (auto simp: allocate_and_cache_def)
  next
    case False
    have e: "enable_caching s1" using False k enable_static [OF st1] by (simp add: km_inv_def)
    have "cacheable s1 m1 r nc" if m1: "m1 \<in> set ms1" for m1
    proof -
      obtain m where m: "m \<in> set ms" "grown ?rid n nenc m m1"
        using m1 a(4) by (metis in_set_conv_nth list_all2_conv_all_nth)
      have "caching_ok s1 m r" using cache False m(1) caching_ok_cong [OF st1, of ?rid m m r] by simp
      then show ?thesis using cacheable_grown [OF _ m(2) e] cache False m(1) by blast
    qed
    from coord_cache_ok [OF a(2) this] obtain ms2 s2 where c: "coord_cache_blocks r nc ms1 s1 = Inr (ms2, s2)"
      "sys_inv {#} s2 ms2" "held_frame {#} s1 (sys_held s1 ms1) s2 (sys_held s2 ms2)"
      "list_all2 (\<lambda>m m'. same_group ?rid m m' \<and> blocks_of_request m' ?rid = blocks_of_request m ?rid) ms1 ms2" by blast
    have "km_inv (km_put k (ms2, s2))"
      by (rule km_inv_put [OF k c(2)]) (use held_frame_static [OF c(3)] st1 len1 c(4) in \<open>auto simp: list_all2_lengthD\<close>)
    moreover have "list_all2 (grown ?rid n nenc) ms ms2"
      using a(4) c(4)
    proof (rule list_all2_trans [rotated])
      show "grown ?rid n nenc m m1 \<Longrightarrow> same_group ?rid m1 m2 \<and> blocks_of_request m2 ?rid = blocks_of_request m1 ?rid \<Longrightarrow>
          grown ?rid n nenc m m2" for m m1 m2
        unfolding grown_def using same_group_trans by auto
    qed
    moreover have "km_frame k (km_put k (ms2, s2))"
      by (rule km_frame_put) (use held_frame_static [OF c(3)] st1 in simp)
    ultimately show ?thesis using False a(1) c(1) by (auto simp: allocate_and_cache_def)
  qed
qed

text \<open>A request that already has blocks: the number of blocks to allocate is what its tables miss.\<close>

definition settled :: "string \<Rightarrow> int \<Rightarrow> st_manager \<Rightarrow> bool" where
  "settled rid tot m \<longleftrightarrow> is_cross (m_spec m) \<or> map_of (num_cached_block m) rid \<noteq> None
     \<or> get_num_skipped_tokens m tot div m_block_size m \<le> int (length (blocks_of_request m rid))"

lemma num_blocks_settled:
  "settled rid tot m \<Longrightarrow> \<not> is_cross (m_spec m) \<Longrightarrow> get_num_blocks_to_allocate m s rid n [] tot = Inr (missing_blocks m rid n)"
  by (auto simp: settled_def get_num_blocks_to_allocate_def base_num_blocks_to_allocate_def missing_blocks_def Let_def)

lemma num_blocks_cross:
  "is_cross (m_spec m) \<Longrightarrow> get_num_blocks_to_allocate m s rid n [] 0 = Inr (missing_blocks m rid n)"
  by (cases "m_spec m") (simp_all add: get_num_blocks_to_allocate_def base_num_blocks_to_allocate_def
      missing_blocks_def Let_def get_num_skipped_tokens_def)

lemma coord_num_blocks_settled:
  assumes "list_all (settled rid tot) ms" and "i + length ms \<le> N"
  shows "coord_num_blocks rid n (replicate N []) nenc tot i ms s =
    Inr (\<Sum>m \<leftarrow> ms. missing_blocks m rid (slot_tokens n nenc m))"
  using assms by (induction ms arbitrary: i) (simp_all add: num_blocks_settled num_blocks_cross)

text \<open>A new request: the blocks its tables miss, and the hits that nobody else holds.\<close>

definition new_blocks :: "int \<Rightarrow> int \<Rightarrow> st_manager \<Rightarrow> bref list \<Rightarrow> int" where
  "new_blocks n tot m cs = max (cdiv (n + speculative_tokens m) (m_block_size m) - int (max (skipped_blocks m tot) (length cs))) 0"

lemma num_blocks_fresh:
  assumes "fresh_request m rid"
  shows "get_num_blocks_to_allocate m s rid n cs tot =
    Inr (new_blocks n tot m cs + evictable s (drop (skipped_blocks m tot) cs))"
proof -
  have "max (get_num_skipped_tokens m tot div m_block_size m) (int (length cs)) = int (max (skipped_blocks m tot) (length cs))"
    by (simp add: skipped_blocks_def)
  then show ?thesis unfolding num_blocks_new_request [OF assms] new_blocks_def by simp
qed

lemma coord_num_blocks_fresh:
  assumes "list_all2 (\<lambda>m cs. fresh_request m rid \<and> \<not> is_cross (m_spec m) \<and> hit_blocks_ok s cs) ms (drop i blks)"
  shows "coord_num_blocks rid n blks nenc tot i ms s =
    Inr ((\<Sum>(m, cs) \<leftarrow> zip ms (drop i blks). new_blocks n tot m cs)
       + (\<Sum>(m, cs) \<leftarrow> zip ms (drop i blks). evictable s (drop (skipped_blocks m tot) cs)))"
  using assms
proof (induction ms arbitrary: i)
  case (Cons m ms)
  have i: "i < length blks" using Cons.prems by (auto dest: list_all2_lengthD)
  then have drop: "drop i blks = blks ! i # drop (Suc i) blks" by (simp add: Cons_nth_drop_Suc)
  show ?case using Cons.prems Cons.IH [of "Suc i"] i by (simp add: drop num_blocks_fresh)
qed simp

lemma remove_skipped_fresh:
  assumes "fresh_request m rid"
  shows "\<exists>m'. remove_skipped_blocks rid n (m, s) = Inr (m', s) \<and> fresh_request m' rid \<and> same_group rid m m'"
  using assms by (auto simp: remove_skipped_blocks_def fresh_request_def Let_def free_blocks_def append_n_def)

lemma coord_remove_skipped_fresh:
  assumes "list_all (\<lambda>m. fresh_request m rid) ms"
  shows "\<exists>ms'. for_managers (\<lambda>_. remove_skipped_blocks rid n) i ms s = Inr (ms', s)
    \<and> list_all2 (\<lambda>m m'. fresh_request m' rid \<and> same_group rid m m') ms ms'"
  using assms
proof (induction ms arbitrary: i)
  case (Cons m ms)
  then show ?case using remove_skipped_fresh [of m rid n s] Cons.IH [of "i + 1"] by fastforce
qed simp

section \<open>Properties\<close>

text \<open>The tables of the request have a slot for every token; the tables of all other requests are as
  before.\<close>

definition has_slots :: "string \<Rightarrow> int \<Rightarrow> int \<Rightarrow> st_manager \<Rightarrow> st_manager \<Rightarrow> bool" where
  "has_slots rid n nenc m m' \<longleftrightarrow> same_group rid m m'
     \<and> cdiv (slot_tokens n nenc m + speculative_tokens m) (m_block_size m) \<le> int (length (blocks_of_request m' rid))"

lemma speculative_same: "same_group rid m m' \<Longrightarrow> speculative_tokens m' = speculative_tokens m"
  by (simp add: same_group_def speculative_tokens_def)

lemma grown_has_slots: "same_group rid m m1 \<Longrightarrow> grown rid n nenc m1 m2 \<Longrightarrow> has_slots rid n nenc m m2"
  using same_group_trans [of rid m m1 m2] by (auto simp: has_slots_def grown_def same_group_def speculative_tokens_def)

lemma list_all2_compose:
  "list_all2 P xs ys \<Longrightarrow> list_all2 Q ys zs \<Longrightarrow> (\<And>x y z. P x y \<Longrightarrow> Q y z \<Longrightarrow> S x z) \<Longrightarrow> list_all2 S xs zs"
  by (rule list_all2_trans [where ?P1.0 = P and ?P2.0 = Q]) blast+

lemma same_group_cached_ok:
  assumes "list_all2 (same_group (request_id r)) ms ms'" and "static s' = static s"
    and "\<forall>m \<in> set ms. caching_ok s m r \<and> 0 \<le> speculative_tokens m"
  shows "\<forall>m \<in> set ms'. caching_ok s m r \<and> 0 \<le> speculative_tokens m"
proof
  fix m' assume "m' \<in> set ms'"
  then obtain m where m: "m \<in> set ms" "same_group (request_id r) m m'"
    using assms(1) by (metis in_set_conv_nth list_all2_conv_all_nth)
  then show "caching_ok s m' r \<and> 0 \<le> speculative_tokens m'"
    using assms(3) caching_ok_cong [of s s "request_id r" m m' r] speculative_same [of "request_id r" m m'] by simp
qed

definition unitary :: "kv_manager \<Rightarrow> layer_spec \<Rightarrow> int \<Rightarrow> bool" where
  "unitary k spec bs \<longleftrightarrow> c_kind (km_coordinator k) = Unitary spec bs 1 1
     \<and> (\<exists>m. km_managers k = [m] \<and> m_spec m = spec \<and> m_block_size m = bs \<and> kv_cache_group_id m = 0)
     \<and> hash_block_size (km_pool k) = nat bs \<and> layer_block_size spec = bs \<and> 0 < bs"

lemma unitary_init_ok:
  assumes "0 < num_blocks cfg" and g: "kv_cache_groups cfg = [g]" "plain_group g" "group_spec g = Layer spec"
    and hbs: "int hbs = layer_block_size spec"
  shows "\<exists>k. KVCacheManager_init cfg mx hbs True ue logging kve 1 1 ui = Inr k \<and> km_inv k
    \<and> unitary k spec (layer_block_size spec) \<and> km_max_model_len k = mx \<and> km_enable_caching k
    \<and> get_num_free_blocks (km_pool k) = num_blocks cfg - 1
    \<and> list_all (\<lambda>m. fresh_request m rid) (km_managers k)"
proof -
  obtain c where c: "KVCacheCoordinator_init cfg ue True kve 1 1 hbs ui = Inr c" "sys_inv {#} (c_pool c) (c_managers c)"
    "length (c_managers c) = length (kv_cache_groups cfg)" "c_groups c = kv_cache_groups cfg" "enable_caching (c_pool c)"
    "hash_block_size (c_pool c) = hbs" "get_num_free_blocks (c_pool c) = num_blocks cfg - 1"
    "\<forall>j < length (kv_cache_groups cfg). new_manager (c_pool c) True (int j) 1 1 (kv_cache_groups cfg ! j) (c_managers c ! j)"
    using KVCacheCoordinator_init_ok [OF assms(1), of 1 1 ue True kve hbs ui] g by auto
  obtain m where m: "c_managers c = [m]" using c(3) g by (auto simp: length_Suc_conv)
  have nm: "m = SingleTypeKVCacheManager spec (c_pool c) True 0 1 1" using c(8) g m by (simp add: new_manager_def)
  have bs: "0 < layer_block_size spec" using g by (simp add: plain_group_def)
  have init: "KVCacheManager_init cfg mx hbs True ue logging kve 1 1 ui =
      Inr \<lparr>km_max_model_len = mx, km_enable_caching = True, km_use_eagle = ue,
            km_log_stats = logging, km_stats = (if logging then Some PrefixCacheStats else None),
            km_coordinator = c\<lparr>c_kind := Unitary spec (layer_block_size spec) 1 1\<rparr>, num_kv_cache_groups = 1\<rparr>"
    using c(1,4) g hbs by (simp add: KVCacheManager_init_def get_kv_cache_coordinator_def UnitaryKVCacheCoordinator_init_def
        layer_of_def)
  show ?thesis unfolding init
    using c m bs hbs by (simp add: km_inv_def unitary_def nm SingleTypeKVCacheManager_def fresh_request_def blocks_of_request_def)
qed

text \<open>A small configuration: 8 blocks of 16 tokens and one full attention group.\<close>

definition sample_config :: kv_cache_config where
  "sample_config = \<lparr>num_blocks = 8, kv_cache_tensors = [],
     kv_cache_groups = [\<lparr>layer_names = [''l0''], group_spec = Layer (sample_full 128 None)\<rparr>]\<rparr>"

definition sample_kvm :: kv_manager where
  "sample_kvm = projr (KVCacheManager_init sample_config 100 16 True False True False 1 1 False)"

lemma sample_kvm_ok:
  "km_inv sample_kvm" "unitary sample_kvm (sample_full 128 None) 16" "km_max_model_len sample_kvm = 100"
  "km_enable_caching sample_kvm" "list_all (\<lambda>m. fresh_request m rid) (km_managers sample_kvm)"
proof -
  define g where "g = \<lparr>layer_names = [''l0''], group_spec = Layer (sample_full 128 None)\<rparr>"
  have bs: "layer_block_size (sample_full 128 None) = 16" by (simp add: sample_full_def sample_attention_def)
  have cfg: "0 < num_blocks sample_config" "kv_cache_groups sample_config = [g]" by (simp_all add: sample_config_def g_def)
  have g: "plain_group g" "group_spec g = Layer (sample_full 128 None)"
    by (simp_all add: g_def plain_group_def sample_full_def sample_attention_def)
  have "int 16 = layer_block_size (sample_full 128 None)" using bs by simp
  from unitary_init_ok [OF cfg g this, of 100 False True False False rid]
  show "km_inv sample_kvm" "unitary sample_kvm (sample_full 128 None) 16" "km_max_model_len sample_kvm = 100"
    "km_enable_caching sample_kvm" "list_all (\<lambda>m. fresh_request m rid) (km_managers sample_kvm)"
    unfolding sample_kvm_def bs by (elim exE conjE; simp)+
qed

lemma sample_kvm_manager:
  obtains m where "km_managers sample_kvm = [m]" "m_spec m = sample_full 128 None" "m_block_size m = 16"
    "kv_cache_group_id m = 0" "hash_block_size (km_pool sample_kvm) = 16"
  using sample_kvm_ok(2) by (auto simp: unitary_def)

text \<open>The tables of a request that was not given new blocks keep their length.\<close>

definition kept :: "string \<Rightarrow> st_manager \<Rightarrow> st_manager \<Rightarrow> bool" where
  "kept rid m m' \<longleftrightarrow> same_group rid m m' \<and> map_of (num_cached_block m') rid = map_of (num_cached_block m) rid
     \<and> length (blocks_of_request m' rid) = length (blocks_of_request m rid)"

lemma kept_same_group: "list_all2 (kept rid) ms ms' \<Longrightarrow> list_all2 (same_group rid) ms ms'"
  by (erule list_all2_mono) (simp add: kept_def)

lemma allocate_running_ok:
  assumes k: "km_inv k" and nn: "nn \<noteq> 0" and kb: "kb = None \<or> kb = Some (empty_kv_cache_blocks k)"
    and settled: "list_all (settled (request_id r) (num_computed_tokens r)) (km_managers k)"
    and need: "need = min (min (num_computed_tokens r) (km_max_model_len k) + nn + look) (km_max_model_len k)"
    and cache: "km_enable_caching k \<and> \<not> delay \<longrightarrow> 0 \<le> look \<and> num_tokens r \<le> km_max_model_len k
       \<and> (\<forall>m \<in> set (km_managers k). caching_ok (km_pool k) m r \<and> 0 \<le> speculative_tokens m)"
  shows "\<exists>res k'. allocate_slots r nn 0 kb look 0 delay nenc k = Inr (res, k') \<and> km_inv k' \<and> km_frame k k'
    \<and> (case res of
         Some _ \<Rightarrow> list_all2 (has_slots (request_id r) need nenc) (km_managers k) (km_managers k')
       | None \<Rightarrow> list_all2 (kept (request_id r)) (km_managers k) (km_managers k')
           \<and> get_num_free_blocks (km_pool k')
               < (\<Sum>m \<leftarrow> km_managers k. missing_blocks m (request_id r) (slot_tokens need nenc m)))"
proof -
  let ?rid = "request_id r" and ?nc = "num_computed_tokens r"
  let ?sum = "\<lambda>ms. \<Sum>m \<leftarrow> ms. missing_blocks m ?rid (slot_tokens need nenc m)"
  define tot where "tot = min ?nc (km_max_model_len k)"
  have inv: "sys_inv {#} (km_pool k) (km_managers k)" using k by (simp add: km_inv_def)
  obtain ms s where s: "coord_remove_skipped_blocks ?rid tot (km_managers k) (km_pool k) = Inr (ms, s)" "sys_inv {#} s ms"
    "held_frame {#} (km_pool k) (sys_held (km_pool k) (km_managers k)) s (sys_held s ms)"
    and l2: "list_all2 (\<lambda>m m'. same_group ?rid m m' \<and> num_cached_block m' = num_cached_block m
        \<and> length (blocks_of_request m' ?rid) = length (blocks_of_request m ?rid)) (km_managers k) ms"
    using coord_remove_skipped_ok [OF inv, of ?rid tot] by blast
  have st: "static s = static (km_pool k)" using s(3) by (rule held_frame_static)
  have len: "length ms = length (km_managers k)" using l2 by (simp add: list_all2_lengthD)
  have same: "list_all2 (same_group ?rid) (km_managers k) ms" by (rule list_all2_mono [OF l2]) simp
  have settled': "list_all (settled ?rid ?nc) ms" and sum: "?sum ms = ?sum (km_managers k)"
    using l2 settled by (induction rule: list_all2_induct)
      (auto simp: settled_def same_group_def get_num_skipped_tokens_def missing_blocks_def speculative_tokens_def)
  have num: "coord_num_blocks ?rid need (replicate (num_kv_cache_groups k) []) nenc ?nc 0 ms s = Inr (?sum ms)"
    using coord_num_blocks_settled [OF settled'] len k by (simp add: km_inv_def)
  have run: "allocate_slots r nn 0 kb look 0 delay nenc k =
      (if get_num_free_blocks s < ?sum ms then Inr (None, km_put k (ms, s))
       else allocate_and_cache r need nenc (min (tot + nn) (num_tokens r)) delay k (ms, s))"
    using nn kb s(1) num need
    by (auto simp: allocate_slots_def empty_kv_cache_blocks_def Let_def tot_def)
  show ?thesis
  proof (cases "get_num_free_blocks s < ?sum ms")
    case True
    have "list_all2 (kept ?rid) (km_managers k) ms" by (rule list_all2_mono [OF l2]) (simp add: kept_def)
    then show ?thesis using True run km_inv_put [OF k s(2) st len] km_frame_put [OF st] sum by auto
  next
    case False
    then have cap: "?sum ms \<le> get_num_free_blocks s" by simp
    have cache': "min (tot + nn) (num_tokens r) \<le> need \<and> min (tot + nn) (num_tokens r) \<le> num_tokens r
       \<and> (\<forall>m \<in> set ms. caching_ok (km_pool k) m r \<and> 0 \<le> speculative_tokens m)"
      if "km_enable_caching k \<and> \<not> delay"
      using that cache same_group_cached_ok [OF same st] by (auto simp: need tot_def)
    obtain kb' k' where a: "allocate_and_cache r need nenc (min (tot + nn) (num_tokens r)) delay k (ms, s) = Inr (Some kb', k')"
      "km_inv k'" "list_all2 (grown ?rid need nenc) ms (km_managers k')" "km_frame k k'"
      using allocate_and_cache_ok [OF k s(2) st len cap cache'] by blast
    have "list_all2 (has_slots ?rid need nenc) (km_managers k) (km_managers k')"
      by (rule list_all2_compose [OF same a(3)]) (rule grown_has_slots)
    then show ?thesis using run False a(1,2,4) by auto
  qed
qed

text \<open>C7: \<open>allocate_slots\<close> for a request without new cached blocks never raises and keeps the invariant of
  the manager and the pool, including exact reference counts.  Either it returns the new blocks and every
  table of the request has a slot for every token, or it returns \<open>None\<close>, which it does only when fewer
  blocks are free than the tables of the request miss.  The tables of all other requests are unchanged.\<close>

theorem allocate_slots_running:
  assumes k: "km_inv k" and nn: "nn \<noteq> 0" and kb: "kb = None \<or> kb = Some (empty_kv_cache_blocks k)"
    and settled: "list_all (settled (request_id r) (num_computed_tokens r)) (km_managers k)"
    and need: "need = min (min (num_computed_tokens r) (km_max_model_len k) + nn + look) (km_max_model_len k)"
    and cache: "km_enable_caching k \<and> \<not> delay \<longrightarrow> 0 \<le> look \<and> num_tokens r \<le> km_max_model_len k
       \<and> (\<forall>m \<in> set (km_managers k). caching_ok (km_pool k) m r \<and> 0 \<le> speculative_tokens m)"
  shows "\<exists>res k'. allocate_slots r nn 0 kb look 0 delay nenc k = Inr (res, k') \<and> km_inv k'
    \<and> (case res of
         Some _ \<Rightarrow> list_all2 (has_slots (request_id r) need nenc) (km_managers k) (km_managers k')
       | None \<Rightarrow> list_all2 (same_group (request_id r)) (km_managers k) (km_managers k')
           \<and> get_num_free_blocks (km_pool k')
               < (\<Sum>m \<leftarrow> km_managers k. missing_blocks m (request_id r) (slot_tokens need nenc m)))"
proof -
  obtain res k' where run: "allocate_slots r nn 0 kb look 0 delay nenc k = Inr (res, k')" "km_inv k'"
    and c: "case res of
         Some _ \<Rightarrow> list_all2 (has_slots (request_id r) need nenc) (km_managers k) (km_managers k')
       | None \<Rightarrow> list_all2 (kept (request_id r)) (km_managers k) (km_managers k')
           \<and> get_num_free_blocks (km_pool k')
               < (\<Sum>m \<leftarrow> km_managers k. missing_blocks m (request_id r) (slot_tokens need nenc m))"
    using allocate_running_ok [OF k nn kb settled need cache, where nenc = nenc] by blast
  have "list_all2 (kept (request_id r)) (km_managers k) (km_managers k')
      \<longrightarrow> list_all2 (same_group (request_id r)) (km_managers k) (km_managers k')"
    using kept_same_group by blast
  then show ?thesis using run c by (cases res) simp_all
qed

lemma sample_request_ok:
  "num_tokens (sample_request rid toks) = int (length toks)" "num_computed_tokens (sample_request rid toks) = 0"
  "request_id (sample_request rid toks) = rid" "block_hashes (sample_request rid toks) = []"
  "skip_reading_prefix_cache (sample_request rid toks) = False"
  by (simp_all add: sample_request_def num_tokens_def)

theorem allocate_slots_running_witness:
  "\<exists>res k'. allocate_slots (sample_request ''r'' [1, 2, 3]) 3 0 None 0 0 False 0 sample_kvm = Inr (res, k') \<and> km_inv k'"
proof -
  obtain m where m: "km_managers sample_kvm = [m]" "m_spec m = sample_full 128 None" "m_block_size m = 16"
    "kv_cache_group_id m = 0" "hash_block_size (km_pool sample_kvm) = 16" by (rule sample_kvm_manager)
  have "caching_ok (km_pool sample_kvm) m (sample_request ''r'' [1, 2, 3])"
    using m by (simp add: caching_ok_def sample_full_def group_id_ok_def block_size_ok_def sample_request_ok)
  moreover have "settled ''r'' 0 m" "0 \<le> speculative_tokens m"
    using m by (simp_all add: settled_def get_num_skipped_tokens_def sample_full_def speculative_tokens_def)
  ultimately show ?thesis
    using allocate_slots_running [OF sample_kvm_ok(1), of 3 None "sample_request ''r'' [1, 2, 3]" 3 0 False 0]
    by (auto simp: sample_request_ok sample_kvm_ok m(1))
qed

lemma takes_hit_missing:
  "takes_hit rid tot m cs m' \<Longrightarrow> \<not> is_cross (m_spec m) \<Longrightarrow>
     missing_blocks m' rid (slot_tokens n nenc m') = new_blocks n tot m cs"
  using speculative_same [of rid m m'] by (simp add: takes_hit_def missing_blocks_def new_blocks_def same_group_def)

lemma takes_hit_sum:
  assumes "list_all2 (\<lambda>(m, cs). takes_hit rid tot m cs) (zip ms css) ms'"
    and "list_all2 (\<lambda>m cs. fresh_request m rid \<and> \<not> is_cross (m_spec m) \<and> hit_blocks_ok s cs) ms css"
  shows "(\<Sum>m \<leftarrow> ms'. missing_blocks m rid (slot_tokens n nenc m)) = (\<Sum>(m, cs) \<leftarrow> zip ms css. new_blocks n tot m cs)
    \<and> list_all2 (same_group rid) ms ms'"
  using assms(2,1)
proof (induction arbitrary: ms' rule: list_all2_induct)
  case (Cons m ms cs css)
  then obtain m' rest where m': "ms' = m' # rest" "takes_hit rid tot m cs m'"
    "list_all2 (\<lambda>(m, cs). takes_hit rid tot m cs) (zip ms css) rest" by (cases ms') auto
  have "same_group rid m m'" using m'(2) by (simp add: takes_hit_def)
  then show ?case using Cons.IH [OF m'(3)] Cons.hyps m' takes_hit_missing [OF m'(2), where n = n and nenc = nenc] by simp
qed simp

lemma allocate_new_request_ok:
  assumes k: "km_inv k" and nn: "nn \<noteq> 0" and kb: "kb_blocks kb = blks" "\<not> kb_singleton kb"
    and hits: "list_all2 (\<lambda>m cs. fresh_request m (request_id r) \<and> \<not> is_cross (m_spec m) \<and> hit_blocks_ok (km_pool k) cs)
        (km_managers k) blks"
    and on: "km_enable_caching k"
    and tot: "tot = num_computed_tokens r + nnew"
    and need: "need = min (min tot (km_max_model_len k) + nn + look) (km_max_model_len k)"
    and cache: "0 \<le> look \<and> num_tokens r \<le> km_max_model_len k
       \<and> (\<forall>m \<in> set (km_managers k). caching_ok (km_pool k) m r \<and> 0 \<le> speculative_tokens m)"
  shows "\<exists>res k'. allocate_slots r nn nnew (Some kb) look 0 delay nenc k = Inr (res, k') \<and> km_inv k' \<and> km_frame k k'
    \<and> (case res of
         Some _ \<Rightarrow> list_all2 (has_slots (request_id r) need nenc) (km_managers k) (km_managers k')
       | None \<Rightarrow> list_all2 (kept (request_id r)) (km_managers k) (km_managers k')
           \<and> get_num_free_blocks (km_pool k')
               < (\<Sum>(m, cs) \<leftarrow> zip (km_managers k) blks. new_blocks need tot m cs)
                 + (\<Sum>(m, cs) \<leftarrow> zip (km_managers k) blks. evictable (km_pool k) (drop (skipped_blocks m tot) cs)))"
proof -
  let ?rid = "request_id r" and ?s = "km_pool k" and ?fresh = "\<lambda>s m cs. fresh_request m (request_id r) \<and> \<not> is_cross (m_spec m) \<and> hit_blocks_ok s cs"
  let ?new = "\<lambda>ms. \<Sum>(m, cs) \<leftarrow> zip ms blks. new_blocks need tot m cs"
  let ?ev = "\<lambda>ms. \<Sum>(m, cs) \<leftarrow> zip ms blks. evictable (km_pool k) (drop (skipped_blocks m tot) cs)"
  have inv: "sys_inv {#} ?s (km_managers k)" using k by (simp add: km_inv_def)
  have fr: "list_all (\<lambda>m. fresh_request m ?rid) (km_managers k)"
    using hits by (auto simp: list_all2_conv_all_nth list_all_length)
  obtain ms where s0: "coord_remove_skipped_blocks ?rid (min tot (km_max_model_len k)) (km_managers k) ?s = Inr (ms, ?s)"
    and l2: "list_all2 (\<lambda>m m'. fresh_request m' ?rid \<and> same_group ?rid m m') (km_managers k) ms"
    using coord_remove_skipped_fresh [OF fr, of _ 0 ?s] unfolding coord_remove_skipped_blocks_def by blast
  have inv0: "sys_inv {#} ?s ms" using coord_remove_skipped_ok [OF inv, of ?rid "min tot (km_max_model_len k)"] s0 by auto
  have len: "length ms = length (km_managers k)" using l2 by (simp add: list_all2_lengthD)
  have same: "list_all2 (same_group ?rid) (km_managers k) ms" by (rule list_all2_mono [OF l2]) simp
  have hits0: "list_all2 (?fresh ?s) ms blks"
    using hits l2 len by (auto simp: list_all2_conv_all_nth same_group_def)
  have eq: "new_blocks need tot m' cs = new_blocks need tot m cs" "skipped_blocks m' tot = skipped_blocks m tot"
    if "same_group ?rid m m'" for m m' cs
    using that by (simp_all add: new_blocks_def skipped_blocks_def same_group_def speculative_tokens_def get_num_skipped_tokens_def)
  have sums: "?new ms = ?new (km_managers k)" "?ev ms = ?ev (km_managers k)"
    using same hits eq(1) eq(2) [where m = "km_managers k ! i" and m' = "ms ! i" for i]
    by (auto intro!: arg_cong [where f = sum_list] arg_cong [where f = "evictable _"] arg_cong2 [where f = drop]
        simp: list_eq_iff_nth_eq list_all2_conv_all_nth)
  have num: "coord_num_blocks ?rid need blks nenc tot 0 ms ?s = Inr (?new ms + ?ev ms)"
    using coord_num_blocks_fresh [of ?rid ?s ms 0 blks] hits0 by simp
  have run: "allocate_slots r nn nnew (Some kb) look 0 delay nenc k =
      (if get_num_free_blocks ?s < ?new ms + ?ev ms then Inr (None, km_put k (ms, ?s))
       else rbind (coord_allocate_new_computed_blocks ?rid blks tot 0 ms ?s)
              (allocate_and_cache r need nenc (min (min tot (km_max_model_len k) + nn) (num_tokens r)) delay k))"
    using nn kb s0 num need by (simp add: allocate_slots_def Let_def tot)
  show ?thesis
  proof (cases "get_num_free_blocks ?s < ?new ms + ?ev ms")
    case True
    have "list_all2 (kept ?rid) (km_managers k) ms"
      using fr l2 by (auto simp: kept_def fresh_request_def list_all2_conv_all_nth list_all_length)
    then show ?thesis using True run km_inv_put [OF k inv0 refl len] km_frame_put [of ?s k ms] sums by auto
  next
    case False
    have nneg: "0 \<le> ?new ms" by (rule sum_list_nonneg) (auto simp: new_blocks_def)
    have evc: "?ev ms \<le> get_num_free_blocks ?s" using False nneg by simp
    have on': "enable_caching ?s \<or> (\<forall>cs \<in> set blks. cs = [])" using k on by (simp add: km_inv_def)
    obtain ms1 s1 where c: "coord_allocate_new_computed_blocks ?rid blks tot 0 ms ?s = Inr (ms1, s1)" "sys_inv {#} s1 ms1"
      "touched ?s s1" "list_all2 (\<lambda>(m, cs). takes_hit ?rid tot m cs) (zip ms blks) ms1"
      "get_num_free_blocks ?s - ?ev ms \<le> get_num_free_blocks s1"
      using computed_loop_ok [OF inv0, of ?rid 0 blks tot] hits0 on' evc
      unfolding coord_allocate_new_computed_blocks_def by auto
    note ts = takes_hit_sum [OF c(4) hits0, where n = need and nenc = nenc]
    have st: "static s1 = static ?s" using c(3) by (simp add: touched_def)
    have len1: "length ms1 = length (km_managers k)" using ts len list_all2_lengthD [of "same_group ?rid" ms ms1] by simp
    have same1: "list_all2 (same_group ?rid) (km_managers k) ms1"
      by (rule list_all2_compose [OF same]) (use ts same_group_trans in blast)+
    have cap: "(\<Sum>m \<leftarrow> ms1. missing_blocks m ?rid (slot_tokens need nenc m)) \<le> get_num_free_blocks s1"
      using ts c(5) False by simp
    have cache': "min (min tot (km_max_model_len k) + nn) (num_tokens r) \<le> need
       \<and> min (min tot (km_max_model_len k) + nn) (num_tokens r) \<le> num_tokens r
       \<and> (\<forall>m \<in> set ms1. caching_ok ?s m r \<and> 0 \<le> speculative_tokens m)"
      using cache same_group_cached_ok [OF same1 st] by (auto simp: need)
    obtain kb' k' where a: "allocate_and_cache r need nenc (min (min tot (km_max_model_len k) + nn) (num_tokens r)) delay k (ms1, s1)
        = Inr (Some kb', k')" "km_inv k'" "list_all2 (grown ?rid need nenc) ms1 (km_managers k')" "km_frame k k'"
      using allocate_and_cache_ok [OF k c(2) st len1 cap cache'] by blast
    have "list_all2 (has_slots ?rid need nenc) (km_managers k) (km_managers k')"
      by (rule list_all2_compose [OF same1 a(3)]) (rule grown_has_slots)
    then show ?thesis using run False a(1,2,4) c(1) by auto
  qed
qed



text \<open>The lookup of a manager with one group.\<close>

lemma record_stats_ok:
  assumes "km_inv k"
  shows "\<exists>st. record_stats r n k = Inr (k\<lparr>km_stats := st\<rparr>) \<and> km_inv (k\<lparr>km_stats := st\<rparr>)"
proof (cases "km_log_stats k")
  case False
  then show ?thesis using assms by (intro exI [of _ "km_stats k"]) (simp add: record_stats_def)
next
  case True
  then show ?thesis using assms by (auto simp: record_stats_def km_inv_def)
qed

lemma km_pool_inv: "km_inv k \<Longrightarrow> \<exists>fl. pool_inv (km_pool k) fl"
  using sys_inv_pool [of "{#}" "km_pool k" "km_managers k"] by (simp add: km_inv_def pool_ok_def)

lemma sys_inv_wf: "sys_inv R s ms \<Longrightarrow> m \<in> set ms \<Longrightarrow> mgr_wf s m"
  by (induction ms arbitrary: R) (auto dest: mgr_inv_wf)

lemma km_wf: "km_inv k \<Longrightarrow> m \<in> set (km_managers k) \<Longrightarrow> mgr_wf (km_pool k) m"
  using sys_inv_wf by (auto simp: km_inv_def)

lemma unitary_lookup_ok:
  assumes k: "km_inv k" and u: "unitary k spec bs" and f: "finder_ok spec (c_use_eagle (km_coordinator k)) bs 1 1"
    and hs: "distinct (block_hashes r)" "nat (num_tokens r) div nat bs \<le> length (block_hashes r)" and n: "0 < num_tokens r"
  shows "\<exists>col. coord_find_longest_cache_hit (km_coordinator k) (block_hashes r) (num_tokens r - 1)
      = Some (Inr ([col], int (length col) * bs))
    \<and> hit_blocks_ok (km_pool k) col \<and> int (length col) * bs < num_tokens r"
proof -
  let ?s = "km_pool k" and ?hs = "block_hashes r"
  have bs: "0 < bs" "layer_block_size spec = bs" and kind: "c_kind (km_coordinator k) = Unitary spec bs 1 1"
    using u by (simp_all add: unitary_def)
  obtain fl where fl: "pool_inv ?s fl" using km_pool_inv [OF k] by blast
  have ok: "lookup_ok ?s [0] (Plain ?hs)"
    using fl by (simp add: lookup_ok_def pool_inv_def pool_core_def group_id_ok_def)
  have fb: "bs = finder_block_size spec 1 1" using bs by (simp add: finder_block_size_def)
  have "nat ((num_tokens r - 1) div bs) = nat (num_tokens r - 1) div nat bs" using n bs by (simp add: nat_div_distrib)
  also have "\<dots> \<le> nat (num_tokens r) div nat bs" by (intro div_le_mono) simp
  finally have len: "nat ((num_tokens r - 1) div bs) \<le> length ?hs" using hs(2) by simp
  then have len': "nat ((num_tokens r - 1) div bs) \<le> bh_len (Plain ?hs)" by simp
  have n0: "0 \<le> num_tokens r - 1" using n by simp
  obtain cols L where c: "find_longest_cache_hit (Plain ?hs) (num_tokens r - 1) [0] ?s spec (c_use_eagle (km_coordinator k)) bs 1 1 = Inr cols"
    "cols_ok ?s [0] (Plain ?hs) (needed_block spec bs (int L * bs)) L cols" "int L * bs \<le> num_tokens r - 1"
    using find_longest_cache_hit_ok [OF ok fb bs(1) n0 len' f] by blast
  obtain col where col: "cols = [col]" "length col = L" using c(2) by (auto simp: cols_ok_def length_Suc_conv)
  have "int L \<le> (num_tokens r - 1) div bs" using c(3) le_div_iff_int [OF bs(1)] by simp
  then have "L \<le> length ?hs" using len by linarith
  then have "hit_blocks_ok ?s (cols ! 0)"
    by (intro cols_ok_hit_blocks [OF c(2)]) (simp_all add: group_id_ok_def hs)
  then show ?thesis using c col kind by (simp add: coord_find_longest_cache_hit_def)
qed

lemma admit_ok:
  assumes k: "km_inv k" and u: "unitary k spec bs" and f: "finder_ok spec (c_use_eagle (km_coordinator k)) bs 1 1"
    and r: "num_computed_tokens r = 0" "0 < num_tokens r" "num_tokens r \<le> km_max_model_len k"
    and hs: "distinct (block_hashes r)" "nat (num_tokens r) div nat bs \<le> length (block_hashes r)"
    and fresh: "list_all (\<lambda>m. fresh_request m (request_id r)) (km_managers k)"
    and on: "km_enable_caching k" "\<not> skip_reading_prefix_cache r" and nn: "nn \<noteq> 0" and look: "0 \<le> look"
  shows "\<exists>kb hit k1 res k2. get_computed_blocks r k = Some (Inr ((kb, hit), k1)) \<and> 0 \<le> hit \<and> hit < num_tokens r
    \<and> bs dvd hit \<and> allocate_slots r nn hit (Some kb) look 0 delay 0 k1 = Inr (res, k2) \<and> km_inv k2
    \<and> km_frame k k1 \<and> km_managers k1 = km_managers k \<and> km_pool k1 = km_pool k \<and> km_inv k1 \<and> km_frame k k2
    \<and> (case res of
         Some _ \<Rightarrow> list_all2 (has_slots (request_id r) (min (hit + nn + look) (km_max_model_len k)) 0) (km_managers k) (km_managers k2)
       | None \<Rightarrow> list_all2 (kept (request_id r)) (km_managers k) (km_managers k2))"
proof -
  let ?rid = "request_id r"
  obtain m where m: "km_managers k = [m]" "m_spec m = spec" "m_block_size m = bs" "kv_cache_group_id m = 0"
    and bs: "0 < bs" "layer_block_size spec = bs" "hash_block_size (km_pool k) = nat bs"
    using u by (auto simp: unitary_def)
  obtain col where col: "coord_find_longest_cache_hit (km_coordinator k) (block_hashes r) (num_tokens r - 1)
      = Some (Inr ([col], int (length col) * bs))" "hit_blocks_ok (km_pool k) col" "int (length col) * bs < num_tokens r"
    using unitary_lookup_ok [OF k u f hs r(2)] by blast
  define hit where "hit = int (length col) * bs"
  obtain st where st: "record_stats r hit k = Inr (k\<lparr>km_stats := st\<rparr>)" "km_inv (k\<lparr>km_stats := st\<rparr>)"
    using record_stats_ok [OF k] by blast
  define k1 where "k1 = k\<lparr>km_stats := st\<rparr>"
  have k1: "km_inv k1" "km_managers k1 = [m]" "km_pool k1 = km_pool k" "km_max_model_len k1 = km_max_model_len k"
    "km_enable_caching k1" "create_kv_cache_blocks k = create_kv_cache_blocks k1"
    using st(2) m on by (auto simp: k1_def create_kv_cache_blocks_def empty_kv_cache_blocks_def)
  define kb where "kb = create_kv_cache_blocks k [col]"
  have lookup: "get_computed_blocks r k = Some (Inr ((kb, hit), k1))"
    using col(1) st(1) on by (simp add: get_computed_blocks_def Let_def kb_def hit_def k1_def)
  have nx: "\<not> is_cross (m_spec m)" using f m(2) by (cases spec) auto
  have wf: "mgr_wf (km_pool k) m" using k m(1) mgr_inv_wf by (auto simp: km_inv_def)
  have sp: "0 \<le> speculative_tokens m" using speculative_nonneg [OF wf] m bs by simp
  have ca: "caching_ok (km_pool k) m r"
    using m bs nx hs(2) by (simp add: caching_ok_def group_id_ok_def block_size_ok_def)
  have hit: "0 \<le> hit" "hit < num_tokens r" "bs dvd hit" using bs(1) col(3) by (simp_all add: hit_def)
  have fr: "fresh_request m ?rid" using fresh m(1) by simp
  define need where "need = min (min hit (km_max_model_len k) + nn + look) (km_max_model_len k)"
  have "\<exists>res k2. allocate_slots r nn hit (Some kb) look 0 delay 0 k1 = Inr (res, k2) \<and> km_inv k2
      \<and> km_frame k1 k2 \<and> (case res of Some _ \<Rightarrow> list_all2 (has_slots ?rid need 0) (km_managers k1) (km_managers k2)
           | None \<Rightarrow> list_all2 (kept ?rid) (km_managers k1) (km_managers k2))"
  proof (cases "col = []")
    case True
    then have kb: "kb = empty_kv_cache_blocks k1" "hit = 0" by (simp_all add: kb_def k1(6) create_kv_cache_blocks_def hit_def)
    have "get_num_skipped_tokens m 0 \<le> 0" using skipped_le [of m 0] wf by (simp add: mgr_wf_def)
    then have "get_num_skipped_tokens m 0 div bs \<le> 0" using bs(1) zdiv_mono1 [of _ 0 bs] by fastforce
    then have "settled ?rid 0 m" using m by (simp add: settled_def)
    from allocate_running_ok [OF k1(1) nn, of "Some kb" r need look delay 0] this show ?thesis
      using kb k1 r look ca sp by (fastforce simp: need_def split: option.splits)
  next
    case False
    then have kb: "kb_blocks kb = [col]" "\<not> kb_singleton kb"
      by (simp_all add: kb_def create_kv_cache_blocks_def KVCacheBlocks_def)
    from allocate_new_request_ok [OF k1(1) nn kb, of r hit hit need look delay 0] show ?thesis
      using k1 r look ca sp fr nx col(2) by (fastforce simp: need_def split: option.splits)
  qed
  moreover have "need = min (hit + nn + look) (km_max_model_len k)" using hit r(3) by (simp add: need_def)
  moreover have "km_frame k k1" by (simp add: k1_def km_frame_def)
  ultimately show ?thesis using lookup hit k1(1-3) m(1) km_frame_trans [of k k1] by metis
qed



lemma no_blocks_free:
  assumes "km_inv k" and "\<forall>m \<in> set (km_managers k). \<forall>rid. blocks_of_request m rid = []"
  shows "\<forall>b \<in> usable (km_pool k). refs (km_pool k) b = 0"
proof -
  have "mgr_held (km_pool k) m = {#}" if m: "m \<in> set (km_managers k)" for m
  proof -
    have "distinct (map fst (req_to_blocks m))" using km_wf [OF assms(1) m] by (simp add: mgr_wf_def)
    then have "bs = []" if "(rid, bs) \<in> set (req_to_blocks m)" for rid bs
      using assms(2) m that by (auto simp: blocks_of_request_def split: option.splits)
    then have "map (\<lambda>(rid, bs). held (km_pool k) bs) (req_to_blocks m) = map (\<lambda>_. {#}) (req_to_blocks m)"
      by (intro map_cong refl) force
    moreover have "sum_list (map (\<lambda>_. {#}) xs) = {#}" for xs :: "(string \<times> bref list) list" by (induction xs) auto
    ultimately show ?thesis unfolding mgr_held_def alist_held_def by (simp only:)
  qed
  then have "sys_held (km_pool k) ms = {#}" if "set ms \<subseteq> set (km_managers k)" for ms
    using that by (induction ms) auto
  then have "counted (km_pool k) {#}"
    using sys_inv_pool [of "{#}" "km_pool k" "km_managers k"] assms(1) by (simp add: km_inv_def pool_ok_def)
  then show "\<forall>b \<in> usable (km_pool k). refs (km_pool k) b = 0" by (simp add: counted_def)
qed



end
