(* ===== verification/Heapq.thy ===== *)
theory Heapq
  imports Prelude "HOL-Library.Multiset"
begin

text \<open>
  The binary heap of Python's standard module \<open>heapq\<close>, which the priority queue of the scheduler is
  built on: a list in which every element is not greater than its two children.  The operations take
  the comparison \<open>__lt__\<close> of the elements as an argument; the locale \<open>heap_order\<close> collects what they
  need of it, and its lemmas show that the operations keep the heap and its elements.
\<close>

section \<open>Operations\<close>

text \<open>\<open>_siftdown(heap, startpos, pos)\<close>, after \<open>newitem = heap[pos]\<close>.\<close>

function siftdown_loop :: "('a \<Rightarrow> 'a \<Rightarrow> bool) \<Rightarrow> 'a \<Rightarrow> nat \<Rightarrow> nat \<Rightarrow> 'a list \<Rightarrow> 'a list" where
  "siftdown_loop lt newitem startpos pos h =
     (if startpos < pos \<and> lt newitem (h ! ((pos - 1) div 2))
      then siftdown_loop lt newitem startpos ((pos - 1) div 2) (h[pos := h ! ((pos - 1) div 2)])
      else h[pos := newitem])"
  by pat_completeness auto
termination
  by (relation "measure (\<lambda>(lt, newitem, startpos, pos, h). pos)") auto

definition siftdown :: "('a \<Rightarrow> 'a \<Rightarrow> bool) \<Rightarrow> nat \<Rightarrow> nat \<Rightarrow> 'a list \<Rightarrow> 'a list" where
  "siftdown lt startpos pos h = siftdown_loop lt (h ! pos) startpos pos h"

text \<open>The loop of \<open>_siftup\<close>, which moves the smaller child up until it reaches a leaf; it returns the
  list and the position of the hole.\<close>

function siftup_loop :: "('a \<Rightarrow> 'a \<Rightarrow> bool) \<Rightarrow> nat \<Rightarrow> 'a list \<Rightarrow> 'a list \<times> nat" where
  "siftup_loop lt pos h =
     (if 2 * pos + 1 < length h
      then let childpos = (if 2 * pos + 2 < length h \<and> \<not> lt (h ! (2 * pos + 1)) (h ! (2 * pos + 2))
                           then 2 * pos + 2 else 2 * pos + 1)
           in siftup_loop lt childpos (h[pos := h ! childpos])
      else (h, pos))"
  by pat_completeness auto
termination
  by (relation "measure (\<lambda>(lt, pos, h). length h - pos)") (auto simp: Let_def split: if_splits)

definition siftup :: "('a \<Rightarrow> 'a \<Rightarrow> bool) \<Rightarrow> nat \<Rightarrow> 'a list \<Rightarrow> 'a list" where
  "siftup lt pos h =
     (let newitem = h ! pos; (h', p) = siftup_loop lt pos h
      in siftdown lt pos p (h'[p := newitem]))"

declare siftdown_loop.simps [simp del] siftup_loop.simps [simp del]

definition heappush :: "('a \<Rightarrow> 'a \<Rightarrow> bool) \<Rightarrow> 'a list \<Rightarrow> 'a \<Rightarrow> 'a list" where
  "heappush lt h item = siftdown lt 0 (length h) (h @ [item])"

definition heappop :: "('a \<Rightarrow> 'a \<Rightarrow> bool) \<Rightarrow> 'a list \<Rightarrow> ('a \<times> 'a list) result" where
  "heappop lt h =
     (if h = [] then Inl IndexError
      else let lastelt = last h; h' = butlast h in
           if h' \<noteq> [] then Inr (h' ! 0, siftup lt 0 (h'[0 := lastelt])) else Inr (lastelt, h'))"

definition heapify :: "('a \<Rightarrow> 'a \<Rightarrow> bool) \<Rightarrow> 'a list \<Rightarrow> 'a list" where
  "heapify lt h = fold (siftup lt) (rev [0..<length h div 2]) h"

section \<open>The elements\<close>

lemma mset_move: "i < length h \<Longrightarrow> j < length h \<Longrightarrow> mset (h[i := h ! j, j := x]) = mset (h[i := x])"
proof (cases "i = j")
  case False
  assume ij: "i < length h" "j < length h"
  have "mset ((h[i := x])[j := h[i := x] ! i, i := h[i := x] ! j]) = mset (h[i := x])"
    by (rule mset_swap) (use ij in simp_all)
  moreover have "(h[i := x])[j := h[i := x] ! i, i := h[i := x] ! j] = h[i := h ! j, j := x]"
    using ij False by (auto simp: list_eq_iff_nth_eq nth_list_update)
  ultimately show ?thesis by simp
qed simp

lemma siftdown_loop_mset:
  "pos < length h \<Longrightarrow> mset (siftdown_loop lt x s pos h) = mset (h[pos := x])
     \<and> length (siftdown_loop lt x s pos h) = length h"
proof (induction lt x s pos h rule: siftdown_loop.induct)
  case (1 lt x s pos h)
  show ?case
  proof (cases "s < pos \<and> lt x (h ! ((pos - 1) div 2))")
    case True
    have p: "(pos - 1) div 2 < length h" using 1(2) by linarith
    then show ?thesis using 1(1) [OF True] 1(2) True mset_move [OF 1(2) p, of x]
      by (simp add: siftdown_loop.simps [of lt x s pos h])
  next
    case False
    then show ?thesis by (simp only: siftdown_loop.simps [of lt x s pos h] if_False) simp
  qed
qed

lemma siftup_loop_mset:
  "pos < length h \<Longrightarrow> siftup_loop lt pos h = (h', p) \<Longrightarrow>
     mset (h'[p := x]) = mset (h[pos := x]) \<and> length h' = length h \<and> pos \<le> p \<and> p < length h \<and> length h \<le> 2 * p + 1"
proof (induction lt pos h rule: siftup_loop.induct)
  case (1 lt pos h)
  show ?case
  proof (cases "2 * pos + 1 < length h")
    case True
    define c where "c = (if 2 * pos + 2 < length h \<and> \<not> lt (h ! (2 * pos + 1)) (h ! (2 * pos + 2))
                           then 2 * pos + 2 else 2 * pos + 1)"
    have c: "c < length h" "pos < c" using True by (auto simp: c_def)
    have "siftup_loop lt c (h[pos := h ! c]) = (h', p)"
      using 1(3) True by (simp only: siftup_loop.simps [of lt pos h] if_True Let_def c_def)
    from 1(1) [OF True c_def _ this] c have "mset (h'[p := x]) = mset (h[pos := h ! c, c := x])"
      "length h' = length h" "c \<le> p" "p < length h" "length h \<le> 2 * p + 1" by simp_all
    then show ?thesis using mset_move [OF 1(2) c(1), of x] c(2) by simp
  next
    case False
    then have "h' = h" "p = pos" using 1(3) by (simp_all add: siftup_loop.simps [of lt pos h])
    then show ?thesis using 1(2) False by simp
  qed
qed

lemma siftdown_mset [simp]: "pos < length h \<Longrightarrow> mset (siftdown lt s pos h) = mset h"
  "pos < length h \<Longrightarrow> length (siftdown lt s pos h) = length h"
  using siftdown_loop_mset [of pos h lt "h ! pos" s] by (simp_all add: siftdown_def)

lemma siftup_mset: "pos < length h \<Longrightarrow> mset (siftup lt pos h) = mset h \<and> length (siftup lt pos h) = length h"
proof -
  assume pos: "pos < length h"
  obtain h' p where l: "siftup_loop lt pos h = (h', p)" by fastforce
  from siftup_loop_mset [OF pos l, of "h ! pos"] show ?thesis by (simp add: siftup_def l Let_def)
qed

lemma heappush_mset [simp]: "mset (heappush lt h x) = add_mset x (mset h)"
  by (simp add: heappush_def)

lemma heappop_mset:
  assumes "h \<noteq> []"
  shows "\<exists>h'. heappop lt h = Inr (hd h, h') \<and> add_mset (hd h) (mset h') = mset h"
proof -
  obtain xs y where h: "h = xs @ [y]" using assms by (cases h rule: rev_cases) auto
  show ?thesis
  proof (cases xs)
    case Nil
    then show ?thesis by (simp add: heappop_def h)
  next
    case (Cons a as)
    have "mset (siftup lt 0 (y # as)) = mset (y # as)" using siftup_mset [of 0 "y # as" lt] by simp
    then show ?thesis by (simp add: heappop_def h Cons Let_def)
  qed
qed

lemma heapify_fold_mset:
  "\<forall>i \<in> set is. i < length h \<Longrightarrow> mset (fold (siftup lt) is h) = mset h \<and> length (fold (siftup lt) is h) = length h"
  by (induction "is" arbitrary: h) (auto simp: siftup_mset)

lemma heapify_mset [simp]: "mset (heapify lt h) = mset h" "length (heapify lt h) = length h"
proof -
  have "\<forall>i \<in> set (rev [0..<length h div 2]). i < length h" by auto
  then show "mset (heapify lt h) = mset h" "length (heapify lt h) = length h"
    unfolding heapify_def using heapify_fold_mset by blast+
qed

section \<open>The heap\<close>

text \<open>The heap property of the subtrees from position \<open>s\<close> on: \<open>j\<close> is not less than its parent.\<close>

definition heap_from :: "('a \<Rightarrow> 'a \<Rightarrow> bool) \<Rightarrow> nat \<Rightarrow> 'a list \<Rightarrow> bool" where
  "heap_from lt s h \<longleftrightarrow> (\<forall>j < length h. 0 < j \<and> s \<le> (j - 1) div 2 \<longrightarrow> \<not> lt (h ! j) (h ! ((j - 1) div 2)))"

text \<open>\<open>p\<close> is in the subtree of \<open>s\<close>.\<close>

inductive below :: "nat \<Rightarrow> nat \<Rightarrow> bool" where
  root: "below s s"
| left: "below s p \<Longrightarrow> below s (2 * p + 1)"
| right: "below s p \<Longrightarrow> below s (2 * p + 2)"

lemma below_parent: "below s p \<Longrightarrow> s \<le> p \<and> (p = s \<or> s < p \<and> below s ((p - 1) div 2))"
proof (induction rule: below.induct)
  case (left s p)
  then show ?case by auto
next
  case (right s p)
  have "(2 * p + 2 - 1) div 2 = p" by simp
  then show ?case using right by auto
qed simp

lemma below_0: "below 0 p"
proof (induction p rule: less_induct)
  case (less p)
  consider "p = 0" | q where "p = 2 * q + 1" | q where "p = 2 * q + 2"
    by (metis add.commute add_2_eq_Suc' even_Suc evenE mult_Suc_right oddE One_nat_def add.right_neutral add_Suc_right nat.exhaust)
  then show ?case
  proof cases
    case (2 q)
    then show ?thesis using less [of q] below.left by simp
  next
    case (3 q)
    then show ?thesis using less [of q] below.right by simp
  qed (simp add: below.root)
qed

locale heap_order =
  fixes lt :: "'a \<Rightarrow> 'a \<Rightarrow> bool"
  assumes lt_irrefl: "\<not> lt x x"
    and le_trans: "\<not> lt y x \<Longrightarrow> \<not> lt z y \<Longrightarrow> \<not> lt z x"
    and lt_asym: "lt x y \<Longrightarrow> \<not> lt y x"
begin

text \<open>The list with \<open>x\<close> at \<open>pos\<close> is a heap except that \<open>x\<close> may be less than its parent.\<close>

definition sift_pre :: "nat \<Rightarrow> nat \<Rightarrow> 'a \<Rightarrow> 'a list \<Rightarrow> bool" where
  "sift_pre s pos x h \<longleftrightarrow> below s pos \<and> pos < length h
     \<and> (\<forall>j < length h. 0 < j \<and> s \<le> (j - 1) div 2 \<and> j \<noteq> pos \<longrightarrow> \<not> lt (h[pos := x] ! j) (h[pos := x] ! ((j - 1) div 2)))
     \<and> (\<forall>j < length h. 0 < j \<and> (j - 1) div 2 = pos \<and> s < pos \<longrightarrow> \<not> lt (h ! j) (h ! ((pos - 1) div 2)))"

lemma siftdown_loop_heap: "sift_pre s pos x h \<Longrightarrow> heap_from lt s (siftdown_loop lt x s pos h)"
proof (induction pos arbitrary: h rule: less_induct)
  case (less pos)
  let ?p = "(pos - 1) div 2"
  have pos: "below s pos" "pos < length h" using less.prems by (simp_all add: sift_pre_def)
  have edge: "\<not> lt (h[pos := x] ! j) (h[pos := x] ! ((j - 1) div 2))"
    if "j < length h" "0 < j" "s \<le> (j - 1) div 2" "j \<noteq> pos" for j
    using less.prems that by (simp add: sift_pre_def)
  have grand: "\<not> lt (h ! j) (h ! ?p)" if "j < length h" "0 < j" "(j - 1) div 2 = pos" "s < pos" for j
    using less.prems that by (simp add: sift_pre_def)
  show ?case
  proof (cases "s < pos \<and> lt x (h ! ?p)")
    case False
    have "\<not> lt (h[pos := x] ! pos) (h[pos := x] ! ?p)" if "0 < pos" "s \<le> ?p"
      using False that below_parent [OF pos(1)] pos(2) by auto
    then have "heap_from lt s (h[pos := x])" using edge unfolding heap_from_def by (metis length_list_update)
    then show ?thesis using False by (simp only: siftdown_loop.simps [of lt x s pos h] if_False)
  next
    case True
    then have p: "?p < pos" "below s ?p" "?p < length h" using below_parent [OF pos(1)] pos(2) by auto
    let ?h = "h[pos := h ! ?p]"
    have "\<not> lt (?h[?p := x] ! j) (?h[?p := x] ! ((j - 1) div 2))"
      if j: "j < length h" "0 < j" "s \<le> (j - 1) div 2" "j \<noteq> ?p" for j
    proof -
      consider "j = pos" | "j \<noteq> pos" "(j - 1) div 2 = pos" | "j \<noteq> pos" "(j - 1) div 2 = ?p"
        | "j \<noteq> pos" "(j - 1) div 2 \<noteq> pos" "(j - 1) div 2 \<noteq> ?p" by blast
      then show ?thesis
      proof cases
        case 1
        then show ?thesis using True p pos(2) lt_asym by simp
      next
        case 2
        then show ?thesis using grand [OF j(1,2)] True p pos(2) j(4) by (simp add: nth_list_update)
      next
        case 3
        have e: "\<not> lt (h ! j) (h ! ?p)" using edge [OF j(1-3)] 3 p by (simp add: nth_list_update)
        show ?thesis using le_trans [OF lt_asym e] True 3 p j(4) pos(2) by (auto simp: nth_list_update)
      next
        case 4
        then show ?thesis using edge [OF j(1-3)] j(4) by (simp add: nth_list_update)
      qed
    qed
    moreover have "\<not> lt (?h ! j) (?h ! ((?p - 1) div 2))" if j: "j < length h" "0 < j" "(j - 1) div 2 = ?p" "s < ?p" for j
    proof -
      have q: "0 < ?p" "s \<le> (?p - 1) div 2" "(?p - 1) div 2 < ?p" using below_parent [OF p(2)] j(4) below_parent by auto
      have pq: "\<not> lt (h ! ?p) (h ! ((?p - 1) div 2))" using edge [of ?p] q p by (simp add: nth_list_update)
      show ?thesis
      proof (cases "j = pos")
        case True
        then show ?thesis using pq q p pos(2) by (simp add: nth_list_update)
      next
        case False
        then have "\<not> lt (h ! j) (h ! ?p)" using edge [OF j(1,2)] j(3,4) p by (simp add: nth_list_update)
        then have "\<not> lt (h ! j) (h ! ((?p - 1) div 2))" by (rule le_trans [OF pq])
        then show ?thesis using False q p by (simp add: nth_list_update)
      qed
    qed
    ultimately have "sift_pre s ?p x ?h" using p unfolding sift_pre_def length_list_update by blast
    from less.IH [OF p(1) this] show ?thesis using True by (simp add: siftdown_loop.simps [of lt x s pos h])
  qed
qed

text \<open>The list with a hole at \<open>pos\<close> is a heap from \<open>s\<close> on, also across the hole.\<close>

definition hole_heap :: "nat \<Rightarrow> nat \<Rightarrow> 'a list \<Rightarrow> bool" where
  "hole_heap s pos h \<longleftrightarrow> below s pos \<and> pos < length h
     \<and> (\<forall>j < length h. 0 < j \<and> s \<le> (j - 1) div 2 \<and> j \<noteq> pos \<and> (j - 1) div 2 \<noteq> pos \<longrightarrow> \<not> lt (h ! j) (h ! ((j - 1) div 2)))
     \<and> (\<forall>j < length h. 0 < j \<and> (j - 1) div 2 = pos \<and> s < pos \<longrightarrow> \<not> lt (h ! j) (h ! ((pos - 1) div 2)))"

lemma hole_step:
  assumes hole: "hole_heap s pos h" and c: "c = 2 * pos + 1 \<or> c = 2 * pos + 2" "c < length h"
    and least: "\<And>j. j < length h \<Longrightarrow> j = 2 * pos + 1 \<or> j = 2 * pos + 2 \<Longrightarrow> \<not> lt (h ! j) (h ! c)"
  shows "hole_heap s c (h[pos := h ! c])"
proof -
  let ?h = "h[pos := h ! c]"
  have pos: "below s pos" "pos < length h" using hole by (simp_all add: hole_heap_def)
  have edge: "\<not> lt (h ! j) (h ! ((j - 1) div 2))"
    if "j < length h" "0 < j" "s \<le> (j - 1) div 2" "j \<noteq> pos" "(j - 1) div 2 \<noteq> pos" for j
    using hole that by (simp add: hole_heap_def)
  have cp: "(c - 1) div 2 = pos" "pos < c" "below s c"
    using c(1) pos(1) below.left [OF pos(1)] below.right [OF pos(1)] by auto
  have child: "j = 2 * pos + 1 \<or> j = 2 * pos + 2" if "0 < j" "(j - 1) div 2 = pos" for j using that by linarith
  have "\<not> lt (?h ! j) (?h ! ((j - 1) div 2))"
    if j: "j < length h" "0 < j" "s \<le> (j - 1) div 2" "j \<noteq> c" "(j - 1) div 2 \<noteq> c" for j
  proof (cases "j = pos")
    case True
    have "s < pos" using True j(2,3) below_parent [OF pos(1)] by auto
    then have "\<not> lt (h ! c) (h ! ((pos - 1) div 2))" using hole c(2) cp by (simp add: hole_heap_def)
    moreover have "(pos - 1) div 2 < pos" using True j(2) by auto
    ultimately show ?thesis using True pos(2) by (simp add: nth_list_update)
  next
    case False
    show ?thesis
    proof (cases "(j - 1) div 2 = pos")
      case True
      then show ?thesis using least [OF j(1) child [OF j(2) True]] False pos(2) by (simp add: nth_list_update)
    next
      case False
      then show ?thesis using edge [OF j(1-3)] \<open>j \<noteq> pos\<close> by (simp add: nth_list_update)
    qed
  qed
  moreover have "\<not> lt (?h ! j) (?h ! ((c - 1) div 2))" if j: "j < length h" "0 < j" "(j - 1) div 2 = c" for j
  proof -
    have "c < j" using j(2,3) by linarith
    then have "\<not> lt (h ! j) (h ! c)" using edge [OF j(1,2)] j(3) cp below_parent [OF cp(3)] by auto
    then show ?thesis using cp pos(2) \<open>c < j\<close> by (simp add: nth_list_update)
  qed
  ultimately show ?thesis using cp c(2) unfolding hole_heap_def length_list_update by blast
qed

lemma siftup_loop_heap:
  "hole_heap s pos h \<Longrightarrow> siftup_loop lt pos h = (h', p) \<Longrightarrow> hole_heap s p h' \<and> length h' = length h \<and> length h \<le> 2 * p + 1"
proof (induction "length h - pos" arbitrary: pos h rule: less_induct)
  case less
  show ?case
  proof (cases "2 * pos + 1 < length h")
    case False
    then show ?thesis using less.prems by (simp add: siftup_loop.simps [of lt pos h])
  next
    case True
    define c where "c = (if 2 * pos + 2 < length h \<and> \<not> lt (h ! (2 * pos + 1)) (h ! (2 * pos + 2))
                           then 2 * pos + 2 else 2 * pos + 1)"
    have c: "c = 2 * pos + 1 \<or> c = 2 * pos + 2" "c < length h" using True by (auto simp: c_def)
    have "\<not> lt (h ! j) (h ! c)" if "j < length h" "j = 2 * pos + 1 \<or> j = 2 * pos + 2" for j
      using that lt_irrefl lt_asym by (auto simp: c_def)
    then have hole: "hole_heap s c (h[pos := h ! c])" using hole_step [OF less.prems(1) c] by blast
    have "siftup_loop lt c (h[pos := h ! c]) = (h', p)"
      using less.prems(2) True by (simp only: siftup_loop.simps [of lt pos h] if_True Let_def c_def)
    from less.hyps [OF _ hole this] c show ?thesis by auto
  qed
qed

lemma siftup_heap:
  assumes "heap_from lt (Suc s) h" and "s < length h"
  shows "heap_from lt s (siftup lt s h)"
proof -
  obtain h' p where l: "siftup_loop lt s h = (h', p)" by fastforce
  have "hole_heap s s h" using assms by (auto simp: hole_heap_def heap_from_def below.root)
  from siftup_loop_heap [OF this l] have hole: "hole_heap s p h'" "length h' = length h" "length h \<le> 2 * p + 1" by simp_all
  have leaf: "(j - 1) div 2 \<noteq> p" if "j < length h" "0 < j" for j using hole(3) that by linarith
  have "sift_pre s p (h ! s) (h'[p := h ! s])"
    using hole(1,2) leaf by (auto simp: sift_pre_def hole_heap_def nth_list_update)
  from siftdown_loop_heap [OF this] show ?thesis
    using hole(1) by (simp add: siftup_def l siftdown_def hole_heap_def Let_def)
qed

lemma heap_from_mono: "heap_from lt s h \<Longrightarrow> s \<le> t \<Longrightarrow> heap_from lt t h"
  by (auto simp: heap_from_def)

lemma heapify_heap: "heap_from lt 0 (heapify lt h)"
proof -
  have "heap_from lt 0 (fold (siftup lt) (rev [0..<n]) xs)" if "heap_from lt n xs" "n \<le> length xs" for n xs
    using that
  proof (induction n arbitrary: xs)
    case (Suc n)
    have "heap_from lt n (siftup lt n xs)" using siftup_heap Suc.prems by simp
    then show ?case using Suc.IH [of "siftup lt n xs"] Suc.prems(2) siftup_mset [of n xs lt] by simp
  qed simp
  moreover have "heap_from lt (length h div 2) h" by (auto simp: heap_from_def)
  ultimately show ?thesis unfolding heapify_def by simp
qed

lemma heappush_heap:
  assumes "heap_from lt 0 h"
  shows "heap_from lt 0 (heappush lt h x)"
proof -
  have "(j - 1) div 2 < length h" if "j < Suc (length h)" "h \<noteq> [] \<or> 0 < j" for j using that by (cases h) auto
  then have "sift_pre 0 (length h) x (h @ [x])"
    using assms by (auto simp: sift_pre_def heap_from_def nth_append below_0)
  from siftdown_loop_heap [OF this] show ?thesis by (simp add: heappush_def siftdown_def)
qed

lemma heappop_heap:
  assumes "heap_from lt 0 h" and "heappop lt h = Inr (x, h')"
  shows "heap_from lt 0 h'"
proof -
  obtain xs y where h: "h = xs @ [y]" using assms(2) by (cases h rule: rev_cases) (auto simp: heappop_def)
  show ?thesis
  proof (cases "xs = []")
    case True
    then show ?thesis using assms(2) by (simp add: heappop_def h heap_from_def)
  next
    case False
    have "\<not> lt (xs ! j) (xs ! ((j - 1) div 2))" if j: "j < length xs" "0 < j" for j
    proof -
      have "(j - 1) div 2 < length xs" using j by linarith
      moreover have "\<not> lt ((xs @ [y]) ! j) ((xs @ [y]) ! ((j - 1) div 2))"
        using assms(1) j unfolding h heap_from_def by simp
      ultimately show ?thesis using j by (simp add: nth_append)
    qed
    then have "heap_from lt (Suc 0) (xs[0 := y])" by (auto simp: heap_from_def nth_list_update)
    then show ?thesis using siftup_heap [of 0 "xs[0 := y]"] False assms(2) by (simp add: heappop_def h)
  qed
qed

lemma heap_hd_least:
  assumes "heap_from lt 0 h" and "x \<in> set h"
  shows "\<not> lt x (hd h)"
proof -
  have "\<not> lt (h ! i) (h ! 0)" if "i < length h" for i
    using that
  proof (induction i rule: less_induct)
    case (less i)
    show ?case
    proof (cases "i = 0")
      case False
      then have "\<not> lt (h ! ((i - 1) div 2)) (h ! 0)" using less by auto
      moreover have "\<not> lt (h ! i) (h ! ((i - 1) div 2))" using assms(1) less.prems False by (auto simp: heap_from_def)
      ultimately show ?thesis by (rule le_trans)
    qed (simp add: lt_irrefl)
  qed
  then show ?thesis using assms(2) by (metis hd_conv_nth in_set_conv_nth length_greater_0_conv length_pos_if_in_set)
qed

end

end
