(* ===== verification/Request_Queue.thy ===== *)
theory Request_Queue
  imports Request Heapq
begin

text \<open>
  The waiting queues of the scheduler: \<open>vllm/v1/core/sched/request_queue.py\<close>.  The first-come-first-served
  queue is a deque, the priority queue a \<open>heapq\<close> heap ordered by \<open>Request.__lt__\<close>.  \<open>Request\<close> does not
  define \<open>__eq__\<close>, so membership and removal go by object identity, the field \<open>obj_id\<close>.  The locale
  \<open>waiting_queue\<close> states what the scheduler relies on, and both queues are interpretations of it.
\<close>

section \<open>First come, first served\<close>

definition same_object :: "request \<Rightarrow> request \<Rightarrow> bool" where
  "same_object a b \<longleftrightarrow> obj_id a = obj_id b"

text \<open>\<open>list.remove\<close> and \<open>deque.remove\<close>.\<close>

fun py_remove :: "request \<Rightarrow> request list \<Rightarrow> request list result" where
  "py_remove r [] = Inl ValueError"
| "py_remove r (x # xs) = (if same_object x r then Inr xs else rbind (py_remove r xs) (\<lambda>ys. Inr (x # ys)))"

definition without :: "request list \<Rightarrow> request list \<Rightarrow> request list" where
  "without rs q = filter (\<lambda>x. \<not> list_ex (same_object x) rs) q"

definition fcfs_add_request :: "request \<Rightarrow> request list \<Rightarrow> request list" where
  "fcfs_add_request r q = q @ [r]"

definition fcfs_pop_request :: "request list \<Rightarrow> (request \<times> request list) result" where
  "fcfs_pop_request q = (case q of [] \<Rightarrow> Inl IndexError | r # rs \<Rightarrow> Inr (r, rs))"

definition fcfs_peek_request :: "request list \<Rightarrow> request result" where
  "fcfs_peek_request q = (case q of [] \<Rightarrow> Inl IndexError | r # _ \<Rightarrow> Inr r)"

definition fcfs_prepend_request :: "request \<Rightarrow> request list \<Rightarrow> request list" where
  "fcfs_prepend_request r q = r # q"

text \<open>\<open>extendleft\<close>; the argument is the other queue in its order of iteration.\<close>

definition fcfs_prepend_requests :: "request list \<Rightarrow> request list \<Rightarrow> request list" where
  "fcfs_prepend_requests rs q = fold (\<lambda>r q. r # q) rs q"

definition fcfs_remove_request :: "request \<Rightarrow> request list \<Rightarrow> request list result" where
  "fcfs_remove_request r q = py_remove r q"

definition fcfs_remove_requests :: "request list \<Rightarrow> request list \<Rightarrow> request list" where
  "fcfs_remove_requests rs q = without rs q"

definition fcfs_iter :: "request list \<Rightarrow> request list" where
  "fcfs_iter q = q"

section \<open>Priority\<close>

definition prio_add_request :: "request \<Rightarrow> request list \<Rightarrow> request list" where
  "prio_add_request r h = heappush request_lt h r"

definition prio_pop_request :: "request list \<Rightarrow> (request \<times> request list) result" where
  "prio_pop_request h = (if h = [] then Inl IndexError else heappop request_lt h)"

definition prio_peek_request :: "request list \<Rightarrow> request result" where
  "prio_peek_request h = (if h = [] then Inl IndexError else Inr (h ! 0))"

definition prio_prepend_request :: "request \<Rightarrow> request list \<Rightarrow> request list" where
  "prio_prepend_request r h = prio_add_request r h"

definition prio_prepend_requests :: "request list \<Rightarrow> request list \<Rightarrow> request list" where
  "prio_prepend_requests rs h = fold prio_add_request rs h"

definition prio_remove_request :: "request \<Rightarrow> request list \<Rightarrow> request list result" where
  "prio_remove_request r h = rbind (py_remove r h) (\<lambda>h'. Inr (heapify request_lt h'))"

definition prio_remove_requests :: "request list \<Rightarrow> request list \<Rightarrow> request list" where
  "prio_remove_requests rs h = heapify request_lt (without rs h)"

text \<open>Iteration pops a copy of the heap.\<close>

function prio_iter :: "request list \<Rightarrow> request list" where
  "prio_iter h = (case heappop request_lt h of Inl _ \<Rightarrow> [] | Inr (r, h') \<Rightarrow> r # prio_iter h')"
  by pat_completeness auto
termination
proof (relation "measure length")
  fix h p and r :: request and h'
  assume "heappop request_lt h = Inr p" "(r, h') = p"
  then have pop: "heappop request_lt h = Inr (r, h')" by simp
  then have "h \<noteq> []" by (auto simp: heappop_def)
  from heappop_mset [OF this, of request_lt] pop have "add_mset r (mset h') = mset h" by auto
  then have "size (mset h) = Suc (length h')" by (metis size_add_mset size_mset)
  then show "(h', h) \<in> measure length" by simp
qed simp

declare prio_iter.simps [simp del]

section \<open>The policy\<close>

datatype scheduling_policy = FCFS | PRIORITY

datatype waiting = FCFSRequestQueue "request list" | PriorityRequestQueue "request list"

definition create_request_queue :: "scheduling_policy \<Rightarrow> waiting" where
  "create_request_queue policy = (case policy of PRIORITY \<Rightarrow> PriorityRequestQueue [] | FCFS \<Rightarrow> FCFSRequestQueue [])"

fun wq_requests :: "waiting \<Rightarrow> request list" where
  "wq_requests (FCFSRequestQueue q) = q"
| "wq_requests (PriorityRequestQueue h) = h"

fun wq_add :: "request \<Rightarrow> waiting \<Rightarrow> waiting" where
  "wq_add r (FCFSRequestQueue q) = FCFSRequestQueue (fcfs_add_request r q)"
| "wq_add r (PriorityRequestQueue h) = PriorityRequestQueue (prio_add_request r h)"

fun wq_pop :: "waiting \<Rightarrow> (request \<times> waiting) result" where
  "wq_pop (FCFSRequestQueue q) = rbind (fcfs_pop_request q) (\<lambda>(r, q'). Inr (r, FCFSRequestQueue q'))"
| "wq_pop (PriorityRequestQueue h) = rbind (prio_pop_request h) (\<lambda>(r, h'). Inr (r, PriorityRequestQueue h'))"

fun wq_peek :: "waiting \<Rightarrow> request result" where
  "wq_peek (FCFSRequestQueue q) = fcfs_peek_request q"
| "wq_peek (PriorityRequestQueue h) = prio_peek_request h"

fun wq_prepend :: "request \<Rightarrow> waiting \<Rightarrow> waiting" where
  "wq_prepend r (FCFSRequestQueue q) = FCFSRequestQueue (fcfs_prepend_request r q)"
| "wq_prepend r (PriorityRequestQueue h) = PriorityRequestQueue (prio_prepend_request r h)"

fun wq_iter :: "waiting \<Rightarrow> request list" where
  "wq_iter (FCFSRequestQueue q) = fcfs_iter q"
| "wq_iter (PriorityRequestQueue h) = prio_iter h"

fun wq_prepend_requests :: "waiting \<Rightarrow> waiting \<Rightarrow> waiting" where
  "wq_prepend_requests other (FCFSRequestQueue q) = FCFSRequestQueue (fcfs_prepend_requests (wq_iter other) q)"
| "wq_prepend_requests other (PriorityRequestQueue h) = PriorityRequestQueue (prio_prepend_requests (wq_iter other) h)"

fun wq_remove :: "request \<Rightarrow> waiting \<Rightarrow> waiting result" where
  "wq_remove r (FCFSRequestQueue q) = rbind (fcfs_remove_request r q) (\<lambda>q'. Inr (FCFSRequestQueue q'))"
| "wq_remove r (PriorityRequestQueue h) = rbind (prio_remove_request r h) (\<lambda>h'. Inr (PriorityRequestQueue h'))"

fun wq_remove_requests :: "request list \<Rightarrow> waiting \<Rightarrow> waiting" where
  "wq_remove_requests rs (FCFSRequestQueue q) = FCFSRequestQueue (fcfs_remove_requests rs q)"
| "wq_remove_requests rs (PriorityRequestQueue h) = PriorityRequestQueue (prio_remove_requests rs h)"

text \<open>Popping \<open>n\<close> requests, the way the scheduler empties the queue.\<close>

fun drain :: "('q \<Rightarrow> (request \<times> 'q) result) \<Rightarrow> nat \<Rightarrow> 'q \<Rightarrow> (request list \<times> 'q) result" where
  "drain pop 0 q = Inr ([], q)"
| "drain pop (Suc n) q = rbind (pop q) (\<lambda>(r, q'). rbind (drain pop n q') (\<lambda>(rs, q''). Inr (r # rs, q'')))"

section \<open>What the scheduler relies on\<close>

locale waiting_queue =
  fixes items :: "'q \<Rightarrow> request multiset" and ok :: "'q \<Rightarrow> bool" and front :: "request \<Rightarrow> 'q \<Rightarrow> bool"
    and add prepend :: "request \<Rightarrow> 'q \<Rightarrow> 'q" and pop :: "'q \<Rightarrow> (request \<times> 'q) result" and peek :: "'q \<Rightarrow> request result"
  assumes add: "ok q \<Longrightarrow> ok (add r q) \<and> items (add r q) = add_mset r (items q)"
    and prepend: "ok q \<Longrightarrow> ok (prepend r q) \<and> items (prepend r q) = add_mset r (items q)"
    and pop: "ok q \<Longrightarrow> items q \<noteq> {#} \<Longrightarrow>
      \<exists>r q'. pop q = Inr (r, q') \<and> peek q = Inr r \<and> front r q \<and> ok q' \<and> items q = add_mset r (items q')"
    and pop_empty: "ok q \<Longrightarrow> items q = {#} \<Longrightarrow> pop q = Inl IndexError \<and> peek q = Inl IndexError"
begin

lemma drain_all:
  assumes "ok q"
  shows "\<exists>rs q'. drain pop (size (items q)) q = Inr (rs, q') \<and> mset rs = items q \<and> items q' = {#} \<and> ok q'"
  using assms
proof (induction "size (items q)" arbitrary: q)
  case 0
  then have "items q = {#}" by simp
  then show ?case using 0 by simp
next
  case (Suc n)
  then have "items q \<noteq> {#}" by auto
  then obtain r q1 where q1: "pop q = Inr (r, q1)" "ok q1" "items q = add_mset r (items q1)" using pop Suc.prems by blast
  then have n: "n = size (items q1)" using Suc.hyps(2) by simp
  obtain rs q' where "drain pop n q1 = Inr (rs, q')" "mset rs = items q1" "items q' = {#}" "ok q'"
    using Suc.hyps(1) [OF n q1(2)] n by auto
  then show ?case using q1(1,3) Suc.hyps(2) [symmetric] by auto
qed

end

section \<open>Both queues provide it\<close>

lemma request_le_key: "\<not> request_lt b a \<longleftrightarrow> request_key a \<le> request_key b"
  by (simp add: request_lt_key not_less)

interpretation rq: heap_order request_lt
  by unfold_locales (auto simp: request_lt_key)

interpretation fcfs: waiting_queue mset "\<lambda>_. True" "\<lambda>r q. r = hd q" fcfs_add_request fcfs_prepend_request
  fcfs_pop_request fcfs_peek_request
  by unfold_locales
    (auto simp: fcfs_add_request_def fcfs_prepend_request_def fcfs_pop_request_def fcfs_peek_request_def split: list.split)

lemma prio_pop_ok:
  assumes "heap_from request_lt 0 h" and "h \<noteq> []"
  shows "\<exists>h'. prio_pop_request h = Inr (hd h, h') \<and> prio_peek_request h = Inr (hd h) \<and> heap_from request_lt 0 h'
    \<and> mset h = add_mset (hd h) (mset h') \<and> (\<forall>x \<in> set h. request_key (hd h) \<le> request_key x)"
  using heappop_mset [OF assms(2), of request_lt] rq.heappop_heap [OF assms(1)] rq.heap_hd_least [OF assms(1)] assms(2)
  by (auto simp: prio_pop_request_def prio_peek_request_def hd_conv_nth request_le_key [symmetric])

interpretation prio: waiting_queue mset "heap_from request_lt 0" "\<lambda>r h. \<forall>x \<in> set h. request_key r \<le> request_key x"
  prio_add_request prio_prepend_request prio_pop_request prio_peek_request
proof
  show "heap_from request_lt 0 h \<Longrightarrow> heap_from request_lt 0 (prio_add_request r h) \<and> mset (prio_add_request r h) = add_mset r (mset h)" for r h
    by (simp add: prio_add_request_def rq.heappush_heap)
  then show "heap_from request_lt 0 h \<Longrightarrow> heap_from request_lt 0 (prio_prepend_request r h) \<and> mset (prio_prepend_request r h) = add_mset r (mset h)" for r h
    by (simp add: prio_prepend_request_def)
  show "heap_from request_lt 0 h \<Longrightarrow> mset h \<noteq> {#} \<Longrightarrow> \<exists>r h'. prio_pop_request h = Inr (r, h') \<and> prio_peek_request h = Inr r
      \<and> (\<forall>x \<in> set h. request_key r \<le> request_key x) \<and> heap_from request_lt 0 h' \<and> mset h = add_mset r (mset h')" for h
    using prio_pop_ok [of h] by auto
qed (simp_all add: prio_pop_request_def prio_peek_request_def)

section \<open>The states of the priority queue\<close>

inductive prio_reach :: "request list \<Rightarrow> bool" where
  empty: "prio_reach []"
| add: "prio_reach h \<Longrightarrow> prio_reach (prio_add_request r h)"
| prepend: "prio_reach h \<Longrightarrow> prio_reach (prio_prepend_requests rs h)"
| pop: "prio_reach h \<Longrightarrow> prio_pop_request h = Inr (r, h') \<Longrightarrow> prio_reach h'"
| remove: "prio_reach h \<Longrightarrow> prio_remove_request r h = Inr h' \<Longrightarrow> prio_reach h'"
| remove_all: "prio_reach h \<Longrightarrow> prio_reach (prio_remove_requests rs h)"

lemma prio_prepend_ok:
  "heap_from request_lt 0 h \<Longrightarrow> heap_from request_lt 0 (prio_prepend_requests rs h)
     \<and> mset (prio_prepend_requests rs h) = mset rs + mset h"
proof (induction rs arbitrary: h)
  case (Cons r rs)
  then have "heap_from request_lt 0 (prio_add_request r h)" using prio.add by blast
  from Cons.IH [OF this] show ?case using prio.add [OF Cons.prems, of r] by (simp add: prio_prepend_requests_def)
qed (simp add: prio_prepend_requests_def)

lemma prio_reach_heap: "prio_reach h \<Longrightarrow> heap_from request_lt 0 h"
proof (induction rule: prio_reach.induct)
  case (pop h r h')
  then have "h \<noteq> []" by (auto simp: prio_pop_request_def)
  then show ?case using prio_pop_ok [OF pop.IH] pop.hyps(2) by auto
qed (auto simp: prio_add_request_def prio_remove_request_def prio_remove_requests_def prio_prepend_ok
    rq.heappush_heap rq.heapify_heap heap_from_def [of _ _ "[]"])

lemma prio_iter_ok:
  "heap_from request_lt 0 h \<Longrightarrow> mset (prio_iter h) = mset h \<and> sorted (map request_key (prio_iter h))"
proof (induction h rule: prio_iter.induct)
  case (1 h)
  show ?case
  proof (cases "h = []")
    case True
    then show ?thesis by (simp add: prio_iter.simps [of "[]"] heappop_def)
  next
    case False
    obtain h' where h': "heappop request_lt h = Inr (hd h, h')" "mset h = add_mset (hd h) (mset h')"
      "heap_from request_lt 0 h'" "\<forall>x \<in> set h. request_key (hd h) \<le> request_key x"
      using prio_pop_ok [OF 1(2) False] False by (auto simp: prio_pop_request_def)
    have iter: "prio_iter h = hd h # prio_iter h'" using h'(1) by (simp add: prio_iter.simps [of h])
    have ih: "mset (prio_iter h') = mset h'" "sorted (map request_key (prio_iter h'))" using 1(1) [OF h'(1)] h'(3) by auto
    have "set (prio_iter h') \<subseteq> set h" using ih(1) h'(2) by (metis set_mset_add_mset_insert set_mset_mset subset_insertI)
    then show ?thesis using ih h'(2,4) by (auto simp: iter)
  qed
qed

lemma py_remove_ok:
  "(\<exists>x \<in> set q. same_object x r) \<Longrightarrow> \<exists>xs x ys. q = xs @ x # ys \<and> same_object x r \<and> py_remove r q = Inr (xs @ ys)
     \<and> (\<forall>y \<in> set xs. \<not> same_object y r)"
proof (induction q)
  case (Cons a q)
  show ?case
  proof (cases "same_object a r")
    case True
    then show ?thesis by (intro exI [of _ "[]"]) auto
  next
    case False
    then obtain xs x ys where "q = xs @ x # ys" "same_object x r" "py_remove r q = Inr (xs @ ys)" "\<forall>y \<in> set xs. \<not> same_object y r"
      using Cons by auto
    then show ?thesis using False by (intro exI [of _ "a # xs"] exI [of _ x] exI [of _ ys]) simp
  qed
qed simp

lemma py_remove_absent: "\<forall>x \<in> set q. \<not> same_object x r \<Longrightarrow> py_remove r q = Inl ValueError"
  by (induction q) simp_all

section \<open>Properties\<close>

text \<open>C21: in every state the priority queue can reach, iterating over it yields all its requests in the
  order of \<open>Request.__lt__\<close> (priority, then arrival time, then request id), and popping a non-empty queue
  returns the request that \<open>peek_request\<close> shows, which is the first of them.\<close>

theorem priority_queue_order:
  assumes "prio_reach h"
  shows "mset (prio_iter h) = mset h \<and> sorted (map request_key (prio_iter h))
    \<and> (h \<noteq> [] \<longrightarrow> (\<exists>r h'. prio_pop_request h = Inr (r, h') \<and> prio_peek_request h = Inr r
         \<and> prio_iter h = r # prio_iter h' \<and> mset h = add_mset r (mset h')))"
proof -
  have inv: "heap_from request_lt 0 h" using assms by (rule prio_reach_heap)
  have "\<exists>r h'. prio_pop_request h = Inr (r, h') \<and> prio_peek_request h = Inr r
      \<and> prio_iter h = r # prio_iter h' \<and> mset h = add_mset r (mset h')" if "h \<noteq> []"
    using prio_pop_ok [OF inv that] that by (auto simp: prio_pop_request_def prio_iter.simps [of h])
  then show ?thesis using prio_iter_ok [OF inv] by blast
qed

theorem priority_queue_order_witness:
  "prio_iter (prio_add_request (sample_request ''a'' [1]) (prio_add_request (sample_request ''b'' [2]) []))
     = [sample_request ''a'' [1], sample_request ''b'' [2]]"
proof -
  let ?a = "sample_request ''a'' [1]" and ?b = "sample_request ''b'' [2]"
  let ?h = "prio_add_request ?a (prio_add_request ?b [])"
  have "prio_reach ?h" by (intro prio_reach.intros)
  from priority_queue_order [OF this] have m: "mset (prio_iter ?h) = {#?a, ?b#}" and s: "sorted (map request_key (prio_iter ?h))"
    by (simp_all add: prio_add_request_def)
  have "length (prio_iter ?h) = 2" using m by (metis size_mset size_add_mset size_empty numeral_2_eq_2)
  then obtain x y where xy: "prio_iter ?h = [x, y]" by (auto simp: length_Suc_conv numeral_2_eq_2)
  have lt: "request_key ?a < request_key ?b" by (simp add: request_key_def sample_request_def less_prod_def)
  from m xy have "x = ?a \<and> y = ?b \<or> x = ?b \<and> y = ?a" by (auto simp: add_eq_conv_ex)
  then show ?thesis using s xy lt by auto
qed

text \<open>The first-come-first-served queue pops the requests in the order in which they were added, after
  those that were prepended, the last one prepended first; popping or peeking an empty queue raises
  \<open>IndexError\<close>.\<close>

theorem fcfs_order:
  "drain fcfs_pop_request (length ps + length rs)
     (fcfs_prepend_requests ps (fold fcfs_add_request rs [])) = Inr (rev ps @ rs, [])
   \<and> fcfs_pop_request [] = Inl IndexError \<and> fcfs_peek_request [] = Inl IndexError"
proof -
  have add: "fold fcfs_add_request rs q = q @ rs" for q
    by (induction rs arbitrary: q) (simp_all add: fcfs_add_request_def)
  have prep: "fcfs_prepend_requests ps q = rev ps @ q" for q
    by (induction ps arbitrary: q) (simp_all add: fcfs_prepend_requests_def)
  have "drain fcfs_pop_request (length q) q = Inr (q, [])" for q
    by (induction q) (simp_all add: fcfs_pop_request_def)
  from this [of "rev ps @ rs"] show ?thesis
    by (simp add: add prep fcfs_pop_request_def fcfs_peek_request_def)
qed

text \<open>With either policy, whatever was added to the waiting queue comes out again: popping as often as
  the queue has requests never raises, returns every request exactly once, and leaves the queue empty.\<close>

theorem waiting_queue_drains:
  assumes "prio_reach h"
  shows "(\<exists>rs q'. drain fcfs_pop_request (length q) q = Inr (rs, q') \<and> mset rs = mset q \<and> q' = [])
    \<and> (\<exists>rs h'. drain prio_pop_request (length h) h = Inr (rs, h') \<and> mset rs = mset h \<and> h' = [])"
  using fcfs.drain_all [of q] prio.drain_all [OF prio_reach_heap [OF assms]] by auto

theorem waiting_queue_drains_witness:
  "\<exists>rs h'. drain prio_pop_request (length (prio_add_request (sample_request ''a'' [1]) []))
      (prio_add_request (sample_request ''a'' [1]) []) = Inr (rs, h') \<and> h' = []"
  using waiting_queue_drains [OF prio_reach.add [OF prio_reach.empty], of "[]" "sample_request ''a'' [1]"] by blast

text \<open>Removing a request that is not in the queue raises \<open>ValueError\<close>; removing one that is takes out
  exactly that object, and the rest of a heap is a heap again.\<close>

theorem remove_request_exact:
  assumes "distinct (map obj_id q)"
  shows "(r \<in> set q \<longrightarrow> fcfs_remove_request r q = Inr (remove1 r q)
      \<and> (\<exists>h'. prio_remove_request r q = Inr h' \<and> mset h' = mset q - {#r#} \<and> heap_from request_lt 0 h'))
    \<and> ((\<forall>x \<in> set q. obj_id x \<noteq> obj_id r) \<longrightarrow>
        fcfs_remove_request r q = Inl ValueError \<and> prio_remove_request r q = Inl ValueError)"
proof -
  have "py_remove r q = Inr (remove1 r q)" if "r \<in> set q"
    using that assms by (induction q) (auto simp: same_object_def dest: inj_onD)
  moreover have "py_remove r q = Inl ValueError" if "\<forall>x \<in> set q. obj_id x \<noteq> obj_id r"
    using that by (intro py_remove_absent) (simp add: same_object_def)
  ultimately show ?thesis
    by (auto simp: fcfs_remove_request_def prio_remove_request_def rq.heapify_heap)
qed

theorem remove_request_exact_witness:
  "fcfs_remove_request (sample_request ''a'' [1]) [sample_request ''a'' [1]] = Inr []"
  using remove_request_exact [of "[sample_request ''a'' [1]]" "sample_request ''a'' [1]"] by simp

end
