(* ===== verification/Encoder_Cache.thy ===== *)
theory Encoder_Cache
  imports Request
begin

text \<open>
  The cache of encoder outputs of multimodal models: \<open>vllm/v1/core/encoder_cache_manager.py\<close>.  The
  manager only keeps the accounts: which entries exist, which requests refer to them, how many
  embeddings are free and how many could be freed.  The sets of request ids are lists without
  repetition.  The eviction loop of \<open>can_allocate\<close> is a recursive function on the freeable entries.
\<close>

section \<open>State\<close>

record enc_cache =
  enc_cache_size :: int
  num_free_slots :: int
  num_freeable_slots :: int
  cached :: "(string, string list) odict"
  freeable :: "(string, int) odict"
  freed :: "string list"

definition EncoderCacheManager :: "int \<Rightarrow> enc_cache" where
  "EncoderCacheManager n = \<lparr>enc_cache_size = n, num_free_slots = n, num_freeable_slots = n, cached = [],
     freeable = [], freed = []\<rparr>"

section \<open>Operations\<close>

definition mm_hash_of :: "request \<Rightarrow> nat \<Rightarrow> string result" where
  "mm_hash_of r i = rbind (py_index (mm_features r) (int i)) (\<lambda>f. Inr (mm_identifier f))"

definition check_and_update_cache :: "request \<Rightarrow> nat \<Rightarrow> enc_cache \<Rightarrow> (bool \<times> enc_cache) result" where
  "check_and_update_cache r i e =
     rbind (mm_hash_of r i) (\<lambda>mm_hash.
       case map_of (cached e) mm_hash of
         None \<Rightarrow> Inr (False, e)
       | Some refs \<Rightarrow>
           rbind (if refs = []
                  then rbind (dget (freeable e) mm_hash) (\<lambda>n.
                         Inr (e\<lparr>freeable := AList.delete mm_hash (freeable e),
                                num_freeable_slots := num_freeable_slots e - n\<rparr>))
                  else Inr e)
             (\<lambda>e1. Inr (True, e1\<lparr>cached := AList.update mm_hash (List.insert (request_id r) refs) (cached e1)\<rparr>)))"

text \<open>The loop \<open>while num_embeds > self.num_free_slots\<close>.\<close>

function evict_loop :: "int \<Rightarrow> enc_cache \<Rightarrow> enc_cache result" where
  "evict_loop num_embeds e =
     (if num_embeds \<le> num_free_slots e then Inr e
      else case freeable e of
        [] \<Rightarrow> Inl KeyError
      | (mm_hash, num_free_embeds) # rest \<Rightarrow>
          (case map_of (cached e) mm_hash of
             None \<Rightarrow> Inl KeyError
           | Some _ \<Rightarrow>
               evict_loop num_embeds
                 (e\<lparr>freeable := rest, cached := AList.delete mm_hash (cached e), freed := freed e @ [mm_hash],
                    num_free_slots := num_free_slots e + num_free_embeds\<rparr>)))"
  by pat_completeness auto
termination
  by (relation "measure (\<lambda>(n, e). length (freeable e))") auto

declare evict_loop.simps [simp del]

definition can_allocate :: "request \<Rightarrow> nat \<Rightarrow> int \<Rightarrow> int \<Rightarrow> enc_cache \<Rightarrow> (bool \<times> enc_cache) result" where
  "can_allocate r i encoder_compute_budget num_embeds_to_schedule e =
     rbind (get_num_encoder_embeds r i) (\<lambda>n.
       if encoder_compute_budget < n then Inr (False, e)
       else
         let num_embeds = n + num_embeds_to_schedule in
         if num_embeds \<le> num_free_slots e then Inr (True, e)
         else if num_freeable_slots e < num_embeds then Inr (False, e)
         else rbind (evict_loop num_embeds e) (\<lambda>e'. Inr (True, e')))"

definition enc_allocate :: "request \<Rightarrow> nat \<Rightarrow> enc_cache \<Rightarrow> enc_cache result" where
  "enc_allocate r i e =
     rbind (mm_hash_of r i) (\<lambda>mm_hash.
       rbind (get_num_encoder_embeds r i) (\<lambda>n.
         py_assert (n \<le> num_free_slots e) (py_assert (n \<le> num_freeable_slots e)
           (let refs = (case map_of (cached e) mm_hash of None \<Rightarrow> [] | Some refs \<Rightarrow> refs)
            in Inr (e\<lparr>cached := AList.update mm_hash (List.insert (request_id r) refs) (cached e),
                      num_free_slots := num_free_slots e - n,
                      num_freeable_slots := num_freeable_slots e - n\<rparr>)))))"

definition get_cached_input_ids :: "request \<Rightarrow> enc_cache \<Rightarrow> nat list" where
  "get_cached_input_ids r e =
     filter (\<lambda>i. map_of (cached e) (mm_identifier (mm_features r ! i)) \<noteq> None) [0..<length (mm_features r)]"

definition free_encoder_input :: "request \<Rightarrow> nat \<Rightarrow> enc_cache \<Rightarrow> enc_cache result" where
  "free_encoder_input r i e =
     rbind (mm_hash_of r i) (\<lambda>mm_hash.
       case map_of (cached e) mm_hash of
         None \<Rightarrow> Inr e
       | Some refs \<Rightarrow>
           if refs = [] then Inr e
           else
             let refs' = removeAll (request_id r) refs;
                 e1 = e\<lparr>cached := AList.update mm_hash refs' (cached e)\<rparr>
             in if refs' = []
                then rbind (get_num_encoder_embeds r i) (\<lambda>n.
                       Inr (e1\<lparr>freeable := AList.update mm_hash n (freeable e1),
                              num_freeable_slots := num_freeable_slots e1 + n\<rparr>))
                else Inr e1)"

text \<open>\<open>order\<close> is the order in which the set of input ids is enumerated.\<close>

definition enc_free :: "(nat list \<Rightarrow> nat list) \<Rightarrow> request \<Rightarrow> enc_cache \<Rightarrow> enc_cache result" where
  "enc_free order r e = foldM (free_encoder_input r) (order (get_cached_input_ids r e)) e"

definition get_freed_mm_hashes :: "enc_cache \<Rightarrow> string list \<times> enc_cache" where
  "get_freed_mm_hashes e = (freed e, e\<lparr>freed := []\<rparr>)"

section \<open>Budgets\<close>

record scheduler_config =
  sc_max_num_batched_tokens :: int
  sc_max_num_encoder_input_tokens :: int
  sc_encoder_cache_size :: int
  disable_chunked_mm_input :: bool

definition compute_text_encoder_budget :: "int \<times> int" where
  "compute_text_encoder_budget = (0, 0)"

definition compute_mm_encoder_budget :: "scheduler_config \<Rightarrow> (string, int) odict \<Rightarrow> (int \<times> int) result" where
  "compute_mm_encoder_budget sc max_tokens_by_modality =
     (if max_tokens_by_modality = [] then Inr (0, 0)
      else
        let max_tokens_per_mm_item = Max (set (map snd max_tokens_by_modality)) in
        if disable_chunked_mm_input sc \<and> sc_max_num_batched_tokens sc < max_tokens_per_mm_item then Inl ValueError
        else Inr (max (sc_max_num_encoder_input_tokens sc) max_tokens_per_mm_item,
                  max (sc_encoder_cache_size sc) max_tokens_per_mm_item))"

text \<open>The multimodal registry is consulted for the modalities a model supports.\<close>

definition compute_encoder_budget :: "scheduler_config \<Rightarrow> (string, int) odict option \<Rightarrow> (int \<times> int) result" where
  "compute_encoder_budget sc registry =
     (case registry of
        Some max_tokens_by_modality \<Rightarrow> compute_mm_encoder_budget sc max_tokens_by_modality
      | None \<Rightarrow> Inr compute_text_encoder_budget)"

section \<open>Encoder-decoder models\<close>

record encdec_cache =
  ed_cache_size :: int
  ed_num_free_slots :: int
  ed_freed :: "string list"

definition EncoderDecoderCacheManager :: "int \<Rightarrow> encdec_cache" where
  "EncoderDecoderCacheManager n = \<lparr>ed_cache_size = n, ed_num_free_slots = n, ed_freed = []\<rparr>"

definition ed_can_allocate :: "request \<Rightarrow> nat \<Rightarrow> int \<Rightarrow> int \<Rightarrow> encdec_cache \<Rightarrow> bool result" where
  "ed_can_allocate r i encoder_compute_budget num_embeds_to_schedule e =
     rbind (get_num_encoder_embeds r i) (\<lambda>n.
       if encoder_compute_budget < n then Inr False
       else Inr (n + num_embeds_to_schedule \<le> ed_num_free_slots e))"

definition ed_allocate :: "request \<Rightarrow> nat \<Rightarrow> encdec_cache \<Rightarrow> encdec_cache result" where
  "ed_allocate r i e =
     rbind (get_num_encoder_embeds r i) (\<lambda>n.
       rbind (mm_hash_of r i) (\<lambda>mm_hash.
         Inr (e\<lparr>ed_num_free_slots := ed_num_free_slots e - n, ed_freed := ed_freed e @ [mm_hash]\<rparr>)))"

definition ed_free_encoder_input :: "request \<Rightarrow> nat \<Rightarrow> encdec_cache \<Rightarrow> encdec_cache result" where
  "ed_free_encoder_input r i e =
     rbind (get_num_encoder_embeds r i) (\<lambda>n. Inr (e\<lparr>ed_num_free_slots := ed_num_free_slots e + n\<rparr>))"

definition ed_free :: "request \<Rightarrow> encdec_cache \<Rightarrow> encdec_cache result" where
  "ed_free r e = foldM (ed_free_encoder_input r) [0..<length (mm_features r)] e"

definition ed_get_freed_mm_hashes :: "encdec_cache \<Rightarrow> string list \<times> encdec_cache" where
  "ed_get_freed_mm_hashes e = (ed_freed e, e\<lparr>ed_freed := []\<rparr>)"

section \<open>The accounts\<close>

text \<open>
  Every multimodal item has one size, \<open>sz\<close> of its hash.  The free slots are what the cached entries
  leave; the freeable slots are these and the entries without a reference, which are exactly the
  entries of \<open>freeable\<close>.
\<close>

definition used :: "(string \<Rightarrow> int) \<Rightarrow> (string, 'v) odict \<Rightarrow> int" where
  "used sz d = (\<Sum>(h, _) \<leftarrow> d. sz h)"

definition enc_inv :: "(string \<Rightarrow> int) \<Rightarrow> enc_cache \<Rightarrow> bool" where
  "enc_inv sz e \<longleftrightarrow> distinct (map fst (cached e)) \<and> distinct (map fst (freeable e))
     \<and> map_of (freeable e) = (\<lambda>h. if map_of (cached e) h = Some [] then Some (sz h) else None)
     \<and> (\<forall>h. map_of (cached e) h \<noteq> None \<longrightarrow> 0 \<le> sz h)
     \<and> num_free_slots e = enc_cache_size e - used sz (cached e)
     \<and> num_freeable_slots e = num_free_slots e + used sz (freeable e)
     \<and> 0 \<le> num_free_slots e"

definition sized :: "(string \<Rightarrow> int) \<Rightarrow> request \<Rightarrow> bool" where
  "sized sz r \<longleftrightarrow> (\<forall>i < length (mm_features r). 0 \<le> sz (mm_identifier (mm_features r ! i))
     \<and> get_num_encoder_embeds r i = Inr (sz (mm_identifier (mm_features r ! i))))"

lemma used_Nil [simp]: "used sz [] = 0"
  and used_Cons [simp]: "used sz ((h, v) # d) = sz h + used sz d"
  and used_append [simp]: "used sz (d @ d') = used sz d + used sz d'"
  by (simp_all add: used_def)

lemma used_delete:
  "distinct (map fst d) \<Longrightarrow> used sz (AList.delete h d) = used sz d - (if map_of d h = None then 0 else sz h)"
proof (induction d)
  case (Cons p d)
  then show ?case by (cases p) (auto simp: delete_id dest: map_of_SomeD split: if_splits)
qed simp

lemma used_update: "used sz (AList.update h v d) = used sz d + (if map_of d h = None then sz h else 0)"
  by (induction d) auto

declare map_of_eq_Some_iff [simp del]

lemma map_of_filter_keys: "x \<notin> S \<Longrightarrow> map_of (filter (\<lambda>(h, _). h \<notin> S) d) x = map_of d x"
  by (induction d) auto

lemma used_nonneg:
  assumes "\<And>h v. (h, v) \<in> set d \<Longrightarrow> 0 \<le> sz h"
  shows "0 \<le> used sz d"
  using assms unfolding used_def by (intro sum_list_nonneg) auto

lemma freeable_nonneg:
  assumes "enc_inv sz e"
  shows "0 \<le> used sz (freeable e)"
proof (rule used_nonneg)
  fix h n assume "(h, n) \<in> set (freeable e)"
  then have "map_of (freeable e) h \<noteq> None" by (metis map_of_eq_None_iff fst_conv image_eqI option.distinct(1))
  then show "0 \<le> sz h" using assms by (auto simp: enc_inv_def split: if_splits)
qed

text \<open>The eviction loop succeeds when the freeable entries suffice, evicts the oldest of them and only
  them, and as few as possible.\<close>

lemma enc_inv_evict:
  assumes inv: "enc_inv sz e" and f: "freeable e = (h, n) # rest"
  shows "map_of (cached e) h = Some [] \<and> n = sz h"
    and "enc_inv sz (e\<lparr>freeable := rest, cached := AList.delete h (cached e), freed := freed e @ [h],
                    num_free_slots := num_free_slots e + n\<rparr>)"
proof -
  have d: "distinct (map fst (cached e))" "distinct (map fst ((h, n) # rest))"
    and fr: "map_of ((h, n) # rest) = (\<lambda>x. if map_of (cached e) x = Some [] then Some (sz x) else None)"
    using inv unfolding enc_inv_def f by blast+
  show h: "map_of (cached e) h = Some [] \<and> n = sz h" using fun_cong [OF fr, of h] by (simp split: if_splits)
  have rest: "map_of rest h = None" using d(2) by (simp add: map_of_eq_None_iff)
  have "map_of rest x = (if map_of (AList.delete h (cached e)) x = Some [] then Some (sz x) else None)" for x
    using fun_cong [OF fr, of x] rest by (cases "x = h") simp_all
  then have "map_of rest = (\<lambda>x. if map_of (AList.delete h (cached e)) x = Some [] then Some (sz x) else None)" by (rule ext)
  moreover have "0 \<le> sz x" if "map_of (AList.delete h (cached e)) x \<noteq> None" for x
    using inv that by (cases "x = h") (auto simp: enc_inv_def)
  moreover have "0 \<le> sz h" using inv h unfolding enc_inv_def by blast
  ultimately show "enc_inv sz (e\<lparr>freeable := rest, cached := AList.delete h (cached e), freed := freed e @ [h],
                    num_free_slots := num_free_slots e + n\<rparr>)"
    using inv d h unfolding enc_inv_def f by (simp add: used_delete distinct_delete)
qed

lemma evict_loop_ok:
  assumes "enc_inv sz e" and "k \<le> num_freeable_slots e"
  shows "\<exists>e' out. evict_loop k e = Inr e' \<and> enc_inv sz e' \<and> k \<le> num_free_slots e'
    \<and> freeable e = out @ freeable e' \<and> freed e' = freed e @ map fst out
    \<and> cached e' = filter (\<lambda>(h, _). h \<notin> set (map fst out)) (cached e)
    \<and> num_freeable_slots e' = num_freeable_slots e \<and> enc_cache_size e' = enc_cache_size e"
  using assms
proof (induction "length (freeable e)" arbitrary: e)
  case 0
  then have "used sz (freeable e) = 0" by simp
  then have "k \<le> num_free_slots e" using 0 by (simp add: enc_inv_def)
  then show ?case using 0 by (intro exI [of _ e] exI [of _ "[]"]) (simp add: evict_loop.simps [of k e])
next
  case (Suc m)
  obtain h n rest where f: "freeable e = (h, n) # rest" using Suc.hyps(2) by (cases "freeable e") auto
  show ?case
  proof (cases "k \<le> num_free_slots e")
    case True
    then show ?thesis using Suc.prems by (intro exI [of _ e] exI [of _ "[]"]) (simp add: evict_loop.simps [of k e])
  next
    case False
    define e1 where "e1 = e\<lparr>freeable := rest, cached := AList.delete h (cached e), freed := freed e @ [h],
                    num_free_slots := num_free_slots e + n\<rparr>"
    have inv1: "enc_inv sz e1" unfolding e1_def by (rule enc_inv_evict(2) [OF Suc.prems(1) f])
    have h: "map_of (cached e) h = Some []" using enc_inv_evict(1) [OF Suc.prems(1) f] by simp
    have m: "m = length (freeable e1)" "k \<le> num_freeable_slots e1" using Suc.hyps(2) Suc.prems(2) f by (simp_all add: e1_def)
    from Suc.hyps(1) [OF m(1) inv1 m(2)] obtain e' out where e': "evict_loop k e1 = Inr e'" "enc_inv sz e'" "k \<le> num_free_slots e'"
      "freeable e1 = out @ freeable e'" "freed e' = freed e1 @ map fst out"
      "cached e' = filter (\<lambda>(h, _). h \<notin> set (map fst out)) (cached e1)"
      "num_freeable_slots e' = num_freeable_slots e1" "enc_cache_size e' = enc_cache_size e1" by blast
    have run: "evict_loop k e = evict_loop k e1" using False f h by (simp add: evict_loop.simps [of k e] e1_def)
    have "cached e' = filter (\<lambda>(x, _). x \<notin> set (map fst ((h, n) # out))) (cached e)"
      unfolding e'(6) by (auto simp: e1_def AList.delete_eq intro!: filter_cong)
    then show ?thesis using run e' f by (intro exI [of _ e'] exI [of _ "(h, n) # out"]) (simp add: e1_def)
  qed
qed

section \<open>The operations keep the accounts\<close>

lemma mm_hash_of_ok: "i < length (mm_features r) \<Longrightarrow> mm_hash_of r i = Inr (mm_identifier (mm_features r ! i))"
  by (simp add: mm_hash_of_def)

lemma check_and_update_cache_ok:
  assumes inv: "enc_inv sz e" and i: "i < length (mm_features r)" and h: "h = mm_identifier (mm_features r ! i)"
  shows "\<exists>e'. check_and_update_cache r i e = Inr (map_of (cached e) h \<noteq> None, e') \<and> enc_inv sz e'
    \<and> num_free_slots e' = num_free_slots e \<and> freed e' = freed e
    \<and> (\<forall>x. x \<noteq> h \<longrightarrow> map_of (cached e') x = map_of (cached e) x)
    \<and> (map_of (cached e) h \<noteq> None \<longrightarrow> (\<exists>refs. map_of (cached e') h = Some refs \<and> request_id r \<in> set refs))"
proof (cases "map_of (cached e) h")
  case None
  then show ?thesis using inv i by (simp add: check_and_update_cache_def mm_hash_of_ok h)
next
  case (Some refs)
  let ?c = "AList.update h (List.insert (request_id r) refs) (cached e)"
  have fr: "map_of (freeable e) = (\<lambda>h. if map_of (cached e) h = Some [] then Some (sz h) else None)"
    using inv by (simp add: enc_inv_def)
  have ne: "List.insert (request_id r) refs \<noteq> []" by (simp add: List.insert_def) auto
  show ?thesis
  proof (cases "refs = []")
    case True
    then have n: "map_of (freeable e) h = Some (sz h)" using Some by (simp add: fr)
    define e' where "e' = e\<lparr>freeable := AList.delete h (freeable e), num_freeable_slots := num_freeable_slots e - sz h,
        cached := ?c\<rparr>"
    have "map_of (AList.delete h (freeable e)) x = (if map_of ?c x = Some [] then Some (sz x) else None)" for x
      using fr ne by (cases "x = h") simp_all
    then have "enc_inv sz e'" using inv Some n
      unfolding enc_inv_def e'_def by (simp add: distinct_update distinct_delete used_update used_delete fun_eq_iff)
    then show ?thesis using Some True n i by (simp add: check_and_update_cache_def mm_hash_of_ok h [symmetric] e'_def dget_def)
  next
    case False
    define e' where "e' = e\<lparr>cached := ?c\<rparr>"
    have "map_of (freeable e) x = (if map_of ?c x = Some [] then Some (sz x) else None)" for x
      using fr ne Some False by (cases "x = h") simp_all
    then have "enc_inv sz e'" using inv Some unfolding enc_inv_def e'_def by (simp add: distinct_update used_update fun_eq_iff)
    then show ?thesis using Some False i by (simp add: check_and_update_cache_def mm_hash_of_ok h [symmetric] e'_def)
  qed
qed

lemma can_allocate_ok:
  assumes inv: "enc_inv sz e" and i: "i < length (mm_features r)" and sz: "sized sz r"
    and n: "n = sz (mm_identifier (mm_features r ! i))"
  shows "\<exists>e' out. can_allocate r i budget k e = Inr (n \<le> budget \<and> n + k \<le> num_freeable_slots e, e')
    \<and> enc_inv sz e' \<and> freeable e = out @ freeable e' \<and> freed e' = freed e @ map fst out
    \<and> cached e' = filter (\<lambda>(h, _). h \<notin> set (map fst out)) (cached e)
    \<and> num_freeable_slots e' = num_freeable_slots e \<and> enc_cache_size e' = enc_cache_size e
    \<and> (n \<le> budget \<and> n + k \<le> num_freeable_slots e \<longrightarrow> n + k \<le> num_free_slots e')"
proof -
  have nn: "get_num_encoder_embeds r i = Inr n" using sz i by (simp add: sized_def n)
  have le: "num_free_slots e \<le> num_freeable_slots e" using inv freeable_nonneg [OF inv] by (simp add: enc_inv_def)
  consider "budget < n" | "n \<le> budget" "n + k \<le> num_free_slots e"
    | "n \<le> budget" "num_free_slots e < n + k" "num_freeable_slots e < n + k"
    | "n \<le> budget" "num_free_slots e < n + k" "n + k \<le> num_freeable_slots e" by linarith
  then show ?thesis
  proof cases
    case 4
    from evict_loop_ok [OF inv 4(3)] 4 nn show ?thesis by (auto simp: can_allocate_def Let_def)
  qed (use inv nn le in \<open>auto simp: can_allocate_def Let_def intro!: exI [of _ e] exI [of _ "[]"]\<close>)
qed

lemma enc_allocate_ok:
  assumes inv: "enc_inv sz e" and i: "i < length (mm_features r)" and sz: "sized sz r"
    and h: "h = mm_identifier (mm_features r ! i)" and new: "map_of (cached e) h = None" and fits: "sz h \<le> num_free_slots e"
  shows "\<exists>e'. enc_allocate r i e = Inr e' \<and> enc_inv sz e' \<and> num_free_slots e' = num_free_slots e - sz h
    \<and> num_freeable_slots e' = num_freeable_slots e - sz h \<and> freed e' = freed e \<and> freeable e' = freeable e
    \<and> map_of (cached e') = (map_of (cached e))(h \<mapsto> [request_id r])"
proof -
  have n: "get_num_encoder_embeds r i = Inr (sz h)" "0 \<le> sz h" using sz i by (auto simp: sized_def h)
  have le: "num_free_slots e \<le> num_freeable_slots e" using inv freeable_nonneg [OF inv] by (simp add: enc_inv_def)
  define e' where "e' = e\<lparr>cached := AList.update h [request_id r] (cached e), num_free_slots := num_free_slots e - sz h,
      num_freeable_slots := num_freeable_slots e - sz h\<rparr>"
  have "map_of (freeable e) x = (if map_of (AList.update h [request_id r] (cached e)) x = Some [] then Some (sz x) else None)" for x
    using inv new by (cases "x = h") (simp_all add: enc_inv_def)
  then have "enc_inv sz e'" using inv new fits n(2)
    unfolding enc_inv_def e'_def by (simp add: distinct_update used_update fun_eq_iff)
  moreover have "enc_allocate r i e = Inr e'"
    using new fits le n(1) i by (simp add: enc_allocate_def mm_hash_of_ok h [symmetric] e'_def)
  ultimately show ?thesis by (simp add: e'_def)
qed

lemma free_encoder_input_ok:
  assumes inv: "enc_inv sz e" and i: "i < length (mm_features r)" and sz: "sized sz r"
    and h: "h = mm_identifier (mm_features r ! i)"
  shows "\<exists>e'. free_encoder_input r i e = Inr e' \<and> enc_inv sz e' \<and> num_free_slots e' = num_free_slots e
    \<and> freed e' = freed e \<and> map_of (cached e') = (map_of (cached e))(h := map_option (removeAll (request_id r)) (map_of (cached e) h))"
proof (cases "map_of (cached e) h")
  case None
  then show ?thesis using inv i by (simp add: free_encoder_input_def mm_hash_of_ok h [symmetric] fun_upd_idem)
next
  case (Some refs)
  let ?refs = "removeAll (request_id r) refs"
  let ?c = "AList.update h ?refs (cached e)"
  have fr: "map_of (freeable e) = (\<lambda>h. if map_of (cached e) h = Some [] then Some (sz h) else None)"
    using inv by (simp add: enc_inv_def)
  have n: "get_num_encoder_embeds r i = Inr (sz h)" using sz i by (auto simp: sized_def h)
  have nneg: "0 \<le> sz h" using inv Some unfolding enc_inv_def by blast
  consider "refs = []" | "refs \<noteq> []" "?refs = []" | "refs \<noteq> []" "?refs \<noteq> []" by blast
  then show ?thesis
  proof cases
    case 1
    then show ?thesis using inv i Some by (simp add: free_encoder_input_def mm_hash_of_ok h [symmetric] fun_upd_idem)
  next
    case 2
    define e' where "e' = e\<lparr>cached := ?c, freeable := AList.update h (sz h) (freeable e),
        num_freeable_slots := num_freeable_slots e + sz h\<rparr>"
    have "map_of (AList.update h (sz h) (freeable e)) x = (if map_of ?c x = Some [] then Some (sz x) else None)" for x
      using fr 2 by (cases "x = h") simp_all
    moreover have "map_of (freeable e) h = None" using fr Some 2(1) by simp
    ultimately have "enc_inv sz e'" using inv Some nneg 2(2)
      unfolding enc_inv_def e'_def by (simp add: distinct_update used_update fun_eq_iff)
    then show ?thesis using Some 2 n i by (simp add: free_encoder_input_def mm_hash_of_ok h [symmetric] e'_def Let_def)
  next
    case 3
    define e' where "e' = e\<lparr>cached := ?c\<rparr>"
    have "map_of (freeable e) x = (if map_of ?c x = Some [] then Some (sz x) else None)" for x
      using fr 3 Some by (cases "x = h") simp_all
    then have "enc_inv sz e'" using inv Some unfolding enc_inv_def e'_def by (simp add: distinct_update used_update fun_eq_iff)
    then show ?thesis using Some 3 i by (simp add: free_encoder_input_def mm_hash_of_ok h [symmetric] e'_def Let_def)
  qed
qed

text \<open>Freeing a request drops all its references.\<close>

definition holds :: "string \<Rightarrow> enc_cache \<Rightarrow> string \<Rightarrow> bool" where
  "holds rid e h \<longleftrightarrow> (\<exists>refs. map_of (cached e) h = Some refs \<and> rid \<in> set refs)"

lemma free_inputs_ok:
  assumes "enc_inv sz e" and "\<forall>i \<in> set is. i < length (mm_features r)" and "sized sz r"
  shows "\<exists>e'. foldM (free_encoder_input r) is e = Inr e' \<and> enc_inv sz e' \<and> num_free_slots e' = num_free_slots e
    \<and> freed e' = freed e \<and> dom (map_of (cached e')) = dom (map_of (cached e))
    \<and> (\<forall>rid x. holds rid e' x \<longleftrightarrow>
        holds rid e x \<and> \<not> (rid = request_id r \<and> (\<exists>i \<in> set is. x = mm_identifier (mm_features r ! i))))"
  using assms(1,2)
proof (induction "is" arbitrary: e)
  case (Cons i "is")
  define h where "h = mm_identifier (mm_features r ! i)"
  obtain e1 where e1: "free_encoder_input r i e = Inr e1" "enc_inv sz e1" "num_free_slots e1 = num_free_slots e"
    "freed e1 = freed e" "map_of (cached e1) = (map_of (cached e))(h := map_option (removeAll (request_id r)) (map_of (cached e) h))"
    using free_encoder_input_ok [OF Cons.prems(1) _ assms(3) h_def] Cons.prems(2) by auto
  have s1: "holds rid e1 x \<longleftrightarrow> holds rid e x \<and> \<not> (rid = request_id r \<and> x = h)" for rid x
    by (auto simp: holds_def e1(5))
  have d1: "dom (map_of (cached e1)) = dom (map_of (cached e))" by (auto simp: e1(5) dom_def)
  obtain e2 where e2: "foldM (free_encoder_input r) is e1 = Inr e2" "enc_inv sz e2" "num_free_slots e2 = num_free_slots e1"
    "freed e2 = freed e1" "dom (map_of (cached e2)) = dom (map_of (cached e1))"
    "\<forall>rid x. holds rid e2 x \<longleftrightarrow>
        holds rid e1 x \<and> \<not> (rid = request_id r \<and> (\<exists>i \<in> set is. x = mm_identifier (mm_features r ! i)))"
    using Cons.IH [OF e1(2)] Cons.prems(2) by auto
  show ?case using e1(1,3,4) e2 s1 d1 by (auto simp: h_def)
qed auto

lemma enc_free_ok:
  assumes inv: "enc_inv sz e" and sz: "sized sz r" and ord: "\<And>xs. set (order xs) = set xs"
  shows "\<exists>e'. enc_free order r e = Inr e' \<and> enc_inv sz e' \<and> num_free_slots e' = num_free_slots e \<and> freed e' = freed e
    \<and> dom (map_of (cached e')) = dom (map_of (cached e))
    \<and> (\<forall>rid x. holds rid e' x \<longleftrightarrow> holds rid e x \<and> \<not> (rid = request_id r \<and> x \<in> mm_identifier ` set (mm_features r)))"
proof -
  let ?is = "order (get_cached_input_ids r e)"
  have "\<forall>i \<in> set ?is. i < length (mm_features r)" by (auto simp: ord get_cached_input_ids_def)
  from free_inputs_ok [OF inv this sz] obtain e' where
    e': "enc_free order r e = Inr e'" "enc_inv sz e'" "num_free_slots e' = num_free_slots e" "freed e' = freed e"
    "dom (map_of (cached e')) = dom (map_of (cached e))"
    "\<forall>rid x. holds rid e' x \<longleftrightarrow> holds rid e x \<and> \<not> (rid = request_id r \<and> (\<exists>i \<in> set ?is. x = mm_identifier (mm_features r ! i)))"
    unfolding enc_free_def by blast
  have f: "x \<in> mm_identifier ` set (mm_features r) \<longleftrightarrow> (\<exists>i < length (mm_features r). x = mm_identifier (mm_features r ! i))" for x
    by (auto simp: set_conv_nth)
  have "(\<exists>i \<in> set ?is. x = mm_identifier (mm_features r ! i)) \<longleftrightarrow> x \<in> mm_identifier ` set (mm_features r)" if "holds rid e x" for rid x
    unfolding f using that by (auto simp: ord get_cached_input_ids_def holds_def)
  then show ?thesis using e' by metis
qed

section \<open>Reachable states\<close>

text \<open>The calls of the scheduler.  It allocates only items that are not cached and for which
  \<open>can_allocate\<close> has made room.\<close>

inductive enc_reach :: "(string \<Rightarrow> int) \<Rightarrow> enc_cache \<Rightarrow> bool" for sz where
  start: "0 \<le> n \<Longrightarrow> enc_reach sz (EncoderCacheManager n)"
| check: "enc_reach sz e \<Longrightarrow> i < length (mm_features r) \<Longrightarrow> check_and_update_cache r i e = Inr (b, e') \<Longrightarrow> enc_reach sz e'"
| room: "enc_reach sz e \<Longrightarrow> i < length (mm_features r) \<Longrightarrow> sized sz r \<Longrightarrow> can_allocate r i budget k e = Inr (b, e') \<Longrightarrow> enc_reach sz e'"
| alloc: "enc_reach sz e \<Longrightarrow> i < length (mm_features r) \<Longrightarrow> sized sz r \<Longrightarrow> map_of (cached e) (mm_identifier (mm_features r ! i)) = None \<Longrightarrow>
    enc_allocate r i e = Inr e' \<Longrightarrow> enc_reach sz e'"
| free_input: "enc_reach sz e \<Longrightarrow> i < length (mm_features r) \<Longrightarrow> sized sz r \<Longrightarrow> free_encoder_input r i e = Inr e' \<Longrightarrow> enc_reach sz e'"
| free: "enc_reach sz e \<Longrightarrow> sized sz r \<Longrightarrow> (\<And>xs. set (order xs) = set xs) \<Longrightarrow> enc_free order r e = Inr e' \<Longrightarrow> enc_reach sz e'"
| drain: "enc_reach sz e \<Longrightarrow> enc_reach sz (snd (get_freed_mm_hashes e))"

lemma enc_reach_inv: "enc_reach sz e \<Longrightarrow> enc_inv sz e"
proof (induction rule: enc_reach.induct)
  case (start n)
  then show ?case by (auto simp: enc_inv_def EncoderCacheManager_def)
next
  case (check e i r b e')
  then show ?case using check_and_update_cache_ok [OF check.IH check.hyps(2) refl] by auto
next
  case (room e i r budget k b e')
  then show ?case using can_allocate_ok [OF room.IH room.hyps(2,3) refl, of budget k] by auto
next
  case (alloc e i r e')
  have "sz (mm_identifier (mm_features r ! i)) \<le> num_free_slots e"
    using alloc.hyps by (auto simp: enc_allocate_def sized_def)
  then show ?case using enc_allocate_ok [OF alloc.IH alloc.hyps(2,3) refl alloc.hyps(4)] alloc.hyps(5) by auto
next
  case (free_input e i r e')
  then show ?case using free_encoder_input_ok [OF free_input.IH free_input.hyps(2,3) refl] by auto
next
  case (free e r order e')
  then show ?case using enc_free_ok [OF free.IH free.hyps(2,3)] by auto
next
  case (drain e)
  then show ?case by (simp add: enc_inv_def get_freed_mm_hashes_def)
qed

section \<open>Properties\<close>

text \<open>C22: in every state the encoder cache can reach, the free slots are the capacity minus the sizes of
  the cached entries, never negative; the freeable slots exceed them by exactly the entries that no request
  refers to; and these entries are the ones \<open>can_allocate\<close> may evict.\<close>

theorem encoder_cache_accounting:
  assumes "enc_reach sz e"
  shows "num_free_slots e = enc_cache_size e - used sz (cached e) \<and> 0 \<le> num_free_slots e
    \<and> num_freeable_slots e = num_free_slots e + used sz (freeable e)
    \<and> (\<forall>h. map_of (freeable e) h \<noteq> None \<longleftrightarrow> map_of (cached e) h = Some [])"
  using enc_reach_inv [OF assms] by (auto simp: enc_inv_def)

definition sample_mm_request :: "string \<Rightarrow> request" where
  "sample_mm_request rid = (sample_request rid [1, 2, 3])\<lparr>mm_features :=
     [\<lparr>mm_identifier = ''img'', mm_position = \<lparr>offset = 0, pr_length = 2, is_embed = None\<rparr>\<rparr>]\<rparr>"

lemma sample_sized: "sized (\<lambda>_. 2) (sample_mm_request rid)"
  by (simp add: sized_def sample_mm_request_def get_num_encoder_embeds_def get_num_embeds_def)

theorem encoder_cache_accounting_witness:
  "\<exists>e. enc_allocate (sample_mm_request ''r'') 0 (EncoderCacheManager 4) = Inr e \<and> num_free_slots e = 2 \<and> 0 \<le> num_free_slots e"
proof -
  have run: "enc_allocate (sample_mm_request ''r'') 0 (EncoderCacheManager 4) =
      Inr \<lparr>enc_cache_size = 4, num_free_slots = 2, num_freeable_slots = 2, cached = [(''img'', [''r''])], freeable = [], freed = []\<rparr>"
    by (simp add: enc_allocate_def sample_mm_request_def mm_hash_of_def EncoderCacheManager_def
        get_num_encoder_embeds_def get_num_embeds_def py_index_def py_position_def List.insert_def sample_request_def)
  have "enc_reach (\<lambda>_. 2) (EncoderCacheManager 4)" by (rule enc_reach.start) simp
  from enc_reach.alloc [OF this _ sample_sized _ run] have
    "enc_reach (\<lambda>_. 2) \<lparr>enc_cache_size = 4, num_free_slots = 2, num_freeable_slots = 2, cached = [(''img'', [''r''])], freeable = [], freed = []\<rparr>"
    by (simp add: sample_mm_request_def EncoderCacheManager_def)
  from encoder_cache_accounting [OF this] run show ?thesis by simp
qed

text \<open>C23: \<open>can_allocate\<close> never raises; it answers yes exactly when the item fits the compute budget and the
  free and freeable space together; it evicts only entries without a reference, oldest first, and reports
  each of them; and after a yes, allocating an item that is not cached succeeds.\<close>

theorem encoder_can_allocate:
  assumes "enc_reach sz e" and "i < length (mm_features r)" and "sized sz r"
    and "h = mm_identifier (mm_features r ! i)" and "0 \<le> k"
  shows "\<exists>e' out. can_allocate r i budget k e = Inr (sz h \<le> budget \<and> sz h + k \<le> num_freeable_slots e, e')
    \<and> freeable e = out @ freeable e' \<and> freed e' = freed e @ map fst out
    \<and> (\<forall>x \<in> set (map fst out). map_of (cached e) x = Some [])
    \<and> (\<forall>x. x \<notin> set (map fst out) \<longrightarrow> map_of (cached e') x = map_of (cached e) x)
    \<and> (sz h \<le> budget \<and> sz h + k \<le> num_freeable_slots e \<and> map_of (cached e) h = None \<longrightarrow>
        (\<exists>e''. enc_allocate r i e' = Inr e'' \<and> k \<le> num_free_slots e''))"
proof -
  have inv: "enc_inv sz e" using assms(1) by (rule enc_reach_inv)
  obtain e' out where e': "can_allocate r i budget k e = Inr (sz h \<le> budget \<and> sz h + k \<le> num_freeable_slots e, e')"
    "enc_inv sz e'" "freeable e = out @ freeable e'" "freed e' = freed e @ map fst out"
    "cached e' = filter (\<lambda>(h, _). h \<notin> set (map fst out)) (cached e)"
    "sz h \<le> budget \<and> sz h + k \<le> num_freeable_slots e \<longrightarrow> sz h + k \<le> num_free_slots e'"
    using can_allocate_ok [OF inv assms(2,3) refl, of budget k] unfolding assms(4) by blast
  have unref: "map_of (cached e) x = Some []" if "x \<in> set (map fst out)" for x
  proof -
    have "x \<in> fst ` set (freeable e)" using that unfolding e'(3) by auto
    then have "map_of (freeable e) x \<noteq> None" by (simp add: map_of_eq_None_iff)
    then show ?thesis using inv by (auto simp: enc_inv_def split: if_splits)
  qed
  have m: "map_of (cached e') x = map_of (cached e) x" if "x \<notin> set (map fst out)" for x
    using that unfolding e'(5) by (rule map_of_filter_keys)
  have fin: "\<exists>e''. enc_allocate r i e' = Inr e'' \<and> k \<le> num_free_slots e''"
    if y: "sz h \<le> budget \<and> sz h + k \<le> num_freeable_slots e \<and> map_of (cached e) h = None"
  proof -
    have "map_of (cached e') h = None" using y unfolding e'(5) by (force simp: map_of_eq_None_iff)
    then show ?thesis using enc_allocate_ok [OF e'(2) assms(2-4)] e'(6) y assms(5) by auto
  qed
  show ?thesis
  proof (rule exI [of _ e'], rule exI [of _ out], intro conjI e'(1) e'(3) e'(4))
    show "\<forall>x \<in> set (map fst out). map_of (cached e) x = Some []" by (rule ballI) (rule unref)
    show "\<forall>x. x \<notin> set (map fst out) \<longrightarrow> map_of (cached e') x = map_of (cached e) x" by (intro allI impI) (rule m)
    show "sz h \<le> budget \<and> sz h + k \<le> num_freeable_slots e \<and> map_of (cached e) h = None \<longrightarrow>
        (\<exists>e''. enc_allocate r i e' = Inr e'' \<and> k \<le> num_free_slots e'')" by (rule impI) (rule fin)
  qed
qed

theorem encoder_can_allocate_witness:
  "\<exists>e'. can_allocate (sample_mm_request ''r'') 0 8 0 (EncoderCacheManager 4) = Inr (True, e')"
proof -
  have r: "enc_reach (\<lambda>_. 2) (EncoderCacheManager 4)" by (rule enc_reach.start) simp
  have f: "mm_features (sample_mm_request ''r'') =
      [\<lparr>mm_identifier = ''img'', mm_position = \<lparr>offset = 0, pr_length = 2, is_embed = None\<rparr>\<rparr>]"
    by (simp add: sample_mm_request_def)
  have n: "num_freeable_slots (EncoderCacheManager 4) = 4" by (simp add: EncoderCacheManager_def)
  have i: "0 < length (mm_features (sample_mm_request ''r''))" by (simp add: f)
  have "(0::int) \<le> 0" by simp
  from encoder_can_allocate [OF r i sample_sized refl this, of 8] n show ?thesis by (elim exE conjE) simp
qed

end
