(* ===== verification/Encoder_Sched.thy ===== *)
theory Encoder_Sched
  imports Encoder_Cache
begin

text \<open>
  Scheduling of encoder inputs: \<open>Scheduler._try_schedule_encoder_inputs\<close> and \<open>_free_encoder_inputs\<close> of
  \<open>vllm/v1/core/sched/scheduler.py\<close>, and \<open>PlaceholderRange.get_embeds_indices_in_range\<close> of
  \<open>vllm/multimodal/inputs.py\<close>.  The scheduler owns one of the two encoder cache managers of the theory
  \<open>Encoder_Cache\<close>; the connector to a remote encoder cache is a parameter.  The main result is that no
  embedding a step needs is missing, and a second one that this fails under EAGLE.
\<close>

section \<open>Ranges of embeddings\<close>

definition embeds_cumsum :: "bool list \<Rightarrow> int list" where
  "embeds_cumsum em = map (\<lambda>i. int (length (filter id (take (Suc i) em)))) [0..<length em]"

definition get_embeds_indices_in_range :: "placeholder_range \<Rightarrow> int \<Rightarrow> int \<Rightarrow> (int \<times> int) result" where
  "get_embeds_indices_in_range p start_idx end_idx =
     (case is_embed p of
        None \<Rightarrow> Inr (start_idx, end_idx)
      | Some em \<Rightarrow>
          rbind (if 0 < start_idx then py_index (embeds_cumsum em) (start_idx - 1) else Inr 0) (\<lambda>embeds_start_idx.
            rbind (py_index (embeds_cumsum em) (end_idx - 1)) (\<lambda>embeds_end_idx.
              Inr (embeds_start_idx, embeds_end_idx))))"

section \<open>The two managers\<close>

datatype enc_manager = Enc enc_cache | EncDec encdec_cache

fun em_check_and_update :: "request \<Rightarrow> nat \<Rightarrow> enc_manager \<Rightarrow> (bool \<times> enc_manager) result" where
  "em_check_and_update r i (Enc e) = rbind (check_and_update_cache r i e) (\<lambda>(b, e'). Inr (b, Enc e'))"
| "em_check_and_update r i (EncDec e) = Inr (False, EncDec e)"

fun em_can_allocate :: "request \<Rightarrow> nat \<Rightarrow> int \<Rightarrow> int \<Rightarrow> enc_manager \<Rightarrow> (bool \<times> enc_manager) result" where
  "em_can_allocate r i budget k (Enc e) = rbind (can_allocate r i budget k e) (\<lambda>(b, e'). Inr (b, Enc e'))"
| "em_can_allocate r i budget k (EncDec e) = rbind (ed_can_allocate r i budget k e) (\<lambda>b. Inr (b, EncDec e))"

fun em_allocate :: "request \<Rightarrow> nat \<Rightarrow> enc_manager \<Rightarrow> enc_manager result" where
  "em_allocate r i (Enc e) = rbind (enc_allocate r i e) (\<lambda>e'. Inr (Enc e'))"
| "em_allocate r i (EncDec e) = rbind (ed_allocate r i e) (\<lambda>e'. Inr (EncDec e'))"

fun em_free_encoder_input :: "request \<Rightarrow> nat \<Rightarrow> enc_manager \<Rightarrow> enc_manager result" where
  "em_free_encoder_input r i (Enc e) = rbind (free_encoder_input r i e) (\<lambda>e'. Inr (Enc e'))"
| "em_free_encoder_input r i (EncDec e) = rbind (ed_free_encoder_input r i e) (\<lambda>e'. Inr (EncDec e'))"

fun em_get_cached_input_ids :: "request \<Rightarrow> enc_manager \<Rightarrow> nat list" where
  "em_get_cached_input_ids r (Enc e) = get_cached_input_ids r e"
| "em_get_cached_input_ids r (EncDec e) = [0..<length (mm_features r)]"

fun em_free :: "(nat list \<Rightarrow> nat list) \<Rightarrow> request \<Rightarrow> enc_manager \<Rightarrow> enc_manager result" where
  "em_free order r (Enc e) = rbind (enc_free order r e) (\<lambda>e'. Inr (Enc e'))"
| "em_free order r (EncDec e) = rbind (ed_free r e) (\<lambda>e'. Inr (EncDec e'))"

fun em_get_freed_mm_hashes :: "enc_manager \<Rightarrow> string list \<times> enc_manager" where
  "em_get_freed_mm_hashes (Enc e) = (let (hs, e') = get_freed_mm_hashes e in (hs, Enc e'))"
| "em_get_freed_mm_hashes (EncDec e) = (let (hs, e') = ed_get_freed_mm_hashes e in (hs, EncDec e'))"

section \<open>Scheduling encoder inputs\<close>

text \<open>The local variables of the loop.\<close>

record enc_sched =
  es_inputs :: "nat list"
  es_tokens :: int
  es_budget :: int
  es_external :: "nat list"
  es_hashes :: "string list"
  es_embeds :: int
  es_cache :: enc_manager

text \<open>What happens before the capacity is checked: is the output of input \<open>i\<close> available already?\<close>

definition available_input :: "bool \<Rightarrow> request \<Rightarrow> nat \<Rightarrow> enc_sched \<Rightarrow> (bool \<times> enc_sched) result" where
  "available_input encdec r i es =
     (if encdec then Inr (False, es)
      else if mm_identifier (mm_features r ! i) \<in> set (es_hashes es) then Inr (True, es)
      else rbind (em_check_and_update r i (es_cache es)) (\<lambda>(b, c). Inr (b, es\<lparr>es_cache := c\<rparr>)))"

text \<open>Recording input \<open>i\<close> as one to load or to compute; \<open>remote\<close> is \<open>remote_cache_has_item\<close> when there is a
  connector.\<close>

definition schedule_input :: "bool list option \<Rightarrow> request \<Rightarrow> nat \<Rightarrow> int \<Rightarrow> enc_sched \<Rightarrow> enc_sched result" where
  "schedule_input remote r i num_encoder_embeds es =
     (let h = mm_identifier (mm_features r ! i) in
      rbind (case remote of None \<Rightarrow> Inr False | Some bs \<Rightarrow> py_index bs (int i)) (\<lambda>is_remote.
        if is_remote
        then Inr (es\<lparr>es_hashes := List.insert h (es_hashes es), es_external := es_external es @ [i],
                     es_embeds := es_embeds es + num_encoder_embeds\<rparr>)
        else Inr (es\<lparr>es_embeds := es_embeds es + num_encoder_embeds, es_budget := es_budget es - num_encoder_embeds,
                     es_hashes := List.insert h (es_hashes es), es_inputs := es_inputs es @ [i]\<rparr>)))"

text \<open>The loop over the features; returning \<open>es\<close> without a recursive call is \<open>break\<close>.\<close>

fun schedule_inputs ::
  "bool \<Rightarrow> bool \<Rightarrow> bool list option \<Rightarrow> int \<Rightarrow> request \<Rightarrow> int \<Rightarrow> nat list \<Rightarrow> enc_sched \<Rightarrow> enc_sched result" where
  "schedule_inputs encdec no_chunk remote shift r nc [] es = Inr es"
| "schedule_inputs encdec no_chunk remote shift r nc (i # is) es =
     (let pos = mm_position (mm_features r ! i); start_pos = offset pos; num_encoder_tokens = pr_length pos in
      rbind (get_num_embeds pos) (\<lambda>num_encoder_embeds.
        if nc + es_tokens es + shift \<le> start_pos then Inr es
        else if encdec \<and> 0 < nc
        then py_assert (start_pos = 0) (schedule_inputs encdec no_chunk remote shift r nc is es)
        else if start_pos + num_encoder_tokens \<le> nc then schedule_inputs encdec no_chunk remote shift r nc is es
        else rbind (available_input encdec r i es) (\<lambda>(skip, es1).
          if skip then schedule_inputs encdec no_chunk remote shift r nc is es1
          else if no_chunk \<and> nc < start_pos \<and> nc + es_tokens es1 < start_pos + num_encoder_tokens
          then Inr (es1\<lparr>es_tokens := start_pos - nc\<rparr>)
          else rbind (em_can_allocate r i (es_budget es1) (es_embeds es1) (es_cache es1)) (\<lambda>(room, c).
            let es2 = es1\<lparr>es_cache := c\<rparr> in
            if \<not> room
            then Inr (es2\<lparr>es_tokens := (if nc + shift < start_pos then start_pos - (nc + shift) else 0)\<rparr>)
            else
              rbind (get_embeds_indices_in_range pos (max 0 (nc - start_pos))
                       (min num_encoder_tokens (nc + es_tokens es2 - start_pos))) (\<lambda>(curr_start, curr_end).
                if curr_end - curr_start = 0 then schedule_inputs encdec no_chunk remote shift r nc is es2
                else rbind (schedule_input remote r i num_encoder_embeds es2)
                       (schedule_inputs encdec no_chunk remote shift r nc is))))))"

definition has_encoder_inputs :: "request \<Rightarrow> bool" where
  "has_encoder_inputs r \<longleftrightarrow> 0 < length (mm_features r)"

definition try_schedule_encoder_inputs ::
  "bool \<Rightarrow> bool \<Rightarrow> (request \<Rightarrow> bool list) option \<Rightarrow> request \<Rightarrow> int \<Rightarrow> int \<Rightarrow> int \<Rightarrow> int \<Rightarrow> enc_manager \<Rightarrow>
   enc_sched result" where
  "try_schedule_encoder_inputs encdec no_chunk ec r num_computed_toks num_new_tokens encoder_compute_budget shift c =
     (let es = \<lparr>es_inputs = [], es_tokens = num_new_tokens, es_budget = encoder_compute_budget, es_external = [],
                es_hashes = [], es_embeds = 0, es_cache = c\<rparr> in
      if num_new_tokens = 0 \<or> \<not> has_encoder_inputs r then Inr es
      else schedule_inputs encdec no_chunk (map_option (\<lambda>has_caches. has_caches r) ec) shift r num_computed_toks
             [0..<length (mm_features r)] es)"

text \<open>\<open>_free_encoder_inputs\<close>; \<open>order\<close> is the order of \<open>list(set)\<close>.\<close>

definition free_computed_input :: "bool \<Rightarrow> request \<Rightarrow> nat \<Rightarrow> enc_manager \<Rightarrow> enc_manager result" where
  "free_computed_input encdec r i c =
     (let pos = mm_position (mm_features r ! i) in
      if encdec \<and> 0 < num_computed_tokens r then em_free_encoder_input r i c
      else if offset pos + pr_length pos \<le> num_computed_tokens r then em_free_encoder_input r i c
      else Inr c)"

definition free_encoder_inputs :: "bool \<Rightarrow> (nat list \<Rightarrow> nat list) \<Rightarrow> request \<Rightarrow> enc_manager \<Rightarrow> enc_manager result" where
  "free_encoder_inputs encdec order r c =
     foldM (free_computed_input encdec r) (order (em_get_cached_input_ids r c)) c"

section \<open>Ranges\<close>

text \<open>Position \<open>x\<close> of the prompt is filled with an embedding of the item at \<open>p\<close>.\<close>

definition emb_at :: "placeholder_range \<Rightarrow> int \<Rightarrow> bool" where
  "emb_at p x \<longleftrightarrow> offset p \<le> x \<and> x < offset p + pr_length p
     \<and> (case is_embed p of None \<Rightarrow> True | Some em \<Rightarrow> em ! nat (x - offset p))"

definition range_wf :: "placeholder_range \<Rightarrow> bool" where
  "range_wf p \<longleftrightarrow> 0 < pr_length p \<and> (case is_embed p of None \<Rightarrow> True | Some em \<Rightarrow> int (length em) = pr_length p)"

definition mm_hash :: "request \<Rightarrow> nat \<Rightarrow> string" where
  "mm_hash r i = mm_identifier (mm_features r ! i)"

definition mm_range :: "request \<Rightarrow> nat \<Rightarrow> placeholder_range" where
  "mm_range r i = mm_position (mm_features r ! i)"

text \<open>The items of a request come in the order of the prompt.\<close>

definition features_wf :: "request \<Rightarrow> bool" where
  "features_wf r \<longleftrightarrow> list_all (\<lambda>f. range_wf (mm_position f)) (mm_features r)
     \<and> sorted (map (\<lambda>f. offset (mm_position f)) (mm_features r))"

lemma cumsum_index:
  "0 \<le> i \<Longrightarrow> i < int (length em) \<Longrightarrow>
   py_index (embeds_cumsum em) i = Inr (int (length (filter id (take (Suc (nat i)) em))))"
  using nth_upt [of 0 "nat i" "length em"] by (simp add: py_index_def py_position_def embeds_cumsum_def nat_less_iff)

lemma filter_take_diff:
  "a \<le> b \<Longrightarrow> length (filter P (take b xs)) = length (filter P (take a xs)) + length (filter P (drop a (take b xs)))"
  by (metis append_take_drop_id filter_append length_append min_absorb1 take_take)

lemma embeds_range_ok:
  assumes p: "range_wf p" and a: "0 \<le> a" "a < b" "b \<le> pr_length p"
  shows "\<exists>u v. get_embeds_indices_in_range p a b = Inr (u, v)
    \<and> (v - u = 0 \<longrightarrow> (\<forall>x. offset p + a \<le> x \<and> x < offset p + b \<longrightarrow> \<not> emb_at p x))"
proof (cases "is_embed p")
  case None
  then show ?thesis using a by (simp add: get_embeds_indices_in_range_def)
next
  case (Some em)
  have len: "int (length em) = pr_length p" using p Some by (simp add: range_wf_def)
  let ?n = "\<lambda>k. int (length (filter id (take (nat k) em)))"
  have "get_embeds_indices_in_range p a b = Inr (?n a, ?n b)"
    using a Some len by (simp add: get_embeds_indices_in_range_def cumsum_index Suc_nat_eq_nat_zadd1)
  moreover have "\<not> emb_at p x" if z: "?n b - ?n a = 0" and x: "offset p + a \<le> x" "x < offset p + b" for x
  proof -
    have "filter id (drop (nat a) (take (nat b) em)) = []"
      using filter_take_diff [of "nat a" "nat b" id em] z a by simp
    then have "\<forall>y \<in> set (drop (nat a) (take (nat b) em)). \<not> y" by (simp add: filter_empty_conv)
    moreover have "em ! nat (x - offset p) \<in> set (drop (nat a) (take (nat b) em))"
    proof -
      let ?L = "drop (nat a) (take (nat b) em)" and ?k = "nat (x - offset p) - nat a"
      have "?k < length ?L" using a x len by auto
      then have "?L ! ?k \<in> set ?L" by (rule nth_mem)
      moreover have "?L ! ?k = em ! nat (x - offset p)" using a x len by simp
      ultimately show ?thesis by simp
    qed
    ultimately have "\<not> em ! nat (x - offset p)" by (rule bspec)
    then show ?thesis using Some by (simp add: emb_at_def)
  qed
  ultimately show ?thesis by blast
qed

section \<open>The loop\<close>

text \<open>The encoder output of hash \<open>h\<close> is scheduled in this step, or is in the cache and held by the request.\<close>

fun em_holds :: "string \<Rightarrow> enc_manager \<Rightarrow> string \<Rightarrow> bool" where
  "em_holds rid (Enc e) h = holds rid e h"
| "em_holds rid (EncDec e) h = False"

definition covered :: "request \<Rightarrow> enc_sched \<Rightarrow> string \<Rightarrow> bool" where
  "covered r es h \<longleftrightarrow> h \<in> set (es_hashes es) \<or> em_holds (request_id r) (es_cache es) h"

definition es_inv :: "(string \<Rightarrow> int) \<Rightarrow> request \<Rightarrow> int \<Rightarrow> enc_sched \<Rightarrow> enc_cache \<Rightarrow> bool" where
  "es_inv sz r budget es e \<longleftrightarrow> es_cache es = Enc e \<and> enc_inv sz e \<and> 0 \<le> es_embeds es
     \<and> es_embeds es \<le> num_free_slots e \<and> es_budget es = budget - es_embeds es \<and> 0 \<le> es_budget es
     \<and> es_external es = [] \<and> set (es_hashes es) = mm_hash r ` set (es_inputs es) \<and> distinct (map (mm_hash r) (es_inputs es))
     \<and> (\<forall>h \<in> set (es_hashes es). map_of (cached e) h = None)
     \<and> es_embeds es = (\<Sum>i \<leftarrow> es_inputs es. sz (mm_hash r i)) \<and> (\<forall>i \<in> set (es_inputs es). i < length (mm_features r))"

definition es_le :: "request \<Rightarrow> enc_sched \<Rightarrow> enc_sched \<Rightarrow> bool" where
  "es_le r es es' \<longleftrightarrow> es_tokens es' \<le> es_tokens es \<and> (\<forall>h. covered r es h \<longrightarrow> covered r es' h)"

lemma es_le_refl [simp]: "es_le r es es"
  and es_le_trans: "es_le r es es1 \<Longrightarrow> es_le r es1 es2 \<Longrightarrow> es_le r es es2"
  by (auto simp: es_le_def)

lemma available_input_ok:
  assumes inv: "es_inv sz r budget es e" and i: "i < length (mm_features r)"
  shows "\<exists>b es1 e1. available_input False r i es = Inr (b, es1) \<and> es_inv sz r budget es1 e1 \<and> es_le r es es1
    \<and> es_tokens es1 = es_tokens es \<and> (b \<longrightarrow> covered r es1 (mm_hash r i))
    \<and> (\<not> b \<longrightarrow> mm_hash r i \<notin> set (es_hashes es1) \<and> map_of (cached e1) (mm_hash r i) = None)"
proof (cases "mm_hash r i \<in> set (es_hashes es)")
  case True
  then show ?thesis using inv by (auto simp: available_input_def mm_hash_def covered_def)
next
  case False
  let ?h = "mm_hash r i"
  have e: "es_cache es = Enc e" "enc_inv sz e" using inv by (simp_all add: es_inv_def)
  obtain e1 where c: "check_and_update_cache r i e = Inr (map_of (cached e) ?h \<noteq> None, e1)" "enc_inv sz e1"
    "num_free_slots e1 = num_free_slots e" "\<forall>x. x \<noteq> ?h \<longrightarrow> map_of (cached e1) x = map_of (cached e) x"
    "map_of (cached e) ?h \<noteq> None \<longrightarrow> (\<exists>refs. map_of (cached e1) ?h = Some refs \<and> request_id r \<in> set refs)"
    using check_and_update_cache_ok [OF e(2) i, of ?h] unfolding mm_hash_def by blast
  have hold: "holds (request_id r) e x \<Longrightarrow> holds (request_id r) e1 x" for x
    using c(4,5) by (cases "x = ?h") (auto simp: holds_def)
  let ?es = "es\<lparr>es_cache := Enc e1\<rparr>"
  have run: "available_input False r i es = Inr (map_of (cached e) ?h \<noteq> None, ?es)"
    using False c(1) e(1) by (simp add: available_input_def mm_hash_def)
  have "map_of (cached e1) h = None" if "h \<in> set (es_hashes es)" for h
  proof -
    have "h \<noteq> ?h" using that False by blast
    then show ?thesis using c(4) that inv by (simp add: es_inv_def)
  qed
  then have inv1: "es_inv sz r budget ?es e1" using inv c(2,3) by (simp add: es_inv_def)
  have le: "es_le r es ?es" using e(1) hold by (auto simp: es_le_def covered_def)
  show ?thesis
  proof (cases "map_of (cached e) ?h")
    case None
    have "check_and_update_cache r i e = Inr (False, e)"
      using None i by (simp add: check_and_update_cache_def mm_hash_of_ok mm_hash_def)
    then have "e1 = e" using c(1) by simp
    then have "map_of (cached e1) ?h = None" using None by simp
    then show ?thesis using run inv1 le None False by auto
  next
    case (Some refs)
    then have "covered r ?es ?h" using c(5) by (auto simp: covered_def holds_def)
    then show ?thesis using run inv1 le Some by auto
  qed
qed

lemma room_ok:
  assumes inv: "es_inv sz r budget es e" and i: "i < length (mm_features r)" and sz: "sized sz r"
    and new: "mm_hash r i \<notin> set (es_hashes es)" "map_of (cached e) (mm_hash r i) = None"
  shows "\<exists>b e1. em_can_allocate r i (es_budget es) (es_embeds es) (es_cache es) = Inr (b, Enc e1)
    \<and> es_inv sz r budget (es\<lparr>es_cache := Enc e1\<rparr>) e1 \<and> es_le r es (es\<lparr>es_cache := Enc e1\<rparr>)
    \<and> map_of (cached e1) (mm_hash r i) = None
    \<and> (b \<longrightarrow> sz (mm_hash r i) \<le> es_budget es \<and> sz (mm_hash r i) + es_embeds es \<le> num_free_slots e1)"
proof -
  let ?n = "sz (mm_hash r i)"
  have e: "es_cache es = Enc e" "enc_inv sz e" using inv by (simp_all add: es_inv_def)
  obtain e1 out where c: "can_allocate r i (es_budget es) (es_embeds es) e = Inr (?n \<le> es_budget es \<and> ?n + es_embeds es \<le> num_freeable_slots e, e1)"
    "enc_inv sz e1" "freeable e = out @ freeable e1" "cached e1 = filter (\<lambda>(h, _). h \<notin> set (map fst out)) (cached e)"
    "?n \<le> es_budget es \<and> ?n + es_embeds es \<le> num_freeable_slots e \<longrightarrow> ?n + es_embeds es \<le> num_free_slots e1"
    "enc_cache_size e1 = enc_cache_size e"
    using can_allocate_ok [OF e(2) i sz refl, of "es_budget es" "es_embeds es"] unfolding mm_hash_def by blast
  have keep: "map_of (cached e1) h = (if h \<in> set (map fst out) then None else map_of (cached e) h)" for h
  proof (cases "h \<in> set (map fst out)")
    case True
    then have "h \<notin> fst ` set (cached e1)" unfolding c(4) by force
    then have "map_of (cached e1) h = None" by (simp only: map_of_eq_None_iff not_False_eq_True)
    then show ?thesis using True by (simp only: if_True)
  next
    case False
    have "map_of (cached e1) h = map_of (cached e) h" unfolding c(4) by (rule map_of_filter_keys [OF False])
    then show ?thesis using False by (simp only: if_False)
  qed
  have unref: "map_of (cached e) h = Some []" if "h \<in> set (map fst out)" for h
  proof -
    have "map_of (freeable e) h \<noteq> None" using that unfolding c(3) by (auto simp: map_of_eq_None_iff)
    then show ?thesis using e(2) by (auto simp: enc_inv_def split: if_splits)
  qed
  have hold: "holds rid e1 h" if a: "holds rid e h" for rid h
  proof -
    have "h \<notin> set (map fst out)"
    proof
      assume "h \<in> set (map fst out)"
      from unref [OF this] a show False by (auto simp: holds_def)
    qed
    then show ?thesis using a keep [of h] by (simp only: holds_def if_False)
  qed
  have free: "es_embeds es \<le> num_free_slots e1"
  proof -
    have "used sz (cached e1) \<le> used sz (cached e)"
    proof -
      have "used sz (filter (\<lambda>(h, _). h \<notin> S) d) \<le> used sz d" if "\<And>h v. (h, v) \<in> set d \<Longrightarrow> 0 \<le> sz h" for S d
        using that by (induction d) (fastforce split: prod.splits)+
      moreover have "0 \<le> sz h" if "(h, v) \<in> set (cached e)" for h v
      proof -
        have "map_of (cached e) h \<noteq> None" using that by (metis map_of_eq_None_iff fst_conv image_eqI)
        then show ?thesis using e(2) by (simp add: enc_inv_def)
      qed
      ultimately show ?thesis unfolding c(4) by blast
    qed
    then show ?thesis using inv e(2) c(2,6) by (simp add: es_inv_def enc_inv_def)
  qed
  have inv1: "es_inv sz r budget (es\<lparr>es_cache := Enc e1\<rparr>) e1" using inv c(2) free keep by (simp add: es_inv_def)
  have le: "es_le r es (es\<lparr>es_cache := Enc e1\<rparr>)" using e(1) hold by (auto simp: es_le_def covered_def)
  let ?b = "?n \<le> es_budget es \<and> ?n + es_embeds es \<le> num_freeable_slots e"
  have "em_can_allocate r i (es_budget es) (es_embeds es) (es_cache es) = Inr (?b, Enc e1)" using c(1) e(1) by simp
  moreover have "map_of (cached e1) (mm_hash r i) = None" using keep [of "mm_hash r i"] new(2) by simp
  moreover have "?b \<longrightarrow> ?n \<le> es_budget es \<and> ?n + es_embeds es \<le> num_free_slots e1" using c(5) by blast
  ultimately show ?thesis using inv1 le by blast
qed

lemma schedule_input_ok:
  assumes inv: "es_inv sz r budget es e" and i: "i < length (mm_features r)" and sz: "sized sz r"
    and new: "mm_hash r i \<notin> set (es_hashes es)" "map_of (cached e) (mm_hash r i) = None"
    and room: "sz (mm_hash r i) \<le> es_budget es" "sz (mm_hash r i) + es_embeds es \<le> num_free_slots e"
  shows "\<exists>es1. schedule_input None r i (sz (mm_hash r i)) es = Inr es1 \<and> es_inv sz r budget es1 e \<and> es_le r es es1
    \<and> es_tokens es1 = es_tokens es \<and> covered r es1 (mm_hash r i)"
proof -
  have "0 \<le> sz (mm_hash r i)" using sz i by (simp add: sized_def mm_hash_def)
  then have "es_inv sz r budget (es\<lparr>es_embeds := es_embeds es + sz (mm_hash r i), es_budget := es_budget es - sz (mm_hash r i),
      es_hashes := List.insert (mm_hash r i) (es_hashes es), es_inputs := es_inputs es @ [i]\<rparr>) e"
    using inv new room i unfolding es_inv_def by (auto simp: image_iff)
  then show ?thesis by (simp add: schedule_input_def mm_hash_def [symmetric] es_le_def covered_def)
qed

text \<open>Every embedding at a position of the step, in the features from \<open>j\<close> on, is covered.\<close>

definition needs_covered :: "request \<Rightarrow> int \<Rightarrow> nat \<Rightarrow> enc_sched \<Rightarrow> bool" where
  "needs_covered r nc j es \<longleftrightarrow> (\<forall>i x. j \<le> i \<and> i < length (mm_features r) \<and> nc \<le> x \<and> x < nc + es_tokens es
     \<and> emb_at (mm_range r i) x \<longrightarrow> covered r es (mm_hash r i))"

lemma needs_covered_step:
  assumes "needs_covered r nc (Suc j) es'" and "es_le r es es'"
    and "covered r es (mm_hash r j) \<or> (\<forall>x. nc \<le> x \<and> x < nc + es_tokens es \<longrightarrow> \<not> emb_at (mm_range r j) x)"
  shows "needs_covered r nc j es'"
  unfolding needs_covered_def
proof (intro allI impI)
  fix i x
  assume a: "j \<le> i \<and> i < length (mm_features r) \<and> nc \<le> x \<and> x < nc + es_tokens es' \<and> emb_at (mm_range r i) x"
  show "covered r es' (mm_hash r i)"
  proof (cases "i = j")
    case True
    have "x < nc + es_tokens es" using a assms(2) by (auto simp: es_le_def)
    then show ?thesis using a assms(2,3) True by (auto simp: es_le_def)
  next
    case False
    then have "Suc j \<le> i" using a by simp
    then show ?thesis using assms(1) a unfolding needs_covered_def by blast
  qed
qed

lemma features_order:
  "features_wf r \<Longrightarrow> j \<le> i \<Longrightarrow> i < length (mm_features r) \<Longrightarrow> offset (mm_range r j) \<le> offset (mm_range r i)"
  by (auto simp: features_wf_def mm_range_def sorted_iff_nth_mono)

text \<open>Leaving the loop at feature \<open>j\<close>: the step ends before it.\<close>

lemma needs_covered_break:
  assumes "features_wf r" and "nc + es_tokens es \<le> offset (mm_range r j) \<or> es_tokens es \<le> 0"
  shows "needs_covered r nc j es"
  unfolding needs_covered_def
proof (intro allI impI)
  fix i x
  assume a: "j \<le> i \<and> i < length (mm_features r) \<and> nc \<le> x \<and> x < nc + es_tokens es \<and> emb_at (mm_range r i) x"
  then have "offset (mm_range r j) \<le> x" using features_order [OF assms(1), of j i] by (auto simp: emb_at_def)
  then show "covered r es (mm_hash r i)" using a assms(2) by auto
qed

lemma schedule_inputs_ok:
  assumes wf: "features_wf r" and sz: "sized sz r"
  shows "es_inv sz r budget es e \<Longrightarrow> 0 < es_tokens es \<Longrightarrow>
    \<exists>es' e'. schedule_inputs False no_chunk None 0 r nc [j..<length (mm_features r)] es = Inr es'
      \<and> es_inv sz r budget es' e' \<and> es_le r es es' \<and> 0 \<le> es_tokens es' \<and> needs_covered r nc j es'"
proof (induction "length (mm_features r) - j" arbitrary: j es e)
  case 0
  then show ?case by (auto simp: needs_covered_def)
next
  case (Suc n)
  then have j: "j < length (mm_features r)" and n: "n = length (mm_features r) - Suc j" by simp_all
  let ?p = "mm_range r j" and ?h = "mm_hash r j"
  let ?rest = "schedule_inputs False no_chunk None 0 r nc [Suc j..<length (mm_features r)]"
  have ne: "get_num_embeds ?p = Inr (sz ?h)"
    using sz j by (auto simp: sized_def get_num_encoder_embeds_def mm_range_def mm_hash_def)
  have rw: "range_wf ?p" using wf j by (simp add: features_wf_def mm_range_def list_all_length)
  have upt: "[j..<length (mm_features r)] = j # [Suc j..<length (mm_features r)]" using j by (simp add: upt_conv_Cons)
  have go_on: "\<exists>es' e'. ?rest es1 = Inr es' \<and> es_inv sz r budget es' e' \<and> es_le r es es' \<and> 0 \<le> es_tokens es' \<and> needs_covered r nc j es'"
    if iv: "es_inv sz r budget es1 e1" and le: "es_le r es es1" and tk: "es_tokens es1 = es_tokens es"
      and cv: "covered r es1 ?h \<or> (\<forall>x. nc \<le> x \<and> x < nc + es_tokens es \<longrightarrow> \<not> emb_at ?p x)" for es1 e1
  proof -
    obtain es' e' where s: "?rest es1 = Inr es'" "es_inv sz r budget es' e'" "es_le r es1 es'" "0 \<le> es_tokens es'"
      "needs_covered r nc (Suc j) es'"
      using Suc.hyps(1) [OF n iv] Suc.prems(2) tk by auto
    have "needs_covered r nc j es'" by (rule needs_covered_step [OF s(5,3)]) (use tk cv in simp)
    then show ?thesis using s es_le_trans [OF le s(3)] by blast
  qed
  show ?case
  proof (cases "nc + es_tokens es \<le> offset ?p \<or> offset ?p + pr_length ?p \<le> nc")
    case True
    consider "nc + es_tokens es \<le> offset ?p" | "\<not> nc + es_tokens es \<le> offset ?p" "offset ?p + pr_length ?p \<le> nc"
      using True by blast
    then show ?thesis
    proof cases
      case 1
      then have "schedule_inputs False no_chunk None 0 r nc [j..<length (mm_features r)] es = Inr es"
        unfolding upt using ne by (simp add: Let_def mm_range_def)
      then show ?thesis using Suc.prems needs_covered_break [OF wf, of nc es j] 1 by auto
    next
      case 2
      have "schedule_inputs False no_chunk None 0 r nc [j..<length (mm_features r)] es = ?rest es"
        unfolding upt using ne 2 by (simp add: Let_def mm_range_def)
      moreover have "\<forall>x. nc \<le> x \<and> x < nc + es_tokens es \<longrightarrow> \<not> emb_at ?p x" using 2 by (auto simp: emb_at_def)
      ultimately show ?thesis using go_on [OF Suc.prems(1) es_le_refl refl] by auto
    qed
  next
    case False
    obtain b es1 e1 where av: "available_input False r j es = Inr (b, es1)" "es_inv sz r budget es1 e1" "es_le r es es1"
      "es_tokens es1 = es_tokens es" "b \<longrightarrow> covered r es1 ?h"
      "\<not> b \<longrightarrow> ?h \<notin> set (es_hashes es1) \<and> map_of (cached e1) ?h = None"
      using available_input_ok [OF Suc.prems(1) j] by blast
    show ?thesis
    proof (cases "b \<or> no_chunk \<and> nc < offset ?p \<and> nc + es_tokens es1 < offset ?p + pr_length ?p")
      case True
      show ?thesis
      proof (cases b)
        case b: True
        have "schedule_inputs False no_chunk None 0 r nc [j..<length (mm_features r)] es = ?rest es1"
          unfolding upt using ne False av(1) b by (simp add: Let_def mm_range_def)
        then show ?thesis using go_on [OF av(2-4)] av(5) b by auto
      next
        case b: False
        let ?es = "es1\<lparr>es_tokens := offset ?p - nc\<rparr>"
        have "schedule_inputs False no_chunk None 0 r nc [j..<length (mm_features r)] es = Inr ?es"
          unfolding upt using ne False av(1) b True by (simp add: Let_def mm_range_def)
        moreover have "es_inv sz r budget ?es e1" using av(2) by (simp add: es_inv_def)
        moreover have "es_le r es ?es" using av(3,4) False by (auto simp: es_le_def covered_def)
        moreover have "needs_covered r nc j ?es" by (rule needs_covered_break [OF wf]) simp
        ultimately show ?thesis using True b by auto
      qed
    next
      case nb: False
      then have new: "?h \<notin> set (es_hashes es1)" "map_of (cached e1) ?h = None" using av(6) by blast+
      obtain room e2 where rm: "em_can_allocate r j (es_budget es1) (es_embeds es1) (es_cache es1) = Inr (room, Enc e2)"
        "es_inv sz r budget (es1\<lparr>es_cache := Enc e2\<rparr>) e2" "es_le r es1 (es1\<lparr>es_cache := Enc e2\<rparr>)"
        "map_of (cached e2) ?h = None"
        "room \<longrightarrow> sz ?h \<le> es_budget es1 \<and> sz ?h + es_embeds es1 \<le> num_free_slots e2"
        using room_ok [OF av(2) j sz new] by blast
      let ?es2 = "es1\<lparr>es_cache := Enc e2\<rparr>"
      have le2: "es_le r es ?es2" using av(3) rm(3) by (rule es_le_trans)
      show ?thesis
      proof (cases room)
        case room: False
        let ?es = "?es2\<lparr>es_tokens := (if nc < offset ?p then offset ?p - nc else 0)\<rparr>"
        have "schedule_inputs False no_chunk None 0 r nc [j..<length (mm_features r)] es = Inr ?es"
          unfolding upt using ne False av(1) nb rm(1) room by (auto simp: Let_def mm_range_def)
        moreover have "es_inv sz r budget ?es e2" using rm(2) by (simp add: es_inv_def)
        moreover have "es_le r es ?es" using le2 av(4) False Suc.prems(2) by (auto simp: es_le_def covered_def)
        moreover have "needs_covered r nc j ?es" by (rule needs_covered_break [OF wf]) simp
        ultimately show ?thesis by fastforce
      next
        case room: True
        define a where "a = max 0 (nc - offset ?p)"
        define c where "c = min (pr_length ?p) (nc + es_tokens es - offset ?p)"
        have ac: "0 \<le> a" "a < c" "c \<le> pr_length ?p"
          using False rw Suc.prems(2) by (auto simp: a_def c_def range_wf_def min_def max_def)
        obtain u v where uv: "get_embeds_indices_in_range ?p a c = Inr (u, v)"
          "v - u = 0 \<longrightarrow> (\<forall>x. offset ?p + a \<le> x \<and> x < offset ?p + c \<longrightarrow> \<not> emb_at ?p x)"
          using embeds_range_ok [OF rw ac] by blast
        have run: "schedule_inputs False no_chunk None 0 r nc [j..<length (mm_features r)] es =
            (if v - u = 0 then ?rest ?es2 else rbind (schedule_input None r j (sz ?h) ?es2) ?rest)"
          unfolding upt using ne False av(1,4) nb rm(1) room uv(1) [unfolded a_def c_def] by (auto simp: Let_def mm_range_def)
        show ?thesis
        proof (cases "v - u = 0")
          case True
          have "\<not> emb_at ?p x" if "nc \<le> x" "x < nc + es_tokens es" for x
          proof -
            have "offset ?p + a \<le> x \<and> x < offset ?p + c \<or> x < offset ?p \<or> offset ?p + pr_length ?p \<le> x"
              using that unfolding a_def c_def by linarith
            then show ?thesis using uv(2) True by (auto simp: emb_at_def)
          qed
          then show ?thesis using go_on [OF rm(2) le2] av(4) run True by simp
        next
          case sched: False
          obtain es3 where s: "schedule_input None r j (sz ?h) ?es2 = Inr es3" "es_inv sz r budget es3 e2" "es_le r ?es2 es3"
            "es_tokens es3 = es_tokens ?es2" "covered r es3 ?h"
            using schedule_input_ok [OF rm(2) j sz _ rm(4)] new(1) rm(5) room by auto
          show ?thesis using go_on [OF s(2) es_le_trans [OF le2 s(3)]] s(1,4,5) av(4) run sched by simp
        qed
      qed
    qed
  qed
qed

text \<open>The inputs of a step can all be allocated.\<close>

lemma allocate_inputs_ok:
  assumes sz: "sized sz r"
  shows "enc_inv sz e \<Longrightarrow> \<forall>i \<in> set is. i < length (mm_features r) \<and> map_of (cached e) (mm_hash r i) = None \<Longrightarrow>
    distinct (map (mm_hash r) is) \<Longrightarrow> (\<Sum>i \<leftarrow> is. sz (mm_hash r i)) \<le> num_free_slots e \<Longrightarrow>
    \<exists>e'. foldM (em_allocate r) is (Enc e) = Inr (Enc e') \<and> enc_inv sz e'
      \<and> num_free_slots e' = num_free_slots e - (\<Sum>i \<leftarrow> is. sz (mm_hash r i))
      \<and> (\<forall>i \<in> set is. holds (request_id r) e' (mm_hash r i)) \<and> (\<forall>h. holds (request_id r) e h \<longrightarrow> holds (request_id r) e' h)"
proof (induction "is" arbitrary: e)
  case (Cons i "is")
  let ?h = "mm_hash r i"
  have i: "i < length (mm_features r)" and new: "map_of (cached e) ?h = None" using Cons.prems(2) by simp_all
  have nn: "0 \<le> sz (mm_hash r k)" if "k \<in> set is" for k
    using sz Cons.prems(2) that by (simp add: sized_def mm_hash_def)
  have "0 \<le> (\<Sum>k \<leftarrow> is. sz (mm_hash r k))" by (rule sum_list_nonneg) (auto simp: nn)
  with Cons.prems(4) have "sz ?h \<le> num_free_slots e" by simp
  then obtain e1 where e1: "enc_allocate r i e = Inr e1" "enc_inv sz e1" "num_free_slots e1 = num_free_slots e - sz ?h"
    "map_of (cached e1) = (map_of (cached e))(?h \<mapsto> [request_id r])"
    using enc_allocate_ok [OF Cons.prems(1) i sz] new unfolding mm_hash_def by blast
  have "?h \<notin> mm_hash r ` set is" using Cons.prems(3) by simp
  then have "mm_hash r k \<noteq> ?h" if "k \<in> set is" for k using that by (metis imageI)
  then have "\<forall>k \<in> set is. k < length (mm_features r) \<and> map_of (cached e1) (mm_hash r k) = None"
    using Cons.prems(2) by (simp add: e1(4))
  moreover have "distinct (map (mm_hash r) is)" "(\<Sum>k \<leftarrow> is. sz (mm_hash r k)) \<le> num_free_slots e1"
    using Cons.prems(3,4) e1(3) by simp_all
  ultimately obtain e' where e': "foldM (em_allocate r) is (Enc e1) = Inr (Enc e')" "enc_inv sz e'"
    "num_free_slots e' = num_free_slots e1 - (\<Sum>k \<leftarrow> is. sz (mm_hash r k))"
    "\<forall>k \<in> set is. holds (request_id r) e' (mm_hash r k)" "\<forall>h. holds (request_id r) e1 h \<longrightarrow> holds (request_id r) e' h"
    using Cons.IH [OF e1(2)] by blast
  have "holds (request_id r) e1 ?h" "holds (request_id r) e h \<longrightarrow> holds (request_id r) e1 h" for h
    using new by (auto simp: holds_def e1(4))
  then show ?case using e1(1,3) e' by auto
qed simp

section \<open>Properties\<close>

text \<open>Scheduling the encoder inputs of a step.  Without EAGLE and without a remote cache, for a request
  whose items come in prompt order, \<open>_try_schedule_encoder_inputs\<close> never raises; it may cut the number of
  tokens but never below zero; the sizes of the inputs it schedules are paid from the compute budget; the
  caller's loop of \<open>allocate\<close> calls over these inputs succeeds; and after it the request holds the encoder
  output of every item that has an embedding at one of the positions of the step.\<close>

theorem encoder_inputs_scheduled:
  assumes "enc_reach sz e" and "sized sz r" and "features_wf r" and "0 \<le> n" and "0 \<le> budget"
  shows "\<exists>es e' e''. try_schedule_encoder_inputs False no_chunk None r nc n budget 0 (Enc e) = Inr es
    \<and> es_cache es = Enc e' \<and> 0 \<le> es_tokens es \<and> es_tokens es \<le> n \<and> es_external es = [] \<and> 0 \<le> es_budget es
    \<and> es_budget es = budget - (\<Sum>i \<leftarrow> es_inputs es. sz (mm_hash r i))
    \<and> foldM (em_allocate r) (es_inputs es) (es_cache es) = Inr (Enc e'') \<and> enc_inv sz e''
    \<and> (\<forall>i < length (mm_features r). \<forall>x. nc \<le> x \<and> x < nc + es_tokens es \<and> emb_at (mm_range r i) x \<longrightarrow>
         holds (request_id r) e'' (mm_hash r i))"
proof -
  let ?es = "\<lparr>es_inputs = [], es_tokens = n, es_budget = budget, es_external = [], es_hashes = [], es_embeds = 0, es_cache = Enc e\<rparr>"
  have inv: "enc_inv sz e" using assms(1) by (rule enc_reach_inv)
  have es0: "es_inv sz r budget ?es e" using inv assms(5) by (simp add: es_inv_def enc_inv_def)
  obtain es e' where es: "try_schedule_encoder_inputs False no_chunk None r nc n budget 0 (Enc e) = Inr es"
    "es_inv sz r budget es e'" "es_le r ?es es" "0 \<le> es_tokens es" "needs_covered r nc 0 es"
  proof (cases "n = 0 \<or> \<not> has_encoder_inputs r")
    case True
    have "needs_covered r nc 0 ?es" using True by (auto simp: needs_covered_def has_encoder_inputs_def)
    then show ?thesis using True es0 assms(4) that [of ?es e] by (simp add: try_schedule_encoder_inputs_def)
  next
    case False
    then show ?thesis using schedule_inputs_ok [OF assms(3,2) es0, of no_chunk nc 0] assms(4) that
      by (auto simp: try_schedule_encoder_inputs_def)
  qed
  have p: "es_cache es = Enc e'" "enc_inv sz e'" "\<forall>i \<in> set (es_inputs es). i < length (mm_features r) \<and> map_of (cached e') (mm_hash r i) = None"
    "distinct (map (mm_hash r) (es_inputs es))" "(\<Sum>i \<leftarrow> es_inputs es. sz (mm_hash r i)) \<le> num_free_slots e'"
    using es(2) by (auto simp: es_inv_def)
  obtain e'' where al: "foldM (em_allocate r) (es_inputs es) (Enc e') = Inr (Enc e'')" "enc_inv sz e''"
    "\<forall>i \<in> set (es_inputs es). holds (request_id r) e'' (mm_hash r i)" "\<forall>h. holds (request_id r) e' h \<longrightarrow> holds (request_id r) e'' h"
    using allocate_inputs_ok [OF assms(2) p(2-5)] by blast
  have "holds (request_id r) e'' h" if "covered r es h" for h
    using that al(3,4) es(2) by (auto simp: covered_def es_inv_def)
  then have "\<forall>i < length (mm_features r). \<forall>x. nc \<le> x \<and> x < nc + es_tokens es \<and> emb_at (mm_range r i) x \<longrightarrow>
      holds (request_id r) e'' (mm_hash r i)"
    using es(5) unfolding needs_covered_def by (meson le0)
  moreover have "es_budget es = budget - (\<Sum>i \<leftarrow> es_inputs es. sz (mm_hash r i))" "es_external es = []" "0 \<le> es_budget es"
    using es(2) by (simp_all add: es_inv_def)
  moreover have "es_tokens es \<le> n" using es(3) by (simp add: es_le_def)
  ultimately show ?thesis using es(1,4) al(1,2) p(1) by auto
qed

theorem encoder_inputs_scheduled_witness:
  "\<exists>es e''. try_schedule_encoder_inputs False False None (sample_mm_request ''r'') 0 3 8 0 (Enc (EncoderCacheManager 4)) = Inr es
     \<and> foldM (em_allocate (sample_mm_request ''r'')) (es_inputs es) (es_cache es) = Inr (Enc e'')
     \<and> (0 < es_tokens es \<longrightarrow> holds ''r'' e'' ''img'')"
proof -
  have r: "enc_reach (\<lambda>_. 2) (EncoderCacheManager 4)" by (rule enc_reach.start) simp
  have f: "mm_features (sample_mm_request ''r'') =
      [\<lparr>mm_identifier = ''img'', mm_position = \<lparr>offset = 0, pr_length = 2, is_embed = None\<rparr>\<rparr>]"
    and rid: "request_id (sample_mm_request ''r'') = ''r''"
    by (simp_all add: sample_mm_request_def sample_request_def)
  have wf: "features_wf (sample_mm_request ''r'')" by (simp add: features_wf_def f range_wf_def)
  have "\<forall>x::int. 0 \<le> x \<and> x < 0 + t \<and> emb_at (mm_range (sample_mm_request ''r'') 0) x \<longrightarrow>
      holds (request_id (sample_mm_request ''r'')) e'' (mm_hash (sample_mm_request ''r'') 0) \<Longrightarrow> 0 < t \<longrightarrow> holds ''r'' e'' ''img''" for t e''
    using rid by (auto simp: f emb_at_def mm_range_def mm_hash_def dest: spec [of _ 0])
  with encoder_inputs_scheduled [OF r sample_sized wf, of 3 8 False 0] show ?thesis
    unfolding f by simp (metis (no_types, lifting))
qed

text \<open>Under EAGLE the positions of a step reach one further (\<open>shift\<close> is 1), and the loop does not leave
  before an item that starts exactly there.  Yet it does not schedule it: there is room in the cache and in
  the budget, the item starts inside the shifted range, the number of tokens is not cut, and its encoder
  output is neither scheduled nor held, with chunked multimodal input or without.\<close>

theorem eagle_boundary_input_missing:
  assumes "enc_reach sz e" and "sized sz r" and "mm_features r = [f]"
    and "is_embed (mm_position f) = None" and "0 < pr_length (mm_position f)"
    and "0 < n" and "offset (mm_position f) = nc + n"
    and "map_of (cached e) (mm_identifier f) = None" and "sz (mm_identifier f) \<le> budget"
    and "sz (mm_identifier f) \<le> num_freeable_slots e"
  shows "\<exists>es. try_schedule_encoder_inputs False no_chunk None r nc n budget 1 (Enc e) = Inr es
    \<and> es_tokens es = n \<and> es_inputs es = [] \<and> es_external es = []
    \<and> emb_at (mm_position f) (nc + n) \<and> nc + n < nc + es_tokens es + 1
    \<and> \<not> em_holds (request_id r) (es_cache es) (mm_identifier f)"
proof -
  let ?p = "mm_position f"
  have inv: "enc_inv sz e" using assms(1) by (rule enc_reach_inv)
  have ne: "get_num_embeds ?p = Inr (pr_length ?p)" using assms(4) by (simp add: get_num_embeds_def)
  have ck: "check_and_update_cache r 0 e = Inr (False, e)"
    using assms(3,8) by (simp add: check_and_update_cache_def mm_hash_of_def py_index_def py_position_def)
  have e: "\<not> holds (request_id r) e (mm_identifier f)" using assms(8) by (simp add: holds_def)
  have emb: "emb_at ?p (nc + n)" using assms(4,5,7) by (simp add: emb_at_def)
  have i0: "0 < length (mm_features r)" using assms(3) by simp
  let ?es = "\<lparr>es_inputs = [], es_tokens = n, es_budget = budget, es_external = [], es_hashes = [], es_embeds = 0, es_cache = Enc e\<rparr>"
  have he: "has_encoder_inputs r" using assms(3) by (simp add: has_encoder_inputs_def)
  show ?thesis
  proof (cases no_chunk)
    case True
    then have "try_schedule_encoder_inputs False no_chunk None r nc n budget 1 (Enc e) = Inr (?es\<lparr>es_tokens := n\<rparr>)"
      using ne ck he assms(3,5-7) by (simp add: try_schedule_encoder_inputs_def available_input_def Let_def)
    then show ?thesis using e emb by simp
  next
    case False
    have fits: "(sz (mm_identifier (mm_features r ! 0)) \<le> budget \<and>
        sz (mm_identifier (mm_features r ! 0)) + 0 \<le> num_freeable_slots e) = True" using assms(3,9,10) by simp
    obtain e1 and out :: "(string \<times> int) list" where c: "can_allocate r 0 budget 0 e = Inr (True, e1)"
      "cached e1 = filter (\<lambda>(h, _). h \<notin> fst ` set out) (cached e)"
      using can_allocate_ok [OF inv i0 assms(2) refl, of budget 0, unfolded fits] by auto
    have e1: "\<not> holds (request_id r) e1 (mm_identifier f)"
      using assms(8) unfolding holds_def c(2) by (force simp: map_of_eq_None_iff dest!: map_of_SomeD)
    have "try_schedule_encoder_inputs False no_chunk None r nc n budget 1 (Enc e) = Inr (?es\<lparr>es_cache := Enc e1\<rparr>)"
      using ne ck he assms(3-7) False c(1)
      by (simp add: try_schedule_encoder_inputs_def available_input_def Let_def get_embeds_indices_in_range_def)
    then show ?thesis using e1 emb by simp
  qed
qed

theorem eagle_boundary_input_missing_witness:
  "\<exists>es. try_schedule_encoder_inputs False False None
       ((sample_request ''r'' [1, 2, 3])\<lparr>mm_features := [\<lparr>mm_identifier = ''img'', mm_position = \<lparr>offset = 1, pr_length = 2, is_embed = None\<rparr>\<rparr>]\<rparr>)
       0 1 8 1 (Enc (EncoderCacheManager 4)) = Inr es \<and> es_tokens es = 1 \<and> es_inputs es = []"
proof -
  let ?f = "\<lparr>mm_identifier = ''img'', mm_position = \<lparr>offset = 1, pr_length = 2, is_embed = None\<rparr>\<rparr>"
  let ?r = "(sample_request ''r'' [1, 2, 3])\<lparr>mm_features := [?f]\<rparr>"
  have r: "enc_reach (\<lambda>_. 2) (EncoderCacheManager 4)" by (rule enc_reach.start) simp
  have s: "sized (\<lambda>_. 2) ?r" by (simp add: sized_def get_num_encoder_embeds_def get_num_embeds_def)
  have n: "map_of (cached (EncoderCacheManager 4)) ''img'' = None" "num_freeable_slots (EncoderCacheManager 4) = 4"
    by (simp_all add: EncoderCacheManager_def)
  show ?thesis
    using eagle_boundary_input_missing [OF r s, of ?f 1 0 8 False] n by simp blast
qed

end
