(* ===== verification/Scheduler.thy ===== *)
theory Scheduler
  imports KV_Manager Request_Queue Encoder_Sched
begin

text \<open>
  One scheduling step: \<open>Scheduler.schedule\<close> of \<open>vllm/v1/core/sched/scheduler.py\<close> with the helpers it calls,
  without a KV connector (\<open>connector\<close> is \<open>None\<close>).  Requests are objects: the field \<open>objs\<close> maps their
  addresses to their current contents, and the queues and the dictionary \<open>requests\<close> hold addresses.  The
  waiting queue keeps the request it was given as the handle of the object; of a handle only the fields
  that never change are read, which are the address and the sort key.  The clock, the enumeration order of
  sets of integers, the readiness of a grammar and the remote encoder cache are parameters of a step.
\<close>

section \<open>State\<close>

record sched_config =
  sc_policy :: scheduling_policy
  max_num_running_reqs :: nat
  max_num_scheduled_tokens :: int
  sc_max_model_len :: int
  long_prefill_token_threshold :: int
  enable_chunked_prefill :: bool
  no_chunked_mm_input :: bool
  max_loras :: "nat option"
  is_encoder_decoder :: bool
  sc_use_eagle :: bool
  num_spec_tokens :: nat
  num_lookahead_tokens :: int
  num_encoder_max_input_tokens :: int
  max_num_encoder_input_tokens :: int
  sc_log_stats :: bool
  use_pp :: bool
  use_v2_model_runner :: bool

record sched_env =
  env_now :: real
  env_order :: "nat list \<Rightarrow> nat list"
  env_grammar :: "request \<Rightarrow> bool"
  env_remote :: "(request \<Rightarrow> bool list) option"

record sched =
  objs :: "nat \<Rightarrow> request"
  requests :: "string \<rightharpoonup> nat"
  waiting_q :: waiting
  running :: "nat list"
  finished_req_ids :: "string list"
  finished_req_ids_dict :: "(int, string list) odict option"
  prev_step_scheduled_req_ids :: "string list"
  kv :: kv_manager
  enc :: enc_manager

text \<open>The local variables of \<open>schedule\<close>.\<close>

record step =
  st_new :: "nat list"
  st_resumed :: "nat list"
  st_running :: "nat list"
  st_preempted :: "nat list"
  st_blocks :: "(string, kv_cache_blocks) odict"
  st_tokens :: "(string, int) odict"
  token_budget :: int
  st_enc_budget :: int
  st_enc_inputs :: "(string, nat list) odict"
  st_spec :: "(string, int list) odict"
  st_loras :: "int list"
  req_index :: int

text \<open>The constructor.  \<open>c\<close> holds the values it reads from the configuration, with the lookahead computed as
  it does; \<open>mem\<close> is the memory before any request exists.\<close>

definition spec_lookahead :: "nat option \<Rightarrow> bool \<Rightarrow> nat \<times> bool \<times> int" where
  "spec_lookahead speculative eagle =
     (case speculative of None \<Rightarrow> (0, False, 0) | Some n \<Rightarrow> (n, eagle, if eagle then int n else 0))"

definition Scheduler_init ::
  "sched_config \<Rightarrow> kv_cache_config \<Rightarrow> nat \<Rightarrow> int \<Rightarrow> int \<Rightarrow> bool \<Rightarrow> bool \<Rightarrow> bool \<Rightarrow> int \<Rightarrow> int \<Rightarrow> bool \<Rightarrow> (nat \<Rightarrow> request) \<Rightarrow>
   sched result" where
  "Scheduler_init c cfg block_size gpu_blocks encoder_cache_size caching kv_events include_finished_set dcp pcp use_int mem =
     py_assert (0 < gpu_blocks)
       (rbind (KVCacheManager_init cfg (sc_max_model_len c) block_size caching (sc_use_eagle c) (sc_log_stats c)
                 kv_events dcp pcp use_int) (\<lambda>k.
          Inr \<lparr>objs = mem, requests = Map.empty, waiting_q = create_request_queue (sc_policy c), running = [],
               finished_req_ids = [], finished_req_ids_dict = (if include_finished_set then Some [] else None),
               prev_step_scheduled_req_ids = [], kv = k,
               enc = (if is_encoder_decoder c then EncDec (EncoderDecoderCacheManager encoder_cache_size)
                      else Enc (EncoderCacheManager encoder_cache_size))\<rparr>))"

definition set_obj :: "nat \<Rightarrow> request \<Rightarrow> sched \<Rightarrow> sched" where
  "set_obj n r s = s\<lparr>objs := (objs s)(n := r)\<rparr>"

definition add_request :: "sched_config \<Rightarrow> real \<Rightarrow> request \<Rightarrow> sched \<Rightarrow> sched" where
  "add_request c now r s =
     (let s1 = s\<lparr>waiting_q := wq_add r (waiting_q s), requests := (requests s)(request_id r \<mapsto> obj_id r)\<rparr>
      in set_obj (obj_id r) (if sc_log_stats c then record_event EV_QUEUED now r else r) s1)"

section \<open>Preemption\<close>

definition preempt_request :: "sched_config \<Rightarrow> sched_env \<Rightarrow> nat \<Rightarrow> sched \<Rightarrow> sched result" where
  "preempt_request c env n s =
     (let r = objs s n in
      py_assert (status r = RUNNING)
        (rbind (free r (kv s)) (\<lambda>k.
          rbind (em_free (env_order env) r (enc s)) (\<lambda>e.
            let r1 = r\<lparr>status := PREEMPTED, num_computed_tokens := 0, spec_token_ids := [],
                       num_preemptions := num_preemptions r + 1\<rparr>;
                r2 = (if sc_log_stats c then record_event EV_PREEMPTED (env_now env) r1 else r1)
            in Inr (set_obj n r2 (s\<lparr>kv := k, enc := e, waiting_q := wq_prepend r2 (waiting_q s)\<rparr>))))))"

text \<open>\<open>max(self.running, key = ...)\<close> is the first of the greatest elements.\<close>

fun first_max :: "('a \<Rightarrow> 'k::linorder) \<Rightarrow> 'a \<Rightarrow> 'a list \<Rightarrow> 'a" where
  "first_max key x [] = x"
| "first_max key x (y # ys) = first_max key (if key x < key y then y else x) ys"

definition sum_embeds :: "request \<Rightarrow> nat list \<Rightarrow> int result" where
  "sum_embeds r is = foldM (\<lambda>i acc. rbind (get_num_encoder_embeds r i) (\<lambda>n. Inr (acc + n))) is 0"

text \<open>Undoing what this step has scheduled for a preempted request.\<close>

definition unschedule :: "nat \<Rightarrow> request \<Rightarrow> step \<Rightarrow> step result" where
  "unschedule v r st =
     (let rid = request_id r in
      rbind (dget (st_tokens st) rid) (\<lambda>n.
        rbind (dget (st_blocks st) rid) (\<lambda>_.
          rbind (case map_of (st_enc_inputs st) rid of None \<Rightarrow> Inr 0 | Some is \<Rightarrow> sum_embeds r is) (\<lambda>m.
            Inr (st\<lparr>st_running := remove1 v (st_running st), token_budget := token_budget st + n,
                    st_blocks := AList.delete rid (st_blocks st), st_tokens := AList.delete rid (st_tokens st),
                    st_spec := AList.delete rid (st_spec st), st_enc_inputs := AList.delete rid (st_enc_inputs st),
                    st_enc_budget := st_enc_budget st + m, req_index := req_index st - 1\<rparr>)))))"

text \<open>The choice of the request to preempt, and its removal from the running queue.\<close>

definition pick_victim :: "sched_config \<Rightarrow> sched \<Rightarrow> step \<Rightarrow> (nat \<times> sched \<times> step) result" where
  "pick_victim c s st =
     (case sc_policy c of
        PRIORITY \<Rightarrow>
          (case running s of
             [] \<Rightarrow> Inl ValueError
           | x # xs \<Rightarrow>
               let v = first_max (\<lambda>n. (priority (objs s n), arrival_time (objs s n))) x xs;
                   s1 = s\<lparr>running := remove1 v (running s)\<rparr>
               in rbind (if v \<in> set (st_running st) then unschedule v (objs s v) st else Inr st) (\<lambda>st1. Inr (v, s1, st1)))
      | FCFS \<Rightarrow>
          (if running s = [] then Inl IndexError
           else Inr (last (running s), s\<lparr>running := butlast (running s)\<rparr>, st)))"

lemma pick_victim_running: "pick_victim c s st = Inr (v, s1, st1) \<Longrightarrow> length (running s1) < length (running s)"
proof -
  have "first_max key x xs \<in> set (x # xs)" for key :: "nat \<Rightarrow> int \<times> real" and x xs
    by (induction xs arbitrary: x) (auto split: if_splits)
  then have "length (remove1 (first_max key x xs) (x # xs)) = length xs" for key :: "nat \<Rightarrow> int \<times> real" and x xs
    using length_remove1 [of "first_max key x xs" "x # xs"] by simp
  then show "pick_victim c s st = Inr (v, s1, st1) \<Longrightarrow> length (running s1) < length (running s)"
    by (auto simp: pick_victim_def Let_def length_greater_0_conv split: scheduling_policy.splits list.splits if_splits
        simp del: remove1.simps)
qed

lemma preempt_request_running: "preempt_request c env n s = Inr s' \<Longrightarrow> running s' = running s"
  by (auto simp: preempt_request_def py_assert_def set_obj_def Let_def split: if_splits)

text \<open>The loop \<open>while True\<close> around \<open>allocate_slots\<close>; the result is \<open>None\<close> when request \<open>n\<close> itself was preempted.\<close>

function alloc_or_preempt ::
  "sched_config \<Rightarrow> sched_env \<Rightarrow> nat \<Rightarrow> int \<Rightarrow> sched \<Rightarrow> step \<Rightarrow> (kv_cache_blocks option \<times> sched \<times> step) result" where
  "alloc_or_preempt c env n num_new_tokens s st =
     rbind (allocate_slots (objs s n) num_new_tokens 0 None (num_lookahead_tokens c) 0 False 0 (kv s)) (\<lambda>(new_blocks, k).
       case new_blocks of
         Some b \<Rightarrow> Inr (Some b, s\<lparr>kv := k\<rparr>, st)
       | None \<Rightarrow>
           rbind (pick_victim c (s\<lparr>kv := k\<rparr>) st) (\<lambda>(v, s1, st1).
             rbind (preempt_request c env v s1) (\<lambda>s2.
               let st2 = st1\<lparr>st_preempted := st_preempted st1 @ [v]\<rparr> in
               if v = n then Inr (None, s2, st2) else alloc_or_preempt c env n num_new_tokens s2 st2)))"
  by pat_completeness auto
termination
proof (relation "measure (\<lambda>(c, env, n, k, s, st). length (running s))", goal_cases)
  case (2 c env n num_new_tokens s st nb new_blocks k p v q s1 st1 s2 st2)
  then have "pick_victim c (s\<lparr>kv := k\<rparr>) st = Inr (v, s1, st1)" "preempt_request c env v s1 = Inr s2" by simp_all
  then show ?case using pick_victim_running preempt_request_running by fastforce
qed simp

declare alloc_or_preempt.simps [simp del]

section \<open>The running requests\<close>

text \<open>The number of tokens a running request asks for.\<close>

definition running_tokens :: "sched_config \<Rightarrow> int \<Rightarrow> request \<Rightarrow> int" where
  "running_tokens c budget r =
     (let n = num_tokens_with_spec r + num_output_placeholders r - num_computed_tokens r;
          n1 = (if 0 < long_prefill_token_threshold c \<and> long_prefill_token_threshold c < n
                then long_prefill_token_threshold c else n)
      in min (min n1 budget) (sc_max_model_len c - 1 - num_computed_tokens r))"

definition reached_max_tokens :: "request \<Rightarrow> bool" where
  "reached_max_tokens r \<longleftrightarrow> 0 < num_output_placeholders r
     \<and> num_prompt_tokens r + max_tokens r \<le> num_computed_tokens r + 2 - num_output_placeholders r"

definition encoder_inputs ::
  "sched_config \<Rightarrow> sched_env \<Rightarrow> request \<Rightarrow> int \<Rightarrow> int \<Rightarrow> int \<Rightarrow> enc_manager \<Rightarrow> enc_sched result" where
  "encoder_inputs c env r num_computed_toks num_new_tokens budget e =
     (if has_encoder_inputs r
      then try_schedule_encoder_inputs (is_encoder_decoder c) (no_chunked_mm_input c) (env_remote env) r
             num_computed_toks num_new_tokens budget (if sc_use_eagle c then 1 else 0) e
      else Inr \<lparr>es_inputs = [], es_tokens = num_new_tokens, es_budget = budget, es_external = [], es_hashes = [],
                es_embeds = 0, es_cache = e\<rparr>)"

text \<open>The drafts that fit the scheduled tokens.\<close>

definition schedule_spec :: "nat \<Rightarrow> int \<Rightarrow> sched \<times> step \<Rightarrow> sched \<times> step" where
  "schedule_spec n num_new_tokens = (\<lambda>(s, st).
     let r = objs s n in
     if spec_token_ids r = [] then (s, st)
     else
       let k = num_new_tokens + num_computed_tokens r - num_tokens r - num_output_placeholders r in
       (set_obj n (r\<lparr>spec_token_ids := []\<rparr>) s,
        if 0 < k then st\<lparr>st_spec := AList.update (request_id r) (take (nat k) (spec_token_ids r)) (st_spec st)\<rparr> else st))"

text \<open>Recording the encoder inputs of a scheduled request and allocating their cache space.\<close>

definition schedule_encoder :: "request \<Rightarrow> enc_sched \<Rightarrow> sched \<times> step \<Rightarrow> (sched \<times> step) result" where
  "schedule_encoder r es = (\<lambda>(s, st).
     rbind (foldM (em_allocate r) (es_inputs es) (enc s)) (\<lambda>e1.
       rbind (foldM (em_allocate r) (es_external es) e1) (\<lambda>e2.
         Inr (s\<lparr>enc := e2\<rparr>,
              if es_inputs es = [] then st
              else st\<lparr>st_enc_inputs := AList.update (request_id r) (es_inputs es) (st_enc_inputs st),
                      st_enc_budget := es_budget es\<rparr>))))"

text \<open>One iteration; the flag says whether the loop goes on.\<close>

definition running_step :: "sched_config \<Rightarrow> sched_env \<Rightarrow> sched \<Rightarrow> step \<Rightarrow> (bool \<times> sched \<times> step) result" where
  "running_step c env s st =
     rbind (py_index (running s) (req_index st)) (\<lambda>n.
       let r = objs s n in
       if reached_max_tokens r then Inr (True, s, st\<lparr>req_index := req_index st + 1\<rparr>)
       else
         rbind (encoder_inputs c env r (num_computed_tokens r) (running_tokens c (token_budget st) r) (st_enc_budget st) (enc s)) (\<lambda>es.
           let s0 = s\<lparr>enc := es_cache es\<rparr>; num_new_tokens = es_tokens es in
           if num_new_tokens = 0 then Inr (True, s0, st\<lparr>req_index := req_index st + 1\<rparr>)
           else
             rbind (alloc_or_preempt c env n num_new_tokens s0 st) (\<lambda>(new_blocks, s1, st1).
               case new_blocks of
                 None \<Rightarrow> Inr (False, s1, st1)
               | Some b \<Rightarrow>
                   let st2 = st1\<lparr>st_running := st_running st1 @ [n],
                                 st_blocks := AList.update (request_id r) b (st_blocks st1),
                                 st_tokens := AList.update (request_id r) num_new_tokens (st_tokens st1),
                                 token_budget := token_budget st1 - num_new_tokens,
                                 req_index := req_index st1 + 1\<rparr>
                   in rbind (schedule_encoder r es (schedule_spec n num_new_tokens (s1, st2))) (\<lambda>(s3, st3).
                        Inr (True, s3, st3)))))"

text \<open>Every iteration that goes on brings the index closer to the end of the running queue.\<close>

lemma pick_victim_index:
  "pick_victim c s st = Inr (v, s1, st1) \<Longrightarrow> int (length (running s1)) - req_index st1 \<le> int (length (running s)) - req_index st"
proof -
  assume p: "pick_victim c s st = Inr (v, s1, st1)"
  have "req_index st - 1 \<le> req_index st1"
    using p by (auto simp: pick_victim_def unschedule_def Let_def split: scheduling_policy.splits list.splits if_splits)
  then show ?thesis using pick_victim_running [OF p] by linarith
qed

lemma alloc_or_preempt_index:
  "alloc_or_preempt c env n k s st = Inr (nb, s', st') \<Longrightarrow>
   int (length (running s')) - req_index st' \<le> int (length (running s)) - req_index st"
proof (induction c env n k s st arbitrary: nb s' st' rule: alloc_or_preempt.induct)
  case (1 c env n k s st)
  obtain b kv' where a: "allocate_slots (objs s n) k 0 None (num_lookahead_tokens c) 0 False 0 (kv s) = Inr (b, kv')"
    using "1.prems" by (subst (asm) alloc_or_preempt.simps) auto
  show ?case
  proof (cases b)
    case (Some kb)
    then show ?thesis using "1.prems" a by (subst (asm) alloc_or_preempt.simps) auto
  next
    case None
    obtain v s1 st1 s2 where v: "pick_victim c (s\<lparr>kv := kv'\<rparr>) st = Inr (v, s1, st1)" "preempt_request c env v s1 = Inr s2"
      and r: "(if v = n then Inr (None, s2, st1\<lparr>st_preempted := st_preempted st1 @ [v]\<rparr>)
         else alloc_or_preempt c env n k s2 (st1\<lparr>st_preempted := st_preempted st1 @ [v]\<rparr>)) = Inr (nb, s', st')"
      using "1.prems" a None by (subst (asm) alloc_or_preempt.simps) (auto simp: Let_def)
    have "int (length (running s2)) - req_index st1 \<le> int (length (running s)) - req_index st"
      using pick_victim_index [OF v(1)] preempt_request_running [OF v(2)] by simp
    moreover have "int (length (running s')) - req_index st' \<le> int (length (running s2)) - req_index st1"
      using r "1.IH" [OF a refl None v(1) refl refl v(2) refl] by (auto split: if_splits)
    ultimately show ?thesis by linarith
  qed
qed

lemma schedule_spec_running [simp]:
  "running (fst (schedule_spec n k p)) = running (fst p)" "req_index (snd (schedule_spec n k p)) = req_index (snd p)"
  by (cases p; simp add: schedule_spec_def Let_def set_obj_def)+

lemma schedule_encoder_running:
  "schedule_encoder r es p = Inr p' \<Longrightarrow> running (fst p') = running (fst p) \<and> req_index (snd p') = req_index (snd p)"
  by (cases p) (auto simp: schedule_encoder_def)

lemma running_step_index:
  assumes "running_step c env s st = Inr (True, s', st')"
  shows "int (length (running s')) - req_index st' < int (length (running s)) - req_index st"
proof -
  obtain n where n: "py_index (running s) (req_index st) = Inr n" using assms by (auto simp: running_step_def)
  let ?r = "objs s n"
  show ?thesis
  proof (cases "reached_max_tokens ?r")
    case True
    then show ?thesis using assms n by (auto simp: running_step_def Let_def)
  next
    case False
    obtain es where es: "encoder_inputs c env ?r (num_computed_tokens ?r) (running_tokens c (token_budget st) ?r) (st_enc_budget st) (enc s) = Inr es"
      using assms n False by (auto simp: running_step_def Let_def)
    show ?thesis
    proof (cases "es_tokens es = 0")
      case True
      then show ?thesis using assms n False es by (auto simp: running_step_def Let_def)
    next
      case nz: False
      obtain nb s1 st1 where a: "alloc_or_preempt c env n (es_tokens es) (s\<lparr>enc := es_cache es\<rparr>) st = Inr (nb, s1, st1)"
        using assms n False es nz by (auto simp: running_step_def Let_def)
      obtain b where b: "nb = Some b" using assms n False es nz a by (cases nb) (auto simp: running_step_def Let_def)
      define st2 where "st2 = st1\<lparr>st_running := st_running st1 @ [n],
         st_blocks := AList.update (request_id ?r) b (st_blocks st1),
         st_tokens := AList.update (request_id ?r) (es_tokens es) (st_tokens st1),
         token_budget := token_budget st1 - es_tokens es, req_index := req_index st1 + 1\<rparr>"
      have "schedule_encoder ?r es (schedule_spec n (es_tokens es) (s1, st2)) = Inr (s', st')"
        using assms n False es nz a b by (auto simp: running_step_def Let_def st2_def)
      from schedule_encoder_running [OF this] have "running s' = running s1" "req_index st' = req_index st2" by simp_all
      then show ?thesis using alloc_or_preempt_index [OF a] by (simp add: st2_def)
    qed
  qed
qed

function running_loop :: "sched_config \<Rightarrow> sched_env \<Rightarrow> sched \<Rightarrow> step \<Rightarrow> (sched \<times> step) result" where
  "running_loop c env s st =
     (if req_index st < int (length (running s)) \<and> 0 < token_budget st
      then rbind (running_step c env s st) (\<lambda>(go_on, s1, st1).
             if go_on then running_loop c env s1 st1 else Inr (s1, st1))
      else Inr (s, st))"
  by pat_completeness auto
termination
proof (relation "measure (\<lambda>(c, env, s, st). nat (int (length (running s)) - req_index st))", goal_cases)
  case (2 c env s st x go_on p s1 st1)
  then have "running_step c env s st = Inr (True, s1, st1)" by simp
  then show ?case using running_step_index 2 by fastforce
qed simp

declare running_loop.simps [simp del]

section \<open>The waiting requests\<close>

text \<open>Results of operations that may raise or not return.\<close>

type_synonym 'a run = "'a result option"

definition run_bind :: "'a run \<Rightarrow> ('a \<Rightarrow> 'b run) \<Rightarrow> 'b run" where
  "run_bind m f = Option.bind m (\<lambda>res. case res of Inl e \<Rightarrow> Some (Inl e) | Inr x \<Rightarrow> f x)"

lemma run_bind_simps [simp]:
  "run_bind None f = None" "run_bind (Some (Inl e)) f = Some (Inl e)" "run_bind (Some (Inr x)) f = f x"
  by (simp_all add: run_bind_def)

lemma run_bind_Inr [simp]: "run_bind m f = Some (Inr y) \<longleftrightarrow> (\<exists>x. m = Some (Inr x) \<and> f x = Some (Inr y))"
proof (cases m)
  case (Some res)
  then show ?thesis by (cases res) simp_all
qed simp

lemma run_bind_cong [fundef_cong]:
  "m = m' \<Longrightarrow> (\<And>x. m' = Some (Inr x) \<Longrightarrow> f x = f' x) \<Longrightarrow> run_bind m f = run_bind m' f'"
  by (cases m') (auto simp: run_bind_def split: sum.splits)

text \<open>Moving the first waiting request to the queue of skipped requests.\<close>

definition skip_waiting :: "sched \<Rightarrow> waiting \<Rightarrow> (sched \<times> waiting) result" where
  "skip_waiting s skipped =
     rbind (wq_pop (waiting_q s)) (\<lambda>(h, w). Inr (s\<lparr>waiting_q := w\<rparr>, wq_prepend (objs s (obj_id h)) skipped))"

definition lora_full :: "sched_config \<Rightarrow> request \<Rightarrow> step \<Rightarrow> bool" where
  "lora_full c r st \<longleftrightarrow> (case (max_loras c, lora r) of
     (Some m, Some l) \<Rightarrow> length (st_loras st) = m \<and> adapter_id l \<notin> set (st_loras st) | _ \<Rightarrow> False)"

text \<open>The cached tokens of a request that has none computed.\<close>

definition lookup_computed :: "request \<Rightarrow> sched \<Rightarrow> ((kv_cache_blocks \<times> int \<times> int) \<times> sched) run" where
  "lookup_computed r s =
     (if num_computed_tokens r = 0
      then run_bind (get_computed_blocks r (kv s)) (\<lambda>((kb, hit), k). Some (Inr ((kb, hit, hit), s\<lparr>kv := k\<rparr>)))
      else Some (Inr ((empty_kv_cache_blocks (kv s), 0, num_computed_tokens r), s)))"

text \<open>From \<open>self.waiting.pop_request()\<close> on: the request is admitted to the running queue.\<close>

definition admit_waiting ::
  "sched_config \<Rightarrow> sched_env \<Rightarrow> int \<Rightarrow> int \<Rightarrow> enc_sched \<Rightarrow> sched \<Rightarrow> step \<Rightarrow> (sched \<times> step) result" where
  "admit_waiting c env num_computed_toks num_new_tokens es s st =
     rbind (wq_pop (waiting_q s)) (\<lambda>(h, w).
       let n = obj_id h; r = objs s n; rid = request_id r;
           r1 = (if sc_log_stats c then record_event EV_SCHEDULED (env_now env) r else r);
           s1 = s\<lparr>waiting_q := w, running := running s @ [n]\<rparr>
       in rbind (if status r1 = WAITING then Inr (st\<lparr>st_new := st_new st @ [n]\<rparr>)
                 else if status r1 = PREEMPTED then Inr (st\<lparr>st_resumed := st_resumed st @ [n]\<rparr>)
                 else Inl RuntimeError) (\<lambda>st1.
         let st2 = (case (max_loras c, lora r1) of
                      (Some _, Some l) \<Rightarrow> st1\<lparr>st_loras := List.insert (adapter_id l) (st_loras st1)\<rparr> | _ \<Rightarrow> st1);
             st3 = st2\<lparr>st_blocks := AList.update rid (get_blocks rid (kv s)) (st_blocks st2),
                       st_tokens := AList.update rid num_new_tokens (st_tokens st2),
                       token_budget := token_budget st2 - num_new_tokens\<rparr>;
             r2 = r1\<lparr>status := RUNNING, num_computed_tokens := num_computed_toks,
                     num_cached_tokens := (if num_cached_tokens r1 < 0 then num_computed_toks else num_cached_tokens r1)\<rparr>
         in schedule_encoder r2 es (set_obj n r2 s1, st3)))"

text \<open>The number of tokens for a waiting request; \<open>None\<close> stops the loop because chunked prefill is off.\<close>

definition waiting_tokens :: "sched_config \<Rightarrow> int \<Rightarrow> int \<Rightarrow> request \<Rightarrow> int option result" where
  "waiting_tokens c budget num_computed_toks r =
     (let n = num_tokens r - num_computed_toks;
          n1 = (if 0 < long_prefill_token_threshold c \<and> long_prefill_token_threshold c < n
                then long_prefill_token_threshold c else n)
      in if \<not> enable_chunked_prefill c \<and> budget < n1 then Inr None
         else let n2 = min n1 budget in py_assert (0 < n2) (Inr (Some n2)))"

text \<open>From the lookup on.  The flag of the result says whether the loop goes on.\<close>

definition try_admit :: "sched_config \<Rightarrow> sched_env \<Rightarrow> nat \<Rightarrow> sched \<Rightarrow> step \<Rightarrow> (bool \<times> sched \<times> step) run" where
  "try_admit c env n s st =
     (let r = objs s n in
      run_bind (lookup_computed r s) (\<lambda>((kb, hit, num_computed_toks), s1). Some (
        rbind (waiting_tokens c (token_budget st) num_computed_toks r) (\<lambda>toks.
          case toks of
            None \<Rightarrow> Inr (False, s1, st)
          | Some n0 \<Rightarrow>
              rbind (encoder_inputs c env r num_computed_toks n0 (st_enc_budget st) (enc s1)) (\<lambda>es.
                let s2 = s1\<lparr>enc := es_cache es\<rparr>; num_new_tokens = es_tokens es in
                if has_encoder_inputs r \<and> num_new_tokens = 0 then Inr (False, s2, st)
                else
                  rbind (allocate_slots r num_new_tokens hit (Some kb)
                           (if num_computed_tokens r = 0 then 0 else num_lookahead_tokens c) 0 False
                           (if is_encoder_decoder c \<and> has_encoder_inputs r then num_encoder_max_input_tokens c else 0)
                           (kv s2)) (\<lambda>(new_blocks, k).
                    let s3 = s2\<lparr>kv := k\<rparr> in
                    case new_blocks of
                      None \<Rightarrow> rbind (if has_encoder_inputs r then em_free (env_order env) r (enc s3) else Inr (enc s3))
                                (\<lambda>e. Inr (False, s3\<lparr>enc := e\<rparr>, st))
                    | Some _ \<Rightarrow> rbind (admit_waiting c env num_computed_toks num_new_tokens es s3 st) (\<lambda>(s4, st4).
                                  Inr (True, s4, st4))))))))"

text \<open>One iteration of the loop over the waiting queue.  A request that waits for remote blocks cannot
  occur without a connector; \<open>_update_waiting_for_remote_kv\<close> asserts that there is one.\<close>

definition waiting_step ::
  "sched_config \<Rightarrow> sched_env \<Rightarrow> sched \<Rightarrow> step \<Rightarrow> waiting \<Rightarrow> (bool \<times> sched \<times> step \<times> waiting) run" where
  "waiting_step c env s st skipped =
     (if length (running s) = max_num_running_reqs c then Some (Inr (False, s, st, skipped))
      else run_bind (Some (wq_peek (waiting_q s))) (\<lambda>h.
        let n = obj_id h; r = objs s n; skip = (\<lambda>s. Some (rbind (skip_waiting s skipped) (\<lambda>(s1, sk). Inr (True, s1, st, sk)))) in
        if status r = WAITING_FOR_REMOTE_KVS then Some (Inl AssertionError)
        else if status r = WAITING_FOR_FSM \<and> \<not> (structured_output_request r \<noteq> None \<and> env_grammar env r) then skip s
        else
          let s1 = (if status r = WAITING_FOR_FSM then set_obj n (r\<lparr>status := WAITING\<rparr>) s else s) in
          if lora_full c (objs s1 n) st then skip s1
          else run_bind (try_admit c env n s1 st) (\<lambda>(go_on, s2, st2). Some (Inr (go_on, s2, st2, skipped)))))"

text \<open>Every iteration that goes on removes a request from the waiting queue.\<close>

definition wq_size :: "waiting \<Rightarrow> nat" where
  "wq_size w = length (wq_requests w)"

lemma wq_pop_size: "wq_pop w = Inr (r, w') \<Longrightarrow> Suc (wq_size w') = wq_size w"
proof (cases w)
  case (FCFSRequestQueue q)
  then show "wq_pop w = Inr (r, w') \<Longrightarrow> Suc (wq_size w') = wq_size w"
    by (cases q) (auto simp: wq_size_def fcfs_pop_request_def)
next
  case (PriorityRequestQueue h)
  assume pop: "wq_pop w = Inr (r, w')"
  then have ne: "h \<noteq> []" by (auto simp: PriorityRequestQueue prio_pop_request_def split: if_splits)
  have "prio_pop_request h = heappop request_lt h" using ne by (simp add: prio_pop_request_def)
  with heappop_mset [OF ne, of request_lt] obtain x h' where "prio_pop_request h = Inr (x, h')" "add_mset x (mset h') = mset h" by auto
  moreover from this(2) have "Suc (length h') = length h" by (metis size_add_mset size_mset)
  ultimately show ?thesis using pop by (auto simp: PriorityRequestQueue wq_size_def)
qed

lemma schedule_encoder_waiting: "schedule_encoder r es (s, st) = Inr (s', st') \<Longrightarrow> waiting_q s' = waiting_q s"
  by (auto simp: schedule_encoder_def)

lemma admit_waiting_size:
  assumes "admit_waiting c env nc k es s st = Inr (s', st')"
  shows "Suc (wq_size (waiting_q s')) = wq_size (waiting_q s)"
proof -
  obtain h w where p: "wq_pop (waiting_q s) = Inr (h, w)" using assms by (auto simp: admit_waiting_def)
  have "waiting_q s' = w" using assms p
    by (auto simp: admit_waiting_def Let_def set_obj_def dest!: schedule_encoder_waiting split: if_splits)
  then show ?thesis using wq_pop_size [OF p] by simp
qed

lemma lookup_computed_waiting: "lookup_computed r s = Some (Inr (x, s1)) \<Longrightarrow> waiting_q s1 = waiting_q s"
  by (auto simp: lookup_computed_def split: if_splits)

lemma try_admit_size:
  assumes "try_admit c env n s st = Some (Inr (True, s', st'))"
  shows "Suc (wq_size (waiting_q s')) = wq_size (waiting_q s)"
proof -
  obtain kb hit nc s1 where l: "lookup_computed (objs s n) s = Some (Inr ((kb, hit, nc), s1))"
    using assms by (auto simp: try_admit_def Let_def)
  obtain toks where t: "waiting_tokens c (token_budget st) nc (objs s n) = Inr toks"
    using assms l by (auto simp: try_admit_def Let_def)
  obtain n0 where n0: "toks = Some n0" using assms l t by (cases toks) (auto simp: try_admit_def Let_def)
  obtain es where es: "encoder_inputs c env (objs s n) nc n0 (st_enc_budget st) (enc s1) = Inr es"
    using assms l t n0 by (auto simp: try_admit_def Let_def)
  obtain kv' where "admit_waiting c env nc (es_tokens es) es (s1\<lparr>enc := es_cache es, kv := kv'\<rparr>) st = Inr (s', st')"
    using assms l t n0 es by (auto simp: try_admit_def Let_def split: if_splits option.splits)
  from admit_waiting_size [OF this] lookup_computed_waiting [OF l] show ?thesis by simp
qed

lemma waiting_step_size:
  assumes "waiting_step c env s st sk = Some (Inr (True, s', st', sk'))"
  shows "wq_size (waiting_q s') < wq_size (waiting_q s)"
proof -
  have skip: "wq_size (waiting_q s1) < wq_size (waiting_q s0)" if "skip_waiting s0 sk = Inr (s1, sk1)" for s0 s1 sk1
    using that by (auto simp: skip_waiting_def dest!: wq_pop_size)
  have set: "waiting_q (set_obj n r s) = waiting_q s" for n r by (simp add: set_obj_def)
  show ?thesis
    using assms unfolding waiting_step_def Let_def
    by (auto simp: set dest!: skip try_admit_size split: if_splits)
qed

function waiting_loop ::
  "sched_config \<Rightarrow> sched_env \<Rightarrow> sched \<Rightarrow> step \<Rightarrow> waiting \<Rightarrow> (sched \<times> step \<times> waiting) run" where
  "waiting_loop c env s st skipped =
     (if 0 < wq_size (waiting_q s) \<and> 0 < token_budget st
      then run_bind (waiting_step c env s st skipped) (\<lambda>(go_on, s1, st1, skipped1).
             if go_on then waiting_loop c env s1 st1 skipped1 else Some (Inr (s1, st1, skipped1)))
      else Some (Inr (s, st, skipped)))"
  by pat_completeness auto
termination
proof (relation "measure (\<lambda>(c, env, s, st, skipped). wq_size (waiting_q s))", goal_cases)
  case (2 c env s st skipped x go_on p s1 q st1 skipped1)
  then have "waiting_step c env s st skipped = Some (Inr (True, s1, st1, skipped1))" by simp
  then show ?case using waiting_step_size by fastforce
qed simp

declare waiting_loop.simps [simp del]

section \<open>The output of a step\<close>

record new_request_data =
  nr_req_id :: string
  nr_prompt_token_ids :: "int list option"
  nr_mm_features :: "mm_feature list"
  nr_sampling :: "sampling_params option"
  nr_pooling :: "pooling_params option"
  nr_block_ids :: "int list list option"
  nr_num_computed_tokens :: int
  nr_lora :: "lora_request option"
  nr_prompt_embeds :: "bytes list option"
  nr_prefill_token_ids :: "int list option"

definition NewRequestData_from_request ::
  "request \<Rightarrow> int list list option \<Rightarrow> int list option \<Rightarrow> new_request_data" where
  "NewRequestData_from_request r block_ids prefill =
     \<lparr>nr_req_id = request_id r, nr_prompt_token_ids = prompt_token_ids r, nr_mm_features = mm_features r,
      nr_sampling = sampling r, nr_pooling = pooling r, nr_block_ids = block_ids,
      nr_num_computed_tokens = num_computed_tokens r, nr_lora = lora r, nr_prompt_embeds = prompt_embeds r,
      nr_prefill_token_ids = prefill\<rparr>"

record cached_request_data =
  cr_req_ids :: "string list"
  cr_resumed_req_ids :: "string list"
  cr_new_token_ids :: "int list list"
  cr_all_token_ids :: "(string, int list) odict"
  cr_new_block_ids :: "int list list option list"
  cr_num_computed_tokens :: "int list"
  cr_num_output_tokens :: "int list"

definition CachedRequestData_empty :: cached_request_data where
  "CachedRequestData_empty = \<lparr>cr_req_ids = [], cr_resumed_req_ids = [], cr_new_token_ids = [], cr_all_token_ids = [],
     cr_new_block_ids = [], cr_num_computed_tokens = [], cr_num_output_tokens = []\<rparr>"

record sched_output =
  so_new_reqs :: "new_request_data list"
  so_cached_reqs :: cached_request_data
  so_num_scheduled_tokens :: "(string, int) odict"
  so_total_num_scheduled_tokens :: int
  so_spec_decode_tokens :: "(string, int list) odict"
  so_encoder_inputs :: "(string, nat list) odict"
  so_common_prefix_blocks :: "int list"
  so_finished_req_ids :: "string list"
  so_free_encoder_mm_hashes :: "string list"
  so_preempted_req_ids :: "string list"

text \<open>One iteration of \<open>_make_cached_request_data\<close>; \<open>xs[a : b]\<close> with bounds that are not negative.\<close>

definition cached_request :: "sched_config \<Rightarrow> sched \<Rightarrow> step \<Rightarrow> bool \<times> nat \<Rightarrow> cached_request_data \<Rightarrow> cached_request_data result" where
  "cached_request c s st = (\<lambda>(resumed, n) cr.
     let r = objs s n; rid = request_id r; prev = rid \<in> set (prev_step_scheduled_req_ids s) in
     rbind (if use_pp c
            then rbind (dget (st_tokens st) rid) (\<lambda>k.
                   let drafts = (case map_of (st_spec st) rid of None \<Rightarrow> 0 | Some ds \<Rightarrow> int (length ds))
                   in Inr [take (nat (k - drafts)) (drop (nat (num_computed_tokens r)) (all_token_ids r))])
            else Inr []) (\<lambda>toks.
       py_assert (resumed \<longrightarrow> \<not> prev)
         (rbind (dget (st_blocks st) rid) (\<lambda>kb.
            Inr \<lparr>cr_req_ids = cr_req_ids cr @ [rid],
                 cr_resumed_req_ids = (if resumed then List.insert rid (cr_resumed_req_ids cr) else cr_resumed_req_ids cr),
                 cr_new_token_ids = cr_new_token_ids cr @ toks,
                 cr_all_token_ids = (if prev then cr_all_token_ids cr else AList.update rid (all_token_ids r) (cr_all_token_ids cr)),
                 cr_new_block_ids = cr_new_block_ids cr @ [kb_get_block_ids True (km_pool (kv s)) kb],
                 cr_num_computed_tokens = cr_num_computed_tokens cr @ [num_computed_tokens r],
                 cr_num_output_tokens = cr_num_output_tokens cr @ [num_output_tokens r + num_output_placeholders r]\<rparr>))))"

definition make_cached_request_data :: "sched_config \<Rightarrow> sched \<Rightarrow> step \<Rightarrow> nat list \<Rightarrow> nat list \<Rightarrow> cached_request_data result" where
  "make_cached_request_data c s st running_reqs resumed_reqs =
     foldM (cached_request c s st) (map (Pair False) running_reqs @ map (Pair True) resumed_reqs) CachedRequestData_empty"

definition new_request :: "sched_config \<Rightarrow> sched \<Rightarrow> step \<Rightarrow> nat \<Rightarrow> new_request_data list \<Rightarrow> new_request_data list result" where
  "new_request c s st n acc =
     (let r = objs s n in
      rbind (dget (st_blocks st) (request_id r)) (\<lambda>kb.
        Inr (acc @ [NewRequestData_from_request r (kb_get_block_ids False (km_pool (kv s)) kb)
                      (if use_v2_model_runner c then Some (all_token_ids r) else None)])))"

section \<open>The step\<close>

definition advance_request :: "sched_config \<Rightarrow> sched_env \<Rightarrow> string \<times> int \<Rightarrow> sched \<Rightarrow> sched result" where
  "advance_request c env = (\<lambda>(rid, k) s.
     case requests s rid of
       None \<Rightarrow> Inl KeyError
     | Some n \<Rightarrow>
         let r = (objs s n)\<lparr>num_computed_tokens := num_computed_tokens (objs s n) + k\<rparr>; s1 = set_obj n r s in
         if has_encoder_inputs r
         then rbind (free_encoder_inputs (is_encoder_decoder c) (env_order env) r (enc s1)) (\<lambda>e. Inr (s1\<lparr>enc := e\<rparr>))
         else Inr s1)"

definition update_after_schedule :: "sched_config \<Rightarrow> sched_env \<Rightarrow> sched_output \<Rightarrow> sched \<Rightarrow> sched result" where
  "update_after_schedule c env out s =
     rbind (foldM (advance_request c env) (so_num_scheduled_tokens out) s) (\<lambda>s1. Inr (s1\<lparr>finished_req_ids := []\<rparr>))"

definition initial_step :: "sched_config \<Rightarrow> step" where
  "initial_step c = \<lparr>st_new = [], st_resumed = [], st_running = [], st_preempted = [], st_blocks = [], st_tokens = [],
     token_budget = max_num_scheduled_tokens c, st_enc_budget = max_num_encoder_input_tokens c, st_enc_inputs = [],
     st_spec = [], st_loras = [], req_index = 0\<rparr>"

text \<open>The LoRA adapters of the running requests that were scheduled.\<close>

definition scheduled_loras :: "sched \<Rightarrow> nat list \<Rightarrow> int list" where
  "scheduled_loras s ns =
     remdups (concat (map (\<lambda>n. case lora (objs s n) of None \<Rightarrow> [] | Some l \<Rightarrow> if 0 < adapter_id l then [adapter_id l] else []) ns))"

definition collect_loras :: "sched_config \<Rightarrow> sched \<Rightarrow> step \<Rightarrow> step result" where
  "collect_loras c s st =
     (case max_loras c of
        None \<Rightarrow> Inr st
      | Some m \<Rightarrow> let ls = scheduled_loras s (st_running st) in py_assert (length ls \<le> m) (Inr (st\<lparr>st_loras := ls\<rparr>)))"

text \<open>The assertions on the constraints, the common prefix, and the construction of the output.\<close>

definition make_output :: "sched_config \<Rightarrow> sched \<Rightarrow> step \<Rightarrow> (sched_output \<times> sched) result" where
  "make_output c s st =
     (let total_toks = sum_list (map snd (st_tokens st)) in
      py_assert (total_toks \<le> max_num_scheduled_tokens c)
       (py_assert (0 \<le> token_budget st)
         (py_assert (length (running s) \<le> max_num_running_reqs c)
           (py_assert (length (st_new st) + length (st_resumed st) + length (st_running st) \<le> length (running s))
             (let (common, k) = (case running s of
                      [] \<Rightarrow> (replicate (num_kv_cache_groups (kv s)) 0, kv s)
                    | n # _ \<Rightarrow> km_get_num_common_prefix_blocks (request_id (objs s n)) (kv s));
                  s1 = s\<lparr>kv := k\<rparr>;
                  (news, resumed) = (if use_v2_model_runner c then (st_new st @ st_resumed st, []) else (st_new st, st_resumed st))
              in rbind (foldM (new_request c s1 st) news []) (\<lambda>new_data.
                   rbind (make_cached_request_data c s1 st (st_running st) resumed) (\<lambda>cached_data.
                     let (hashes, e) = em_get_freed_mm_hashes (enc s1);
                         out = \<lparr>so_new_reqs = new_data, so_cached_reqs = cached_data,
                                so_num_scheduled_tokens = st_tokens st, so_total_num_scheduled_tokens = total_toks,
                                so_spec_decode_tokens = st_spec st, so_encoder_inputs = st_enc_inputs st,
                                so_common_prefix_blocks = common, so_finished_req_ids = finished_req_ids s1,
                                so_free_encoder_mm_hashes = hashes,
                                so_preempted_req_ids = remdups (map (\<lambda>n. request_id (objs s1 n)) (st_preempted st))\<rparr>
                     in Inr (out, s1\<lparr>enc := e, prev_step_scheduled_req_ids := map fst (st_tokens st)\<rparr>))))))))"

text \<open>The two loops, in the order of the method.\<close>

definition schedule_requests :: "sched_config \<Rightarrow> sched_env \<Rightarrow> sched \<Rightarrow> (sched \<times> step) run" where
  "schedule_requests c env s =
     run_bind (Some (running_loop c env s (initial_step c))) (\<lambda>(s1, st1).
       run_bind (Some (collect_loras c s1 st1)) (\<lambda>st2.
         if st_preempted st2 \<noteq> [] then Some (Inr (s1, st2))
         else run_bind (waiting_loop c env s1 st2 (create_request_queue (sc_policy c))) (\<lambda>(s3, st3, skipped).
                Some (Inr (if 0 < wq_size skipped then s3\<lparr>waiting_q := wq_prepend_requests skipped (waiting_q s3)\<rparr> else s3, st3)))))"

definition schedule :: "sched_config \<Rightarrow> sched_env \<Rightarrow> sched \<Rightarrow> (sched_output \<times> sched) run" where
  "schedule c env s =
     run_bind (schedule_requests c env s) (\<lambda>(s1, st1).
       run_bind (Some (make_output c s1 st1)) (\<lambda>(out, s2).
         run_bind (Some (update_after_schedule c env out s2)) (\<lambda>s3. Some (Inr (out, s3)))))"

end
