(* ===== verification/Sched_Update.thy ===== *)
theory Sched_Update
  imports Scheduler
begin

text \<open>
  What happens between the steps: \<open>update_from_output\<close>, the end of a request, the drafts of the speculative
  decoder, the reset of the prefix cache (\<open>vllm/v1/core/sched/scheduler.py\<close>), and the overrides of
  \<open>AsyncScheduler\<close> (\<open>async_scheduler.py\<close>).  Without a KV connector.  Log probabilities, NaN counts, routed
  experts, grammar advancing and the statistics pass through \<open>update_from_output\<close> without touching the state
  of the scheduler and are left out; a set of requests or of ids is a list in some order of enumeration.
\<close>

section \<open>Freeing a request\<close>

definition free_blocks_of :: "request \<Rightarrow> sched \<Rightarrow> sched result" where
  "free_blocks_of r s =
     py_assert (is_finished r)
       (rbind (free r (kv s)) (\<lambda>k.
          case requests s (request_id r) of
            None \<Rightarrow> Inl KeyError
          | Some _ \<Rightarrow> Inr (s\<lparr>kv := k, requests := (requests s)(request_id r := None)\<rparr>)))"

text \<open>\<open>finished_req_ids_dict\<close> is a \<open>defaultdict(set)\<close>.\<close>

definition sched_free_request :: "sched_env \<Rightarrow> request \<Rightarrow> sched \<Rightarrow> sched result" where
  "sched_free_request env r s =
     py_assert (is_finished r)
       (rbind (em_free (env_order env) r (enc s)) (\<lambda>e.
          let rid = request_id r;
              d = map_option (\<lambda>d. AList.update (client_index r)
                    (List.insert rid (case map_of d (client_index r) of None \<Rightarrow> [] | Some ids \<Rightarrow> ids)) d) (finished_req_ids_dict s)
          in free_blocks_of r (s\<lparr>enc := e, finished_req_ids := List.insert rid (finished_req_ids s), finished_req_ids_dict := d\<rparr>)))"

section \<open>Finishing requests from outside\<close>

text \<open>The first pass collects the requests that are known and not finished.\<close>

definition valid_requests :: "sched \<Rightarrow> string list \<Rightarrow> nat list" where
  "valid_requests s ids =
     concat (map (\<lambda>rid. case requests s rid of
                          None \<Rightarrow> []
                        | Some n \<Rightarrow> if is_finished (objs s n) then [] else [n]) ids)"

definition finish_one :: "sched_env \<Rightarrow> request_status \<Rightarrow> nat \<Rightarrow> sched \<Rightarrow> sched result" where
  "finish_one env st n s =
     (let r = (objs s n)\<lparr>status := st\<rparr> in sched_free_request env r (set_obj n r s))"

definition finish_requests :: "sched_env \<Rightarrow> string list \<Rightarrow> request_status \<Rightarrow> sched \<Rightarrow> sched result" where
  "finish_requests env ids st s =
     py_assert (status_is_finished st)
       (let valid = valid_requests s ids;
            run = filter (\<lambda>n. status (objs s n) = RUNNING) valid;
            wait = filter (\<lambda>n. status (objs s n) \<noteq> RUNNING) valid;
            s1 = (if run \<noteq> [] then s\<lparr>running := remove_all (running s) run\<rparr> else s);
            s2 = (if wait \<noteq> [] then s1\<lparr>waiting_q := wq_remove_requests (map (objs s) wait) (waiting_q s1)\<rparr> else s1)
        in foldM (finish_one env st) valid s2)"

section \<open>The output of the model\<close>

text \<open>\<open>hasher\<close> is the block hasher bound to the requests.  The result is the list of accepted tokens and
  whether the request has stopped.\<close>

fun append_tokens ::
  "(request \<Rightarrow> bytes list result) option \<Rightarrow> int \<Rightarrow> int list \<Rightarrow> request \<Rightarrow> ((int list \<times> bool) \<times> request) result" where
  "append_tokens hasher max_len [] r = Inr (([], False), r)"
| "append_tokens hasher max_len (t # ts) r =
     rbind (append_output_token_ids hasher [t] r) (\<lambda>r1.
       rbind (check_stop r1 max_len) (\<lambda>(stopped, r2).
         if stopped then Inr (([t], True), r2)
         else rbind (append_tokens hasher max_len ts r2) (\<lambda>((us, b), r3). Inr ((t # us, b), r3))))"

definition update_request_with_output ::
  "(request \<Rightarrow> bytes list result) option \<Rightarrow> sched_config \<Rightarrow> nat \<Rightarrow> int list \<Rightarrow> sched \<Rightarrow> ((int list \<times> bool) \<times> sched) result" where
  "update_request_with_output hasher c n toks s =
     rbind (append_tokens hasher (sc_max_model_len c) toks (objs s n)) (\<lambda>(res, r). Inr (res, set_obj n r s))"

text \<open>\<open>AsyncScheduler._update_request_with_output\<close>.\<close>

definition async_update_request_with_output ::
  "(request \<Rightarrow> bytes list result) option \<Rightarrow> sched_config \<Rightarrow> nat \<Rightarrow> int list \<Rightarrow> sched \<Rightarrow> ((int list \<times> bool) \<times> sched) result" where
  "async_update_request_with_output hasher c n toks s =
     (let r = objs s n in
      if discard_latest_async_tokens r
      then Inr (([], False), set_obj n (r\<lparr>discard_latest_async_tokens := False\<rparr>) s)
      else
        rbind (update_request_with_output hasher c n toks s) (\<lambda>((new_toks, stopped), s1).
          let r1 = (objs s1 n)\<lparr>num_output_placeholders := num_output_placeholders (objs s1 n) - int (length new_toks)\<rparr>;
              s2 = set_obj n r1 s1
          in py_assert (0 \<le> num_output_placeholders r1)
               (if status r = RUNNING
                then rbind (km_cache_blocks r1 (num_computed_tokens r1 - num_output_placeholders r1) (kv s2)) (\<lambda>k.
                       Inr ((new_toks, stopped), s2\<lparr>kv := k\<rparr>))
                else Inr ((new_toks, stopped), s2))))"

record engine_core_output =
  ec_request_id :: string
  ec_new_token_ids :: "int list"
  ec_finish_reason :: "finish_reason option"
  ec_pooling_output :: "string option"
  ec_stop_reason :: "int option"
  ec_events :: "(engine_core_event_type \<times> real) list option"
  ec_num_cached_tokens :: int

text \<open>The part of \<open>ModelRunnerOutput\<close> that is used.\<close>

record model_output =
  mo_req_id_to_index :: "(string, nat) odict"
  mo_sampled_token_ids :: "int list list"
  mo_pooler_output :: "string option list"

text \<open>Rejected drafts take back the tokens that were counted as computed.\<close>

definition reject_drafts :: "int list option \<Rightarrow> int list \<Rightarrow> request \<Rightarrow> request" where
  "reject_drafts drafts generated r =
     (case drafts of
        None \<Rightarrow> r
      | Some ds \<Rightarrow>
          if ds = [] then r
          else
            let num_rejected = int (length ds) - (int (length generated) - 1) in
            r\<lparr>num_computed_tokens := (if 0 < num_computed_tokens r then num_computed_tokens r - num_rejected else num_computed_tokens r),
              num_output_placeholders := (if 0 < num_output_placeholders r then num_output_placeholders r - num_rejected
                                          else num_output_placeholders r)\<rparr>)"

text \<open>The local variables of \<open>update_from_output\<close>.\<close>

record update_state =
  us_outputs :: "(int, engine_core_output list) odict"
  us_stopped_running :: "nat list"
  us_stopped_preempted :: "nat list"

definition append_output :: "int \<Rightarrow> engine_core_output \<Rightarrow> update_state \<Rightarrow> update_state" where
  "append_output client out u =
     u\<lparr>us_outputs := AList.update client ((case map_of (us_outputs u) client of None \<Rightarrow> [] | Some os \<Rightarrow> os) @ [out]) (us_outputs u)\<rparr>"

text \<open>The tokens of a request and whether it stops.  \<open>upd\<close> is \<open>_update_request_with_output\<close> of the class of
  the scheduler.\<close>

definition stop_or_go_on ::
  "(nat \<Rightarrow> int list \<Rightarrow> sched \<Rightarrow> ((int list \<times> bool) \<times> sched) result) \<Rightarrow> nat \<Rightarrow> int list \<Rightarrow> string option \<Rightarrow> sched \<Rightarrow>
   ((int list \<times> bool) \<times> sched) result" where
  "stop_or_go_on upd n generated pooler_output s =
     (if generated \<noteq> [] then upd n generated s
      else if pooling (objs s n) \<noteq> None \<and> pooler_output \<noteq> None
      then Inr (([], True), set_obj n ((objs s n)\<lparr>status := FINISHED_STOPPED\<rparr>) s)
      else Inr (([], False), s))"

definition update_one ::
  "sched_env \<Rightarrow> (nat \<Rightarrow> int list \<Rightarrow> sched \<Rightarrow> ((int list \<times> bool) \<times> sched) result) \<Rightarrow> sched_output \<Rightarrow> model_output \<Rightarrow>
   string \<times> int \<Rightarrow> sched \<times> update_state \<Rightarrow> (sched \<times> update_state) result" where
  "update_one env upd so mo = (\<lambda>(rid, num_tokens_scheduled) (s, u).
     py_assert (0 < num_tokens_scheduled)
       (case requests s rid of
          None \<Rightarrow> Inr (s, u)
        | Some n \<Rightarrow>
            rbind (dget (mo_req_id_to_index mo) rid) (\<lambda>i.
            rbind (if mo_sampled_token_ids mo = [] then Inr [] else py_index (mo_sampled_token_ids mo) (int i)) (\<lambda>generated.
            rbind (if mo_pooler_output mo = [] then Inr None else py_index (mo_pooler_output mo) (int i)) (\<lambda>pooler_output.
              let s1 = set_obj n (reject_drafts (map_of (so_spec_decode_tokens so) rid) generated (objs s n)) s;
                  status_before_stop = status (objs s1 n)
              in rbind (stop_or_go_on upd n generated pooler_output s1) (\<lambda>((new_toks, stopped), s2).
                   let u1 = (if \<not> stopped then u
                             else if status_before_stop = RUNNING
                             then u\<lparr>us_stopped_running := List.insert n (us_stopped_running u)\<rparr>
                             else u\<lparr>us_stopped_preempted := List.insert n (us_stopped_preempted u)\<rparr>)
                   in rbind (if stopped then sched_free_request env (objs s2 n) s2 else Inr s2) (\<lambda>s3.
                        if new_toks \<noteq> [] \<or> pooler_output \<noteq> None
                        then
                          let (evs, r) = take_events (objs s3 n);
                              out = \<lparr>ec_request_id = rid, ec_new_token_ids = new_toks,
                                     ec_finish_reason = get_finished_reason (status r), ec_pooling_output = pooler_output,
                                     ec_stop_reason = stop_reason r, ec_events = evs,
                                     ec_num_cached_tokens = num_cached_tokens r\<rparr>
                          in Inr (set_obj n r s3, append_output (client_index r) out u1)
                        else Inr (s3, u1))))))))"

text \<open>The finished requests of every client are attached to its outputs.\<close>

definition finished_sets :: "sched \<Rightarrow> (int, string list) odict" where
  "finished_sets s = (case finished_req_ids_dict s of None \<Rightarrow> [] | Some d \<Rightarrow> d)"

definition update_from_output ::
  "sched_env \<Rightarrow> (nat \<Rightarrow> int list \<Rightarrow> sched \<Rightarrow> ((int list \<times> bool) \<times> sched) result) \<Rightarrow> sched_output \<Rightarrow> model_output \<Rightarrow> sched \<Rightarrow>
   ((int, engine_core_output list) odict \<times> (int, string list) odict \<times> kv_cache_event list \<times> sched) result" where
  "update_from_output env upd so mo s =
     rbind (foldM (update_one env upd so mo) (so_num_scheduled_tokens so)
              (s, \<lparr>us_outputs = [], us_stopped_running = [], us_stopped_preempted = []\<rparr>)) (\<lambda>(s1, u).
       let s2 = (if us_stopped_running u \<noteq> [] then s1\<lparr>running := remove_all (running s1) (us_stopped_running u)\<rparr> else s1);
           s3 = (if us_stopped_preempted u \<noteq> []
                 then s2\<lparr>waiting_q := wq_remove_requests (map (objs s2) (us_stopped_preempted u)) (waiting_q s2)\<rparr> else s2);
           (evs, k) = km_take_events (kv s3);
           finished = finished_sets s3
       in Inr (us_outputs u, finished, evs,
               s3\<lparr>kv := k, finished_req_ids_dict := map_option (\<lambda>_. []) (finished_req_ids_dict s3)\<rparr>))"

section \<open>Drafts\<close>

text \<open>\<open>validate\<close> filters the drafts of a request whose grammar has to advance.\<close>

definition update_draft :: "(request \<Rightarrow> int list \<Rightarrow> int list) \<Rightarrow> string \<times> int list \<Rightarrow> sched \<Rightarrow> sched" where
  "update_draft validate = (\<lambda>(rid, drafts) s.
     case requests s rid of
       None \<Rightarrow> s
     | Some n \<Rightarrow> if is_finished (objs s n) then s
                 else set_obj n ((objs s n)\<lparr>spec_token_ids := validate (objs s n) drafts\<rparr>) s)"

definition update_draft_token_ids :: "(request \<Rightarrow> int list \<Rightarrow> int list) \<Rightarrow> (string \<times> int list) list \<Rightarrow> sched \<Rightarrow> sched" where
  "update_draft_token_ids validate drafts s = fold (update_draft validate) drafts s"

definition update_draft_in_output ::
  "(request \<Rightarrow> int list \<Rightarrow> int list) \<Rightarrow> sched \<Rightarrow> string \<times> int list \<Rightarrow>
   (string, int list) odict \<times> (string, int) odict \<Rightarrow> (string, int list) odict \<times> (string, int) odict" where
  "update_draft_in_output validate s = (\<lambda>(rid, drafts) (spec, invalid).
     case requests s rid of
       None \<Rightarrow> (spec, invalid)
     | Some n \<Rightarrow>
         if is_finished (objs s n) then (spec, invalid)
         else case map_of spec rid of
           None \<Rightarrow> (spec, invalid)
         | Some placeholders \<Rightarrow>
             if placeholders = [] then (spec, invalid)
             else
               let ds = validate (objs s n) (take (length placeholders) drafts);
                   num_invalid = length placeholders - length ds
               in (AList.update rid (ds @ replicate num_invalid (-1)) spec,
                   if num_invalid \<noteq> 0 then AList.update rid (int num_invalid) invalid else invalid))"

definition update_draft_token_ids_in_output ::
  "(request \<Rightarrow> int list \<Rightarrow> int list) \<Rightarrow> (string \<times> int list) list \<Rightarrow> sched \<Rightarrow> sched_output \<Rightarrow> sched_output \<times> (string, int) odict" where
  "update_draft_token_ids_in_output validate drafts s so =
     (let (spec, invalid) = fold (update_draft_in_output validate s) drafts (so_spec_decode_tokens so, [])
      in (so\<lparr>so_spec_decode_tokens := spec\<rparr>, invalid))"

section \<open>Async scheduling\<close>

definition add_placeholders :: "sched_config \<Rightarrow> sched_output \<Rightarrow> string \<times> int \<Rightarrow> sched \<times> bool \<times> bool \<Rightarrow> (sched \<times> bool \<times> bool) result" where
  "add_placeholders c so = (\<lambda>(rid, _) (s, has_so, pending).
     case requests s rid of
       None \<Rightarrow> Inl KeyError
     | Some n \<Rightarrow>
         let r = objs s n; uses = (structured_output_request r \<noteq> None);
             k = (case map_of (so_spec_decode_tokens so) rid of None \<Rightarrow> 0 | Some ds \<Rightarrow> int (length ds));
             r1 = (if num_computed_tokens r = num_tokens r + num_output_placeholders r + k
                   then r\<lparr>num_output_placeholders := num_output_placeholders r + 1 + k,
                          spec_token_ids := replicate (num_spec_tokens c) (-1)\<rparr>
                   else r)
         in Inr (set_obj n r1 s, has_so \<or> uses, pending \<or> uses \<and> 0 < num_output_placeholders r))"

definition async_update_after_schedule ::
  "sched_config \<Rightarrow> sched_env \<Rightarrow> sched_output \<Rightarrow> sched \<Rightarrow> (sched \<times> bool \<times> bool) result" where
  "async_update_after_schedule c env so s =
     rbind (update_after_schedule c env so s) (\<lambda>s1.
       foldM (add_placeholders c so) (so_num_scheduled_tokens so) (s1, False, False))"

section \<open>The rest of the interface\<close>

definition get_request_counts :: "sched \<Rightarrow> nat \<times> nat" where
  "get_request_counts s = (length (running s), wq_size (waiting_q s))"

definition get_num_unfinished_requests :: "sched \<Rightarrow> nat" where
  "get_num_unfinished_requests s = wq_size (waiting_q s) + length (running s)"

definition has_finished_requests :: "sched \<Rightarrow> bool" where
  "has_finished_requests s \<longleftrightarrow> 0 < length (finished_req_ids s)"

text \<open>\<open>reset_prefix_cache\<close>: the running requests are preempted from the last to the first.\<close>

definition preempt_last :: "sched_config \<Rightarrow> sched_env \<Rightarrow> nat \<Rightarrow> sched \<Rightarrow> sched result" where
  "preempt_last c env n s =
     rbind (preempt_request c env n (s\<lparr>running := butlast (running s)\<rparr>)) (\<lambda>s1.
       Inr (set_obj n ((objs s1 n)\<lparr>num_output_placeholders := 0, discard_latest_async_tokens := True\<rparr>) s1))"

definition reset_prefix_cache_sched :: "sched_config \<Rightarrow> sched_env \<Rightarrow> bool \<Rightarrow> bool \<Rightarrow> sched \<Rightarrow> (bool \<times> sched) result" where
  "reset_prefix_cache_sched c env reset_running_requests reset_connector s =
     rbind (if reset_running_requests
            then rbind (foldM (preempt_last c env) (rev (running s)) s) (\<lambda>s1. Inr (s1\<lparr>prev_step_scheduled_req_ids := []\<rparr>))
            else Inr s) (\<lambda>s1.
       rbind (km_reset_prefix_cache (kv s1)) (\<lambda>(ok, k).
         if reset_running_requests \<and> \<not> ok then Inl RuntimeError
         else Inr (ok \<and> \<not> reset_connector, s1\<lparr>kv := k\<rparr>)))"

end
