(* ===== verification/Sched_View.thy ===== *)
theory Sched_View
  imports Sched_Update
begin

text \<open>
  What the scheduler relies on.  It uses the KV cache manager through four operations, and of their results
  it needs five facts: that the manager is sound, how many tokens of a request have slots, that a request
  has no blocks, that the hashes of a request are computed, and which other requests an operation leaves
  alone.  The record \<open>kv_view\<close> names these facts, the locale \<open>kv_contract\<close> states the laws of the operations
  over them, and the KV cache manager of the model is an interpretation.  The waiting queue of either
  policy is an interpretation of the locale of the queues.
\<close>

section \<open>The contract of the KV cache manager\<close>

record kv_view =
  v_ok :: "kv_manager \<Rightarrow> bool"
  v_cap :: "kv_manager \<Rightarrow> string \<Rightarrow> int \<Rightarrow> bool"
  v_absent :: "kv_manager \<Rightarrow> string \<Rightarrow> bool"
  v_hashed :: "kv_manager \<Rightarrow> request \<Rightarrow> bool"
  v_hasher :: "kv_manager \<Rightarrow> (request \<Rightarrow> bytes list result) option"
  v_same :: "string \<Rightarrow> kv_manager \<Rightarrow> kv_manager \<Rightarrow> bool"
  v_len :: int

locale kv_contract =
  fixes V :: kv_view
  assumes running: "v_ok V k \<Longrightarrow> v_hashed V k r \<Longrightarrow> v_cap V k (request_id r) (num_computed_tokens r) \<Longrightarrow>
      0 \<le> num_computed_tokens r \<Longrightarrow> num_tokens r \<le> v_len V \<Longrightarrow> 0 < nn \<Longrightarrow> num_computed_tokens r + nn \<le> v_len V \<Longrightarrow> 0 \<le> look \<Longrightarrow>
      \<exists>res k'. allocate_slots r nn 0 None look 0 False 0 k = Inr (res, k') \<and> v_ok V k' \<and> v_same V (request_id r) k k'
        \<and> v_cap V k' (request_id r) (if res = None then num_computed_tokens r else num_computed_tokens r + nn)"
    and admit: "v_ok V k \<Longrightarrow> v_hashed V k r \<Longrightarrow> v_absent V k (request_id r) \<Longrightarrow> num_computed_tokens r = 0 \<Longrightarrow>
      0 < num_tokens r \<Longrightarrow> num_tokens r \<le> v_len V \<Longrightarrow>
      \<exists>kb hit k1. get_computed_blocks r k = Some (Inr ((kb, hit), k1)) \<and> 0 \<le> hit \<and> hit < num_tokens r
        \<and> v_ok V k1 \<and> v_same V (request_id r) k k1 \<and> v_absent V k1 (request_id r)
        \<and> (\<forall>nn. 0 < nn \<and> hit + nn \<le> num_tokens r \<longrightarrow>
             (\<exists>res k2. allocate_slots r nn hit (Some kb) 0 0 False 0 k1 = Inr (res, k2) \<and> v_ok V k2 \<and> v_same V (request_id r) k k2
               \<and> (if res = None then v_absent V k2 (request_id r) else v_cap V k2 (request_id r) (hit + nn))))"
    and free: "v_ok V k \<Longrightarrow> \<exists>k'. free r k = Inr k' \<and> v_ok V k' \<and> v_same V (request_id r) k k' \<and> v_absent V k' (request_id r)"
    and prefix: "v_ok V k \<Longrightarrow> v_cap V k rid n \<Longrightarrow> 0 < n \<Longrightarrow> snd (km_get_num_common_prefix_blocks rid k) = k"
    and cap_mono: "v_cap V k rid n \<Longrightarrow> n' \<le> n \<Longrightarrow> v_ok V k \<Longrightarrow> v_cap V k rid n'"
    and same_refl: "v_same V rid k k"
    and same_trans: "v_same V rid k k1 \<Longrightarrow> v_same V rid k1 k2 \<Longrightarrow> v_same V rid k k2"
    and same_other: "v_same V rid k k' \<Longrightarrow> rid' \<noteq> rid \<Longrightarrow> v_cap V k' rid' n = v_cap V k rid' n \<and> v_absent V k' rid' = v_absent V k rid'"
    and same_hashed: "v_same V rid k k' \<Longrightarrow> v_hashed V k' r = v_hashed V k r \<and> v_hasher V k' = v_hasher V k"
    and hashed_cong: "all_token_ids r' = all_token_ids r \<Longrightarrow> block_hashes r' = block_hashes r \<Longrightarrow> lora r' = lora r \<Longrightarrow>
      cache_salt r' = cache_salt r \<Longrightarrow> prompt_embeds r' = prompt_embeds r \<Longrightarrow> v_hashed V k r' = v_hashed V k r"
    and hasher: "v_ok V k \<Longrightarrow> v_hashed V k r \<Longrightarrow> mm_features r = [] \<Longrightarrow>
      \<exists>r'. append_output_token_ids (v_hasher V k) toks r = Inr r' \<and> v_hashed V k r'"
    and events: "v_ok V k \<Longrightarrow> km_take_events k = (evs, k') \<Longrightarrow> v_ok V k' \<and> v_same V rid k k'"
    and reset: "v_ok V k \<Longrightarrow> \<exists>b k'. km_reset_prefix_cache k = Inr (b, k') \<and> v_ok V k' \<and> (\<forall>rid. v_same V rid k k')
        \<and> ((\<forall>rid. v_absent V k rid) \<longrightarrow> b)"

section \<open>The KV cache manager provides it\<close>

definition kv_ok :: "int \<Rightarrow> hash_fn \<Rightarrow> bytes \<Rightarrow> kv_manager \<Rightarrow> bool" where
  "kv_ok M H nh k \<longleftrightarrow> km_inv k \<and> km_max_model_len k = M \<and> km_managers k \<noteq> []
     \<and> (\<forall>m \<in> set (km_managers k). \<not> is_cross (m_spec m) \<and> 0 \<le> speculative_tokens m
          \<and> (km_enable_caching k \<longrightarrow> group_id_ok (kv_cache_group_id m)
               \<and> block_size_ok (hash_block_size (km_pool k)) (nat (m_block_size m))))
     \<and> (km_enable_caching k \<longrightarrow> hash_ideal H nh \<and>
          (\<exists>spec bs. unitary k spec bs \<and> finder_ok spec (c_use_eagle (km_coordinator k)) bs 1 1))"

definition kv_cap :: "kv_manager \<Rightarrow> string \<Rightarrow> int \<Rightarrow> bool" where
  "kv_cap k rid n \<longleftrightarrow> (\<forall>m \<in> set (km_managers k). cdiv n (m_block_size m) \<le> int (length (blocks_of_request m rid)))"

definition kv_absent :: "kv_manager \<Rightarrow> string \<Rightarrow> bool" where
  "kv_absent k rid \<longleftrightarrow> (\<forall>m \<in> set (km_managers k). fresh_request m rid)"

definition kv_hashed :: "hash_fn \<Rightarrow> bytes \<Rightarrow> kv_manager \<Rightarrow> request \<Rightarrow> bool" where
  "kv_hashed H nh k r \<longleftrightarrow> (km_enable_caching k \<longrightarrow> hashes_ok H nh (hash_block_size (km_pool k)) r)"

text \<open>The engine attaches a block hasher when prefix caching is enabled.\<close>

definition kv_hasher :: "hash_fn \<Rightarrow> bytes \<Rightarrow> kv_manager \<Rightarrow> (request \<Rightarrow> bytes list result) option" where
  "kv_hasher H nh k = (if km_enable_caching k then Some (request_block_hasher H nh (hash_block_size (km_pool k))) else None)"

definition kv_same :: "string \<Rightarrow> kv_manager \<Rightarrow> kv_manager \<Rightarrow> bool" where
  "kv_same rid k k' \<longleftrightarrow> km_frame k k' \<and> list_all2 (same_group rid) (km_managers k) (km_managers k')"

definition manager_view :: "int \<Rightarrow> hash_fn \<Rightarrow> bytes \<Rightarrow> kv_view" where
  "manager_view M H nh = \<lparr>v_ok = kv_ok M H nh, v_cap = kv_cap, v_absent = kv_absent, v_hashed = kv_hashed H nh,
     v_hasher = kv_hasher H nh, v_same = kv_same, v_len = M\<rparr>"

lemma manager_view_simps [simp]:
  "v_ok (manager_view M H nh) = kv_ok M H nh" "v_cap (manager_view M H nh) = kv_cap" "v_absent (manager_view M H nh) = kv_absent"
  "v_hashed (manager_view M H nh) = kv_hashed H nh" "v_hasher (manager_view M H nh) = kv_hasher H nh" "v_same (manager_view M H nh) = kv_same" "v_len (manager_view M H nh) = M"
  by (simp_all add: manager_view_def)

lemma kv_same_refl [simp]: "kv_same rid k k"
  unfolding kv_same_def by (intro conjI km_frame_refl list.rel_refl same_group_refl)

lemma kv_same_trans:
  assumes "kv_same rid k k1" and "kv_same rid k1 k2"
  shows "kv_same rid k k2"
proof -
  have "list_all2 (same_group rid) (km_managers k) (km_managers k1)" "list_all2 (same_group rid) (km_managers k1) (km_managers k2)"
    using assms by (simp_all add: kv_same_def)
  then have "list_all2 (same_group rid) (km_managers k) (km_managers k2)" by (rule list_all2_compose) (rule same_group_trans)
  then show ?thesis using assms km_frame_trans [of k k1 k2] by (simp add: kv_same_def)
qed

lemma list_all2_member: "list_all2 R xs ys \<Longrightarrow> y \<in> set ys \<Longrightarrow> \<exists>x \<in> set xs. R x y"
  by (induction rule: list_all2_induct) auto

lemma list_all2_ball: "list_all2 R xs ys \<Longrightarrow> (\<And>x y. R x y \<Longrightarrow> Q y = P x) \<Longrightarrow> (\<forall>y \<in> set ys. Q y) = (\<forall>x \<in> set xs. P x)"
  by (induction rule: list_all2_induct) auto

lemma kv_same_members: "kv_same rid k k' \<Longrightarrow> m' \<in> set (km_managers k') \<Longrightarrow> \<exists>m \<in> set (km_managers k). same_group rid m m'"
  by (rule list_all2_member) (simp_all add: kv_same_def)

lemma kv_same_static: "kv_same rid k k' \<Longrightarrow> hash_block_size (km_pool k') = hash_block_size (km_pool k)
    \<and> km_enable_caching k' = km_enable_caching k"
proof -
  assume "kv_same rid k k'"
  then have "static (km_pool k') = static (km_pool k)" "km_enable_caching k' = km_enable_caching k"
    by (simp_all add: kv_same_def km_frame_def)
  moreover from this(1) have "hash_block_size (km_pool k') = hash_block_size (km_pool k)" by (simp add: static_def)
  ultimately show ?thesis by simp
qed

lemma kv_ok_same:
  assumes ok: "kv_ok M H nh k" and inv: "km_inv k'" and same: "kv_same rid k k'"
  shows "kv_ok M H nh k'"
proof -
  have fr: "km_frame k k'" using same by (simp add: kv_same_def)
  have st: "hash_block_size (km_pool k') = hash_block_size (km_pool k)" "km_enable_caching k' = km_enable_caching k"
    using kv_same_static [OF same] by simp_all
  have "length (km_managers k') = length (km_managers k)" using same unfolding kv_same_def by (auto dest: list_all2_lengthD)
  then have ne: "km_managers k' \<noteq> []" using ok by (auto simp: kv_ok_def)
  have "unitary k' spec bs" if u: "unitary k spec bs" for spec bs
  proof -
    obtain m where m: "km_managers k = [m]" "m_spec m = spec" "m_block_size m = bs" "kv_cache_group_id m = 0"
      using u by (auto simp: unitary_def)
    then obtain m' where "km_managers k' = [m']" "same_group rid m m'"
      using same by (auto simp: kv_same_def list_all2_Cons1)
    then show ?thesis using u m fr st by (auto simp: unitary_def same_group_def km_frame_def)
  qed
  moreover have "\<not> is_cross (m_spec m') \<and> 0 \<le> speculative_tokens m'
      \<and> (km_enable_caching k' \<longrightarrow> group_id_ok (kv_cache_group_id m') \<and> block_size_ok (hash_block_size (km_pool k')) (nat (m_block_size m')))"
    if "m' \<in> set (km_managers k')" for m'
    using kv_same_members [OF same that] ok st speculative_same [of rid _ m'] by (fastforce simp: kv_ok_def same_group_def)
  ultimately show ?thesis using ok inv ne fr st by (auto simp: kv_ok_def km_frame_def)
qed

lemma kv_cap_settled:
  assumes "kv_ok M H nh k" and "kv_cap k rid n" and "0 \<le> n"
  shows "list_all (settled rid n) (km_managers k)"
  unfolding list_all_iff
proof
  fix m assume m: "m \<in> set (km_managers k)"
  have wf: "mgr_wf (km_pool k) m" using assms(1) m km_wf by (auto simp: kv_ok_def)
  then have b: "0 < m_block_size m" by (simp add: mgr_wf_def)
  have "get_num_skipped_tokens m n div m_block_size m \<le> n div m_block_size m"
    using skipped_le [of m n] wf assms(3) b by (intro zdiv_mono1) (auto simp: mgr_wf_def)
  also have "\<dots> \<le> cdiv n (m_block_size m)" by (rule cdiv_ge_div [OF b])
  also have "\<dots> \<le> int (length (blocks_of_request m rid))" using assms(2) m by (simp add: kv_cap_def)
  finally show "settled rid n m" by (simp add: settled_def)
qed

lemma has_slots_cap:
  assumes ok: "kv_ok M H nh k" and l2: "list_all2 (has_slots rid n 0) (km_managers k) (km_managers k')"
    and n: "n' \<le> n"
  shows "kv_cap k' rid n'" "list_all2 (same_group rid) (km_managers k) (km_managers k')"
proof -
  show "list_all2 (same_group rid) (km_managers k) (km_managers k')"
    by (rule list_all2_mono [OF l2]) (simp add: has_slots_def)
  show "kv_cap k' rid n'" unfolding kv_cap_def
  proof
    fix m' assume "m' \<in> set (km_managers k')"
    then obtain m where m: "m \<in> set (km_managers k)" "has_slots rid n 0 m m'"
      using list_all2_member [OF l2] by blast
    have b: "0 < m_block_size m" using ok m(1) km_wf by (auto simp: kv_ok_def mgr_wf_def)
    have s: "slot_tokens n 0 m = n" "0 \<le> speculative_tokens m" using ok m(1) by (auto simp: kv_ok_def)
    have "cdiv n' (m_block_size m) \<le> cdiv (n + speculative_tokens m) (m_block_size m)" using n s b by (intro cdiv_mono) auto
    then show "cdiv n' (m_block_size m') \<le> int (length (blocks_of_request m' rid))"
      using m(2) s by (auto simp: has_slots_def same_group_def)
  qed
qed

lemma kept_view:
  assumes "list_all2 (kept rid) (km_managers k) (km_managers k')"
  shows "kv_cap k' rid n = kv_cap k rid n" "kv_absent k' rid = kv_absent k rid"
proof -
  show "kv_cap k' rid n = kv_cap k rid n" unfolding kv_cap_def
    by (rule list_all2_ball [OF assms]) (simp add: kept_def same_group_def)
  show "kv_absent k' rid = kv_absent k rid" unfolding kv_absent_def
    by (rule list_all2_ball [OF assms]) (simp add: kept_def fresh_request_def flip: length_0_conv)
qed

lemma same_group_view:
  assumes "list_all2 (same_group rid) (km_managers k) (km_managers k')" and "rid' \<noteq> rid"
  shows "kv_cap k' rid' n = kv_cap k rid' n" "kv_absent k' rid' = kv_absent k rid'"
proof -
  show "kv_cap k' rid' n = kv_cap k rid' n" unfolding kv_cap_def
    by (rule list_all2_ball [OF assms(1)]) (use assms(2) in \<open>simp add: same_group_def\<close>)
  show "kv_absent k' rid' = kv_absent k rid'" unfolding kv_absent_def
    by (rule list_all2_ball [OF assms(1)]) (use assms(2) in \<open>simp add: same_group_def fresh_request_def\<close>)
qed

lemma hashes_ok_distinct:
  assumes "hash_ideal H nh" and "hashes_ok H nh bs r"
  shows "distinct (block_hashes r)"
proof -
  have "inj_on (prefix_hash H nh (text_keys r bs) bs (all_token_ids r)) A" for A
    by (rule inj_onI) (use prefix_hash_inj [OF assms(1)] in blast)
  then show ?thesis using assms(2) unfolding hashes_ok_def by (metis distinct_map distinct_upt)
qed

lemma kv_hashed_full:
  assumes "kv_ok M H nh k" and "kv_hashed H nh k r" and "km_enable_caching k"
  shows "distinct (block_hashes r)" "nat (num_tokens r) div hash_block_size (km_pool k) \<le> length (block_hashes r)"
proof -
  have "hashes_ok H nh (hash_block_size (km_pool k)) r" "hash_ideal H nh" using assms by (simp_all add: kv_ok_def kv_hashed_def)
  then show "distinct (block_hashes r)" "nat (num_tokens r) div hash_block_size (km_pool k) \<le> length (block_hashes r)"
    using hashes_ok_distinct by (blast, simp add: hashes_ok_def num_tokens_def)
qed

lemma kv_caching_ok:
  assumes "kv_ok M H nh k" and "kv_hashed H nh k r" and "km_enable_caching k" and "m \<in> set (km_managers k)"
  shows "caching_ok (km_pool k) m r \<and> 0 \<le> speculative_tokens m"
  using assms kv_hashed_full [OF assms(1-3)] by (auto simp: kv_ok_def caching_ok_def)

lemma kv_append:
  assumes "kv_ok M H nh k" and "kv_hashed H nh k r" and "mm_features r = []"
  shows "\<exists>r'. append_output_token_ids (kv_hasher H nh k) toks r = Inr r' \<and> kv_hashed H nh k r'"
proof (cases "km_enable_caching k")
  case True
  then have u: "hash_ideal H nh" "0 < hash_block_size (km_pool k)" using assms(1) by (auto simp: kv_ok_def unitary_def)
  then show ?thesis
    using append_output_token_ids_hashes [of H nh "hash_block_size (km_pool k)" r toks] assms True
    by (auto simp: kv_hasher_def kv_hashed_def hash_ideal_def)
qed (simp add: kv_hasher_def kv_hashed_def append_output_token_ids_def Let_def)

lemma kv_running:
  assumes k: "kv_ok M H nh k" and h: "kv_hashed H nh k r" and cap: "kv_cap k (request_id r) (num_computed_tokens r)"
    and n: "0 \<le> num_computed_tokens r" "num_tokens r \<le> M" "0 < nn" "num_computed_tokens r + nn \<le> M" "0 \<le> look"
    and kb: "kb = None \<or> kb = Some (empty_kv_cache_blocks k)"
  shows "\<exists>res k'. allocate_slots r nn 0 kb look 0 False 0 k = Inr (res, k') \<and> kv_ok M H nh k' \<and> kv_same (request_id r) k k'
    \<and> (if res = None then (\<forall>n. kv_cap k' (request_id r) n = kv_cap k (request_id r) n)
           \<and> kv_absent k' (request_id r) = kv_absent k (request_id r)
       else kv_cap k' (request_id r) (num_computed_tokens r + nn))"
proof -
  let ?rid = "request_id r" and ?nc = "num_computed_tokens r"
  define need where "need = min (min ?nc (km_max_model_len k) + nn + look) (km_max_model_len k)"
  have M: "km_max_model_len k = M" and inv: "km_inv k" using k by (simp_all add: kv_ok_def)
  have c: "km_enable_caching k \<and> \<not> False \<longrightarrow> 0 \<le> look \<and> num_tokens r \<le> km_max_model_len k
      \<and> (\<forall>m \<in> set (km_managers k). caching_ok (km_pool k) m r \<and> 0 \<le> speculative_tokens m)"
    using n M kv_caching_ok [OF k h] by blast
  obtain res k' where a: "allocate_slots r nn 0 kb look 0 False 0 k = Inr (res, k')" "km_inv k'" "km_frame k k'"
    and cs: "case res of
         Some _ \<Rightarrow> list_all2 (has_slots ?rid need 0) (km_managers k) (km_managers k')
       | None \<Rightarrow> list_all2 (kept ?rid) (km_managers k) (km_managers k')
           \<and> get_num_free_blocks (km_pool k') < (\<Sum>m \<leftarrow> km_managers k. missing_blocks m ?rid (slot_tokens need 0 m))"
    using allocate_running_ok [OF inv _ kb kv_cap_settled [OF k cap n(1)] need_def c, where nenc = 0] n(3) by auto
  have le: "?nc + nn \<le> need" using n M by (simp add: need_def)
  have same: "kv_same ?rid k k'"
  proof (cases res)
    case None
    then show ?thesis using cs a(3) kept_same_group by (auto simp: kv_same_def)
  next
    case (Some b)
    then show ?thesis using cs a(3) has_slots_cap(2) [OF k _ le] by (auto simp: kv_same_def)
  qed
  show ?thesis
  proof (cases res)
    case None
    then have "list_all2 (kept ?rid) (km_managers k) (km_managers k')" using cs by simp
    then show ?thesis using None a(1) kv_ok_same [OF k a(2) same] same kept_view by auto
  next
    case (Some b)
    then have "kv_cap k' ?rid (?nc + nn)" using cs has_slots_cap(1) [OF k _ le] by simp
    then show ?thesis using Some a(1) kv_ok_same [OF k a(2) same] same by auto
  qed
qed

lemma kv_absent_cap:
  assumes "kv_ok M H nh k" and "kv_absent k rid"
  shows "kv_cap k rid 0"
  using assms by (auto simp: kv_cap_def kv_absent_def fresh_request_def cdiv_def)

lemma kv_lookup:
  assumes k: "kv_ok M H nh k" and h: "kv_hashed H nh k r" and ab: "kv_absent k (request_id r)" and r: "num_computed_tokens r = 0"
    and n: "0 < num_tokens r" "num_tokens r \<le> M"
  shows "\<exists>kb hit k1. get_computed_blocks r k = Some (Inr ((kb, hit), k1)) \<and> 0 \<le> hit \<and> hit < num_tokens r
    \<and> kv_ok M H nh k1 \<and> kv_same (request_id r) k k1 \<and> kv_absent k1 (request_id r)
    \<and> (\<forall>nn. 0 < nn \<and> hit + nn \<le> num_tokens r \<longrightarrow>
         (\<exists>res k2. allocate_slots r nn hit (Some kb) 0 0 False 0 k1 = Inr (res, k2) \<and> kv_ok M H nh k2 \<and> kv_same (request_id r) k k2
           \<and> (if res = None then kv_absent k2 (request_id r) else kv_cap k2 (request_id r) (hit + nn))))"
proof (cases "km_enable_caching k \<and> \<not> skip_reading_prefix_cache r")
  case False
  have cap: "kv_cap k (request_id r) (num_computed_tokens r)" using kv_absent_cap [OF k ab] r by simp
  have "\<exists>res k2. allocate_slots r nn 0 (Some (empty_kv_cache_blocks k)) 0 0 False 0 k = Inr (res, k2) \<and> kv_ok M H nh k2
      \<and> kv_same (request_id r) k k2 \<and> (if res = None then kv_absent k2 (request_id r) else kv_cap k2 (request_id r) nn)"
    if nn: "0 < nn" "nn \<le> num_tokens r" for nn
  proof -
    have le: "0 \<le> num_computed_tokens r" "num_computed_tokens r + nn \<le> M" using r nn n by simp_all
    obtain res k2 where "allocate_slots r nn 0 (Some (empty_kv_cache_blocks k)) 0 0 False 0 k = Inr (res, k2)" "kv_ok M H nh k2"
      "kv_same (request_id r) k k2" "if res = None then (\<forall>n. kv_cap k2 (request_id r) n = kv_cap k (request_id r) n)
           \<and> kv_absent k2 (request_id r) = kv_absent k (request_id r) else kv_cap k2 (request_id r) (num_computed_tokens r + nn)"
      using kv_running [OF k h cap le(1) n(2) nn(1) le(2) order_refl, of "Some (empty_kv_cache_blocks k)"] by blast
    then show ?thesis using ab r by auto
  qed
  then have "\<forall>nn. 0 < nn \<and> 0 + nn \<le> num_tokens r \<longrightarrow>
      (\<exists>res k2. allocate_slots r nn 0 (Some (empty_kv_cache_blocks k)) 0 0 False 0 k = Inr (res, k2) \<and> kv_ok M H nh k2
        \<and> kv_same (request_id r) k k2 \<and> (if res = None then kv_absent k2 (request_id r) else kv_cap k2 (request_id r) (0 + nn)))"
    by (simp only: add_0) blast
  then show ?thesis
    by (intro exI [of _ "empty_kv_cache_blocks k"] exI [of _ 0] exI [of _ k] conjI)
      (use False k ab n in \<open>simp_all only: get_computed_blocks_def kv_same_refl de_Morgan_conj not_not HOL.simp_thms if_True order_refl\<close>)
next
  case True
  obtain spec bs where u: "unitary k spec bs" "finder_ok spec (c_use_eagle (km_coordinator k)) bs 1 1"
    using k True by (auto simp: kv_ok_def)
  have inv: "km_inv k" and M: "km_max_model_len k = M" using k by (simp_all add: kv_ok_def)
  have hs: "distinct (block_hashes r)" "nat (num_tokens r) div nat bs \<le> length (block_hashes r)"
    using kv_hashed_full [OF k h] True u by (auto simp: unitary_def)
  have fr: "list_all (\<lambda>m. fresh_request m (request_id r)) (km_managers k)" using ab by (simp add: kv_absent_def list_all_iff)
  note ok = admit_ok [OF inv u r n(1) _ hs fr _ _ _ order_refl, where delay = False]
  obtain kb hit k1 where l: "get_computed_blocks r k = Some (Inr ((kb, hit), k1))" "0 \<le> hit" "hit < num_tokens r" "km_inv k1"
      "km_frame k k1" "km_managers k1 = km_managers k"
    using ok [of 1] M n(2) True by auto
  have same1: "kv_same (request_id r) k k1" using l list.rel_refl [of "same_group (request_id r)"] by (simp add: kv_same_def)
  have "\<exists>res k2. allocate_slots r nn hit (Some kb) 0 0 False 0 k1 = Inr (res, k2) \<and> kv_ok M H nh k2
      \<and> kv_same (request_id r) k k2 \<and> (if res = None then kv_absent k2 (request_id r) else kv_cap k2 (request_id r) (hit + nn))"
    if nn: "0 < nn" "hit + nn \<le> num_tokens r" for nn
  proof -
    obtain res k2 where a: "allocate_slots r nn hit (Some kb) 0 0 False 0 k1 = Inr (res, k2)" "km_inv k2" "km_frame k k2"
      and cs: "case res of
         Some _ \<Rightarrow> list_all2 (has_slots (request_id r) (min (hit + nn + 0) (km_max_model_len k)) 0) (km_managers k) (km_managers k2)
       | None \<Rightarrow> list_all2 (kept (request_id r)) (km_managers k) (km_managers k2)"
      using ok [of nn] M n(2) True nn l(1) by auto
    have le: "hit + nn \<le> min (hit + nn + 0) (km_max_model_len k)" using nn n M by simp
    show ?thesis
    proof (cases res)
      case None
      then have kp: "list_all2 (kept (request_id r)) (km_managers k) (km_managers k2)" using cs by simp
      then have "kv_same (request_id r) k k2" using a(3) kept_same_group by (auto simp: kv_same_def)
      then show ?thesis using None a(1,2) kv_ok_same [OF k] kept_view(2) [OF kp] ab by auto
    next
      case (Some b)
      then have "list_all2 (has_slots (request_id r) (min (hit + nn + 0) (km_max_model_len k)) 0) (km_managers k) (km_managers k2)"
        using cs by simp
      note hc = has_slots_cap [OF k this le]
      then have "kv_same (request_id r) k k2" using a(3) by (simp add: kv_same_def)
      then show ?thesis using Some a(1,2) kv_ok_same [OF k] hc(1) by auto
    qed
  qed
  then show ?thesis using l same1 kv_ok_same [OF k l(4) same1] ab by (auto simp: kv_absent_def)
qed

lemma kv_free:
  assumes k: "kv_ok M H nh k"
  shows "\<exists>k'. free r k = Inr k' \<and> kv_ok M H nh k' \<and> kv_same (request_id r) k k' \<and> kv_absent k' (request_id r)"
proof -
  have inv: "km_inv k" using k by (simp add: kv_ok_def)
  obtain k' where f: "free r k = Inr k'" "km_inv k'" "list_all (\<lambda>m. fresh_request m (request_id r)) (km_managers k')"
    "km_frame k k'" "list_all2 (same_group (request_id r)) (km_managers k) (km_managers k')"
    using free_ok [OF inv, of r] by blast
  then have same: "kv_same (request_id r) k k'" by (simp add: kv_same_def)
  show ?thesis using f(1,3) same kv_ok_same [OF k f(2) same] by (auto simp: kv_absent_def list_all_iff)
qed

text \<open>Looking up the common prefix reads \<open>req_to_blocks[request_id]\<close>, which is harmless for a request with
  blocks.\<close>

lemma rtb_touch_id: "blocks_of_request m rid \<noteq> [] \<Longrightarrow> rtb_touch rid m = m"
  by (cases "map_of (req_to_blocks m) rid") (simp_all add: rtb_touch_def rtb_set_def blocks_of_request_def update_triv)

lemma kv_prefix:
  assumes k: "kv_ok M H nh k" and cap: "kv_cap k rid n" and n: "0 < n"
  shows "snd (km_get_num_common_prefix_blocks rid k) = k"
proof -
  have "snd (get_num_common_prefix_blocks rid (m, km_pool k)) = m" if m: "m \<in> set (km_managers k)" for m
  proof -
    have b: "0 < m_block_size m" using k m km_wf by (auto simp: kv_ok_def mgr_wf_def)
    have "0 < cdiv n (m_block_size m)" using cdiv_upper [OF b, of n] n b by (smt (verit) zero_less_mult_pos2)
    then have "blocks_of_request m rid \<noteq> []" using cap m by (fastforce simp: kv_cap_def)
    then show ?thesis by (simp add: get_num_common_prefix_blocks_def rtb_touch_id Let_def)
  qed
  then have "map (\<lambda>m. snd (get_num_common_prefix_blocks rid (m, km_pool k))) (km_managers k) = km_managers k"
    by (intro map_idI) blast
  then obtain ns where "coord_common_prefix (c_kind (km_coordinator k)) rid (km_managers k) (km_pool k) = (ns, km_managers k)"
    by (cases "c_kind (km_coordinator k)") (auto simp: coord_common_prefix_def)
  then show ?thesis by (simp add: km_get_num_common_prefix_blocks_def km_put_def)
qed

text \<open>An operation on the pool that takes no reference and at most forgets hashes.\<close>

lemma km_pool_only:
  assumes inv: "km_inv k" and fl: "pool_inv s fl" and st: "static s = static (km_pool k)" "refs s = refs (km_pool k)"
    and hs: "\<And>b. hashes (km_pool k) b = None \<Longrightarrow> hashes s b = None"
  shows "km_inv (km_put k (km_managers k, s))" "\<forall>rid. kv_same rid k (km_put k (km_managers k, s))"
proof -
  have sys: "sys_inv {#} (km_pool k) (km_managers k)" using inv by (simp add: km_inv_def)
  have p: "pool_ok (km_pool k) (sys_held (km_pool k) (km_managers k))" using sys_inv_pool [OF sys] by simp
  then have "no_hashes s" if "\<not> enable_caching s"
    using that hs usable_static [OF st(1)] enable_static [OF st(1)] by (simp add: pool_ok_def no_hashes_def)
  then have "pool_ok s (sys_held (km_pool k) (km_managers k))"
    using p fl counted_cong [OF st] by (auto simp: pool_ok_def)
  moreover have "held_frame (sys_held (km_pool k) (km_managers k)) (km_pool k) {#} s {#}"
    using st hs by (simp add: held_frame_def)
  ultimately have "sys_inv {#} s (km_managers k)" using sys_other [of "{#}" "{#}" "km_pool k" "km_managers k" s "{#}"] sys by simp
  then show "km_inv (km_put k (km_managers k, s))" using inv st by (intro km_inv_put) simp_all
  show "\<forall>rid. kv_same rid k (km_put k (km_managers k, s))"
    using km_frame_put [OF st(1)] list.rel_refl [of "same_group rid" for rid] by (simp add: kv_same_def)
qed

lemma kv_events:
  assumes k: "kv_ok M H nh k" and t: "km_take_events k = (evs, k')"
  shows "kv_ok M H nh k' \<and> kv_same rid k k'"
proof -
  have inv: "km_inv k" using k by (simp add: kv_ok_def)
  obtain fl where fl: "pool_inv (km_pool k) fl" using km_pool_inv [OF inv] by blast
  obtain s where s: "k' = km_put k (km_managers k, s)" "s = km_pool k \<or> s = (km_pool k)\<lparr>kv_event_queue := []\<rparr>"
    using t by (auto simp: km_take_events_def pool_take_events_def split: if_splits)
  have "pool_inv s fl" "static s = static (km_pool k)" "refs s = refs (km_pool k)" "hashes s = hashes (km_pool k)"
    using s(2) fl drain_inv by auto
  then show ?thesis using km_pool_only [OF inv, of s fl] kv_ok_same [OF k] s(1) by simp
qed

lemma kv_reset:
  assumes k: "kv_ok M H nh k"
  shows "\<exists>b k'. km_reset_prefix_cache k = Inr (b, k') \<and> kv_ok M H nh k' \<and> (\<forall>rid. kv_same rid k k')
    \<and> ((\<forall>rid. kv_absent k rid) \<longrightarrow> b)"
proof -
  have inv: "km_inv k" using k by (simp add: kv_ok_def)
  obtain fl where fl: "pool_inv (km_pool k) fl" using km_pool_inv [OF inv] by blast
  obtain b s where r: "reset_prefix_cache (km_pool k) = (b, s)" "pool_inv s fl" "static s = static (km_pool k)" "refs s = refs (km_pool k)"
    "hashes s = (if b then (\<lambda>x. if x \<in> set (blocks (km_pool k)) then None else hashes (km_pool k) x) else hashes (km_pool k))"
    using reset_prefix_cache_ok [OF fl] by blast
  define k1 where "k1 = km_put k (km_managers k, s)"
  have hs: "hashes (km_pool k) x = None \<Longrightarrow> hashes s x = None" for x using r(5) by simp
  note po = km_pool_only [OF inv r(2-4) hs, folded k1_def]
  have lg: "km_log_stats k \<longrightarrow> km_stats k \<noteq> None" using inv by (simp add: km_inv_def)
  obtain st where k': "km_reset_prefix_cache k = Inr (b, k1\<lparr>km_stats := st\<rparr>)" "km_log_stats k \<longrightarrow> st \<noteq> None"
  proof (cases "b \<and> km_log_stats k")
    case True
    then obtain x where "km_stats k = Some x" using lg by blast
    then show ?thesis using True r(1) that [of "Some (x\<lparr>stats_reset := True\<rparr>)"] by (simp add: km_reset_prefix_cache_def Let_def k1_def)
  next
    case False
    have "k1\<lparr>km_stats := km_stats k\<rparr> = k1" by (simp add: k1_def)
    then show ?thesis using False r(1) that [of "km_stats k"] lg by (auto simp: km_reset_prefix_cache_def Let_def k1_def)
  qed
  have k2: "km_inv (k1\<lparr>km_stats := st\<rparr>)" "kv_same rid k (k1\<lparr>km_stats := st\<rparr>)" for rid
    using po k'(2) by (simp_all add: km_inv_def k1_def kv_same_def km_frame_def)
  have "b" if a: "\<forall>rid. kv_absent k rid"
  proof -
    have "\<forall>m \<in> set (km_managers k). \<forall>rid. blocks_of_request m rid = []" using a by (simp add: kv_absent_def fresh_request_def)
    from no_blocks_free [OF inv this] show ?thesis using reset_prefix_cache_ok [OF fl] r(1) by auto
  qed
  then show ?thesis using k' k2 kv_ok_same [OF k k2] by blast
qed

interpretation kv: kv_contract "manager_view M H nh" for M H nh
proof
  fix k and r :: request and nn look :: int
  assume a: "v_ok (manager_view M H nh) k" "v_hashed (manager_view M H nh) k r" "v_cap (manager_view M H nh) k (request_id r) (num_computed_tokens r)"
    "0 \<le> num_computed_tokens r" "num_tokens r \<le> v_len (manager_view M H nh)" "0 < nn" "num_computed_tokens r + nn \<le> v_len (manager_view M H nh)" "0 \<le> look"
  from a kv_running [of M H nh k r nn look None]
  obtain res k' where "allocate_slots r nn 0 None look 0 False 0 k = Inr (res, k')" "kv_ok M H nh k'" "kv_same (request_id r) k k'"
    "if res = None then (\<forall>n. kv_cap k' (request_id r) n = kv_cap k (request_id r) n) \<and> kv_absent k' (request_id r) = kv_absent k (request_id r)
       else kv_cap k' (request_id r) (num_computed_tokens r + nn)" by auto
  then show "\<exists>res k'. allocate_slots r nn 0 None look 0 False 0 k = Inr (res, k') \<and> v_ok (manager_view M H nh) k'
      \<and> v_same (manager_view M H nh) (request_id r) k k'
      \<and> v_cap (manager_view M H nh) k' (request_id r) (if res = None then num_computed_tokens r else num_computed_tokens r + nn)"
    using a(3) by auto
next
  show "v_cap (manager_view M H nh) k rid n \<Longrightarrow> n' \<le> n \<Longrightarrow> v_ok (manager_view M H nh) k \<Longrightarrow> v_cap (manager_view M H nh) k rid n'" for k rid n n'
    using km_wf cdiv_mono by (fastforce simp: kv_cap_def kv_ok_def mgr_wf_def)
  show "v_same (manager_view M H nh) rid k k' \<Longrightarrow> rid' \<noteq> rid \<Longrightarrow>
      v_cap (manager_view M H nh) k' rid' n = v_cap (manager_view M H nh) k rid' n \<and> v_absent (manager_view M H nh) k' rid' = v_absent (manager_view M H nh) k rid'"
    for rid k k' rid' n using same_group_view [of rid k k' rid'] by (simp add: kv_same_def)
  show "v_same (manager_view M H nh) rid k k1 \<Longrightarrow> v_same (manager_view M H nh) rid k1 k2 \<Longrightarrow> v_same (manager_view M H nh) rid k k2" for rid k k1 k2
    using kv_same_trans by simp
  show "v_same (manager_view M H nh) rid k k' \<Longrightarrow> v_hashed (manager_view M H nh) k' r = v_hashed (manager_view M H nh) k r
      \<and> v_hasher (manager_view M H nh) k' = v_hasher (manager_view M H nh) k" for rid k k' r
    using kv_same_static [of rid k k'] by (simp add: kv_hashed_def kv_hasher_def)
  show "all_token_ids r' = all_token_ids r \<Longrightarrow> block_hashes r' = block_hashes r \<Longrightarrow> lora r' = lora r \<Longrightarrow>
      cache_salt r' = cache_salt r \<Longrightarrow> prompt_embeds r' = prompt_embeds r \<Longrightarrow>
      v_hashed (manager_view M H nh) k r' = v_hashed (manager_view M H nh) k r" for r' r k
    using text_keys_cong [of r' r] by (simp add: kv_hashed_def hashes_ok_def)
qed (unfold manager_view_simps, (rule kv_lookup kv_free kv_prefix kv_same_refl kv_append kv_events kv_reset; assumption)+)

end
