(* ===== verification/Sched_Inv.thy ===== *)
theory Sched_Inv
  imports Sched_View
begin

text \<open>
  The invariant of the scheduler, for requests without encoder inputs and LoRA adapters.  Every known
  request is in exactly one of the two queues, under its own address; a running request has slots for every
  token it has computed or been given in the current step, a waiting request has no blocks.  The functions
  \<open>tk\<close> and \<open>d\<close> give, per request id, the tokens of the current step that are not yet counted as computed,
  and the drafts in flight.  The lemma \<open>core_update\<close> is the only place where the invariant is
  re-established after a change of one request.
\<close>

section \<open>Queues\<close>

fun wq_ok :: "scheduling_policy \<Rightarrow> waiting \<Rightarrow> bool" where
  "wq_ok policy (FCFSRequestQueue q) \<longleftrightarrow> policy = FCFS"
| "wq_ok policy (PriorityRequestQueue h) \<longleftrightarrow> policy = PRIORITY \<and> heap_from request_lt 0 h"

fun wq_front :: "request \<Rightarrow> waiting \<Rightarrow> bool" where
  "wq_front r (FCFSRequestQueue q) \<longleftrightarrow> r = hd q"
| "wq_front r (PriorityRequestQueue h) \<longleftrightarrow> (\<forall>x \<in> set h. request_key r \<le> request_key x)"

interpretation wq: waiting_queue "\<lambda>w. mset (wq_requests w)" "wq_ok policy" wq_front wq_add wq_prepend wq_pop wq_peek
  for policy
proof
  fix q r
  assume ok: "wq_ok policy q"
  show "wq_ok policy (wq_add r q) \<and> mset (wq_requests (wq_add r q)) = add_mset r (mset (wq_requests q))"
    using ok prio.add fcfs.add by (cases q) auto
  show "wq_ok policy (wq_prepend r q) \<and> mset (wq_requests (wq_prepend r q)) = add_mset r (mset (wq_requests q))"
    using ok prio.prepend fcfs.prepend by (cases q) auto
  show "\<exists>r q'. wq_pop q = Inr (r, q') \<and> wq_peek q = Inr r \<and> wq_front r q \<and> wq_ok policy q'
      \<and> mset (wq_requests q) = add_mset r (mset (wq_requests q'))" if ne: "mset (wq_requests q) \<noteq> {#}"
  proof (cases q)
    case (FCFSRequestQueue xs)
    then obtain r q' where "fcfs_pop_request xs = Inr (r, q')" "fcfs_peek_request xs = Inr r" "r = hd xs" "mset xs = add_mset r (mset q')"
      using fcfs.pop [of xs] ne by auto
    then show ?thesis using ok FCFSRequestQueue by (intro exI [of _ r] exI [of _ "FCFSRequestQueue q'"]) simp
  next
    case (PriorityRequestQueue h)
    then obtain r h' where "prio_pop_request h = Inr (r, h')" "prio_peek_request h = Inr r" "\<forall>x \<in> set h. request_key r \<le> request_key x"
      "heap_from request_lt 0 h'" "mset h = add_mset r (mset h')" using prio.pop [of h] ne ok by auto
    then show ?thesis using ok PriorityRequestQueue by (intro exI [of _ r] exI [of _ "PriorityRequestQueue h'"]) simp
  qed
  show "wq_pop q = Inl IndexError \<and> wq_peek q = Inl IndexError" if "mset (wq_requests q) = {#}"
    using that ok prio.pop_empty fcfs.pop_empty by (cases q) auto
qed

lemma wq_iter_ok: "wq_ok policy w \<Longrightarrow> mset (wq_iter w) = mset (wq_requests w)"
  using prio_iter_ok by (cases w) (auto simp: fcfs_iter_def)

lemma fcfs_prepend_requests_mset: "mset (fcfs_prepend_requests rs q) = mset rs + mset q"
  by (induction rs arbitrary: q) (simp_all add: fcfs_prepend_requests_def)

lemma wq_prepend_requests_ok:
  assumes "wq_ok policy w" and "wq_ok policy other"
  shows "wq_ok policy (wq_prepend_requests other w)
    \<and> mset (wq_requests (wq_prepend_requests other w)) = mset (wq_requests other) + mset (wq_requests w)"
  using assms wq_iter_ok [OF assms(2)] prio_prepend_ok by (cases w) (auto simp: fcfs_prepend_requests_mset)

lemma create_request_queue_ok [simp]:
  "wq_ok policy (create_request_queue policy)" "wq_requests (create_request_queue policy) = []"
  by (cases policy; simp add: create_request_queue_def heap_from_def)+

definition waiting_ids :: "waiting \<Rightarrow> nat list" where
  "waiting_ids w = map obj_id (wq_requests w)"

lemma wq_size_pos [simp]: "0 < wq_size w \<longleftrightarrow> wq_requests w \<noteq> []"
  by (simp add: wq_size_def)

lemma waiting_ids_prepend: "wq_ok policy w \<Longrightarrow> mset (waiting_ids (wq_prepend r w)) = add_mset (obj_id r) (mset (waiting_ids w))"
  using wq.prepend [of policy w r] by (simp add: waiting_ids_def)

section \<open>The invariant\<close>

definition plain_request :: "sched_config \<Rightarrow> request \<Rightarrow> bool" where
  "plain_request c r \<longleftrightarrow> mm_features r = [] \<and> (max_loras c = None \<or> lora r = None)"

text \<open>A generation request whose minimum number of tokens fits the model.\<close>

definition generation_ok :: "int \<Rightarrow> request \<Rightarrow> bool" where
  "generation_ok M r \<longleftrightarrow> num_tokens r = num_prompt_tokens r + num_output_tokens r
     \<and> (pooling r = None \<longrightarrow> (\<exists>sp. sampling r = Some sp \<and> num_prompt_tokens r + sp_min_tokens sp \<le> M))"

definition request_ok :: "kv_view \<Rightarrow> sched_config \<Rightarrow> kv_manager \<Rightarrow> request \<Rightarrow> bool" where
  "request_ok V c k r \<longleftrightarrow> plain_request c r \<and> 0 < num_tokens r \<and> num_tokens r < v_len V
     \<and> 0 \<le> num_output_placeholders r \<and> generation_ok (v_len V) r \<and> v_hashed V k r"

definition running_ok ::
  "kv_view \<Rightarrow> sched_config \<Rightarrow> (string \<Rightarrow> int) \<Rightarrow> (string \<Rightarrow> int) \<Rightarrow> kv_manager \<Rightarrow> request \<Rightarrow> bool" where
  "running_ok V c tk d k r \<longleftrightarrow> (let rid = request_id r; nc = num_computed_tokens r + tk rid in
     request_ok V c k r \<and> status r = RUNNING \<and> 0 \<le> num_computed_tokens r \<and> 0 < nc \<and> nc < v_len V
     \<and> nc \<le> num_tokens r + num_output_placeholders r + d rid
     \<and> (0 < d rid \<longrightarrow> num_tokens r + num_output_placeholders r + d rid \<le> nc)
     \<and> v_cap V k rid nc)"

definition waiting_ok :: "kv_view \<Rightarrow> sched_config \<Rightarrow> kv_manager \<Rightarrow> request \<Rightarrow> bool" where
  "waiting_ok V c k r \<longleftrightarrow> request_ok V c k r \<and> status r \<in> {WAITING, WAITING_FOR_FSM, PREEMPTED}
     \<and> num_computed_tokens r = 0 \<and> v_absent V k (request_id r)"

definition ids_ok :: "nat set \<Rightarrow> sched \<Rightarrow> bool" where
  "ids_ok live s \<longleftrightarrow> (\<forall>n \<in> live. obj_id (objs s n) = n \<and> requests s (request_id (objs s n)) = Some n)
     \<and> (\<forall>rid n. requests s rid = Some n \<longrightarrow> n \<in> live \<and> request_id (objs s n) = rid)"

definition core_inv ::
  "kv_view \<Rightarrow> sched_config \<Rightarrow> (string \<Rightarrow> int) \<Rightarrow> (string \<Rightarrow> int) \<Rightarrow> nat list \<Rightarrow> sched \<Rightarrow> bool" where
  "core_inv V c tk d W s \<longleftrightarrow> v_ok V (kv s) \<and> distinct (running s @ W) \<and> length (running s) \<le> max_num_running_reqs c
     \<and> ids_ok (set (running s) \<union> set W) s
     \<and> (\<forall>n \<in> set (running s). running_ok V c tk d (kv s) (objs s n))
     \<and> (\<forall>n \<in> set W. waiting_ok V c (kv s) (objs s n))
     \<and> (\<forall>rid. requests s rid = None \<longrightarrow> v_absent V (kv s) rid)"

text \<open>A resumed request was not scheduled in the previous step.\<close>

definition prev_ok :: "nat set \<Rightarrow> sched \<Rightarrow> bool" where
  "prev_ok W s \<longleftrightarrow> (\<forall>n \<in> W. status (objs s n) = PREEMPTED \<longrightarrow> request_id (objs s n) \<notin> set (prev_step_scheduled_req_ids s))"

text \<open>The state between two calls.\<close>

definition sched_inv :: "kv_view \<Rightarrow> sched_config \<Rightarrow> (string \<Rightarrow> int) \<Rightarrow> sched \<Rightarrow> bool" where
  "sched_inv V c d s \<longleftrightarrow> core_inv V c (\<lambda>_. 0) d (waiting_ids (waiting_q s)) s \<and> wq_ok (sc_policy c) (waiting_q s)
     \<and> prev_ok (set (waiting_ids (waiting_q s))) s"

definition config_ok :: "kv_view \<Rightarrow> sched_config \<Rightarrow> sched_env \<Rightarrow> bool" where
  "config_ok V c env \<longleftrightarrow> sc_max_model_len c = v_len V \<and> 0 < max_num_scheduled_tokens c \<and> 0 \<le> num_lookahead_tokens c
     \<and> env_order env [] = []"

text \<open>What a step may change of a request.\<close>

definition touched_request :: "request \<Rightarrow> request \<Rightarrow> bool" where
  "touched_request r r' \<longleftrightarrow> (\<exists>st nc sp np ev ch.
     r' = r\<lparr>status := st, num_computed_tokens := nc, spec_token_ids := sp, num_preemptions := np, events := ev, num_cached_tokens := ch\<rparr>)"

definition sched_frame :: "sched \<Rightarrow> sched \<Rightarrow> bool" where
  "sched_frame s s' \<longleftrightarrow> requests s' = requests s \<and> (\<forall>n. touched_request (objs s n) (objs s' n))"

lemma touched_request_refl [simp]: "touched_request r r"
  unfolding touched_request_def
  by (intro exI [of _ "status r"] exI [of _ "num_computed_tokens r"] exI [of _ "spec_token_ids r"]
      exI [of _ "num_preemptions r"] exI [of _ "events r"] exI [of _ "num_cached_tokens r"]) simp

lemma touched_request_trans: "touched_request r r1 \<Longrightarrow> touched_request r1 r2 \<Longrightarrow> touched_request r r2"
  unfolding touched_request_def by (elim exE) (intro exI, simp)

lemma touched_request_fields:
  assumes "touched_request r r'"
  shows "request_id r' = request_id r" "obj_id r' = obj_id r" "all_token_ids r' = all_token_ids r"
    "output_token_ids r' = output_token_ids r" "mm_features r' = mm_features r" "block_hashes r' = block_hashes r"
    "num_output_placeholders r' = num_output_placeholders r"
  using assms by (auto simp: touched_request_def)

lemma sched_frame_refl [simp]: "sched_frame s s"
  by (simp add: sched_frame_def)

lemma sched_frame_trans: "sched_frame s s1 \<Longrightarrow> sched_frame s1 s2 \<Longrightarrow> sched_frame s s2"
  unfolding sched_frame_def using touched_request_trans by metis

section \<open>Changing one request\<close>

lemma ids_distinct: "ids_ok live s \<Longrightarrow> n \<in> live \<Longrightarrow> m \<in> live \<Longrightarrow> request_id (objs s m) = request_id (objs s n) \<Longrightarrow> m = n"
  unfolding ids_ok_def by (metis option.inject)

context kv_contract
begin

lemma request_ok_same: "v_same V rid k k' \<Longrightarrow> request_ok V c k' r = request_ok V c k r"
  by (simp add: request_ok_def same_hashed)

lemma running_ok_other:
  assumes "v_same V rid k k'" and "request_id r \<noteq> rid" and "tk' (request_id r) = tk (request_id r)" and "d' (request_id r) = d (request_id r)"
  shows "running_ok V c tk' d' k' r = running_ok V c tk d k r"
  using assms same_other [OF assms(1,2)] request_ok_same [OF assms(1)] by (simp add: running_ok_def Let_def)

lemma waiting_ok_other:
  assumes "v_same V rid k k'" and "request_id r \<noteq> rid"
  shows "waiting_ok V c k' r = waiting_ok V c k r"
  using assms same_other [OF assms(1,2)] request_ok_same [OF assms(1)] by (simp add: waiting_ok_def)

lemma core_update:
  assumes inv: "core_inv V c tk d W s"
    and n: "n \<in> set (running s) \<union> set W" and rid: "request_id r' = request_id (objs s n)" "obj_id r' = n"
    and s': "objs s' = (objs s)(n := r')" "requests s' = requests s" "v_ok V (kv s')" "v_same V (request_id r') (kv s) (kv s')"
    and q: "distinct (running s' @ W')" "set (running s') \<union> set W' = set (running s) \<union> set W"
      "set (running s') - {n} = set (running s) - {n}" "length (running s') \<le> max_num_running_reqs c"
    and tk: "\<And>x. x \<noteq> request_id r' \<Longrightarrow> tk' x = tk x \<and> d' x = d x"
    and ok: "n \<in> set (running s') \<Longrightarrow> running_ok V c tk' d' (kv s') r'" "n \<in> set W' \<Longrightarrow> waiting_ok V c (kv s') r'"
  shows "core_inv V c tk' d' W' s'"
proof -
  let ?live = "set (running s) \<union> set W"
  have ids: "ids_ok ?live s" and d0: "distinct (running s @ W)" using inv by (simp_all add: core_inv_def)
  have other: "request_id (objs s m) \<noteq> request_id r'" if "m \<in> ?live" "m \<noteq> n" for m
    using ids_distinct [OF ids n that(1)] that(2) rid(1) by auto
  have "ids_ok ?live s'"
    unfolding ids_ok_def
  proof (intro conjI ballI allI impI)
    fix m assume m: "m \<in> ?live"
    show "obj_id (objs s' m) = m" using ids m s'(1) rid(2) by (auto simp: ids_ok_def)
    show "requests s' (request_id (objs s' m)) = Some m" using ids m n s'(1,2) rid(1) by (auto simp: ids_ok_def)
  next
    fix x m assume "requests s' x = Some m"
    then have "m \<in> ?live" "request_id (objs s m) = x" using ids s'(2) by (auto simp: ids_ok_def)
    then show "m \<in> ?live" "request_id (objs s' m) = x" using s'(1) rid(1) by auto
  qed
  moreover have "running_ok V c tk' d' (kv s') (objs s' m)" if m: "m \<in> set (running s')" for m
  proof (cases "m = n")
    case False
    then have "m \<in> set (running s)" using m q(3) by blast
    then show ?thesis using False other [of m] inv running_ok_other [OF s'(4) _ _ _, of "objs s m" tk' tk d' d c] tk s'(1)
      by (simp add: core_inv_def)
  qed (use m ok(1) s'(1) in simp)
  moreover have "waiting_ok V c (kv s') (objs s' m)" if m: "m \<in> set W'" for m
  proof (cases "m = n")
    case False
    then have "m \<in> set W" using m q by auto
    then show ?thesis using False other [of m] inv waiting_ok_other [OF s'(4)] s'(1) by (simp add: core_inv_def)
  qed (use m ok(2) s'(1) in simp)
  moreover have "v_absent V (kv s') x" if x: "requests s' x = None" for x
  proof -
    have "x \<noteq> request_id r'" using x ids n s'(2) rid(1) by (auto simp: ids_ok_def)
    then show ?thesis using x inv s'(2) same_other [OF s'(4), of x] by (simp add: core_inv_def)
  qed
  ultimately show ?thesis using q s'(3) by (simp add: core_inv_def)
qed

end

end
