(* ===== verification/Sched_Step.thy ===== *)
theory Sched_Step
  imports Sched_Inv
begin

text \<open>
  The invariant through the two loops of \<open>schedule\<close> and through the construction of the output: no step
  raises, no assertion fails, the token budget is exact, and every scheduled token has a slot.
\<close>

section \<open>The accounts of a step\<close>

definition tok :: "(string, int) odict \<Rightarrow> string \<Rightarrow> int" where
  "tok al rid = (case map_of al rid of None \<Rightarrow> 0 | Some k \<Rightarrow> k)"

definition drafts :: "(string, int list) odict \<Rightarrow> string \<Rightarrow> int" where
  "drafts al rid = (case map_of al rid of None \<Rightarrow> 0 | Some ds \<Rightarrow> int (length ds))"

definition scheduled :: "step \<Rightarrow> nat list" where
  "scheduled st = st_running st @ st_new st @ st_resumed st"

text \<open>The first loop takes requests out of the running queue and does not count tokens as computed; the second
  loop adds requests and leaves the running ones alone.\<close>

definition run_frame :: "sched \<Rightarrow> step \<Rightarrow> sched \<Rightarrow> step \<Rightarrow> bool" where
  "run_frame s st s' st' \<longleftrightarrow> sched_frame s s' \<and> set (running s') \<subseteq> set (running s)
     \<and> set (running s) \<subseteq> set (running s') \<union> set (st_preempted st') \<and> set (st_preempted st) \<subseteq> set (st_preempted st')
     \<and> (\<forall>n \<in> set (running s'). num_computed_tokens (objs s' n) = num_computed_tokens (objs s n))"

definition wait_frame :: "sched \<Rightarrow> sched \<Rightarrow> bool" where
  "wait_frame s s' \<longleftrightarrow> sched_frame s s' \<and> set (running s) \<subseteq> set (running s') \<and> (\<forall>n \<in> set (running s). objs s' n = objs s n)"

lemma run_frame_refl [simp]: "run_frame s st s st"
  and run_frame_trans: "run_frame s st s1 st1 \<Longrightarrow> run_frame s1 st1 s2 st2 \<Longrightarrow> run_frame s st s2 st2"
  using sched_frame_trans [of s s1 s2] by (auto simp: run_frame_def)

lemma run_frame_index: "run_frame s st s (st\<lparr>req_index := i\<rparr>)"
  by (simp add: run_frame_def)

lemma wait_frame_refl [simp]: "wait_frame s s"
  and wait_frame_trans: "wait_frame s s1 \<Longrightarrow> wait_frame s1 s2 \<Longrightarrow> wait_frame s s2"
  using sched_frame_trans [of s s1 s2] by (auto simp: wait_frame_def sched_frame_def)

definition step_ok :: "sched_config \<Rightarrow> sched \<Rightarrow> step \<Rightarrow> bool" where
  "step_ok c s st \<longleftrightarrow> distinct (scheduled st) \<and> set (scheduled st) \<subseteq> set (running s)
     \<and> distinct (map fst (st_tokens st)) \<and> map fst (st_blocks st) = map fst (st_tokens st)
     \<and> set (map fst (st_tokens st)) = (\<lambda>n. request_id (objs s n)) ` set (scheduled st)
     \<and> (\<forall>(rid, k) \<in> set (st_tokens st). 0 < k) \<and> 0 \<le> token_budget st
     \<and> token_budget st + sum_list (map snd (st_tokens st)) = max_num_scheduled_tokens c
     \<and> fst ` set (st_spec st) \<subseteq> fst ` set (st_tokens st) \<and> distinct (map fst (st_spec st)) \<and> st_enc_inputs st = []"

lemma tok_delete: "tok (AList.delete rid al) = (tok al)(rid := 0)"
  by (rule ext) (simp add: tok_def delete_conv')

lemma drafts_delete: "drafts (AList.delete rid al) = (drafts al)(rid := 0)"
  by (rule ext) (simp add: drafts_def delete_conv')

lemma tok_update: "tok (AList.update rid k al) = (tok al)(rid := k)"
  by (rule ext) (simp add: tok_def update_conv')

lemma drafts_update: "drafts (AList.update rid ds al) = (drafts al)(rid := int (length ds))"
  by (rule ext) (simp add: drafts_def update_conv')

lemma tok_absent: "rid \<notin> set (map fst al) \<Longrightarrow> tok al rid = 0"
  by (simp add: tok_def map_of_eq_None_iff [symmetric])

lemma drafts_absent: "rid \<notin> set (map fst al) \<Longrightarrow> drafts al rid = 0"
  by (simp add: drafts_def map_of_eq_None_iff [symmetric])

lemma drafts_nonneg [simp]: "0 \<le> drafts al rid"
  by (simp add: drafts_def split: option.split)

lemma sum_delete:
  "distinct (map fst al) \<Longrightarrow> map_of al rid = Some (k :: int) \<Longrightarrow>
     sum_list (map snd (AList.delete rid al)) + k = sum_list (map snd al)"
proof (induction al)
  case (Cons p al)
  show ?case
  proof (cases "fst p = rid")
    case True
    then have "AList.delete rid al = al" using Cons.prems by (intro delete_id) auto
    then show ?thesis using True Cons.prems by simp
  next
    case False
    then show ?thesis using Cons by (cases p) (auto split: if_splits)
  qed
qed simp

lemma step_ok_cong:
  assumes "running s' = running s" and "\<And>n. request_id (objs s' n) = request_id (objs s n)"
  shows "step_ok c s' st = step_ok c s st"
  using assms by (simp add: step_ok_def)

lemma step_ok_shrink:
  assumes "step_ok c s st" and "set (scheduled st) \<subseteq> set (running s')" and "\<And>n. request_id (objs s' n) = request_id (objs s n)"
  shows "step_ok c s' st"
  using assms(1,2) unfolding step_ok_def assms(3) by blast

lemma step_ok_updates [simp]:
  "step_ok c s (st\<lparr>st_preempted := vs\<rparr>) = step_ok c s st" "step_ok c s (st\<lparr>req_index := i\<rparr>) = step_ok c s st"
  "step_ok c s (st\<lparr>st_loras := ls\<rparr>) = step_ok c s st" "step_ok c s (st\<lparr>st_enc_budget := b\<rparr>) = step_ok c s st"
  by (simp_all add: step_ok_def scheduled_def)

lemma step_ok_key:
  assumes "step_ok c s st" and "n \<in> set (scheduled st)"
  shows "request_id (objs s n) \<in> fst ` set (st_tokens st)"
proof -
  have "set (map fst (st_tokens st)) = (\<lambda>n. request_id (objs s n)) ` set (scheduled st)" using assms(1) by (simp add: step_ok_def)
  then show ?thesis using assms(2) by (metis image_eqI list.set_map)
qed

lemma step_ok_unscheduled:
  assumes st: "step_ok c s st" and ids: "ids_ok live s" and run: "set (running s) \<subseteq> live"
    and n: "n \<in> live" "n \<notin> set (scheduled st)"
  shows "request_id (objs s n) \<notin> fst ` set (st_tokens st)"
proof
  assume "request_id (objs s n) \<in> fst ` set (st_tokens st)"
  then obtain m where m: "m \<in> set (scheduled st)" "request_id (objs s n) = request_id (objs s m)"
    using st by (auto simp: step_ok_def)
  then have "m \<in> live" using st run by (auto simp: step_ok_def)
  then show False using ids_distinct [OF ids n(1)] m n(2) by auto
qed

lemma step_ok_add:
  assumes st: "step_ok c s st" and rid: "rid = request_id (objs s' n)" "rid \<notin> fst ` set (st_tokens st)"
    and n: "n \<notin> set (scheduled st)" "insert n (set (running s)) \<subseteq> set (running s')"
    and ids: "\<And>m. request_id (objs s' m) = request_id (objs s m)" and k: "0 < k" "k \<le> token_budget st"
    and st': "st_tokens st' = AList.update rid k (st_tokens st)" "st_blocks st' = AList.update rid b (st_blocks st)"
      "token_budget st' = token_budget st - k" "mset (scheduled st') = add_mset n (mset (scheduled st))"
      "fst ` set (st_spec st') \<subseteq> insert rid (fst ` set (st_spec st))" "distinct (map fst (st_spec st'))" "st_enc_inputs st' = []"
  shows "step_ok c s' st'"
proof -
  have keys: "map fst (st_blocks st) = map fst (st_tokens st)" "distinct (map fst (st_tokens st))"
    "set (map fst (st_tokens st)) = (\<lambda>n. request_id (objs s n)) ` set (scheduled st)"
    "fst ` set (st_spec st) \<subseteq> fst ` set (st_tokens st)" using st unfolding step_ok_def by blast+
  have "set (map fst (st_blocks st)) = set (map fst (st_tokens st))" using keys by simp
  then have nb: "rid \<notin> fst ` set (st_blocks st)" using rid by simp
  have tb: "st_tokens st' = st_tokens st @ [(rid, k)]" "st_blocks st' = st_blocks st @ [(rid, b)]"
    using update_new [OF rid(2)] update_new [OF nb] st' by simp_all
  have mem: "set (scheduled st') = insert n (set (scheduled st))" using mset_eq_setD [of "scheduled st'" "n # scheduled st"] st'(4) by simp
  have "distinct (scheduled st')"
    using mset_eq_imp_distinct_iff [of "scheduled st'" "n # scheduled st"] st'(4) n(1) st by (simp add: step_ok_def)
  moreover have "set (scheduled st') \<subseteq> set (running s')" using mem n(2) st by (auto simp: step_ok_def)
  moreover have "distinct (map fst (st_tokens st'))" "map fst (st_blocks st') = map fst (st_tokens st')"
    using tb keys rid(2) by simp_all
  moreover have "set (map fst (st_tokens st')) = (\<lambda>n. request_id (objs s' n)) ` set (scheduled st')"
    using keys(3) rid(1) by (simp add: tb mem ids)
  moreover have "\<forall>(rid, k) \<in> set (st_tokens st'). 0 < k" "0 \<le> token_budget st'"
    "token_budget st' + sum_list (map snd (st_tokens st')) = max_num_scheduled_tokens c"
    using st tb st'(3) k by (auto simp: step_ok_def)
  moreover have "fst ` set (st_spec st') \<subseteq> fst ` set (st_tokens st')" using st'(5) keys(4) tb by auto
  ultimately show ?thesis using st'(6,7) unfolding step_ok_def by blast
qed

section \<open>Lists\<close>

lemma take_remove1: "x \<in> set (take i xs) \<Longrightarrow> x \<noteq> v \<Longrightarrow> x \<in> set (take i (remove1 v xs))"
proof (induction xs arbitrary: i)
  case (Cons y xs)
  show ?case
  proof (cases i)
    case (Suc j)
    then show ?thesis using Cons set_take_subset_set_take [of j "Suc j" xs] by auto
  qed (use Cons in simp)
qed simp

lemma take_remove1_before: "v \<in> set (take (Suc i) xs) \<Longrightarrow> x \<in> set (take (Suc i) xs) \<Longrightarrow> x \<noteq> v \<Longrightarrow> x \<in> set (take i (remove1 v xs))"
proof (induction xs arbitrary: i)
  case (Cons y xs)
  show ?case
  proof (cases "y = v")
    case False
    then obtain j where "i = Suc j" using Cons.prems by (cases i) auto
    then show ?thesis using Cons False by auto
  qed (use Cons in auto)
qed simp

lemma distinct_nth_notin_take: "distinct xs \<Longrightarrow> i < length xs \<Longrightarrow> xs ! i \<notin> set (take i xs)"
  by (metis distinct_take id_take_nth_drop in_set_conv_nth length_take less_imp_le min_absorb2 not_distinct_conv_prefix
      nth_take order_less_irrefl distinct_conv_nth)

lemma first_max_in: "first_max key x xs \<in> set (x # xs)"
  by (induction xs arbitrary: x) (auto split: if_splits)

lemma last_notin_take: "distinct xs \<Longrightarrow> n \<in> set xs \<Longrightarrow> n \<notin> set (take i xs) \<Longrightarrow> last xs \<notin> set (take i xs)"
proof (induction xs arbitrary: i)
  case (Cons y xs)
  show ?case
  proof (cases i)
    case (Suc j)
    then have "n \<in> set xs" "n \<notin> set (take j xs)" using Cons.prems by auto
    moreover from this have "last xs \<in> set xs" by (intro last_in_set) auto
    ultimately have "last xs \<notin> set (take j xs)" "last xs \<in> set xs" using Cons.IH [of j] Cons.prems by auto
    then show ?thesis using Suc Cons.prems by (auto split: if_splits)
  qed simp
qed simp

lemma butlast_remove1: "distinct xs \<Longrightarrow> xs \<noteq> [] \<Longrightarrow> butlast xs = remove1 (last xs) xs"
  by (induction xs) auto

lemma em_free_plain [simp]: "mm_features r = [] \<Longrightarrow> order [] = [] \<Longrightarrow> em_free order r e = Inr e"
  by (cases e) (simp_all add: enc_free_def get_cached_input_ids_def ed_free_def)

section \<open>Preemption\<close>

definition loop_inv :: "kv_view \<Rightarrow> sched_config \<Rightarrow> sched \<Rightarrow> step \<Rightarrow> bool" where
  "loop_inv V c s st \<longleftrightarrow> core_inv V c (tok (st_tokens st)) (drafts (st_spec st)) (waiting_ids (waiting_q s)) s
     \<and> wq_ok (sc_policy c) (waiting_q s) \<and> step_ok c s st \<and> st_new st = [] \<and> st_resumed st = []
     \<and> 0 \<le> req_index st \<and> set (st_running st) \<subseteq> set (take (nat (req_index st)) (running s))
     \<and> (st_preempted st = [] \<longrightarrow> prev_ok (set (waiting_ids (waiting_q s))) s)"

text \<open>The step without the tokens it had given to the preempted request.\<close>

definition dropped :: "nat \<Rightarrow> string \<Rightarrow> step \<Rightarrow> step" where
  "dropped v rid st = st\<lparr>st_running := remove1 v (st_running st), token_budget := token_budget st + tok (st_tokens st) rid,
     st_blocks := AList.delete rid (st_blocks st), st_tokens := AList.delete rid (st_tokens st),
     st_spec := AList.delete rid (st_spec st), req_index := req_index st - 1\<rparr>"

lemma unschedule_ok:
  assumes "step_ok c s st" and "v \<in> set (scheduled st)"
  shows "unschedule v (objs s v) st = Inr (dropped v (request_id (objs s v)) st)"
proof -
  let ?rid = "request_id (objs s v)"
  have k: "?rid \<in> set (map fst (st_tokens st))" using step_ok_key [OF assms] by simp
  then obtain n where n: "map_of (st_tokens st) ?rid = Some n" by (metis list.set_map map_of_eq_None_iff not_Some_eq)
  have "?rid \<in> set (map fst (st_blocks st))" using k assms(1) by (simp add: step_ok_def)
  then obtain b where b: "map_of (st_blocks st) ?rid = Some b" by (metis list.set_map map_of_eq_None_iff not_Some_eq)
  have e: "st_enc_inputs st = []" using assms(1) by (simp add: step_ok_def)
  show ?thesis using n b e by (simp add: unschedule_def dget_def dropped_def tok_def Let_def)
qed

lemma step_ok_dropped:
  assumes st: "step_ok c s st" and ids: "ids_ok live s" and run: "set (running s) \<subseteq> live" "distinct (running s)"
    and v: "v \<in> set (st_running st)"
  shows "step_ok c (s\<lparr>running := remove1 v (running s)\<rparr>) (dropped v (request_id (objs s v)) st)"
proof -
  let ?rid = "request_id (objs s v)"
  have vs: "v \<in> set (scheduled st)" using v by (simp add: scheduled_def)
  have sub: "set (scheduled st) \<subseteq> set (running s)" and d: "distinct (scheduled st)" using st by (simp_all add: step_ok_def)
  have sch: "scheduled (dropped v ?rid st) = remove1 v (scheduled st)"
    using v by (simp add: scheduled_def dropped_def remove1_append)
  have key: "?rid \<in> set (map fst (st_tokens st))" using step_ok_key [OF st vs] by simp
  then obtain n where n: "map_of (st_tokens st) ?rid = Some n" by (metis list.set_map map_of_eq_None_iff not_Some_eq)
  have "set (map fst (st_tokens st)) - {?rid} = (\<lambda>n. request_id (objs s n)) ` (set (scheduled st) - {v})"
  proof -
    have "request_id (objs s m) \<noteq> ?rid" if "m \<in> set (scheduled st)" "m \<noteq> v" for m
      using ids_distinct [OF ids, of v m] that sub run vs by auto
    then show ?thesis using st vs by (auto simp: step_ok_def)
  qed
  moreover have "n + sum_list (map snd (AList.delete ?rid (st_tokens st))) = sum_list (map snd (st_tokens st))"
    using sum_delete [OF _ n] st by (simp add: step_ok_def add.commute)
  moreover have "0 < n" using st map_of_SomeD [OF n] by (auto simp: step_ok_def)
  moreover have "set (AList.delete ?rid (st_tokens st)) \<subseteq> set (st_tokens st)" by (auto simp: AList.delete_eq)
  moreover have "fst ` set (AList.delete ?rid (st_spec st)) \<subseteq> fst ` set (AList.delete ?rid (st_tokens st))"
  proof -
    have "fst ` set (st_spec st) \<subseteq> fst ` set (st_tokens st)" using st unfolding step_ok_def by blast
    then show ?thesis by (force simp: AList.delete_eq)
  qed
  ultimately show ?thesis
    using st d sub run(2) n unfolding step_ok_def sch
    by (auto simp: dropped_def AList.delete_keys tok_def distinct_remove1_removeAll removeAll_filter_not_eq
        simp flip: set_map)
qed

context kv_contract
begin

lemma pick_victim_ok:
  assumes st: "step_ok c s st" and run: "distinct (running s)" "running s \<noteq> []"
    and idx: "set (st_running st) \<subseteq> set (take (nat (req_index st)) (running s))" "st_new st = []" "st_resumed st = []"
    and fcfs: "sc_policy c = FCFS \<Longrightarrow> \<exists>n \<in> set (running s). n \<notin> set (take (nat (req_index st)) (running s))"
  shows "\<exists>v. v \<in> set (running s) \<and> pick_victim c s st = Inr (v, s\<lparr>running := remove1 v (running s)\<rparr>,
      if v \<in> set (st_running st) then dropped v (request_id (objs s v)) st else st)"
proof (cases "sc_policy c")
  case FCFS
  then obtain n where n: "n \<in> set (running s)" "n \<notin> set (take (nat (req_index st)) (running s))" using fcfs by blast
  have "last (running s) \<notin> set (st_running st)" using last_notin_take [OF run(1) n] idx(1) by blast
  then show ?thesis using FCFS run butlast_remove1 [OF run]
    by (intro exI [of _ "last (running s)"]) (simp add: pick_victim_def)
next
  case PRIORITY
  let ?key = "\<lambda>n. (priority (objs s n), arrival_time (objs s n))"
  obtain x xs where x: "running s = x # xs" using run(2) by (cases "running s") auto
  define v where "v = first_max ?key x xs"
  have v: "v \<in> set (running s)" using first_max_in [of ?key x xs] x by (simp add: v_def)
  show ?thesis
  proof (cases "v \<in> set (st_running st)")
    case True
    then have "unschedule v (objs s v) st = Inr (dropped v (request_id (objs s v)) st)"
      by (intro unschedule_ok [OF st]) (simp add: scheduled_def)
    then show ?thesis using PRIORITY True v x by (intro exI [of _ v]) (simp add: pick_victim_def Let_def v_def)
  next
    case False
    then show ?thesis using PRIORITY v x by (intro exI [of _ v]) (simp add: pick_victim_def Let_def v_def)
  qed
qed

lemma preempt_request_ok:
  assumes ok: "v_ok V (kv s)" and v: "status (objs s v) = RUNNING" "mm_features (objs s v) = []" and ord: "env_order env [] = []"
  shows "\<exists>k r. preempt_request c env v s = Inr (set_obj v r (s\<lparr>kv := k, waiting_q := wq_prepend r (waiting_q s)\<rparr>))
    \<and> v_ok V k \<and> v_same V (request_id (objs s v)) (kv s) k \<and> v_absent V k (request_id (objs s v))
    \<and> touched_request (objs s v) r \<and> status r = PREEMPTED \<and> num_computed_tokens r = 0"
proof -
  let ?r = "objs s v"
  obtain k where k: "free ?r (kv s) = Inr k" "v_ok V k" "v_same V (request_id ?r) (kv s) k" "v_absent V k (request_id ?r)"
    using free [OF ok, of ?r] by blast
  define r1 where "r1 = ?r\<lparr>status := PREEMPTED, num_computed_tokens := 0, spec_token_ids := [], num_preemptions := num_preemptions ?r + 1\<rparr>"
  define r2 where "r2 = (if sc_log_stats c then record_event EV_PREEMPTED (env_now env) r1 else r1)"
  have "preempt_request c env v s = Inr (set_obj v r2 (s\<lparr>kv := k, waiting_q := wq_prepend r2 (waiting_q s)\<rparr>))"
    using k(1) v ord by (simp add: preempt_request_def Let_def r1_def r2_def)
  moreover have "touched_request ?r r2"
    unfolding touched_request_def
    by (intro exI [of _ PREEMPTED] exI [of _ 0] exI [of _ "[]"] exI [of _ "num_preemptions ?r + 1"]
        exI [of _ "if sc_log_stats c then events ?r @ [(EV_PREEMPTED, env_now env)] else events ?r"] exI [of _ "num_cached_tokens ?r"])
      (simp add: r2_def r1_def record_event_def)
  ultimately show ?thesis using k(2-4) by (intro exI [of _ k] exI [of _ r2]) (simp add: r2_def r1_def record_event_def)
qed

lemma request_ok_touched: "touched_request r r' \<Longrightarrow> request_ok V c k r' = request_ok V c k r"
  using hashed_cong [of r' r k] by (auto simp: touched_request_def request_ok_def plain_request_def generation_ok_def num_tokens_def num_output_tokens_def)

lemma core_running: "core_inv V c tk d W s \<Longrightarrow> n \<in> set (running s) \<Longrightarrow> running_ok V c tk d (kv s) (objs s n)"
  by (simp add: core_inv_def)

lemma loop_inv_kv:
  assumes inv: "loop_inv V c s st" and n: "n \<in> set (running s)" and k: "v_ok V k" "v_same V (request_id (objs s n)) (kv s) k"
    and cap: "v_cap V k (request_id (objs s n)) (num_computed_tokens (objs s n) + tok (st_tokens st) (request_id (objs s n)))"
  shows "loop_inv V c (s\<lparr>kv := k\<rparr>) st"
proof -
  let ?W = "waiting_ids (waiting_q s)"
  have core: "core_inv V c (tok (st_tokens st)) (drafts (st_spec st)) ?W s" using inv by (simp add: loop_inv_def)
  have run: "running_ok V c (tok (st_tokens st)) (drafts (st_spec st)) k (objs s n)"
    using core_running [OF core n] cap request_ok_same [OF k(2)] by (simp add: running_ok_def Let_def)
  have d: "distinct (running s @ ?W)" "obj_id (objs s n) = n" "length (running s) \<le> max_num_running_reqs c"
    using core n by (auto simp: core_inv_def ids_ok_def)
  then have "n \<notin> set ?W" using n by auto
  then have "core_inv V c (tok (st_tokens st)) (drafts (st_spec st)) ?W (s\<lparr>kv := k\<rparr>)"
    by (intro core_update [OF core, where n = n and r' = "objs s n"]) (use n k run d in simp_all)
  then show ?thesis using inv step_ok_cong [of "s\<lparr>kv := k\<rparr>" s c st] by (simp add: loop_inv_def prev_ok_def)
qed

lemma evict_ok:
  assumes inv: "loop_inv V c s st" and ne: "running s \<noteq> []" and ord: "env_order env [] = []"
    and fcfs: "sc_policy c = FCFS \<Longrightarrow> \<exists>n \<in> set (running s). n \<notin> set (take (nat (req_index st)) (running s))"
  shows "\<exists>v s1 st1 s2. pick_victim c s st = Inr (v, s1, st1) \<and> preempt_request c env v s1 = Inr s2
    \<and> loop_inv V c s2 (st1\<lparr>st_preempted := st_preempted st1 @ [v]\<rparr>) \<and> v \<in> set (running s) \<and> running s2 = remove1 v (running s)
    \<and> run_frame s st s2 (st1\<lparr>st_preempted := st_preempted st1 @ [v]\<rparr>) \<and> (\<forall>m. m \<noteq> v \<longrightarrow> objs s2 m = objs s m) \<and> token_budget st \<le> token_budget st1
    \<and> st1 = (if v \<in> set (st_running st) then dropped v (request_id (objs s v)) st else st)
    \<and> prev_step_scheduled_req_ids s2 = prev_step_scheduled_req_ids s"
proof -
  let ?W = "waiting_ids (waiting_q s)"
  have core: "core_inv V c (tok (st_tokens st)) (drafts (st_spec st)) ?W s" and wq: "wq_ok (sc_policy c) (waiting_q s)"
    and st: "step_ok c s st" and idx: "0 \<le> req_index st" "set (st_running st) \<subseteq> set (take (nat (req_index st)) (running s))"
      "st_new st = []" "st_resumed st = []" using inv by (simp_all add: loop_inv_def)
  have d: "distinct (running s @ ?W)" and ids: "ids_ok (set (running s) \<union> set ?W) s"
    and len: "length (running s) \<le> max_num_running_reqs c" using core by (simp_all add: core_inv_def)
  have dr: "distinct (running s)" using d by simp
  obtain v st1 where v: "v \<in> set (running s)" "pick_victim c s st = Inr (v, s\<lparr>running := remove1 v (running s)\<rparr>, st1)"
    and st1: "st1 = (if v \<in> set (st_running st) then dropped v (request_id (objs s v)) st else st)"
    using pick_victim_ok [OF st dr ne idx(2-4) fcfs] by blast
  let ?rid = "request_id (objs s v)" and ?s1 = "s\<lparr>running := remove1 v (running s)\<rparr>"
  have run: "running_ok V c (tok (st_tokens st)) (drafts (st_spec st)) (kv s) (objs s v)" by (rule core_running [OF core v(1)])
  then have rv: "status (objs s v) = RUNNING" "mm_features (objs s v) = []" "request_ok V c (kv s) (objs s v)"
    by (simp_all add: running_ok_def request_ok_def plain_request_def Let_def)
  obtain k r where p: "preempt_request c env v ?s1 = Inr (set_obj v r (?s1\<lparr>kv := k, waiting_q := wq_prepend r (waiting_q s)\<rparr>))"
    and k: "v_ok V k" "v_same V ?rid (kv s) k" "v_absent V k ?rid" and r: "touched_request (objs s v) r" "status r = PREEMPTED" "num_computed_tokens r = 0"
    using preempt_request_ok [of ?s1 v env c] rv ord core by (auto simp: core_inv_def)
  define s2 where "s2 = set_obj v r (?s1\<lparr>kv := k, waiting_q := wq_prepend r (waiting_q s)\<rparr>)"
  have s2: "objs s2 = (objs s)(v := r)" "requests s2 = requests s" "kv s2 = k" "running s2 = remove1 v (running s)"
    "waiting_q s2 = wq_prepend r (waiting_q s)" "prev_step_scheduled_req_ids s2 = prev_step_scheduled_req_ids s"
    by (simp_all add: s2_def set_obj_def)
  note rf = touched_request_fields [OF r(1)]
  have oid: "obj_id r = v" using rf ids v(1) by (simp add: ids_ok_def)
  have mW: "mset (waiting_ids (wq_prepend r (waiting_q s))) = add_mset v (mset ?W)" using waiting_ids_prepend [OF wq] oid by simp
  have m: "mset (remove1 v (running s) @ waiting_ids (wq_prepend r (waiting_q s))) = mset (running s @ ?W)" using mW v(1) by simp
  have core2: "core_inv V c (tok (st_tokens st1)) (drafts (st_spec st1)) (waiting_ids (waiting_q s2)) s2"
  proof (rule core_update [OF core, where n = v and r' = r])
    show "distinct (running s2 @ waiting_ids (waiting_q s2))" using mset_eq_imp_distinct_iff [OF m] d s2 by simp
    show "set (running s2) \<union> set (waiting_ids (waiting_q s2)) = set (running s) \<union> set ?W" using mset_eq_setD [OF m] s2 by simp
    show "set (running s2) - {v} = set (running s) - {v}" using s2 dr by auto
    show "tok (st_tokens st1) x = tok (st_tokens st) x \<and> drafts (st_spec st1) x = drafts (st_spec st) x" if "x \<noteq> request_id r" for x
      using that rf by (simp add: st1 dropped_def tok_delete drafts_delete)
    show "waiting_ok V c (kv s2) r"
      using request_ok_touched [OF r(1)] request_ok_same [OF k(2)] rv(3) r k(3) s2 rf by (simp add: waiting_ok_def)
    show "length (running s2) \<le> max_num_running_reqs c" using len s2 length_remove1 [of v "running s"] by (simp split: if_splits)
  qed (use v oid rf s2 k dr in simp_all)
  have rids: "request_id (objs s2 m) = request_id (objs ?s1 m)" for m using s2 rf by simp
  have step2: "step_ok c s2 st1"
  proof (cases "v \<in> set (st_running st)")
    case True
    then have "step_ok c ?s1 st1" using step_ok_dropped [OF st ids _ dr] st1 by simp
    then show ?thesis using step_ok_cong [of s2 ?s1 c st1] rids s2 by simp
  next
    case False
    then have "v \<notin> set (scheduled st)" using idx by (simp add: scheduled_def)
    then have "set (scheduled st) \<subseteq> set (running ?s1)" using st dr by (auto simp: step_ok_def)
    then have "step_ok c ?s1 st1" using False st1 step_ok_shrink [OF st] by simp
    then show ?thesis using step_ok_cong [of s2 ?s1 c st1] rids s2 by simp
  qed
  have sub: "set (st_running st1) \<subseteq> set (take (nat (req_index st1)) (running s2))" and i0: "0 \<le> req_index st1"
  proof -
    have "set (st_running st1) \<subseteq> set (take (nat (req_index st1)) (running s2)) \<and> 0 \<le> req_index st1"
    proof (cases "v \<in> set (st_running st)")
      case True
      then have vt: "v \<in> set (take (nat (req_index st)) (running s))" using idx by blast
      then obtain i where i: "nat (req_index st) = Suc i" by (cases "nat (req_index st)") auto
      then have i': "nat (req_index st - 1) = i" by simp
      have ds: "distinct (st_running st)" using st by (simp add: step_ok_def scheduled_def)
      show ?thesis using True i i' vt idx(2) ds st1 s2(4) take_remove1_before [of v i "running s"]
        by (auto simp: dropped_def)
    next
      case False
      then show ?thesis using idx st1 s2(4) take_remove1 [of _ "nat (req_index st)" "running s" v] by auto
    qed
    then show "set (st_running st1) \<subseteq> set (take (nat (req_index st1)) (running s2))" "0 \<le> req_index st1" by simp_all
  qed
  have wq2: "wq_ok (sc_policy c) (waiting_q s2)" using wq.prepend [OF wq] s2 by simp
  have "loop_inv V c s2 (st1\<lparr>st_preempted := st_preempted st1 @ [v]\<rparr>)"
    using core2 wq2 step2 sub i0 idx st1 by (simp add: loop_inv_def dropped_def)
  moreover have "run_frame s st s2 (st1\<lparr>st_preempted := st_preempted st1 @ [v]\<rparr>)"
    using r(1) s2 dr st1 by (auto simp: run_frame_def sched_frame_def dropped_def)
  moreover have "token_budget st \<le> token_budget st1"
  proof -
    have "0 \<le> tok (st_tokens st) ?rid" using st by (force simp: step_ok_def tok_def dest: map_of_SomeD split: option.split)
    then show ?thesis by (simp add: st1 dropped_def)
  qed
  ultimately show ?thesis using v p st1 s2 by (intro exI [of _ v] exI [of _ ?s1] exI [of _ st1] exI [of _ s2]) (simp add: s2_def)
qed

section \<open>The running requests\<close>

lemma alloc_or_preempt_ok:
  assumes "loop_inv V c s st" and "n \<in> set (running s)" and "n \<notin> set (st_running st)"
    and "sc_policy c = FCFS \<Longrightarrow> n \<notin> set (take (nat (req_index st)) (running s))"
    and "n \<in> set (take (Suc (nat (req_index st))) (running s))"
    and "0 < nn" and "num_computed_tokens (objs s n) + nn < v_len V" and "config_ok V c env"
  shows "\<exists>nb s' st'. alloc_or_preempt c env n nn s st = Inr (nb, s', st') \<and> loop_inv V c s' st' \<and> run_frame s st s' st'
    \<and> token_budget st \<le> token_budget st' \<and> prev_step_scheduled_req_ids s' = prev_step_scheduled_req_ids s
    \<and> (nb \<noteq> None \<longrightarrow> n \<in> set (running s') \<and> n \<notin> set (st_running st') \<and> objs s' n = objs s n
         \<and> v_cap V (kv s') (request_id (objs s n)) (num_computed_tokens (objs s n) + nn)
         \<and> n \<in> set (take (Suc (nat (req_index st'))) (running s')))"
  using assms
proof (induction c env n nn s st rule: alloc_or_preempt.induct)
  case (1 c env n nn s st)
  note inv = "1.prems"(1) and n = "1.prems"(2,3) and fcfs = "1.prems"(4) and pos = "1.prems"(5) and nn = "1.prems"(6,7) and cf = "1.prems"(8)
  let ?r = "objs s n" and ?rid = "request_id (objs s n)"
  have core: "core_inv V c (tok (st_tokens st)) (drafts (st_spec st)) (waiting_ids (waiting_q s)) s" and st: "step_ok c s st"
    using inv by (simp_all add: loop_inv_def)
  have ids: "ids_ok (set (running s) \<union> set (waiting_ids (waiting_q s))) s" and vok: "v_ok V (kv s)" and dr: "distinct (running s)"
    using core by (simp_all add: core_inv_def)
  have sch: "n \<notin> set (scheduled st)" using n inv by (simp add: scheduled_def loop_inv_def)
  have nk: "?rid \<notin> fst ` set (st_tokens st)" by (rule step_ok_unscheduled [OF st ids]) (use n sch in auto)
  then have t0: "tok (st_tokens st) ?rid = 0" by (intro tok_absent) simp
  have run: "running_ok V c (tok (st_tokens st)) (drafts (st_spec st)) (kv s) ?r" using core_running [OF core n(1)] .
  then have r: "v_hashed V (kv s) ?r" "v_cap V (kv s) ?rid (num_computed_tokens ?r)" "0 \<le> num_computed_tokens ?r" "num_tokens ?r \<le> v_len V"
    using t0 by (auto simp: running_ok_def request_ok_def Let_def)
  obtain nb k where a: "allocate_slots ?r nn 0 None (num_lookahead_tokens c) 0 False 0 (kv s) = Inr (nb, k)"
    and k: "v_ok V k" "v_same V ?rid (kv s) k" "v_cap V k ?rid (if nb = None then num_computed_tokens ?r else num_computed_tokens ?r + nn)"
    using running [OF vok r(1,2,3,4) nn(1), of "num_lookahead_tokens c"] nn(2) cf by (auto simp: config_ok_def)
  have cap: "v_cap V k ?rid (num_computed_tokens ?r + tok (st_tokens st) ?rid)"
    using k t0 nn cap_mono [OF k(3) _ k(1), of "num_computed_tokens ?r"] by (auto split: if_splits)
  have inv1: "loop_inv V c (s\<lparr>kv := k\<rparr>) st" by (rule loop_inv_kv [OF inv n(1) k(1,2) cap])
  show ?case
  proof (cases nb)
    case (Some b)
    then have "alloc_or_preempt c env n nn s st = Inr (Some b, s\<lparr>kv := k\<rparr>, st)" using a by (subst alloc_or_preempt.simps) simp
    then show ?thesis using inv1 n pos k(3) Some by (simp add: run_frame_def sched_frame_def)
  next
    case None
    have fc: "\<exists>m \<in> set (running (s\<lparr>kv := k\<rparr>)). m \<notin> set (take (nat (req_index st)) (running (s\<lparr>kv := k\<rparr>)))" if "sc_policy c = FCFS"
      using fcfs [OF that] n(1) by auto
    have ne: "running (s\<lparr>kv := k\<rparr>) \<noteq> []" and ord: "env_order env [] = []" using n(1) cf by (auto simp: config_ok_def)
    let ?s = "s\<lparr>kv := k\<rparr>"
    obtain v s1 st1 s2 where p: "pick_victim c ?s st = Inr (v, s1, st1) \<and> preempt_request c env v s1 = Inr s2
      \<and> loop_inv V c s2 (st1\<lparr>st_preempted := st_preempted st1 @ [v]\<rparr>) \<and> v \<in> set (running ?s) \<and> running s2 = remove1 v (running ?s)
      \<and> run_frame ?s st s2 (st1\<lparr>st_preempted := st_preempted st1 @ [v]\<rparr>) \<and> (\<forall>m. m \<noteq> v \<longrightarrow> objs s2 m = objs ?s m) \<and> token_budget st \<le> token_budget st1
      \<and> st1 = (if v \<in> set (st_running st) then dropped v (request_id (objs ?s v)) st else st)
      \<and> prev_step_scheduled_req_ids s2 = prev_step_scheduled_req_ids ?s"
      using evict_ok [OF inv1 ne ord fc] by blast
    have o: "objs ?s = objs s" "running ?s = running s" "prev_step_scheduled_req_ids ?s = prev_step_scheduled_req_ids s" by simp_all
    from p [unfolded o] have v: "pick_victim c ?s st = Inr (v, s1, st1)" "preempt_request c env v s1 = Inr s2"
      "loop_inv V c s2 (st1\<lparr>st_preempted := st_preempted st1 @ [v]\<rparr>)" "v \<in> set (running s)" "running s2 = remove1 v (running s)"
      "run_frame ?s st s2 (st1\<lparr>st_preempted := st_preempted st1 @ [v]\<rparr>)" "\<forall>m. m \<noteq> v \<longrightarrow> objs s2 m = objs s m" "token_budget st \<le> token_budget st1"
      "prev_step_scheduled_req_ids s2 = prev_step_scheduled_req_ids s"
      and st1: "st1 = (if v \<in> set (st_running st) then dropped v (request_id (objs s v)) st else st)"
      by blast+
    let ?st2 = "st1\<lparr>st_preempted := st_preempted st1 @ [v]\<rparr>"
    have eq: "alloc_or_preempt c env n nn s st = (if v = n then Inr (None, s2, ?st2) else alloc_or_preempt c env n nn s2 ?st2)"
      using a None v(1,2) by (subst alloc_or_preempt.simps) (simp add: Let_def)
    have fr: "run_frame s st s2 ?st2" using v(6) by (simp add: run_frame_def sched_frame_def)
    show ?thesis
    proof (cases "v = n")
      case True
      then show ?thesis using eq v fr by simp
    next
      case False
      have n2: "n \<in> set (running s2)" "n \<notin> set (st_running ?st2)"
        using n False v(5) st1 by (auto simp: dropped_def dest: set_remove1_subset [THEN subsetD])
      have idx: "set (st_running st) \<subseteq> set (take (nat (req_index st)) (running s))" using inv by (simp add: loop_inv_def)
      have pos2: "n \<in> set (take (Suc (nat (req_index ?st2))) (running s2))"
      proof (cases "v \<in> set (st_running st)")
        case True
        then have vt: "v \<in> set (take (nat (req_index st)) (running s))" using idx by blast
        then obtain i where i: "nat (req_index st) = Suc i" "nat (req_index st - 1) = i" by (cases "nat (req_index st)") auto
        have "v \<in> set (take (Suc (Suc i)) (running s))" using vt i(1) set_take_subset_set_take [of "Suc i" "Suc (Suc i)" "running s"] by auto
        from take_remove1_before [OF this _ False [symmetric]] pos i True st1 v(5) show ?thesis by (simp add: dropped_def)
      next
        case False
        then show ?thesis using take_remove1 [OF pos, of v] \<open>v \<noteq> n\<close> st1 v(5) by simp
      qed
      have fcfs2: "n \<notin> set (take (nat (req_index ?st2)) (running s2))" if p: "sc_policy c = FCFS"
      proof -
        have "v = last (running s)" using v(1) p n(1) by (auto simp: pick_victim_def split: if_splits)
        then have b: "running s2 = butlast (running s)" using v(5) butlast_remove1 [OF dr] ne by simp
        have "v \<notin> set (st_running st)" using last_notin_take [OF dr n(1) fcfs [OF p]] idx \<open>v = last (running s)\<close> by blast
        moreover have "set (take i (butlast xs)) \<subseteq> set (take i xs)" for i and xs :: "nat list"
          by (simp add: butlast_conv_take set_take_subset_set_take)
        ultimately show ?thesis using fcfs [OF p] b st1 by auto
      qed
      have o2: "objs s2 n = objs s n" using v(7) False by simp
      from "1.IH" [OF a refl None v(1) refl refl v(2) refl False v(3) n2 fcfs2 pos2 nn(1) _ cf]
      obtain nb' s' st' where "alloc_or_preempt c env n nn s2 ?st2 = Inr (nb', s', st')" "loop_inv V c s' st'" "run_frame s2 ?st2 s' st'"
        "token_budget ?st2 \<le> token_budget st'" "prev_step_scheduled_req_ids s' = prev_step_scheduled_req_ids s2"
        "nb' \<noteq> None \<longrightarrow> n \<in> set (running s') \<and> n \<notin> set (st_running st') \<and> objs s' n = objs s2 n
         \<and> v_cap V (kv s') (request_id (objs s2 n)) (num_computed_tokens (objs s2 n) + nn)
         \<and> n \<in> set (take (Suc (nat (req_index st'))) (running s'))"
        using o2 nn(2) by auto
      then show ?thesis using eq False v(8,9) o2 run_frame_trans [OF fr] by auto
    qed
  qed
qed

lemma running_tokens_bounds:
  assumes "running_ok V c tk d k r" and "tk (request_id r) = 0" and "d (request_id r) = 0" and "0 < budget" and "sc_max_model_len c = v_len V"
  shows "0 \<le> running_tokens c budget r" "running_tokens c budget r \<le> budget"
    "num_computed_tokens r + running_tokens c budget r < v_len V"
    "num_computed_tokens r + running_tokens c budget r \<le> num_tokens_with_spec r + num_output_placeholders r"
  using assms by (auto simp: running_tokens_def running_ok_def num_tokens_with_spec_def num_tokens_def Let_def)

lemma encoder_inputs_plain:
  assumes "mm_features r = []"
  shows "encoder_inputs c env r a n b e = Inr \<lparr>es_inputs = [], es_tokens = n, es_budget = b, es_external = [],
    es_hashes = [], es_embeds = 0, es_cache = e\<rparr>"
  using assms by (simp add: encoder_inputs_def has_encoder_inputs_def)

lemma schedule_encoder_plain:
  "es_inputs es = [] \<Longrightarrow> es_external es = [] \<Longrightarrow> schedule_encoder r es (s, st) = Inr (s, st)"
  by (simp add: schedule_encoder_def)

lemma schedule_one_ok:
  assumes inv: "loop_inv V c s st" and n: "n \<in> set (running s)" "n \<notin> set (st_running st)"
      "n \<in> set (take (Suc (nat (req_index st))) (running s))"
    and nn: "0 < nn" "nn \<le> token_budget st" "num_computed_tokens (objs s n) + nn < v_len V"
      "num_computed_tokens (objs s n) + nn \<le> num_tokens_with_spec (objs s n) + num_output_placeholders (objs s n)"
    and cap: "v_cap V (kv s) (request_id (objs s n)) (num_computed_tokens (objs s n) + nn)"
    and s': "schedule_spec n nn (s, st\<lparr>st_running := st_running st @ [n],
        st_blocks := AList.update (request_id (objs s n)) kb (st_blocks st),
        st_tokens := AList.update (request_id (objs s n)) nn (st_tokens st),
        token_budget := token_budget st - nn, req_index := req_index st + 1\<rparr>) = (s', st')"
  shows "loop_inv V c s' st' \<and> run_frame s st s' st' \<and> prev_step_scheduled_req_ids s' = prev_step_scheduled_req_ids s"
proof -
  let ?r = "objs s n" and ?rid = "request_id (objs s n)" and ?W = "waiting_ids (waiting_q s)"
  define kk where "kk = nn + num_computed_tokens ?r - num_tokens ?r - num_output_placeholders ?r"
  define r' where "r' = ?r\<lparr>spec_token_ids := []\<rparr>"
  have core: "core_inv V c (tok (st_tokens st)) (drafts (st_spec st)) ?W s" and st: "step_ok c s st"
    and idx: "0 \<le> req_index st" "set (st_running st) \<subseteq> set (take (nat (req_index st)) (running s))"
      "st_new st = []" "st_resumed st = []" using inv by (simp_all add: loop_inv_def)
  have ids: "ids_ok (set (running s) \<union> set ?W) s" and dr: "distinct (running s @ ?W)" and len: "length (running s) \<le> max_num_running_reqs c"
    using core by (simp_all add: core_inv_def)
  have ns: "n \<notin> set (scheduled st)" using n idx by (simp add: scheduled_def)
  have nk: "?rid \<notin> fst ` set (st_tokens st)" by (rule step_ok_unscheduled [OF st ids _ _ ns]) (use n in auto)
  have nd: "?rid \<notin> fst ` set (st_spec st)" and dsp: "distinct (map fst (st_spec st))" using nk st unfolding step_ok_def by blast+
  have run: "running_ok V c (tok (st_tokens st)) (drafts (st_spec st)) (kv s) ?r" using core_running [OF core n(1)] .
  have S: "objs s' = (objs s)(n := r')" "requests s' = requests s" "running s' = running s" "waiting_q s' = waiting_q s"
    "kv s' = kv s" "prev_step_scheduled_req_ids s' = prev_step_scheduled_req_ids s"
    using s' by (auto simp: schedule_spec_def set_obj_def Let_def r'_def split: if_splits)
  have T: "st_running st' = st_running st @ [n]" "st_new st' = []" "st_resumed st' = []" "req_index st' = req_index st + 1"
    "st_tokens st' = AList.update ?rid nn (st_tokens st)" "st_blocks st' = AList.update ?rid kb (st_blocks st)"
    "token_budget st' = token_budget st - nn" "st_enc_inputs st' = []" "st_preempted st' = st_preempted st"
    and sp: "st_spec st' = (if spec_token_ids ?r \<noteq> [] \<and> 0 < kk
       then AList.update ?rid (take (nat kk) (spec_token_ids ?r)) (st_spec st) else st_spec st)"
    using s' idx st by (auto simp: schedule_spec_def set_obj_def Let_def kk_def step_ok_def split: if_splits)
  have kl: "kk \<le> int (length (spec_token_ids ?r))" using nn(4) by (simp add: kk_def num_tokens_with_spec_def num_tokens_def)
  then have d': "drafts (st_spec st') = (drafts (st_spec st))(?rid := max 0 kk)"
    using drafts_absent [of ?rid "st_spec st"] nd unfolding sp by (auto simp: drafts_update fun_eq_iff)
  have tr: "touched_request ?r r'"
    unfolding touched_request_def r'_def
    by (intro exI [of _ "status ?r"] exI [of _ "num_computed_tokens ?r"] exI [of _ "[]"]
        exI [of _ "num_preemptions ?r"] exI [of _ "events ?r"] exI [of _ "num_cached_tokens ?r"]) simp
  have rr: "request_ok V c (kv s) r'" using run request_ok_touched [OF tr] by (simp add: running_ok_def Let_def)
  have run': "running_ok V c (tok (st_tokens st')) (drafts (st_spec st')) (kv s') r'"
    using rr run cap nn S(5) unfolding running_ok_def T(5) tok_update d' Let_def
    by (simp add: r'_def num_tokens_with_spec_def num_tokens_def kk_def)
  have notw: "n \<notin> set ?W" using n(1) dr by auto
  have oid: "obj_id ?r = n" using ids n(1) by (simp add: ids_ok_def)
  have core': "core_inv V c (tok (st_tokens st')) (drafts (st_spec st')) ?W s'"
    by (rule core_update [OF core, where n = n and r' = r'])
      (use n S run' notw oid core dr len in \<open>simp_all add: r'_def T d' tok_update same_refl core_inv_def\<close>)
  have step': "step_ok c s' st'"
    by (rule step_ok_add [OF st _ nk ns, where s' = s' and k = nn and b = kb])
      (use S T nn n sp nd dsp in \<open>auto simp: r'_def scheduled_def idx distinct_update dom_update\<close>)
  have "set (st_running st') \<subseteq> set (take (nat (req_index st')) (running s'))"
    using idx n(3) set_take_subset_set_take [of "nat (req_index st)" "Suc (nat (req_index st))" "running s"] T S
    by (auto simp: nat_add_distrib)
  moreover have "prev_ok (set ?W) s' = prev_ok (set ?W) s" using S notw by (auto simp: prev_ok_def)
  ultimately have "loop_inv V c s' st'" using core' step' inv S T idx(1) by (simp add: loop_inv_def)
  moreover have "run_frame s st s' st'" using tr S T by (simp add: run_frame_def sched_frame_def r'_def)
  ultimately show ?thesis using S by simp
qed

lemma running_step_ok:
  assumes inv: "loop_inv V c s st" and i: "req_index st < int (length (running s))" and b: "0 < token_budget st" and cf: "config_ok V c env"
  shows "\<exists>go s' st'. running_step c env s st = Inr (go, s', st') \<and> loop_inv V c s' st' \<and> run_frame s st s' st'
    \<and> prev_step_scheduled_req_ids s' = prev_step_scheduled_req_ids s"
proof -
  define n where "n = running s ! nat (req_index st)"
  let ?r = "objs s n" and ?rid = "request_id (objs s n)" and ?i = "nat (req_index st)"
  have core: "core_inv V c (tok (st_tokens st)) (drafts (st_spec st)) (waiting_ids (waiting_q s)) s" and st: "step_ok c s st"
    and idx: "0 \<le> req_index st" "set (st_running st) \<subseteq> set (take ?i (running s))" using inv by (simp_all add: loop_inv_def)
  have ids: "ids_ok (set (running s) \<union> set (waiting_ids (waiting_q s))) s" and dr: "distinct (running s)"
    using core by (simp_all add: core_inv_def)
  have il: "?i < length (running s)" using i idx by linarith
  have n: "n \<in> set (running s)" "n \<notin> set (take ?i (running s))" "n \<in> set (take (Suc ?i) (running s))"
    using il distinct_nth_notin_take [OF dr il] by (simp_all add: n_def take_Suc_conv_app_nth)
  have ns: "n \<notin> set (st_running st)" "n \<notin> set (scheduled st)" using n(2) idx(2) inv by (auto simp: scheduled_def loop_inv_def)
  have nk: "?rid \<notin> fst ` set (st_tokens st)" by (rule step_ok_unscheduled [OF st ids _ _ ns(2)]) (use n in auto)
  have nd: "?rid \<notin> fst ` set (st_spec st)" using nk st unfolding step_ok_def by blast
  have z: "tok (st_tokens st) ?rid = 0" "drafts (st_spec st) ?rid = 0" using nk nd by (simp_all add: tok_absent drafts_absent)
  have run: "running_ok V c (tok (st_tokens st)) (drafts (st_spec st)) (kv s) ?r" using core_running [OF core n(1)] .
  have mm: "mm_features ?r = []" using run by (simp add: running_ok_def request_ok_def plain_request_def Let_def)
  define nn where "nn = running_tokens c (token_budget st) ?r"
  have bd: "0 \<le> nn" "nn \<le> token_budget st" "num_computed_tokens ?r + nn < v_len V"
    "num_computed_tokens ?r + nn \<le> num_tokens_with_spec ?r + num_output_placeholders ?r"
    using running_tokens_bounds [OF run z b] cf by (simp_all add: nn_def config_ok_def)
  have py: "py_index (running s) (req_index st) = Inr n" using idx(1) i by (simp add: py_index_def py_position_def n_def)
  have skip: "loop_inv V c s (st\<lparr>req_index := req_index st + 1\<rparr>)"
    using inv idx set_take_subset_set_take [of ?i "Suc ?i" "running s"] by (auto simp: loop_inv_def nat_add_distrib)
  consider "reached_max_tokens ?r" | "\<not> reached_max_tokens ?r" "nn = 0" | "\<not> reached_max_tokens ?r" "0 < nn" using bd(1) by linarith
  then show ?thesis
  proof cases
    case 1
    then show ?thesis using py skip by (auto simp: running_step_def Let_def run_frame_index)
  next
    case 2
    then show ?thesis using py skip mm nn_def by (auto simp: running_step_def Let_def encoder_inputs_plain run_frame_index)
  next
    case 3
    obtain nb s1 st1 where a: "alloc_or_preempt c env n nn s st = Inr (nb, s1, st1)" "loop_inv V c s1 st1" "run_frame s st s1 st1"
      "token_budget st \<le> token_budget st1" "prev_step_scheduled_req_ids s1 = prev_step_scheduled_req_ids s"
      and some: "nb \<noteq> None \<longrightarrow> n \<in> set (running s1) \<and> n \<notin> set (st_running st1) \<and> objs s1 n = objs s n
         \<and> v_cap V (kv s1) ?rid (num_computed_tokens ?r + nn) \<and> n \<in> set (take (Suc (nat (req_index st1))) (running s1))"
      using alloc_or_preempt_ok [OF inv n(1) ns(1) n(2,3) 3(2) bd(3) cf] by blast
    show ?thesis
    proof (cases nb)
      case None
      then show ?thesis using py 3 mm a by (auto simp: running_step_def Let_def encoder_inputs_plain nn_def [symmetric])
    next
      case (Some kb)
      then have n1: "n \<in> set (running s1)" "n \<notin> set (st_running st1)" "objs s1 n = ?r"
        "v_cap V (kv s1) ?rid (num_computed_tokens ?r + nn)" "n \<in> set (take (Suc (nat (req_index st1))) (running s1))"
        using some by simp_all
      define st2 where "st2 = st1\<lparr>st_running := st_running st1 @ [n], st_blocks := AList.update ?rid kb (st_blocks st1),
         st_tokens := AList.update ?rid nn (st_tokens st1), token_budget := token_budget st1 - nn, req_index := req_index st1 + 1\<rparr>"
      obtain s3 st3 where s3: "schedule_spec n nn (s1, st2) = (s3, st3)" by (cases "schedule_spec n nn (s1, st2)")
      have step: "running_step c env s st = Inr (True, s3, st3)"
        using py 3 mm a(1) Some s3
        by (simp add: running_step_def Let_def encoder_inputs_plain nn_def [symmetric] st2_def [symmetric] schedule_encoder_plain)
      have inv3: "loop_inv V c s3 st3 \<and> run_frame s1 st1 s3 st3 \<and> prev_step_scheduled_req_ids s3 = prev_step_scheduled_req_ids s1"
        by (rule schedule_one_ok [OF a(2) n1(1,2,5) _ _ _ _ n1(4) [folded n1(3)] s3 [unfolded st2_def, folded n1(3)]])
          (use n1(3) 3(2) bd a(4) in simp_all)
      then show ?thesis using step run_frame_trans [OF a(3)] a(5) by auto
    qed
  qed
qed

lemma running_loop_ok:
  assumes "loop_inv V c s st" and "config_ok V c env"
  shows "\<exists>s' st'. running_loop c env s st = Inr (s', st') \<and> loop_inv V c s' st' \<and> run_frame s st s' st'
    \<and> prev_step_scheduled_req_ids s' = prev_step_scheduled_req_ids s"
  using assms
proof (induction c env s st rule: running_loop.induct)
  case (1 c env s st)
  show ?case
  proof (cases "req_index st < int (length (running s)) \<and> 0 < token_budget st")
    case False
    then show ?thesis using "1.prems" by (subst running_loop.simps) auto
  next
    case True
    then obtain go s1 st1 where r: "running_step c env s st = Inr (go, s1, st1)" "loop_inv V c s1 st1" "run_frame s st s1 st1"
      "prev_step_scheduled_req_ids s1 = prev_step_scheduled_req_ids s"
      using running_step_ok [OF "1.prems"(1) _ _ "1.prems"(2)] by blast
    show ?thesis
    proof (cases go)
      case False
      then show ?thesis using True r by (subst running_loop.simps) simp
    next
      case go: True
      obtain s' st' where "running_loop c env s1 st1 = Inr (s', st')" "loop_inv V c s' st'" "run_frame s1 st1 s' st'"
        "prev_step_scheduled_req_ids s' = prev_step_scheduled_req_ids s1"
        using "1.IH" [OF True r(1) refl refl go r(2) "1.prems"(2)] by blast
      then show ?thesis using True r go run_frame_trans [OF r(3)] by (subst running_loop.simps) simp
    qed
  qed
qed

section \<open>The waiting requests\<close>

text \<open>Between the iterations of the second loop; \<open>sk\<close> is the queue of the skipped requests.\<close>

definition wait_inv :: "sched_config \<Rightarrow> sched \<Rightarrow> step \<Rightarrow> waiting \<Rightarrow> bool" where
  "wait_inv c s st sk \<longleftrightarrow>
     core_inv V c (tok (st_tokens st)) (drafts (st_spec st)) (waiting_ids (waiting_q s) @ waiting_ids sk) s
     \<and> wq_ok (sc_policy c) (waiting_q s) \<and> wq_ok (sc_policy c) sk \<and> step_ok c s st
     \<and> prev_ok (set (waiting_ids (waiting_q s) @ waiting_ids sk)) s
     \<and> (\<forall>n \<in> set (st_resumed st). request_id (objs s n) \<notin> set (prev_step_scheduled_req_ids s))"

lemma wq_nonempty:
  assumes "wq_ok policy w" and "wq_requests w \<noteq> []"
  shows "\<exists>h w'. wq_peek w = Inr h \<and> wq_pop w = Inr (h, w') \<and> wq_ok policy w' \<and> mset (waiting_ids w) = add_mset (obj_id h) (mset (waiting_ids w'))"
proof -
  have "mset (wq_requests w) \<noteq> {#}" using assms(2) by simp
  from wq.pop [OF assms(1) this] show ?thesis by (metis image_mset_add_mset mset_map waiting_ids_def)
qed

text \<open>The invariant does not depend on the order of the waiting requests.\<close>

lemma core_perm: "mset W' = mset W \<Longrightarrow> core_inv V c tk d W' s = core_inv V c tk d W s"
  using mset_eq_setD [of W' W] mset_eq_imp_distinct_iff [of W' W] by (simp add: core_inv_def)

lemma core_waiting: "core_inv V c tk d W s \<Longrightarrow> n \<in> set W \<Longrightarrow> waiting_ok V c (kv s) (objs s n)"
  by (simp add: core_inv_def)

lemma core_fields:
  assumes "core_inv V c tk d W s" and "running s' = running s" "objs s' = objs s" "requests s' = requests s" "kv s' = kv s"
  shows "core_inv V c tk d W s'"
  using assms by (simp add: core_inv_def ids_ok_def)

lemma skip_waiting_ok:
  assumes inv: "wait_inv c s st sk" and ne: "wq_requests (waiting_q s) \<noteq> []"
  shows "\<exists>s' sk'. skip_waiting s sk = Inr (s', sk') \<and> wait_inv c s' st sk' \<and> wait_frame s s'
    \<and> prev_step_scheduled_req_ids s' = prev_step_scheduled_req_ids s
    \<and> mset (waiting_ids (waiting_q s') @ waiting_ids sk') = mset (waiting_ids (waiting_q s) @ waiting_ids sk)"
proof -
  have core: "core_inv V c (tok (st_tokens st)) (drafts (st_spec st)) (waiting_ids (waiting_q s) @ waiting_ids sk) s"
    and wq: "wq_ok (sc_policy c) (waiting_q s)" "wq_ok (sc_policy c) sk" and st: "step_ok c s st"
    using inv by (simp_all add: wait_inv_def)
  obtain h w where h: "wq_pop (waiting_q s) = Inr (h, w)" "wq_ok (sc_policy c) w"
    "mset (waiting_ids (waiting_q s)) = add_mset (obj_id h) (mset (waiting_ids w))"
    using wq_nonempty [OF wq(1) ne] by blast
  have n: "obj_id h \<in> set (waiting_ids (waiting_q s))" using h(3) by (metis set_mset_mset union_single_eq_member)
  then have o: "obj_id (objs s (obj_id h)) = obj_id h" using core by (simp add: core_inv_def ids_ok_def)
  define sk' where "sk' = wq_prepend (objs s (obj_id h)) sk"
  have sk': "wq_ok (sc_policy c) sk'" "mset (waiting_ids sk') = add_mset (obj_id h) (mset (waiting_ids sk))"
    using wq.prepend [OF wq(2)] waiting_ids_prepend [OF wq(2)] o by (simp_all add: sk'_def)
  have m: "mset (waiting_ids w @ waiting_ids sk') = mset (waiting_ids (waiting_q s) @ waiting_ids sk)" using sk'(2) h(3) by simp
  have "core_inv V c (tok (st_tokens st)) (drafts (st_spec st)) (waiting_ids w @ waiting_ids sk') (s\<lparr>waiting_q := w\<rparr>)"
    using core_fields [OF core, of "s\<lparr>waiting_q := w\<rparr>"] by (simp only: core_perm [OF m]) simp
  moreover have "prev_ok (set (waiting_ids w @ waiting_ids sk')) (s\<lparr>waiting_q := w\<rparr>)"
    using inv mset_eq_setD [OF m] by (simp add: wait_inv_def prev_ok_def)
  moreover have "step_ok c (s\<lparr>waiting_q := w\<rparr>) st" using st step_ok_cong [of "s\<lparr>waiting_q := w\<rparr>" s c st] by simp
  ultimately have "wait_inv c (s\<lparr>waiting_q := w\<rparr>) st sk'" using inv h(2) sk'(1) by (simp add: wait_inv_def)
  then show ?thesis using h(1) m by (auto simp: skip_waiting_def sk'_def [symmetric] wait_frame_def sched_frame_def)
qed

lemma wait_inv_kv:
  assumes inv: "wait_inv c s st sk" and n: "n \<in> set (waiting_ids (waiting_q s))"
    and k: "v_ok V k" "v_same V (request_id (objs s n)) (kv s) k" "v_absent V k (request_id (objs s n))"
  shows "wait_inv c (s\<lparr>kv := k\<rparr>) st sk"
proof -
  let ?W = "waiting_ids (waiting_q s) @ waiting_ids sk"
  have core: "core_inv V c (tok (st_tokens st)) (drafts (st_spec st)) ?W s" using inv by (simp add: wait_inv_def)
  have d: "distinct (running s @ ?W)" "obj_id (objs s n) = n" "length (running s) \<le> max_num_running_reqs c"
    using core n by (auto simp: core_inv_def ids_ok_def)
  have nr: "n \<notin> set (running s)" using d n by auto
  have w: "waiting_ok V c k (objs s n)"
    using core_waiting [OF core, of n] n k request_ok_same [OF k(2)] by (simp add: waiting_ok_def)
  have "core_inv V c (tok (st_tokens st)) (drafts (st_spec st)) ?W (s\<lparr>kv := k\<rparr>)"
    by (intro core_update [OF core, where n = n and r' = "objs s n"]) (use n nr k w d in simp_all)
  then show ?thesis using inv step_ok_cong [of "s\<lparr>kv := k\<rparr>" s c st] by (simp add: wait_inv_def prev_ok_def)
qed

lemma admit_waiting_ok:
  assumes inv: "wait_inv c s st sk" and h: "wq_pop (waiting_q s) = Inr (h, w)" "wq_ok (sc_policy c) w"
      "mset (waiting_ids (waiting_q s)) = add_mset n (mset (waiting_ids w))" "n = obj_id h"
    and stat: "status (objs s n) \<in> {WAITING, PREEMPTED}" and len: "length (running s) < max_num_running_reqs c"
    and k: "v_ok V k" "v_same V (request_id (objs s n)) (kv s) k" "v_cap V k (request_id (objs s n)) (hit + nn)"
    and nn: "0 \<le> hit" "0 < nn" "nn \<le> token_budget st" "hit + nn \<le> num_tokens (objs s n)"
    and es: "es_inputs es = []" "es_external es = []"
  shows "\<exists>s' st'. admit_waiting c env hit nn es (s\<lparr>kv := k\<rparr>) st = Inr (s', st') \<and> wait_inv c s' st' sk \<and> wait_frame s s'
    \<and> prev_step_scheduled_req_ids s' = prev_step_scheduled_req_ids s \<and> st_preempted st' = st_preempted st"
proof -
  let ?r = "objs s n" and ?rid = "request_id (objs s n)" and ?W = "waiting_ids (waiting_q s) @ waiting_ids sk"
  have core: "core_inv V c (tok (st_tokens st)) (drafts (st_spec st)) ?W s" and st: "step_ok c s st" and prev: "prev_ok (set ?W) s"
    using inv by (simp_all add: wait_inv_def)
  have ids: "ids_ok (set (running s) \<union> set ?W) s" and d: "distinct (running s @ ?W)" using core by (simp_all add: core_inv_def)
  have n: "n \<in> set (waiting_ids (waiting_q s))" using h(3) by (metis set_mset_mset union_single_eq_member)
  have nr: "n \<notin> set (running s)" using d n by auto
  have ns: "n \<notin> set (scheduled st)" using nr st by (auto simp: step_ok_def)
  have nk: "?rid \<notin> fst ` set (st_tokens st)" by (rule step_ok_unscheduled [OF st ids _ _ ns]) (use n in auto)
  have nd: "?rid \<notin> fst ` set (st_spec st)" and dsp: "distinct (map fst (st_spec st))" using nk st unfolding step_ok_def by blast+
  have wok: "waiting_ok V c (kv s) ?r" using core_waiting [OF core] n by simp
  then have ro: "request_ok V c (kv s) ?r" and pl: "max_loras c = None \<or> lora ?r = None"
    by (simp_all add: waiting_ok_def request_ok_def plain_request_def)
  define r1 where "r1 = (if sc_log_stats c then record_event EV_SCHEDULED (env_now env) ?r else ?r)"
  define r2 where "r2 = r1\<lparr>status := RUNNING, num_computed_tokens := hit,
      num_cached_tokens := (if num_cached_tokens r1 < 0 then hit else num_cached_tokens r1)\<rparr>"
  have r1: "status r1 = status ?r" "lora r1 = lora ?r" by (simp_all add: r1_def record_event_def)
  have tr: "touched_request ?r r2"
    unfolding touched_request_def
    by (intro exI [of _ RUNNING] exI [of _ hit] exI [of _ "spec_token_ids ?r"] exI [of _ "num_preemptions ?r"]
        exI [of _ "events r1"] exI [of _ "if num_cached_tokens r1 < 0 then hit else num_cached_tokens r1"])
      (simp add: r2_def r1_def record_event_def)
  note rf = touched_request_fields [OF tr]
  define s' where "s' = set_obj n r2 (s\<lparr>kv := k, waiting_q := w, running := running s @ [n]\<rparr>)"
  define st' where "st' = (if status ?r = WAITING then st\<lparr>st_new := st_new st @ [n]\<rparr> else st\<lparr>st_resumed := st_resumed st @ [n]\<rparr>)
      \<lparr>st_blocks := AList.update ?rid (get_blocks ?rid k) (st_blocks st),
       st_tokens := AList.update ?rid nn (st_tokens st), token_budget := token_budget st - nn\<rparr>"
  have run: "admit_waiting c env hit nn es (s\<lparr>kv := k\<rparr>) st = Inr (s', st')"
  proof -
    have r1': "(if sc_log_stats c then record_event EV_SCHEDULED (env_now env) (objs s (obj_id h)) else objs s (obj_id h)) = r1"
      by (simp add: r1_def h(4))
    have stat1: "status r1 = WAITING \<or> status r1 = PREEMPTED" using stat r1 by simp
    consider "max_loras c = None" | b where "max_loras c = Some b" "lora r1 = None" using pl r1 by (cases "max_loras c") auto
    then show ?thesis
      by (cases; use stat1 in \<open>elim disjE\<close>) (simp_all add: admit_waiting_def Let_def h(1) h(4) [symmetric] r1' r1_def [symmetric] r1(1) [symmetric]
          schedule_encoder_plain es s'_def st'_def r2_def set_obj_def cong: if_cong split del: if_split)
  qed
  have S: "objs s' = (objs s)(n := r2)" "requests s' = requests s" "running s' = running s @ [n]" "waiting_q s' = w" "kv s' = k"
    "prev_step_scheduled_req_ids s' = prev_step_scheduled_req_ids s" by (simp_all add: s'_def set_obj_def)
  have T: "st_tokens st' = AList.update ?rid nn (st_tokens st)" "st_blocks st' = AList.update ?rid (get_blocks ?rid k) (st_blocks st)"
    "token_budget st' = token_budget st - nn" "st_spec st' = st_spec st" "st_enc_inputs st' = st_enc_inputs st"
    "st_preempted st' = st_preempted st"
    "mset (scheduled st') = add_mset n (mset (scheduled st))"
    "st_resumed st' = (if status ?r = WAITING then st_resumed st else st_resumed st @ [n])"
    by (simp_all add: st'_def scheduled_def)
  have m: "mset ((running s @ [n]) @ (waiting_ids w @ waiting_ids sk)) = mset (running s @ ?W)" using h(3) by simp
  have z: "drafts (st_spec st) ?rid = 0" using nd by (simp add: drafts_absent)
  have ru: "running_ok V c (tok (st_tokens st')) (drafts (st_spec st')) k r2"
  proof -
    have "request_ok V c k r2" using ro request_ok_touched [OF tr] request_ok_same [OF k(2)] by blast
    moreover have "num_tokens ?r < v_len V" "0 \<le> num_output_placeholders ?r" using ro by (simp_all add: request_ok_def)
    ultimately show ?thesis using nn k(3) z rf unfolding running_ok_def T(1,4) tok_update Let_def
      by (simp add: r2_def num_tokens_with_spec_def num_tokens_def)
  qed
  have core': "core_inv V c (tok (st_tokens st')) (drafts (st_spec st')) (waiting_ids w @ waiting_ids sk) s'"
  proof (rule core_update [OF core, where n = n and r' = r2])
    show "distinct (running s' @ waiting_ids w @ waiting_ids sk)" using mset_eq_imp_distinct_iff [OF m] d S(3) by simp
    show "set (running s') \<union> set (waiting_ids w @ waiting_ids sk) = set (running s) \<union> set ?W" using mset_eq_setD [OF m] S(3) by simp
    show "running_ok V c (tok (st_tokens st')) (drafts (st_spec st')) (kv s') r2" using ru S(5) by simp
    have "distinct ((running s @ [n]) @ (waiting_ids w @ waiting_ids sk))" using mset_eq_imp_distinct_iff [OF m] d by simp
    then show "n \<in> set (waiting_ids w @ waiting_ids sk) \<Longrightarrow> waiting_ok V c (kv s') r2" by auto
    show "obj_id r2 = n" using rf ids n by (simp add: ids_ok_def)
  qed (use n S T k rf len nr in \<open>auto simp: tok_update\<close>)
  have step': "step_ok c s' st'"
    by (rule step_ok_add [OF st _ nk ns, where s' = s' and k = nn and b = "get_blocks ?rid k"])
      (use S T nn nd dsp rf st in \<open>auto simp: step_ok_def\<close>)
  have pv: "prev_ok (set (waiting_ids w @ waiting_ids sk)) s'"
  proof -
    have "set (waiting_ids w @ waiting_ids sk) \<subseteq> set ?W" using mset_eq_setD [OF h(3) [folded mset.simps(2)]] by auto
    then show ?thesis using prev S rf by (auto simp: prev_ok_def r2_def)
  qed
  have "request_id (objs s' j) \<notin> set (prev_step_scheduled_req_ids s')" if j: "j \<in> set (st_resumed st')" for j
  proof (cases "j = n \<and> status ?r = PREEMPTED")
    case True
    then show ?thesis using prev n S rf by (auto simp: prev_ok_def)
  next
    case False
    then have "j \<in> set (st_resumed st)" using j stat T(8) by (auto split: if_splits)
    then show ?thesis using inv S rf by (auto simp: wait_inv_def)
  qed
  then have "wait_inv c s' st' sk" using core' step' pv inv h(2) S by (simp add: wait_inv_def)
  moreover have "wait_frame s s'" using tr S nr by (auto simp: wait_frame_def sched_frame_def)
  ultimately show ?thesis using run S T by blast
qed

lemma waiting_tokens_ok:
  assumes "0 < budget" and "hit < num_tokens r"
  shows "\<exists>toks. waiting_tokens c budget hit r = Inr toks \<and> (\<forall>k. toks = Some k \<longrightarrow> 0 < k \<and> k \<le> budget \<and> hit + k \<le> num_tokens r)"
  using assms by (auto simp: waiting_tokens_def Let_def)

lemma try_admit_ok:
  assumes inv: "wait_inv c s st sk" and h: "wq_pop (waiting_q s) = Inr (h, w)" "wq_ok (sc_policy c) w"
      "mset (waiting_ids (waiting_q s)) = add_mset n (mset (waiting_ids w))" "n = obj_id h"
    and stat: "status (objs s n) \<in> {WAITING, PREEMPTED}" and len: "length (running s) < max_num_running_reqs c"
    and b: "0 < token_budget st" and cf: "config_ok V c env"
  shows "\<exists>go s' st'. try_admit c env n s st = Some (Inr (go, s', st')) \<and> wait_inv c s' st' sk \<and> wait_frame s s'
    \<and> prev_step_scheduled_req_ids s' = prev_step_scheduled_req_ids s \<and> st_preempted st' = st_preempted st"
proof -
  let ?r = "objs s n" and ?W = "waiting_ids (waiting_q s) @ waiting_ids sk"
  have core: "core_inv V c (tok (st_tokens st)) (drafts (st_spec st)) ?W s" using inv by (simp add: wait_inv_def)
  have n: "n \<in> set (waiting_ids (waiting_q s))" using h(3) by (metis set_mset_mset union_single_eq_member)
  have vok: "v_ok V (kv s)" using core by (simp add: core_inv_def)
  have "waiting_ok V c (kv s) ?r" using core_waiting [OF core] n by simp
  then have r: "v_hashed V (kv s) ?r" "v_absent V (kv s) (request_id ?r)" "num_computed_tokens ?r = 0" "0 < num_tokens ?r"
      "num_tokens ?r \<le> v_len V" and mm: "mm_features ?r = []"
    by (simp_all add: waiting_ok_def request_ok_def plain_request_def)
  have ne: "\<not> has_encoder_inputs ?r" using mm by (simp add: has_encoder_inputs_def)
  obtain kb hit k1 where l: "get_computed_blocks ?r (kv s) = Some (Inr ((kb, hit), k1))" "0 \<le> hit" "hit < num_tokens ?r"
      "v_ok V k1" "v_same V (request_id ?r) (kv s) k1" "v_absent V k1 (request_id ?r)"
    and al: "\<forall>nn. 0 < nn \<and> hit + nn \<le> num_tokens ?r \<longrightarrow>
             (\<exists>res k2. allocate_slots ?r nn hit (Some kb) 0 0 False 0 k1 = Inr (res, k2) \<and> v_ok V k2 \<and> v_same V (request_id ?r) (kv s) k2
               \<and> (if res = None then v_absent V k2 (request_id ?r) else v_cap V k2 (request_id ?r) (hit + nn)))"
    using admit [OF vok r] by blast
  have lk: "lookup_computed ?r s = Some (Inr ((kb, hit, hit), s\<lparr>kv := k1\<rparr>))" using l(1) r(3) by (simp add: lookup_computed_def)
  obtain toks where t: "waiting_tokens c (token_budget st) hit ?r = Inr toks"
    "\<forall>k. toks = Some k \<longrightarrow> 0 < k \<and> k \<le> token_budget st \<and> hit + k \<le> num_tokens ?r"
    using waiting_tokens_ok [OF b l(3)] by blast
  show ?thesis
  proof (cases toks)
    case None
    have "try_admit c env n s st = Some (Inr (False, s\<lparr>kv := k1\<rparr>, st))"
      using lk t(1) None by (simp add: try_admit_def Let_def)
    then show ?thesis using wait_inv_kv [OF inv n l(4-6)] by (auto simp: wait_frame_def sched_frame_def)
  next
    case (Some nn)
    then have nn: "0 < nn" "nn \<le> token_budget st" "hit + nn \<le> num_tokens ?r" using t(2) by simp_all
    obtain res k2 where a: "allocate_slots ?r nn hit (Some kb) 0 0 False 0 k1 = Inr (res, k2)" "v_ok V k2"
      "v_same V (request_id ?r) (kv s) k2"
      "if res = None then v_absent V k2 (request_id ?r) else v_cap V k2 (request_id ?r) (hit + nn)" using al nn by blast
    define es where "es = \<lparr>es_inputs = [], es_tokens = nn, es_budget = st_enc_budget st, es_external = [],
      es_hashes = [], es_embeds = 0, es_cache = enc s\<rparr>"
    have enc: "encoder_inputs c env ?r hit nn (st_enc_budget st) (enc s) = Inr es" using encoder_inputs_plain [OF mm] by (simp add: es_def)
    have es: "es_inputs es = []" "es_external es = []" "es_tokens es = nn" "es_cache es = enc s" by (simp_all add: es_def)
    show ?thesis
    proof (cases res)
      case None
      have "try_admit c env n s st = Some (Inr (False, s\<lparr>kv := k2\<rparr>, st))"
        using lk t(1) Some enc a(1) None ne r(3) es by (simp add: try_admit_def Let_def)
      then show ?thesis using wait_inv_kv [OF inv n a(2,3)] a(4) None by (auto simp: wait_frame_def sched_frame_def)
    next
      case (Some b')
      have cap: "v_cap V k2 (request_id ?r) (hit + nn)" using a(4) Some by simp
      obtain s' st' where ad: "admit_waiting c env hit nn es (s\<lparr>kv := k2\<rparr>) st = Inr (s', st')" "wait_inv c s' st' sk" "wait_frame s s'"
        "prev_step_scheduled_req_ids s' = prev_step_scheduled_req_ids s" "st_preempted st' = st_preempted st"
        using admit_waiting_ok [OF inv h stat len a(2,3) cap l(2) nn es(1,2)] by blast
      have "try_admit c env n s st = Some (Inr (True, s', st'))"
        using lk t(1) \<open>toks = Some nn\<close> enc a(1) Some ne r(3) es ad(1) by (simp add: try_admit_def Let_def)
      then show ?thesis using ad(2-) by blast
    qed
  qed
qed

lemma lora_plain: "waiting_ok V c k r \<Longrightarrow> \<not> lora_full c r st"
  by (auto simp: waiting_ok_def request_ok_def plain_request_def lora_full_def split: option.split)

lemma waiting_step_ok:
  assumes inv: "wait_inv c s st sk" and ne: "wq_requests (waiting_q s) \<noteq> []" and b: "0 < token_budget st" and cf: "config_ok V c env"
  shows "\<exists>go s' st' sk'. waiting_step c env s st sk = Some (Inr (go, s', st', sk')) \<and> wait_inv c s' st' sk' \<and> wait_frame s s'
    \<and> prev_step_scheduled_req_ids s' = prev_step_scheduled_req_ids s \<and> st_preempted st' = st_preempted st"
proof (cases "length (running s) = max_num_running_reqs c")
  case True
  then show ?thesis using inv by (auto simp: waiting_step_def)
next
  case False
  have core: "core_inv V c (tok (st_tokens st)) (drafts (st_spec st)) (waiting_ids (waiting_q s) @ waiting_ids sk) s"
    and wq: "wq_ok (sc_policy c) (waiting_q s)" using inv by (simp_all add: wait_inv_def)
  then have len: "length (running s) < max_num_running_reqs c" using False by (simp add: core_inv_def)
  obtain h w where h: "wq_peek (waiting_q s) = Inr h" "wq_pop (waiting_q s) = Inr (h, w)" "wq_ok (sc_policy c) w"
    "mset (waiting_ids (waiting_q s)) = add_mset (obj_id h) (mset (waiting_ids w))" using wq_nonempty [OF wq ne] by blast
  define n where "n = obj_id h"
  let ?r = "objs s n"
  have n: "n \<in> set (waiting_ids (waiting_q s))" using h(4) by (metis n_def set_mset_mset union_single_eq_member)
  have wok: "waiting_ok V c (kv s) ?r" using core_waiting [OF core] n by simp
  then have stat: "status ?r \<in> {WAITING, WAITING_FOR_FSM, PREEMPTED}" by (simp add: waiting_ok_def)
  show ?thesis
  proof (cases "status ?r = WAITING_FOR_FSM \<and> \<not> (structured_output_request ?r \<noteq> None \<and> env_grammar env ?r)")
    case True
    obtain s' sk' where sk: "skip_waiting s sk = Inr (s', sk')" "wait_inv c s' st sk'" "wait_frame s s'"
      "prev_step_scheduled_req_ids s' = prev_step_scheduled_req_ids s" using skip_waiting_ok [OF inv ne] by blast
    then have "waiting_step c env s st sk = Some (Inr (True, s', st, sk'))"
      using True False h(1) by (simp add: waiting_step_def Let_def n_def)
    then show ?thesis using sk by blast
  next
    case go: False
    define s1 where "s1 = (if status ?r = WAITING_FOR_FSM then set_obj n (?r\<lparr>status := WAITING\<rparr>) s else s)"
    have S: "waiting_q s1 = waiting_q s" "running s1 = running s" "prev_step_scheduled_req_ids s1 = prev_step_scheduled_req_ids s"
      by (simp_all add: s1_def set_obj_def)
    have tw: "touched_request ?r (?r\<lparr>status := WAITING\<rparr>)"
      unfolding touched_request_def
      by (intro exI [of _ WAITING] exI [of _ "num_computed_tokens ?r"] exI [of _ "spec_token_ids ?r"]
          exI [of _ "num_preemptions ?r"] exI [of _ "events ?r"] exI [of _ "num_cached_tokens ?r"]) simp
    have "n \<notin> set (running s)" using core n by (auto simp: core_inv_def)
    with tw have fr: "wait_frame s s1" by (auto simp: wait_frame_def sched_frame_def s1_def set_obj_def)
    have stat1: "status (objs s1 n) \<in> {WAITING, PREEMPTED}" using stat by (auto simp: s1_def set_obj_def)
    have inv1: "wait_inv c s1 st sk"
    proof (cases "status ?r = WAITING_FOR_FSM")
      case True
      let ?r' = "?r\<lparr>status := WAITING\<rparr>" and ?W = "waiting_ids (waiting_q s) @ waiting_ids sk"
      have s1: "s1 = set_obj n ?r' s" using True by (simp add: s1_def)
      have d: "distinct (running s @ ?W)" "obj_id ?r = n" "length (running s) \<le> max_num_running_reqs c"
        using core n by (auto simp: core_inv_def ids_ok_def)
      then have nr: "n \<notin> set (running s)" using n by auto
      have w: "waiting_ok V c (kv s) ?r'" using wok request_ok_touched [OF tw] by (simp add: waiting_ok_def)
      have "core_inv V c (tok (st_tokens st)) (drafts (st_spec st)) ?W s1"
        by (intro core_update [OF core, where n = n and r' = ?r']) (use n nr w d s1 core same_refl in \<open>simp_all add: set_obj_def core_inv_def\<close>)
      then show ?thesis using inv step_ok_cong [of s1 s c st] s1 by (auto simp: wait_inv_def prev_ok_def set_obj_def)
    qed (use inv in \<open>simp add: s1_def\<close>)
    have core1: "core_inv V c (tok (st_tokens st)) (drafts (st_spec st)) (waiting_ids (waiting_q s1) @ waiting_ids sk) s1"
      using inv1 by (simp add: wait_inv_def)
    have nl: "\<not> lora_full c (objs s1 n) st" using core_waiting [OF core1, of n] n S lora_plain by auto
    obtain go s' st' where ad: "try_admit c env n s1 st = Some (Inr (go, s', st'))" "wait_inv c s' st' sk" "wait_frame s1 s'"
      "prev_step_scheduled_req_ids s' = prev_step_scheduled_req_ids s1" "st_preempted st' = st_preempted st"
      using try_admit_ok [OF inv1 _ h(3) _ n_def stat1 _ b cf] h S len n_def by auto
    have "waiting_step c env s st sk = Some (Inr (go, s', st', sk))"
    proof -
      have ns: "status ?r \<noteq> WAITING_FOR_REMOTE_KVS" using stat by auto
      show ?thesis
        by (simp only: waiting_step_def Let_def if_not_P [OF False] h(1) run_bind_simps n_def [symmetric] if_not_P [OF ns]
            if_not_P [OF go] s1_def [symmetric] if_not_P [OF nl] ad(1) prod.case)
    qed
    then show ?thesis using ad S wait_frame_trans [OF fr] by auto
  qed
qed

lemma waiting_loop_ok:
  assumes "wait_inv c s st sk" and "config_ok V c env"
  shows "\<exists>s' st' sk'. waiting_loop c env s st sk = Some (Inr (s', st', sk')) \<and> wait_inv c s' st' sk' \<and> wait_frame s s'
    \<and> prev_step_scheduled_req_ids s' = prev_step_scheduled_req_ids s \<and> st_preempted st' = st_preempted st"
  using assms
proof (induction c env s st sk rule: waiting_loop.induct)
  case (1 c env s st sk)
  show ?case
  proof (cases "0 < wq_size (waiting_q s) \<and> 0 < token_budget st")
    case False
    then show ?thesis using "1.prems" by (subst waiting_loop.simps) auto
  next
    case True
    then obtain go s1 st1 sk1 where r: "waiting_step c env s st sk = Some (Inr (go, s1, st1, sk1))" "wait_inv c s1 st1 sk1" "wait_frame s s1"
      "prev_step_scheduled_req_ids s1 = prev_step_scheduled_req_ids s" "st_preempted st1 = st_preempted st"
      using waiting_step_ok [OF "1.prems"(1) _ _ "1.prems"(2)] by auto
    show ?thesis
    proof (cases go)
      case False
      then show ?thesis using True r by (subst waiting_loop.simps) simp
    next
      case go: True
      obtain s' st' sk' where "waiting_loop c env s1 st1 sk1 = Some (Inr (s', st', sk'))" "wait_inv c s' st' sk'" "wait_frame s1 s'"
        "prev_step_scheduled_req_ids s' = prev_step_scheduled_req_ids s1" "st_preempted st' = st_preempted st1"
        using "1.IH" [OF True r(1) refl refl refl go r(2) "1.prems"(2)] by blast
      then show ?thesis using True r go wait_frame_trans [OF r(3)] by (subst waiting_loop.simps) simp
    qed
  qed
qed

end

end
