(* ===== verification/Sched_Safe.thy ===== *)
theory Sched_Safe
  imports Sched_Step
begin

text \<open>
  The step as a whole: the assertions at the end of \<open>schedule\<close>, the construction of the output, and the
  advance of the computed tokens, composed with the two loops of \<open>Sched_Step\<close>.
\<close>

context kv_contract
begin

text \<open>After the two loops.\<close>

definition done_inv :: "sched_config \<Rightarrow> sched \<Rightarrow> step \<Rightarrow> bool" where
  "done_inv c s st \<longleftrightarrow> core_inv V c (tok (st_tokens st)) (drafts (st_spec st)) (waiting_ids (waiting_q s)) s
     \<and> wq_ok (sc_policy c) (waiting_q s) \<and> step_ok c s st
     \<and> (\<forall>n \<in> set (st_resumed st). request_id (objs s n) \<notin> set (prev_step_scheduled_req_ids s))"

text \<open>The advance of a running request over the two loops.\<close>

definition loops_frame :: "sched \<Rightarrow> sched \<Rightarrow> bool" where
  "loops_frame s s' \<longleftrightarrow> sched_frame s s'
     \<and> (\<forall>n \<in> set (running s) \<inter> set (running s'). num_computed_tokens (objs s' n) = num_computed_tokens (objs s n))"

lemma scheduled_loras_plain:
  assumes "\<And>n. n \<in> set ns \<Longrightarrow> lora (objs s n) = None"
  shows "scheduled_loras s ns = []"
proof -
  have "map (\<lambda>n. case lora (objs s n) of None \<Rightarrow> [] | Some l \<Rightarrow> if 0 < adapter_id l then [adapter_id l] else []) ns = map (\<lambda>_. []) ns"
    using assms by (intro map_cong) simp_all
  then show ?thesis by (simp add: scheduled_loras_def)
qed

lemma collect_loras_ok:
  assumes inv: "loop_inv V c s st"
  shows "\<exists>ls. collect_loras c s st = Inr (st\<lparr>st_loras := ls\<rparr>)"
proof (cases "max_loras c")
  case None
  then show ?thesis by (intro exI [of _ "st_loras st"]) (simp add: collect_loras_def)
next
  case (Some m)
  have "lora (objs s n) = None" if "n \<in> set (st_running st)" for n
  proof -
    have "n \<in> set (scheduled st)" using that by (simp add: scheduled_def)
    then have "n \<in> set (running s)" using inv unfolding loop_inv_def step_ok_def by blast
    then have "running_ok V c (tok (st_tokens st)) (drafts (st_spec st)) (kv s) (objs s n)"
      using inv by (simp add: loop_inv_def core_inv_def)
    then show ?thesis using Some by (simp add: running_ok_def request_ok_def plain_request_def Let_def)
  qed
  then show ?thesis using Some scheduled_loras_plain [of "st_running st" s]
    by (intro exI [of _ "[]"]) (simp add: collect_loras_def)
qed

lemma schedule_requests_ok:
  assumes inv: "sched_inv V c (\<lambda>_. 0) s" and cf: "config_ok V c env"
  shows "\<exists>s' st'. schedule_requests c env s = Some (Inr (s', st')) \<and> done_inv c s' st' \<and> loops_frame s s'"
proof -
  have tz: "tok [] = (\<lambda>_. 0)" "drafts [] = (\<lambda>_. 0)" by (simp_all add: tok_def drafts_def fun_eq_iff)
  have "loop_inv V c s (initial_step c)"
    using inv cf by (simp add: loop_inv_def sched_inv_def initial_step_def step_ok_def scheduled_def tz config_ok_def)
  from running_loop_ok [OF this cf]
  obtain s1 st1 where l: "running_loop c env s (initial_step c) = Inr (s1, st1)" "loop_inv V c s1 st1" "run_frame s (initial_step c) s1 st1" by blast
  obtain ls where ls: "collect_loras c s1 st1 = Inr (st1\<lparr>st_loras := ls\<rparr>)" using collect_loras_ok [OF l(2)] by blast
  define st2 where "st2 = st1\<lparr>st_loras := ls\<rparr>"
  have inv2: "loop_inv V c s1 st2" using l(2) by (simp add: loop_inv_def st2_def)
  show ?thesis
  proof (cases "st_preempted st2 = []")
    case False
    then have "schedule_requests c env s = Some (Inr (s1, st2))" using l(1) ls by (simp add: schedule_requests_def st2_def)
    then show ?thesis using inv2 l(3) by (auto simp: done_inv_def loop_inv_def loops_frame_def run_frame_def)
  next
    case True
    have w0: "wait_inv c s1 st2 (create_request_queue (sc_policy c))"
      using inv2 True by (simp add: wait_inv_def loop_inv_def waiting_ids_def)
    obtain s3 st3 sk where w: "waiting_loop c env s1 st2 (create_request_queue (sc_policy c)) = Some (Inr (s3, st3, sk))"
      "wait_inv c s3 st3 sk" "wait_frame s1 s3" using waiting_loop_ok [OF w0 cf] by blast
    define s4 where "s4 = (if 0 < wq_size sk then s3\<lparr>waiting_q := wq_prepend_requests sk (waiting_q s3)\<rparr> else s3)"
    have run: "schedule_requests c env s = Some (Inr (s4, st3))"
      using l(1) ls w(1) True by (simp add: schedule_requests_def st2_def s4_def)
    have core3: "core_inv V c (tok (st_tokens st3)) (drafts (st_spec st3)) (waiting_ids (waiting_q s3) @ waiting_ids sk) s3"
      and wq3: "wq_ok (sc_policy c) (waiting_q s3)" "wq_ok (sc_policy c) sk" and st3: "step_ok c s3 st3"
      using w(2) by (simp_all add: wait_inv_def)
    have S: "running s4 = running s3" "objs s4 = objs s3" "requests s4 = requests s3" "kv s4 = kv s3"
      "prev_step_scheduled_req_ids s4 = prev_step_scheduled_req_ids s3" by (simp_all add: s4_def)
    have m: "mset (waiting_ids (waiting_q s4)) = mset (waiting_ids (waiting_q s3) @ waiting_ids sk)"
      and wq4: "wq_ok (sc_policy c) (waiting_q s4)"
      using wq_prepend_requests_ok [OF wq3] wq3 by (auto simp: s4_def waiting_ids_def)
    have "core_inv V c (tok (st_tokens st3)) (drafts (st_spec st3)) (waiting_ids (waiting_q s4)) s4"
      using core_fields [OF core3 S(1-4)] core_perm [OF m] by simp
    moreover have "step_ok c s4 st3" using st3 step_ok_cong [of s4 s3 c st3] S by simp
    ultimately have "done_inv c s4 st3" using w(2) S wq4 by (simp add: done_inv_def wait_inv_def)
    moreover have "loops_frame s s4"
    proof -
      have "sched_frame s1 s4" using w(3) S by (simp add: wait_frame_def sched_frame_def)
      then have "sched_frame s s4" using l(3) sched_frame_trans by (auto simp: run_frame_def)
      moreover have "set (running s) \<subseteq> set (running s1)" using l(3) True by (simp add: run_frame_def st2_def)
      ultimately show ?thesis using l(3) w(3) S by (auto simp: loops_frame_def run_frame_def wait_frame_def)
    qed
    ultimately show ?thesis using run by blast
  qed
qed

lemma done_member:
  assumes "done_inv c s st" and "n \<in> set (scheduled st)"
  shows "n \<in> set (running s)" "\<exists>k b. map_of (st_tokens st) (request_id (objs s n)) = Some k \<and> map_of (st_blocks st) (request_id (objs s n)) = Some b"
proof -
  have st: "step_ok c s st" using assms(1) by (simp add: done_inv_def)
  then show "n \<in> set (running s)" using assms(2) unfolding step_ok_def by blast
  have k: "request_id (objs s n) \<in> set (map fst (st_tokens st))" using step_ok_key [OF st assms(2)] by simp
  moreover from k have "request_id (objs s n) \<in> set (map fst (st_blocks st))" using st by (simp add: step_ok_def)
  ultimately show "\<exists>k b. map_of (st_tokens st) (request_id (objs s n)) = Some k \<and> map_of (st_blocks st) (request_id (objs s n)) = Some b"
    by (metis list.set_map map_of_eq_None_iff not_Some_eq)
qed

lemma common_prefix_ok:
  assumes inv: "done_inv c s st"
  shows "\<exists>common. (case running s of [] \<Rightarrow> (replicate (num_kv_cache_groups (kv s)) 0, kv s)
     | n # _ \<Rightarrow> km_get_num_common_prefix_blocks (request_id (objs s n)) (kv s)) = (common, kv s)"
proof (cases "running s")
  case (Cons n ns)
  have core: "core_inv V c (tok (st_tokens st)) (drafts (st_spec st)) (waiting_ids (waiting_q s)) s" using inv by (simp add: done_inv_def)
  then have "running_ok V c (tok (st_tokens st)) (drafts (st_spec st)) (kv s) (objs s n)" "v_ok V (kv s)"
    using Cons by (simp_all add: core_inv_def)
  then have "snd (km_get_num_common_prefix_blocks (request_id (objs s n)) (kv s)) = kv s"
    by (intro prefix) (auto simp: running_ok_def Let_def)
  then show ?thesis using Cons by (auto simp: prod_eq_iff)
qed simp

lemma cached_request_ok:
  assumes inv: "done_inv c s st" and n: "n \<in> set (scheduled st)" and res: "resumed \<longrightarrow> n \<in> set (st_resumed st)"
  shows "\<exists>cr'. cached_request c s st (resumed, n) cr = Inr cr'"
proof -
  obtain k b where kb: "map_of (st_tokens st) (request_id (objs s n)) = Some k" "map_of (st_blocks st) (request_id (objs s n)) = Some b"
    using done_member(2) [OF inv n] by blast
  have "resumed \<longrightarrow> request_id (objs s n) \<notin> set (prev_step_scheduled_req_ids s)" using inv res by (simp add: done_inv_def)
  then show ?thesis using kb by (simp add: cached_request_def Let_def dget_def py_assert_def)
qed

lemma make_output_ok:
  assumes inv: "done_inv c s st"
  shows "\<exists>out s'. make_output c s st = Inr (out, s') \<and> so_num_scheduled_tokens out = st_tokens st
    \<and> so_spec_decode_tokens out = st_spec st \<and> so_total_num_scheduled_tokens out = sum_list (map snd (st_tokens st))
    \<and> (\<exists>e. s' = s\<lparr>enc := e, prev_step_scheduled_req_ids := map fst (st_tokens st)\<rparr>)"
proof -
  have st: "step_ok c s st" using inv by (simp add: done_inv_def)
  have total: "sum_list (map snd (st_tokens st)) \<le> max_num_scheduled_tokens c" "0 \<le> token_budget st"
    using st unfolding step_ok_def by linarith+
  have run: "length (running s) \<le> max_num_running_reqs c" using inv by (simp add: done_inv_def core_inv_def)
  have "length (scheduled st) = card (set (scheduled st))" using st by (simp add: step_ok_def distinct_card)
  also have "\<dots> \<le> card (set (running s))" using st by (intro card_mono) (simp_all add: step_ok_def)
  also have "\<dots> \<le> length (running s)" by (rule card_length)
  finally have cnt: "length (st_new st) + length (st_resumed st) + length (st_running st) \<le> length (running s)"
    by (simp add: scheduled_def)
  obtain common where cm: "(case running s of [] \<Rightarrow> (replicate (num_kv_cache_groups (kv s)) 0, kv s)
     | n # _ \<Rightarrow> km_get_num_common_prefix_blocks (request_id (objs s n)) (kv s)) = (common, kv s)"
    using common_prefix_ok [OF inv] by blast
  define news where "news = (if use_v2_model_runner c then st_new st @ st_resumed st else st_new st)"
  define resumed where "resumed = (if use_v2_model_runner c then [] else st_resumed st)"
  have mem: "set news \<subseteq> set (scheduled st)" "set resumed \<subseteq> set (st_resumed st)" "set (st_resumed st) \<subseteq> set (scheduled st)"
    "set (st_running st) \<subseteq> set (scheduled st)" by (auto simp: news_def resumed_def scheduled_def)
  have "\<exists>acc'. new_request c s st n acc = Inr acc'" if n: "n \<in> set news" for n acc
  proof -
    obtain b where "map_of (st_blocks st) (request_id (objs s n)) = Some b" using done_member(2) [OF inv, of n] n mem by blast
    then show ?thesis by (simp add: new_request_def Let_def dget_def)
  qed
  then obtain new_data where nd: "foldM (new_request c s st) news [] = Inr new_data"
    using foldM_total [of news "\<lambda>_. True" "new_request c s st" "[]"] by blast
  have "\<exists>cr'. cached_request c s st x cr = Inr cr'"
    if x: "x \<in> set (map (Pair False) (st_running st) @ map (Pair True) resumed)" for x cr
  proof -
    obtain b n where bn: "x = (b, n)" by (cases x)
    have "n \<in> set (scheduled st)" "b \<longrightarrow> n \<in> set (st_resumed st)" using x mem by (auto simp: bn)
    then show ?thesis using cached_request_ok [OF inv] by (simp add: bn)
  qed
  then obtain cached_data where cd: "make_cached_request_data c s st (st_running st) resumed = Inr cached_data"
    using foldM_total [of "map (Pair False) (st_running st) @ map (Pair True) resumed" "\<lambda>_. True" "cached_request c s st"
        CachedRequestData_empty] unfolding make_cached_request_data_def by blast
  obtain hashes e where e: "em_get_freed_mm_hashes (enc s) = (hashes, e)" by (cases "em_get_freed_mm_hashes (enc s)")
  have nr: "(if use_v2_model_runner c then (st_new st @ st_resumed st, []) else (st_new st, st_resumed st)) = (news, resumed)"
    by (simp add: news_def resumed_def)
  have kvs: "s\<lparr>kv := kv s\<rparr> = s" by simp
  show ?thesis using total run cnt nd cd e
    by (auto simp add: make_output_def cm nr kvs Let_def)
qed

lemma advance_ok:
  assumes "core_inv V c (tok al) d W s" and "distinct (map fst al)"
    and "\<forall>rid \<in> fst ` set al. \<exists>n \<in> set (running s). request_id (objs s n) = rid"
  shows "\<exists>s'. foldM (advance_request c env) al s = Inr s' \<and> core_inv V c (\<lambda>_. 0) d W s' \<and> sched_frame s s'
    \<and> running s' = running s \<and> waiting_q s' = waiting_q s \<and> kv s' = kv s
    \<and> prev_step_scheduled_req_ids s' = prev_step_scheduled_req_ids s
    \<and> (\<forall>n \<in> set (running s). num_computed_tokens (objs s' n) = num_computed_tokens (objs s n) + tok al (request_id (objs s n)))
    \<and> (\<forall>n. n \<notin> set (running s) \<longrightarrow> objs s' n = objs s n) \<and> (\<forall>n. status (objs s' n) = status (objs s n))"
  using assms
proof (induction al arbitrary: s)
  case Nil
  have "tok [] = (\<lambda>_. 0)" by (simp add: tok_def fun_eq_iff)
  then show ?case using Nil by (simp add: tok_def)
next
  case (Cons p al)
  obtain rid k where p: "p = (rid, k)" by (cases p)
  obtain n where n: "n \<in> set (running s)" "request_id (objs s n) = rid" using Cons.prems(3) p by auto
  let ?r = "objs s n"
  define r' where "r' = ?r\<lparr>num_computed_tokens := num_computed_tokens ?r + k\<rparr>"
  note core = Cons.prems(1)
  have run: "running_ok V c (tok (p # al)) d (kv s) ?r" using core_running [OF core n(1)] .
  have ids: "ids_ok (set (running s) \<union> set W) s" using core by (simp add: core_inv_def)
  have rq: "requests s rid = Some n" "obj_id ?r = n" using ids n by (auto simp: ids_ok_def)
  have ne: "\<not> has_encoder_inputs r'"
    using run by (simp add: running_ok_def request_ok_def plain_request_def has_encoder_inputs_def r'_def Let_def)
  define s1 where "s1 = set_obj n r' s"
  have step: "advance_request c env p s = Inr s1" using rq ne by (simp add: advance_request_def p Let_def r'_def [symmetric] s1_def)
  have S: "objs s1 = (objs s)(n := r')" "requests s1 = requests s" "running s1 = running s" "waiting_q s1 = waiting_q s" "kv s1 = kv s"
    "prev_step_scheduled_req_ids s1 = prev_step_scheduled_req_ids s" by (simp_all add: s1_def set_obj_def)
  have ra: "rid \<notin> set (map fst al)" using Cons.prems(2) p by simp
  have tk: "tok al = (tok (p # al))(rid := 0)" using tok_absent [OF ra] by (auto simp: p tok_def fun_eq_iff)
  have tr: "touched_request ?r r'"
    unfolding touched_request_def r'_def
    by (intro exI [of _ "status ?r"] exI [of _ "num_computed_tokens ?r + k"] exI [of _ "spec_token_ids ?r"]
        exI [of _ "num_preemptions ?r"] exI [of _ "events ?r"] exI [of _ "num_cached_tokens ?r"]) simp
  have k0: "tok (p # al) rid = k" by (simp add: p tok_def)
  have "0 < k \<or> k \<le> 0" by arith
  have run': "running_ok V c (tok al) d (kv s1) r'"
  proof -
    have "request_ok V c (kv s) r'" using run request_ok_touched [OF tr] by (simp add: running_ok_def Let_def)
    then show ?thesis using run n(2) k0 S(5) unfolding running_ok_def Let_def tk
      by (simp add: r'_def num_tokens_with_spec_def num_tokens_def)
  qed
  have d: "distinct (running s @ W)" "length (running s) \<le> max_num_running_reqs c" "v_ok V (kv s)" using core by (simp_all add: core_inv_def)
  then have nw: "n \<notin> set W" using n(1) by auto
  have core1: "core_inv V c (tok al) d W s1"
    by (rule core_update [OF core, where n = n and r' = r']) (use n S d nw run' rq same_refl in \<open>simp_all add: r'_def tk\<close>)
  have keys: "\<forall>rid \<in> fst ` set al. \<exists>n \<in> set (running s1). request_id (objs s1 n) = rid"
    using Cons.prems(3) p S by (auto simp: r'_def)
  obtain s' where s': "foldM (advance_request c env) al s1 = Inr s'" "core_inv V c (\<lambda>_. 0) d W s'" "sched_frame s1 s'"
    "running s' = running s1" "waiting_q s' = waiting_q s1" "kv s' = kv s1"
    "prev_step_scheduled_req_ids s' = prev_step_scheduled_req_ids s1"
    "\<forall>n \<in> set (running s1). num_computed_tokens (objs s' n) = num_computed_tokens (objs s1 n) + tok al (request_id (objs s1 n))"
    "\<forall>n. n \<notin> set (running s1) \<longrightarrow> objs s' n = objs s1 n" "\<forall>n. status (objs s' n) = status (objs s1 n)"
    using Cons.IH [OF core1 _ keys] Cons.prems(2) by auto
  have "num_computed_tokens (objs s' m) = num_computed_tokens (objs s m) + tok (p # al) (request_id (objs s m))"
    if m: "m \<in> set (running s)" for m
  proof (cases "m = n")
    case True
    then show ?thesis using s'(8) m S n(2) k0 tk by (simp add: r'_def)
  next
    case False
    then have "request_id (objs s m) \<noteq> rid" using ids_distinct [OF ids, of n m] n m by auto
    then show ?thesis using s'(8) m S False tk by simp
  qed
  moreover have "sched_frame s s'" using sched_frame_trans [OF _ s'(3), of s] tr S by (simp add: sched_frame_def)
  ultimately show ?case using step s' S n(1) by (auto simp: r'_def)
qed

lemma schedule_ok:
  assumes inv: "sched_inv V c (\<lambda>_. 0) s" and cf: "config_ok V c env"
  shows "\<exists>out s'. schedule c env s = Some (Inr (out, s')) \<and> sched_inv V c (drafts (so_spec_decode_tokens out)) s' \<and> sched_frame s s'
    \<and> so_total_num_scheduled_tokens out = sum_list (map snd (so_num_scheduled_tokens out))
    \<and> so_total_num_scheduled_tokens out \<le> max_num_scheduled_tokens c \<and> distinct (map fst (so_num_scheduled_tokens out))
    \<and> (\<forall>(rid, k) \<in> set (so_num_scheduled_tokens out). 0 < k \<and> (\<exists>n \<in> set (running s'). requests s' rid = Some n))
    \<and> (\<forall>n \<in> set (running s) \<inter> set (running s'). num_computed_tokens (objs s' n) =
         num_computed_tokens (objs s n) + tok (so_num_scheduled_tokens out) (request_id (objs s n)))
    \<and> fst ` set (so_spec_decode_tokens out) \<subseteq> fst ` set (so_num_scheduled_tokens out)
    \<and> distinct (map fst (so_spec_decode_tokens out))"
proof -
  obtain s1 st where l: "schedule_requests c env s = Some (Inr (s1, st))" "done_inv c s1 st" "loops_frame s s1"
    using schedule_requests_ok [OF inv cf] by blast
  obtain out s2 e where o: "make_output c s1 st = Inr (out, s2)" "so_num_scheduled_tokens out = st_tokens st"
      "so_spec_decode_tokens out = st_spec st" "so_total_num_scheduled_tokens out = sum_list (map snd (st_tokens st))"
    and s2: "s2 = s1\<lparr>enc := e, prev_step_scheduled_req_ids := map fst (st_tokens st)\<rparr>"
    using make_output_ok [OF l(2)] by blast
  have core: "core_inv V c (tok (st_tokens st)) (drafts (st_spec st)) (waiting_ids (waiting_q s1)) s1" and st: "step_ok c s1 st"
    and wq: "wq_ok (sc_policy c) (waiting_q s1)" using l(2) by (simp_all add: done_inv_def)
  have ids: "ids_ok (set (running s1) \<union> set (waiting_ids (waiting_q s1))) s1" and dis: "distinct (running s1 @ waiting_ids (waiting_q s1))"
    using core by (simp_all add: core_inv_def)
  have keys: "fst ` set (st_tokens st) = (\<lambda>n. request_id (objs s1 n)) ` set (scheduled st)" and sub: "set (scheduled st) \<subseteq> set (running s1)"
    and dk: "distinct (map fst (st_tokens st))" and pos: "\<forall>(rid, k) \<in> set (st_tokens st). 0 < k"
    and tot: "sum_list (map snd (st_tokens st)) \<le> max_num_scheduled_tokens c"
    and spk: "fst ` set (st_spec st) \<subseteq> fst ` set (st_tokens st)" "distinct (map fst (st_spec st))"
    using st unfolding step_ok_def set_map by linarith+
  have core2: "core_inv V c (tok (st_tokens st)) (drafts (st_spec st)) (waiting_ids (waiting_q s1)) s2"
    using core_fields [OF core, of s2] s2 by simp
  have ka: "\<forall>rid \<in> fst ` set (st_tokens st). \<exists>n \<in> set (running s2). request_id (objs s2 n) = rid" using keys sub s2 by auto
  obtain s3 where a: "foldM (advance_request c env) (st_tokens st) s2 = Inr s3"
      "core_inv V c (\<lambda>_. 0) (drafts (st_spec st)) (waiting_ids (waiting_q s1)) s3" "sched_frame s2 s3"
      "running s3 = running s2" "waiting_q s3 = waiting_q s2" "prev_step_scheduled_req_ids s3 = prev_step_scheduled_req_ids s2"
      "\<forall>n \<in> set (running s2). num_computed_tokens (objs s3 n) = num_computed_tokens (objs s2 n) + tok (st_tokens st) (request_id (objs s2 n))"
    using advance_ok [OF core2 dk ka] by blast
  define s4 where "s4 = s3\<lparr>finished_req_ids := []\<rparr>"
  have run: "schedule c env s = Some (Inr (out, s4))" using l(1) o(1,2) a(1) by (simp add: schedule_def update_after_schedule_def s4_def)
  have fr1: "sched_frame s1 s4" using a(3) s2 by (simp add: s4_def sched_frame_def)
  have fr: "sched_frame s s4" using l(3) sched_frame_trans [OF _ fr1] by (simp add: loops_frame_def)
  have S: "running s4 = running s1" "waiting_q s4 = waiting_q s1" "prev_step_scheduled_req_ids s4 = map fst (st_tokens st)"
    "requests s4 = requests s1" "requests s1 = requests s" using a s2 fr1 l(3) by (simp_all add: s4_def sched_frame_def loops_frame_def)
  have rid4: "request_id (objs s4 n) = request_id (objs s1 n)" for n
    using fr1 touched_request_fields(1) by (simp add: sched_frame_def)
  have core4: "core_inv V c (\<lambda>_. 0) (drafts (st_spec st)) (waiting_ids (waiting_q s4)) s4"
    using core_fields [OF a(2), of s4] S by (simp add: s4_def)
  have "prev_ok (set (waiting_ids (waiting_q s4))) s4"
    unfolding prev_ok_def
  proof (intro ballI impI)
    fix n assume n: "n \<in> set (waiting_ids (waiting_q s4))"
    then have "n \<notin> set (scheduled st)" using sub dis S by auto
    then have "request_id (objs s1 n) \<notin> fst ` set (st_tokens st)" by (intro step_ok_unscheduled [OF st ids]) (use n S in auto)
    then show "request_id (objs s4 n) \<notin> set (prev_step_scheduled_req_ids s4)" using S rid4 by simp
  qed
  then have "sched_inv V c (drafts (so_spec_decode_tokens out)) s4" using core4 wq S o(3) by (simp add: sched_inv_def)
  moreover have "\<exists>n \<in> set (running s4). requests s4 rid = Some n" if "(rid, k) \<in> set (st_tokens st)" for rid k
  proof -
    have "rid \<in> fst ` set (st_tokens st)" using that by force
    then obtain n where "n \<in> set (running s1)" "rid = request_id (objs s1 n)" using keys sub by auto
    then show ?thesis using ids S by (auto simp: ids_ok_def)
  qed
  moreover have "num_computed_tokens (objs s4 n) = num_computed_tokens (objs s n) + tok (st_tokens st) (request_id (objs s n))"
    if n: "n \<in> set (running s) \<inter> set (running s4)" for n
  proof -
    have "num_computed_tokens (objs s1 n) = num_computed_tokens (objs s n)" "request_id (objs s1 n) = request_id (objs s n)"
      using n l(3) S touched_request_fields(1) by (auto simp: loops_frame_def sched_frame_def)
    then show ?thesis using a(7) n S s2 by (simp add: s4_def)
  qed
  ultimately show ?thesis using run fr o dk pos tot spk by auto
qed

end

end
