(* ===== verification/Sched_Tokens.thy ===== *)
theory Sched_Tokens
  imports Sched_Update
begin

text \<open>
  What a request does with the tokens the model sampled for it: \<open>_update_request_with_output\<close> appends them
  one by one and stops at the first that ends the request.  The specification \<open>ends_at\<close> says which token
  that is.
\<close>

section \<open>The token that ends a request\<close>

definition ends_at :: "request \<Rightarrow> int \<Rightarrow> int list \<Rightarrow> nat \<Rightarrow> bool" where
  "ends_at r M toks i \<longleftrightarrow> (case sampling r of
     None \<Rightarrow> False
   | Some sp \<Rightarrow>
       let k = int i + 1; t = toks ! i in
       sp_min_tokens sp \<le> num_output_tokens r + k
       \<and> (\<not> sp_ignore_eos sp \<and> Some t = eos_token_id r
          \<or> t \<in> set (case sp_stop_token_ids sp of None \<Rightarrow> [] | Some ts \<Rightarrow> ts)
          \<or> M \<le> num_tokens r + k \<or> max_tokens r \<le> num_output_tokens r + k))"

text \<open>The request after appending \<open>toks\<close>.\<close>

definition extended :: "request \<Rightarrow> int list \<Rightarrow> request \<Rightarrow> bool" where
  "extended r toks r' \<longleftrightarrow> (\<exists>bh st sr. r' = r\<lparr>output_token_ids := output_token_ids r @ toks, all_token_ids := all_token_ids r @ toks,
     block_hashes := bh, status := st, stop_reason := sr\<rparr>)"

lemma extended_refl: "extended r [] r"
  unfolding extended_def by (intro exI [of _ "block_hashes r"] exI [of _ "status r"] exI [of _ "stop_reason r"]) simp

lemma extended_trans: "extended r ts r1 \<Longrightarrow> extended r1 us r2 \<Longrightarrow> extended r (ts @ us) r2"
  unfolding extended_def by (elim exE) (intro exI, simp)

lemma append_output_extended:
  "append_output_token_ids hasher ts r = Inr r1 \<Longrightarrow> extended r ts r1 \<and> status r1 = status r"
proof (cases hasher)
  case None
  assume "append_output_token_ids hasher ts r = Inr r1"
  then have "r1 = r\<lparr>output_token_ids := output_token_ids r @ ts, all_token_ids := all_token_ids r @ ts,
      block_hashes := block_hashes r, status := status r, stop_reason := stop_reason r\<rparr>"
    using None by (auto simp: append_output_token_ids_def Let_def)
  then show ?thesis unfolding extended_def by fastforce
next
  case (Some f)
  assume "append_output_token_ids hasher ts r = Inr r1"
  then obtain bhs where "r1 = r\<lparr>output_token_ids := output_token_ids r @ ts, all_token_ids := all_token_ids r @ ts,
      block_hashes := block_hashes r @ bhs, status := status r, stop_reason := stop_reason r\<rparr>"
    using Some by (auto simp: append_output_token_ids_def Let_def)
  then show ?thesis unfolding extended_def by fastforce
qed

lemma check_stop_ends:
  assumes "pooling r = None" and "sampling r = Some sp" and e: "extended r [t] r1"
  shows "\<exists>r2. check_stop r1 M = Inr (ends_at r M (t # ts) 0, r2) \<and> extended r1 [] r2
    \<and> (if ends_at r M (t # ts) 0 then is_finished r2 else r2 = r1)"
proof -
  have r1: "pooling r1 = None" "sampling r1 = Some sp" "output_token_ids r1 = output_token_ids r @ [t]"
    "num_output_tokens r1 = num_output_tokens r + 1" "num_tokens r1 = num_tokens r + 1" "eos_token_id r1 = eos_token_id r"
    "max_tokens r1 = max_tokens r"
    using assms by (auto simp: extended_def num_output_tokens_def num_tokens_def)
  have py: "py_index (output_token_ids r1) (-1) = Inr t" using r1(3) by simp
  let ?st = "\<lambda>st. extended r1 [] (r1\<lparr>status := st\<rparr>)" and ?ts = "\<lambda>st u. extended r1 [] (r1\<lparr>status := st, stop_reason := u\<rparr>)"
  have ex: "?st st" "?ts st u" for st u
    unfolding extended_def
    by (intro exI [of _ "block_hashes r1"] exI [of _ st] exI [of _ "stop_reason r1"], simp)
      (intro exI [of _ "block_hashes r1"] exI [of _ st] exI [of _ u], simp)
  have "ends_at r M (t # ts) 0 \<longleftrightarrow> sp_min_tokens sp \<le> num_output_tokens r + 1
      \<and> (\<not> sp_ignore_eos sp \<and> Some t = eos_token_id r \<or> t \<in> set (case sp_stop_token_ids sp of None \<Rightarrow> [] | Some ts \<Rightarrow> ts)
         \<or> M \<le> num_tokens r + 1 \<or> max_tokens r \<le> num_output_tokens r + 1)"
    using assms(2) by (simp add: ends_at_def Let_def)
  then show ?thesis
    using ex extended_refl [of r1] unfolding check_stop_def py_assert_def r1(1,2,4,5,6,7) option.case py rbind.simps
    by (auto simp: is_finished_def status_is_finished_def)
qed

lemma ends_at_shift:
  assumes "extended r [t] r1"
  shows "ends_at r M (t # ts) (Suc i) = ends_at r1 M ts i"
proof -
  have "sampling r1 = sampling r" "num_output_tokens r1 = num_output_tokens r + 1" "num_tokens r1 = num_tokens r + 1"
    "eos_token_id r1 = eos_token_id r" "max_tokens r1 = max_tokens r"
    using assms by (auto simp: extended_def num_output_tokens_def num_tokens_def)
  then show ?thesis by (simp add: ends_at_def Let_def add.commute add.left_commute cong: option.case_cong)
qed

lemma append_tokens_ok:
  assumes hash: "\<And>r t. Q r \<Longrightarrow> \<exists>r'. append_output_token_ids hasher [t] r = Inr r' \<and> Q r'"
    and stable: "\<And>r r'. Q r \<Longrightarrow> extended r [] r' \<Longrightarrow> block_hashes r' = block_hashes r \<Longrightarrow> Q r'"
    and r: "Q r" "toks \<noteq> [] \<longrightarrow> pooling r = None \<and> sampling r \<noteq> None"
  shows "\<exists>n b r'. append_tokens hasher M toks r = Inr ((take n toks, b), r') \<and> Q r' \<and> extended r (take n toks) r'
    \<and> n \<le> length toks \<and> (if b then 0 < n \<and> ends_at r M toks (n - 1) \<and> is_finished r' else n = length toks \<and> status r' = status r)
    \<and> (\<forall>i < n. i \<noteq> n - 1 \<or> \<not> b \<longrightarrow> \<not> ends_at r M toks i)"
  using r
proof (induction toks arbitrary: r)
  case Nil
  then show ?case using extended_refl by (intro exI [of _ 0] exI [of _ False]) simp
next
  case (Cons t ts)
  obtain sp where sp: "sampling r = Some sp" "pooling r = None" using Cons.prems(2) by auto
  obtain r1 where r1: "append_output_token_ids hasher [t] r = Inr r1" "Q r1" using hash [OF Cons.prems(1)] by blast
  have e1: "extended r [t] r1" "status r1 = status r" using append_output_extended [OF r1(1)] by simp_all
  obtain r2 where r2: "check_stop r1 M = Inr (ends_at r M (t # ts) 0, r2)" "extended r1 [] r2"
    "if ends_at r M (t # ts) 0 then is_finished r2 else r2 = r1"
    using check_stop_ends [OF sp(2,1) e1(1)] by blast
  show ?case
  proof (cases "ends_at r M (t # ts) 0")
    case True
    have "block_hashes r2 = block_hashes r1" using r2(1) by (cases rule: check_stop_cases [OF r2(1)]) simp_all
    then have "Q r2" using stable [OF r1(2) r2(2)] by simp
    moreover have "extended r [t] r2" using extended_trans [OF e1(1) r2(2)] by simp
    ultimately show ?thesis using r1(1) r2 True
      by (intro exI [of _ 1] exI [of _ True] exI [of _ r2]) simp
  next
    case False
    then have r2': "r2 = r1" using r2(3) by simp
    have "ts \<noteq> [] \<longrightarrow> pooling r1 = None \<and> sampling r1 \<noteq> None" using sp e1(1) by (auto simp: extended_def)
    from Cons.IH [OF r1(2) this] obtain n b r' where ih: "append_tokens hasher M ts r1 = Inr ((take n ts, b), r')" "Q r'"
      "extended r1 (take n ts) r'" "n \<le> length ts"
      "if b then 0 < n \<and> ends_at r1 M ts (n - 1) \<and> is_finished r' else n = length ts \<and> status r' = status r1"
      "\<forall>i < n. i \<noteq> n - 1 \<or> \<not> b \<longrightarrow> \<not> ends_at r1 M ts i" by blast
    have app: "append_tokens hasher M (t # ts) r = Inr ((take (Suc n) (t # ts), b), r')" using r1(1) r2(1) r2' False ih(1) by simp
    have ext: "extended r (take (Suc n) (t # ts)) r'" using extended_trans [OF e1(1) ih(3)] by simp
    have st: "if b then 0 < Suc n \<and> ends_at r M (t # ts) (Suc n - 1) \<and> is_finished r' else Suc n = length (t # ts) \<and> status r' = status r"
      using ih(5) e1(2) ends_at_shift [OF e1(1), of M ts "n - 1"] by (cases n) (auto split: if_splits)
    have "\<forall>i < Suc n. i \<noteq> Suc n - 1 \<or> \<not> b \<longrightarrow> \<not> ends_at r M (t # ts) i"
    proof (intro allI impI)
      fix i assume i: "i < Suc n" "i \<noteq> Suc n - 1 \<or> \<not> b"
      show "\<not> ends_at r M (t # ts) i"
      proof (cases i)
        case (Suc j)
        then have "\<not> ends_at r1 M ts j" using i ih(6) by (cases n) auto
        then show ?thesis using Suc ends_at_shift [OF e1(1)] by simp
      qed (use False in simp)
    qed
    then show ?thesis using app ih(2,4) ext st by (intro exI [of _ "Suc n"] exI [of _ b] exI [of _ r']) simp
  qed
qed

text \<open>C25: a request stops at the right token.  Of the sampled tokens exactly the prefix up to the first token that
  ends the request is appended (the end of sequence, a stop token, the length of the model or the maximum
  number of tokens, none of them below the minimum number); the request is finished iff there is such a token,
  and the block hashes stay those of its whole token sequence.\<close>

theorem append_tokens_stops:
  assumes "hashes_ok H nh bs r" and "mm_features r = []" and "0 < bs" and "\<And>x. H x \<noteq> []"
    and "pooling r = None" and "sampling r \<noteq> None"
  shows "\<exists>k stopped r'. append_tokens (Some (request_block_hasher H nh bs)) M toks r = Inr ((take k toks, stopped), r')
    \<and> k \<le> length toks \<and> output_token_ids r' = output_token_ids r @ take k toks \<and> all_token_ids r' = all_token_ids r @ take k toks
    \<and> hashes_ok H nh bs r'
    \<and> (stopped \<longleftrightarrow> (\<exists>i < length toks. ends_at r M toks i)) \<and> (\<forall>i < length toks. ends_at r M toks i \<longrightarrow> k \<le> Suc i)
    \<and> (if stopped then 0 < k \<and> ends_at r M toks (k - 1) \<and> is_finished r' else k = length toks \<and> status r' = status r)"
proof -
  let ?h = "Some (request_block_hasher H nh bs)" and ?Q = "\<lambda>r. hashes_ok H nh bs r \<and> mm_features r = []"
  have hash: "\<exists>r'. append_output_token_ids ?h [t] r = Inr r' \<and> ?Q r'" if Q: "?Q r" for r t
  proof -
    obtain r' where r': "append_output_token_ids ?h [t] r = Inr r'" "hashes_ok H nh bs r'"
      using append_output_token_ids_hashes [of H nh bs r "[t]"] Q assms(3,4) by blast
    then show ?thesis using append_output_extended [OF r'(1)] Q by (auto simp: extended_def)
  qed
  have stable: "?Q r'" if Q: "?Q r" "extended r [] r'" "block_hashes r' = block_hashes r" for r r'
  proof -
    have "all_token_ids r' = all_token_ids r" "text_keys r' = text_keys r" "mm_features r' = mm_features r"
      using Q(2) text_keys_cong [of r' r] by (auto simp: extended_def)
    then show ?thesis using Q by (simp add: hashes_ok_def)
  qed
  have "\<exists>n b r'. append_tokens ?h M toks r = Inr ((take n toks, b), r') \<and> ?Q r' \<and> extended r (take n toks) r'
      \<and> n \<le> length toks \<and> (if b then 0 < n \<and> ends_at r M toks (n - 1) \<and> is_finished r' else n = length toks \<and> status r' = status r)
      \<and> (\<forall>i < n. i \<noteq> n - 1 \<or> \<not> b \<longrightarrow> \<not> ends_at r M toks i)"
  proof (rule append_tokens_ok [where Q = ?Q])
    show "?Q r" using assms(1,2) by simp
  qed (use hash stable assms(5,6) in blast)+
  then obtain n b r' where a: "append_tokens ?h M toks r = Inr ((take n toks, b), r')" "?Q r'" "extended r (take n toks) r'" "n \<le> length toks"
    "if b then 0 < n \<and> ends_at r M toks (n - 1) \<and> is_finished r' else n = length toks \<and> status r' = status r"
    "\<forall>i < n. i \<noteq> n - 1 \<or> \<not> b \<longrightarrow> \<not> ends_at r M toks i" by blast
  have "b \<longleftrightarrow> (\<exists>i < length toks. ends_at r M toks i)"
  proof (cases b)
    case True
    then have "n - 1 < length toks" "ends_at r M toks (n - 1)" using a(4,5) by auto
    then show ?thesis using True by blast
  qed (use a(5,6) in auto)
  moreover have "n \<le> Suc i" if "i < length toks" "ends_at r M toks i" for i
  proof (rule ccontr)
    assume "\<not> n \<le> Suc i"
    then have "i < n" "i \<noteq> n - 1" by simp_all
    then show False using a(6) that(2) by blast
  qed
  moreover have "output_token_ids r' = output_token_ids r @ take n toks" "all_token_ids r' = all_token_ids r @ take n toks"
    using a(3) by (auto simp: extended_def)
  ultimately show ?thesis using a(1,2,4,5) by blast
qed

theorem append_tokens_stops_witness:
  "\<exists>r'. append_tokens (Some (request_block_hasher plain_hash [0] 2)) 100 [9, 2, 8] (sample_hashed [5, 6, 7]) = Inr (([9, 2], True), r')
    \<and> all_token_ids r' = [5, 6, 7, 9, 2] \<and> hashes_ok plain_hash [0] 2 r' \<and> is_finished r'"
proof -
  let ?r = "sample_hashed [5, 6, 7]"
  have r: "mm_features ?r = []" "pooling ?r = None" "sampling ?r \<noteq> None" "all_token_ids ?r = [5, 6, 7]"
    by (simp_all add: sample_hashed_def sample_request_def)
  have H: "plain_hash x \<noteq> []" for x using plain_hash_ideal unfolding hash_ideal_def by blast
  have e: "\<not> ends_at ?r 100 [9, 2, 8] 0" "ends_at ?r 100 [9, 2, 8] 1"
    by (simp_all add: ends_at_def sample_hashed_def sample_request_def num_tokens_def num_output_tokens_def)
  have "0 < (2::nat)" by simp
  have l3: "length [9, 2, 8 :: int] = 3" by simp
  from append_tokens_stops [OF sample_hashed_ok r(1) \<open>0 < 2\<close> H r(2,3), of 100 "[9, 2, 8]", unfolded l3]
  obtain k b r' where k: "append_tokens (Some (request_block_hasher plain_hash [0] 2)) 100 [9, 2, 8] ?r = Inr ((take k [9, 2, 8], b), r')"
    "k \<le> 3" "all_token_ids r' = all_token_ids ?r @ take k [9, 2, 8]" "hashes_ok plain_hash [0] 2 r'"
    "b \<longleftrightarrow> (\<exists>i < 3. ends_at ?r 100 [9, 2, 8] i)" "\<forall>i < 3. ends_at ?r 100 [9, 2, 8] i \<longrightarrow> k \<le> Suc i"
    "if b then 0 < k \<and> ends_at ?r 100 [9, 2, 8] (k - 1) \<and> is_finished r' else k = 3 \<and> status r' = status ?r"
    by blast
  have b: "b" using k(5) e(2) by (auto intro: exI [of _ 1])
  have "k \<le> 2" using k(6) e(2) by (auto dest: spec [of _ 1])
  moreover have "k \<noteq> 1" "0 < k" using k(7) b e(1) by auto
  ultimately have "k = 2" by linarith
  then have "append_tokens (Some (request_block_hasher plain_hash [0] 2)) 100 [9, 2, 8] ?r = Inr (([9, 2], True), r')"
    "all_token_ids r' = [5, 6, 7, 9, 2]" "is_finished r'"
    using k(1,3,7) b r(4) by (simp_all del: append_tokens.simps)
  then show ?thesis using k(4) by blast
qed

end
