(* ===== verification/Sched_Life.thy ===== *)
theory Sched_Life
  imports Sched_Safe Sched_Tokens
begin

text \<open>
  The operations between two steps and the invariant: adding and finishing requests, the output of the model,
  new drafts, and the reset of the prefix cache.  While requests are being removed one by one, the queues
  still hold them or have lost all of them; the invariant is then stated for the state with the queue
  \<open>R\<close> of the requests that are still known.
\<close>

section \<open>Queues\<close>

lemma wq_remove_requests_ok:
  assumes "wq_ok policy w"
  shows "wq_ok policy (wq_remove_requests rs w)"
    "mset (waiting_ids (wq_remove_requests rs w)) = mset (filter (\<lambda>m. m \<notin> obj_id ` set rs) (waiting_ids w))"
proof -
  have m: "map obj_id (without rs q) = filter (\<lambda>m. m \<notin> obj_id ` set rs) (map obj_id q)" for q
    unfolding without_def filter_map by (rule arg_cong [where f = "map obj_id"], rule filter_cong) (auto simp: list_ex_iff same_object_def)
  have h: "heap_from request_lt 0 (heapify request_lt q)" "mset (heapify request_lt q) = mset q" for q
    using rq.heapify_heap [of q] by simp_all
  show "wq_ok policy (wq_remove_requests rs w)"
    using assms h by (cases w) (simp_all add: prio_remove_requests_def)
  show "mset (waiting_ids (wq_remove_requests rs w)) = mset (filter (\<lambda>m. m \<notin> obj_id ` set rs) (waiting_ids w))"
  proof (cases w)
    case (FCFSRequestQueue q)
    then show ?thesis using m [of q] by (simp add: waiting_ids_def fcfs_remove_requests_def)
  next
    case (PriorityRequestQueue q)
    have "mset (map obj_id (heapify request_lt (without rs q))) = mset (map obj_id (without rs q))" using h(2) by (simp only: mset_map)
    then show ?thesis using PriorityRequestQueue m [of q] by (simp add: waiting_ids_def prio_remove_requests_def)
  qed
qed

lemma wq_add_ids: "wq_ok policy w \<Longrightarrow> wq_ok policy (wq_add r w) \<and> mset (waiting_ids (wq_add r w)) = add_mset (obj_id r) (mset (waiting_ids w))"
  using wq.add [of policy w r] by (simp add: waiting_ids_def)

section \<open>Requests come and go\<close>

context kv_contract
begin

lemma same_all:
  assumes "\<forall>rid. v_same V rid k k'"
  shows "v_cap V k' rid n = v_cap V k rid n" "v_absent V k' rid = v_absent V k rid" "v_hashed V k' r = v_hashed V k r"
    "v_hasher V k' = v_hasher V k"
proof -
  have "v_same V (CHR ''x'' # rid) k k'" using assms by blast
  from same_other [OF this, of rid] same_hashed [OF this]
  show "v_cap V k' rid n = v_cap V k rid n" "v_absent V k' rid = v_absent V k rid" "v_hashed V k' r = v_hashed V k r"
    "v_hasher V k' = v_hasher V k" by simp_all
qed

text \<open>What a request is, apart from the progress of its computation.\<close>

lemma request_ok_cong:
  assumes "request_ok V c k r"
    and "all_token_ids r' = all_token_ids r" "output_token_ids r' = output_token_ids r" "num_prompt_tokens r' = num_prompt_tokens r"
      "block_hashes r' = block_hashes r" "lora r' = lora r" "cache_salt r' = cache_salt r" "prompt_embeds r' = prompt_embeds r"
      "mm_features r' = mm_features r" "pooling r' = pooling r" "sampling r' = sampling r" "0 \<le> num_output_placeholders r'"
  shows "request_ok V c k r'"
proof -
  have "num_tokens r' = num_tokens r" "num_output_tokens r' = num_output_tokens r"
    using assms(2,3) by (simp_all add: num_tokens_def num_output_tokens_def)
  then show ?thesis using assms hashed_cong [of r' r k] by (simp add: request_ok_def plain_request_def generation_ok_def)
qed

lemma core_kv:
  assumes core: "core_inv V c tk d W s" and k: "v_ok V k" "\<forall>rid. v_same V rid (kv s) k"
  shows "core_inv V c tk d W (s\<lparr>kv := k\<rparr>)"
  using core k(1) same_all [OF k(2)]
  by (simp add: core_inv_def ids_ok_def running_ok_def waiting_ok_def request_ok_def Let_def)

text \<open>The drafts of a request that is not running do not matter.\<close>

lemma core_drafts:
  assumes "core_inv V c tk d W s" and "\<And>n. n \<in> set (running s) \<Longrightarrow> d' (request_id (objs s n)) = d (request_id (objs s n))"
  shows "core_inv V c tk d' W s"
  using assms by (simp add: core_inv_def running_ok_def Let_def)

lemma core_dead:
  assumes "core_inv V c tk d W s" and "n \<notin> set (running s) \<union> set W"
  shows "core_inv V c tk d W (set_obj n r s)"
proof -
  have "objs (set_obj n r s) m = objs s m" if "m \<in> set (running s) \<union> set W" for m
    using that assms(2) by (auto simp: set_obj_def)
  moreover have "running (set_obj n r s) = running s" "requests (set_obj n r s) = requests s" "kv (set_obj n r s) = kv s"
    by (simp_all add: set_obj_def)
  moreover have "ids_ok (set (running s) \<union> set W) (set_obj n r s)"
    using assms calculation by (fastforce simp: core_inv_def ids_ok_def)
  ultimately show ?thesis using assms(1) by (simp add: core_inv_def)
qed

text \<open>A change of one request in place.\<close>

lemma core_set:
  assumes core: "core_inv V c tk d W s" and n: "n \<in> set (running s)" and r: "request_id r = request_id (objs s n)" "obj_id r = n"
    and d: "\<And>x. x \<noteq> request_id r \<Longrightarrow> d' x = d x" and ok: "running_ok V c tk d' (kv s) r"
  shows "core_inv V c tk d' W (set_obj n r s)"
proof -
  have c: "distinct (running s @ W)" "length (running s) \<le> max_num_running_reqs c" "v_ok V (kv s)" using core by (simp_all add: core_inv_def)
  then have "n \<notin> set W" using n by auto
  then show ?thesis
    by (intro core_update [OF core, where n = n and r' = r]) (use n r d ok c same_refl in \<open>simp_all add: set_obj_def\<close>)
qed

lemma core_add:
  assumes core: "core_inv V c tk d W s" and n: "n \<notin> set (running s) \<union> set W" "requests s (request_id r) = None" "obj_id r = n"
    and s': "objs s' = (objs s)(n := r)" "requests s' = (requests s)(request_id r \<mapsto> n)" "kv s' = kv s" "running s' = running s"
    and r: "waiting_ok V c (kv s) r"
  shows "core_inv V c tk d (n # W) s'"
proof -
  have ids: "ids_ok (set (running s) \<union> set W) s" using core by (simp add: core_inv_def)
  have o: "objs s' m = objs s m" if "m \<in> set (running s) \<union> set W" for m using that n s'(1) by auto
  have "request_id (objs s m) \<noteq> request_id r" if "m \<in> set (running s) \<union> set W" for m
  proof -
    have "requests s (request_id (objs s m)) = Some m" using that ids by (simp add: ids_ok_def)
    then show ?thesis using n(2) by auto
  qed
  then have "ids_ok (set (running s') \<union> set (n # W)) s'"
    using ids n s' o unfolding ids_ok_def by (auto simp: fun_upd_apply)
  then show ?thesis using core n(1) s' r o by (auto simp: core_inv_def)
qed

lemma core_remove:
  assumes core: "core_inv V c tk d W s" and n: "n \<in> set (running s) \<union> set W" and rid: "rid = request_id (objs s n)"
    and s': "\<And>m. m \<noteq> n \<Longrightarrow> objs s' m = objs s m" "requests s' = (requests s)(rid := None)" "v_ok V (kv s')"
      "v_same V rid (kv s) (kv s')" "v_absent V (kv s') rid" "running s' = filter (\<lambda>m. m \<noteq> n) (running s)"
    and d: "\<And>x. x \<noteq> rid \<Longrightarrow> d' x = d x"
  shows "core_inv V c tk d' (filter (\<lambda>m. m \<noteq> n) W) s'"
proof -
  let ?live = "set (running s) \<union> set W"
  have ids: "ids_ok ?live s" using core by (simp add: core_inv_def)
  have live: "set (running s') \<union> set (filter (\<lambda>m. m \<noteq> n) W) = ?live - {n}" using s'(6) by auto
  have other: "request_id (objs s m) \<noteq> rid" if "m \<in> ?live - {n}" for m using ids_distinct [OF ids n, of m] that rid by auto
  have "ids_ok (?live - {n}) s'" using ids other s'(1,2) rid by (fastforce simp: ids_ok_def)
  moreover have "running_ok V c tk d' (kv s') (objs s' m)" if m: "m \<in> set (running s')" for m
    using m other [of m] s'(1,6) core running_ok_other [OF s'(4), of "objs s m" tk tk d' d c] d by (simp add: core_inv_def)
  moreover have "waiting_ok V c (kv s') (objs s' m)" if m: "m \<in> set (filter (\<lambda>m. m \<noteq> n) W)" for m
    using m other [of m] s'(1) core waiting_ok_other [OF s'(4), of "objs s m" c] by (simp add: core_inv_def)
  moreover have "v_absent V (kv s') x" if x: "requests s' x = None" for x
    using x s'(2,5) core same_other [OF s'(4), of x] by (cases "x = rid") (simp_all add: core_inv_def)
  moreover have "distinct (running s' @ filter (\<lambda>m. m \<noteq> n) W)" "length (running s') \<le> max_num_running_reqs c"
    using core s'(6) by (auto simp: core_inv_def intro: order_trans [OF length_filter_le])
  ultimately show ?thesis using s'(3) live by (simp add: core_inv_def)
qed

section \<open>Adding a request\<close>

lemma add_request_ok:
  assumes inv: "sched_inv V c d s" and r: "request_ok V c (kv s) r" "status r \<in> {WAITING, WAITING_FOR_FSM}" "num_computed_tokens r = 0"
    and new: "requests s (request_id r) = None" "obj_id r \<notin> set (running s) \<union> set (waiting_ids (waiting_q s))"
  shows "sched_inv V c d (add_request c now r s)" "requests (add_request c now r s) = (requests s)(request_id r \<mapsto> obj_id r)"
proof -
  let ?n = "obj_id r" and ?s = "add_request c now r s"
  define r' where "r' = (if sc_log_stats c then record_event EV_QUEUED now r else r)"
  have same: "request_id r' = request_id r" "obj_id r' = obj_id r" "status r' = status r" "num_computed_tokens r' = num_computed_tokens r"
    "request_ok V c (kv s) r' = request_ok V c (kv s) r"
    using hashed_cong [of "record_event EV_QUEUED now r" r "kv s"]
    by (auto simp: r'_def record_event_def request_ok_def plain_request_def generation_ok_def num_tokens_def num_output_tokens_def)
  have core: "core_inv V c (\<lambda>_. 0) d (waiting_ids (waiting_q s)) s" and wq: "wq_ok (sc_policy c) (waiting_q s)"
    and prev: "prev_ok (set (waiting_ids (waiting_q s))) s" using inv by (simp_all add: sched_inv_def)
  have S: "objs ?s = (objs s)(?n := r')" "requests ?s = (requests s)(request_id r' \<mapsto> ?n)" "kv ?s = kv s" "running ?s = running s"
    "waiting_q ?s = wq_add r (waiting_q s)" "prev_step_scheduled_req_ids ?s = prev_step_scheduled_req_ids s"
    by (simp_all add: add_request_def Let_def set_obj_def r'_def record_event_def)
  have "waiting_ok V c (kv s) r'"
    using r same new(1) core by (auto simp: waiting_ok_def core_inv_def)
  from core_add [OF core _ _ _ S(1-4) this] new same
  have "core_inv V c (\<lambda>_. 0) d (?n # waiting_ids (waiting_q s)) ?s" by simp
  moreover have m: "wq_ok (sc_policy c) (waiting_q ?s)" "mset (waiting_ids (waiting_q ?s)) = mset (?n # waiting_ids (waiting_q s))"
    using wq_add_ids [OF wq, of r] S(5) by simp_all
  moreover have "prev_ok (set (waiting_ids (waiting_q ?s))) ?s"
    using mset_eq_setD [OF m(2)] prev new(2) r(2) same S by (auto simp: prev_ok_def)
  ultimately show "sched_inv V c d ?s" using core_perm [OF m(2)] by (simp add: sched_inv_def)
  show "requests ?s = (requests s)(request_id r \<mapsto> ?n)" using S(2) same by simp
qed

section \<open>Freeing and finishing\<close>

lemma sched_free_request_ok:
  assumes core: "core_inv V c tk d W (s\<lparr>running := R\<rparr>)" and n: "n \<in> set R \<union> set W"
    and r: "is_finished r" "request_id r = request_id (objs s n)" "mm_features r = []" and ord: "env_order env [] = []"
    and d: "\<And>x. x \<noteq> request_id r \<Longrightarrow> d' x = d x"
  shows "\<exists>s'. sched_free_request env r (set_obj n r s) = Inr s'
    \<and> core_inv V c tk d' (filter (\<lambda>m. m \<noteq> n) W) (s'\<lparr>running := filter (\<lambda>m. m \<noteq> n) R\<rparr>)
    \<and> objs s' = (objs s)(n := r) \<and> requests s' = (requests s)(request_id r := None) \<and> running s' = running s
    \<and> waiting_q s' = waiting_q s \<and> prev_step_scheduled_req_ids s' = prev_step_scheduled_req_ids s
    \<and> v_hasher V (kv s') = v_hasher V (kv s)"
proof -
  have ok: "v_ok V (kv s)" and rq: "requests s (request_id r) = Some n" using core n r(2) by (simp_all add: core_inv_def ids_ok_def)
  obtain k where k: "free r (kv s) = Inr k" "v_ok V k" "v_same V (request_id r) (kv s) k" "v_absent V k (request_id r)"
    using free [OF ok, of r] by blast
  obtain f fd where run: "sched_free_request env r (set_obj n r s) = Inr (s\<lparr>objs := (objs s)(n := r), finished_req_ids := f,
      finished_req_ids_dict := fd, kv := k, requests := (requests s)(request_id r := None)\<rparr>)"
    using k(1) r ord rq by (auto simp: sched_free_request_def free_blocks_of_def Let_def set_obj_def)
  let ?s = "s\<lparr>objs := (objs s)(n := r), finished_req_ids := f, finished_req_ids_dict := fd, kv := k,
    requests := (requests s)(request_id r := None)\<rparr>"
  have "core_inv V c tk d' (filter (\<lambda>m. m \<noteq> n) W) (?s\<lparr>running := filter (\<lambda>m. m \<noteq> n) R\<rparr>)"
    by (rule core_remove [OF core, where rid = "request_id r"]) (use n k r d in simp_all)
  then show ?thesis using run same_hashed [OF k(3)] by (intro exI [of _ ?s]) simp
qed

lemma filter_filter_insert: "filter (\<lambda>m. m \<notin> A) (filter (\<lambda>m. m \<noteq> n) xs) = filter (\<lambda>m. m \<notin> insert n A) xs"
  by (simp add: conj_commute)

lemma finish_loop_ok:
  assumes "core_inv V c tk d W (s\<lparr>running := R\<rparr>)" and "distinct ns" and "set ns \<subseteq> set R \<union> set W"
    and st: "status_is_finished st" and ord: "env_order env [] = []"
  shows "\<exists>s'. foldM (finish_one env st) ns s = Inr s'
    \<and> core_inv V c tk d (filter (\<lambda>m. m \<notin> set ns) W) (s'\<lparr>running := filter (\<lambda>m. m \<notin> set ns) R\<rparr>)
    \<and> (\<forall>m. m \<notin> set ns \<longrightarrow> objs s' m = objs s m) \<and> (\<forall>m. request_id (objs s' m) = request_id (objs s m))
    \<and> (\<forall>rid. requests s' rid = (if \<exists>n \<in> set ns. request_id (objs s n) = rid then None else requests s rid))
    \<and> running s' = running s \<and> waiting_q s' = waiting_q s \<and> prev_step_scheduled_req_ids s' = prev_step_scheduled_req_ids s"
  using assms(1-3)
proof (induction ns arbitrary: s R W)
  case Nil
  then show ?case by simp
next
  case (Cons n ns)
  let ?r = "(objs s n)\<lparr>status := st\<rparr>"
  have n: "n \<in> set R \<union> set W" using Cons.prems(3) by simp
  have "request_ok V c (kv s) (objs s n)" using Cons.prems(1) n by (auto simp: core_inv_def running_ok_def waiting_ok_def Let_def)
  then have r: "is_finished ?r" "request_id ?r = request_id (objs s n)" "mm_features ?r = []"
    using st by (simp_all add: is_finished_def request_ok_def plain_request_def)
  obtain s1 where s1: "sched_free_request env ?r (set_obj n ?r s) = Inr s1"
    "core_inv V c tk d (filter (\<lambda>m. m \<noteq> n) W) (s1\<lparr>running := filter (\<lambda>m. m \<noteq> n) R\<rparr>)"
    "objs s1 = (objs s)(n := ?r)" "requests s1 = (requests s)(request_id ?r := None)" "running s1 = running s"
    "waiting_q s1 = waiting_q s" "prev_step_scheduled_req_ids s1 = prev_step_scheduled_req_ids s"
    using sched_free_request_ok [OF Cons.prems(1) n r ord refl] by blast
  have one: "finish_one env st n s = Inr s1" using s1(1) by (simp add: finish_one_def Let_def)
  have sub: "distinct ns" "set ns \<subseteq> set (filter (\<lambda>m. m \<noteq> n) R) \<union> set (filter (\<lambda>m. m \<noteq> n) W)"
    using Cons.prems(2,3) by auto
  obtain s' where s': "foldM (finish_one env st) ns s1 = Inr s'"
    "core_inv V c tk d (filter (\<lambda>m. m \<notin> set ns) (filter (\<lambda>m. m \<noteq> n) W)) (s'\<lparr>running := filter (\<lambda>m. m \<notin> set ns) (filter (\<lambda>m. m \<noteq> n) R)\<rparr>)"
    "\<forall>m. m \<notin> set ns \<longrightarrow> objs s' m = objs s1 m" "\<forall>m. request_id (objs s' m) = request_id (objs s1 m)"
    "\<forall>rid. requests s' rid = (if \<exists>n \<in> set ns. request_id (objs s1 n) = rid then None else requests s1 rid)"
    "running s' = running s1" "waiting_q s' = waiting_q s1" "prev_step_scheduled_req_ids s' = prev_step_scheduled_req_ids s1"
    using Cons.IH [OF s1(2) sub] by blast
  have rid: "request_id (objs s1 m) = request_id (objs s m)" for m using s1(3) by simp
  have "requests s' rid = (if \<exists>n \<in> set (n # ns). request_id (objs s n) = rid then None else requests s rid)" for rid
    using s'(5) s1(4) rid by auto
  moreover have "\<forall>m. m \<notin> set (n # ns) \<longrightarrow> objs s' m = objs s m" using s'(3) s1(3) by simp
  moreover have "core_inv V c tk d (filter (\<lambda>m. m \<notin> set (n # ns)) W) (s'\<lparr>running := filter (\<lambda>m. m \<notin> set (n # ns)) R\<rparr>)"
    using s'(2) unfolding filter_filter_insert by simp
  moreover have "foldM (finish_one env st) (n # ns) s = Inr s'" using one s'(1) by simp
  ultimately show ?case using s'(4,6-8) s1(5-7) rid by (intro exI [of _ s']) presburger
qed

lemma live_status:
  assumes "core_inv V c tk d W s" and "n \<in> set (running s) \<union> set W"
  shows "\<not> is_finished (objs s n)" "n \<in> set (running s) \<longleftrightarrow> status (objs s n) = RUNNING"
proof -
  have "n \<in> set (running s) \<Longrightarrow> status (objs s n) = RUNNING" "n \<in> set W \<Longrightarrow> status (objs s n) \<in> {WAITING, WAITING_FOR_FSM, PREEMPTED}"
    using assms(1) by (simp_all add: core_inv_def running_ok_def waiting_ok_def Let_def)
  then show "\<not> is_finished (objs s n)" "n \<in> set (running s) \<longleftrightarrow> status (objs s n) = RUNNING"
    using assms(2) by (auto simp: is_finished_def status_is_finished_def)
qed

lemma valid_requests_ok:
  assumes core: "core_inv V c tk d W s" and ids: "distinct rids"
  shows "distinct (valid_requests s rids)" "set (valid_requests s rids) \<subseteq> set (running s) \<union> set W"
    "n \<in> set (valid_requests s rids) \<longleftrightarrow> (\<exists>rid \<in> set rids. requests s rid = Some n)"
proof -
  let ?f = "\<lambda>rid. case requests s rid of None \<Rightarrow> [] | Some n \<Rightarrow> if is_finished (objs s n) then [] else [n]"
  have io: "ids_ok (set (running s) \<union> set W) s" using core by (simp add: core_inv_def)
  have live: "n \<in> set (running s) \<union> set W" "\<not> is_finished (objs s n)" "request_id (objs s n) = rid" if "requests s rid = Some n" for rid n
    using that io live_status(1) [OF core, of n] by (auto simp: ids_ok_def)
  then have f: "?f rid = (case requests s rid of None \<Rightarrow> [] | Some n \<Rightarrow> [n])" for rid by (simp split: option.split)
  have v: "valid_requests s rids = concat (map (\<lambda>rid. case requests s rid of None \<Rightarrow> [] | Some n \<Rightarrow> [n]) rids)"
    unfolding valid_requests_def f ..
  show mem: "n \<in> set (valid_requests s rids) \<longleftrightarrow> (\<exists>rid \<in> set rids. requests s rid = Some n)" for n
  proof -
    have "n \<in> set (case requests s rid of None \<Rightarrow> [] | Some n \<Rightarrow> [n]) \<longleftrightarrow> requests s rid = Some n" for rid
      by (cases "requests s rid") auto
    then show ?thesis unfolding v by simp
  qed
  then show "set (valid_requests s rids) \<subseteq> set (running s) \<union> set W" using live(1) by blast
  have inj: "x = y" if "requests s x = Some n" "requests s y = Some n" for x y n using live(3) [OF that(1)] live(3) [OF that(2)] by simp
  show "distinct (valid_requests s rids)" using ids unfolding v
  proof (induction rids)
    case (Cons a rids)
    show ?case
    proof (cases "requests s a")
      case (Some n)
      have "n \<notin> set (concat (map (\<lambda>rid. case requests s rid of None \<Rightarrow> [] | Some n \<Rightarrow> [n]) rids))"
      proof
        assume "n \<in> set (concat (map (\<lambda>rid. case requests s rid of None \<Rightarrow> [] | Some n \<Rightarrow> [n]) rids))"
        then obtain x where x: "x \<in> set rids" "n \<in> set (case requests s x of None \<Rightarrow> [] | Some n \<Rightarrow> [n])" by auto
        then have "requests s x = Some n" by (cases "requests s x") simp_all
        then show False using inj [OF Some, of x] x(1) Cons.prems by auto
      qed
      then show ?thesis using Cons Some by simp
    qed (use Cons in simp)
  qed simp
qed

lemma finish_requests_ok:
  assumes inv: "sched_inv V c d s" and st: "status_is_finished st" and ord: "env_order env [] = []" and ids: "distinct rids"
  shows "\<exists>s'. finish_requests env rids st s = Inr s' \<and> sched_inv V c d s'
    \<and> (\<forall>rid. requests s' rid = (if rid \<in> set rids then None else requests s rid))
    \<and> (\<forall>rid n. requests s' rid = Some n \<longrightarrow> objs s' n = objs s n)
    \<and> running s' = filter (\<lambda>n. request_id (objs s n) \<notin> set rids) (running s)"
proof -
  let ?W = "waiting_ids (waiting_q s)" and ?v = "valid_requests s rids"
  have core: "core_inv V c (\<lambda>_. 0) d ?W s" and wq: "wq_ok (sc_policy c) (waiting_q s)" and prev: "prev_ok (set ?W) s"
    using inv by (simp_all add: sched_inv_def)
  have io: "ids_ok (set (running s) \<union> set ?W) s" and dr: "distinct (running s)" using core by (simp_all add: core_inv_def)
  note v = valid_requests_ok [OF core ids]
  define run where "run = filter (\<lambda>n. status (objs s n) = RUNNING) ?v"
  define wait where "wait = filter (\<lambda>n. status (objs s n) \<noteq> RUNNING) ?v"
  define s1 where "s1 = (if run \<noteq> [] then s\<lparr>running := remove_all (running s) run\<rparr> else s)"
  define s2 where "s2 = (if wait \<noteq> [] then s1\<lparr>waiting_q := wq_remove_requests (map (objs s) wait) (waiting_q s1)\<rparr> else s1)"
  have status: "n \<in> set (running s) \<longleftrightarrow> status (objs s n) = RUNNING" if "n \<in> set ?v" for n
    using that v(2) live_status(2) [OF core, of n] by blast
  have cut: "filter (\<lambda>x. x \<notin> set run) (running s) = filter (\<lambda>x. x \<notin> set ?v) (running s)"
    by (rule filter_cong [OF refl]) (use status in \<open>auto simp: run_def\<close>)
  have S2: "running s2 = filter (\<lambda>x. x \<notin> set ?v) (running s)" "objs s2 = objs s" "requests s2 = requests s" "kv s2 = kv s"
    "prev_step_scheduled_req_ids s2 = prev_step_scheduled_req_ids s"
    using remove_all_filter [OF dr, of run] cut by (auto simp: s2_def s1_def)
  have wid: "obj_id ` set (map (objs s) wait) = set wait"
  proof -
    have "obj_id (objs s n) = n" if "n \<in> set wait" for n using that v(2) io by (auto simp: wait_def ids_ok_def)
    then show ?thesis by (auto simp: image_iff)
  qed
  have "filter (\<lambda>x. x \<notin> set wait) ?W = filter (\<lambda>x. x \<notin> set ?v) ?W"
  proof (rule filter_cong [OF refl])
    fix x assume "x \<in> set ?W"
    then have "x \<notin> set (running s)" using core by (auto simp: core_inv_def)
    then show "(x \<notin> set wait) = (x \<notin> set ?v)" using status by (auto simp: wait_def)
  qed
  then have W2: "wq_ok (sc_policy c) (waiting_q s2)" "mset (waiting_ids (waiting_q s2)) = mset (filter (\<lambda>x. x \<notin> set ?v) ?W)"
    using wq_remove_requests_ok [OF wq, of "map (objs s) wait"] wq wid by (cases "wait = []"; simp add: s2_def s1_def)+
  have core2: "core_inv V c (\<lambda>_. 0) d ?W (s2\<lparr>running := running s\<rparr>)" using core_fields [OF core] S2 by simp
  obtain s' where s': "foldM (finish_one env st) ?v s2 = Inr s'"
    "core_inv V c (\<lambda>_. 0) d (filter (\<lambda>m. m \<notin> set ?v) ?W) (s'\<lparr>running := filter (\<lambda>m. m \<notin> set ?v) (running s)\<rparr>)"
    "\<forall>m. m \<notin> set ?v \<longrightarrow> objs s' m = objs s2 m"
    "\<forall>rid. requests s' rid = (if \<exists>n \<in> set ?v. request_id (objs s2 n) = rid then None else requests s2 rid)"
    "running s' = running s2" "waiting_q s' = waiting_q s2" "prev_step_scheduled_req_ids s' = prev_step_scheduled_req_ids s2"
    using finish_loop_ok [OF core2 v(1,2) st ord] by blast
  have fin: "finish_requests env rids st s = Inr s'"
    using st s'(1) unfolding finish_requests_def Let_def run_def [symmetric] wait_def [symmetric]
    by (simp only: s1_def [symmetric] s2_def [symmetric] py_assert_def if_True)
  have "s'\<lparr>running := filter (\<lambda>m. m \<notin> set ?v) (running s)\<rparr> = s'" using s'(5) S2(1) by simp
  then have "core_inv V c (\<lambda>_. 0) d (waiting_ids (waiting_q s')) s'" using s'(2,6) core_perm [OF W2(2)] by simp
  moreover have "prev_ok (set (waiting_ids (waiting_q s'))) s'"
    using prev mset_eq_setD [OF W2(2)] s'(3,6,7) S2 by (auto simp: prev_ok_def)
  ultimately have inv': "sched_inv V c d s'" using W2(1) s'(6) by (simp add: sched_inv_def)
  have vr: "n \<in> set ?v \<longleftrightarrow> request_id (objs s n) \<in> set rids" if "requests s (request_id (objs s n)) = Some n" for n
  proof
    assume "n \<in> set ?v"
    then obtain rid where "rid \<in> set rids" "requests s rid = Some n" using v(3) by blast
    then show "request_id (objs s n) \<in> set rids" using io by (auto simp: ids_ok_def)
  qed (use v(3) that in blast)
  have rq: "requests s' rid = (if rid \<in> set rids then None else requests s rid)" for rid
  proof (cases "requests s rid")
    case None
    then show ?thesis using s'(4) S2 by simp
  next
    case (Some n)
    then have r: "request_id (objs s n) = rid" using io by (auto simp: ids_ok_def)
    have "(\<exists>m \<in> set ?v. request_id (objs s m) = rid) \<longleftrightarrow> rid \<in> set rids"
    proof
      assume "\<exists>m \<in> set ?v. request_id (objs s m) = rid"
      then obtain m where m: "m \<in> set ?v" "request_id (objs s m) = rid" by blast
      then obtain x where "x \<in> set rids" "requests s x = Some m" using v(3) by blast
      then show "rid \<in> set rids" using m(2) io by (auto simp: ids_ok_def)
    next
      assume "rid \<in> set rids"
      then show "\<exists>m \<in> set ?v. request_id (objs s m) = rid" using Some r v(3) by blast
    qed
    then show ?thesis using s'(4) S2 by simp
  qed
  have "objs s' n = objs s n" if q: "requests s' rid = Some n" for rid n
  proof -
    have r: "requests s rid = Some n" "rid \<notin> set rids" using q rq by (auto split: if_splits)
    then have "request_id (objs s n) = rid" using io by (auto simp: ids_ok_def)
    then have "n \<notin> set ?v" using vr r by simp
    then show ?thesis using s'(3) S2 by simp
  qed
  moreover have "running s' = filter (\<lambda>n. request_id (objs s n) \<notin> set rids) (running s)"
  proof -
    have "filter (\<lambda>x. x \<notin> set ?v) (running s) = filter (\<lambda>n. request_id (objs s n) \<notin> set rids) (running s)"
    proof (rule filter_cong [OF refl])
      fix x assume "x \<in> set (running s)"
      then have "requests s (request_id (objs s x)) = Some x" using io by (simp add: ids_ok_def)
      then show "(x \<notin> set ?v) = (request_id (objs s x) \<notin> set rids)" using vr by simp
    qed
    then show ?thesis using s'(5) S2 by simp
  qed
  ultimately show ?thesis using fin inv' rq by blast
qed

section \<open>Resetting the prefix cache\<close>

lemma preempt_last_ok:
  assumes core: "core_inv V c (\<lambda>_. 0) d (waiting_ids (waiting_q s)) s" and wq: "wq_ok (sc_policy c) (waiting_q s)"
    and run: "running s = R @ [n]" and ord: "env_order env [] = []"
  shows "\<exists>s'. preempt_last c env n s = Inr s' \<and> core_inv V c (\<lambda>_. 0) d (waiting_ids (waiting_q s')) s'
    \<and> wq_ok (sc_policy c) (waiting_q s') \<and> running s' = R \<and> requests s' = requests s
    \<and> (\<forall>m. num_output_placeholders (objs s' m) = 0 \<or> objs s' m = objs s m)"
proof -
  let ?r = "objs s n" and ?W = "waiting_ids (waiting_q s)"
  have n: "n \<in> set (running s)" using run by simp
  have ok: "running_ok V c (\<lambda>_. 0) d (kv s) ?r" using core_running [OF core n] .
  have rq: "request_ok V c (kv s) ?r" "status ?r = RUNNING" "mm_features ?r = []"
    using ok by (simp_all add: running_ok_def request_ok_def plain_request_def Let_def)
  define s0 where "s0 = s\<lparr>running := R\<rparr>"
  have "v_ok V (kv s0)" "status (objs s0 n) = RUNNING" "mm_features (objs s0 n) = []" using core rq by (simp_all add: s0_def core_inv_def)
  from preempt_request_ok [OF this ord, of c]
  obtain k r where p: "preempt_request c env n s0 = Inr (set_obj n r (s0\<lparr>kv := k, waiting_q := wq_prepend r (waiting_q s0)\<rparr>))"
    "v_ok V k" "v_same V (request_id ?r) (kv s) k" "v_absent V k (request_id ?r)" "touched_request ?r r" "status r = PREEMPTED"
    "num_computed_tokens r = 0" by (auto simp: s0_def)
  define r' where "r' = r\<lparr>num_output_placeholders := 0, discard_latest_async_tokens := True\<rparr>"
  define s' where "s' = s0\<lparr>objs := (objs s)(n := r'), kv := k, waiting_q := wq_prepend r (waiting_q s)\<rparr>"
  have step: "preempt_last c env n s = Inr s'"
    using p(1) run by (simp add: preempt_last_def s0_def s'_def r'_def set_obj_def)
  have rid: "obj_id ?r = n" "request_id r = request_id ?r" "obj_id r = n"
    using core n touched_request_fields(1,2) [OF p(5)] by (simp_all add: core_inv_def ids_ok_def)
  have m: "wq_ok (sc_policy c) (waiting_q s')" "mset (waiting_ids (waiting_q s')) = mset (n # ?W)"
    using wq.prepend [OF wq, of r] waiting_ids_prepend [OF wq, of r] rid by (simp_all add: s'_def)
  have d: "distinct (R @ n # ?W)" using core run by (auto simp: core_inv_def)
  have "distinct (R @ waiting_ids (waiting_q s'))"
    using d mset_eq_setD [OF m(2)] mset_eq_imp_distinct_iff [OF m(2)] by auto
  moreover have "waiting_ok V c k r'"
  proof -
    have "request_ok V c k r" using rq(1) request_ok_touched [OF p(5)] request_ok_same [OF p(3)] by simp
    then have "request_ok V c k r'" by (rule request_ok_cong) (simp_all add: r'_def)
    then show ?thesis using p(4,6,7) rid by (simp add: waiting_ok_def r'_def)
  qed
  ultimately have "core_inv V c (\<lambda>_. 0) d (waiting_ids (waiting_q s')) s'"
    by (intro core_update [OF core, where n = n and r' = r'])
      (use n p rid mset_eq_setD [OF m(2)] d core run in \<open>auto simp: s'_def r'_def s0_def core_inv_def\<close>)
  then show ?thesis using step m(1) by (intro exI [of _ s']) (auto simp: s'_def s0_def r'_def)
qed

lemma preempt_all_ok:
  assumes "core_inv V c (\<lambda>_. 0) d (waiting_ids (waiting_q s)) s" and "wq_ok (sc_policy c) (waiting_q s)" and ord: "env_order env [] = []"
  shows "\<exists>s'. foldM (preempt_last c env) (rev (running s)) s = Inr s' \<and> core_inv V c (\<lambda>_. 0) d (waiting_ids (waiting_q s')) s'
    \<and> wq_ok (sc_policy c) (waiting_q s') \<and> running s' = [] \<and> requests s' = requests s
    \<and> (\<forall>m. num_output_placeholders (objs s' m) = 0 \<or> objs s' m = objs s m)"
  using assms(1,2)
proof (induction "running s" arbitrary: s rule: rev_induct)
  case Nil
  then show ?case by simp
next
  case (snoc n R)
  obtain s1 where s1: "preempt_last c env n s = Inr s1" "core_inv V c (\<lambda>_. 0) d (waiting_ids (waiting_q s1)) s1"
    "wq_ok (sc_policy c) (waiting_q s1)" "running s1 = R" "requests s1 = requests s"
    "\<forall>m. num_output_placeholders (objs s1 m) = 0 \<or> objs s1 m = objs s m"
    using preempt_last_ok [OF snoc.prems snoc.hyps(2) [symmetric] ord] by blast
  obtain s' where s': "foldM (preempt_last c env) (rev (running s1)) s1 = Inr s'" "core_inv V c (\<lambda>_. 0) d (waiting_ids (waiting_q s')) s'"
    "wq_ok (sc_policy c) (waiting_q s')" "running s' = []" "requests s' = requests s1"
    "\<forall>m. num_output_placeholders (objs s' m) = 0 \<or> objs s' m = objs s1 m"
    using snoc.hyps(1) [OF s1(4) [symmetric] s1(2,3)] by blast
  have "rev (running s) = n # rev (running s1)" using snoc.hyps(2) [symmetric] s1(4) by simp
  then have "foldM (preempt_last c env) (rev (running s)) s = Inr s'" using s1(1) s'(1) by simp
  moreover have "num_output_placeholders (objs s' m) = 0 \<or> objs s' m = objs s m" for m using s1(6) s'(6) by metis
  ultimately show ?case using s'(2-5) s1(5) by (intro exI [of _ s']) simp
qed

lemma reset_prefix_cache_sched_ok:
  assumes inv: "sched_inv V c (\<lambda>_. 0) s" and ord: "env_order env [] = []"
  shows "\<exists>b s'. reset_prefix_cache_sched c env rr conn s = Inr (b, s') \<and> sched_inv V c (\<lambda>_. 0) s' \<and> requests s' = requests s
    \<and> (\<forall>m. num_output_placeholders (objs s' m) = 0 \<or> objs s' m = objs s m)
    \<and> (rr \<longrightarrow> b = (\<not> conn) \<and> running s' = [])"
proof -
  have core: "core_inv V c (\<lambda>_. 0) (\<lambda>_. 0) (waiting_ids (waiting_q s)) s" and wq: "wq_ok (sc_policy c) (waiting_q s)"
    and prev: "prev_ok (set (waiting_ids (waiting_q s))) s" using inv by (simp_all add: sched_inv_def)
  define pre where "pre = (if rr then rbind (foldM (preempt_last c env) (rev (running s)) s) (\<lambda>s1. Inr (s1\<lparr>prev_step_scheduled_req_ids := []\<rparr>))
            else Inr s)"
  have "\<exists>s1. pre = Inr s1 \<and> sched_inv V c (\<lambda>_. 0) s1 \<and> requests s1 = requests s
    \<and> (\<forall>m. num_output_placeholders (objs s1 m) = 0 \<or> objs s1 m = objs s m) \<and> (rr \<longrightarrow> running s1 = [])"
  proof (cases rr)
    case False
    then show ?thesis using inv by (simp add: pre_def)
  next
    case True
    obtain s1 where s1: "foldM (preempt_last c env) (rev (running s)) s = Inr s1"
      "core_inv V c (\<lambda>_. 0) (\<lambda>_. 0) (waiting_ids (waiting_q s1)) s1" "wq_ok (sc_policy c) (waiting_q s1)" "running s1 = []"
      "requests s1 = requests s" "\<forall>m. num_output_placeholders (objs s1 m) = 0 \<or> objs s1 m = objs s m"
      using preempt_all_ok [OF core wq ord] by blast
    have "sched_inv V c (\<lambda>_. 0) (s1\<lparr>prev_step_scheduled_req_ids := []\<rparr>)"
      using core_fields [OF s1(2), of "s1\<lparr>prev_step_scheduled_req_ids := []\<rparr>"] s1(3) by (simp add: sched_inv_def prev_ok_def)
    then show ?thesis using True s1 by (simp add: pre_def)
  qed
  then obtain s1 where s1: "pre = Inr s1" "sched_inv V c (\<lambda>_. 0) s1" "requests s1 = requests s"
    "\<forall>m. num_output_placeholders (objs s1 m) = 0 \<or> objs s1 m = objs s m" "rr \<longrightarrow> running s1 = []" by blast
  have core1: "core_inv V c (\<lambda>_. 0) (\<lambda>_. 0) (waiting_ids (waiting_q s1)) s1" using s1(2) by (simp add: sched_inv_def)
  then have "v_ok V (kv s1)" by (simp add: core_inv_def)
  from reset [OF this] obtain b k where k: "km_reset_prefix_cache (kv s1) = Inr (b, k)" "v_ok V k" "\<forall>rid. v_same V rid (kv s1) k"
    "(\<forall>rid. v_absent V (kv s1) rid) \<longrightarrow> b" by blast
  have "sched_inv V c (\<lambda>_. 0) (s1\<lparr>kv := k\<rparr>)" using s1(2) core_kv [OF core1 k(2,3)] by (simp add: sched_inv_def prev_ok_def)
  moreover have b: "b" if rr
  proof -
    have "v_absent V (kv s1) rid" for rid
    proof (cases "requests s1 rid")
      case (Some n)
      then have "n \<in> set (waiting_ids (waiting_q s1))" "request_id (objs s1 n) = rid"
        using core1 s1(5) that by (auto simp: core_inv_def ids_ok_def)
      then show ?thesis using core1 by (auto simp: core_inv_def waiting_ok_def)
    qed (use core1 in \<open>simp add: core_inv_def\<close>)
    then show ?thesis using k(4) by simp
  qed
  moreover have "reset_prefix_cache_sched c env rr conn s = Inr (b \<and> \<not> conn, s1\<lparr>kv := k\<rparr>)"
    using s1(1) k(1) b unfolding reset_prefix_cache_sched_def pre_def [symmetric] by auto
  ultimately show ?thesis using s1(3-5) by (intro exI [of _ "b \<and> \<not> conn"] exI [of _ "s1\<lparr>kv := k\<rparr>"]) simp
qed

section \<open>Drafts\<close>

lemma update_drafts_ok:
  assumes inv: "sched_inv V c d s"
  shows "sched_inv V c d (update_draft_token_ids validate ds s)" "requests (update_draft_token_ids validate ds s) = requests s"
    "sched_frame s (update_draft_token_ids validate ds s)"
proof -
  let ?P = "\<lambda>s'. sched_inv V c d s' \<and> requests s' = requests s \<and> sched_frame s s'"
  have step: "?P (update_draft validate p s1)" if P: "?P s1" for p s1
  proof (cases "\<exists>n. requests s1 (fst p) = Some n \<and> \<not> is_finished (objs s1 n)")
    case False
    then have "update_draft validate p s1 = s1" by (cases p) (auto simp: update_draft_def split: option.splits)
    then show ?thesis using P by simp
  next
    case True
    then obtain n where n: "requests s1 (fst p) = Some n" "\<not> is_finished (objs s1 n)" by blast
    let ?W = "waiting_ids (waiting_q s1)" and ?r = "objs s1 n"
    define r' where "r' = ?r\<lparr>spec_token_ids := validate ?r (snd p)\<rparr>"
    have u: "update_draft validate p s1 = set_obj n r' s1" using n by (cases p) (simp add: update_draft_def r'_def)
    have tr: "touched_request ?r r'"
      unfolding touched_request_def r'_def
      by (intro exI [of _ "status ?r"] exI [of _ "num_computed_tokens ?r"] exI [of _ "validate ?r (snd p)"]
          exI [of _ "num_preemptions ?r"] exI [of _ "events ?r"] exI [of _ "num_cached_tokens ?r"]) simp
    have core: "core_inv V c (\<lambda>_. 0) d ?W s1" using P by (simp add: sched_inv_def)
    have live: "n \<in> set (running s1) \<union> set ?W" "obj_id ?r = n" using core n(1) by (auto simp: core_inv_def ids_ok_def)
    have rid: "request_id r' = request_id ?r" "obj_id r' = n" using live(2) by (simp_all add: r'_def)
    have ok: "n \<in> set (running s1) \<Longrightarrow> running_ok V c (\<lambda>_. 0) d (kv s1) r'" "n \<in> set ?W \<Longrightarrow> waiting_ok V c (kv s1) r'"
      using core_running [OF core, of n] core_waiting [OF core, of n] request_ok_touched [OF tr]
      by (simp_all add: running_ok_def waiting_ok_def Let_def r'_def num_tokens_def)
    have wf: "distinct (running s1 @ ?W)" "length (running s1) \<le> max_num_running_reqs c" "v_ok V (kv s1)"
      using core by (simp_all add: core_inv_def)
    define s2 where "s2 = set_obj n r' s1"
    have S: "objs s2 = (objs s1)(n := r')" "requests s2 = requests s1" "kv s2 = kv s1" "running s2 = running s1" by (simp_all add: s2_def set_obj_def)
    have "core_inv V c (\<lambda>_. 0) d ?W s2"
      by (rule core_update [OF core live(1) rid S(1,2)]) (use wf ok same_refl S(3,4) in simp_all)
    then have "core_inv V c (\<lambda>_. 0) d ?W (set_obj n r' s1)" by (simp add: s2_def)
    moreover have "prev_ok (set ?W) (set_obj n r' s1)" using P by (auto simp: sched_inv_def prev_ok_def set_obj_def r'_def)
    moreover have "sched_frame s (set_obj n r' s1)"
      by (rule sched_frame_trans [of s s1]) (use P tr in \<open>simp_all add: sched_frame_def set_obj_def\<close>)
    ultimately show ?thesis using P u by (simp add: sched_inv_def set_obj_def)
  qed
  have "?P (fold (update_draft validate) ds s1)" if "?P s1" for s1
    using that
  proof (induction ds arbitrary: s1)
    case (Cons p ds)
    from Cons.IH [OF step [OF Cons.prems, of p]] show ?case by simp
  qed simp
  then have "?P (update_draft_token_ids validate ds s)" using inv by (simp add: update_draft_token_ids_def)
  then show "sched_inv V c d (update_draft_token_ids validate ds s)" "requests (update_draft_token_ids validate ds s) = requests s"
    "sched_frame s (update_draft_token_ids validate ds s)" by simp_all
qed

end

end
