(* ===== verification/Sched_Output.thy ===== *)
theory Sched_Output
  imports Sched_Life
begin

text \<open>
  \<open>update_from_output\<close> and the invariant, for the synchronous scheduler: after the output of the model has been
  processed, the drafts are accounted for, the stopped requests are gone, and every other request is ready
  for the next step.  What the worker promises about its output is \<open>output_for\<close>.
\<close>

section \<open>What the worker promises\<close>

text \<open>The output holds an entry for the request; tokens are sampled for generation requests only, and a
  request with drafts gets at least one token and at most one more than it has drafts.\<close>

definition output_entry :: "model_output \<Rightarrow> string \<Rightarrow> (int list \<times> string option) result" where
  "output_entry mo rid =
     rbind (dget (mo_req_id_to_index mo) rid) (\<lambda>i.
     rbind (if mo_sampled_token_ids mo = [] then Inr [] else py_index (mo_sampled_token_ids mo) (int i)) (\<lambda>g.
     rbind (if mo_pooler_output mo = [] then Inr None else py_index (mo_pooler_output mo) (int i)) (\<lambda>p. Inr (g, p))))"

definition output_for :: "sched_output \<Rightarrow> model_output \<Rightarrow> request \<Rightarrow> bool" where
  "output_for so mo r \<longleftrightarrow> (\<exists>g p. output_entry mo (request_id r) = Inr (g, p)
     \<and> (g \<noteq> [] \<longrightarrow> pooling r = None)
     \<and> (let d = drafts (so_spec_decode_tokens so) (request_id r) in 0 < d \<longrightarrow> 1 \<le> length g \<and> int (length g) \<le> d + 1))"

definition outputs_ok :: "sched_output \<Rightarrow> model_output \<Rightarrow> sched \<Rightarrow> bool" where
  "outputs_ok so mo s \<longleftrightarrow> (\<forall>rid \<in> fst ` set (so_num_scheduled_tokens so). \<forall>n. requests s rid = Some n \<longrightarrow> output_for so mo (objs s n))"

text \<open>The synchronous scheduler has no placeholders.\<close>

definition no_placeholders :: "sched \<Rightarrow> bool" where
  "no_placeholders s \<longleftrightarrow> (\<forall>rid n. requests s rid = Some n \<longrightarrow> num_output_placeholders (objs s n) = 0)"

context kv_contract
begin

section \<open>The tokens of one request\<close>

lemma extended_fields:
  assumes "extended r toks r'"
  shows "request_id r' = request_id r" "obj_id r' = obj_id r" "mm_features r' = mm_features r" "lora r' = lora r"
    "num_output_placeholders r' = num_output_placeholders r" "num_computed_tokens r' = num_computed_tokens r"
    "num_tokens r' = num_tokens r + int (length toks)" "num_output_tokens r' = num_output_tokens r + int (length toks)"
    "num_prompt_tokens r' = num_prompt_tokens r" "pooling r' = pooling r" "sampling r' = sampling r"
    "cache_salt r' = cache_salt r" "prompt_embeds r' = prompt_embeds r"
  using assms by (auto simp: extended_def num_tokens_def num_output_tokens_def)

text \<open>A request that is not stopped stays below the length of the model.\<close>

lemma not_ended_short:
  assumes g: "generation_ok M r" "pooling r = None" and "0 < n" and "\<not> ends_at r M toks (n - 1)"
  shows "num_tokens r + int n < M"
proof -
  obtain sp where sp: "sampling r = Some sp" "num_prompt_tokens r + sp_min_tokens sp \<le> M" using g by (auto simp: generation_ok_def)
  have "int (n - 1) + 1 = int n" using assms(3) by simp
  then show ?thesis using assms(4) sp g(1) unfolding ends_at_def sp(1) option.case Let_def generation_ok_def by auto
qed

lemma rejected_ok:
  assumes run: "running_ok V c (\<lambda>_. 0) d k r" and k: "v_ok V k" and ph: "num_output_placeholders r = 0"
    and dr: "d (request_id r) = drafts spec (request_id r)"
    and g: "0 < d (request_id r) \<longrightarrow> 1 \<le> length g \<and> int (length g) \<le> d (request_id r) + 1"
  shows "\<exists>nc. reject_drafts (map_of spec (request_id r)) g r = r\<lparr>num_computed_tokens := nc, num_output_placeholders := 0\<rparr>
    \<and> 0 < nc \<and> nc < v_len V \<and> nc \<le> num_tokens r + int (length g) \<and> v_cap V k (request_id r) nc
    \<and> (g = [] \<longrightarrow> d (request_id r) = 0 \<and> nc = num_computed_tokens r)"
proof -
  let ?rid = "request_id r" and ?nc = "num_computed_tokens r"
  have R: "0 < ?nc" "?nc < v_len V" "?nc \<le> num_tokens r + d ?rid" "0 < d ?rid \<longrightarrow> ?nc = num_tokens r + d ?rid" "v_cap V k ?rid ?nc"
    "0 < num_tokens r"
    using run ph by (auto simp: running_ok_def request_ok_def Let_def)
  have same: "r\<lparr>num_computed_tokens := ?nc, num_output_placeholders := 0\<rparr> = r" using ph by simp
  show ?thesis
  proof (cases "map_of spec ?rid = None \<or> map_of spec ?rid = Some []")
    case True
    then have "reject_drafts (map_of spec ?rid) g r = r" "d ?rid = 0" using dr by (auto simp: reject_drafts_def drafts_def)
    then show ?thesis using R(1,2,3,5) by (intro exI [of _ ?nc] conjI) (simp_all only: same, simp_all)
  next
    case False
    then obtain ds where ds: "map_of spec ?rid = Some ds" "ds \<noteq> []" by auto
    then have d: "d ?rid = int (length ds)" "0 < d ?rid" using dr by (simp_all add: drafts_def)
    define nc where "nc = ?nc - (int (length ds) - (int (length g) - 1))"
    have nc: "nc = num_tokens r + int (length g) - 1" using R d by (simp add: nc_def)
    have b: "0 < nc" "nc \<le> ?nc" using nc R d g by auto
    have "reject_drafts (map_of spec ?rid) g r = r\<lparr>num_computed_tokens := nc, num_output_placeholders := 0\<rparr>"
      using ds R(1) ph by (simp add: reject_drafts_def nc_def)
    moreover have "nc < v_len V" "nc \<le> num_tokens r + int (length g)" "v_cap V k ?rid nc" "g \<noteq> []"
      using b(2) R(2) nc d(2) g cap_mono [OF R(5) b(2) k] by auto
    ultimately show ?thesis using b(1) by blast
  qed
qed

lemma stop_or_go_on_ok:
  assumes run: "running_ok V c (\<lambda>_. 0) d (kv s) r" and k: "v_ok V (kv s)" and ph: "num_output_placeholders r = 0"
    and dr: "d (request_id r) = drafts spec (request_id r)"
    and g: "g \<noteq> [] \<longrightarrow> pooling r = None" "0 < d (request_id r) \<longrightarrow> 1 \<le> length g \<and> int (length g) \<le> d (request_id r) + 1"
    and M: "sc_max_model_len c = v_len V"
  shows "\<exists>toks stopped r'. stop_or_go_on (update_request_with_output (v_hasher V (kv s)) c) n g p
      (set_obj n (reject_drafts (map_of spec (request_id r)) g r) s) = Inr ((toks, stopped), set_obj n r' s)
    \<and> request_id r' = request_id r \<and> obj_id r' = obj_id r \<and> mm_features r' = [] \<and> num_output_placeholders r' = 0
    \<and> (if stopped then is_finished r' else running_ok V c (\<lambda>_. 0) (d(request_id r := 0)) (kv s) r')"
proof -
  let ?rid = "request_id r" and ?upd = "update_request_with_output (v_hasher V (kv s)) c"
  obtain nc where nc: "reject_drafts (map_of spec ?rid) g r = r\<lparr>num_computed_tokens := nc, num_output_placeholders := 0\<rparr>"
    "0 < nc" "nc < v_len V" "nc \<le> num_tokens r + int (length g)" "v_cap V (kv s) ?rid nc"
    "g = [] \<longrightarrow> d ?rid = 0 \<and> nc = num_computed_tokens r" using rejected_ok [OF run k ph dr g(2)] by blast
  define r1 where "r1 = r\<lparr>num_computed_tokens := nc, num_output_placeholders := 0\<rparr>"
  have req: "request_ok V c (kv s) r" and st: "status r = RUNNING" using run by (simp_all add: running_ok_def Let_def)
  have req1: "request_ok V c (kv s) r1" by (rule request_ok_cong [OF req]) (simp_all add: r1_def)
  have r1: "request_id r1 = ?rid" "obj_id r1 = obj_id r" "mm_features r1 = []" "num_output_placeholders r1 = 0" "num_computed_tokens r1 = nc"
    "pooling r1 = pooling r" "num_tokens r1 = num_tokens r" "generation_ok (v_len V) r1" "v_hashed V (kv s) r1" "status r1 = RUNNING"
    using req1 st by (simp_all add: request_ok_def plain_request_def) (simp_all add: r1_def num_tokens_def)
  show ?thesis
  proof (cases "g = []")
    case True
    then have "r1 = r" using nc(6) ph by (simp add: r1_def)
    have run': "running_ok V c (\<lambda>_. 0) (d(?rid := 0)) (kv s) r1"
      using run True nc(6) \<open>r1 = r\<close> by (simp add: running_ok_def Let_def)
    show ?thesis
    proof (cases "pooling r \<noteq> None \<and> p \<noteq> None")
      case True
      then show ?thesis using \<open>g = []\<close> r1 nc(1)
        by (intro exI [of _ "[]"] exI [of _ True] exI [of _ "r1\<lparr>status := FINISHED_STOPPED\<rparr>"])
          (simp add: stop_or_go_on_def r1_def [symmetric] set_obj_def is_finished_def status_is_finished_def)
    next
      case False
      then show ?thesis using \<open>g = []\<close> r1 nc(1) run'
        by (intro exI [of _ "[]"] exI [of _ False] exI [of _ r1])
          (auto simp: stop_or_go_on_def r1_def [symmetric] set_obj_def)
    qed
  next
    case False
    let ?Q = "\<lambda>r. v_hashed V (kv s) r \<and> mm_features r = []"
    have hash: "\<exists>r'. append_output_token_ids (v_hasher V (kv s)) [t] r = Inr r' \<and> ?Q r'" if Q: "?Q r" for r t
    proof -
      from hasher [OF k, of r "[t]"] Q obtain r' where r': "append_output_token_ids (v_hasher V (kv s)) [t] r = Inr r'" "v_hashed V (kv s) r'"
        by blast
      then show ?thesis using append_output_extended [OF r'(1)] extended_fields(3) Q by auto
    qed
    have stable: "?Q r'" if Q: "?Q r" "extended r [] r'" "block_hashes r' = block_hashes r" for r r'
    proof -
      have "all_token_ids r' = all_token_ids r" using Q(2) by (auto simp: extended_def)
      then show ?thesis using Q hashed_cong [of r' r "kv s"] extended_fields [OF Q(2)] by simp
    qed
    have pool: "pooling r1 = None" "g \<noteq> [] \<longrightarrow> pooling r1 = None \<and> sampling r1 \<noteq> None"
      using False g(1) r1(6,8) by (auto simp: generation_ok_def)
    have "\<exists>m b r2. append_tokens (v_hasher V (kv s)) (v_len V) g r1 = Inr ((take m g, b), r2) \<and> ?Q r2 \<and> extended r1 (take m g) r2
      \<and> m \<le> length g
      \<and> (if b then 0 < m \<and> ends_at r1 (v_len V) g (m - 1) \<and> is_finished r2 else m = length g \<and> status r2 = status r1)
      \<and> (\<forall>i < m. i \<noteq> m - 1 \<or> \<not> b \<longrightarrow> \<not> ends_at r1 (v_len V) g i)"
    proof (rule append_tokens_ok [where Q = ?Q])
      show "?Q r1" using r1(3,9) by simp
    qed (use hash stable pool(2) in blast)+
    then obtain m b r2 where a: "append_tokens (v_hasher V (kv s)) (v_len V) g r1 = Inr ((take m g, b), r2)" "?Q r2"
      "extended r1 (take m g) r2" "m \<le> length g"
      "if b then 0 < m \<and> ends_at r1 (v_len V) g (m - 1) \<and> is_finished r2 else m = length g \<and> status r2 = status r1"
      "\<forall>i < m. i \<noteq> m - 1 \<or> \<not> b \<longrightarrow> \<not> ends_at r1 (v_len V) g i" by blast
    note ext = extended_fields [OF a(3)]
    have go: "stop_or_go_on ?upd n g p (set_obj n (reject_drafts (map_of spec ?rid) g r) s) = Inr ((take m g, b), set_obj n r2 s)"
      using False a(1) M nc(1) by (simp add: stop_or_go_on_def update_request_with_output_def r1_def [symmetric] set_obj_def)
    have "running_ok V c (\<lambda>_. 0) (d(?rid := 0)) (kv s) r2" if nb: "\<not> b"
    proof -
      have m: "m = length g" "0 < m" "status r2 = RUNNING" "\<not> ends_at r1 (v_len V) g (m - 1)" using a(5,6) nb False r1(10) by auto
      have "num_tokens r + int m < v_len V" using not_ended_short [OF r1(8) pool(1) m(2,4)] r1(7) by simp
      then have "request_ok V c (kv s) r2" using req1 a(2) m(1) ext r1
        by (simp add: request_ok_def plain_request_def generation_ok_def)
      then show ?thesis using m ext r1 nc by (simp add: running_ok_def Let_def)
    qed
    then show ?thesis using go a(2,5) ext r1
      by (intro exI [of _ "take m g"] exI [of _ b] exI [of _ r2]) (auto split: if_splits)
  qed
qed

section \<open>One entry of the output\<close>

lemma take_events_fields:
  assumes "take_events r = (evs, r')"
  shows "r' = r \<or> r' = r\<lparr>events := []\<rparr>"
  using assms by (auto simp: take_events_def split: if_splits)

lemma running_ok_events: "running_ok V c tk d k r \<Longrightarrow> running_ok V c tk d k (r\<lparr>events := []\<rparr>)"
  using request_ok_cong [of c k r "r\<lparr>events := []\<rparr>"]
  by (simp add: running_ok_def Let_def num_tokens_def) (simp add: request_ok_def)

text \<open>The output for the client is built from the request, whose events are taken.\<close>

lemma emit_ok:
  assumes core: "core_inv V c tk d W (s\<lparr>running := R\<rparr>)" and n: "n \<in> set R \<or> n \<notin> set R \<union> set W"
  shows "\<exists>r' u'. (if b then let (evs, r) = take_events (objs s n); out = f evs r in Inr (set_obj n r s, append_output (client_index r) out u)
      else Inr (s, u)) = (Inr (set_obj n r' s, u') :: (sched \<times> update_state) result)
    \<and> core_inv V c tk d W ((set_obj n r' s)\<lparr>running := R\<rparr>) \<and> (r' = objs s n \<or> r' = (objs s n)\<lparr>events := []\<rparr>)
    \<and> us_stopped_running u' = us_stopped_running u \<and> us_stopped_preempted u' = us_stopped_preempted u"
proof -
  have same: "set_obj n (objs s n) s = s" by (simp add: set_obj_def)
  have keep: "core_inv V c tk d W ((set_obj n r' s)\<lparr>running := R\<rparr>)" if r': "r' = objs s n \<or> r' = (objs s n)\<lparr>events := []\<rparr>" for r'
  proof -
    have eq: "(set_obj n r' s)\<lparr>running := R\<rparr> = set_obj n r' (s\<lparr>running := R\<rparr>)" by (simp add: set_obj_def)
    show ?thesis
    proof (cases "n \<in> set R")
      case True
      then have "running_ok V c tk d (kv s) (objs s n)" "obj_id (objs s n) = n" using core by (simp_all add: core_inv_def ids_ok_def)
      then show ?thesis unfolding eq using r' running_ok_events True by (intro core_set [OF core]) auto
    next
      case False
      then show ?thesis unfolding eq using n by (intro core_dead [OF core]) simp
    qed
  qed
  show ?thesis
  proof (cases b)
    case True
    obtain evs r where t: "take_events (objs s n) = (evs, r)" by (cases "take_events (objs s n)")
    then have "r = objs s n \<or> r = (objs s n)\<lparr>events := []\<rparr>" by (rule take_events_fields)
    then show ?thesis using True t keep [of r]
      by (intro exI [of _ r] exI [of _ "append_output (client_index r) (f evs r) u"]) (simp add: append_output_def)
  next
    case False
    then show ?thesis using keep [of "objs s n"] same by (intro exI [of _ "objs s n"] exI [of _ u]) simp
  qed
qed

lemma update_one_ok:
  assumes core: "core_inv V c (\<lambda>_. 0) d W (s\<lparr>running := R\<rparr>)" and cf: "config_ok V c env" and k: "0 < k"
    and req: "\<And>n. requests s rid = Some n \<Longrightarrow> n \<in> set R \<and> num_output_placeholders (objs s n) = 0 \<and> output_for so mo (objs s n)"
    and dr: "d rid = drafts (so_spec_decode_tokens so) rid"
    and upd: "upd = update_request_with_output (v_hasher V (kv s)) c"
  shows "\<exists>s' u' dead. update_one env upd so mo (rid, k) (s, u) = Inr (s', u')
    \<and> core_inv V c (\<lambda>_. 0) (d(rid := 0)) W (s'\<lparr>running := filter (\<lambda>m. m \<notin> dead) R\<rparr>)
    \<and> set (us_stopped_running u') = set (us_stopped_running u) \<union> dead \<and> us_stopped_preempted u' = us_stopped_preempted u
    \<and> running s' = running s \<and> waiting_q s' = waiting_q s \<and> prev_step_scheduled_req_ids s' = prev_step_scheduled_req_ids s
    \<and> v_hasher V (kv s') = v_hasher V (kv s) \<and> (\<forall>x. x \<noteq> rid \<longrightarrow> requests s' x = requests s x)
    \<and> (requests s' rid = None \<or> requests s' rid = requests s rid)
    \<and> (\<forall>m. requests s rid \<noteq> Some m \<longrightarrow> objs s' m = objs s m)
    \<and> (\<forall>m. requests s' rid = Some m \<longrightarrow> num_output_placeholders (objs s' m) = 0)"
proof (cases "requests s rid")
  case None
  have "core_inv V c (\<lambda>_. 0) (d(rid := 0)) W (s\<lparr>running := R\<rparr>)"
  proof (rule core_drafts [OF core])
    fix n assume "n \<in> set (running (s\<lparr>running := R\<rparr>))"
    then have "requests s (request_id (objs s n)) = Some n" using core by (simp add: core_inv_def ids_ok_def)
    then show "(d(rid := 0)) (request_id (objs (s\<lparr>running := R\<rparr>) n)) = d (request_id (objs (s\<lparr>running := R\<rparr>) n))" using None by auto
  qed
  then show ?thesis using None k by (intro exI [of _ s] exI [of _ u] exI [of _ "{}"]) (simp add: update_one_def py_assert_def)
next
  case (Some n)
  let ?r = "objs s n" and ?S = "s\<lparr>running := R\<rparr>"
  have n: "n \<in> set R" "num_output_placeholders ?r = 0" "output_for so mo ?r" using req [OF Some] by simp_all
  have rid: "request_id ?r = rid" "obj_id ?r = n" and ok: "v_ok V (kv s)" and dis: "distinct (R @ W)"
    using core n(1) Some by (auto simp: core_inv_def ids_ok_def)
  then have nW: "n \<notin> set W" using n(1) by auto
  have run: "running_ok V c (\<lambda>_. 0) d (kv s) ?r" using core_running [OF core, of n] n(1) by simp
  obtain g p where gp: "output_entry mo rid = Inr (g, p)" "g \<noteq> [] \<longrightarrow> pooling ?r = None"
    "0 < d rid \<longrightarrow> 1 \<le> length g \<and> int (length g) \<le> d rid + 1"
    using n(3) rid dr by (auto simp: output_for_def Let_def)
  obtain i where i: "dget (mo_req_id_to_index mo) rid = Inr i"
    "(if mo_sampled_token_ids mo = [] then Inr [] else py_index (mo_sampled_token_ids mo) (int i)) = Inr g"
    "(if mo_pooler_output mo = [] then Inr None else py_index (mo_pooler_output mo) (int i)) = Inr p"
    using gp(1) unfolding output_entry_def rbind_Inr_iff sum.inject prod.inject by blast
  define s1 where "s1 = set_obj n (reject_drafts (map_of (so_spec_decode_tokens so) rid) g ?r) s"
  have M: "sc_max_model_len c = v_len V" and ord: "env_order env [] = []" using cf by (simp_all add: config_ok_def)
  obtain toks stopped r' where st: "stop_or_go_on upd n g p s1 = Inr ((toks, stopped), set_obj n r' s)"
    "request_id r' = rid" "obj_id r' = n" "mm_features r' = []" "num_output_placeholders r' = 0"
    "if stopped then is_finished r' else running_ok V c (\<lambda>_. 0) (d(rid := 0)) (kv s) r'"
    using stop_or_go_on_ok [OF run ok n(2) _ gp(2) _ M, where n = n and p = p and spec = "so_spec_decode_tokens so"] rid dr gp(3) upd
    by (auto simp: s1_def)
  have s1n: "status (objs s1 n) = RUNNING"
    using run by (auto simp: s1_def set_obj_def reject_drafts_def running_ok_def Let_def split: option.splits)
  define u1 where "u1 = (if \<not> stopped then u else u\<lparr>us_stopped_running := List.insert n (us_stopped_running u)\<rparr>)"
  define dead where "dead = (if stopped then {n} else {})"
  have free: "\<exists>s3. (if stopped then sched_free_request env r' (set_obj n r' s) else Inr (set_obj n r' s)) = Inr s3
    \<and> core_inv V c (\<lambda>_. 0) (d(rid := 0)) W (s3\<lparr>running := filter (\<lambda>m. m \<notin> dead) R\<rparr>) \<and> objs s3 = (objs s)(n := r')
    \<and> requests s3 = (if stopped then (requests s)(rid := None) else requests s) \<and> running s3 = running s \<and> waiting_q s3 = waiting_q s
    \<and> prev_step_scheduled_req_ids s3 = prev_step_scheduled_req_ids s \<and> v_hasher V (kv s3) = v_hasher V (kv s)"
  proof (cases stopped)
    case True
    have "filter (\<lambda>m. m \<noteq> n) W = W" using nW by (intro filter_True) auto
    moreover have "(d(rid := 0)) x = d x" if "x \<noteq> request_id r'" for x using that st(2) by simp
    ultimately show ?thesis
      using sched_free_request_ok [OF core _ _ _ st(4) ord, of n "d(rid := 0)"] True n(1) st(2,6) rid by (auto simp: dead_def)
  next
    case False
    have "core_inv V c (\<lambda>_. 0) (d(rid := 0)) W (set_obj n r' ?S)"
      by (rule core_set [OF core]) (use n(1) st False rid in simp_all)
    moreover have "(set_obj n r' s)\<lparr>running := R\<rparr> = set_obj n r' ?S" by (simp add: set_obj_def)
    moreover have "objs (set_obj n r' s) = (objs s)(n := r')" "requests (set_obj n r' s) = requests s" "running (set_obj n r' s) = running s"
      "waiting_q (set_obj n r' s) = waiting_q s" "kv (set_obj n r' s) = kv s"
      "prev_step_scheduled_req_ids (set_obj n r' s) = prev_step_scheduled_req_ids s" by (simp_all add: set_obj_def)
    ultimately show ?thesis using False by (simp add: dead_def)
  qed
  then obtain s3 where s3: "(if stopped then sched_free_request env r' (set_obj n r' s) else Inr (set_obj n r' s)) = Inr s3"
    "core_inv V c (\<lambda>_. 0) (d(rid := 0)) W (s3\<lparr>running := filter (\<lambda>m. m \<notin> dead) R\<rparr>)" "objs s3 = (objs s)(n := r')"
    "requests s3 = (if stopped then (requests s)(rid := None) else requests s)" "running s3 = running s" "waiting_q s3 = waiting_q s"
    "prev_step_scheduled_req_ids s3 = prev_step_scheduled_req_ids s" "v_hasher V (kv s3) = v_hasher V (kv s)" by blast
  have "n \<in> set (filter (\<lambda>m. m \<notin> dead) R) \<or> n \<notin> set (filter (\<lambda>m. m \<notin> dead) R) \<union> set W" using nW by auto
  from emit_ok [OF s3(2) this, where b = "toks \<noteq> [] \<or> p \<noteq> None" and u = u1
      and f = "\<lambda>evs r. \<lparr>ec_request_id = rid, ec_new_token_ids = toks, ec_finish_reason = get_finished_reason (status r),
         ec_pooling_output = p, ec_stop_reason = stop_reason r, ec_events = evs, ec_num_cached_tokens = num_cached_tokens r\<rparr>"]
  obtain r2 u2 where em: "(if toks \<noteq> [] \<or> p \<noteq> None
       then let (evs, r) = take_events (objs s3 n);
                out = \<lparr>ec_request_id = rid, ec_new_token_ids = toks, ec_finish_reason = get_finished_reason (status r),
                  ec_pooling_output = p, ec_stop_reason = stop_reason r, ec_events = evs, ec_num_cached_tokens = num_cached_tokens r\<rparr>
            in Inr (set_obj n r s3, append_output (client_index r) out u1)
       else Inr (s3, u1)) = (Inr (set_obj n r2 s3, u2) :: (sched \<times> update_state) result)"
    "core_inv V c (\<lambda>_. 0) (d(rid := 0)) W ((set_obj n r2 s3)\<lparr>running := filter (\<lambda>m. m \<notin> dead) R\<rparr>)"
    "r2 = objs s3 n \<or> r2 = (objs s3 n)\<lparr>events := []\<rparr>"
    "us_stopped_running u2 = us_stopped_running u1" "us_stopped_preempted u2 = us_stopped_preempted u1" by blast
  have u1: "(if \<not> stopped then u
       else if status (objs s1 n) = RUNNING then u\<lparr>us_stopped_running := List.insert n (us_stopped_running u)\<rparr>
       else u\<lparr>us_stopped_preempted := List.insert n (us_stopped_preempted u)\<rparr>) = u1" using s1n by (simp add: u1_def)
  have o: "objs (set_obj n r' s) n = r'" by (simp add: set_obj_def)
  have "update_one env upd so mo (rid, k) (s, u) = Inr (set_obj n r2 s3, u2)"
    by (simp only: update_one_def prod.case py_assert_def k if_True Some option.case i rbind.simps Let_def s1_def [symmetric] st(1)
        u1 o s3(1) em(1) [unfolded Let_def])
  moreover have "set (us_stopped_running u2) = set (us_stopped_running u) \<union> dead" "us_stopped_preempted u2 = us_stopped_preempted u"
    using em(4,5) by (simp_all add: u1_def dead_def)
  moreover have "num_output_placeholders r2 = 0" using em(3) s3(3) st(5) by auto
  ultimately show ?thesis using em(2) s3(3-8) Some
    by (intro exI [of _ "set_obj n r2 s3"] exI [of _ u2] exI [of _ dead]) (auto simp: set_obj_def)
qed

section \<open>All entries\<close>

lemma update_loop_ok:
  assumes "core_inv V c (\<lambda>_. 0) d W (s\<lparr>running := R\<rparr>)" and cf: "config_ok V c env"
    and "distinct (map fst al)" and "\<forall>(rid, k) \<in> set al. 0 < k"
    and "\<forall>rid \<in> fst ` set al. \<forall>n. requests s rid = Some n \<longrightarrow> n \<in> set R \<and> output_for so mo (objs s n)"
    and "no_placeholders s"
    and "\<forall>rid. d rid = (if rid \<in> fst ` set al then drafts (so_spec_decode_tokens so) rid else 0)"
    and upd: "upd = update_request_with_output (v_hasher V (kv s)) c"
  shows "\<exists>s' u' dead. foldM (update_one env upd so mo) al (s, u) = Inr (s', u')
    \<and> core_inv V c (\<lambda>_. 0) (\<lambda>_. 0) W (s'\<lparr>running := filter (\<lambda>m. m \<notin> dead) R\<rparr>)
    \<and> set (us_stopped_running u') = set (us_stopped_running u) \<union> dead \<and> us_stopped_preempted u' = us_stopped_preempted u
    \<and> running s' = running s \<and> waiting_q s' = waiting_q s \<and> prev_step_scheduled_req_ids s' = prev_step_scheduled_req_ids s
    \<and> (\<forall>m \<in> set W. objs s' m = objs s m) \<and> no_placeholders s'"
  using assms(1,3-8)
proof (induction al arbitrary: s R d u)
  case Nil
  then have "d = (\<lambda>_. 0)" by (simp add: fun_eq_iff)
  then show ?case using Nil by (intro exI [of _ s] exI [of _ u] exI [of _ "{}"]) simp
next
  case (Cons p al)
  obtain rid k where p: "p = (rid, k)" by (cases p)
  note core = Cons.prems(1)
  have ids: "ids_ok (set R \<union> set W) s" and dis: "distinct (R @ W)" using core by (simp_all add: core_inv_def ids_ok_def)
  have own: "x = y" if "requests s x = Some n" "requests s y = Some n" for x y n
  proof -
    have "request_id (objs s n) = z" if "requests s z = Some n" for z using ids that by (simp add: ids_ok_def)
    then show ?thesis using that by metis
  qed
  have k: "0 < k" using Cons.prems(3) p by simp
  have req: "n \<in> set R \<and> num_output_placeholders (objs s n) = 0 \<and> output_for so mo (objs s n)" if "requests s rid = Some n" for n
    using Cons.prems(4,5) p that by (simp add: no_placeholders_def)
  have dr: "d rid = drafts (so_spec_decode_tokens so) rid" using Cons.prems(6) p by simp
  obtain s1 u1 dead where s1: "update_one env upd so mo (rid, k) (s, u) = Inr (s1, u1)"
    "core_inv V c (\<lambda>_. 0) (d(rid := 0)) W (s1\<lparr>running := filter (\<lambda>m. m \<notin> dead) R\<rparr>)"
    "set (us_stopped_running u1) = set (us_stopped_running u) \<union> dead" "us_stopped_preempted u1 = us_stopped_preempted u"
    "running s1 = running s" "waiting_q s1 = waiting_q s" "prev_step_scheduled_req_ids s1 = prev_step_scheduled_req_ids s"
    "v_hasher V (kv s1) = v_hasher V (kv s)" "\<forall>x. x \<noteq> rid \<longrightarrow> requests s1 x = requests s x"
    "requests s1 rid = None \<or> requests s1 rid = requests s rid" "\<forall>m. requests s rid \<noteq> Some m \<longrightarrow> objs s1 m = objs s m"
    "\<forall>m. requests s1 rid = Some m \<longrightarrow> num_output_placeholders (objs s1 m) = 0"
    using update_one_ok [OF core cf k req dr Cons.prems(7), of u] by blast
  have fresh: "rid \<notin> fst ` set al" and dal: "distinct (map fst al)" using Cons.prems(2) p by auto
  have np: "no_placeholders s1"
    unfolding no_placeholders_def
  proof (intro allI impI)
    fix x m assume m: "requests s1 x = Some m"
    show "num_output_placeholders (objs s1 m) = 0"
    proof (cases "x = rid")
      case False
      then have "requests s x = Some m" "requests s rid \<noteq> Some m" using m s1(9) own [of x m rid] by auto
      then show ?thesis using s1(11) Cons.prems(5) by (simp add: no_placeholders_def)
    qed (use m s1(12) in simp)
  qed
  have req1: "\<forall>x \<in> fst ` set al. \<forall>n. requests s1 x = Some n \<longrightarrow> n \<in> set (filter (\<lambda>m. m \<notin> dead) R) \<and> output_for so mo (objs s1 n)"
  proof (intro ballI allI impI)
    fix x n assume x: "x \<in> fst ` set al" and n: "requests s1 x = Some n"
    then have "x \<noteq> rid" using fresh by auto
    then have o: "requests s x = Some n" "requests s rid \<noteq> Some n" using n s1(9) own [of x n rid] by auto
    then have r: "n \<in> set R" "output_for so mo (objs s1 n)" using Cons.prems(4) x p s1(11) by auto
    have "n \<in> set (filter (\<lambda>m. m \<notin> dead) R) \<union> set W" using s1(2) n by (auto simp: core_inv_def ids_ok_def)
    then show "n \<in> set (filter (\<lambda>m. m \<notin> dead) R) \<and> output_for so mo (objs s1 n)" using r dis by auto
  qed
  have d1: "\<forall>x. (d(rid := 0)) x = (if x \<in> fst ` set al then drafts (so_spec_decode_tokens so) x else 0)"
    using Cons.prems(6) p fresh by auto
  have pos: "\<forall>(x, k) \<in> set al. 0 < k" using Cons.prems(3) by simp
  have upd1: "upd = update_request_with_output (v_hasher V (kv s1)) c" using Cons.prems(7) s1(8) by simp
  obtain s' u' dead' where s': "foldM (update_one env upd so mo) al (s1, u1) = Inr (s', u')"
    "core_inv V c (\<lambda>_. 0) (\<lambda>_. 0) W (s'\<lparr>running := filter (\<lambda>m. m \<notin> dead') (filter (\<lambda>m. m \<notin> dead) R)\<rparr>)"
    "set (us_stopped_running u') = set (us_stopped_running u1) \<union> dead'" "us_stopped_preempted u' = us_stopped_preempted u1"
    "running s' = running s1" "waiting_q s' = waiting_q s1" "prev_step_scheduled_req_ids s' = prev_step_scheduled_req_ids s1"
    "\<forall>m \<in> set W. objs s' m = objs s1 m" "no_placeholders s'"
    using Cons.IH [OF s1(2) dal pos req1 np d1 upd1] by blast
  have "filter (\<lambda>m. m \<notin> dead') (filter (\<lambda>m. m \<notin> dead) R) = filter (\<lambda>m. m \<notin> dead \<union> dead') R"
    unfolding filter_filter by (rule filter_cong) auto
  then have "core_inv V c (\<lambda>_. 0) (\<lambda>_. 0) W (s'\<lparr>running := filter (\<lambda>m. m \<notin> dead \<union> dead') R\<rparr>)" using s'(2) by simp
  moreover have "objs s' m = objs s m" if m: "m \<in> set W" for m
  proof -
    have "requests s rid \<noteq> Some m" using req [of m] m dis by auto
    then show ?thesis using s'(8) s1(11) m by simp
  qed
  moreover have "foldM (update_one env upd so mo) (p # al) (s, u) = Inr (s', u')" using s1(1) s'(1) p by simp
  moreover have "set (us_stopped_running u') = set (us_stopped_running u) \<union> (dead \<union> dead')" using s1(3) s'(3) by auto
  ultimately show ?case using s1(4-7) s'(4-7,9) by (intro exI [of _ s'] exI [of _ u'] exI [of _ "dead \<union> dead'"]) simp
qed

end

text \<open>A scheduler output fits the state that it was made for, and stays so when requests are finished.\<close>

definition output_ok :: "sched_output \<Rightarrow> sched \<Rightarrow> bool" where
  "output_ok so s \<longleftrightarrow> distinct (map fst (so_num_scheduled_tokens so))
     \<and> (\<forall>(rid, k) \<in> set (so_num_scheduled_tokens so). 0 < k \<and> (\<forall>n. requests s rid = Some n \<longrightarrow> n \<in> set (running s)))
     \<and> fst ` set (so_spec_decode_tokens so) \<subseteq> fst ` set (so_num_scheduled_tokens so)"

context kv_contract
begin

lemma update_from_output_ok:
  assumes inv: "sched_inv V c (drafts (so_spec_decode_tokens so)) s" and cf: "config_ok V c env"
    and so: "output_ok so s" and mo: "outputs_ok so mo s" and np: "no_placeholders s"
  shows "\<exists>outs finished evs s'.
      update_from_output env (update_request_with_output (v_hasher V (kv s)) c) so mo s = Inr (outs, finished, evs, s')
    \<and> sched_inv V c (\<lambda>_. 0) s' \<and> no_placeholders s' \<and> set (running s') \<subseteq> set (running s) \<and> waiting_q s' = waiting_q s"
proof -
  let ?W = "waiting_ids (waiting_q s)" and ?d = "drafts (so_spec_decode_tokens so)" and ?al = "so_num_scheduled_tokens so"
  let ?upd = "update_request_with_output (v_hasher V (kv s)) c" and ?u = "\<lparr>us_outputs = [], us_stopped_running = [], us_stopped_preempted = []\<rparr>"
  have core: "core_inv V c (\<lambda>_. 0) ?d ?W (s\<lparr>running := running s\<rparr>)" and wq: "wq_ok (sc_policy c) (waiting_q s)"
    and prev: "prev_ok (set ?W) s" using inv by (simp_all add: sched_inv_def)
  have dr: "distinct (running s)" using core by (simp add: core_inv_def)
  have d: "\<forall>rid. ?d rid = (if rid \<in> fst ` set ?al then ?d rid else 0)"
  proof
    fix rid
    have "map_of (so_spec_decode_tokens so) rid = None" if "rid \<notin> fst ` set ?al" using that so by (auto simp: output_ok_def map_of_eq_None_iff)
    then show "?d rid = (if rid \<in> fst ` set ?al then ?d rid else 0)" by (simp add: drafts_def)
  qed
  have req: "\<forall>rid \<in> fst ` set ?al. \<forall>n. requests s rid = Some n \<longrightarrow> n \<in> set (running s) \<and> output_for so mo (objs s n)"
    using so mo by (fastforce simp: output_ok_def outputs_ok_def)
  have pos: "\<forall>(rid, k) \<in> set ?al. 0 < k" "distinct (map fst ?al)" using so by (auto simp: output_ok_def)
  obtain s1 u dead where s1: "foldM (update_one env ?upd so mo) ?al (s, ?u) = Inr (s1, u)"
    "core_inv V c (\<lambda>_. 0) (\<lambda>_. 0) ?W (s1\<lparr>running := filter (\<lambda>m. m \<notin> dead) (running s)\<rparr>)"
    "set (us_stopped_running u) = set (us_stopped_running ?u) \<union> dead" "us_stopped_preempted u = us_stopped_preempted ?u"
    "running s1 = running s" "waiting_q s1 = waiting_q s" "prev_step_scheduled_req_ids s1 = prev_step_scheduled_req_ids s"
    "\<forall>m \<in> set ?W. objs s1 m = objs s m" "no_placeholders s1"
    using update_loop_ok [OF core cf pos(2,1) req np d refl, of ?u] by blast
  define s2 where "s2 = (if us_stopped_running u \<noteq> [] then s1\<lparr>running := remove_all (running s1) (us_stopped_running u)\<rparr> else s1)"
  have s2: "s2 = s1\<lparr>running := filter (\<lambda>m. m \<notin> dead) (running s)\<rparr>"
  proof (cases "us_stopped_running u = []")
    case True
    then have "dead = {}" using s1(3) by simp
    then show ?thesis using True s1(5) by (simp add: s2_def flip: s1(5))
  next
    case False
    then show ?thesis using s1(3,5) remove_all_filter [OF dr, of "us_stopped_running u"] by (simp add: s2_def)
  qed
  obtain evs k where k: "km_take_events (kv s2) = (evs, k)" by (cases "km_take_events (kv s2)")
  have "v_ok V (kv s2)" using s1(2) s2 by (simp add: core_inv_def)
  note ev = events [OF this k]
  define s' where "s' = s2\<lparr>kv := k, finished_req_ids_dict := map_option (\<lambda>_. []) (finished_req_ids_dict s2)\<rparr>"
  have core2: "core_inv V c (\<lambda>_. 0) (\<lambda>_. 0) ?W s2" using s1(2) s2 by simp
  have "core_inv V c (\<lambda>_. 0) (\<lambda>_. 0) ?W s'"
    using core_fields [OF core_kv [OF core2], of k s'] ev by (simp add: s'_def)
  moreover have S: "waiting_q s' = waiting_q s" "running s' = filter (\<lambda>m. m \<notin> dead) (running s)" "objs s' = objs s1"
    "prev_step_scheduled_req_ids s' = prev_step_scheduled_req_ids s" "requests s' = requests s1" using s1 s2 by (simp_all add: s'_def)
  moreover have "prev_ok (set ?W) s'" using prev s1(8) S by (simp add: prev_ok_def)
  ultimately have "sched_inv V c (\<lambda>_. 0) s'" using wq by (simp add: sched_inv_def)
  moreover have "update_from_output env ?upd so mo s = Inr (us_outputs u, finished_sets s2, evs, s')"
    using s1(1,4) k unfolding update_from_output_def by (simp add: s2_def [symmetric] Let_def s'_def)
  moreover have "no_placeholders s'" using s1(9) S by (simp add: no_placeholders_def)
  ultimately show ?thesis using S by (intro exI) auto
qed

end

end
