(* ===== verification/Engine.thy ===== *)
theory Engine
  imports Sched_Output
begin

text \<open>
  The engine around the scheduler (\<open>EngineCore.step\<close> of \<open>vllm/v1/engine/core.py\<close>): between two steps requests
  are added and finished, drafts arrive and the prefix cache is reset; a step calls \<open>schedule\<close>, lets the
  worker run, during which requests may be finished, and calls \<open>update_from_output\<close>.  The worker is the
  environment: its output is any that keeps its promise.  The theorems hold in every state the engine can
  reach from the constructor of the scheduler.
\<close>

section \<open>States and steps\<close>

datatype engine_phase = Idle | Busy sched_output

text \<open>A model with one group of KV caches.\<close>

definition single_group :: "kv_cache_config \<Rightarrow> nat \<Rightarrow> bool \<Rightarrow> bool" where
  "single_group cfg hbs eagle \<longleftrightarrow> 0 < num_blocks cfg \<and>
     (\<exists>g spec. kv_cache_groups cfg = [g] \<and> plain_group g \<and> group_spec g = Layer spec \<and> int hbs = layer_block_size spec
        \<and> finder_ok spec eagle (int hbs) 1 1)"

text \<open>What the front end promises of a request: it is new, it has tokens and fits the model, and its hashes
  are computed.  The scope is text requests without LoRA adapters when adapters are limited.\<close>

definition new_request_ok :: "hash_fn \<Rightarrow> bytes \<Rightarrow> sched_config \<Rightarrow> sched \<Rightarrow> request \<Rightarrow> bool" where
  "new_request_ok H nh c s r \<longleftrightarrow> status r \<in> {WAITING, WAITING_FOR_FSM} \<and> num_computed_tokens r = 0 \<and> num_output_placeholders r = 0
     \<and> plain_request c r \<and> 0 < num_tokens r \<and> num_tokens r < sc_max_model_len c \<and> generation_ok (sc_max_model_len c) r
     \<and> kv_hashed H nh (kv s) r
     \<and> requests s (request_id r) = None \<and> obj_id r \<notin> set (running s) \<union> set (waiting_ids (waiting_q s))"

text \<open>The clock, the order of enumerating sets and the grammars are those of the environment.\<close>

definition env_ok :: "sched_config \<Rightarrow> sched_env \<Rightarrow> bool" where
  "env_ok c env \<longleftrightarrow> 0 < max_num_scheduled_tokens c \<and> 0 \<le> num_lookahead_tokens c \<and> env_order env [] = []"

inductive engine_step ::
  "hash_fn \<Rightarrow> bytes \<Rightarrow> sched_config \<Rightarrow> sched \<times> engine_phase \<Rightarrow> sched \<times> engine_phase \<Rightarrow> bool"
  for H nh c where
  add: "new_request_ok H nh c s r \<Longrightarrow> engine_step H nh c (s, Idle) (add_request c now r s, Idle)"
| schedule: "env_ok c env \<Longrightarrow> schedule c env s = Some (Inr (so, s')) \<Longrightarrow> engine_step H nh c (s, Idle) (s', Busy so)"
| finish: "env_ok c env \<Longrightarrow> status_is_finished st \<Longrightarrow> distinct rids \<Longrightarrow> finish_requests env rids st s = Inr s' \<Longrightarrow>
    engine_step H nh c (s, p) (s', p)"
| update: "env_ok c env \<Longrightarrow> outputs_ok so mo s \<Longrightarrow>
    update_from_output env (update_request_with_output (kv_hasher H nh (kv s)) c) so mo s = Inr (outs, finished, evs, s') \<Longrightarrow>
    engine_step H nh c (s, Busy so) (s', Idle)"
| drafts: "engine_step H nh c (s, Idle) (update_draft_token_ids validate ds s, Idle)"
| reset: "env_ok c env \<Longrightarrow> reset_prefix_cache_sched c env rr conn s = Inr (b, s') \<Longrightarrow> engine_step H nh c (s, Idle) (s', Idle)"

inductive_cases engine_step_cases: "engine_step H nh c (s, p) (s', p')"

inductive engine_reach :: "hash_fn \<Rightarrow> bytes \<Rightarrow> sched_config \<Rightarrow> sched \<times> engine_phase \<Rightarrow> bool" for H nh c where
  start: "hash_ideal H nh \<Longrightarrow> single_group cfg hbs (sc_use_eagle c) \<Longrightarrow>
    Scheduler_init c cfg hbs gpu_blocks encoder_size True kv_events include_finished 1 1 use_int mem = Inr s \<Longrightarrow>
    engine_reach H nh c (s, Idle)"
| step: "engine_reach H nh c sp \<Longrightarrow> engine_step H nh c sp sp' \<Longrightarrow> engine_reach H nh c sp'"

section \<open>The invariant\<close>

fun engine_inv :: "kv_view \<Rightarrow> sched_config \<Rightarrow> sched \<times> engine_phase \<Rightarrow> bool" where
  "engine_inv V c (s, Idle) \<longleftrightarrow> sched_inv V c (\<lambda>_. 0) s \<and> no_placeholders s"
| "engine_inv V c (s, Busy so) \<longleftrightarrow> sched_inv V c (Sched_Step.drafts (so_spec_decode_tokens so)) s \<and> no_placeholders s \<and> output_ok so s"

lemma KVCacheManager_init_eagle:
  assumes "KVCacheManager_init cfg mx hbs caching ue logging kve dcp pcp ui = Inr k"
  shows "c_use_eagle (km_coordinator k) = ue"
proof -
  have base: "c_use_eagle c = ue" if "KVCacheCoordinator_init cfg ue b kve dcp pcp hbs ui = Inr c" for b c
    using that by (auto simp: KVCacheCoordinator_init_def)
  have u: "c_use_eagle c' = c_use_eagle c" if "UnitaryKVCacheCoordinator_init caching dcp pcp hbs c = Inr c'" for c c'
    using that by (auto simp: UnitaryKVCacheCoordinator_init_def Let_def py_assert_def split: list.splits option.splits if_splits)
  have h: "c_use_eagle c' = c_use_eagle c" if "HybridKVCacheCoordinator_init dcp pcp hbs c = Inr c'" for c c'
    using that by (auto simp: HybridKVCacheCoordinator_init_def py_assert_def split: if_splits)
  obtain c where "get_kv_cache_coordinator cfg ue caching kve dcp pcp hbs ui = Inr c" "km_coordinator k = c"
    using assms by (auto simp: KVCacheManager_init_def)
  then show ?thesis using base u h by (auto simp: get_kv_cache_coordinator_def split: if_splits)
qed

lemma Scheduler_init_ok:
  assumes "hash_ideal H nh" and g: "single_group cfg hbs (sc_use_eagle c)" and gpu: "0 < gpu_blocks"
  shows "\<exists>s. Scheduler_init c cfg hbs gpu_blocks es True ke incl 1 1 ui mem = Inr s
    \<and> engine_inv (manager_view (sc_max_model_len c) H nh) c (s, Idle)"
proof -
  let ?V = "manager_view (sc_max_model_len c) H nh"
  obtain g spec where g: "kv_cache_groups cfg = [g]" "plain_group g" "group_spec g = Layer spec" "int hbs = layer_block_size spec"
    "finder_ok spec (sc_use_eagle c) (int hbs) 1 1" "0 < num_blocks cfg" using assms(2) by (auto simp: single_group_def)
  note init = unitary_init_ok [OF g(6,1-4), of "sc_max_model_len c" "sc_use_eagle c" "sc_log_stats c" ke ui]
  obtain k where k: "KVCacheManager_init cfg (sc_max_model_len c) hbs True (sc_use_eagle c) (sc_log_stats c) ke 1 1 ui = Inr k"
    "km_inv k" "unitary k spec (layer_block_size spec)" "km_max_model_len k = sc_max_model_len c" "km_enable_caching k" using init by blast
  have fresh: "list_all (\<lambda>m. fresh_request m rid) (km_managers k)" for rid using init [of rid] k(1) by auto
  have eagle: "c_use_eagle (km_coordinator k) = sc_use_eagle c" by (rule KVCacheManager_init_eagle [OF k(1)])
  obtain m where m: "km_managers k = [m]" "m_spec m = spec" "m_block_size m = int hbs" "kv_cache_group_id m = 0"
    "hash_block_size (km_pool k) = hbs" "0 < hbs" using k(3) g(4) by (auto simp: unitary_def)
  have "\<not> is_cross spec" using g(5) by (cases spec) simp_all
  moreover have "0 \<le> speculative_tokens m" using m(2,3,6) g(4) by (cases spec) (auto simp: speculative_tokens_def)
  moreover have "block_size_ok hbs (nat (m_block_size m))" "group_id_ok (kv_cache_group_id m)"
    using m(3,4,6) by (simp_all add: block_size_ok_def group_id_ok_def)
  moreover have "unitary k spec (int hbs) \<and> finder_ok spec (c_use_eagle (km_coordinator k)) (int hbs) 1 1" using k(3) g(4,5) eagle by simp
  ultimately have ok: "kv_ok (sc_max_model_len c) H nh k"
    using k(2,4) m(1,2,5) assms(1) unfolding kv_ok_def by auto
  define s where "s = \<lparr>objs = mem, requests = Map.empty, waiting_q = create_request_queue (sc_policy c), running = [],
     finished_req_ids = [], finished_req_ids_dict = (if incl then Some [] else None), prev_step_scheduled_req_ids = [], kv = k,
     enc = (if is_encoder_decoder c then EncDec (EncoderDecoderCacheManager es) else Enc (EncoderCacheManager es))\<rparr>"
  have run: "Scheduler_init c cfg hbs gpu_blocks es True ke incl 1 1 ui mem = Inr s"
    using gpu k(1) by (simp add: Scheduler_init_def py_assert_def s_def)
  have "engine_inv ?V c (s, Idle)"
    using ok fresh by (simp add: sched_inv_def core_inv_def ids_ok_def prev_ok_def no_placeholders_def waiting_ids_def s_def
        manager_view_def kv_absent_def list_all_iff)
  then show ?thesis using run by blast
qed

text \<open>Every step keeps it.\<close>

lemma no_placeholders_frame: "no_placeholders s \<Longrightarrow> sched_frame s s' \<Longrightarrow> no_placeholders s'"
  unfolding no_placeholders_def sched_frame_def using touched_request_fields(7) by metis

lemma env_config_ok: "env_ok c env \<Longrightarrow> config_ok (manager_view (sc_max_model_len c) H nh) c env"
  by (simp add: env_ok_def config_ok_def manager_view_def)

lemma schedule_engine:
  assumes inv: "engine_inv (manager_view (sc_max_model_len c) H nh) c (s, Idle)" and env: "env_ok c env"
  shows "\<exists>so s'. schedule c env s = Some (Inr (so, s')) \<and> engine_inv (manager_view (sc_max_model_len c) H nh) c (s', Busy so)
    \<and> sched_frame s s' \<and> so_total_num_scheduled_tokens so = sum_list (map snd (so_num_scheduled_tokens so))
    \<and> so_total_num_scheduled_tokens so \<le> max_num_scheduled_tokens c
    \<and> (\<forall>(rid, k) \<in> set (so_num_scheduled_tokens so). 0 < k \<and> (\<exists>n \<in> set (running s'). requests s' rid = Some n))
    \<and> (\<forall>n \<in> set (running s) \<inter> set (running s'). num_computed_tokens (objs s' n) =
         num_computed_tokens (objs s n) + tok (so_num_scheduled_tokens so) (request_id (objs s n)))"
proof -
  let ?V = "manager_view (sc_max_model_len c) H nh"
  have i: "sched_inv ?V c (\<lambda>_. 0) s" "no_placeholders s" using inv by simp_all
  from kv.schedule_ok [OF i(1) env_config_ok [OF env]]
  obtain so s' where so: "schedule c env s = Some (Inr (so, s'))" "sched_inv ?V c (Sched_Step.drafts (so_spec_decode_tokens so)) s'" "sched_frame s s'"
    "so_total_num_scheduled_tokens so = sum_list (map snd (so_num_scheduled_tokens so))"
    "so_total_num_scheduled_tokens so \<le> max_num_scheduled_tokens c" "distinct (map fst (so_num_scheduled_tokens so))"
    "\<forall>(rid, k) \<in> set (so_num_scheduled_tokens so). 0 < k \<and> (\<exists>n \<in> set (running s'). requests s' rid = Some n)"
    "\<forall>n \<in> set (running s) \<inter> set (running s'). num_computed_tokens (objs s' n) =
         num_computed_tokens (objs s n) + tok (so_num_scheduled_tokens so) (request_id (objs s n))"
    "fst ` set (so_spec_decode_tokens so) \<subseteq> fst ` set (so_num_scheduled_tokens so)" by blast
  have "output_ok so s'" using so(6,7,9) unfolding output_ok_def by fastforce
  then show ?thesis using so no_placeholders_frame [OF i(2) so(3)] by (intro exI [of _ so] exI [of _ s']) simp
qed

lemma finish_engine:
  assumes inv: "engine_inv (manager_view (sc_max_model_len c) H nh) c (s, p)" and env: "env_ok c env"
    and st: "status_is_finished st" and ids: "distinct rids"
  shows "\<exists>s'. finish_requests env rids st s = Inr s' \<and> engine_inv (manager_view (sc_max_model_len c) H nh) c (s', p)
    \<and> (\<forall>rid. requests s' rid = (if rid \<in> set rids then None else requests s rid))"
proof -
  let ?V = "manager_view (sc_max_model_len c) H nh"
  have ord: "env_order env [] = []" using env by (simp add: env_ok_def)
  define d where "d = (case p of Idle \<Rightarrow> (\<lambda>_. 0) | Busy so \<Rightarrow> Sched_Step.drafts (so_spec_decode_tokens so))"
  have i: "sched_inv ?V c d s" "no_placeholders s" using inv by (cases p; simp add: d_def)+
  obtain s' where s': "finish_requests env rids st s = Inr s'" "sched_inv ?V c d s'"
    "\<forall>rid. requests s' rid = (if rid \<in> set rids then None else requests s rid)"
    "\<forall>rid n. requests s' rid = Some n \<longrightarrow> objs s' n = objs s n"
    "running s' = filter (\<lambda>n. request_id (objs s n) \<notin> set rids) (running s)"
    using kv.finish_requests_ok [OF i(1) st ord ids] by blast
  have old: "requests s rid = Some n" "rid \<notin> set rids" if "requests s' rid = Some n" for rid n
    using that s'(3) by (auto split: if_splits)
  have np: "no_placeholders s'" using i(2) s'(4) old(1) unfolding no_placeholders_def by metis
  have "output_ok so s'" if so: "output_ok so s" for so
  proof -
    have "n \<in> set (running s')" if n: "requests s' rid = Some n" and r: "n \<in> set (running s)" for rid n
    proof -
      have "request_id (objs s n) = rid" using old [OF n] i(1) by (auto simp: sched_inv_def core_inv_def ids_ok_def)
      then show ?thesis using old [OF n] r s'(5) by simp
    qed
    then show ?thesis using so old(1) unfolding output_ok_def by fastforce
  qed
  then show ?thesis using s'(1-3) np inv by (cases p) (auto simp: d_def)
qed

lemma update_engine:
  assumes inv: "engine_inv (manager_view (sc_max_model_len c) H nh) c (s, Busy so)" and env: "env_ok c env" and mo: "outputs_ok so mo s"
  shows "\<exists>outs finished evs s'. update_from_output env (update_request_with_output (kv_hasher H nh (kv s)) c) so mo s =
      Inr (outs, finished, evs, s') \<and> engine_inv (manager_view (sc_max_model_len c) H nh) c (s', Idle)"
  using kv.update_from_output_ok [OF _ env_config_ok [OF env] _ mo, where nh = nh] inv by fastforce

lemma reset_engine:
  assumes inv: "engine_inv (manager_view (sc_max_model_len c) H nh) c (s, Idle)" and env: "env_ok c env"
  shows "\<exists>b s'. reset_prefix_cache_sched c env rr conn s = Inr (b, s') \<and> engine_inv (manager_view (sc_max_model_len c) H nh) c (s', Idle)
    \<and> (rr \<longrightarrow> b = (\<not> conn) \<and> running s' = [])"
proof -
  let ?V = "manager_view (sc_max_model_len c) H nh"
  have ord: "env_order env [] = []" using env by (simp add: env_ok_def)
  have i: "sched_inv ?V c (\<lambda>_. 0) s" "no_placeholders s" using inv by simp_all
  obtain b s' where s': "reset_prefix_cache_sched c env rr conn s = Inr (b, s')" "sched_inv ?V c (\<lambda>_. 0) s'" "requests s' = requests s"
    "\<forall>m. num_output_placeholders (objs s' m) = 0 \<or> objs s' m = objs s m" "rr \<longrightarrow> b = (\<not> conn) \<and> running s' = []"
    using kv.reset_prefix_cache_sched_ok [OF i(1) ord] by blast
  have "no_placeholders s'" unfolding no_placeholders_def
  proof (intro allI impI)
    fix rid n assume "requests s' rid = Some n"
    then have "num_output_placeholders (objs s n) = 0" using i(2) s'(3) by (simp add: no_placeholders_def)
    then show "num_output_placeholders (objs s' n) = 0" using s'(4) by metis
  qed
  then show ?thesis using s' by auto
qed

lemma engine_step_inv:
  assumes "engine_step H nh c sp sp'" and "engine_inv (manager_view (sc_max_model_len c) H nh) c sp"
  shows "engine_inv (manager_view (sc_max_model_len c) H nh) c sp'"
  using assms
proof (induction rule: engine_step.induct)
  case (add s r now)
  let ?V = "manager_view (sc_max_model_len c) H nh" and ?s = "add_request c now r s"
  have i: "sched_inv ?V c (\<lambda>_. 0) s" "no_placeholders s" using add.prems by simp_all
  have r: "request_ok ?V c (kv s) r" "status r \<in> {WAITING, WAITING_FOR_FSM}" "num_computed_tokens r = 0" "requests s (request_id r) = None"
    "obj_id r \<notin> set (running s) \<union> set (waiting_ids (waiting_q s))" "num_output_placeholders r = 0"
    using add.hyps by (simp_all add: new_request_ok_def request_ok_def manager_view_def)
  note a = kv.add_request_ok [OF i(1) r(1-5), of now]
  have "objs ?s = (objs s)(obj_id r := (if sc_log_stats c then record_event EV_QUEUED now r else r))"
    by (simp add: add_request_def Let_def set_obj_def)
  moreover have "n \<in> set (running s) \<union> set (waiting_ids (waiting_q s))" if "requests s rid = Some n" for rid n
    using that i(1) by (simp add: sched_inv_def core_inv_def ids_ok_def)
  ultimately have "no_placeholders ?s"
    using i(2) a(2) r(5,6) by (auto simp: no_placeholders_def record_event_def)
  then show ?case using a(1) by simp
next
  case (drafts s validate ds)
  have "sched_inv (manager_view (sc_max_model_len c) H nh) c (\<lambda>_. 0) s" "no_placeholders s" using drafts by simp_all
  then show ?case using kv.update_drafts_ok [of "sc_max_model_len c" H nh c "\<lambda>_. 0" s validate ds] no_placeholders_frame by simp
next
  case (schedule env s so s')
  then show ?case using schedule_engine [OF schedule.prems schedule.hyps(1)] by auto
next
  case (finish env st rids s s' p)
  then show ?case using finish_engine [OF finish.prems finish.hyps(1-3)] by auto
next
  case (update env so mo s outs finished evs s')
  then show ?case using update_engine [OF update.prems update.hyps(1,2)] by auto
next
  case (reset env rr conn s b s')
  then show ?case using reset_engine [OF reset.prems reset.hyps(1)] by (metis Inr_inject prod.inject)
qed

lemma engine_reach_inv:
  "engine_reach H nh c sp \<Longrightarrow> engine_inv (manager_view (sc_max_model_len c) H nh) c sp"
proof (induction rule: engine_reach.induct)
  case (start cfg hbs gpu_blocks encoder_size kv_events include_finished use_int mem s)
  have "0 < gpu_blocks" using start(3) by (simp add: Scheduler_init_def py_assert_def split: if_splits)
  from Scheduler_init_ok [OF start(1,2) this, of encoder_size kv_events include_finished use_int mem] show ?case using start(3) by auto
next
  case (step sp sp')
  then show ?case using engine_step_inv by blast
qed

lemma engine_reach_core:
  assumes "engine_reach H nh c (s, p)"
  obtains d where "sched_inv (manager_view (sc_max_model_len c) H nh) c d s" "p = Idle \<Longrightarrow> d = (\<lambda>_. 0)" "no_placeholders s"
  using engine_reach_inv [OF assms] by (cases p) auto

section \<open>A small engine\<close>

definition sample_sched_config :: sched_config where
  "sample_sched_config = \<lparr>sc_policy = FCFS, max_num_running_reqs = 4, max_num_scheduled_tokens = 64, sc_max_model_len = 100,
     long_prefill_token_threshold = 0, enable_chunked_prefill = True, no_chunked_mm_input = False, max_loras = None,
     is_encoder_decoder = False, sc_use_eagle = False, num_spec_tokens = 0, num_lookahead_tokens = 0, num_encoder_max_input_tokens = 0,
     max_num_encoder_input_tokens = 0, sc_log_stats = True, use_pp = False, use_v2_model_runner = False\<rparr>"

definition sample_env :: sched_env where
  "sample_env = \<lparr>env_now = 0, env_order = (\<lambda>xs. xs), env_grammar = (\<lambda>_. True), env_remote = None\<rparr>"

definition sample_engine :: sched where
  "sample_engine = projr (Scheduler_init sample_sched_config sample_config 16 7 0 True False False 1 1 False (\<lambda>_. sample_request [] []))"

definition sample_waiting :: sched where
  "sample_waiting = add_request sample_sched_config 0 (sample_request ''r'' [1, 2, 3]) sample_engine"

definition sample_output :: model_output where
  "sample_output = \<lparr>mo_req_id_to_index = [(''r'', 0)], mo_sampled_token_ids = [[7]], mo_pooler_output = []\<rparr>"

lemma sample_env_ok: "env_ok sample_sched_config sample_env"
  by (simp add: env_ok_def sample_sched_config_def sample_env_def)

lemma sample_engine_ok:
  "engine_reach plain_hash [0] sample_sched_config (sample_engine, Idle)" "kv sample_engine = sample_kvm"
  "requests sample_engine = Map.empty" "running sample_engine = []" "waiting_q sample_engine = FCFSRequestQueue []"
proof -
  have g: "single_group sample_config 16 (sc_use_eagle sample_sched_config)"
    by (simp add: single_group_def sample_config_def plain_group_def sample_full_def sample_attention_def)
  from Scheduler_init_ok [OF plain_hash_ideal this, of 7 0 False False False "\<lambda>_. sample_request [] []"]
  obtain s where s: "Scheduler_init sample_sched_config sample_config 16 7 0 True False False 1 1 False (\<lambda>_. sample_request [] []) = Inr s"
    by auto
  then have e: "sample_engine = s" by (simp add: sample_engine_def)
  show "engine_reach plain_hash [0] sample_sched_config (sample_engine, Idle)"
    unfolding e by (rule engine_reach.start [OF plain_hash_ideal g s])
  show "kv sample_engine = sample_kvm" "requests sample_engine = Map.empty" "running sample_engine = []"
    "waiting_q sample_engine = FCFSRequestQueue []"
    using s unfolding e by (auto simp: Scheduler_init_def py_assert_def sample_kvm_def sample_sched_config_def create_request_queue_def)
qed

lemma sample_waiting_ok:
  "engine_reach plain_hash [0] sample_sched_config (sample_waiting, Idle)" "requests sample_waiting = [''r'' \<mapsto> 0]"
  "request_id (objs sample_waiting 0) = ''r''" "pooling (objs sample_waiting 0) = None"
proof -
  let ?r = "sample_request ''r'' [1, 2, 3]"
  have h: "hash_block_size (km_pool sample_kvm) = 16" by (rule sample_kvm_manager) simp
  have "new_request_ok plain_hash [0] sample_sched_config sample_engine ?r"
    unfolding new_request_ok_def kv_hashed_def hashes_ok_def sample_engine_ok h
    by (simp add: sample_request_def plain_request_def generation_ok_def num_tokens_def num_output_tokens_def waiting_ids_def
        sample_sched_config_def)
  from engine_reach.step [OF sample_engine_ok(1) engine_step.add [OF this]]
  show "engine_reach plain_hash [0] sample_sched_config (sample_waiting, Idle)" by (simp add: sample_waiting_def)
  show "requests sample_waiting = [''r'' \<mapsto> 0]" "request_id (objs sample_waiting 0) = ''r''" "pooling (objs sample_waiting 0) = None"
    by (simp_all add: sample_waiting_def add_request_def Let_def set_obj_def sample_engine_ok sample_request_def record_event_def)
qed

text \<open>The same engine while its first step runs.\<close>

lemma sample_busy_ok:
  "\<exists>so s. engine_reach plain_hash [0] sample_sched_config (s, Busy so) \<and> outputs_ok so sample_output s \<and> requests s = [''r'' \<mapsto> 0]"
proof -
  from schedule_engine [OF engine_reach_inv [OF sample_waiting_ok(1)] sample_env_ok]
  obtain so s where s: "schedule sample_sched_config sample_env sample_waiting = Some (Inr (so, s))" "sched_frame sample_waiting s" by blast
  have r: "requests s = [''r'' \<mapsto> 0]" "touched_request (objs sample_waiting 0) (objs s 0)"
    using s(2) sample_waiting_ok(2) by (simp_all add: sched_frame_def)
  then have o: "request_id (objs s 0) = ''r''" "pooling (objs s 0) = None" using sample_waiting_ok(3,4) by (auto simp: touched_request_def)
  have "output_entry sample_output ''r'' = Inr ([7], None)" by (simp add: output_entry_def sample_output_def dget_def py_index_def py_position_def)
  then have "outputs_ok so sample_output s" using r(1) o by (auto simp: outputs_ok_def output_for_def Let_def split: if_splits)
  then show ?thesis using engine_reach.step [OF sample_waiting_ok(1) engine_step.schedule [OF sample_env_ok s(1)]] r(1) by blast
qed

section \<open>The engine is safe\<close>

text \<open>C1: scheduling never fails.  In every state the engine can reach between two steps, \<open>schedule\<close> ends
  without raising: none of its assertions fails, and no lookup of a dictionary or a list misses.  The tokens of
  the step are within the budget and the running queue within its limit, every scheduled request is a running
  one with a positive number of tokens, and a request that was and stays running advances by exactly its tokens.\<close>

theorem schedule_never_fails:
  assumes "engine_reach H nh c (s, Idle)" and "env_ok c env"
  shows "\<exists>so s'. schedule c env s = Some (Inr (so, s'))
    \<and> so_total_num_scheduled_tokens so = sum_list (map snd (so_num_scheduled_tokens so))
    \<and> so_total_num_scheduled_tokens so \<le> max_num_scheduled_tokens c \<and> length (running s') \<le> max_num_running_reqs c
    \<and> (\<forall>(rid, k) \<in> set (so_num_scheduled_tokens so). 0 < k \<and> (\<exists>n \<in> set (running s'). requests s' rid = Some n))
    \<and> (\<forall>n \<in> set (running s) \<inter> set (running s'). num_computed_tokens (objs s' n) =
         num_computed_tokens (objs s n) + tok (so_num_scheduled_tokens so) (request_id (objs s n)))"
proof -
  from schedule_engine [OF engine_reach_inv [OF assms(1)] assms(2)]
  obtain so s' where so: "schedule c env s = Some (Inr (so, s'))"
    "engine_inv (manager_view (sc_max_model_len c) H nh) c (s', Busy so)"
    "so_total_num_scheduled_tokens so = sum_list (map snd (so_num_scheduled_tokens so))"
    "so_total_num_scheduled_tokens so \<le> max_num_scheduled_tokens c"
    "\<forall>(rid, k) \<in> set (so_num_scheduled_tokens so). 0 < k \<and> (\<exists>n \<in> set (running s'). requests s' rid = Some n)"
    "\<forall>n \<in> set (running s) \<inter> set (running s'). num_computed_tokens (objs s' n) =
         num_computed_tokens (objs s n) + tok (so_num_scheduled_tokens so) (request_id (objs s n))" by blast
  then have "length (running s') \<le> max_num_running_reqs c" by (simp add: sched_inv_def core_inv_def)
  then show ?thesis using so by blast
qed

theorem schedule_never_fails_witness:
  "\<exists>so s'. schedule sample_sched_config sample_env sample_waiting = Some (Inr (so, s')) \<and> so_total_num_scheduled_tokens so \<le> 64"
  using schedule_never_fails [OF sample_waiting_ok(1) sample_env_ok] by (auto simp: sample_sched_config_def)

text \<open>C3: processing the output never fails.  For every output of the worker that keeps its promise,
  \<open>update_from_output\<close> returns, also when requests were finished while the step ran; it takes the stopped
  requests out of the running queue, and afterwards no request counts more computed tokens than it has tokens,
  however many drafts were rejected, and every request has room for another token.\<close>

theorem update_never_fails:
  assumes "engine_reach H nh c (s, Busy so)" and "env_ok c env" and "outputs_ok so mo s"
  shows "\<exists>outs finished evs s'. update_from_output env (update_request_with_output (kv_hasher H nh (kv s)) c) so mo s =
      Inr (outs, finished, evs, s')
    \<and> set (running s') \<subseteq> set (running s) \<and> waiting_q s' = waiting_q s
    \<and> (\<forall>n \<in> set (running s'). num_computed_tokens (objs s' n) \<le> num_tokens (objs s' n) \<and> num_tokens (objs s' n) < sc_max_model_len c)"
proof -
  let ?V = "manager_view (sc_max_model_len c) H nh"
  have i: "sched_inv ?V c (Sched_Step.drafts (so_spec_decode_tokens so)) s" "output_ok so s" "no_placeholders s"
    using engine_reach_inv [OF assms(1)] by simp_all
  from kv.update_from_output_ok [OF i(1) env_config_ok [OF assms(2)] i(2) assms(3) i(3)]
  obtain outs finished evs s' where u: "update_from_output env (update_request_with_output (kv_hasher H nh (kv s)) c) so mo s =
      Inr (outs, finished, evs, s')" "sched_inv ?V c (\<lambda>_. 0) s'" "no_placeholders s'"
    "set (running s') \<subseteq> set (running s)" "waiting_q s' = waiting_q s" by auto
  have "num_computed_tokens (objs s' n) \<le> num_tokens (objs s' n) \<and> num_tokens (objs s' n) < sc_max_model_len c" if "n \<in> set (running s')" for n
  proof -
    have "running_ok ?V c (\<lambda>_. 0) (\<lambda>_. 0) (kv s') (objs s' n)" "requests s' (request_id (objs s' n)) = Some n"
      using u(2) that by (simp_all add: sched_inv_def core_inv_def ids_ok_def)
    then show ?thesis using u(3) by (simp add: running_ok_def request_ok_def Let_def no_placeholders_def manager_view_def)
  qed
  then show ?thesis using u by blast
qed

theorem update_never_fails_witness:
  "\<exists>so s outs finished evs s'. update_from_output sample_env (update_request_with_output (kv_hasher plain_hash [0] (kv s)) sample_sched_config)
     so sample_output s = Inr (outs, finished, evs, s') \<and> requests s = [''r'' \<mapsto> 0] \<and> set (running s') \<subseteq> set (running s)"
proof -
  obtain so s where s: "engine_reach plain_hash [0] sample_sched_config (s, Busy so)" "outputs_ok so sample_output s" "requests s = [''r'' \<mapsto> 0]"
    using sample_busy_ok by blast
  from update_never_fails [OF s(1) sample_env_ok s(2)] show ?thesis using s(3) by blast
qed

text \<open>C2: memory safety of the cache.  In every state the engine can reach, also while a step runs, the KV
  cache manager keeps its invariant, every running request holds blocks for all tokens it counts as computed
  in every cache group, and neither a waiting request nor an unknown one holds any block.\<close>

theorem running_requests_have_slots:
  assumes "engine_reach H nh c (s, p)"
  shows "km_inv (kv s)
    \<and> (\<forall>n \<in> set (running s). \<forall>m \<in> set (km_managers (kv s)).
         cdiv (num_computed_tokens (objs s n)) (m_block_size m) \<le> int (length (blocks_of_request m (request_id (objs s n)))))
    \<and> (\<forall>n \<in> set (waiting_ids (waiting_q s)). \<forall>m \<in> set (km_managers (kv s)). blocks_of_request m (request_id (objs s n)) = [])
    \<and> (\<forall>rid. requests s rid = None \<longrightarrow> (\<forall>m \<in> set (km_managers (kv s)). blocks_of_request m rid = []))"
proof -
  obtain d where "sched_inv (manager_view (sc_max_model_len c) H nh) c d s" by (rule engine_reach_core [OF assms])
  then show ?thesis
    by (auto simp: sched_inv_def core_inv_def running_ok_def waiting_ok_def manager_view_def kv_ok_def kv_cap_def kv_absent_def
        fresh_request_def Let_def)
qed

theorem running_requests_have_slots_witness:
  "\<exists>s so. engine_reach plain_hash [0] sample_sched_config (s, Busy so) \<and> requests s = [''r'' \<mapsto> 0] \<and> km_inv (kv s)
    \<and> (\<forall>m \<in> set (km_managers (kv s)). blocks_of_request m ''other'' = [])"
proof -
  obtain so s where s: "engine_reach plain_hash [0] sample_sched_config (s, Busy so)" "requests s = [''r'' \<mapsto> 0]"
    using sample_busy_ok by blast
  from running_requests_have_slots [OF s(1)] show ?thesis using s by (intro exI [of _ s] exI [of _ so]) simp
qed

text \<open>C24: the scheduler state is well formed.  In every reachable state the two queues are disjoint and without
  duplicates, the table of requests holds exactly the queued ones, each under its own id, the running queue
  respects its limit, the statuses fit the queues, and computed tokens stay below the length of the model;
  between two steps they never exceed the tokens of the request.\<close>

theorem scheduler_well_formed:
  assumes "engine_reach H nh c (s, p)"
  shows "distinct (running s @ waiting_ids (waiting_q s)) \<and> length (running s) \<le> max_num_running_reqs c
    \<and> (\<forall>rid n. requests s rid = Some n \<longleftrightarrow> n \<in> set (running s) \<union> set (waiting_ids (waiting_q s)) \<and> request_id (objs s n) = rid)
    \<and> (\<forall>n \<in> set (running s). status (objs s n) = RUNNING \<and> 0 < num_computed_tokens (objs s n)
         \<and> num_computed_tokens (objs s n) < sc_max_model_len c
         \<and> (p = Idle \<longrightarrow> num_computed_tokens (objs s n) \<le> num_tokens (objs s n)))
    \<and> (\<forall>n \<in> set (waiting_ids (waiting_q s)). status (objs s n) \<in> {WAITING, WAITING_FOR_FSM, PREEMPTED} \<and> num_computed_tokens (objs s n) = 0)"
proof -
  let ?V = "manager_view (sc_max_model_len c) H nh" and ?W = "waiting_ids (waiting_q s)"
  obtain d where d: "sched_inv ?V c d s" "p = Idle \<Longrightarrow> d = (\<lambda>_. 0)" "no_placeholders s" using engine_reach_core [OF assms] by blast
  have core: "core_inv ?V c (\<lambda>_. 0) d ?W s" using d(1) by (simp add: sched_inv_def)
  then have ids: "ids_ok (set (running s) \<union> set ?W) s" by (simp add: core_inv_def)
  have "status (objs s n) = RUNNING \<and> 0 < num_computed_tokens (objs s n) \<and> num_computed_tokens (objs s n) < sc_max_model_len c
      \<and> (p = Idle \<longrightarrow> num_computed_tokens (objs s n) \<le> num_tokens (objs s n))" if n: "n \<in> set (running s)" for n
  proof -
    have "running_ok ?V c (\<lambda>_. 0) d (kv s) (objs s n)" by (rule kv.core_running [OF core n])
    moreover have "requests s (request_id (objs s n)) = Some n" using ids n by (simp add: ids_ok_def)
    ultimately show ?thesis using d(2,3) by (auto simp: running_ok_def Let_def no_placeholders_def manager_view_def)
  qed
  moreover have "requests s rid = Some n \<longleftrightarrow> n \<in> set (running s) \<union> set ?W \<and> request_id (objs s n) = rid" for rid n
    using ids by (auto simp: ids_ok_def)
  moreover have "\<forall>n \<in> set ?W. status (objs s n) \<in> {WAITING, WAITING_FOR_FSM, PREEMPTED} \<and> num_computed_tokens (objs s n) = 0"
    using core by (simp add: core_inv_def waiting_ok_def)
  ultimately show ?thesis using core by (simp add: core_inv_def)
qed

theorem scheduler_well_formed_witness:
  "distinct (running sample_waiting @ waiting_ids (waiting_q sample_waiting)) \<and> 0 \<in> set (running sample_waiting) \<union> set (waiting_ids (waiting_q sample_waiting))"
  using scheduler_well_formed [OF sample_waiting_ok(1)] sample_waiting_ok(2) by (metis fun_upd_same)

text \<open>A forced reset of the prefix cache always succeeds.  In every state between two steps,
  \<open>reset_prefix_cache\<close> with \<open>reset_running_requests\<close> preempts every running request, never raises its
  \<open>RuntimeError\<close>, and returns \<open>True\<close> unless a connector was to be reset.\<close>

theorem forced_reset_succeeds:
  assumes "engine_reach H nh c (s, Idle)" and "env_ok c env"
  shows "\<exists>s'. reset_prefix_cache_sched c env True conn s = Inr (\<not> conn, s') \<and> running s' = []"
  using reset_engine [OF engine_reach_inv [OF assms(1)] assms(2), of True conn] by auto

theorem forced_reset_succeeds_witness:
  "\<exists>s'. reset_prefix_cache_sched sample_sched_config sample_env True False sample_waiting = Inr (True, s') \<and> running s' = []"
  using forced_reset_succeeds [OF sample_waiting_ok(1) sample_env_ok, of False] by simp

end
