(* ===== verification/Lopt.thy ===== *)
theory Lopt
  imports Prelude
begin

text \<open>
  The lossless parallel tokenizer: \<open>vllm/tokenizers/lopt_wrapper.py\<close>, the helpers it uses from
  \<open>vllm/tokenizers/lopt_utils.py\<close>, and the C++ functions \<open>match\<close> and \<open>merge\<close> of
  \<open>benchmarks/csrc/match_merge.cpp\<close>.  A long text is split into overlapping chunks, every chunk is
  tokenized on its own, and the token lists are joined where the start offsets of two neighbours agree.
  The tokenizer of the library \<open>transformers\<close> is a parameter: \<open>worker\<close> tokenizes a chunk, \<open>short_call\<close>
  and \<open>fallback\<close> are the calls on the whole text.  Lengths fit the C++ type \<open>int\<close>, so the indices are
  natural numbers and integers.
\<close>

section \<open>Nested lists\<close>

text \<open>The lists of \<open>lopt_utils.py\<close>: numbers and lists of lists.  The branches for tensors and arrays are
  calls of the libraries.\<close>

datatype nested = Num int | Seq "nested list"

fun is_Seq :: "nested \<Rightarrow> bool" where
  "is_Seq (Seq _) = True"
| "is_Seq (Num _) = False"

fun elems :: "nested \<Rightarrow> nested list" where
  "elems (Seq xs) = xs"
| "elems (Num _) = []"

fun get_ndim :: "nested \<Rightarrow> nat result" where
  "get_ndim (Num _) = Inl ValueError"
| "get_ndim (Seq []) = Inl IndexError"
| "get_ndim (Seq (Num _ # _)) = Inr 1"
| "get_ndim (Seq (Seq ys # _)) = rbind (get_ndim (Seq ys)) (\<lambda>n. Inr (n + 1))"

fun size_loop :: "nat \<Rightarrow> nested \<Rightarrow> nat list result" where
  "size_loop 0 item = Inr []"
| "size_loop (Suc n) (Num _) = Inl TypeError"
| "size_loop (Suc n) (Seq []) = Inl IndexError"
| "size_loop (Suc n) (Seq (x # xs)) = rbind (size_loop n x) (\<lambda>shape. Inr (length (x # xs) # shape))"

definition get_size :: "nested \<Rightarrow> nat list result" where
  "get_size item = rbind (get_ndim item) (\<lambda>ndim. size_loop ndim item)"

text \<open>\<open>xs[start:end]\<close>: negative bounds count from the end, and both are clamped.\<close>

definition slice_bound :: "nat \<Rightarrow> int \<Rightarrow> nat" where
  "slice_bound len i = min len (nat (if i < 0 then i + int len else i))"

definition py_slice :: "'a list \<Rightarrow> int \<Rightarrow> int \<Rightarrow> 'a list" where
  "py_slice xs start stop =
     (let lo = slice_bound (length xs) start; hi = slice_bound (length xs) stop in take (hi - lo) (drop lo xs))"

fun slicing :: "nested \<Rightarrow> int \<Rightarrow> int \<Rightarrow> int \<Rightarrow> nested result" where
  "slicing item dim0 start stop =
     rbind (get_ndim item) (\<lambda>ndim.
       let dim = (if dim0 < 0 then int ndim + dim0 else dim0) in
       py_assert (dim < int ndim)
         (case item of
            Num _ \<Rightarrow> Inl ValueError
          | Seq xs \<Rightarrow>
              if dim = 0 then Inr (Seq (py_slice xs start stop))
              else rbind (mapM (\<lambda>subitem. slicing subitem (dim - 1) start stop) xs) (\<lambda>ys. Inr (Seq ys))))"

text \<open>\<open>concat\<close> with two lists, as \<open>merge\<close> calls it.\<close>

function concat2 :: "nested \<Rightarrow> nested \<Rightarrow> int \<Rightarrow> nested result" where
  "concat2 x y dim0 =
     rbind (get_ndim x) (\<lambda>ndim.
       let dim = (if dim0 < 0 then int ndim + dim0 else dim0) in
       py_assert (dim < int ndim)
         (case y of
            Num _ \<Rightarrow> Inl TypeError
          | Seq ys \<Rightarrow>
              if dim = 0 then Inr (Seq (elems x @ ys))
              else rbind (mapM (\<lambda>(u, v). concat2 u v (dim - 1)) (zip (elems x) ys)) (\<lambda>zs. Inr (Seq zs))))"
  by pat_completeness auto
termination
proof (relation "measure (\<lambda>(x, y, d). size y)", goal_cases)
  case (2 x y dim0 ndim dim ys p u v)
  then have "v \<in> set ys" by (auto dest: set_zip_rightD)
  then have "size v < size (Seq ys)" by (induction ys) auto
  with 2 show ?case by simp
qed simp

text \<open>\<open>flatten\<close> of a list: the loop removes one level while every element is a list, and does not end on the
  empty list, for which every element is one.\<close>

partial_function (option) flatten :: "nested list \<Rightarrow> nested list result option" where
  "flatten item =
     (if list_all is_Seq item then flatten (concat (map elems item))
      else Some (if list_ex is_Seq item then Inl AssertionError else Inr item))"

definition merge_part :: "nested \<Rightarrow> int \<Rightarrow> int \<Rightarrow> int \<Rightarrow> nested result" where
  "merge_part x l r merge_dim =
     rbind (get_size x) (\<lambda>shape. slicing x merge_dim (int (last shape) - l) (int (last shape) - r))"

text \<open>\<open>reduce\<close> over the lazy \<open>map\<close>: a part is computed just before it is appended; an empty sequence is a
  \<open>TypeError\<close>.\<close>

fun merge_rest :: "nested \<Rightarrow> nested list \<Rightarrow> int list \<Rightarrow> int \<Rightarrow> nested result" where
  "merge_rest acc (x # xs) (l # r # ms) merge_dim =
     rbind (merge_part x l r merge_dim) (\<lambda>y.
       rbind (concat2 acc y merge_dim) (\<lambda>acc'. merge_rest acc' xs ms merge_dim))"
| "merge_rest acc _ _ _ = Inr acc"

definition merge :: "nested list \<Rightarrow> int list \<Rightarrow> int \<Rightarrow> nested result" where
  "merge shards matches merge_dim =
     py_assert (length shards * 2 = length matches)
       (case (shards, matches) of
          (x # xs, l # r # ms) \<Rightarrow> rbind (merge_part x l r merge_dim) (\<lambda>y. merge_rest y xs ms merge_dim)
        | _ \<Rightarrow> Inl TypeError)"

section \<open>Chunks\<close>

text \<open>The generator \<open>chunks\<close> on a string.  It does not end when \<open>chunk_size\<close> is 0 and the text is long.\<close>

partial_function (option) chunks :: "'a list \<Rightarrow> nat \<Rightarrow> nat \<Rightarrow> 'a list list option" where
  "chunks sentence chunk_size overlap_length =
     (if length sentence > chunk_size + 100
      then Option.bind (chunks (drop chunk_size sentence) chunk_size overlap_length)
             (\<lambda>cs. Some (take (overlap_length + chunk_size) sentence # cs))
      else Some [sentence])"

text \<open>\<open>chunks\<close> on a sequence of strings: the batch is cut in step until every string is used up.\<close>

partial_function (option) batch_chunks :: "'a list list \<Rightarrow> nat \<Rightarrow> nat \<Rightarrow> 'a list list list option" where
  "batch_chunks sentence chunk_size overlap_length =
     (if list_ex (\<lambda>s. s \<noteq> []) sentence
      then Option.bind
             (batch_chunks (map (\<lambda>s. if length (drop chunk_size s) > 100 then drop chunk_size s else []) sentence)
                chunk_size overlap_length)
             (\<lambda>cs. Some (map (\<lambda>s. if length (drop chunk_size s) > 100 then take (overlap_length + chunk_size) s
                               else s) sentence # cs))
      else Some [])"

fun pairs :: "'a list \<Rightarrow> ('a \<times> 'a) list" where
  "pairs (a # b # xs) = (a, b) # pairs (b # xs)"
| "pairs _ = []"

section \<open>Matching\<close>

text \<open>The inner \<open>while\<close> loop: \<open>n0\<close> is \<open>i0 + 1\<close>.\<close>

fun skip_greater :: "int list \<Rightarrow> int \<Rightarrow> nat \<Rightarrow> nat \<Rightarrow> nat \<times> nat" where
  "skip_greater a limit 0 cur = (0, cur)"
| "skip_greater a limit (Suc i0) cur = (if limit < a ! i0 then skip_greater a limit i0 0 else (Suc i0, cur))"

record match_state =
  match_a :: nat
  match_b :: nat
  match_size :: nat

text \<open>The outer loop from \<open>len1 - 1\<close> down to 0.\<close>

fun match_loop :: "int list \<Rightarrow> int list \<Rightarrow> int \<Rightarrow> nat \<Rightarrow> nat \<Rightarrow> nat \<Rightarrow> match_state \<Rightarrow> match_state" where
  "match_loop a b chunk_size 0 n0 cur st = st"
| "match_loop a b chunk_size (Suc i1) n0 cur st =
     (let (n0', cur') = skip_greater a (b ! i1 + chunk_size) n0 cur in
      if 0 < n0' \<and> a ! (n0' - 1) = b ! i1 + chunk_size
      then match_loop a b chunk_size i1 (n0' - 1) (cur' + 1)
             (if match_size st < cur' then \<lparr>match_a = n0' - 1, match_b = i1, match_size = cur'\<rparr> else st)
      else match_loop a b chunk_size i1 n0' 0 st)"

definition cpp_match :: "int list \<Rightarrow> int list \<Rightarrow> int \<Rightarrow> int \<Rightarrow> int \<times> int" where
  "cpp_match a b chunk_size mismatch_thres =
     (let st = match_loop a b chunk_size (length b) (length a) 0 \<lparr>match_a = 0, match_b = 0, match_size = 0\<rparr> in
      if int (match_size st) \<le> mismatch_thres then (-1, -1)
      else (int (length a) - (int (match_a st) + int (match_size st) - 1),
            int (length b) - (int (match_b st) + int (match_size st) - 1)))"

definition cpp_match_wrapper :: "int list \<Rightarrow> int list \<Rightarrow> int \<Rightarrow> (int \<times> int) result" where
  "cpp_match_wrapper a b chunk_size =
     (let res = cpp_match a b chunk_size 2 in if fst res < 0 then Inl RuntimeError else Inr res)"

section \<open>Merging\<close>

text \<open>\<open>merge\<close> copies \<open>buf(j)\<close> for \<open>j\<close> from \<open>len - l\<close> to \<open>len - r\<close>; an index outside the buffer would be
  undefined behaviour and is an error here.\<close>

definition merge_slice :: "'a list \<Rightarrow> int \<Rightarrow> int \<Rightarrow> 'a list result" where
  "merge_slice buf l r =
     (let start = int (length buf) - l; stop = int (length buf) - r in
      if start < stop \<and> (start < 0 \<or> int (length buf) < stop) then Inl IndexError
      else Inr (if start < stop then take (nat (stop - start)) (drop (nat start) buf) else []))"

fun merge_loop :: "'a list list \<Rightarrow> int list \<Rightarrow> 'a list result" where
  "merge_loop (c # cs) (l # r # ms) =
     rbind (merge_slice c l r) (\<lambda>x. rbind (merge_loop cs ms) (\<lambda>xs. Inr (x @ xs)))"
| "merge_loop _ _ = Inr []"

definition cpp_merge :: "'a list list \<Rightarrow> int list \<Rightarrow> 'a list result" where
  "cpp_merge bufs matches =
     (if length matches \<noteq> length bufs * 2 then Inl RuntimeError else merge_loop bufs matches)"

section \<open>The tokenizer\<close>

text \<open>What a worker returns: arrays with one row each, by key, and the row of the offset mapping.\<close>

record shard =
  sh_arrays :: "(string \<times> int list) list"
  sh_offsets :: "(int \<times> int) list"

text \<open>\<open>flatten(shard["offset_mapping"])[::2]\<close>.\<close>

definition token_starts :: "shard \<Rightarrow> int list" where
  "token_starts sh = map fst (sh_offsets sh)"

text \<open>A list with one row, and the three-dimensional array that \<open>[np.newaxis, :]\<close> makes of an array that
  has one row already.\<close>

definition row :: "int list \<Rightarrow> nested" where
  "row arr = Seq [Seq (map Num arr)]"

definition all_matches :: "int list list \<Rightarrow> int \<Rightarrow> int list result" where
  "all_matches starts chunk_size =
     rbind (mapM (\<lambda>(a, b). cpp_match_wrapper a b chunk_size) (pairs starts)) (\<lambda>ms.
       Inr ([int (length (starts ! 0))] @ concat (map (\<lambda>(u, v). [u, v]) ms) @ [0]))"

text \<open>One merged array for every key of the first shard.\<close>

definition merge_key :: "shard list \<Rightarrow> int list \<Rightarrow> string \<Rightarrow> (string \<times> nested) result" where
  "merge_key shards matches key =
     rbind (mapM (\<lambda>sh. dget (sh_arrays sh) key) shards) (\<lambda>arrays.
       rbind (cpp_merge arrays matches) (\<lambda>arr. Inr (key, row arr)))"

type_synonym encoding = "(string \<times> nested) list"

definition parallel_encode ::
  "(string \<Rightarrow> shard) \<Rightarrow> (string \<Rightarrow> encoding result) \<Rightarrow> nat \<Rightarrow> nat \<Rightarrow> string \<Rightarrow> encoding result option" where
  "parallel_encode worker fallback chunk_size overlap text =
     map_option (\<lambda>text_chunks.
       let shards = map worker text_chunks in
       if length shards = 1 then Inr (map (\<lambda>(k, arr). (k, Seq [row arr])) (sh_arrays (shards ! 0)))
       else case all_matches (map token_starts shards) (int chunk_size) of
         Inl e \<Rightarrow> if e = RuntimeError then fallback text else Inl e
       | Inr matches \<Rightarrow> mapM (merge_key shards matches) (map fst (sh_arrays (shards ! 0))))
     (chunks text chunk_size overlap)"

record lopt_tokenizer =
  lt_pool_size :: nat
  lt_chunk_size :: nat
  lt_overlap :: nat

text \<open>The default overlap ratio is 1/8.\<close>

definition LoptParallelTokenizer :: "nat \<Rightarrow> nat \<Rightarrow> lopt_tokenizer" where
  "LoptParallelTokenizer pool_size chunk_size =
     \<lparr>lt_pool_size = pool_size, lt_chunk_size = chunk_size, lt_overlap = chunk_size div 8\<rparr>"

text \<open>The second argument of the short call is the text pair of the library's tokenizer, so
  \<open>add_special_tokens\<close> is passed as that.\<close>

definition lopt_call ::
  "(string \<Rightarrow> shard) \<Rightarrow> (string \<Rightarrow> bool \<Rightarrow> encoding result) \<Rightarrow> (string \<Rightarrow> encoding result) \<Rightarrow>
   lopt_tokenizer \<Rightarrow> string \<Rightarrow> bool \<Rightarrow> encoding result option" where
  "lopt_call worker short_call fallback lt text add_special_tokens =
     (if length text < lt_chunk_size lt * 2 then Some (short_call text add_special_tokens)
      else parallel_encode worker fallback (lt_chunk_size lt) (lt_overlap lt) text)"

definition lopt_encode ::
  "(string \<Rightarrow> shard) \<Rightarrow> (string \<Rightarrow> bool \<Rightarrow> encoding result) \<Rightarrow> (string \<Rightarrow> encoding result) \<Rightarrow>
   lopt_tokenizer \<Rightarrow> string \<Rightarrow> bool \<Rightarrow> nested result option" where
  "lopt_encode worker short_call fallback lt text add_special_tokens =
     map_option (\<lambda>res. rbind res (\<lambda>enc. dget enc ''input_ids''))
       (lopt_call worker short_call fallback lt text add_special_tokens)"

text \<open>\<open>mk\<close> is the constructor call, which may raise any exception.\<close>

definition maybe_get_lopt_tokenizer ::
  "bool \<Rightarrow> bool \<Rightarrow> (nat \<Rightarrow> nat \<Rightarrow> lopt_tokenizer result) \<Rightarrow> nat \<Rightarrow> nat \<Rightarrow> lopt_tokenizer option" where
  "maybe_get_lopt_tokenizer lopt_available enable_lopt mk pool_size chunk_size =
     (if \<not> enable_lopt then None
      else if \<not> lopt_available then None
      else case mk pool_size chunk_size of Inr lt \<Rightarrow> Some lt | Inl _ \<Rightarrow> None)"

section \<open>The chunks cover the text\<close>

lemma chunks_total: "0 < cs \<Longrightarrow> \<exists>xs. chunks text cs ov = Some xs \<and> xs \<noteq> []"
proof (induction "length text" arbitrary: "text" rule: less_induct)
  case less
  show ?case
  proof (cases "length text > cs + 100")
    case True
    then have "length (drop cs text) < length text" using less.prems by simp
    from less.hyps [OF this less.prems] show ?thesis using True by (auto simp: chunks.simps [of "text"])
  qed (simp add: chunks.simps [of "text"])
qed

section \<open>A match is a match\<close>

definition run_ok :: "int list \<Rightarrow> int list \<Rightarrow> int \<Rightarrow> nat \<Rightarrow> nat \<Rightarrow> nat \<Rightarrow> bool" where
  "run_ok a b cs i j n \<longleftrightarrow> i + n \<le> length a \<and> j + n \<le> length b \<and> (\<forall>k < n. a ! (i + k) = b ! (j + k) + cs)"

lemma skip_greater_ok: "skip_greater a limit n cur = (n', cur') \<Longrightarrow> n' \<le> n \<and> (n' = n \<and> cur' = cur \<or> cur' = 0)"
  by (induction a limit n cur rule: skip_greater.induct) (auto split: if_splits)

lemma match_loop_ok:
  assumes "run_ok a b cs n0 i1 cur" and "match_size st = 0 \<or> run_ok a b cs (match_a st) (match_b st) (match_size st + 1)"
    and "n0 \<le> length a" and "i1 \<le> length b"
  shows "let st' = match_loop a b cs i1 n0 cur st in
    match_size st' = 0 \<or> run_ok a b cs (match_a st') (match_b st') (match_size st' + 1)"
  using assms
proof (induction i1 arbitrary: n0 cur st)
  case (Suc i1)
  obtain n0' cur' where sk: "skip_greater a (b ! i1 + cs) n0 cur = (n0', cur')" by fastforce
  from skip_greater_ok [OF sk] have n: "n0' \<le> n0" "n0' = n0 \<and> cur' = cur \<or> cur' = 0" by simp_all
  have run: "run_ok a b cs n0' (Suc i1) cur'" using n Suc.prems by (auto simp: run_ok_def)
  show ?case
  proof (cases "0 < n0' \<and> a ! (n0' - 1) = b ! i1 + cs")
    case True
    let ?st = "if match_size st < cur' then \<lparr>match_a = n0' - 1, match_b = i1, match_size = cur'\<rparr> else st"
    have run': "run_ok a b cs (n0' - 1) i1 (cur' + 1)"
    proof -
      have "a ! (n0' - 1 + k) = b ! (i1 + k) + cs" if "k < cur' + 1" for k
        using run True that by (cases k) (auto simp: run_ok_def)
      then show ?thesis using run True by (auto simp: run_ok_def)
    qed
    then have "match_size ?st = 0 \<or> run_ok a b cs (match_a ?st) (match_b ?st) (match_size ?st + 1)"
      using Suc.prems(2) by auto
    from Suc.IH [OF run' this] show ?thesis using True n Suc.prems by (simp add: sk Let_def)
  next
    case False
    have "run_ok a b cs n0' i1 0" using run Suc.prems by (auto simp: run_ok_def)
    from Suc.IH [OF this Suc.prems(2)] show ?thesis using False n Suc.prems by (auto simp: sk Let_def)
  qed
qed simp

text \<open>A successful match gives a position in each list with the same place in the text, and the next
  token starts at the same place, too.\<close>

lemma cpp_match_ok:
  assumes "cpp_match_wrapper a b cs = Inr (u, v)"
  obtains x y where "u = int (length a) - int x" "v = int (length b) - int y" "Suc x < length a" "Suc y < length b"
    "a ! x = b ! y + cs" "a ! Suc x = b ! Suc y + cs"
proof -
  define st where "st = match_loop a b cs (length b) (length a) 0 \<lparr>match_a = 0, match_b = 0, match_size = 0\<rparr>"
  have "\<not> int (match_size st) \<le> 2" using assms by (auto simp: cpp_match_wrapper_def cpp_match_def st_def Let_def split: if_splits)
  then have sz: "2 < match_size st" by simp
  have "run_ok a b cs (match_a st) (match_b st) (match_size st + 1)"
    using match_loop_ok [of a b cs "length a" "length b" 0 "\<lparr>match_a = 0, match_b = 0, match_size = 0\<rparr>"] sz
    by (simp add: run_ok_def st_def [symmetric])
  then have r: "match_a st + match_size st < length a" "match_b st + match_size st < length b"
    and m: "\<And>k. k \<le> match_size st \<Longrightarrow> a ! (match_a st + k) = b ! (match_b st + k) + cs"
    by (auto simp: run_ok_def)
  have uv: "u = int (length a) - (int (match_a st) + int (match_size st) - 1)"
    "v = int (length b) - (int (match_b st) + int (match_size st) - 1)"
    using assms sz by (auto simp: cpp_match_wrapper_def cpp_match_def st_def [symmetric] Let_def split: if_splits)
  show thesis
  proof (rule that [of "match_a st + (match_size st - 1)" "match_b st + (match_size st - 1)"])
    show "a ! (match_a st + (match_size st - 1)) = b ! (match_b st + (match_size st - 1)) + cs" by (rule m) simp
    show "a ! Suc (match_a st + (match_size st - 1)) = b ! Suc (match_b st + (match_size st - 1)) + cs"
      using m [of "match_size st"] sz by simp
  qed (use uv r sz in auto)
qed

section \<open>No text is lost\<close>

text \<open>What is documented of the offset mapping of a fast tokenizer: a token has a start in the text, the
  starts increase, and the first is 0.  \<open>pieces\<close>: the text of a token reaches to the next start.\<close>

definition spans :: "string \<Rightarrow> int list \<Rightarrow> bool" where
  "spans t s \<longleftrightarrow> (t \<noteq> [] \<longrightarrow> s \<noteq> [] \<and> s ! 0 = 0) \<and> sorted_wrt (<) s \<and> list_all (\<lambda>i. 0 \<le> i \<and> i < int (length t)) s"

definition tok_pos :: "string \<Rightarrow> int list \<Rightarrow> nat \<Rightarrow> nat" where
  "tok_pos t s k = (if k < length s then nat (s ! k) else length t)"

definition pieces :: "(int \<Rightarrow> string) \<Rightarrow> string \<Rightarrow> int list \<Rightarrow> int list \<Rightarrow> bool" where
  "pieces txt t s ids \<longleftrightarrow> length ids = length s \<and>
     list_all (\<lambda>k. txt (ids ! k) = take (tok_pos t s (Suc k) - tok_pos t s k) (drop (tok_pos t s k) t)) [0..<length ids]"

lemma spans_bound: "spans t s \<Longrightarrow> k < length s \<Longrightarrow> 0 \<le> s ! k \<and> s ! k < int (length t)"
  by (auto simp: spans_def list_all_length)

lemma spans_mono: "spans t s \<Longrightarrow> p \<le> q \<Longrightarrow> q < length s \<Longrightarrow> s ! p \<le> s ! q"
  by (cases "p = q") (auto simp: spans_def sorted_wrt_iff_nth_less less_imp_le)

lemma tok_pos_step: "spans t s \<Longrightarrow> tok_pos t s k \<le> tok_pos t s (Suc k)"
  using spans_mono [of t s k "Suc k"] spans_bound [of t s k] by (auto simp: tok_pos_def)

lemma tok_pos_le: "spans t s \<Longrightarrow> tok_pos t s k \<le> length t"
  using spans_bound [of t s k] by (auto simp: tok_pos_def)

lemma tok_pos_mono: "spans t s \<Longrightarrow> p \<le> q \<Longrightarrow> tok_pos t s p \<le> tok_pos t s q"
  by (rule lift_Suc_mono_le [of "tok_pos t s"]) (auto intro: tok_pos_step)

text \<open>Neighbouring tokens make up a segment of the text.\<close>

lemma pieces_segment:
  assumes sp: "spans t s" and pc: "pieces txt t s ids" and "p \<le> q" and "q \<le> length ids"
  shows "concat (map txt (take (q - p) (drop p ids))) = take (tok_pos t s q - tok_pos t s p) (drop (tok_pos t s p) t)"
  using \<open>p \<le> q\<close> \<open>q \<le> length ids\<close>
proof (induction q rule: dec_induct)
  case (step q)
  let ?S = "tok_pos t s"
  have tk: "take (Suc q - p) (drop p ids) = take (q - p) (drop p ids) @ [ids ! q]"
    using step by (simp add: Suc_diff_le take_Suc_conv_app_nth)
  have "txt (ids ! q) = take (?S (Suc q) - ?S q) (drop (?S q) t)"
    using pc step.prems by (auto simp: pieces_def list_all_iff)
  then have "concat (map txt (take (Suc q - p) (drop p ids))) =
      take (?S q - ?S p) (drop (?S p) t) @ take (?S (Suc q) - ?S q) (drop (?S q) t)"
    using step by (simp add: tk)
  also have "drop (?S q) t = drop (?S q - ?S p) (drop (?S p) t)"
    using tok_pos_mono [OF sp step.hyps(1)] by simp
  also have "take (?S q - ?S p) (drop (?S p) t) @ take (?S (Suc q) - ?S q) (drop (?S q - ?S p) (drop (?S p) t)) =
      take ((?S q - ?S p) + (?S (Suc q) - ?S q)) (drop (?S p) t)"
    by (rule take_add [symmetric])
  also have "(?S q - ?S p) + (?S (Suc q) - ?S q) = ?S (Suc q) - ?S p"
    using tok_pos_mono [OF sp step.hyps(1)] tok_pos_step [OF sp, of q] by simp
  finally show ?case .
qed simp

lemma merge_slice_ok:
  assumes "y \<le> x" and "x \<le> length buf"
  shows "merge_slice buf (int (length buf) - int y) (int (length buf) - int x) = Inr (take (x - y) (drop y buf))"
  using assms by (auto simp: merge_slice_def Let_def nat_diff_distrib)

lemma chunks_short: "length text \<le> cs + 100 \<Longrightarrow> chunks text cs ov = Some [text]"
  by (simp add: chunks.simps [of "text"])

lemma chunks_long:
  "length text > cs + 100 \<Longrightarrow> chunks text cs ov = Some xs \<Longrightarrow>
   \<exists>xs'. chunks (drop cs text) cs ov = Some xs' \<and> xs = take (ov + cs) text # xs'"
  by (auto simp: chunks.simps [of "text"] bind_eq_Some_conv)

text \<open>The induction over the chunks: the tokens from \<open>y\<close> of the first of the remaining chunks on.\<close>

lemma merge_chunks:
  assumes cs: "0 < cs" and ov: "ov \<le> cs" and sp: "\<And>t. spans t (st t)" and ar: "\<And>t. length (arr t) = length (st t)"
  shows "chunks rest cs ov = Some xs \<Longrightarrow>
    mapM (\<lambda>(a, b). cpp_match_wrapper a b (int cs)) (pairs (map st xs)) = Inr ms \<Longrightarrow>
    y < length (st (hd xs)) \<Longrightarrow> st (hd xs) ! y < int cs \<Longrightarrow>
    \<exists>out. merge_loop (map arr xs) ((int (length (st (hd xs))) - int y) # concat (map (\<lambda>(u, v). [u, v]) ms) @ [0]) = Inr out
      \<and> ((\<forall>t. pieces txt t (st t) (arr t)) \<longrightarrow> concat (map txt out) = drop (nat (st (hd xs) ! y)) rest)"
proof (induction "length rest" arbitrary: rest xs ms y rule: less_induct)
  case less
  show ?case
  proof (cases "length rest > cs + 100")
    case False
    then have xs: "xs = [rest]" using less.prems(1) by (simp add: chunks_short)
    then have ms: "ms = []" using less.prems(2) by simp
    have sl: "merge_slice (arr rest) (int (length (st rest)) - int y) 0 = Inr (drop y (arr rest))"
      using merge_slice_ok [of y "length (arr rest)" "arr rest"] less.prems(3) xs ar [of rest] by simp
    have "concat (map txt (drop y (arr rest))) = drop (nat (st rest ! y)) rest"
      if "\<forall>t. pieces txt t (st t) (arr t)"
    proof -
      have "concat (map txt (take (length (arr rest) - y) (drop y (arr rest)))) =
          take (tok_pos rest (st rest) (length (arr rest)) - tok_pos rest (st rest) y) (drop (tok_pos rest (st rest) y) rest)"
        by (rule pieces_segment [OF sp spec [OF that]]) (use less.prems(3) xs ar [of rest] in simp_all)
      then show ?thesis using less.prems(3) xs ar [of rest] by (simp add: tok_pos_def)
    qed
    then show ?thesis by (simp add: xs ms sl)
  next
    case True
    let ?c = "take (ov + cs) rest"
    obtain xs' where xs': "chunks (drop cs rest) cs ov = Some xs'" and xs: "xs = ?c # xs'"
      using chunks_long [OF True less.prems(1)] by blast
    obtain d ds where d: "xs' = d # ds" using chunks_total [OF cs, of "drop cs rest" ov] xs' by (auto simp: neq_Nil_conv)
    obtain u v ms' where m: "cpp_match_wrapper (st ?c) (st d) (int cs) = Inr (u, v)" and ms: "ms = (u, v) # ms'"
      and ms': "mapM (\<lambda>(a, b). cpp_match_wrapper a b (int cs)) (pairs (map st xs')) = Inr ms'"
      using less.prems(2) by (auto simp: xs d)
    obtain x z where u: "u = int (length (st ?c)) - int x" and v: "v = int (length (st d)) - int z"
      and x: "Suc x < length (st ?c)" and z: "Suc z < length (st d)" and eq: "st ?c ! x = st d ! z + int cs"
      using cpp_match_ok [OF m] by metis
    have dz: "0 \<le> st d ! z" using spans_bound [OF sp, of z d] z by simp
    have cx: "st ?c ! x < int (ov + cs)" using spans_bound [OF sp, of x ?c] x by (simp add: min_def split: if_splits)
    have yx: "y \<le> x"
    proof (rule ccontr)
      assume "\<not> y \<le> x"
      then have "st ?c ! x \<le> st ?c ! y" using spans_mono [OF sp, of x y ?c] less.prems(3) xs by simp
      then show False using less.prems(4) xs eq dz by simp
    qed
    have small: "length (drop cs rest) < length rest" using cs True by simp
    have "z < length (st (hd xs'))" "st (hd xs') ! z < int cs" using z d eq cx ov by simp_all
    from less.hyps [OF small xs' ms' this]
    obtain out where out: "merge_loop (map arr xs') (v # concat (map (\<lambda>(u, v). [u, v]) ms') @ [0]) = Inr out"
      and tx: "(\<forall>t. pieces txt t (st t) (arr t)) \<longrightarrow> concat (map txt out) = drop (nat (st d ! z)) (drop cs rest)"
      by (auto simp: d v)
    have sl: "merge_slice (arr ?c) (int (length (st ?c)) - int y) u = Inr (take (x - y) (drop y (arr ?c)))"
      using merge_slice_ok [OF yx, of "arr ?c"] x by (simp add: u ar)
    have "concat (map txt (take (x - y) (drop y (arr ?c)) @ out)) = drop (nat (st ?c ! y)) rest"
      if pc: "\<forall>t. pieces txt t (st t) (arr t)"
    proof -
      let ?y = "nat (st ?c ! y)" let ?x = "nat (st ?c ! x)"
      have pos: "tok_pos ?c (st ?c) y = ?y" "tok_pos ?c (st ?c) x = ?x" using yx x by (simp_all add: tok_pos_def)
      have le: "?y \<le> ?x" using spans_mono [OF sp yx, of ?c] x by (simp add: nat_mono)
      have "concat (map txt (take (x - y) (drop y (arr ?c)))) = take (?x - ?y) (drop ?y ?c)"
        using pieces_segment [OF sp spec [OF pc] yx, of ?c] x by (simp add: pos ar)
      also have "\<dots> = take (?x - ?y) (drop ?y rest)" using cx by (simp add: drop_take min_def) linarith
      finally have a: "concat (map txt (take (x - y) (drop y (arr ?c)))) = take (?x - ?y) (drop ?y rest)" .
      have "concat (map txt out) = drop (nat (st d ! z)) (drop cs rest)" using tx pc by blast
      also have "\<dots> = drop ?x rest" using eq dz by (simp add: nat_add_distrib add.commute)
      also have "\<dots> = drop (?x - ?y) (drop ?y rest)" using le by simp
      finally show ?thesis by (simp only: map_append concat_append a append_take_drop_id)
    qed
    then show ?thesis by (simp add: xs ms sl out)
  qed
qed

lemma pairs_length: "length (pairs xs) = length xs - 1"
  by (induction xs rule: pairs.induct) auto

lemma concat_pairs_length: "length (concat (map (\<lambda>(u, v). [u, v]) ms)) = 2 * length ms"
  by (induction ms) auto

text \<open>The numbers of a nested list, in order.\<close>

fun leaves :: "nested \<Rightarrow> int list" where
  "leaves (Num n) = [n]"
| "leaves (Seq xs) = concat (map leaves xs)"

lemma leaves_Nums [simp]: "concat (map (leaves \<circ> Num) xs) = xs"
  by (induction xs) auto

lemma leaves_row [simp]: "leaves (row arr) = arr"
  by (simp add: row_def)

text \<open>A tokenizer's answer: every array has an entry for every token, the arrays have the keys \<open>keys\<close>, and
  the identifiers spell the text.\<close>

definition spells :: "(int \<Rightarrow> string) \<Rightarrow> string list \<Rightarrow> string \<Rightarrow> shard \<Rightarrow> bool" where
  "spells txt keys t sh \<longleftrightarrow> spans t (token_starts sh) \<and> map fst (sh_arrays sh) = keys \<and>
     list_all (\<lambda>(k, arr). length arr = length (token_starts sh)) (sh_arrays sh) \<and>
     (case map_of (sh_arrays sh) ''input_ids'' of None \<Rightarrow> False | Some ids \<Rightarrow> pieces txt t (token_starts sh) ids)"

definition array_of :: "shard \<Rightarrow> string \<Rightarrow> int list" where
  "array_of sh k = (case map_of (sh_arrays sh) k of Some a \<Rightarrow> a | None \<Rightarrow> [])"

lemma spells_array:
  assumes "spells txt keys t sh" and "k \<in> set keys"
  shows "dget (sh_arrays sh) k = Inr (array_of sh k)" and "length (array_of sh k) = length (token_starts sh)"
proof -
  have "k \<in> fst ` set (sh_arrays sh)" using assms by (auto simp: spells_def)
  then obtain a where a: "map_of (sh_arrays sh) k = Some a" by (meson map_of_eq_None_iff not_None_eq)
  with assms(1) show "dget (sh_arrays sh) k = Inr (array_of sh k)" "length (array_of sh k) = length (token_starts sh)"
    by (auto simp: array_of_def spells_def list_all_iff dest: map_of_SomeD)
qed

lemma spells_ids:
  assumes "spells txt keys t sh"
  shows "''input_ids'' \<in> set keys" and "pieces txt t (token_starts sh) (array_of sh ''input_ids'')"
proof -
  obtain ids where i: "map_of (sh_arrays sh) ''input_ids'' = Some ids" "pieces txt t (token_starts sh) ids"
    using assms by (auto simp: spells_def split: option.splits)
  then have "''input_ids'' \<in> fst ` set (sh_arrays sh)" by (metis map_of_eq_None_iff option.distinct(1))
  moreover have "keys = map fst (sh_arrays sh)" using assms by (simp add: spells_def)
  ultimately show "''input_ids'' \<in> set keys" by (simp only: set_map)
  show "pieces txt t (token_starts sh) (array_of sh ''input_ids'')" using i by (simp add: array_of_def)
qed

text \<open>The merge of one key, when the matches were found.\<close>

lemma merge_key_ok:
  assumes cs: "0 < cs" and ov: "ov \<le> cs" and sp: "\<And>t. spells txt keys t (worker t)" and ne: "text \<noteq> []"
    and ch: "chunks text cs ov = Some xs" and am: "all_matches (map token_starts (map worker xs)) (int cs) = Inr m"
    and k: "k \<in> set keys"
  shows "\<exists>out. merge_key (map worker xs) m k = Inr (k, row out) \<and> (k = ''input_ids'' \<longrightarrow> concat (map txt out) = text)"
proof -
  let ?st = "\<lambda>t. token_starts (worker t)" let ?arr = "\<lambda>t. array_of (worker t) k"
  obtain ms where ms: "mapM (\<lambda>(a, b). cpp_match_wrapper a b (int cs)) (pairs (map ?st xs)) = Inr ms"
    and m: "m = int (length (map ?st xs ! 0)) # concat (map (\<lambda>(u, v). [u, v]) ms) @ [0]"
    using am by (auto simp: all_matches_def comp_def)
  obtain x xs' where x: "xs = x # xs'" using chunks_total [OF cs, of "text" ov] ch by (auto simp: neq_Nil_conv)
  have "hd xs \<noteq> []"
    using ch ne cs by (cases "length text > cs + 100") (auto simp: chunks_short dest!: chunks_long)
  then have h: "x \<noteq> []" by (simp add: x)
  have spn: "spans t (?st t)" for t using sp [of t] by (simp add: spells_def)
  have h0: "0 < length (?st (hd xs))" "?st (hd xs) ! 0 = 0" using spn [of x] h by (auto simp: spans_def x)
  have "\<exists>out. merge_loop (map ?arr xs) ((int (length (?st (hd xs))) - int 0) # concat (map (\<lambda>(u, v). [u, v]) ms) @ [0]) = Inr out
      \<and> ((\<forall>t. pieces txt t (?st t) (?arr t)) \<longrightarrow> concat (map txt out) = drop (nat (?st (hd xs) ! 0)) text)"
    by (rule merge_chunks [OF cs ov spn spells_array(2) [OF sp k] ch ms]) (use h0 cs in simp_all)
  then obtain out where out: "merge_loop (map ?arr xs) m = Inr out"
    and tx: "(\<forall>t. pieces txt t (?st t) (?arr t)) \<longrightarrow> concat (map txt out) = text" using h0 by (auto simp: m x)
  have len: "length m = length (map ?arr xs) * 2"
    using mapM_length [OF ms] by (simp add: m pairs_length x concat_pairs_length)
  have "mapM (\<lambda>sh. dget (sh_arrays sh) k) (map worker xs) = Inr (map (\<lambda>sh. array_of sh k) (map worker xs))"
    by (rule mapM_map) (use spells_array(1) [OF sp k] in auto)
  then have "merge_key (map worker xs) m k = Inr (k, row out)"
    using out len by (simp add: merge_key_def cpp_merge_def comp_def)
  moreover have "k = ''input_ids'' \<longrightarrow> concat (map txt out) = text" using tx spells_ids(2) [OF sp] by blast
  ultimately show ?thesis by blast
qed

lemma mapM_RuntimeError:
  "mapM (\<lambda>(a, b). cpp_match_wrapper a b cs) ps = Inl e \<Longrightarrow> e = RuntimeError"
  by (induction ps) (auto simp: rbind_Inl_iff cpp_match_wrapper_def Let_def split: if_splits)

lemma pieces_all:
  assumes "spans t s" and "pieces txt t s ids"
  shows "concat (map txt ids) = t"
proof (cases "t = []")
  case True
  then have "s = []" using assms(1) by (cases s) (auto simp: spans_def)
  then show ?thesis using True assms(2) by (simp add: pieces_def)
next
  case False
  then have "tok_pos t s 0 = 0" using assms(1) by (auto simp: spans_def tok_pos_def)
  then show ?thesis using pieces_segment [OF assms, of 0 "length ids"] assms(2) by (simp add: pieces_def tok_pos_def)
qed


text \<open>A tokenizer with one token for a character.\<close>

definition char_worker :: "string \<Rightarrow> shard" where
  "char_worker t = \<lparr>sh_arrays = [(''input_ids'', map of_char t), (''attention_mask'', map (\<lambda>_. 1) t)],
     sh_offsets = map (\<lambda>i. (int i, int i + 1)) [0..<length t]\<rparr>"

lemma char_worker_spells: "spells (\<lambda>i. [char_of i]) [''input_ids'', ''attention_mask''] t (char_worker t)"
proof -
  have st: "token_starts (char_worker t) = map int [0..<length t]" by (simp add: token_starts_def char_worker_def)
  have ids: "map_of (sh_arrays (char_worker t)) ''input_ids'' = Some (map of_char t)"
    and keys: "map fst (sh_arrays (char_worker t)) = [''input_ids'', ''attention_mask'']"
    and len: "list_all (\<lambda>(k, arr). length arr = length t) (sh_arrays (char_worker t))" by (simp_all add: char_worker_def)
  have "[t ! k] = take (tok_pos t (map int [0..<length t]) (Suc k) - tok_pos t (map int [0..<length t]) k)
      (drop (tok_pos t (map int [0..<length t]) k) t)" if "k < length t" for k
    using that by (cases "Suc k < length t") (simp_all add: tok_pos_def Cons_nth_drop_Suc [symmetric] del: of_nat_Suc)
  then have "pieces (\<lambda>i. [char_of i]) t (map int [0..<length t]) (map of_char t)" by (simp add: pieces_def list_all_iff)
  moreover have "spans t (map int [0..<length t])" by (auto simp: spans_def list_all_iff sorted_wrt_map)
  ultimately show ?thesis by (simp add: spells_def st ids keys len)
qed


section \<open>The loops that do not end\<close>

lemma chunks_diverges: "100 < length text \<Longrightarrow> chunks text 0 ov = None"
proof (rule ccontr)
  assume long: "100 < length text" and "chunks text 0 ov \<noteq> None"
  then obtain xs where "chunks text 0 ov = Some xs" by blast
  then show False
  proof (induction "length xs" arbitrary: xs rule: less_induct)
    case less
    then obtain ys where "chunks text 0 ov = Some ys" "xs = take ov text # ys"
      using chunks_long [of 0 "text" ov xs] long by auto
    then show False using less.hyps [of ys] by simp
  qed
qed

lemma chunks_pieces:
  assumes "0 < cs"
  shows "\<exists>xs. chunks text cs ov = Some xs \<and> xs \<noteq> [] \<and> concat (map (take cs) (butlast xs)) @ last xs = text \<and>
    list_all (\<lambda>x. length x \<le> cs + max ov 100) xs"
proof (induction "length text" arbitrary: "text" rule: less_induct)
  case less
  show ?case
  proof (cases "length text > cs + 100")
    case True
    then have "length (drop cs text) < length text" using assms by simp
    from less [OF this] obtain xs where xs: "chunks (drop cs text) cs ov = Some xs" "xs \<noteq> []"
      "concat (map (take cs) (butlast xs)) @ last xs = drop cs text" "list_all (\<lambda>x. length x \<le> cs + max ov 100) xs"
      by blast
    then have "chunks text cs ov = Some (take (ov + cs) text # xs)" using True by (simp add: chunks.simps [of "text"])
    with xs show ?thesis by (simp add: min_absorb1)
  qed (simp add: chunks_short)
qed

text \<open>Splitting ends exactly when it can: with a positive chunk size the generator ends, its chunks are
  non-empty pieces of the text of at most \<open>chunk_size + overlap_length + 100\<close> characters, and dropping the
  overlaps gives the text back; with chunk size 0 it does not end on a text of more than 100 characters.\<close>

theorem chunks_cover:
  "(0 < cs \<longrightarrow> (\<exists>xs. chunks text cs ov = Some xs \<and> xs \<noteq> [] \<and> concat (map (take cs) (butlast xs)) @ last xs = text \<and>
      list_all (\<lambda>x. length x \<le> cs + max ov 100) xs)) \<and>
   (cs = 0 \<and> 100 < length text \<longrightarrow> chunks text cs ov = None)"
  using chunks_pieces [of cs "text" ov] chunks_diverges [of "text" ov] by auto

theorem chunks_cover_witness:
  "(\<exists>xs. chunks (replicate 200 CHR ''a'') 64 8 = Some xs \<and> xs \<noteq> [] \<and>
      concat (map (take 64) (butlast xs)) @ last xs = replicate 200 CHR ''a'' \<and>
      list_all (\<lambda>x. length x \<le> 64 + max 8 100) xs) \<and>
   chunks (replicate 200 CHR ''a'') 0 8 = None"
proof (rule conjI)
  show "chunks (replicate 200 CHR ''a'') 0 8 = None"
    by (rule chunks_cover [THEN conjunct2, rule_format]) simp
qed (rule chunks_cover [THEN conjunct1, rule_format], simp)

text \<open>A batch of one string is split like the string.\<close>

lemma batch_chunks_single:
  assumes "0 < cs" and "s \<noteq> []"
  shows "batch_chunks [s :: 'a list] cs ov = map_option (map (\<lambda>x. [x])) (chunks s cs ov)"
  using assms(2)
proof (induction "length s" arbitrary: s rule: less_induct)
  case less
  show ?case
  proof (cases "length s > cs + 100")
    case True
    then have long: "100 < length s - cs" by simp
    have "batch_chunks [drop cs s] cs ov = map_option (map (\<lambda>x. [x])) (chunks (drop cs s) cs ov)"
      using less.hyps [of "drop cs s"] True assms(1) by simp
    then show ?thesis using True long less.prems
      by (cases "chunks (drop cs s) cs ov") (simp_all add: batch_chunks.simps [of "[s]"] chunks.simps [of s])
  next
    case False
    have "batch_chunks [[] :: 'a list] cs ov = Some []" by (simp add: batch_chunks.simps)
    then show ?thesis using False less.prems by (simp add: batch_chunks.simps [of "[s]"] chunks.simps [of s])
  qed
qed

lemma flatten_nonempty: "flatten xs = Some y \<Longrightarrow> xs \<noteq> []"
  by (erule flatten.raw_induct [rotated]) (clarsimp split: if_splits, blast)

lemma flatten_empty_diverges: "flatten [] = None"
  using flatten_nonempty by (cases "flatten []") blast+

section \<open>The C++ merge is the Python merge\<close>

declare slicing.simps [simp del] concat2.simps [simp del]

lemma py_slice_inner:
  assumes "0 \<le> r" and "r < l" and "l \<le> int (length xs)"
  shows "py_slice xs (int (length xs) - l) (int (length xs) - r) =
    take (nat (l - r)) (drop (nat (int (length xs) - l)) xs)"
  using assms by (simp add: py_slice_def slice_bound_def Let_def min_def nat_diff_distrib)

lemma get_ndim_flat: "xs \<noteq> [] \<Longrightarrow> get_ndim (Seq (map Num xs)) = Inr 1"
  by (cases xs) auto

lemma merge_part_flat:
  assumes "0 \<le> r" and "r < l" and "l \<le> int (length xs)"
  shows "\<exists>ys. merge_slice xs l r = Inr ys \<and> ys \<noteq> [] \<and> merge_part (Seq (map Num xs)) l r (-1) = Inr (Seq (map Num ys))"
proof -
  let ?ys = "take (nat (l - r)) (drop (nat (int (length xs) - l)) xs)"
  obtain x xs' where xs: "xs = x # xs'" using assms by (cases xs) auto
  have "get_size (Seq (map Num xs)) = Inr [length xs]" by (simp add: xs get_size_def)
  moreover have "xs \<noteq> []" by (simp add: xs)
  ultimately have "merge_part (Seq (map Num xs)) l r (-1) = Inr (Seq (map Num ?ys))"
    using py_slice_inner [of r l "map Num xs"] assms by (simp add: merge_part_def slicing.simps get_ndim_flat take_map drop_map)
  moreover have "merge_slice xs l r = Inr ?ys" using assms by (simp add: merge_slice_def Let_def)
  moreover have "?ys \<noteq> []" using assms by simp
  ultimately show ?thesis by blast
qed

lemma concat2_flat: "xs \<noteq> [] \<Longrightarrow> concat2 (Seq (map Num xs)) (Seq (map Num ys)) (-1) = Inr (Seq (map Num (xs @ ys)))"
  by (subst concat2.simps) (simp add: get_ndim_flat)

text \<open>The pairs of matches select a non-empty part of every shard.\<close>

fun selects :: "'a list list \<Rightarrow> int list \<Rightarrow> bool" where
  "selects [] [] = True"
| "selects (x # xs) (l # r # ms) = (0 \<le> r \<and> r < l \<and> l \<le> int (length x) \<and> selects xs ms)"
| "selects _ _ = False"

lemma merge_rest_flat:
  "selects xs ms \<Longrightarrow> acc \<noteq> [] \<Longrightarrow> \<exists>zs. merge_loop xs ms = Inr zs \<and>
     merge_rest (Seq (map Num acc)) (map (\<lambda>x. Seq (map Num x)) xs) ms (-1) = Inr (Seq (map Num (acc @ zs)))"
proof (induction xs ms arbitrary: acc rule: selects.induct)
  case (2 x xs l r ms)
  obtain ys where ys: "merge_slice x l r = Inr ys" "ys \<noteq> []" "merge_part (Seq (map Num x)) l r (-1) = Inr (Seq (map Num ys))"
    using merge_part_flat [of r l x] 2(2) by auto
  obtain zs where "merge_loop xs ms = Inr zs"
    "merge_rest (Seq (map Num (acc @ ys))) (map (\<lambda>x. Seq (map Num x)) xs) ms (-1) = Inr (Seq (map Num ((acc @ ys) @ zs)))"
    using 2(1) [of "acc @ ys"] 2(2) ys(2) by auto
  then show ?case using ys concat2_flat [OF 2(3), of ys] by simp
qed simp_all

lemma selects_length: "selects xs ms \<Longrightarrow> length ms = length xs * 2"
  by (induction xs ms rule: selects.induct) auto



end
