(* ===== verification/Offload.thy ===== *)
theory Offload
  imports Prelude "HOL-Library.Multiset"
begin

text \<open>
  Offloading of KV blocks: \<open>vllm/v1/kv_offload\<close> (\<open>BlockStatus\<close> of \<open>backend.py\<close>, \<open>CPUBackend\<close> of
  \<open>backends/cpu.py\<close>, the records of \<open>abstract.py\<close> and \<open>LRUOffloadingManager\<close> of \<open>lru_manager.py\<close>).  What the managers
  need of a backend is the locale \<open>offload_backend\<close>; the CPU backend is an interpretation.  An
  \<open>OrderedDict\<close> is an association list in insertion order.  Blocks live in the dictionaries of the manager only, so
  they are values there; a \<open>LoadStoreSpec\<close> is the list of its block ids.
\<close>

section \<open>Data\<close>

text \<open>\<open>ref_cnt\<close> is a \<open>c_int32\<close>.\<close>

definition c_int32 :: "int \<Rightarrow> int" where
  "c_int32 x = (x + 2 ^ 31) mod 2 ^ 32 - 2 ^ 31"

record block_status =
  bs_ref_cnt :: int
  bs_block_id :: int

definition CPUBlockStatus :: "int \<Rightarrow> block_status" where
  "CPUBlockStatus bid = \<lparr>bs_ref_cnt = -1, bs_block_id = bid\<rparr>"

definition is_ready :: "block_status \<Rightarrow> bool" where
  "is_ready b \<longleftrightarrow> 0 \<le> bs_ref_cnt b"

record offloading_event =
  oe_block_hashes :: "bytes list"
  oe_block_size :: int
  oe_removed :: bool

record prepare_store_output =
  po_to_store :: "bytes list"
  po_spec :: "int list"
  po_evicted :: "bytes list"

type_synonym stored = "(bytes, block_status) odict"

section \<open>The CPU backend\<close>

record cpu_backend =
  cb_block_size :: int
  cb_num_blocks :: int
  cb_num_allocated :: int
  cb_free_list :: "int list"

definition CPUBackend :: "int \<Rightarrow> int \<Rightarrow> cpu_backend" where
  "CPUBackend block_size n = \<lparr>cb_block_size = block_size, cb_num_blocks = n, cb_num_allocated = 0, cb_free_list = []\<rparr>"

definition cpu_num_free :: "cpu_backend \<Rightarrow> int" where
  "cpu_num_free b = int (length (cb_free_list b)) + cb_num_blocks b - cb_num_allocated b"

text \<open>\<open>allocated_blocks_free_list.pop()\<close>, \<open>n\<close> times.\<close>

fun reuse_blocks :: "nat \<Rightarrow> int list \<Rightarrow> (block_status list \<times> int list) result" where
  "reuse_blocks 0 fl = Inr ([], fl)"
| "reuse_blocks (Suc n) fl =
     (if fl = [] then Inl IndexError
      else rbind (reuse_blocks n (butlast fl)) (\<lambda>(bs, fl'). Inr (CPUBlockStatus (last fl) # bs, fl')))"

definition cpu_allocate_blocks :: "nat \<Rightarrow> cpu_backend \<Rightarrow> (block_status list \<times> cpu_backend) result" where
  "cpu_allocate_blocks n b =
     (let num_fresh = min (int n) (cb_num_blocks b - cb_num_allocated b);
          num_reused = int n - num_fresh
      in py_assert (num_reused \<le> int (length (cb_free_list b)))
           (let fresh = map (\<lambda>i. CPUBlockStatus (cb_num_allocated b + int i)) [0..<nat num_fresh] in
            rbind (reuse_blocks (nat num_reused) (cb_free_list b)) (\<lambda>(reused, fl).
              Inr (fresh @ reused, b\<lparr>cb_num_allocated := cb_num_allocated b + int (nat num_fresh), cb_free_list := fl\<rparr>))))"

definition cpu_free :: "block_status \<Rightarrow> cpu_backend \<Rightarrow> cpu_backend" where
  "cpu_free x b = b\<lparr>cb_free_list := cb_free_list b @ [bs_block_id x]\<rparr>"

definition cpu_load_store_spec :: "block_status list \<Rightarrow> int list" where
  "cpu_load_store_spec bs = map bs_block_id bs"

section \<open>The LRU manager\<close>

record lru_manager =
  lru_backend :: cpu_backend
  lru_blocks :: stored
  lru_events :: "offloading_event list option"

definition LRUOffloadingManager :: "cpu_backend \<Rightarrow> bool \<Rightarrow> lru_manager" where
  "LRUOffloadingManager b enable_events = \<lparr>lru_backend = b, lru_blocks = [], lru_events = (if enable_events then Some [] else None)\<rparr>"

fun lookup_in :: "(bytes \<Rightarrow> block_status option) \<Rightarrow> bytes list \<Rightarrow> nat" where
  "lookup_in get [] = 0"
| "lookup_in get (h # hs) =
     (case get h of None \<Rightarrow> 0 | Some b \<Rightarrow> if is_ready b then Suc (lookup_in get hs) else 0)"

definition lru_lookup :: "bytes list \<Rightarrow> lru_manager \<Rightarrow> nat" where
  "lru_lookup hs m = lookup_in (map_of (lru_blocks m)) hs"

definition lru_load_one :: "bytes \<Rightarrow> block_status list \<times> stored \<Rightarrow> (block_status list \<times> stored) result" where
  "lru_load_one h = (\<lambda>(acc, d).
     rbind (dget d h) (\<lambda>b.
       py_assert (is_ready b)
         (let b' = b\<lparr>bs_ref_cnt := c_int32 (bs_ref_cnt b + 1)\<rparr> in Inr (acc @ [b'], AList.update h b' d))))"

definition lru_prepare_load :: "bytes list \<Rightarrow> lru_manager \<Rightarrow> (int list \<times> lru_manager) result" where
  "lru_prepare_load hs m =
     rbind (foldM lru_load_one hs ([], lru_blocks m)) (\<lambda>(bs, d). Inr (cpu_load_store_spec bs, m\<lparr>lru_blocks := d\<rparr>))"

definition lru_touch_one :: "bytes \<Rightarrow> stored \<Rightarrow> stored result" where
  "lru_touch_one h d = (if map_of d h \<noteq> None then move_to_end h d else Inr d)"

definition lru_touch :: "bytes list \<Rightarrow> lru_manager \<Rightarrow> lru_manager result" where
  "lru_touch hs m = rbind (foldM lru_touch_one (rev hs) (lru_blocks m)) (\<lambda>d. Inr (m\<lparr>lru_blocks := d\<rparr>))"

definition lru_unload_one :: "bytes \<Rightarrow> stored \<Rightarrow> stored result" where
  "lru_unload_one h d =
     rbind (dget d h) (\<lambda>b. py_assert (0 < bs_ref_cnt b) (Inr (AList.update h (b\<lparr>bs_ref_cnt := c_int32 (bs_ref_cnt b - 1)\<rparr>) d)))"

definition lru_complete_load :: "bytes list \<Rightarrow> lru_manager \<Rightarrow> lru_manager result" where
  "lru_complete_load hs m = rbind (foldM lru_unload_one hs (lru_blocks m)) (\<lambda>d. Inr (m\<lparr>lru_blocks := d\<rparr>))"

text \<open>The loop that collects the blocks to evict; \<open>None\<close> is its \<open>else\<close> branch.\<close>

fun pick_evict :: "nat \<Rightarrow> stored \<Rightarrow> bytes list option" where
  "pick_evict n [] = None"
| "pick_evict n ((h, b) # d) =
     (if bs_ref_cnt b = 0
      then if n - 1 = 0 then Some [h] else map_option ((#) h) (pick_evict (n - 1) d)
      else pick_evict n d)"

definition evict_one :: "bytes \<Rightarrow> stored \<times> cpu_backend \<Rightarrow> (stored \<times> cpu_backend) result" where
  "evict_one h = (\<lambda>(d, b). rbind (dget d h) (\<lambda>x. Inr (AList.delete h d, cpu_free x b)))"

definition add_event :: "bool \<Rightarrow> bytes list \<Rightarrow> cpu_backend \<Rightarrow> offloading_event list option \<Rightarrow> offloading_event list option" where
  "add_event removed hs b evs =
     (if hs \<noteq> [] then map_option (\<lambda>es. es @ [\<lparr>oe_block_hashes = hs, oe_block_size = cb_block_size b, oe_removed = removed\<rparr>]) evs
      else evs)"

definition lru_prepare_store :: "bytes list \<Rightarrow> lru_manager \<Rightarrow> (prepare_store_output option \<times> lru_manager) result" where
  "lru_prepare_store hs m =
     (let to_store = filter (\<lambda>h. map_of (lru_blocks m) h = None) hs;
          num_evict = int (length to_store) - cpu_num_free (lru_backend m)
      in case (if 0 < num_evict then pick_evict (nat num_evict) (lru_blocks m) else Some []) of
           None \<Rightarrow> Inr (None, m)
         | Some to_evict \<Rightarrow>
             rbind (foldM evict_one to_evict (lru_blocks m, lru_backend m)) (\<lambda>(d, b).
               let evs = add_event True to_evict b (lru_events m) in
               rbind (cpu_allocate_blocks (length to_store) b) (\<lambda>(bs, b').
                 py_assert (length bs = length to_store)
                   (let d' = fold (\<lambda>(h, x) d. AList.update h x d) (zip to_store bs) d in
                    Inr (Some \<lparr>po_to_store = to_store, po_spec = cpu_load_store_spec bs, po_evicted = to_evict\<rparr>,
                         \<lparr>lru_backend = b', lru_blocks = d', lru_events = evs\<rparr>)))))"

definition lru_stored_one :: "bytes \<Rightarrow> bytes list \<times> stored \<Rightarrow> (bytes list \<times> stored) result" where
  "lru_stored_one h = (\<lambda>(acc, d).
     rbind (dget d h) (\<lambda>b.
       if is_ready b then Inr (acc, d) else Inr (acc @ [h], AList.update h (b\<lparr>bs_ref_cnt := 0\<rparr>) d)))"

definition lru_failed_one :: "bytes \<Rightarrow> stored \<times> cpu_backend \<Rightarrow> (stored \<times> cpu_backend) result" where
  "lru_failed_one h = (\<lambda>(d, b).
     rbind (dget d h) (\<lambda>x. if is_ready x then Inr (d, b) else Inr (AList.delete h d, cpu_free x b)))"

definition lru_complete_store :: "bytes list \<Rightarrow> bool \<Rightarrow> lru_manager \<Rightarrow> lru_manager result" where
  "lru_complete_store hs success m =
     (if success
      then rbind (foldM lru_stored_one hs ([], lru_blocks m)) (\<lambda>(done_hashes, d).
             Inr (m\<lparr>lru_blocks := d, lru_events := add_event False done_hashes (lru_backend m) (lru_events m)\<rparr>))
      else rbind (foldM lru_failed_one hs (lru_blocks m, lru_backend m)) (\<lambda>(d, b).
             Inr (m\<lparr>lru_blocks := d, lru_backend := b\<rparr>)))"

definition lru_take_events :: "lru_manager \<Rightarrow> offloading_event list \<times> lru_manager" where
  "lru_take_events m = (case lru_events m of None \<Rightarrow> ([], m) | Some es \<Rightarrow> (es, m\<lparr>lru_events := Some []\<rparr>))"

section \<open>What the managers rely on\<close>

definition block_ids :: "block_status list \<Rightarrow> int multiset" where
  "block_ids bs = mset (map bs_block_id bs)"

lemma block_ids_simps [simp]: "block_ids [] = {#}" "block_ids (b # bs) = add_mset (bs_block_id b) (block_ids bs)"
  "block_ids (as @ bs) = block_ids as + block_ids bs"
  by (simp_all add: block_ids_def)

lemma distinct_count_le: "distinct xs \<longleftrightarrow> (\<forall>i. count (mset xs) i \<le> 1)"
  by (induction xs) (auto simp: not_in_iff [symmetric] le_Suc_eq dest: spec)

text \<open>\<open>ok H b\<close>: the blocks \<open>H\<close> are allocated.\<close>

locale offload_backend =
  fixes ok :: "int multiset \<Rightarrow> 'b \<Rightarrow> bool" and num_free :: "'b \<Rightarrow> int"
    and alloc :: "nat \<Rightarrow> 'b \<Rightarrow> (block_status list \<times> 'b) result" and release :: "block_status \<Rightarrow> 'b \<Rightarrow> 'b"
  assumes alloc: "ok H b \<Longrightarrow> int n \<le> num_free b \<Longrightarrow> \<exists>bs b'. alloc n b = Inr (bs, b') \<and> length bs = n
      \<and> ok (H + block_ids bs) b' \<and> (\<forall>x \<in> set bs. bs_ref_cnt x = -1)"
    and release: "ok (add_mset (bs_block_id x) H) b \<Longrightarrow> ok H (release x b) \<and> num_free (release x b) = num_free b + 1"
    and num_free: "ok H b \<Longrightarrow> 0 \<le> num_free b"
    and once: "ok H b \<Longrightarrow> count H i \<le> 1"
begin

lemma ok_disjoint: "ok (H + K) b \<Longrightarrow> i \<in># H \<Longrightarrow> i \<notin># K"
  using once [of "H + K" b i] by (auto simp: not_in_iff count_greater_zero_iff [symmetric] simp del: count_greater_zero_iff)

lemma ok_distinct: "ok (H + block_ids bs) b \<Longrightarrow> distinct (map bs_block_id bs)"
proof -
  assume a: "ok (H + block_ids bs) b"
  have "count (block_ids bs) i \<le> 1" for i using once [OF a, of i] by simp
  then show ?thesis by (simp add: block_ids_def distinct_count_le)
qed

end

definition cpu_ok :: "int multiset \<Rightarrow> cpu_backend \<Rightarrow> bool" where
  "cpu_ok H b \<longleftrightarrow> 0 \<le> cb_num_allocated b \<and> cb_num_allocated b \<le> cb_num_blocks b
     \<and> H + mset (cb_free_list b) = mset (map int [0..<nat (cb_num_allocated b)])"

lemma reuse_blocks_ok:
  "n \<le> length fl \<Longrightarrow> \<exists>bs fl'. reuse_blocks n fl = Inr (bs, fl') \<and> length bs = n \<and> block_ids bs + mset fl' = mset fl
     \<and> (\<forall>x \<in> set bs. bs_ref_cnt x = -1)"
proof (induction n arbitrary: fl)
  case (Suc n)
  then obtain ys y where fl: "fl = ys @ [y]" "n \<le> length ys" by (cases fl rule: rev_cases) auto
  obtain bs fl' where "reuse_blocks n ys = Inr (bs, fl')" "length bs = n" "block_ids bs + mset fl' = mset ys"
    "\<forall>x \<in> set bs. bs_ref_cnt x = -1" using Suc.IH [OF fl(2)] by blast
  then show ?case using fl(1) by (auto simp: CPUBlockStatus_def)
qed simp

lemma upt_ids: "0 \<le> a \<Longrightarrow> 0 \<le> k \<Longrightarrow>
    mset (map int [0..<nat (a + k)]) = mset (map int [0..<nat a]) + mset (map (\<lambda>i. a + int i) [0..<nat k])"
proof -
  have "mset (map int [0..<p + q]) = mset (map int [0..<p]) + mset (map (\<lambda>i. int p + int i) [0..<q])" for p q
    by (induction q) auto
  from this [of "nat a" "nat k"] show "0 \<le> a \<Longrightarrow> 0 \<le> k \<Longrightarrow>
    mset (map int [0..<nat (a + k)]) = mset (map int [0..<nat a]) + mset (map (\<lambda>i. a + int i) [0..<nat k])"
    by (simp add: nat_add_distrib)
qed

interpretation cpu: offload_backend cpu_ok cpu_num_free cpu_allocate_blocks cpu_free
proof
  fix H :: "int multiset" and b n
  assume ok: "cpu_ok H b" and n: "int n \<le> cpu_num_free b"
  define f where "f = min (int n) (cb_num_blocks b - cb_num_allocated b)"
  have f: "0 \<le> f" "f \<le> int n" "cb_num_allocated b + f \<le> cb_num_blocks b" "int n - f \<le> int (length (cb_free_list b))"
    using ok n by (auto simp: f_def cpu_ok_def cpu_num_free_def)
  then have le: "nat (int n - f) \<le> length (cb_free_list b)" by linarith
  obtain bs fl where bs: "reuse_blocks (nat (int n - f)) (cb_free_list b) = Inr (bs, fl)" "length bs = nat (int n - f)"
    "block_ids bs + mset fl = mset (cb_free_list b)" "\<forall>x \<in> set bs. bs_ref_cnt x = -1" using reuse_blocks_ok [OF le] by blast
  let ?fresh = "map (\<lambda>i. CPUBlockStatus (cb_num_allocated b + int i)) [0..<nat f]"
  have ids: "block_ids ?fresh = mset (map (\<lambda>i. cb_num_allocated b + int i) [0..<nat f])"
    by (simp add: block_ids_def CPUBlockStatus_def comp_def)
  have "cpu_allocate_blocks n b = Inr (?fresh @ bs, b\<lparr>cb_num_allocated := cb_num_allocated b + f, cb_free_list := fl\<rparr>)"
    using bs(1) f by (simp add: cpu_allocate_blocks_def Let_def py_assert_def f_def [symmetric])
  moreover have "cpu_ok (H + block_ids (?fresh @ bs)) (b\<lparr>cb_num_allocated := cb_num_allocated b + f, cb_free_list := fl\<rparr>)"
    using ok f upt_ids [of "cb_num_allocated b" f] bs(3) ids unfolding cpu_ok_def by (simp add: ac_simps)
  moreover have "length (?fresh @ bs) = n" using bs(2) f by simp
  moreover have "\<forall>x \<in> set (?fresh @ bs). bs_ref_cnt x = -1" using bs(4) by (auto simp: CPUBlockStatus_def)
  ultimately show "\<exists>bs b'. cpu_allocate_blocks n b = Inr (bs, b') \<and> length bs = n \<and> cpu_ok (H + block_ids bs) b'
      \<and> (\<forall>x \<in> set bs. bs_ref_cnt x = -1)" by blast
next
  fix H :: "int multiset" and b i
  assume ok: "cpu_ok H b"
  show "0 \<le> cpu_num_free b" using ok by (simp add: cpu_ok_def cpu_num_free_def)
  have "count H i \<le> count (H + mset (cb_free_list b)) i" by simp
  also have "\<dots> = count (mset (map int [0..<nat (cb_num_allocated b)])) i" using ok by (simp add: cpu_ok_def)
  also have "\<dots> \<le> 1" by (rule distinct_count_le [THEN iffD1, rule_format]) (simp add: distinct_map)
  finally show "count H i \<le> 1" .
qed (simp add: cpu_ok_def cpu_free_def cpu_num_free_def)

section \<open>The dictionaries of the managers\<close>

definition owned :: "stored \<Rightarrow> int multiset" where
  "owned d = block_ids (map snd d)"

lemma owned_simps [simp]: "owned [] = {#}" "owned (p # d) = add_mset (bs_block_id (snd p)) (owned d)" "owned (d @ d') = owned d + owned d'"
  by (simp_all add: owned_def)

lemma owned_zip: "length hs = length bs \<Longrightarrow> owned (zip hs bs) = block_ids bs"
  by (simp add: owned_def)

text \<open>The entries except those of \<open>hs\<close>.\<close>

definition dropping :: "bytes set \<Rightarrow> stored \<Rightarrow> stored" where
  "dropping hs d = filter (\<lambda>p. fst p \<notin> hs) d"

lemma dropping_simps [simp]: "dropping {} d = d" "fst ` set (dropping hs d) = fst ` set d - hs"
  "map_of (dropping hs d) h = (if h \<in> hs then None else map_of d h)"
  by (simp_all add: dropping_def) (force, induction d, auto)

lemma distinct_dropping: "distinct (map fst d) \<Longrightarrow> distinct (map fst (dropping hs d))"
  by (simp add: dropping_def distinct_map_filter)

lemma delete_dropping: "AList.delete h d = dropping {h} d"
  by (simp add: AList.delete_eq dropping_def case_prod_unfold eq_commute)

lemma dropping_dropping: "dropping hs (dropping hs' d) = dropping (hs' \<union> hs) d"
  by (simp add: dropping_def conj_commute)

lemma owned_dropping: "distinct (map fst d) \<Longrightarrow> map_of d h = Some x \<Longrightarrow> owned d = add_mset (bs_block_id x) (owned (dropping {h} d))"
proof (induction d)
  case (Cons p d)
  show ?case
  proof (cases "fst p = h")
    case True
    then have "fst x \<noteq> h" if "x \<in> set d" for x using that Cons.prems(1) True by (metis distinct.simps(2) image_eqI list.set_map list.simps(9))
    then have "dropping {h} d = d" unfolding dropping_def by (intro filter_True) blast
    then show ?thesis using Cons.prems(2) True by (cases p) (auto simp: dropping_def)
  next
    case False
    then show ?thesis using Cons by (cases p) (auto simp: dropping_def)
  qed
qed simp

lemma insert_new:
  assumes "distinct hs" and "length hs = length bs" and "set hs \<inter> fst ` set d = {}"
  shows "fold (\<lambda>(h, x) d. AList.update h x d) (zip hs bs) d = d @ zip hs bs"
  using assms
proof (induction hs arbitrary: bs d)
  case (Cons h hs)
  then obtain b bs' where b: "bs = b # bs'" by (cases bs) auto
  have u: "AList.update h b d = d @ [(h, b)]" using Cons.prems(3) by (intro update_new) auto
  show ?case using Cons.IH [of bs' "d @ [(h, b)]"] Cons.prems u by (auto simp: b)
qed simp

section \<open>Eviction\<close>

abbreviation unused :: "stored \<Rightarrow> stored" where
  "unused d \<equiv> filter (\<lambda>p. bs_ref_cnt (snd p) = 0) d"

lemma pick_evict_spec: "0 < n \<Longrightarrow> pick_evict n d = (if n \<le> length (unused d) then Some (map fst (take n (unused d))) else None)"
proof (induction d arbitrary: n)
  case (Cons p d)
  show ?case
  proof (cases "bs_ref_cnt (snd p) = 0 \<and> n \<noteq> 1")
    case True
    then have "0 < n - 1" using Cons.prems by simp
    from Cons.IH [OF this] True Cons.prems show ?thesis by (cases p; cases n) auto
  qed (use Cons in \<open>cases p; auto\<close>)
qed simp

lemma lru_evict_ok:
  assumes "distinct hs" and "set hs \<subseteq> fst ` set d" and "distinct (map fst d)" and "cpu_ok (owned d) b"
  shows "\<exists>b'. foldM evict_one hs (d, b) = Inr (dropping (set hs) d, b') \<and> cpu_ok (owned (dropping (set hs) d)) b'
    \<and> cpu_num_free b' = cpu_num_free b + int (length hs)"
  using assms
proof (induction hs arbitrary: d b)
  case (Cons h hs)
  have "map_of d h \<noteq> None" using Cons.prems(2) by (auto simp: map_of_eq_None_iff)
  then obtain x where x: "map_of d h = Some x" by blast
  have "cpu_ok (add_mset (bs_block_id x) (owned (dropping {h} d))) b" using Cons.prems(4) owned_dropping [OF Cons.prems(3) x] by simp
  from cpu.release [OF this] have r: "cpu_ok (owned (dropping {h} d)) (cpu_free x b)" "cpu_num_free (cpu_free x b) = cpu_num_free b + 1" by simp_all
  have "set hs \<subseteq> fst ` set (dropping {h} d)" "distinct hs" using Cons.prems(1,2) by auto
  from Cons.IH [OF this(2,1) distinct_dropping [OF Cons.prems(3)] r(1)] r(2) x show ?case
    by (auto simp: evict_one_def delete_dropping dropping_dropping dget_def)
qed simp

section \<open>The LRU manager is safe\<close>

definition lru_inv :: "lru_manager \<Rightarrow> bool" where
  "lru_inv m \<longleftrightarrow> cpu_ok (owned (lru_blocks m)) (lru_backend m) \<and> distinct (map fst (lru_blocks m))"

lemma lru_init_inv: "0 \<le> n \<Longrightarrow> lru_inv (LRUOffloadingManager (CPUBackend bs n) ev)"
  by (simp add: lru_inv_def LRUOffloadingManager_def CPUBackend_def cpu_ok_def)

text \<open>The other operations change reference counts and the order only, or release blocks.\<close>

lemma owned_update: "map_of d h = Some b \<Longrightarrow> bs_block_id b' = bs_block_id b \<Longrightarrow> owned (AList.update h b' d) = owned d"
  by (induction d) auto

lemma owned_move: "distinct (map fst d) \<Longrightarrow> move_to_end h d = Inr d' \<Longrightarrow> owned d' = owned d \<and> distinct (map fst d')"
  using owned_dropping [of d h] distinct_dropping [of d "{h}"]
  by (auto simp: move_to_end_def delete_dropping split: option.splits)

lemma lru_prepare_load_inv:
  assumes "lru_inv m" and "lru_prepare_load hs m = Inr (spec, m')"
  shows "lru_inv m' \<and> length spec = length hs"
proof -
  have step: "owned (snd q) = owned (snd p) \<and> distinct (map fst (snd q)) \<and> length (fst q) = Suc (length (fst p))"
    if "lru_load_one h p = Inr q" "distinct (map fst (snd p))" for h p q
    using that by (cases p) (auto simp: lru_load_one_def py_assert_def Let_def owned_update distinct_update split: if_splits)
  have "owned (snd q) = owned (snd p) \<and> distinct (map fst (snd q)) \<and> length (fst q) = length (fst p) + length hs"
    if "foldM lru_load_one hs p = Inr q" "distinct (map fst (snd p))" for p q
    using that
  proof (induction hs arbitrary: p)
    case (Cons h hs)
    then obtain r where r: "lru_load_one h p = Inr r" "foldM lru_load_one hs r = Inr q" by auto
    from step [OF r(1) Cons.prems(2)] Cons.IH [OF r(2)] show ?case by simp
  qed simp
  then show ?thesis using assms by (fastforce simp: lru_prepare_load_def lru_inv_def cpu_load_store_spec_def)
qed

lemma lru_touch_inv: "lru_inv m \<Longrightarrow> \<exists>m'. lru_touch hs m = Inr m' \<and> lru_inv m'"
proof -
  assume inv: "lru_inv m"
  have "\<exists>d'. lru_touch_one h d = Inr d' \<and> owned d' = owned d \<and> distinct (map fst d')" if "distinct (map fst d)" for h d
  proof (cases "map_of d h")
    case (Some b)
    then have m: "move_to_end h d = Inr (AList.delete h d @ [(h, b)])" by (simp add: move_to_end_def)
    then show ?thesis using owned_move [OF that m] Some by (simp add: lru_touch_one_def)
  qed (use that in \<open>simp add: lru_touch_one_def\<close>)
  then have "\<exists>d'. foldM lru_touch_one xs d = Inr d' \<and> owned d' = owned d \<and> distinct (map fst d')" if "distinct (map fst d)" for xs d
    using that by (induction xs arbitrary: d) (simp, fastforce)
  then show ?thesis using inv by (fastforce simp: lru_touch_def lru_inv_def)
qed

lemma lru_complete_load_inv: "lru_inv m \<Longrightarrow> lru_complete_load hs m = Inr m' \<Longrightarrow> lru_inv m'"
proof -
  assume inv: "lru_inv m" and run: "lru_complete_load hs m = Inr m'"
  have "owned d' = owned d \<and> distinct (map fst d')" if "foldM lru_unload_one hs d = Inr d'" "distinct (map fst d)" for d d'
    using that
  proof (induction hs arbitrary: d)
    case (Cons h hs)
    then obtain r where r: "lru_unload_one h d = Inr r" "foldM lru_unload_one hs r = Inr d'" by auto
    have "owned r = owned d \<and> distinct (map fst r)"
      using r(1) Cons.prems(2) by (auto simp: lru_unload_one_def py_assert_def owned_update distinct_update split: if_splits)
    then show ?case using Cons.IH [OF r(2)] by simp
  qed simp
  then show ?thesis using inv run by (auto simp: lru_complete_load_def lru_inv_def)
qed

lemma lru_complete_store_inv: "lru_inv m \<Longrightarrow> lru_complete_store hs success m = Inr m' \<Longrightarrow> lru_inv m'"
proof -
  assume inv: "lru_inv m" and run: "lru_complete_store hs success m = Inr m'"
  have ok: "owned d' = owned d \<and> distinct (map fst d')" if "foldM lru_stored_one hs (acc, d) = Inr (acc', d')" "distinct (map fst d)" for acc d acc' d'
    using that
  proof (induction hs arbitrary: acc d)
    case (Cons h hs)
    then obtain a r where r: "lru_stored_one h (acc, d) = Inr (a, r)" "foldM lru_stored_one hs (a, r) = Inr (acc', d')" by auto
    have "owned r = owned d \<and> distinct (map fst r)"
      using r(1) Cons.prems(2) by (auto simp: lru_stored_one_def owned_update distinct_update split: if_splits)
    then show ?case using Cons.IH [OF r(2)] by simp
  qed simp
  have failed: "cpu_ok (owned d') b' \<and> distinct (map fst d')"
    if "foldM lru_failed_one hs (d, b) = Inr (d', b')" "cpu_ok (owned d) b" "distinct (map fst d)" for d b d' b'
    using that
  proof (induction hs arbitrary: d b)
    case (Cons h hs)
    then obtain r c where r: "lru_failed_one h (d, b) = Inr (r, c)" "foldM lru_failed_one hs (r, c) = Inr (d', b')" by auto
    obtain x where x: "map_of d h = Some x" "(r, c) = (if is_ready x then (d, b) else (dropping {h} d, cpu_free x b))"
      using r(1) by (auto simp: lru_failed_one_def delete_dropping split: if_splits)
    have "cpu_ok (owned r) c \<and> distinct (map fst r)"
    proof (cases "is_ready x")
      case False
      have "cpu_ok (add_mset (bs_block_id x) (owned (dropping {h} d))) b" using Cons.prems(2) owned_dropping [OF Cons.prems(3) x(1)] by simp
      from cpu.release [OF this] show ?thesis using False x(2) distinct_dropping [OF Cons.prems(3)] by simp
    qed (use x Cons.prems in simp)
    then show ?case using Cons.IH [OF r(2)] by simp
  qed simp
  show ?thesis using inv run ok failed by (fastforce simp: lru_complete_store_def lru_inv_def split: if_splits)
qed

text \<open>C26: storing blocks in the LRU manager is safe.  With the CPU backend \<open>prepare_store\<close> never raises for distinct
  hashes.  It returns \<open>None\<close>, changing nothing, exactly when the free and the unused blocks together are too
  few; otherwise it evicts the oldest unused blocks, as many as are needed, keeps every other entry, so
  that blocks being read or written are protected, and hands out locations that no kept block and no other new
  block has.\<close>

theorem lru_prepare_store_safe:
  assumes inv: "lru_inv m" and hs: "distinct hs"
  shows "\<exists>res m'. lru_prepare_store hs m = Inr (res, m') \<and> lru_inv m'
    \<and> (let new = filter (\<lambda>h. map_of (lru_blocks m) h = None) hs;
           need = int (length new) - cpu_num_free (lru_backend m);
           victims = map fst (take (nat need) (unused (lru_blocks m)))
       in case res of
            None \<Rightarrow> m' = m \<and> int (length (unused (lru_blocks m))) < need
          | Some out \<Rightarrow> need \<le> int (length (unused (lru_blocks m)))
              \<and> po_to_store out = new \<and> po_evicted out = victims
              \<and> (\<exists>bs. lru_blocks m' = dropping (set victims) (lru_blocks m) @ zip new bs \<and> length bs = length new
                    \<and> po_spec out = map bs_block_id bs \<and> (\<forall>x \<in> set bs. \<not> is_ready x))
              \<and> distinct (po_spec out)
              \<and> set (po_spec out) \<inter> bs_block_id ` snd ` set (dropping (set victims) (lru_blocks m)) = {})"
proof -
  define new where "new = filter (\<lambda>h. map_of (lru_blocks m) h = None) hs"
  define need where "need = int (length new) - cpu_num_free (lru_backend m)"
  define victims where "victims = map fst (take (nat need) (unused (lru_blocks m)))"
  let ?d = "lru_blocks m" and ?b = "lru_backend m"
  have ok: "cpu_ok (owned ?d) ?b" and dk: "distinct (map fst ?d)" using inv by (simp_all add: lru_inv_def)
  have pick: "(if 0 < need then pick_evict (nat need) ?d else Some []) = (if need \<le> int (length (unused ?d)) then Some victims else None)"
    using pick_evict_spec [of "nat need" ?d] by (auto simp: victims_def)
  have run: "lru_prepare_store hs m =
     (case (if need \<le> int (length (unused ?d)) then Some victims else None) of
           None \<Rightarrow> Inr (None, m)
         | Some to_evict \<Rightarrow>
             rbind (foldM evict_one to_evict (?d, ?b)) (\<lambda>(d, b).
               let evs = add_event True to_evict b (lru_events m) in
               rbind (cpu_allocate_blocks (length new) b) (\<lambda>(bs, b').
                 py_assert (length bs = length new)
                   (let d' = fold (\<lambda>(h, x) d. AList.update h x d) (zip new bs) d in
                    Inr (Some \<lparr>po_to_store = new, po_spec = cpu_load_store_spec bs, po_evicted = to_evict\<rparr>,
                         \<lparr>lru_backend = b', lru_blocks = d', lru_events = evs\<rparr>)))))"
    unfolding lru_prepare_store_def Let_def new_def [symmetric] need_def [symmetric] pick ..
  show ?thesis
  proof (cases "need \<le> int (length (unused ?d))")
    case False
    then show ?thesis using run inv unfolding new_def [symmetric] need_def [symmetric] Let_def
      by (intro exI [of _ None] exI [of _ m]) simp
  next
    case True
    have "set (take (nat need) (unused ?d)) \<subseteq> set ?d" using set_take_subset [of "nat need" "unused ?d"] by auto
    then have sub: "set victims \<subseteq> fst ` set ?d" by (auto simp: victims_def)
    have dv: "distinct victims" unfolding victims_def by (simp add: take_map [symmetric] distinct_map_filter dk)
    define d1 where "d1 = dropping (set victims) ?d"
    obtain b1 where b1: "foldM evict_one victims (?d, ?b) = Inr (d1, b1)" "cpu_ok (owned d1) b1"
      "cpu_num_free b1 = cpu_num_free ?b + int (length victims)"
      using lru_evict_ok [OF dv sub dk ok] by (auto simp: d1_def)
    have "length victims = nat need" using True by (simp add: victims_def)
    then have "int (length new) \<le> cpu_num_free b1" using b1(3) by (simp add: need_def)
    from cpu.alloc [OF b1(2) this] obtain bs b2 where a: "cpu_allocate_blocks (length new) b1 = Inr (bs, b2)" "length bs = length new"
      "cpu_ok (owned d1 + block_ids bs) b2" "\<forall>x \<in> set bs. bs_ref_cnt x = -1" by blast
    have fresh: "distinct new" "set new \<inter> fst ` set d1 = {}" using hs by (auto simp: new_def d1_def map_of_eq_None_iff)
    have ins: "fold (\<lambda>(h, x) d. AList.update h x d) (zip new bs) d1 = d1 @ zip new bs" using fresh a(2) by (intro insert_new) simp_all
    define m' where "m' = \<lparr>lru_backend = b2, lru_blocks = d1 @ zip new bs, lru_events = add_event True victims b1 (lru_events m)\<rparr>"
    have res: "lru_prepare_store hs m = Inr (Some \<lparr>po_to_store = new, po_spec = cpu_load_store_spec bs, po_evicted = victims\<rparr>, m')"
      using True b1(1) a(1,2) ins by (simp add: run Let_def py_assert_def m'_def)
    have "lru_inv m'"
      using a(2,3) fresh distinct_dropping [OF dk, of "set victims"] by (auto simp: lru_inv_def m'_def owned_zip d1_def)
    moreover have "distinct (cpu_load_store_spec bs)" using cpu.ok_distinct [OF a(3)] by (simp add: cpu_load_store_spec_def)
    moreover have "set (cpu_load_store_spec bs) \<inter> bs_block_id ` snd ` set d1 = {}"
      using cpu.ok_disjoint [OF a(3)] by (auto simp: cpu_load_store_spec_def owned_def block_ids_def image_iff)
    moreover have "\<exists>xs. lru_blocks m' = d1 @ zip new xs \<and> length xs = length new \<and> cpu_load_store_spec bs = map bs_block_id xs
        \<and> (\<forall>x \<in> set xs. \<not> is_ready x)"
      using a(2,4) by (intro exI [of _ bs]) (simp add: m'_def cpu_load_store_spec_def is_ready_def)
    ultimately show ?thesis using res True unfolding new_def [symmetric] need_def [symmetric] victims_def [symmetric] d1_def [symmetric] Let_def
      by (intro exI [of _ "Some \<lparr>po_to_store = new, po_spec = cpu_load_store_spec bs, po_evicted = victims\<rparr>"] exI [of _ m']) simp
  qed
qed

definition sample_lru :: lru_manager where
  "sample_lru = \<lparr>lru_backend = \<lparr>cb_block_size = 16, cb_num_blocks = 2, cb_num_allocated = 2, cb_free_list = []\<rparr>,
     lru_blocks = [([1], \<lparr>bs_ref_cnt = 1, bs_block_id = 0\<rparr>), ([2], \<lparr>bs_ref_cnt = 0, bs_block_id = 1\<rparr>)], lru_events = None\<rparr>"

theorem lru_prepare_store_safe_witness:
  "\<exists>out m'. lru_prepare_store [[3]] sample_lru = Inr (Some out, m') \<and> po_evicted out = [[2]] \<and> (\<exists>b. lru_blocks m' = [([1], \<lparr>bs_ref_cnt = 1, bs_block_id = 0\<rparr>), ([3], b)])"
proof -
  have "[0..<2] = [0, 1::nat]" by (simp add: upt_rec)
  then have u: "mset (map int [0..<2]) = {#0, 1#}" by simp
  have inv: "lru_inv sample_lru" unfolding lru_inv_def cpu_ok_def by (simp add: sample_lru_def u del: mset_map mset_upt)
  have d: "distinct [[3 :: 8 word]]" by simp
  from lru_prepare_store_safe [OF inv d] show ?thesis
    by (auto simp: Let_def sample_lru_def cpu_num_free_def dropping_def length_Suc_conv split: option.splits)
qed

end
