(* ===== verification/Offload_ARC.thy ===== *)
theory Offload_ARC
  imports Offload Complex_Main
begin

text \<open>
  Adaptive replacement for offloaded blocks: \<open>ARCOffloadingManager\<close> of \<open>vllm/v1/kv_offload/arc_manager.py\<close>, over
  the CPU backend of the theory \<open>Offload\<close>.  The target size of \<open>T1\<close>, a float, is a real number; a ghost list
  is the list of its keys in insertion order.
\<close>

section \<open>State and operations\<close>

record arc_manager =
  arc_backend :: cpu_backend
  target_t1_size :: real
  t1 :: stored
  t2 :: stored
  b1 :: "bytes list"
  b2 :: "bytes list"
  arc_events :: "offloading_event list option"
  cache_capacity :: int

definition ARCOffloadingManager :: "cpu_backend \<Rightarrow> bool \<Rightarrow> arc_manager" where
  "ARCOffloadingManager b enable_events =
     \<lparr>arc_backend = b, target_t1_size = 0, t1 = [], t2 = [], b1 = [], b2 = [],
      arc_events = (if enable_events then Some [] else None), cache_capacity = cpu_num_free b\<rparr>"

text \<open>\<open>self.t1.get(block_hash) or self.t2.get(block_hash)\<close>; a block is always true.\<close>

definition arc_get :: "arc_manager \<Rightarrow> bytes \<Rightarrow> block_status option" where
  "arc_get m h = (case map_of (t1 m) h of Some b \<Rightarrow> Some b | None \<Rightarrow> map_of (t2 m) h)"

text \<open>Writing a block back where \<open>arc_get\<close> found it.\<close>

definition arc_put :: "bytes \<Rightarrow> block_status \<Rightarrow> arc_manager \<Rightarrow> arc_manager" where
  "arc_put h b m = (if map_of (t1 m) h \<noteq> None then m\<lparr>t1 := AList.update h b (t1 m)\<rparr> else m\<lparr>t2 := AList.update h b (t2 m)\<rparr>)"

definition arc_lookup :: "bytes list \<Rightarrow> arc_manager \<Rightarrow> nat" where
  "arc_lookup hs m = lookup_in (arc_get m) hs"

definition arc_load_one :: "bytes \<Rightarrow> block_status list \<times> arc_manager \<Rightarrow> (block_status list \<times> arc_manager) result" where
  "arc_load_one h = (\<lambda>(acc, m).
     case arc_get m h of
       None \<Rightarrow> Inl AssertionError
     | Some b \<Rightarrow>
         py_assert (is_ready b)
           (let b' = b\<lparr>bs_ref_cnt := c_int32 (bs_ref_cnt b + 1)\<rparr> in Inr (acc @ [b'], arc_put h b' m)))"

definition arc_prepare_load :: "bytes list \<Rightarrow> arc_manager \<Rightarrow> (int list \<times> arc_manager) result" where
  "arc_prepare_load hs m = rbind (foldM arc_load_one hs ([], m)) (\<lambda>(bs, m'). Inr (cpu_load_store_spec bs, m'))"

definition ghost_move_to_end :: "bytes \<Rightarrow> bytes list \<Rightarrow> bytes list" where
  "ghost_move_to_end h g = remove1 h g @ [h]"

definition arc_touch_one :: "bytes \<Rightarrow> arc_manager \<Rightarrow> arc_manager result" where
  "arc_touch_one h m =
     (case map_of (t1 m) h of
        Some b \<Rightarrow>
          let m1 = m\<lparr>t1 := AList.delete h (t1 m)\<rparr> in
          if \<not> is_ready b then rbind (move_to_end h (t1 m1)) (\<lambda>d. Inr (m1\<lparr>t1 := d\<rparr>))
          else Inr (m1\<lparr>t2 := AList.update h b (t2 m1)\<rparr>)
      | None \<Rightarrow>
          if map_of (t2 m) h \<noteq> None then rbind (move_to_end h (t2 m)) (\<lambda>d. Inr (m\<lparr>t2 := d\<rparr>))
          else if h \<in> set (b1 m)
          then let delta = max 1 (real (length (b2 m)) / real (length (b1 m)))
               in Inr (m\<lparr>target_t1_size := min (target_t1_size m + delta) (of_int (cache_capacity m)), b1 := ghost_move_to_end h (b1 m)\<rparr>)
          else if h \<in> set (b2 m)
          then let delta = max 1 (real (length (b1 m)) / real (length (b2 m)))
               in Inr (m\<lparr>target_t1_size := max (target_t1_size m - delta) 0, b2 := ghost_move_to_end h (b2 m)\<rparr>)
          else Inr m)"

definition arc_touch :: "bytes list \<Rightarrow> arc_manager \<Rightarrow> arc_manager result" where
  "arc_touch hs m = foldM arc_touch_one (rev hs) m"

definition arc_unload_one :: "bytes \<Rightarrow> arc_manager \<Rightarrow> arc_manager result" where
  "arc_unload_one h m =
     (case arc_get m h of
        None \<Rightarrow> Inl AssertionError
      | Some b \<Rightarrow> py_assert (0 < bs_ref_cnt b) (Inr (arc_put h (b\<lparr>bs_ref_cnt := c_int32 (bs_ref_cnt b - 1)\<rparr>) m)))"

definition arc_complete_load :: "bytes list \<Rightarrow> arc_manager \<Rightarrow> arc_manager result" where
  "arc_complete_load hs m = foldM arc_unload_one hs m"

text \<open>Assigning a key of an \<open>OrderedDict\<close> keeps its place.\<close>

definition ghost_add :: "bytes \<Rightarrow> bytes list \<Rightarrow> bytes list" where
  "ghost_add h g = (if h \<in> set g then g else g @ [h])"

definition oldest_unused :: "stored \<Rightarrow> (bytes \<times> block_status) option" where
  "oldest_unused d = List.find (\<lambda>p. bs_ref_cnt (snd p) = 0) d"

definition arc_evict_one :: "arc_manager \<Rightarrow> (bytes \<times> arc_manager) option" where
  "arc_evict_one m =
     (let from_t1 = (if \<lfloor>target_t1_size m\<rfloor> \<le> int (length (t1 m)) then oldest_unused (t1 m) else None)
      in case from_t1 of
           Some (h, b) \<Rightarrow> Some (h, m\<lparr>t1 := AList.delete h (t1 m), b1 := ghost_add h (b1 m), arc_backend := cpu_free b (arc_backend m)\<rparr>)
         | None \<Rightarrow>
             (case oldest_unused (t2 m) of
                Some (h, b) \<Rightarrow> Some (h, m\<lparr>t2 := AList.delete h (t2 m), b2 := ghost_add h (b2 m), arc_backend := cpu_free b (arc_backend m)\<rparr>)
              | None \<Rightarrow> None))"

text \<open>The loop \<open>while num_blocks_to_evict > 0\<close>.  When it gives up, the blocks evicted so far stay evicted.\<close>

fun arc_evict :: "nat \<Rightarrow> bytes list \<Rightarrow> arc_manager \<Rightarrow> bytes list option \<times> arc_manager" where
  "arc_evict 0 acc m = (Some acc, m)"
| "arc_evict (Suc n) acc m =
     (case arc_evict_one m of
        None \<Rightarrow> (None, m)
      | Some (h, m') \<Rightarrow> arc_evict n (acc @ [h]) m')"

definition bound_ghosts :: "int \<Rightarrow> bytes list \<Rightarrow> bytes list" where
  "bound_ghosts capacity g = drop (nat (int (length g) - capacity)) g"

definition arc_insert_one :: "bytes \<times> block_status \<Rightarrow> arc_manager \<Rightarrow> arc_manager" where
  "arc_insert_one = (\<lambda>(h, x) m. m\<lparr>t1 := AList.update h x (t1 m), b1 := remove1 h (b1 m), b2 := remove1 h (b2 m)\<rparr>)"

definition arc_prepare_store :: "bytes list \<Rightarrow> arc_manager \<Rightarrow> (prepare_store_output option \<times> arc_manager) result" where
  "arc_prepare_store hs m =
     (let to_store = filter (\<lambda>h. map_of (t1 m) h = None \<and> map_of (t2 m) h = None) hs in
      if to_store = [] then Inr (Some \<lparr>po_to_store = [], po_spec = cpu_load_store_spec [], po_evicted = []\<rparr>, m)
      else
        let num_evict = int (length to_store) - cpu_num_free (arc_backend m) in
        case arc_evict (nat num_evict) [] m of
          (None, m1) \<Rightarrow> Inr (None, m1)
        | (Some to_evict, m1) \<Rightarrow>
            let m2 = m1\<lparr>b1 := bound_ghosts (cache_capacity m1) (b1 m1), b2 := bound_ghosts (cache_capacity m1) (b2 m1),
                        arc_events := add_event True to_evict (arc_backend m1) (arc_events m1)\<rparr>
            in rbind (cpu_allocate_blocks (length to_store) (arc_backend m2)) (\<lambda>(bs, be).
                 py_assert (length bs = length to_store)
                   (Inr (Some \<lparr>po_to_store = to_store, po_spec = cpu_load_store_spec bs, po_evicted = to_evict\<rparr>,
                         fold arc_insert_one (zip to_store bs) (m2\<lparr>arc_backend := be\<rparr>)))))"

definition arc_stored_one :: "bytes \<Rightarrow> bytes list \<times> arc_manager \<Rightarrow> bytes list \<times> arc_manager" where
  "arc_stored_one h = (\<lambda>(acc, m).
     case arc_get m h of
       None \<Rightarrow> (acc, m)
     | Some b \<Rightarrow> if is_ready b then (acc, m) else (acc @ [h], arc_put h (b\<lparr>bs_ref_cnt := 0\<rparr>) m))"

definition arc_failed_one :: "bytes \<Rightarrow> arc_manager \<Rightarrow> arc_manager" where
  "arc_failed_one h m =
     (let (b, m1) = (case map_of (t1 m) h of
                       Some b \<Rightarrow> (Some b, m\<lparr>t1 := AList.delete h (t1 m)\<rparr>)
                     | None \<Rightarrow> (map_of (t2 m) h, m\<lparr>t2 := AList.delete h (t2 m)\<rparr>))
      in case b of
           None \<Rightarrow> m1
         | Some x \<Rightarrow> if is_ready x then m1 else m1\<lparr>arc_backend := cpu_free x (arc_backend m1)\<rparr>)"

definition arc_complete_store :: "bytes list \<Rightarrow> bool \<Rightarrow> arc_manager \<Rightarrow> arc_manager" where
  "arc_complete_store hs success m =
     (if success
      then let (done_hashes, m1) = fold arc_stored_one hs ([], m)
           in m1\<lparr>arc_events := add_event False done_hashes (arc_backend m1) (arc_events m1)\<rparr>
      else fold arc_failed_one hs m)"

definition arc_take_events :: "arc_manager \<Rightarrow> offloading_event list \<times> arc_manager" where
  "arc_take_events m = (case arc_events m of None \<Rightarrow> ([], m) | Some es \<Rightarrow> (es, m\<lparr>arc_events := Some []\<rparr>))"

section \<open>The invariant\<close>

definition arc_inv :: "arc_manager \<Rightarrow> bool" where
  "arc_inv m \<longleftrightarrow> cpu_ok (owned (t1 m) + owned (t2 m)) (arc_backend m) \<and> distinct (map fst (t1 m)) \<and> distinct (map fst (t2 m))
     \<and> fst ` set (t1 m) \<inter> fst ` set (t2 m) = {}"

lemma arc_init_inv: "0 \<le> n \<Longrightarrow> arc_inv (ARCOffloadingManager (CPUBackend bs n) ev)"
  by (simp add: arc_inv_def ARCOffloadingManager_def CPUBackend_def cpu_ok_def)

lemma oldest_unused_Some:
  assumes "oldest_unused d = Some (h, b)" and "distinct (map fst d)"
  shows "map_of d h = Some b \<and> bs_ref_cnt b = 0"
proof -
  obtain i where "i < length d" "bs_ref_cnt (snd (d ! i)) = 0" "(h, b) = d ! i"
    using assms(1) by (auto simp: oldest_unused_def find_Some_iff)
  then have "(h, b) \<in> set d" "bs_ref_cnt b = 0" by (metis nth_mem, metis snd_conv)
  then show ?thesis using assms(2) by simp
qed

lemma arc_evict_one_ok:
  assumes inv: "arc_inv m" and e: "arc_evict_one m = Some (h, m')"
  shows "arc_inv m' \<and> (\<exists>b. arc_get m h = Some b \<and> bs_ref_cnt b = 0) \<and> arc_get m' = (arc_get m)(h := None)
    \<and> cpu_num_free (arc_backend m') = cpu_num_free (arc_backend m) + 1 \<and> cache_capacity m' = cache_capacity m"
proof -
  have ok: "cpu_ok (owned (t1 m) + owned (t2 m)) (arc_backend m)" and d1: "distinct (map fst (t1 m))" and d2: "distinct (map fst (t2 m))"
    and dis: "fst ` set (t1 m) \<inter> fst ` set (t2 m) = {}" using inv by (simp_all add: arc_inv_def)
  consider b where "oldest_unused (t1 m) = Some (h, b)"
      "m' = m\<lparr>t1 := dropping {h} (t1 m), b1 := ghost_add h (b1 m), arc_backend := cpu_free b (arc_backend m)\<rparr>"
    | b where "oldest_unused (t2 m) = Some (h, b)"
      "m' = m\<lparr>t2 := dropping {h} (t2 m), b2 := ghost_add h (b2 m), arc_backend := cpu_free b (arc_backend m)\<rparr>"
    using e by (auto simp: arc_evict_one_def delete_dropping Let_def split: option.splits if_splits)
  then show ?thesis
  proof cases
    case 1
    from oldest_unused_Some [OF 1(1) d1] have b: "map_of (t1 m) h = Some b" "bs_ref_cnt b = 0" by simp_all
    have "h \<in> fst ` set (t1 m)" using b(1) by (metis map_of_eq_None_iff option.distinct(1))
    then have n2: "map_of (t2 m) h = None" using dis by (auto simp: map_of_eq_None_iff)
    have "cpu_ok (add_mset (bs_block_id b) (owned (dropping {h} (t1 m)) + owned (t2 m))) (arc_backend m)"
      using ok owned_dropping [OF d1 b(1)] by simp
    from cpu.release [OF this] show ?thesis
      using 1(2) b n2 d1 d2 dis distinct_dropping [OF d1]
      by (auto simp: arc_inv_def arc_get_def fun_eq_iff split: option.splits)
  next
    case 2
    from oldest_unused_Some [OF 2(1) d2] have b: "map_of (t2 m) h = Some b" "bs_ref_cnt b = 0" by simp_all
    have "h \<in> fst ` set (t2 m)" using b(1) by (metis map_of_eq_None_iff option.distinct(1))
    then have n1: "map_of (t1 m) h = None" using dis by (auto simp: map_of_eq_None_iff)
    have "cpu_ok (add_mset (bs_block_id b) (owned (t1 m) + owned (dropping {h} (t2 m)))) (arc_backend m)"
      using ok owned_dropping [OF d2 b(1)] by simp
    from cpu.release [OF this] show ?thesis
      using 2(2) b n1 d1 d2 dis distinct_dropping [OF d2]
      by (auto simp: arc_inv_def arc_get_def fun_eq_iff split: option.splits)
  qed
qed

lemma arc_evict_ok:
  assumes "arc_inv m" and "arc_evict n acc m = (res, m')"
  shows "arc_inv m' \<and> cache_capacity m' = cache_capacity m
    \<and> (\<forall>h. arc_get m' h = arc_get m h \<or> arc_get m' h = None \<and> (\<exists>b. arc_get m h = Some b \<and> bs_ref_cnt b = 0))
    \<and> (\<forall>out. res = Some out \<longrightarrow> cpu_num_free (arc_backend m') = cpu_num_free (arc_backend m) + int n)"
  using assms
proof (induction n arbitrary: acc m)
  case (Suc n)
  show ?case
  proof (cases "arc_evict_one m")
    case None
    then show ?thesis using Suc.prems by auto
  next
    case (Some p)
    obtain h m1 where p: "p = (h, m1)" by (cases p)
    have e: "arc_evict_one m = Some (h, m1)" using Some p by simp
    have run: "arc_evict n (acc @ [h]) m1 = (res, m')" using Suc.prems(2) e by simp
    note one = arc_evict_one_ok [OF Suc.prems(1) e]
    from Suc.IH [OF _ run] one show ?thesis by (auto simp: fun_upd_apply split: if_splits)
  qed
qed auto

lemma arc_insert_ok:
  assumes "distinct hs" and "length hs = length bs" and "set hs \<inter> fst ` set (t1 m) = {}"
  shows "t1 (fold arc_insert_one (zip hs bs) m) = t1 m @ zip hs bs \<and> t2 (fold arc_insert_one (zip hs bs) m) = t2 m
    \<and> arc_backend (fold arc_insert_one (zip hs bs) m) = arc_backend m
    \<and> length (b1 (fold arc_insert_one (zip hs bs) m)) \<le> length (b1 m) \<and> length (b2 (fold arc_insert_one (zip hs bs) m)) \<le> length (b2 m)"
  using assms
proof (induction hs arbitrary: bs m)
  case (Cons h hs)
  then obtain b bs' where b: "bs = b # bs'" by (cases bs) auto
  define m1 where "m1 = arc_insert_one (h, b) m"
  have m1: "t1 m1 = t1 m @ [(h, b)]" "t2 m1 = t2 m" "arc_backend m1 = arc_backend m" "length (b1 m1) \<le> length (b1 m)" "length (b2 m1) \<le> length (b2 m)"
    using Cons.prems(3) update_new [of h "t1 m" b] by (auto simp: m1_def arc_insert_one_def length_remove1)
  have "distinct hs" "length hs = length bs'" "set hs \<inter> fst ` set (t1 m1) = {}" using Cons.prems b m1(1) by auto
  from Cons.IH [OF this] m1 show ?case by (simp add: b m1_def [symmetric])
qed simp

section \<open>Storing is safe\<close>

text \<open>What \<open>prepare_store\<close> leaves when it returns an output.\<close>

definition arc_stored :: "arc_manager \<Rightarrow> bytes list \<Rightarrow> prepare_store_output \<Rightarrow> arc_manager \<Rightarrow> bool" where
  "arc_stored m hs out m' \<longleftrightarrow> po_to_store out = filter (\<lambda>h. arc_get m h = None) hs
           \<and> (po_to_store out \<noteq> [] \<longrightarrow> int (length (b1 m')) \<le> cache_capacity m \<and> int (length (b2 m')) \<le> cache_capacity m)
           \<and> distinct (po_spec out)
           \<and> (\<forall>h \<in> set (po_to_store out). \<exists>b. map_of (t1 m') h = Some b \<and> bs_ref_cnt b = -1 \<and> bs_block_id b \<in> set (po_spec out))
           \<and> (\<forall>h b. arc_get m' h = Some b \<and> h \<notin> set (po_to_store out) \<longrightarrow> bs_block_id b \<notin> set (po_spec out))"

lemma arc_prepare_store_ok:
  assumes inv: "arc_inv m" and hs: "distinct hs" and cap: "0 \<le> cache_capacity m"
  shows "\<exists>res m'. arc_prepare_store hs m = Inr (res, m') \<and> arc_inv m'
    \<and> (\<forall>h b. arc_get m h = Some b \<and> bs_ref_cnt b \<noteq> 0 \<longrightarrow> arc_get m' h = Some b)
    \<and> (case res of
         None \<Rightarrow> True
       | Some out \<Rightarrow> arc_stored m hs out m')"
proof -
  define new where "new = filter (\<lambda>h. map_of (t1 m) h = None \<and> map_of (t2 m) h = None) hs"
  have get: "(arc_get m h = None) = (map_of (t1 m) h = None \<and> map_of (t2 m) h = None)" for h
    by (simp add: arc_get_def split: option.split)
  have new: "new = filter (\<lambda>h. arc_get m h = None) hs" "distinct new" using hs by (simp_all add: new_def get)
  show ?thesis
  proof (cases "new = []")
    case True
    then show ?thesis using inv new unfolding arc_prepare_store_def new_def [symmetric]
      by (intro exI [of _ "Some \<lparr>po_to_store = [], po_spec = cpu_load_store_spec [], po_evicted = []\<rparr>"] exI [of _ m])
        (simp add: cpu_load_store_spec_def arc_stored_def)
  next
    case False
    define n where "n = nat (int (length new) - cpu_num_free (arc_backend m))"
    obtain evicted m1 where e: "arc_evict n [] m = (evicted, m1)" by (cases "arc_evict n [] m")
    note ev = arc_evict_ok [OF inv e]
    have keep: "arc_get m1 h = Some b" if "arc_get m h = Some b" "bs_ref_cnt b \<noteq> 0" for h b using ev that by (metis option.inject)
    show ?thesis
    proof (cases evicted)
      case None
      then have "arc_prepare_store hs m = Inr (None, m1)" using False e unfolding arc_prepare_store_def new_def [symmetric] n_def by (simp add: Let_def)
      then show ?thesis using ev keep by (intro exI [of _ None] exI [of _ m1]) simp
    next
      case (Some ev_list)
      define m2 where "m2 = m1\<lparr>b1 := bound_ghosts (cache_capacity m1) (b1 m1), b2 := bound_ghosts (cache_capacity m1) (b2 m1),
                        arc_events := add_event True ev_list (arc_backend m1) (arc_events m1)\<rparr>"
      have m2: "t1 m2 = t1 m1" "t2 m2 = t2 m1" "arc_backend m2 = arc_backend m1"
        "int (length (b1 m2)) \<le> cache_capacity m" "int (length (b2 m2)) \<le> cache_capacity m"
        using ev cap by (auto simp: m2_def bound_ghosts_def)
      have ok: "cpu_ok (owned (t1 m1) + owned (t2 m1)) (arc_backend m2)" "distinct (map fst (t1 m1))" "distinct (map fst (t2 m1))"
        "fst ` set (t1 m1) \<inter> fst ` set (t2 m1) = {}" using ev m2 by (simp_all add: arc_inv_def)
      have "int (length new) \<le> cpu_num_free (arc_backend m2)" using ev Some m2 by (auto simp: n_def)
      from cpu.alloc [OF ok(1) this] obtain bs be where a: "cpu_allocate_blocks (length new) (arc_backend m2) = Inr (bs, be)"
        "length bs = length new" "cpu_ok (owned (t1 m1) + owned (t2 m1) + block_ids bs) be" "\<forall>x \<in> set bs. bs_ref_cnt x = -1" by blast
      have absent: "arc_get m1 h = None" if "h \<in> set new" for h
      proof -
        from ev have "\<forall>h. arc_get m1 h = arc_get m h \<or> arc_get m1 h = None \<and> (\<exists>b. arc_get m h = Some b \<and> bs_ref_cnt b = 0)"
          by (elim conjE)
        then have "arc_get m1 h = arc_get m h \<or> arc_get m1 h = None" by metis
        then show ?thesis using that new(1) by auto
      qed
      have fresh: "map_of (t1 m1) h = None" "map_of (t2 m1) h = None" if "h \<in> set new" for h
        using absent [OF that] by (simp_all add: arc_get_def split: option.splits)
      then have dis: "set new \<inter> fst ` set (t1 m1) = {}" "set new \<inter> fst ` set (t2 m1) = {}" by (auto simp: map_of_eq_None_iff)
      define m3 where "m3 = fold arc_insert_one (zip new bs) (m2\<lparr>arc_backend := be\<rparr>)"
      have m3: "t1 m3 = t1 m1 @ zip new bs" "t2 m3 = t2 m1" "arc_backend m3 = be" "length (b1 m3) \<le> length (b1 m2)" "length (b2 m3) \<le> length (b2 m2)"
        using arc_insert_ok [of new bs "m2\<lparr>arc_backend := be\<rparr>"] new(2) a(2) dis(1) m2(1,2) by (simp_all add: m3_def)
      have run: "arc_prepare_store hs m = Inr (Some \<lparr>po_to_store = new, po_spec = cpu_load_store_spec bs, po_evicted = ev_list\<rparr>, m3)"
        using False e Some a(1) [unfolded m2(3)] a(2) m2(3) unfolding arc_prepare_store_def new_def [symmetric] n_def
        by (simp add: Let_def m2_def [symmetric] m3_def [symmetric] py_assert_def)
      have keys: "fst ` set (zip new bs) = set new" using a(2) by (metis map_fst_zip list.set_map)
      have inv3: "arc_inv m3"
        unfolding arc_inv_def m3 using ok a(2,3) new(2) dis dis [unfolded Int_commute [of "set new"]] keys
        by (simp add: owned_zip add.commute add.left_commute image_Un Int_Un_distrib2)
      have get3: "arc_get m3 h = (case map_of (zip new bs) h of None \<Rightarrow> arc_get m1 h | Some b \<Rightarrow> Some b)" for h
      proof (cases "h \<in> set new")
        case True
        then obtain b where "map_of (zip new bs) h = Some b" using a(2) by (metis map_of_zip_is_Some)
        then show ?thesis using fresh [OF True] m3 by (simp add: arc_get_def map_add_def)
      next
        case h: False
        then have "map_of (zip new bs) h = None" using a(2) by (simp add: map_of_zip_is_None)
        then show ?thesis using m3 by (simp add: arc_get_def map_add_def split: option.split)
      qed
      have stored: "\<exists>b. map_of (t1 m3) h = Some b \<and> bs_ref_cnt b = -1 \<and> bs_block_id b \<in> set (cpu_load_store_spec bs)" if h: "h \<in> set new" for h
      proof -
        obtain b where b: "map_of (zip new bs) h = Some b" using h a(2) by (metis map_of_zip_is_Some)
        then have "b \<in> set bs" by (metis map_of_SomeD set_zip_rightD)
        then show ?thesis using b a(4) m3(1) fresh(1) [OF h] by (auto simp: cpu_load_store_spec_def map_add_def)
      qed
      have other: "bs_block_id b \<notin> set (cpu_load_store_spec bs)" if g: "arc_get m3 h = Some b" "h \<notin> set new" for h b
      proof -
        have "map_of (zip new bs) h = None" using g(2) a(2) by (simp add: map_of_zip_is_None)
        then have "arc_get m1 h = Some b" using g(1) get3 [of h] by simp
        then have "(h, b) \<in> set (t1 m1) \<or> (h, b) \<in> set (t2 m1)" by (auto simp: arc_get_def split: option.splits dest: map_of_SomeD)
        then have "bs_block_id b \<in># owned (t1 m1) + owned (t2 m1)" by (force simp: owned_def block_ids_def)
        from cpu.ok_disjoint [OF a(3) this] show ?thesis by (simp add: cpu_load_store_spec_def block_ids_def)
      qed
      have used: "arc_get m3 h = Some b" if "arc_get m h = Some b" "bs_ref_cnt b \<noteq> 0" for h b
      proof -
        have "h \<notin> set new" using that(1) new(1) by simp
        then have "map_of (zip new bs) h = None" using a(2) by (simp add: map_of_zip_is_None)
        then show ?thesis using keep [OF that] get3 [of h] by simp
      qed
      have "distinct (cpu_load_store_spec bs)" using cpu.ok_distinct [OF a(3)] by (simp add: cpu_load_store_spec_def)
      then have "arc_stored m hs \<lparr>po_to_store = new, po_spec = cpu_load_store_spec bs, po_evicted = ev_list\<rparr> m3"
        using stored other m2(4,5) m3(4,5) new(1) unfolding arc_stored_def by auto
      then show ?thesis using run inv3 used
        by (intro exI [of _ "Some \<lparr>po_to_store = new, po_spec = cpu_load_store_spec bs, po_evicted = ev_list\<rparr>"] exI [of _ m3]) simp
    qed
  qed
qed

text \<open>C27: storing blocks in the ARC manager is safe.  With the CPU backend \<open>prepare_store\<close> never raises for distinct
  hashes, it keeps the invariant that no two entries share a location, and every block that is being read
  or written stays where it is; when it returns an output, the ghost lists are within the capacity and the new
  locations belong to no kept block.\<close>

theorem arc_prepare_store_safe:
  assumes inv: "arc_inv m" and hs: "distinct hs" and cap: "0 \<le> cache_capacity m"
  shows "\<exists>res m'. arc_prepare_store hs m = Inr (res, m') \<and> arc_inv m'
    \<and> (\<forall>h b. arc_get m h = Some b \<and> bs_ref_cnt b \<noteq> 0 \<longrightarrow> arc_get m' h = Some b)
    \<and> (case res of
         None \<Rightarrow> True
       | Some out \<Rightarrow> po_to_store out = filter (\<lambda>h. arc_get m h = None) hs
           \<and> (po_to_store out \<noteq> [] \<longrightarrow> int (length (b1 m')) \<le> cache_capacity m \<and> int (length (b2 m')) \<le> cache_capacity m)
           \<and> distinct (po_spec out)
           \<and> (\<forall>h \<in> set (po_to_store out). \<exists>b. arc_get m' h = Some b \<and> bs_ref_cnt b = -1 \<and> bs_block_id b \<in> set (po_spec out))
           \<and> (\<forall>h b. arc_get m' h = Some b \<and> h \<notin> set (po_to_store out) \<longrightarrow> bs_block_id b \<notin> set (po_spec out)))"
proof -
  obtain res m' where r: "arc_prepare_store hs m = Inr (res, m')" "arc_inv m'"
    "\<forall>h b. arc_get m h = Some b \<and> bs_ref_cnt b \<noteq> 0 \<longrightarrow> arc_get m' h = Some b"
    "case res of
         None \<Rightarrow> True
       | Some out \<Rightarrow> arc_stored m hs out m'"
    using arc_prepare_store_ok [OF assms] by blast
  have "arc_get m' h = Some b" if "map_of (t1 m') h = Some b" for h b using that by (simp add: arc_get_def)
  then have get: "\<exists>b. map_of (t1 m') h = Some b \<and> P b \<Longrightarrow> \<exists>b. arc_get m' h = Some b \<and> P b" for h P by blast
  show ?thesis
  proof (cases res)
    case None
    then show ?thesis using r(1-3) by auto
  next
    case (Some out)
    then have "\<forall>h \<in> set (po_to_store out). \<exists>b. arc_get m' h = Some b \<and> bs_ref_cnt b = -1 \<and> bs_block_id b \<in> set (po_spec out)"
      using r(4) get by (simp add: arc_stored_def)
    then show ?thesis using r Some by (intro exI [of _ "Some out"] exI [of _ m']) (simp add: arc_stored_def)
  qed
qed

definition sample_arc :: arc_manager where
  "sample_arc = ARCOffloadingManager (CPUBackend 16 2) False"

theorem arc_prepare_store_safe_witness:
  "\<exists>res m'. arc_prepare_store [[1], [2]] sample_arc = Inr (res, m') \<and> arc_inv m'"
proof -
  have "arc_inv sample_arc" "0 \<le> cache_capacity sample_arc"
    using arc_init_inv [of 2 16 False] by (simp_all add: sample_arc_def ARCOffloadingManager_def CPUBackend_def cpu_num_free_def)
  from arc_prepare_store_safe [OF this(1) _ this(2), of "[[1], [2]]"] show ?thesis by auto
qed

section \<open>Two defects\<close>

text \<open>Touching a block that is being stored raises \<open>KeyError\<close>.  The comment in \<open>touch\<close> says that such a block stays
  in \<open>T1\<close>; but it is taken out of \<open>T1\<close> before \<open>move_to_end\<close> looks for it there.  So after every \<open>prepare_store\<close>,
  touching a stored hash fails until \<open>complete_store\<close>.\<close>

theorem arc_touch_raises:
  assumes "arc_inv m" and "distinct hs" and "0 \<le> cache_capacity m"
    and "arc_prepare_store hs m = Inr (Some out, m')" and "h \<in> set (po_to_store out)"
  shows "arc_touch [h] m' = Inl KeyError"
proof -
  obtain res m'' where r: "arc_prepare_store hs m = Inr (res, m'')" "case res of None \<Rightarrow> True | Some out \<Rightarrow> arc_stored m hs out m''"
    using arc_prepare_store_ok [OF assms(1-3)] by blast
  then have "arc_stored m hs out m'" using assms(4) by auto
  then obtain b where b: "map_of (t1 m') h = Some b" "bs_ref_cnt b = -1" using assms(5) unfolding arc_stored_def by blast
  then have "map_of (AList.delete h (t1 m')) h = None" by (simp add: delete_dropping)
  then have "move_to_end h (AList.delete h (t1 m')) = Inl KeyError" by (simp add: move_to_end_def)
  then show ?thesis using b by (simp add: arc_touch_def arc_touch_one_def is_ready_def)
qed

theorem arc_touch_raises_witness:
  "\<exists>out m'. arc_prepare_store [[1], [2]] sample_arc = Inr (Some out, m') \<and> arc_touch [[1]] m' = Inl KeyError"
proof -
  have inv: "arc_inv sample_arc" "0 \<le> cache_capacity sample_arc" "distinct [[1], [2 :: 8 word]]"
    using arc_init_inv [of 2 16 False] by (simp_all add: sample_arc_def ARCOffloadingManager_def CPUBackend_def cpu_num_free_def)
  obtain out m' where r: "arc_prepare_store [[1], [2]] sample_arc = Inr (Some out, m')" "[1] \<in> set (po_to_store out)"
    by (simp add: arc_prepare_store_def sample_arc_def ARCOffloadingManager_def CPUBackend_def cpu_num_free_def Let_def
        cpu_allocate_blocks_def py_assert_def numeral_2_eq_2)
  then show ?thesis using arc_touch_raises [OF inv(1,3,2) r] by blast
qed

text \<open>A store reported as failed for a block that is ready loses the block: it leaves the cache without its
  location becoming free again, so the backend has one block less for ever.\<close>

lemma arc_failed_store_leaks:
  assumes "arc_inv m" and "arc_get m h = Some b" and "is_ready b"
  shows "arc_get (arc_complete_store [h] False m) h = None \<and> arc_backend (arc_complete_store [h] False m) = arc_backend m
    \<and> \<not> arc_inv (arc_complete_store [h] False m)"
proof -
  let ?m = "arc_complete_store [h] False m"
  have inv: "cpu_ok (owned (t1 m) + owned (t2 m)) (arc_backend m)" "distinct (map fst (t1 m))" "distinct (map fst (t2 m))"
    "fst ` set (t1 m) \<inter> fst ` set (t2 m) = {}" using assms(1) by (simp_all add: arc_inv_def)
  have "arc_get ?m h = None \<and> arc_backend ?m = arc_backend m \<and> add_mset (bs_block_id b) (owned (t1 ?m) + owned (t2 ?m)) = owned (t1 m) + owned (t2 m)"
  proof (cases "map_of (t1 m) h")
    case (Some x)
    then have "map_of (t2 m) h = None" using inv(4) by (force simp: map_of_eq_None_iff dest: map_of_SomeD)
    then show ?thesis using Some assms(2,3) owned_dropping [OF inv(2) Some]
      by (simp add: arc_complete_store_def arc_failed_one_def arc_get_def delete_dropping)
  next
    case None
    then have x: "map_of (t2 m) h = Some b" using assms(2) by (simp add: arc_get_def)
    then show ?thesis using None assms(3) owned_dropping [OF inv(3) x]
      by (simp add: arc_complete_store_def arc_failed_one_def arc_get_def delete_dropping)
  qed
  moreover have "\<not> cpu_ok H (arc_backend m)" if "add_mset i H = owned (t1 m) + owned (t2 m)" for i H
  proof
    assume "cpu_ok H (arc_backend m)"
    then have "H + mset (cb_free_list (arc_backend m)) = add_mset i H + mset (cb_free_list (arc_backend m))"
      using inv(1) that by (simp add: cpu_ok_def)
    then show False by simp
  qed
  ultimately show ?thesis by (metis arc_inv_def)
qed

end
