(* ===== verification/Ngram.thy ===== *)
theory Ngram
  imports Prelude
begin

text \<open>
  Speculative decoding by prompt lookup: \<open>NgramProposer\<close> of \<open>vllm/v1/spec_decode/ngram_proposer.py\<close>.  A numpy array is
  a list, a two-dimensional one the list of its rows.  The kernels are compiled by numba without bounds
  checks; the proofs only use accesses within bounds.  A loop that does not end is \<open>None\<close>.
\<close>

section \<open>The proposer\<close>

record ngram_proposer =
  min_n :: nat
  max_n :: nat
  num_spec :: nat
  ng_max_model_len :: nat
  valid_ngram_draft :: "int list list"
  valid_ngram_num_drafts :: "nat list"

text \<open>The failure function of the reversed tokens, with its search for the longest match.\<close>

partial_function (option) lps_loop ::
  "int list \<Rightarrow> nat \<Rightarrow> nat list \<Rightarrow> nat \<Rightarrow> nat \<Rightarrow> nat \<Rightarrow> nat \<Rightarrow> (nat \<times> nat) option" where
  "lps_loop tokens max_ngram lps longest_ngram position prev_lps i =
     (if i < length tokens then
        (if tokens ! prev_lps = tokens ! i then
           (let found = prev_lps + 1;
                (longest', position') = (if longest_ngram \<le> found then (found, i) else (longest_ngram, position));
                lps' = (if i < max_ngram then lps[i := found] else lps);
                next_lps = (if found = max_ngram then lps' ! (max_ngram - 1) else found)
            in lps_loop tokens max_ngram lps' longest' position' next_lps (i + 1))
         else if prev_lps \<noteq> 0 then lps_loop tokens max_ngram lps longest_ngram position (lps ! (prev_lps - 1)) i
         else lps_loop tokens max_ngram lps longest_ngram position prev_lps (i + 1))
      else Some (longest_ngram, position))"

definition find_longest_matched_ngram_and_propose_tokens :: "int list \<Rightarrow> nat \<Rightarrow> nat \<Rightarrow> nat \<Rightarrow> nat \<Rightarrow> int list option" where
  "find_longest_matched_ngram_and_propose_tokens origin_tokens min_ngram max_ngram max_model_len k =
     (let total_token = int (length origin_tokens) in
      if total_token < int min_ngram then Some []
      else
        let k1 = min (int k) (int max_model_len - total_token) in
        if k1 \<le> 0 then Some []
        else Option.bind (lps_loop (rev origin_tokens) max_ngram (replicate max_ngram 0) 0 0 0 1) (\<lambda>(longest_ngram, position).
          if longest_ngram < min_ngram then Some []
          else
            let start_position = total_token - 1 - int position + int longest_ngram;
                k2 = min k1 (total_token - start_position)
            in Some (take (nat k2) (drop (nat start_position) origin_tokens))))"

text \<open>One iteration of the \<open>prange\<close> loop: it writes the row \<open>idx\<close> of the two buffers only.\<close>

definition propose_one :: "nat list \<Rightarrow> int list list \<Rightarrow> nat \<Rightarrow> ngram_proposer \<Rightarrow> ngram_proposer option" where
  "propose_one num_tokens_no_spec token_ids_cpu idx s =
     (let context_token_ids = take (num_tokens_no_spec ! idx) (token_ids_cpu ! idx) in
      Option.bind (find_longest_matched_ngram_and_propose_tokens context_token_ids (min_n s) (max_n s) (ng_max_model_len s) (num_spec s))
        (\<lambda>out. Some (s\<lparr>valid_ngram_num_drafts := (valid_ngram_num_drafts s)[idx := length out],
                        valid_ngram_draft := (valid_ngram_draft s)[idx := out @ drop (length out) (valid_ngram_draft s ! idx)]\<rparr>)))"

fun batch_propose_numba :: "nat list \<Rightarrow> nat list \<Rightarrow> int list list \<Rightarrow> ngram_proposer \<Rightarrow> ngram_proposer option" where
  "batch_propose_numba [] num_tokens_no_spec token_ids_cpu s = Some s"
| "batch_propose_numba (idx # idxs) num_tokens_no_spec token_ids_cpu s =
     Option.bind (propose_one num_tokens_no_spec token_ids_cpu idx s) (batch_propose_numba idxs num_tokens_no_spec token_ids_cpu)"

text \<open>The drafts of request \<open>i\<close> are read from the buffers when the request is among the valid ones.\<close>

definition read_draft :: "nat list \<Rightarrow> ngram_proposer \<Rightarrow> nat \<Rightarrow> int list result" where
  "read_draft valid s i =
     (if i \<in> set valid
      then rbind (py_index (valid_ngram_num_drafts s) (int i)) (\<lambda>n.
             if 0 < n then rbind (py_index (valid_ngram_draft s) (int i)) (\<lambda>row. Inr (take n row)) else Inr [])
      else Inr [])"

definition batch_propose :: "nat \<Rightarrow> nat list \<Rightarrow> nat list \<Rightarrow> int list list \<Rightarrow> ngram_proposer \<Rightarrow> (int list list \<times> ngram_proposer) result option" where
  "batch_propose num_requests valid num_tokens_no_spec token_ids_cpu s =
     Option.bind (if valid \<noteq> [] then batch_propose_numba valid num_tokens_no_spec token_ids_cpu s else Some s) (\<lambda>s'.
       Some (rbind (foldM (\<lambda>i acc. rbind (read_draft valid s' i) (\<lambda>d. Inr (acc @ [d]))) [0..<num_requests] [])
               (\<lambda>drafts. Inr (drafts, s'))))"

definition valid_ngram_requests :: "int list list \<Rightarrow> nat list \<Rightarrow> nat \<Rightarrow> nat list" where
  "valid_ngram_requests sampled_token_ids num_tokens_no_spec max_model_len =
     filter (\<lambda>i. sampled_token_ids ! i \<noteq> [] \<and> num_tokens_no_spec ! i < max_model_len) [0..<length sampled_token_ids]"

definition propose :: "int list list \<Rightarrow> nat list \<Rightarrow> int list list \<Rightarrow> ngram_proposer \<Rightarrow> (int list list \<times> ngram_proposer) result option" where
  "propose sampled_token_ids num_tokens_no_spec token_ids_cpu s =
     batch_propose (length sampled_token_ids) (valid_ngram_requests sampled_token_ids num_tokens_no_spec (ng_max_model_len s))
       num_tokens_no_spec token_ids_cpu s"

text \<open>The constructor ends with a call of \<open>propose\<close> on 1024 requests without samples, to compile the kernels; it
  has no other effect (\<open>warm_up\<close> below).\<close>

definition NgramProposer :: "nat \<Rightarrow> nat \<Rightarrow> nat \<Rightarrow> nat \<Rightarrow> nat \<Rightarrow> ngram_proposer" where
  "NgramProposer prompt_lookup_min prompt_lookup_max num_speculative_tokens max_model_len max_num_seqs =
     \<lparr>min_n = prompt_lookup_min, max_n = prompt_lookup_max, num_spec = num_speculative_tokens, ng_max_model_len = max_model_len,
      valid_ngram_draft = replicate max_num_seqs (replicate num_speculative_tokens 0),
      valid_ngram_num_drafts = replicate max_num_seqs 0\<rparr>"

section \<open>The reference\<close>

text \<open>The last \<open>n\<close> tokens also occur at position \<open>p\<close>, before the end.\<close>

definition occurs :: "int list \<Rightarrow> nat \<Rightarrow> nat \<Rightarrow> bool" where
  "occurs xs n p \<longleftrightarrow> p + n < length xs \<and> take n (drop p xs) = drop (length xs - n) xs"

text \<open>What follows the first occurrence of the longest suffix of a length in the range that occurs earlier.\<close>

definition ngram_spec :: "int list \<Rightarrow> nat \<Rightarrow> nat \<Rightarrow> int \<Rightarrow> int list" where
  "ngram_spec xs lo hi limit =
     (case List.find (\<lambda>n. list_ex (occurs xs n) [0..<length xs]) (rev [lo..<Suc hi]) of
        None \<Rightarrow> []
      | Some n \<Rightarrow>
          (case List.find (occurs xs n) [0..<length xs] of
             None \<Rightarrow> []
           | Some p \<Rightarrow> take (nat limit) (drop (p + n) xs)))"

lemma find_rev_upt: "lo \<le> n \<Longrightarrow> n \<le> hi \<Longrightarrow> Q n \<Longrightarrow> (\<And>m. n < m \<Longrightarrow> m \<le> hi \<Longrightarrow> \<not> Q m) \<Longrightarrow> List.find Q (rev [lo..<Suc hi]) = Some n"
proof (induction hi)
  case (Suc hi)
  show ?case
  proof (cases "n = Suc hi")
    case True
    then show ?thesis using Suc.prems by (simp add: upt_Suc_append)
  next
    case False
    then have "List.find Q (rev [lo..<Suc hi]) = Some n" using Suc by simp
    then show ?thesis using Suc.prems False by simp
  qed
qed simp

lemma find_append: "List.find Q (xs @ ys) = (case List.find Q xs of None \<Rightarrow> List.find Q ys | Some x \<Rightarrow> Some x)"
  by (induction xs) auto

lemma find_upt: "p < m \<Longrightarrow> Q p \<Longrightarrow> (\<And>q. q < p \<Longrightarrow> \<not> Q q) \<Longrightarrow> List.find Q [0..<m] = Some p"
proof (induction m)
  case (Suc m)
  show ?case
  proof (cases "p = m")
    case True
    then have "List.find Q [0..<m] = None" using Suc.prems(3) by (auto simp: find_None_iff)
    then show ?thesis using True Suc.prems(2) by (simp add: find_append)
  next
    case False
    then show ?thesis using Suc by (simp add: find_append)
  qed
qed simp

section \<open>Borders\<close>

text \<open>The first \<open>v\<close> tokens are a proper suffix of the first \<open>n\<close>.\<close>

definition border :: "int list \<Rightarrow> nat \<Rightarrow> nat \<Rightarrow> bool" where
  "border t v n \<longleftrightarrow> v < n \<and> (\<forall>j < v. t ! j = t ! (n - v + j))"

lemma border_0 [simp]: "border t 0 n \<longleftrightarrow> 0 < n"
  by (simp add: border_def)

lemma border_less: "border t v n \<Longrightarrow> v < n"
  by (simp add: border_def)

lemma border_Suc: "border t (Suc v) (Suc n) \<longleftrightarrow> border t v n \<and> t ! v = t ! n"
  by (auto simp: border_def less_Suc_eq)

lemma border_shift:
  assumes "border t v n" and "u < v" and "j < u"
  shows "t ! (v - u + j) = t ! (n - u + j)"
proof -
  from assms have "v - u + j < v" "n - v + (v - u + j) = n - u + j" by (auto simp: border_def)
  then show ?thesis using assms(1) by (metis border_def)
qed

lemma border_trans: "border t u v \<Longrightarrow> border t v n \<Longrightarrow> border t u n"
  using border_shift [of t v n u] by (auto simp: border_def)

lemma border_inner: "border t u n \<Longrightarrow> border t v n \<Longrightarrow> u < v \<Longrightarrow> border t u v"
  using border_shift [of t v n u] by (simp add: border_def)

text \<open>The longest border of the first \<open>n\<close> tokens.\<close>

definition longest_border :: "int list \<Rightarrow> nat \<Rightarrow> nat \<Rightarrow> bool" where
  "longest_border t v n \<longleftrightarrow> border t v n \<and> (\<forall>u. border t u n \<longrightarrow> u \<le> v)"

section \<open>The loop\<close>

text \<open>\<open>longest_ngram\<close> and \<open>position\<close> after the positions below \<open>i\<close>: the longest match of a length up to
  \<open>max_ngram\<close>, at its last position.\<close>

definition best_match :: "int list \<Rightarrow> nat \<Rightarrow> nat \<Rightarrow> nat \<Rightarrow> nat \<Rightarrow> bool" where
  "best_match t mx longest pos i \<longleftrightarrow>
     longest \<le> mx \<and> (\<forall>i' v. 1 \<le> i' \<and> i' < i \<and> v \<le> mx \<and> border t v (Suc i') \<longrightarrow> v \<le> longest)
     \<and> (0 < longest \<longrightarrow> 1 \<le> pos \<and> pos < i \<and> border t longest (Suc pos)
         \<and> (\<forall>i'. pos < i' \<and> i' < i \<longrightarrow> \<not> border t longest (Suc i')))"

text \<open>The failure function is complete below \<open>i\<close> and zero from \<open>i\<close> on.\<close>

definition lps_ok :: "int list \<Rightarrow> nat \<Rightarrow> nat list \<Rightarrow> nat \<Rightarrow> bool" where
  "lps_ok t mx lps i \<longleftrightarrow> length lps = mx \<and> (\<forall>j < mx. if j < i then longest_border t (lps ! j) (Suc j) else lps ! j = 0)"

text \<open>\<open>prev_lps\<close> is a border of the tokens before \<open>i\<close>; no longer one below \<open>max_ngram\<close> can be extended.\<close>

definition candidate :: "int list \<Rightarrow> nat \<Rightarrow> nat \<Rightarrow> nat \<Rightarrow> bool" where
  "candidate t mx prev i \<longleftrightarrow> border t prev i \<and> prev < mx \<and> (\<forall>v. border t v i \<and> prev < v \<and> v < mx \<longrightarrow> t ! v \<noteq> t ! i)"

lemma lps_shorter: "lps_ok t mx lps i \<Longrightarrow> 0 < v \<Longrightarrow> v \<le> mx \<Longrightarrow> v \<le> i \<Longrightarrow> longest_border t (lps ! (v - 1)) v"
  by (cases v) (auto simp: lps_ok_def)

lemma candidate_shorter:
  assumes "candidate t mx prev i" and "longest_border t u prev" and "t ! prev \<noteq> t ! i"
  shows "candidate t mx u i" and "u < prev"
proof -
  show u: "u < prev" using assms(2) by (simp add: longest_border_def border_def)
  have "t ! v \<noteq> t ! i" if v: "border t v i" "u < v" "v < mx" for v
  proof (cases "v < prev")
    case True
    then have "border t v prev" using v(1) assms(1) by (auto simp: candidate_def intro: border_inner)
    then show ?thesis using assms(2) v(2) by (auto simp: longest_border_def)
  next
    case False
    then show ?thesis using assms(1,3) v by (cases "v = prev") (auto simp: candidate_def)
  qed
  then show "candidate t mx u i" using assms(1,2) u by (auto simp: candidate_def longest_border_def intro: border_trans)
qed

lemma candidate_extends:
  assumes "candidate t mx prev i" and "t ! prev = t ! i"
  shows "border t (Suc prev) (Suc i)" and "\<And>v. border t v (Suc i) \<Longrightarrow> v \<le> mx \<Longrightarrow> v \<le> Suc prev"
proof -
  show "border t (Suc prev) (Suc i)" using assms by (simp add: border_Suc candidate_def)
  fix v assume v: "border t v (Suc i)" "v \<le> mx"
  show "v \<le> Suc prev"
  proof (cases v)
    case (Suc u)
    then have "border t u i" "t ! u = t ! i" using v(1) by (simp_all add: border_Suc)
    then show ?thesis using assms(1) v(2) Suc by (auto simp: candidate_def not_less)
  qed simp
qed

lemma candidate_none:
  assumes "candidate t mx 0 i" and "t ! 0 \<noteq> t ! i" and "border t v (Suc i)" and "v \<le> mx"
  shows "v = 0"
proof (cases v)
  case (Suc u)
  then have "border t u i" "t ! u = t ! i" using assms(3) by (simp_all add: border_Suc)
  then show ?thesis using assms(1,2,4) Suc by (cases u) (auto simp: candidate_def)
qed simp

lemma candidate_capped:
  assumes "border t mx (Suc i)" and "longest_border t u mx"
  shows "candidate t mx u (Suc i)"
proof -
  have "\<not> border t v (Suc i)" if "u < v" "v < mx" for v
    using border_inner [OF _ assms(1) that(2)] assms(2) that(1) by (auto simp: longest_border_def)
  then show ?thesis using assms border_trans [of t u mx] by (auto simp: candidate_def longest_border_def border_less)
qed

lemma candidate_next:
  assumes "border t w (Suc i)" and "w < mx" and "\<And>v. border t v (Suc i) \<Longrightarrow> v \<le> mx \<Longrightarrow> v \<le> w"
  shows "candidate t mx w (Suc i)"
  using assms by (force simp: candidate_def)

lemma best_match_found:
  assumes "best_match t mx longest pos i" and "border t w (Suc i)" and "w \<le> mx" and "1 \<le> i"
    and "\<And>v. border t v (Suc i) \<Longrightarrow> v \<le> mx \<Longrightarrow> v \<le> w"
  shows "longest \<le> w \<Longrightarrow> best_match t mx w i (Suc i)" and "w < longest \<Longrightarrow> best_match t mx longest pos (Suc i)"
proof -
  have max: "v \<le> longest" if "1 \<le> i'" "i' < i" "v \<le> mx" "border t v (Suc i')" for i' v
    using assms(1) that by (auto simp: best_match_def)
  show "best_match t mx w i (Suc i)" if le: "longest \<le> w"
  proof -
    have "v \<le> w" if "1 \<le> i'" "i' < Suc i" "v \<le> mx" "border t v (Suc i')" for i' v
      using max [of i' v] assms(5) [of v] that le by (cases "i' = i") auto
    then show ?thesis using assms(2-4) by (auto simp: best_match_def)
  qed
  show "best_match t mx longest pos (Suc i)" if less: "w < longest"
  proof -
    have "v \<le> longest" if "1 \<le> i'" "i' < Suc i" "v \<le> mx" "border t v (Suc i')" for i' v
      using max [of i' v] assms(5) [of v] that less by (cases "i' = i") auto
    moreover have "\<not> border t longest (Suc i)" using assms(1) assms(5) [of longest] less by (auto simp: best_match_def)
    ultimately show ?thesis using assms(1) less by (auto simp: best_match_def less_Suc_eq)
  qed
qed

lemma lps_ok_found:
  assumes "lps_ok t mx lps i" and "border t w (Suc i)" and "\<And>v. border t v (Suc i) \<Longrightarrow> v \<le> mx \<Longrightarrow> v \<le> w"
  shows "lps_ok t mx (if i < mx then lps[i := w] else lps) (Suc i)"
proof -
  have "longest_border t w (Suc i)" if "i < mx"
    unfolding longest_border_def
  proof (intro conjI allI impI)
    fix u assume "border t u (Suc i)"
    then show "u \<le> w" using assms(3) border_less that by fastforce
  qed (rule assms(2))
  then show ?thesis using assms(1) by (auto simp: lps_ok_def nth_list_update less_Suc_eq)
qed

text \<open>The loop ends, with the longest match below \<open>max_ngram\<close> at its last position.\<close>

lemma lps_loop_ok:
  assumes "candidate t mx prev i" and "lps_ok t mx lps i" and "best_match t mx longest pos i" and "1 \<le> i"
  shows "\<exists>l p. lps_loop t mx lps longest pos prev i = Some (l, p) \<and> best_match t mx l p (max i (length t))"
  using assms
proof (induction "2 * (length t - i) + prev" arbitrary: prev i lps longest pos rule: less_induct)
  case less
  note unfold = lps_loop.simps [of t mx lps longest pos prev i]
  show ?case
  proof (cases "i < length t")
    case False
    then show ?thesis using less.prems(3) unfold by (simp add: max_def)
  next
    case i: True
    have mx: "prev < mx" "prev < i" using less.prems(1) by (auto simp: candidate_def dest: border_less)
    show ?thesis
    proof (cases "t ! prev = t ! i")
      case True
      note ext = candidate_extends [OF less.prems(1) True]
      define lps' where "lps' = (if i < mx then lps[i := Suc prev] else lps)"
      define next_lps where "next_lps = (if Suc prev = mx then lps' ! (mx - 1) else Suc prev)"
      define best where "best = (if longest \<le> Suc prev then (Suc prev, i) else (longest, pos))"
      have ok: "lps_ok t mx lps' (Suc i)" unfolding lps'_def using lps_ok_found [OF less.prems(2) ext(1)] ext(2) by blast
      have "longest_border t (lps' ! (mx - 1)) mx" if "Suc prev = mx" using lps_shorter [OF ok, of mx] that mx(2) by simp
      then have cand: "candidate t mx next_lps (Suc i)"
        using candidate_capped [of t mx i] candidate_next [OF ext(1)] ext mx(1) by (auto simp: next_lps_def)
      have bm: "best_match t mx (fst best) (snd best) (Suc i)"
        unfolding best_def using best_match_found [OF less.prems(3) ext(1) _ less.prems(4)] ext(2) mx(1) by auto
      have "next_lps \<le> Suc prev" using ext cand by (auto simp: candidate_def)
      then have dec: "2 * (length t - Suc i) + next_lps < 2 * (length t - i) + prev" using i by simp
      from less.hyps [OF dec cand ok bm] i
      obtain l p where "lps_loop t mx lps' (fst best) (snd best) next_lps (Suc i) = Some (l, p)"
        "best_match t mx l p (max (Suc i) (length t))" by auto
      moreover have "lps_loop t mx lps longest pos prev i = lps_loop t mx lps' (fst best) (snd best) next_lps (Suc i)"
        using True i unfold by (simp add: lps'_def next_lps_def best_def Let_def)
      ultimately show ?thesis using i by (simp add: max_def)
    next
      case no: False
      show ?thesis
      proof (cases "prev = 0")
        case False
        then have "longest_border t (lps ! (prev - 1)) prev" using lps_shorter [OF less.prems(2), of prev] mx by simp
        from candidate_shorter [OF less.prems(1) this no]
        have "candidate t mx (lps ! (prev - 1)) i" "2 * (length t - i) + lps ! (prev - 1) < 2 * (length t - i) + prev" by simp_all
        from less.hyps [OF this(2,1) less.prems(2-4)] show ?thesis using no i False unfold by simp
      next
        case True
        have none: "v = 0" if "border t v (Suc i)" "v \<le> mx" for v
          using candidate_none [of t mx i v] less.prems(1) no that True by simp
        have cand: "candidate t mx 0 (Suc i)" using none mx(1) by (force simp: candidate_def)
        have ok: "lps_ok t mx lps (Suc i)"
        proof -
          have "lps[i := 0] = lps" if "i < mx" using less.prems(2) that by (auto simp: lps_ok_def list_eq_iff_nth_eq nth_list_update)
          then show ?thesis using lps_ok_found [OF less.prems(2), of 0] none by (auto split: if_splits)
        qed
        have bm: "best_match t mx longest pos (Suc i)"
        proof (cases "longest = 0")
          case True
          then show ?thesis using less.prems(3) none by (auto simp: best_match_def less_Suc_eq)
        next
          case False
          then show ?thesis using best_match_found(2) [OF less.prems(3), of 0] none less.prems(4) by auto
        qed
        have dec: "2 * (length t - Suc i) + 0 < 2 * (length t - i) + prev" using i by simp
        from less.hyps [OF dec cand ok bm] i no True unfold show ?thesis by (auto simp: max_def)
      qed
    qed
  qed
qed

section \<open>The proposals are those of the reference\<close>

lemma occurs_border:
  assumes "i < length xs" and "v \<le> i"
  shows "occurs xs v (length xs - 1 - i) \<longleftrightarrow> border (rev xs) v (Suc i)"
proof -
  let ?p = "length xs - 1 - i"
  have len: "?p + v < length xs" using assms by simp
  then have "occurs xs v ?p \<longleftrightarrow> (\<forall>j < v. xs ! (?p + j) = xs ! (length xs - v + j))"
    by (auto simp: occurs_def list_eq_iff_nth_eq)
  also have "\<dots> \<longleftrightarrow> (\<forall>j < v. xs ! (?p + (v - 1 - j)) = xs ! (length xs - v + (v - 1 - j)))"
  proof (intro iffI allI impI)
    fix j assume h: "\<forall>j < v. xs ! (?p + (v - 1 - j)) = xs ! (length xs - v + (v - 1 - j))" and j: "j < v"
    have e: "v - 1 - (v - 1 - j) = j" and "v - 1 - j < v" using j by simp_all
    then show "xs ! (?p + j) = xs ! (length xs - v + j)" using h [rule_format, of "v - 1 - j", unfolded e] by blast
  next
    fix j assume h: "\<forall>j < v. xs ! (?p + j) = xs ! (length xs - v + j)" and "j < v"
    then have "v - 1 - j < v" by simp
    then show "xs ! (?p + (v - 1 - j)) = xs ! (length xs - v + (v - 1 - j))" using h by blast
  qed
  also have "\<dots> \<longleftrightarrow> (\<forall>j < v. rev xs ! j = rev xs ! (Suc i - v + j))"
  proof (intro all_cong1 imp_cong refl)
    fix j assume j: "j < v"
    have "?p + (v - 1 - j) = length xs - Suc (Suc i - v + j)" "length xs - v + (v - 1 - j) = length xs - Suc j"
      using assms j by auto
    then show "(xs ! (?p + (v - 1 - j)) = xs ! (length xs - v + (v - 1 - j))) = (rev xs ! j = rev xs ! (Suc i - v + j))"
      using assms j by (auto simp: rev_nth)
  qed
  finally show ?thesis using assms by (auto simp: border_def)
qed

lemma occurs_borderD:
  assumes "occurs xs n p" and "1 \<le> n"
  shows "border (rev xs) n (Suc (length xs - 1 - p))" and "1 \<le> length xs - 1 - p" and "length xs - 1 - p < length xs"
    and "n \<le> length xs - 1 - p"
proof -
  have p: "p + n < length xs" using assms(1) by (simp add: occurs_def)
  then show i: "1 \<le> length xs - 1 - p" "length xs - 1 - p < length xs" "n \<le> length xs - 1 - p" using assms(2) by auto
  have "length xs - 1 - (length xs - 1 - p) = p" using p by simp
  then show "border (rev xs) n (Suc (length xs - 1 - p))" using occurs_border [OF i(2,3)] assms(1) by simp
qed

lemma ngram_spec_None: "(\<And>n p. lo \<le> n \<Longrightarrow> n \<le> hi \<Longrightarrow> \<not> occurs xs n p) \<Longrightarrow> ngram_spec xs lo hi limit = []"
proof -
  assume "\<And>n p. lo \<le> n \<Longrightarrow> n \<le> hi \<Longrightarrow> \<not> occurs xs n p"
  then have "List.find (\<lambda>n. list_ex (occurs xs n) [0..<length xs]) (rev [lo..<Suc hi]) = None"
    by (auto simp: find_None_iff list_ex_iff)
  then show ?thesis unfolding ngram_spec_def by simp
qed

lemma ngram_spec_Some:
  assumes "lo \<le> n" and "n \<le> hi" and "occurs xs n p" and "\<And>m q. n < m \<Longrightarrow> m \<le> hi \<Longrightarrow> \<not> occurs xs m q" and "\<And>q. q < p \<Longrightarrow> \<not> occurs xs n q"
  shows "ngram_spec xs lo hi limit = take (nat limit) (drop (p + n) xs)"
proof -
  have p: "p < length xs" using assms(3) by (simp add: occurs_def)
  have "List.find (\<lambda>n. list_ex (occurs xs n) [0..<length xs]) (rev [lo..<Suc hi]) = Some n"
    using assms p by (intro find_rev_upt) (auto simp: list_ex_iff)
  moreover have "List.find (occurs xs n) [0..<length xs] = Some p" using assms(3,5) p by (intro find_upt) auto
  ultimately show ?thesis unfolding ngram_spec_def by simp
qed

lemma ngram_spec_length: "length (ngram_spec xs lo hi limit) \<le> nat limit"
  by (auto simp: ngram_spec_def split: option.splits)

lemma ngram_spec_0: "limit \<le> 0 \<Longrightarrow> ngram_spec xs lo hi limit = []"
  using ngram_spec_length [of xs lo hi limit] by simp

lemma find_longest_matched_ngram_ok:
  assumes "1 \<le> lo" and "1 \<le> hi"
  shows "find_longest_matched_ngram_and_propose_tokens xs lo hi mml k = Some (ngram_spec xs lo hi (min (int k) (int mml - int (length xs))))"
proof (cases "length xs < lo \<or> min (int k) (int mml - int (length xs)) \<le> 0")
  case True
  have "ngram_spec xs lo hi limit = []" if "length xs < lo" for limit
    using that by (intro ngram_spec_None) (auto simp: occurs_def)
  then show ?thesis using True ngram_spec_0 by (auto simp: find_longest_matched_ngram_and_propose_tokens_def Let_def)
next
  case False
  let ?t = "rev xs" and ?k1 = "min (int k) (int mml - int (length xs))"
  have len: "1 \<le> length xs" using False assms by simp
  have "border ?t v 1 \<longleftrightarrow> v = 0" for v by (auto simp: border_def)
  then have "candidate ?t hi 0 1" "lps_ok ?t hi (replicate hi 0) 1" "best_match ?t hi 0 0 1"
    using assms(2) by (auto simp: candidate_def lps_ok_def longest_border_def best_match_def)
  from lps_loop_ok [OF this] len obtain l pos where run: "lps_loop ?t hi (replicate hi 0) 0 0 0 1 = Some (l, pos)"
    and best: "best_match ?t hi l pos (length xs)" by (auto simp: max_def split: if_splits)
  have top: "n \<le> l" if "occurs xs n p" "1 \<le> n" "n \<le> hi" for n p
    using best occurs_borderD [OF that(1,2)] that(3) unfolding best_match_def by blast
  show ?thesis
  proof (cases "l < lo")
    case True
    have "ngram_spec xs lo hi ?k1 = []" using top True assms(1) by (intro ngram_spec_None) fastforce
    then show ?thesis using run True False by (simp add: find_longest_matched_ngram_and_propose_tokens_def Let_def not_less not_le)
  next
    case found: False
    then have b: "l \<le> hi" "1 \<le> pos" "pos < length xs" "border ?t l (Suc pos)"
      "\<And>i. pos < i \<Longrightarrow> i < length xs \<Longrightarrow> \<not> border ?t l (Suc i)" using best assms(1) by (auto simp: best_match_def)
    have l: "l \<le> pos" "1 \<le> l" using b(4) found assms(1) by (auto simp: border_def)
    have occ: "occurs xs l (length xs - 1 - pos)" using occurs_border [OF b(3) l(1)] b(4) by simp
    have first: "\<not> occurs xs l q" if "q < length xs - 1 - pos" for q
      using occurs_borderD [of xs l q] b(5) [of "length xs - 1 - q"] l(2) that by force
    have "\<not> occurs xs m q" if "l < m" "m \<le> hi" for m q using top [of m q] that by force
    with occ first found b(1) have spec: "ngram_spec xs lo hi ?k1 = take (nat ?k1) (drop (length xs - 1 - pos + l) xs)"
      by (intro ngram_spec_Some) auto
    have start: "int (length xs) - 1 - int pos + int l = int (length xs - 1 - pos + l)" using b(3) by simp
    have "find_longest_matched_ngram_and_propose_tokens xs lo hi mml k
      = Some (take (nat (min ?k1 (int (length xs) - (int (length xs) - 1 - int pos + int l)))) (drop (nat (int (length xs) - 1 - int pos + int l)) xs))"
      using run found False by (simp add: find_longest_matched_ngram_and_propose_tokens_def Let_def not_less not_le)
    moreover have "take (nat (min ?k1 (int (length xs) - int n))) (drop n xs) = take (nat ?k1) (drop n xs)" for n
      by (cases "?k1 \<le> int (length xs) - int n") auto
    ultimately show ?thesis unfolding start nat_int spec by (simp only:)
  qed
qed

text \<open>The buffers have a row of \<open>k\<close> drafts for each of \<open>n\<close> requests.\<close>

definition buffers_ok :: "nat \<Rightarrow> ngram_proposer \<Rightarrow> bool" where
  "buffers_ok n s \<longleftrightarrow> n \<le> length (valid_ngram_num_drafts s) \<and> length (valid_ngram_draft s) = length (valid_ngram_num_drafts s)
     \<and> (\<forall>row \<in> set (valid_ngram_draft s). length row = num_spec s)"

definition request_drafts :: "ngram_proposer \<Rightarrow> nat list \<Rightarrow> int list list \<Rightarrow> nat \<Rightarrow> int list" where
  "request_drafts s num_tokens toks i =
     ngram_spec (take (num_tokens ! i) (toks ! i)) (min_n s) (max_n s)
       (min (int (num_spec s)) (int (ng_max_model_len s) - int (length (take (num_tokens ! i) (toks ! i)))))"

definition same_limits :: "ngram_proposer \<Rightarrow> ngram_proposer \<Rightarrow> bool" where
  "same_limits s s' \<longleftrightarrow> min_n s' = min_n s \<and> max_n s' = max_n s \<and> num_spec s' = num_spec s \<and> ng_max_model_len s' = ng_max_model_len s"

lemma request_drafts_cong: "same_limits s s' \<Longrightarrow> request_drafts s' = request_drafts s"
  by (simp add: fun_eq_iff request_drafts_def same_limits_def)

lemma request_drafts_length: "length (request_drafts s nt toks i) \<le> num_spec s"
  using ngram_spec_length [of "take (nt ! i) (toks ! i)" "min_n s" "max_n s"
      "min (int (num_spec s)) (int (ng_max_model_len s) - int (length (take (nt ! i) (toks ! i))))"]
  by (simp add: request_drafts_def)

lemma batch_propose_numba_ok:
  assumes "1 \<le> min_n s" and "1 \<le> max_n s" and "buffers_ok n s" and "\<forall>i \<in> set idxs. i < n"
  shows "\<exists>s'. batch_propose_numba idxs nt toks s = Some s' \<and> buffers_ok n s' \<and> same_limits s s'
    \<and> (\<forall>i \<in> set idxs. valid_ngram_num_drafts s' ! i = length (request_drafts s nt toks i)
         \<and> take (length (request_drafts s nt toks i)) (valid_ngram_draft s' ! i) = request_drafts s nt toks i)
    \<and> (\<forall>i < n. i \<notin> set idxs \<longrightarrow> valid_ngram_num_drafts s' ! i = valid_ngram_num_drafts s ! i \<and> valid_ngram_draft s' ! i = valid_ngram_draft s ! i)"
  using assms
proof (induction idxs arbitrary: s)
  case (Cons idx idxs)
  let ?d = "request_drafts s nt toks idx"
  define s1 where "s1 = s\<lparr>valid_ngram_num_drafts := (valid_ngram_num_drafts s)[idx := length ?d],
    valid_ngram_draft := (valid_ngram_draft s)[idx := ?d @ drop (length ?d) (valid_ngram_draft s ! idx)]\<rparr>"
  have run: "propose_one nt toks idx s = Some s1"
    by (simp add: propose_one_def find_longest_matched_ngram_ok [OF Cons.prems(1,2)] s1_def request_drafts_def Let_def)
  have lim: "same_limits s s1" by (simp add: s1_def same_limits_def)
  have idx: "idx < n" "idx < length (valid_ngram_num_drafts s)" "idx < length (valid_ngram_draft s)"
    using Cons.prems(3,4) by (auto simp: buffers_ok_def)
  have "length (?d @ drop (length ?d) (valid_ngram_draft s ! idx)) = num_spec s"
    using Cons.prems(3) idx request_drafts_length [of s nt toks idx] by (simp add: buffers_ok_def)
  then have ok: "buffers_ok n s1"
    using Cons.prems(3) set_update_subset_insert [of "valid_ngram_draft s" idx] by (fastforce simp: buffers_ok_def s1_def)
  have "1 \<le> min_n s1" "1 \<le> max_n s1" "\<forall>i \<in> set idxs. i < n" using Cons.prems lim by (simp_all add: same_limits_def)
  from Cons.IH [OF this(1,2) ok this(3)] obtain s' where s': "batch_propose_numba idxs nt toks s1 = Some s'" "buffers_ok n s'" "same_limits s1 s'"
    "\<forall>i \<in> set idxs. valid_ngram_num_drafts s' ! i = length (request_drafts s nt toks i)
       \<and> take (length (request_drafts s nt toks i)) (valid_ngram_draft s' ! i) = request_drafts s nt toks i"
    "\<forall>i < n. i \<notin> set idxs \<longrightarrow> valid_ngram_num_drafts s' ! i = valid_ngram_num_drafts s1 ! i \<and> valid_ngram_draft s' ! i = valid_ngram_draft s1 ! i"
    unfolding request_drafts_cong [OF lim] by blast
  have s1: "valid_ngram_num_drafts s1 ! idx = length ?d" "take (length ?d) (valid_ngram_draft s1 ! idx) = ?d"
    "\<And>i. i \<noteq> idx \<Longrightarrow> valid_ngram_num_drafts s1 ! i = valid_ngram_num_drafts s ! i \<and> valid_ngram_draft s1 ! i = valid_ngram_draft s ! i"
    using idx by (simp_all add: s1_def)
  have "valid_ngram_num_drafts s' ! i = length (request_drafts s nt toks i)
      \<and> take (length (request_drafts s nt toks i)) (valid_ngram_draft s' ! i) = request_drafts s nt toks i" if "i \<in> set (idx # idxs)" for i
    using that s'(4,5) s1(1,2) idx(1) by (cases "i \<in> set idxs") auto
  moreover have "valid_ngram_num_drafts s' ! i = valid_ngram_num_drafts s ! i \<and> valid_ngram_draft s' ! i = valid_ngram_draft s ! i"
    if "i < n" "i \<notin> set (idx # idxs)" for i using that s'(5) s1(3) by auto
  moreover have "same_limits s s'" using lim s'(3) by (simp add: same_limits_def)
  ultimately show ?case using run s'(1,2) by auto
qed (simp add: same_limits_def)

lemma foldM_snoc: "(\<And>i. i \<in> set xs \<Longrightarrow> f i = Inr (g i)) \<Longrightarrow> foldM (\<lambda>i acc. rbind (f i) (\<lambda>d. Inr (acc @ [d]))) xs acc = Inr (acc @ map g xs)"
  by (induction xs arbitrary: acc) simp_all

text \<open>C32: the n-gram proposer finds what a direct search finds.  For a request with new samples and room left,
  the drafts are the tokens after the first earlier occurrence of the longest suffix of its tokens, of a
  length between \<open>min_n\<close> and \<open>max_n\<close>, that occurs earlier; other requests get none.  The loop over the failure
  function always ends, there are at most \<open>k\<close> drafts and they never go past the maximum model length, whatever
  earlier calls left in the shared buffers.\<close>

theorem propose_equals_search:
  assumes s: "1 \<le> min_n s" "1 \<le> max_n s" "buffers_ok (length sampled) s"
    and len: "\<forall>i < length sampled. num_tokens ! i \<le> length (toks ! i)"
  shows "\<exists>drafts s'. propose sampled num_tokens toks s = Some (Inr (drafts, s'))
    \<and> length drafts = length sampled
    \<and> (\<forall>i < length sampled.
         drafts ! i = (if sampled ! i = [] \<or> ng_max_model_len s \<le> num_tokens ! i then []
                       else ngram_spec (take (num_tokens ! i) (toks ! i)) (min_n s) (max_n s)
                              (min (int (num_spec s)) (int (ng_max_model_len s) - int (num_tokens ! i))))
         \<and> length (drafts ! i) \<le> num_spec s
         \<and> (drafts ! i \<noteq> [] \<longrightarrow> num_tokens ! i + length (drafts ! i) \<le> ng_max_model_len s))
    \<and> buffers_ok (length sampled) s'"
proof -
  let ?valid = "valid_ngram_requests sampled num_tokens (ng_max_model_len s)"
  define drafts where "drafts = map (\<lambda>i. if i \<in> set ?valid then request_drafts s num_tokens toks i else []) [0..<length sampled]"
  have valid: "i \<in> set ?valid \<longleftrightarrow> i < length sampled \<and> sampled ! i \<noteq> [] \<and> num_tokens ! i < ng_max_model_len s" for i
    by (auto simp: valid_ngram_requests_def)
  obtain s' where s': "batch_propose_numba ?valid num_tokens toks s = Some s'" "buffers_ok (length sampled) s'"
    "\<And>i. i \<in> set ?valid \<Longrightarrow> valid_ngram_num_drafts s' ! i = length (request_drafts s num_tokens toks i)
       \<and> take (length (request_drafts s num_tokens toks i)) (valid_ngram_draft s' ! i) = request_drafts s num_tokens toks i"
    using batch_propose_numba_ok [OF s, of ?valid num_tokens toks] valid by metis
  have read: "read_draft ?valid s' i = Inr (if i \<in> set ?valid then request_drafts s num_tokens toks i else [])" if "i < length sampled" for i
    using s'(2) s'(3) [of i] that by (auto simp: read_draft_def buffers_ok_def)
  have "propose sampled num_tokens toks s = Some (Inr (drafts, s'))"
    using s'(1) foldM_snoc [of "[0..<length sampled]" "read_draft ?valid s'"] read
    by (cases "?valid = []") (simp_all add: propose_def batch_propose_def drafts_def)
  moreover have "length drafts = length sampled" by (simp add: drafts_def)
  moreover have "drafts ! i = (if sampled ! i = [] \<or> ng_max_model_len s \<le> num_tokens ! i then []
      else ngram_spec (take (num_tokens ! i) (toks ! i)) (min_n s) (max_n s) (min (int (num_spec s)) (int (ng_max_model_len s) - int (num_tokens ! i))))"
    if "i < length sampled" for i using that valid [of i] len by (auto simp: drafts_def request_drafts_def min_absorb2)
  moreover have "length (drafts ! i) \<le> num_spec s" if "i < length sampled" for i
    using that request_drafts_length [of s num_tokens toks i] by (simp add: drafts_def)
  moreover have "num_tokens ! i + length (drafts ! i) \<le> ng_max_model_len s" if "i < length sampled" "drafts ! i \<noteq> []" for i
    using that valid [of i] len ngram_spec_length [of "take (num_tokens ! i) (toks ! i)" "min_n s" "max_n s"
      "min (int (num_spec s)) (int (ng_max_model_len s) - int (num_tokens ! i))"]
    by (auto simp: drafts_def request_drafts_def min_absorb2 split: if_splits)
  ultimately show ?thesis using s'(2) by blast
qed

theorem propose_equals_search_witness:
  "\<exists>drafts s'. propose [[7], []] [5, 2] [[1, 2, 3, 1, 2], [4, 4]] (NgramProposer 1 3 2 100 4) = Some (Inr (drafts, s')) \<and> drafts ! 0 = [3, 1] \<and> drafts ! 1 = []"
proof -
  have ok: "1 \<le> min_n (NgramProposer 1 3 2 100 4)" "1 \<le> max_n (NgramProposer 1 3 2 100 4)" "buffers_ok (length [[7 :: int], []]) (NgramProposer 1 3 2 100 4)"
    "\<forall>i < length [[7 :: int], []]. [5, 2] ! i \<le> length ([[1, 2, 3, 1, 2], [4, 4 :: int]] ! i)"
    by (simp_all add: NgramProposer_def buffers_ok_def less_Suc_eq)
  have "ngram_spec [1, 2, 3, 1, 2] 1 3 2 = [3, 1]" by code_simp
  then show ?thesis using propose_equals_search [OF ok] by (force simp: NgramProposer_def less_Suc_eq)
qed

end
