(* ===== verification/KV_Config.thy ===== *)
theory KV_Config
  imports KV_Specs
begin

text \<open>
  The configuration of the KV cache: the functions of \<open>vllm/v1/core/kv_cache_utils.py\<close> from
  \<open>_check_enough_kv_cache_memory\<close> to \<open>get_kv_cache_configs\<close>.  They group the layers of a model, size the
  tensors of every worker and fit the maximum model length to the memory.  The functions that set
  \<open>max_model_len\<close> in the configuration for the time of a call get the changed configuration instead.  The
  messages of the logger are left out; what is computed for them is kept where it can raise.
\<close>

section \<open>Memory checks\<close>

text \<open>The options of the configuration that only these functions read.\<close>

record cache_setup =
  vllm :: vllm_config
  num_gpu_blocks_override :: "int option"
  disable_hybrid_kv_cache_manager :: bool
  original_max_model_len :: int

definition max_memory_usage_bytes :: "vllm_config \<Rightarrow> kv_cache_spec list \<Rightarrow> int result" where
  "max_memory_usage_bytes cfg specs = sumM (spec_max_memory_usage_bytes cfg) specs"

text \<open>The binary search that \<open>estimate_max_model_len\<close> and \<open>_estimate_max_model_len_from_groups\<close> both write out.\<close>

function binary_search :: "(int \<Rightarrow> bool result) \<Rightarrow> int \<Rightarrow> int \<Rightarrow> int \<Rightarrow> int result" where
  "binary_search fits left right best =
     (if left \<le> right then
        let mid = (left + right) div 2 in
        rbind (fits mid) (\<lambda>ok. if ok then binary_search fits (mid + 1) right mid else binary_search fits left (mid - 1) best)
      else Inr best)"
  by pat_completeness auto
termination by (relation "measure (\<lambda>(_, left, right, _). nat (right - left + 1))") auto

declare binary_search.simps [simp del]

definition search_max_model_len :: "(int \<Rightarrow> bool result) \<Rightarrow> int \<Rightarrow> int result" where
  "search_max_model_len fits original_max =
     rbind (fits 1) (\<lambda>ok. if \<not> ok then Inr 0 else binary_search fits 1 original_max 1)"

definition estimate_max_model_len :: "vllm_config \<Rightarrow> (string, layer_spec) odict \<Rightarrow> int \<Rightarrow> int result" where
  "estimate_max_model_len cfg kv_cache_spec available_memory =
     search_max_model_len
       (\<lambda>model_len. rbind (max_memory_usage_bytes (cfg\<lparr>max_model_len := model_len\<rparr>) (map (Layer \<circ> snd) kv_cache_spec))
          (\<lambda>memory_needed. Inr (memory_needed \<le> available_memory)))
       (max_model_len cfg)"

definition check_enough_memory :: "int \<Rightarrow> int result \<Rightarrow> (int \<Rightarrow> int result) \<Rightarrow> unit result" where
  "check_enough_memory available_memory needed estimate =
     (if available_memory \<le> 0 then Inl ValueError
      else rbind needed (\<lambda>needed_memory.
        if available_memory < needed_memory then rbind (estimate available_memory) (\<lambda>_. Inl ValueError) else Inr ()))"

definition check_enough_kv_cache_memory :: "vllm_config \<Rightarrow> (string, layer_spec) odict \<Rightarrow> int \<Rightarrow> unit result" where
  "check_enough_kv_cache_memory cfg kv_cache_spec available_memory =
     (if kv_cache_spec = [] then Inr ()
      else check_enough_memory available_memory (max_memory_usage_bytes cfg (map (Layer \<circ> snd) kv_cache_spec))
             (estimate_max_model_len cfg kv_cache_spec))"

section \<open>Groups of layers\<close>

definition create_kv_cache_group_specs :: "(string, layer_spec) odict \<Rightarrow> string list list \<Rightarrow> kv_cache_group_spec list result" where
  "create_kv_cache_group_specs kv_cache_spec grouped_layer_names =
     mapM (\<lambda>names.
       rbind (mapM (dget kv_cache_spec) names) (\<lambda>layer_specs.
         rbind (merge_specs layer_specs) (\<lambda>merged. Inr \<lparr>layer_names = names, group_spec = Layer merged\<rparr>)))
       grouped_layer_names"

text \<open>Only \<open>AssertionError\<close> is caught.\<close>

definition is_kv_cache_spec_uniform :: "(string, layer_spec) odict \<Rightarrow> bool result" where
  "is_kv_cache_spec_uniform kv_cache_spec =
     (if kv_cache_spec = [] then Inr True
      else case merge_specs (map snd kv_cache_spec) of
             Inr _ \<Rightarrow> Inr True
           | Inl e \<Rightarrow> if e = AssertionError then Inr False else Inl e)"

definition may_override_num_blocks :: "cache_setup \<Rightarrow> int \<Rightarrow> int" where
  "may_override_num_blocks setup nb = (case num_gpu_blocks_override setup of Some n \<Rightarrow> n | None \<Rightarrow> nb)"

definition py_div :: "int \<Rightarrow> int \<Rightarrow> int result" where
  "py_div a b = (if b = 0 then Inl ZeroDivisionError else Inr (a div b))"

definition get_num_blocks :: "cache_setup \<Rightarrow> int \<Rightarrow> int \<Rightarrow> int \<Rightarrow> int result" where
  "get_num_blocks setup num_layers available_memory page_size =
     rbind (py_div available_memory page_size) (\<lambda>pages.
       rbind (py_div pages num_layers) (\<lambda>nb.
         Inr (may_override_num_blocks setup (max nb 0))))"

text \<open>A set of integers is the list of its distinct elements.\<close>

definition get_uniform_page_size :: "kv_cache_spec list \<Rightarrow> int result" where
  "get_uniform_page_size specs =
     rbind (mapM spec_page_size_bytes specs) (\<lambda>sizes.
       case remdups sizes of [p] \<Rightarrow> Inr p | _ \<Rightarrow> Inl AssertionError)"

definition get_kv_cache_groups_uniform_spec :: "(string, layer_spec) odict \<Rightarrow> kv_cache_group_spec list result" where
  "get_kv_cache_groups_uniform_spec kv_cache_specs = create_kv_cache_group_specs kv_cache_specs [map fst kv_cache_specs]"

definition get_kv_cache_groups_uniform_type :: "kv_cache_spec \<Rightarrow> kv_cache_group_spec list" where
  "get_kv_cache_groups_uniform_type spec =
     (case spec of
        UniformTypeKVCacheSpecs _ specs \<Rightarrow> [\<lparr>layer_names = map fst specs, group_spec = spec\<rparr>]
      | Layer _ \<Rightarrow> [])"

definition is_kv_cache_page_size_uniform :: "(string, layer_spec) odict \<Rightarrow> bool result" where
  "is_kv_cache_page_size_uniform kv_cache_spec =
     rbind (mapM (layer_page_size_bytes \<circ> snd) kv_cache_spec) (\<lambda>sizes. Inr (length (remdups sizes) = 1))"

definition unify_layer :: "int \<Rightarrow> string \<times> layer_spec \<Rightarrow> (string \<times> layer_spec) result" where
  "unify_layer max_page_size = (\<lambda>(name, l).
     rbind (layer_page_size_bytes l) (\<lambda>layer_page_size.
       if layer_page_size = max_page_size then Inr (name, l)
       else if layer_page_size = 0 then Inl ZeroDivisionError
       else if max_page_size mod layer_page_size \<noteq> 0 then Inl NotImplementedError
       else
         let ratio = max_page_size div layer_page_size;
             new_spec = copy_with_new_block_size (layer_block_size l * ratio) l
         in rbind (layer_page_size_bytes new_spec) (\<lambda>p. py_assert (p = max_page_size) (Inr (name, new_spec)))))"

definition unify_kv_cache_spec_page_size :: "(string, layer_spec) odict \<Rightarrow> (string, layer_spec) odict result" where
  "unify_kv_cache_spec_page_size kv_cache_spec =
     rbind (mapM (layer_page_size_bytes \<circ> snd) kv_cache_spec) (\<lambda>sizes.
       if length (remdups sizes) \<le> 1 then Inr kv_cache_spec
       else mapM (unify_layer (Max (set sizes))) kv_cache_spec)"

text \<open>\<open>same_type_layers\<close>: the names of the layers of each spec, specs in order of first occurrence.\<close>

definition add_layer :: "string \<times> layer_spec \<Rightarrow> (layer_spec, string list) odict \<Rightarrow> (layer_spec, string list) odict" where
  "add_layer = (\<lambda>(name, l) d. AList.update l ((case map_of d l of None \<Rightarrow> [] | Some names \<Rightarrow> names) @ [name]) d)"

definition same_type_layers :: "(string, layer_spec) odict \<Rightarrow> (layer_spec, string list) odict" where
  "same_type_layers kv_cache_spec = fold add_layer kv_cache_spec []"

text \<open>\<open>xs[i::n]\<close> for \<open>i < n\<close>.\<close>

definition stride :: "nat \<Rightarrow> nat \<Rightarrow> 'a list \<Rightarrow> 'a list" where
  "stride i n xs = map ((!) xs) (filter (\<lambda>k. k mod n = i) [0..<length xs])"

definition split_layers :: "nat \<Rightarrow> string list \<Rightarrow> string list list" where
  "split_layers group_size layers =
     (let num_groups = nat (cdiv (int (length layers)) (int group_size)) in map (\<lambda>i. stride i num_groups layers) [0..<num_groups])"

text \<open>\<open>max_num_layers < min_num_layers * 1.25\<close>, where the product of floats is exact.  \<open>min([])\<close> raises.\<close>

definition get_kv_cache_groups_uniform_page_size :: "(string, layer_spec) odict \<Rightarrow> kv_cache_group_spec list result" where
  "get_kv_cache_groups_uniform_page_size kv_cache_spec =
     (let layerss = map snd (same_type_layers kv_cache_spec) in
      if layerss = [] then Inl ValueError
      else
        let min_num_layers = Min (length ` set layerss);
            max_num_layers = Max (length ` set layerss);
            group_size = (if 4 * max_num_layers < 5 * min_num_layers then max_num_layers else min_num_layers)
        in create_kv_cache_group_specs kv_cache_spec (concat (map (split_layers group_size) layerss)))"

text \<open>The conversion of one layer; the other fields of a new \<open>FullAttentionSpec\<close> have their defaults.\<close>

definition full_from :: "attention_spec \<Rightarrow> int option \<Rightarrow> int option \<Rightarrow> layer_spec" where
  "full_from a window chunk =
     FullAttentionSpec (a\<lparr>page_size_padded := None\<rparr>)
       \<lparr>head_size_v = head_size a, full_sliding_window = window, full_attention_chunk_size = chunk\<rparr>"

fun to_full_attention :: "layer_spec \<Rightarrow> layer_spec" where
  "to_full_attention (SlidingWindowSpec a w) = full_from a (Some w) None"
| "to_full_attention (ChunkedLocalAttentionSpec a c) = full_from a None (Some c)"
| "to_full_attention l = l"

definition is_unified :: "(string, layer_spec) odict \<Rightarrow> bool result" where
  "is_unified kv_cache_spec =
     rbind (is_kv_cache_spec_uniform kv_cache_spec) (\<lambda>u. if u then Inr True else is_uniform_type kv_cache_spec)"

definition unify_hybrid_kv_cache_specs :: "(string, layer_spec) odict \<Rightarrow> (string, layer_spec) odict result" where
  "unify_hybrid_kv_cache_specs kv_cache_spec =
     rbind (is_unified kv_cache_spec) (\<lambda>u.
       if u then Inr kv_cache_spec
       else
         let ls = map snd kv_cache_spec;
             has_local = list_ex (\<lambda>l. case l of SlidingWindowSpec _ _ \<Rightarrow> True | ChunkedLocalAttentionSpec _ _ \<Rightarrow> True | _ \<Rightarrow> False) ls;
             new_spec = (if list_ex is_full ls \<and> has_local then map (\<lambda>(name, l). (name, to_full_attention l)) kv_cache_spec else kv_cache_spec)
         in rbind (is_unified new_spec) (\<lambda>u'. if u' then Inr new_spec else Inl ValueError))"

definition get_kv_cache_groups :: "cache_setup \<Rightarrow> (string, layer_spec) odict \<Rightarrow> kv_cache_group_spec list result" where
  "get_kv_cache_groups setup specs0 =
     rbind (if disable_hybrid_kv_cache_manager setup then unify_hybrid_kv_cache_specs specs0 else Inr specs0) (\<lambda>specs.
       if specs = [] then Inr []
       else rbind (is_kv_cache_spec_uniform specs) (\<lambda>u.
         if u then get_kv_cache_groups_uniform_spec specs
         else rbind (from_specs specs) (\<lambda>uniform.
           case uniform of
             Some spec \<Rightarrow> Inr (get_kv_cache_groups_uniform_type spec)
           | None \<Rightarrow> rbind (unify_kv_cache_spec_page_size specs) get_kv_cache_groups_uniform_page_size)))"

section \<open>The configuration of a worker\<close>

definition group_max_layers :: "kv_cache_group_spec list \<Rightarrow> nat" where
  "group_max_layers groups = Max ((length \<circ> layer_names) ` set groups)"

definition uniform_tensors :: "int \<Rightarrow> (string, layer_spec) odict \<Rightarrow> string list \<Rightarrow> kv_cache_tensor list result" where
  "uniform_tensors nb per_layer_specs names =
     mapM (\<lambda>name. rbind (dget per_layer_specs name) (\<lambda>l. rbind (layer_page_size_bytes l) (\<lambda>p.
       Inr \<lparr>kt_size = p * nb, shared_by = [name]\<rparr>))) names"

definition shared_tensor :: "int \<Rightarrow> kv_cache_group_spec list \<Rightarrow> nat \<Rightarrow> kv_cache_tensor" where
  "shared_tensor sz groups i =
     \<lparr>kt_size = sz, shared_by = map (\<lambda>g. layer_names g ! i) (filter (\<lambda>g. i < length (layer_names g)) groups)\<rparr>"

text \<open>The special case of one group of uniform type.\<close>

definition uniform_group :: "kv_cache_group_spec list \<Rightarrow> (string, layer_spec) odict option" where
  "uniform_group groups =
     (case groups of
        [g] \<Rightarrow> (case group_spec g of UniformTypeKVCacheSpecs _ per_layer_specs \<Rightarrow> Some per_layer_specs | Layer _ \<Rightarrow> None)
      | _ \<Rightarrow> None)"

definition get_kv_cache_config_from_groups :: "cache_setup \<Rightarrow> kv_cache_group_spec list \<Rightarrow> int \<Rightarrow> kv_cache_config result" where
  "get_kv_cache_config_from_groups setup groups available_memory =
     (if groups = [] then Inr \<lparr>num_blocks = 1, kv_cache_tensors = [], kv_cache_groups = groups\<rparr>
      else case uniform_group groups of
        Some per_layer_specs \<Rightarrow>
          rbind (spec_page_size_bytes (group_spec (hd groups))) (\<lambda>p.
            rbind (py_div available_memory p) (\<lambda>nb0.
              let nb = may_override_num_blocks setup nb0 in
              rbind (uniform_tensors nb per_layer_specs (layer_names (hd groups))) (\<lambda>tensors.
                Inr \<lparr>num_blocks = nb, kv_cache_tensors = tensors, kv_cache_groups = groups\<rparr>)))
      | None \<Rightarrow>
          let group_size = group_max_layers groups in
          rbind (get_uniform_page_size (map group_spec groups)) (\<lambda>page_size.
            py_assert (0 < group_size)
              (rbind (get_num_blocks setup (int group_size) available_memory page_size) (\<lambda>nb.
                Inr \<lparr>num_blocks = nb, kv_cache_tensors = map (shared_tensor (page_size * nb) groups) [0..<group_size],
                     kv_cache_groups = groups\<rparr>))))"

section \<open>The length of the model\<close>

definition max_memory_from_groups :: "vllm_config \<Rightarrow> kv_cache_group_spec list \<Rightarrow> int result" where
  "max_memory_from_groups cfg groups =
     (if groups = [] then Inr 0
      else case uniform_group groups of
        Some per_layer_specs \<Rightarrow> sumM (layer_max_memory_usage_bytes cfg \<circ> snd) per_layer_specs
      | None \<Rightarrow>
          let group_size = int (group_max_layers groups) in
          rbind (get_uniform_page_size (map group_spec groups)) (\<lambda>page_size.
            rbind (spec_max_memory_usage_bytes cfg (group_spec (hd groups))) (\<lambda>m.
              if page_size = 0 then Inl ZeroDivisionError
              else Inr (group_size * page_size * cdiv m page_size))))"

definition estimate_from_groups :: "vllm_config \<Rightarrow> kv_cache_group_spec list \<Rightarrow> int \<Rightarrow> int result" where
  "estimate_from_groups cfg groups available_memory =
     search_max_model_len
       (\<lambda>model_len. rbind (max_memory_from_groups (cfg\<lparr>max_model_len := model_len\<rparr>) groups)
          (\<lambda>needed. Inr (needed \<le> available_memory)))
       (max_model_len cfg)"

text \<open>\<open>min\<close> of an empty sequence raises \<open>ValueError\<close>.\<close>

definition py_min :: "int list \<Rightarrow> int result" where
  "py_min xs = (if xs = [] then Inl ValueError else Inr (Min (set xs)))"

definition auto_fit_max_model_len :: "vllm_config \<Rightarrow> kv_cache_group_spec list \<Rightarrow> int list \<Rightarrow> vllm_config result" where
  "auto_fit_max_model_len cfg groups available_memory =
     (if groups = [] then Inr cfg
      else rbind (py_min available_memory) (\<lambda>min_available_memory.
        rbind (estimate_from_groups cfg groups min_available_memory) (\<lambda>auto_fit_max.
          if auto_fit_max \<le> 0 then Inl ValueError
          else if max_model_len cfg \<le> auto_fit_max then Inr cfg
          else Inr (cfg\<lparr>max_model_len := auto_fit_max\<rparr>))))"

section \<open>The configurations of all workers\<close>

text \<open>\<open>get_max_concurrency_for_kv_cache_config\<close>, a float that is only logged, as a rational number.\<close>

definition max_concurrency :: "vllm_config \<Rightarrow> kv_cache_config \<Rightarrow> rat result" where
  "max_concurrency cfg c =
     (case kv_cache_groups c of
        [] \<Rightarrow> Inl ValueError
      | g0 # _ \<Rightarrow>
          let num_layer = int (group_max_layers (kv_cache_groups c)) in
          rbind (max_memory_usage_bytes cfg (map group_spec (kv_cache_groups c))) (\<lambda>m.
            rbind (spec_page_size_bytes (group_spec g0)) (\<lambda>p.
              let memory_per_block = p * num_layer in
              if memory_per_block = 0 then Inl ZeroDivisionError
              else
                let num_block_per_request = cdiv (num_layer * m) memory_per_block in
                if num_block_per_request = 0 then Inl ZeroDivisionError
                else Inr (rat_of_int (num_blocks c) / rat_of_int num_block_per_request))))"

text \<open>What \<open>_report_kv_cache_config\<close> logs: the size of the cache in tokens and the concurrency.\<close>

definition report_kv_cache_config :: "vllm_config \<Rightarrow> kv_cache_config \<Rightarrow> (int \<times> rat) result" where
  "report_kv_cache_config cfg c =
     rbind (py_min (map (spec_block_size \<circ> group_spec) (kv_cache_groups c))) (\<lambda>min_block_size.
       let num_tokens = num_blocks c div int (length (kv_cache_groups c)) * min_block_size;
           cp = prefill_context_parallel_size cfg * decode_context_parallel_size cfg;
           num_tokens' = (if 1 < cp then num_tokens * cp else num_tokens)
       in rbind (max_concurrency cfg c) (\<lambda>mc. Inr (num_tokens', mc)))"

definition merge_layer :: "string \<times> layer_spec \<Rightarrow> (string, layer_spec) odict \<Rightarrow> (string, layer_spec) odict result" where
  "merge_layer = (\<lambda>(name, l) d.
     case map_of d name of
       None \<Rightarrow> Inr (AList.update name l d)
     | Some l' \<Rightarrow> py_assert (l' = l) (Inr d))"

definition merge_workers :: "(string, layer_spec) odict list \<Rightarrow> (string, layer_spec) odict result" where
  "merge_workers kv_cache_specs = foldM (foldM merge_layer) kv_cache_specs []"

definition worker_groups :: "kv_cache_group_spec list \<Rightarrow> (string, layer_spec) odict \<Rightarrow> kv_cache_group_spec list" where
  "worker_groups groups worker_spec = map (\<lambda>g. g\<lparr>layer_names := filter (\<lambda>n. n \<in> fst ` set worker_spec) (layer_names g)\<rparr>) groups"

definition worker_config :: "cache_setup \<Rightarrow> kv_cache_group_spec list \<Rightarrow> (string, layer_spec) odict \<times> int \<Rightarrow> kv_cache_config result" where
  "worker_config setup groups = (\<lambda>(worker_spec, available_memory).
     let gs = worker_groups groups worker_spec in
     py_assert (sum_list (map (length \<circ> layer_names) gs) = length worker_spec)
       (get_kv_cache_config_from_groups setup gs available_memory))"

definition shrink_tensor :: "int \<Rightarrow> int \<Rightarrow> kv_cache_tensor \<Rightarrow> kv_cache_tensor result" where
  "shrink_tensor num_blocks_old min_num_blocks tensor =
     (if num_blocks_old = 0 then Inl ZeroDivisionError
      else py_assert (kt_size tensor mod num_blocks_old = 0)
             (Inr (tensor\<lparr>kt_size := kt_size tensor div num_blocks_old * min_num_blocks\<rparr>)))"

definition shrink_config :: "vllm_config \<Rightarrow> int \<Rightarrow> kv_cache_config \<Rightarrow> kv_cache_config result" where
  "shrink_config cfg min_num_blocks c =
     rbind (mapM (shrink_tensor (num_blocks c) min_num_blocks) (kv_cache_tensors c)) (\<lambda>tensors.
       let c' = c\<lparr>num_blocks := min_num_blocks, kv_cache_tensors := tensors\<rparr> in
       if kv_cache_groups c' = [] then Inr c' else rbind (report_kv_cache_config cfg c') (\<lambda>_. Inr c'))"

definition get_kv_cache_configs ::
  "cache_setup \<Rightarrow> (string, layer_spec) odict list \<Rightarrow> int list \<Rightarrow> (kv_cache_config list \<times> vllm_config) result" where
  "get_kv_cache_configs setup kv_cache_specs available_memory =
     rbind (merge_workers kv_cache_specs) (\<lambda>merged.
       rbind (get_kv_cache_groups setup merged) (\<lambda>groups.
         rbind (if original_max_model_len setup = -1 then auto_fit_max_model_len (vllm setup) groups available_memory else Inr (vllm setup)) (\<lambda>cfg.
           rbind (if groups = [] then Inr ()
                  else rbind (py_min available_memory) (\<lambda>am.
                    check_enough_memory am (max_memory_from_groups cfg groups) (estimate_from_groups cfg groups))) (\<lambda>_.
             rbind (mapM (worker_config setup groups) (zip kv_cache_specs available_memory)) (\<lambda>configs.
               rbind (py_min (map num_blocks configs)) (\<lambda>min_num_blocks.
                 rbind (mapM (shrink_config cfg min_num_blocks) configs) (\<lambda>configs'. Inr (configs', cfg))))))))"

text \<open>The scheduler takes the configuration of the first worker, with one layer spec for a uniform type.\<close>

definition scheduler_group :: "kv_cache_group_spec \<Rightarrow> kv_cache_group_spec result" where
  "scheduler_group g =
     (case group_spec g of
        Layer _ \<Rightarrow> Inr g
      | UniformTypeKVCacheSpecs _ specs \<Rightarrow>
          (case specs of [] \<Rightarrow> Inl StopIteration | (_, l) # _ \<Rightarrow> Inr (g\<lparr>group_spec := Layer l\<rparr>)))"

definition generate_scheduler_kv_cache_config :: "kv_cache_config list \<Rightarrow> kv_cache_config result" where
  "generate_scheduler_kv_cache_config configs =
     py_assert (list_all (\<lambda>c. num_blocks c = num_blocks (hd configs)) configs)
       (case configs of
          [] \<Rightarrow> Inl IndexError
        | cfg # _ \<Rightarrow> rbind (mapM scheduler_group (kv_cache_groups cfg)) (\<lambda>gs. Inr (cfg\<lparr>kv_cache_groups := gs\<rparr>)))"

section \<open>The binary search\<close>

lemma binary_search_ok:
  assumes "\<And>n. 1 \<le> n \<Longrightarrow> n \<le> hi \<Longrightarrow> fits n = Inr (P n)" and "\<And>m n. 1 \<le> m \<Longrightarrow> m \<le> n \<Longrightarrow> P n \<Longrightarrow> P m"
    and "1 \<le> left" and "left \<le> right + 1" and "right \<le> hi" and "best = max 1 (left - 1)" and "P best"
    and "\<And>n. right < n \<Longrightarrow> n \<le> hi \<Longrightarrow> \<not> P n" and "1 \<le> hi"
  shows "\<exists>k. binary_search fits left right best = Inr k \<and> 1 \<le> k \<and> k \<le> hi \<and> P k \<and> (\<forall>n. k < n \<and> n \<le> hi \<longrightarrow> \<not> P n)"
  using assms(3-8)
proof (induction "nat (right - left + 1)" arbitrary: left right best rule: less_induct)
  case less
  note unfold = binary_search.simps [of fits left right best]
  show ?case
  proof (cases "left \<le> right")
    case True
    define mid where "mid = (left + right) div 2"
    have mid: "left \<le> mid" "mid \<le> right" using True by (simp_all add: mid_def)
    have fm: "fits mid = Inr (P mid)" using mid less.prems(1,3) assms(1) by simp
    show ?thesis
    proof (cases "P mid")
      case True
      have "\<exists>k. binary_search fits (mid + 1) right mid = Inr k \<and> 1 \<le> k \<and> k \<le> hi \<and> P k \<and> (\<forall>n. k < n \<and> n \<le> hi \<longrightarrow> \<not> P n)"
        using less.hyps [of right "mid + 1" mid] mid less.prems True by simp
      then show ?thesis using unfold fm True \<open>left \<le> right\<close> by (simp add: mid_def [symmetric])
    next
      case False
      have "\<not> P n" if "mid - 1 < n" "n \<le> hi" for n using assms(2) [of mid n] False that mid less.prems(1) by auto
      then have "\<exists>k. binary_search fits left (mid - 1) best = Inr k \<and> 1 \<le> k \<and> k \<le> hi \<and> P k \<and> (\<forall>n. k < n \<and> n \<le> hi \<longrightarrow> \<not> P n)"
        using less.hyps [of "mid - 1" left best] mid less.prems by simp
      then show ?thesis using unfold fm False \<open>left \<le> right\<close> by (simp add: mid_def [symmetric])
    qed
  next
    case False
    then have "left = right + 1" using less.prems(2) by simp
    moreover have "\<not> P n" if "best < n" "n \<le> hi" for n using less.prems(4,6) that \<open>left = right + 1\<close> by auto
    ultimately show ?thesis using unfold less.prems assms(9) by auto
  qed
qed

lemma search_max_model_len_ok:
  assumes "\<And>n. 1 \<le> n \<Longrightarrow> n \<le> hi \<Longrightarrow> fits n = Inr (P n)" and "\<And>m n. 1 \<le> m \<Longrightarrow> m \<le> n \<Longrightarrow> P n \<Longrightarrow> P m" and "1 \<le> hi"
  shows "\<exists>k. search_max_model_len fits hi = Inr k \<and> 0 \<le> k \<and> k \<le> hi \<and> (\<forall>n. 1 \<le> n \<and> n \<le> hi \<longrightarrow> (P n \<longleftrightarrow> n \<le> k))"
proof (cases "P 1")
  case True
  from binary_search_ok [of hi fits P 1 hi 1] assms True
  obtain k where "binary_search fits 1 hi 1 = Inr k" "1 \<le> k" "k \<le> hi" "P k" "\<forall>n. k < n \<and> n \<le> hi \<longrightarrow> \<not> P n" by auto
  then show ?thesis using True assms by (fastforce simp: search_max_model_len_def not_le intro: assms(2))
next
  case False
  then have "\<not> P n" if "1 \<le> n" for n using assms(2) [of 1 n] that by auto
  then show ?thesis using False assms by (force simp: search_max_model_len_def)
qed

text \<open>The memory of a layer grows with the length of the model.\<close>

fun real_page :: "layer_spec \<Rightarrow> int" where
  "real_page (FullAttentionSpec a f) = full_real_page_size_bytes a f"
| "real_page (MLAAttentionSpec a _ c) = mla_real_page_size_bytes a c"
| "real_page (SinkFullAttentionSpec a f _) = full_real_page_size_bytes a f"
| "real_page (ChunkedLocalAttentionSpec a _) = attention_real_page_size_bytes a"
| "real_page (SlidingWindowSpec a _) = attention_real_page_size_bytes a"
| "real_page (MambaSpec _ shapes dtypes _ _ _) = mamba_page_size shapes dtypes"
| "real_page (EncoderOnlyAttentionSpec a) = attention_real_page_size_bytes a"
| "real_page (CrossAttentionSpec a) = attention_real_page_size_bytes a"

text \<open>A block of a layer holds something; a sliding window excludes decode context parallelism.\<close>

definition layer_ok :: "vllm_config \<Rightarrow> layer_spec \<Rightarrow> bool" where
  "layer_ok cfg l \<longleftrightarrow> 0 < layer_block_size l \<and> 0 < real_page l \<and> (\<exists>p. layer_page_size_bytes l = Inr p)
     \<and> (case l of SlidingWindowSpec _ _ \<Rightarrow> decode_context_parallel_size cfg = 1 | _ \<Rightarrow> True)"

lemma layer_page_pos: "layer_page_size_bytes l = Inr p \<Longrightarrow> 0 < real_page l \<Longrightarrow> 0 < p"
  by (cases l) (auto dest: padded_page_size_ge)

lemma cdiv_times_mono: "0 < b \<Longrightarrow> m \<le> n \<Longrightarrow> 0 < p \<Longrightarrow> (cdiv m b + e) * p \<le> (cdiv n b + e) * p"
  by (simp add: cdiv_mono mult_right_mono)

lemma pages_times_mono:
  assumes "0 < layer_block_size l" and "layer_page_size_bytes l = Inr p" and "0 < p" and "\<And>m n. m \<le> n \<Longrightarrow> t m \<le> t n"
  shows "\<exists>f. (\<forall>n. pages_times (t n) (layer_block_size l) e l = Inr (f n)) \<and> mono f"
  using assms by (intro exI [of _ "\<lambda>n. (cdiv (t n) (layer_block_size l) + e) * p"]) (auto simp: pages_times_def mono_def cdiv_times_mono)

lemma full_max_tokens_mono: "m \<le> n \<Longrightarrow> full_max_tokens (cfg\<lparr>max_model_len := m\<rparr>) \<le> full_max_tokens (cfg\<lparr>max_model_len := n\<rparr>)"
  by (auto simp: full_max_tokens_def Let_def intro!: cdiv_mono)

lemma layer_memory_mono:
  assumes "layer_ok cfg l"
  shows "\<exists>f. (\<forall>n. layer_max_memory_usage_bytes (cfg\<lparr>max_model_len := n\<rparr>) l = Inr (f n)) \<and> mono f"
proof -
  obtain p where p: "layer_page_size_bytes l = Inr p" "0 < p" "0 < layer_block_size l"
    using assms layer_page_pos by (auto simp: layer_ok_def)
  note mono = pages_times_mono [OF p(3,1,2)]
  show ?thesis
  proof (cases l)
    case (FullAttentionSpec a f)
    then show ?thesis using mono [of "\<lambda>n. full_max_tokens (cfg\<lparr>max_model_len := n\<rparr>)" 0] full_max_tokens_mono by simp
  next
    case (MLAAttentionSpec a f c)
    then show ?thesis using mono [of "\<lambda>n. full_max_tokens (cfg\<lparr>max_model_len := n\<rparr>)" 0] full_max_tokens_mono by simp
  next
    case (SinkFullAttentionSpec a f c)
    then show ?thesis using mono [of "\<lambda>n. full_max_tokens (cfg\<lparr>max_model_len := n\<rparr>)" 0] full_max_tokens_mono by simp
  next
    case (ChunkedLocalAttentionSpec a c)
    then show ?thesis using mono [of "\<lambda>n. min (c + max_num_batched_tokens cfg) n" 0] by simp
  next
    case (SlidingWindowSpec a w)
    then show ?thesis using mono [of "\<lambda>n. min (w - 1 + max_num_batched_tokens cfg) n" 1] assms by (simp add: layer_ok_def)
  next
    case (MambaSpec b sh dt pd mt ns)
    then show ?thesis using mono [of "\<lambda>n. n" 0] by simp
  next
    case (CrossAttentionSpec a)
    then show ?thesis using mono [of "\<lambda>n. max_num_encoder_input_tokens cfg" 0] by simp
  qed (auto intro!: exI [of _ "\<lambda>n. 0"] simp: mono_def)
qed

end
