(* ===== verification/KV_Groups.thy ===== *)
theory KV_Groups
  imports KV_Config
begin

text \<open>
  The groups of layers: \<open>get_kv_cache_groups\<close> puts every layer of the model into exactly one group, and the groups of
  a hybrid model share one page size, so that one pool of blocks serves all of them.
\<close>

section \<open>Splitting the layers of one spec\<close>

lemma length_stride:
  assumes "length xs \<le> n * m"
  shows "length (stride i n xs) \<le> m"
proof -
  have inj: "inj_on (\<lambda>k. k div n) {k. k < length xs \<and> k mod n = i}"
    by (auto intro!: inj_onI) (metis div_mult_mod_eq)
  have "k div n < m" if "k < length xs" for k
    using that assms by (metis less_le_trans less_mult_imp_div_less mult.commute)
  then have "(\<lambda>k. k div n) ` {k. k < length xs \<and> k mod n = i} \<subseteq> {..<m}" by auto
  with card_inj_on_le [OF inj this] have "card {k. k < length xs \<and> k mod n = i} \<le> m" by simp
  moreover have "length (stride i n xs) = card {k. k < length xs \<and> k mod n = i}"
  proof -
    have "{k. k < length xs \<and> k mod n = i} = set (filter (\<lambda>k. k mod n = i) [0..<length xs])" by auto
    then show ?thesis unfolding stride_def by (metis distinct_card distinct_filter distinct_upt length_map)
  qed
  ultimately show ?thesis by simp
qed

lemma residues_partition: "0 < n \<Longrightarrow> (\<Sum>i = 0..<n. filter_mset (\<lambda>k. k mod n = i) M) = M" for n :: nat
proof (induction M)
  case (add k M)
  have "filter_mset (\<lambda>k. k mod n = i) (add_mset k M) = (if i = k mod n then {#k#} else {#}) + filter_mset (\<lambda>k. k mod n = i) M" for i
    by simp
  then show ?case using add by (simp add: sum.distrib)
qed simp

lemma mset_concat_upt: "mset (concat (map f [0..<n])) = (\<Sum>i = 0..<n. mset (f i))"
  by (induction n) simp_all

lemma image_mset_sum: "image_mset h (\<Sum>i = 0..<n. g i) = (\<Sum>i = 0..<n. image_mset h (g i))" for n :: nat
  by (induction n) simp_all

lemma strides_partition: "0 < n \<Longrightarrow> mset (concat (map (\<lambda>i. stride i n xs) [0..<n])) = mset xs"
proof -
  assume n: "0 < n"
  have "mset (concat (map (\<lambda>i. stride i n xs) [0..<n])) = (\<Sum>i = 0..<n. image_mset ((!) xs) (filter_mset (\<lambda>k. k mod n = i) (mset [0..<length xs])))"
    by (simp add: mset_concat_upt stride_def)
  also have "\<dots> = image_mset ((!) xs) (\<Sum>i = 0..<n. filter_mset (\<lambda>k. k mod n = i) (mset [0..<length xs]))"
    by (rule image_mset_sum [symmetric])
  also have "\<dots> = image_mset ((!) xs) (mset [0..<length xs])" by (simp only: residues_partition [OF n])
  also have "\<dots> = mset xs" by (metis map_nth mset_map)
  finally show ?thesis .
qed

lemma split_layers_partition:
  assumes "0 < group_size"
  shows "mset (concat (split_layers group_size layers)) = mset layers"
proof (cases "layers = []")
  case False
  have "0 < cdiv (int (length layers)) (int group_size)"
    using cdiv_le_iff [of "int group_size" "int (length layers)" 0] False assms by simp
  then show ?thesis by (simp add: split_layers_def Let_def strides_partition)
qed (simp add: split_layers_def cdiv_def)

text \<open>No group has more layers than the group size.\<close>

lemma split_layers_size: "0 < group_size \<Longrightarrow> names \<in> set (split_layers group_size layers) \<Longrightarrow> length names \<le> group_size"
proof -
  assume gs: "0 < group_size" and names: "names \<in> set (split_layers group_size layers)"
  let ?n = "nat (cdiv (int (length layers)) (int group_size))"
  have "int (length layers) \<le> cdiv (int (length layers)) (int group_size) * int group_size" using gs by (intro cdiv_upper) simp
  moreover have "0 \<le> cdiv (int (length layers)) (int group_size)" using gs by (intro cdiv_nonneg) simp_all
  ultimately have "int (length layers) \<le> int (?n * group_size)" by simp
  then have "length layers \<le> ?n * group_size" by linarith
  then show ?thesis using names length_stride by (auto simp: split_layers_def Let_def)
qed

section \<open>Grouping by spec\<close>

definition spec_lists_ok :: "(string, layer_spec) odict \<Rightarrow> (layer_spec, string list) odict \<Rightarrow> bool" where
  "spec_lists_ok specs d \<longleftrightarrow> distinct (map fst d) \<and> mset (concat (map snd d)) = mset (map fst specs)
     \<and> (\<forall>(l, names) \<in> set d. names \<noteq> [] \<and> (\<forall>n \<in> set names. (n, l) \<in> set specs))"

lemma mset_concat_update:
  assumes "distinct (map fst d)"
  shows "mset (concat (map snd (AList.update l ((case map_of d l of None \<Rightarrow> [] | Some names \<Rightarrow> names) @ [n]) d)))
    = add_mset n (mset (concat (map snd d)))"
  using assms
proof (induction d)
  case (Cons p d)
  then show ?case by (cases p) (auto simp: map_of_eq_None_iff [symmetric] split: option.splits)
qed simp

lemma add_layer_ok:
  assumes "spec_lists_ok specs d"
  shows "spec_lists_ok (specs @ [(n, l)]) (add_layer (n, l) d)"
proof -
  have dk: "distinct (map fst d)" using assms by (simp add: spec_lists_ok_def)
  have "names \<noteq> [] \<and> (\<forall>n' \<in> set names. (n', l') \<in> set (specs @ [(n, l)]))" if "(l', names) \<in> set (add_layer (n, l) d)" for l' names
  proof -
    have "map_of (add_layer (n, l) d) l' = Some names"
      using that dk by (intro map_of_is_SomeI) (simp_all add: add_layer_def distinct_update)
    then have "l' = l \<and> names = (case map_of d l of None \<Rightarrow> [] | Some ns \<Rightarrow> ns) @ [n] \<or> l' \<noteq> l \<and> (l', names) \<in> set d"
      by (auto simp: add_layer_def split: if_splits dest: map_of_SomeD)
    then show ?thesis using assms by (fastforce simp: spec_lists_ok_def split: option.splits dest: map_of_SomeD)
  qed
  moreover have "mset (concat (map snd (add_layer (n, l) d))) = mset (map fst (specs @ [(n, l)]))"
    using mset_concat_update [OF dk] assms by (simp add: add_layer_def spec_lists_ok_def)
  ultimately show ?thesis using dk unfolding spec_lists_ok_def by (fastforce simp: add_layer_def distinct_update)
qed

lemma same_type_layers_ok: "spec_lists_ok specs (same_type_layers specs)"
proof (induction specs rule: rev_induct)
  case (snoc p specs)
  then show ?case using add_layer_ok by (cases p) (simp add: same_type_layers_def)
qed (simp add: same_type_layers_def spec_lists_ok_def)

lemma uniform_page_size_lists:
  assumes "layerss = map snd (same_type_layers specs)" and "layerss \<noteq> []" and "group_size = Max (length ` set layerss) \<or> group_size = Min (length ` set layerss)"
  shows "mset (concat (concat (map (split_layers group_size) layerss))) = mset (map fst specs)"
proof -
  have ok: "spec_lists_ok specs (same_type_layers specs)" by (rule same_type_layers_ok)
  have "group_size \<in> length ` set layerss" using assms(2,3) by (elim disjE) (simp_all add: Min_in Max_in)
  then have "0 < group_size" using ok assms(1) by (fastforce simp: spec_lists_ok_def)
  then have "mset (concat (concat (map (split_layers group_size) ls))) = mset (concat ls)" for ls
    by (induction ls) (simp_all add: split_layers_partition)
  then have "mset (concat (concat (map (split_layers group_size) layerss))) = mset (concat layerss)" .
  also have "\<dots> = mset (map fst specs)" using ok assms(1) unfolding spec_lists_ok_def by blast
  finally show ?thesis .
qed

section \<open>Creating the groups\<close>

lemma create_groups_names: "create_kv_cache_group_specs specs names = Inr groups \<Longrightarrow> map layer_names groups = names"
  unfolding create_kv_cache_group_specs_def by (induction names arbitrary: groups) auto

lemma create_groups_spec:
  assumes "create_kv_cache_group_specs specs names = Inr groups" and "g \<in> set groups"
  shows "\<exists>ls m. mapM (dget specs) (layer_names g) = Inr ls \<and> merge_specs ls = Inr m \<and> group_spec g = Layer m"
  using assms unfolding create_kv_cache_group_specs_def by (induction names arbitrary: groups) auto

text \<open>Merging copies of one spec keeps its page size.\<close>

lemma windows_replicate: "remdups (windows_of sel (replicate (Suc k) l)) = windows_of sel [l]"
  by (induction k) (auto simp: windows_of_def List.map_filter_simps split: option.splits)

lemma merge_windows_replicate: "merge_window_sizes (windows_of sel (replicate (Suc k) l)) = merge_window_sizes (windows_of sel [l])"
proof -
  have "remdups (windows_of sel [l]) = windows_of sel [l]" using windows_replicate [of sel 0 l] by simp
  then show ?thesis unfolding merge_window_sizes_def windows_replicate by (simp add: distinct_remdups_id)
qed

lemma merge_full_replicate: "merge_full mk (replicate (Suc k) l) = merge_full mk [l]"
proof -
  have "list_all P (replicate (Suc k) l) = list_all P [l]" "list_ex P (replicate (Suc k) l) = list_ex P [l]" for P
    by (auto simp: list_all_iff list_ex_iff)
  then show ?thesis unfolding merge_full_def merge_windows_replicate by (simp only: replicate_Suc list.case)
qed

lemma merge_replicate: "merge_specs (replicate (Suc k) l) = merge_specs [l]"
proof -
  have "list_all P (replicate k l) = (k = 0 \<or> P l)" for P by (auto simp: list_all_iff)
  then show ?thesis using merge_full_replicate [of _ k l]
    by (cases l) (auto simp: merge_specs_def merge_mla_def list_all_iff)
qed

lemma merge_single_page: "merge_specs [l] = Inr m \<Longrightarrow> layer_page_size_bytes m = layer_page_size_bytes l"
  by (cases l) (auto simp: merge_specs_def merge_full_def merge_mla_def full_real_page_size_bytes_def)

section \<open>Unifying the page sizes\<close>

lemma unify_layer_ok: "unify_layer mx (n, l) = Inr p' \<Longrightarrow>
  fst p' = n \<and> (snd p' = l \<or> (\<exists>b. snd p' = copy_with_new_block_size b l)) \<and> layer_page_size_bytes (snd p') = Inr mx"
  by (auto simp: unify_layer_def Let_def split: if_splits)

lemma unify_page_size_ok:
  assumes "unify_kv_cache_spec_page_size specs = Inr specs'" and "specs \<noteq> []"
  shows "map fst specs' = map fst specs \<and> (\<exists>p. \<forall>(n, l) \<in> set specs'. layer_page_size_bytes l = Inr p)
    \<and> list_all2 (\<lambda>(n, l) (n', l'). n' = n \<and> (l' = l \<or> (\<exists>b. l' = copy_with_new_block_size b l))) specs specs'"
proof -
  obtain sizes where sizes: "mapM (layer_page_size_bytes \<circ> snd) specs = Inr sizes"
    using assms(1) by (auto simp: unify_kv_cache_spec_page_size_def)
  then have pages: "list_all2 (\<lambda>x p. layer_page_size_bytes (snd x) = Inr p) specs sizes" by (simp add: mapM_list_all2)
  show ?thesis
  proof (cases "length (remdups sizes) \<le> 1")
    case True
    have "sizes \<noteq> []" using pages assms(2) by auto
    then obtain p where "remdups sizes = [p]" using True by (cases "remdups sizes") auto
    then have "set sizes = {p}" by (metis set_remdups list.set(1,2))
    then have "\<forall>x \<in> set specs. layer_page_size_bytes (snd x) = Inr p" using pages by (fastforce simp: list_all2_conv_all_nth in_set_conv_nth)
    moreover have "specs' = specs" using assms(1) sizes True by (simp add: unify_kv_cache_spec_page_size_def)
    ultimately show ?thesis by (intro conjI exI [of _ p]) (auto simp: list_all2_same)
  next
    case False
    then have "mapM (unify_layer (Max (set sizes))) specs = Inr specs'" using assms(1) sizes by (simp add: unify_kv_cache_spec_page_size_def)
    then have u: "list_all2 (\<lambda>x y. unify_layer (Max (set sizes)) x = Inr y) specs specs'" by (simp add: mapM_list_all2)
    then have "\<forall>(n, l) \<in> set specs'. layer_page_size_bytes l = Inr (Max (set sizes))"
      by (induction rule: list_all2_induct) (auto dest: unify_layer_ok)
    moreover from u have "map fst specs' = map fst specs" by (induction rule: list_all2_induct) (auto dest: unify_layer_ok)
    moreover from u have "list_all2 (\<lambda>(n, l) (n', l'). n' = n \<and> (l' = l \<or> (\<exists>b. l' = copy_with_new_block_size b l))) specs specs'"
      by (rule list_all2_mono) (auto dest: unify_layer_ok)
    ultimately show ?thesis by blast
  qed
qed

section \<open>All cases\<close>

text \<open>The layers of a group made by \<open>get_kv_cache_groups_uniform_page_size\<close> share their spec.\<close>

lemma uniform_page_size_groups:
  assumes "get_kv_cache_groups_uniform_page_size specs = Inr groups" and "distinct (map fst specs)"
  shows "mset (concat (map layer_names groups)) = mset (map fst specs)"
    and "g \<in> set groups \<Longrightarrow> n \<in> set (layer_names g) \<Longrightarrow> \<exists>l m. (n, l) \<in> set specs \<and> merge_specs [l] = Inr m \<and> group_spec g = Layer m"
proof -
  define layerss where "layerss = map snd (same_type_layers specs)"
  obtain group_size where run: "create_kv_cache_group_specs specs (concat (map (split_layers group_size) layerss)) = Inr groups"
    and gs: "layerss \<noteq> []" "group_size = Max (length ` set layerss) \<or> group_size = Min (length ` set layerss)"
    using assms(1) by (auto simp: get_kv_cache_groups_uniform_page_size_def Let_def layerss_def [symmetric] split: if_splits)
  have ok: "spec_lists_ok specs (same_type_layers specs)" by (rule same_type_layers_ok)
  show "mset (concat (map layer_names groups)) = mset (map fst specs)"
    using uniform_page_size_lists [OF layerss_def gs] create_groups_names [OF run] by simp
  assume g: "g \<in> set groups" and n: "n \<in> set (layer_names g)"
  then have "layer_names g \<in> set (concat (map (split_layers group_size) layerss))" using create_groups_names [OF run] by (metis image_eqI list.set_map)
  then obtain l names where l: "(l, names) \<in> set (same_type_layers specs)" "layer_names g \<in> set (split_layers group_size names)"
    by (auto simp: layerss_def)
  have members: "(k, l) \<in> set specs" if "k \<in> set (layer_names g)" for k
  proof -
    have "k \<in> set names" using l(2) that by (auto simp: split_layers_def Let_def stride_def)
    then show ?thesis using ok l(1) by (auto simp: spec_lists_ok_def)
  qed
  obtain ls m where m: "mapM (dget specs) (layer_names g) = Inr ls" "merge_specs ls = Inr m" "group_spec g = Layer m"
    using create_groups_spec [OF run g] by blast
  have "mapM (dget specs) (layer_names g) = Inr (map (\<lambda>_. l) (layer_names g))"
    by (rule mapM_map) (use map_of_is_SomeI [OF assms(2) members] in \<open>simp add: dget_def del: map_of_eq_Some_iff\<close>)
  moreover obtain k where "length (layer_names g) = Suc k" using n by (cases "layer_names g") auto
  ultimately have "merge_specs [l] = Inr m" using m(1,2) merge_replicate [of k l] by (simp add: map_replicate_const)
  then show "\<exists>l m. (n, l) \<in> set specs \<and> merge_specs [l] = Inr m \<and> group_spec g = Layer m" using members [OF n] m(3) by blast
qed

lemma single_group:
  assumes "is_kv_cache_spec_uniform specs = Inr True \<and> get_kv_cache_groups_uniform_spec specs = Inr groups
    \<or> from_specs specs = Inr (Some spec) \<and> groups = get_kv_cache_groups_uniform_type spec"
  shows "\<exists>g. groups = [g] \<and> layer_names g = map fst specs"
  using assms
proof (elim disjE conjE)
  assume "get_kv_cache_groups_uniform_spec specs = Inr groups"
  from create_groups_names [OF this [unfolded get_kv_cache_groups_uniform_spec_def]] show ?thesis by auto
next
  assume "from_specs specs = Inr (Some spec)" and g: "groups = get_kv_cache_groups_uniform_type spec"
  then obtain b where "spec = UniformTypeKVCacheSpecs b specs"
    by (auto simp: from_specs_def split: if_splits list.splits)
  then show ?thesis using g by (simp add: get_kv_cache_groups_uniform_type_def)
qed

lemma unify_hybrid_names: "unify_hybrid_kv_cache_specs specs = Inr specs' \<Longrightarrow> map fst specs' = map fst specs"
  by (auto simp: unify_hybrid_kv_cache_specs_def Let_def split: if_splits)

lemma unify_hybrid_unified: "unify_hybrid_kv_cache_specs specs = Inr specs' \<Longrightarrow> is_unified specs' = Inr True"
  by (auto simp: unify_hybrid_kv_cache_specs_def Let_def split: if_splits)

text \<open>Either one group, or the groups of a model with several types and one page size.\<close>

lemma get_kv_cache_groups_cases:
  assumes "get_kv_cache_groups setup specs = Inr groups" and "distinct (map fst specs)" and "specs \<noteq> []"
  shows "(\<exists>g. groups = [g] \<and> layer_names g = map fst specs)
    \<or> (\<exists>specs'. unify_kv_cache_spec_page_size specs = Inr specs' \<and> get_kv_cache_groups_uniform_page_size specs' = Inr groups)"
proof -
  obtain specs1 where s1: "(if disable_hybrid_kv_cache_manager setup then unify_hybrid_kv_cache_specs specs else Inr specs) = Inr specs1"
    using assms(1) by (auto simp: get_kv_cache_groups_def)
  have names: "map fst specs1 = map fst specs" using s1 unify_hybrid_names by (auto split: if_splits)
  then have ne: "specs1 \<noteq> []" using assms(3) by auto
  obtain u where u: "is_kv_cache_spec_uniform specs1 = Inr u" using assms(1) s1 ne by (auto simp: get_kv_cache_groups_def)
  show ?thesis
  proof (cases u)
    case True
    then have "get_kv_cache_groups_uniform_spec specs1 = Inr groups" using assms(1) s1 ne u by (simp add: get_kv_cache_groups_def)
    then show ?thesis using single_group u True names by metis
  next
    case False
    then obtain r where r: "from_specs specs1 = Inr r" using assms(1) s1 ne u by (auto simp: get_kv_cache_groups_def)
    show ?thesis
    proof (cases r)
      case (Some spec)
      then have "groups = get_kv_cache_groups_uniform_type spec" using assms(1) s1 ne u False r by (simp add: get_kv_cache_groups_def)
      then show ?thesis using single_group r Some names by metis
    next
      case None
      then have "is_uniform_type specs1 = Inr False" using r by (auto simp: from_specs_def split: if_splits list.splits)
      then have "\<not> disable_hybrid_kv_cache_manager setup" using s1 u False unify_hybrid_unified [of specs specs1] by (auto simp: is_unified_def split: if_splits)
      then have "specs1 = specs" using s1 by simp
      then show ?thesis using assms(1) s1 ne u False r None by (auto simp: get_kv_cache_groups_def)
    qed
  qed
qed

lemma copy_same: "copy_with_new_block_size (layer_block_size l) l = l"
  by (cases l) simp_all

lemma groups_partition:
  assumes "get_kv_cache_groups setup specs = Inr groups" and "distinct (map fst specs)"
  shows "mset (concat (map layer_names groups)) = mset (map fst specs)
    \<and> (1 < length groups \<longrightarrow>
         (\<exists>p. \<forall>g \<in> set groups. spec_page_size_bytes (group_spec g) = Inr p)
         \<and> (\<forall>g \<in> set groups. layer_names g \<noteq> [] \<and> (\<forall>n \<in> set (layer_names g). \<exists>l b m. map_of specs n = Some l
              \<and> merge_specs [copy_with_new_block_size b l] = Inr m \<and> group_spec g = Layer m)))"
proof (cases "specs = []")
  case True
  then show ?thesis using assms(1)
    by (simp add: get_kv_cache_groups_def unify_hybrid_kv_cache_specs_def is_unified_def is_kv_cache_spec_uniform_def split: if_splits)
next
  case False
  from get_kv_cache_groups_cases [OF assms False] show ?thesis
  proof (elim disjE exE conjE)
    fix g assume "groups = [g]" "layer_names g = map fst specs"
    then show ?thesis by simp
  next
    fix specs' assume u: "unify_kv_cache_spec_page_size specs = Inr specs'" and run: "get_kv_cache_groups_uniform_page_size specs' = Inr groups"
    obtain p where names: "map fst specs' = map fst specs" and p: "\<forall>(n, l) \<in> set specs'. layer_page_size_bytes l = Inr p"
      and rel: "list_all2 (\<lambda>(n, l) (n', l'). n' = n \<and> (l' = l \<or> (\<exists>b. l' = copy_with_new_block_size b l))) specs specs'"
      using unify_page_size_ok [OF u False] by blast
    have d: "distinct (map fst specs')" using names assms(2) by simp
    note part = uniform_page_size_groups [OF run d]
    have spec: "spec_page_size_bytes (group_spec g) = Inr p \<and> (\<exists>l b m. map_of specs n = Some l
        \<and> merge_specs [copy_with_new_block_size b l] = Inr m \<and> group_spec g = Layer m)"
      if gn: "g \<in> set groups" "n \<in> set (layer_names g)" for g n
    proof -
      obtain l' m where l': "(n, l') \<in> set specs'" "merge_specs [l'] = Inr m" "group_spec g = Layer m" using part(2) [OF gn] by blast
      obtain i where i: "i < length specs'" "specs' ! i = (n, l')" using l'(1) by (metis in_set_conv_nth)
      obtain n0 l where n0: "specs ! i = (n0, l)" by (cases "specs ! i")
      have "n0 = n" "l' = l \<or> (\<exists>b. l' = copy_with_new_block_size b l)" using list_all2_nthD2 [OF rel i(1)] i(2) n0 by auto
      moreover have "(n0, l) \<in> set specs" using n0 i(1) list_all2_lengthD [OF rel] nth_mem by metis
      ultimately have "(n, l) \<in> set specs" "l' = l \<or> (\<exists>b. l' = copy_with_new_block_size b l)" by simp_all
      then obtain b where "map_of specs n = Some l" "l' = copy_with_new_block_size b l"
        using map_of_is_SomeI [OF assms(2)] copy_same by metis
      moreover have "layer_page_size_bytes l' = Inr p" using p l'(1) by auto
      ultimately show ?thesis using l'(2,3) merge_single_page [OF l'(2)] by auto
    qed
    have ne: "layer_names g \<noteq> []" if "g \<in> set groups" for g
    proof
      assume empty: "layer_names g = []"
      obtain names where c: "create_kv_cache_group_specs specs' names = Inr groups"
        using run by (auto simp: get_kv_cache_groups_uniform_page_size_def Let_def split: if_splits)
      from create_groups_spec [OF c that] empty show False by (auto simp: merge_specs_def)
    qed
    then have "\<exists>n. n \<in> set (layer_names g)" if "g \<in> set groups" for g using that by (cases "layer_names g") auto
    then have "\<forall>g \<in> set groups. spec_page_size_bytes (group_spec g) = Inr p" using spec by blast
    then show ?thesis using part(1) names spec ne by auto
  qed
qed

section \<open>Properties\<close>

text \<open>C29: the groups partition the layers of the model.  Every layer is in exactly one group.  When there are
  several groups they all have one page size, and the spec of a group is the spec of each of its layers up to
  the block size: layers of different attention types never share a block table.\<close>

theorem groups_partition_layers:
  assumes "get_kv_cache_groups setup specs = Inr groups" and "distinct (map fst specs)"
  shows "mset (concat (map layer_names groups)) = mset (map fst specs)
    \<and> (1 < length groups \<longrightarrow>
         (\<exists>p. \<forall>g \<in> set groups. spec_page_size_bytes (group_spec g) = Inr p)
         \<and> (\<forall>g \<in> set groups. layer_names g \<noteq> [] \<and> (\<forall>n \<in> set (layer_names g). \<exists>l b m. map_of specs n = Some l
              \<and> merge_specs [copy_with_new_block_size b l] = Inr m \<and> group_spec g = Layer m)))"
  by (rule groups_partition [OF assms])

definition sample_window :: layer_spec where
  "sample_window = SlidingWindowSpec sample_attention 1024"

definition sample_setup :: cache_setup where
  "sample_setup = \<lparr>vllm = \<lparr>max_model_len = 4096, decode_context_parallel_size = 1, prefill_context_parallel_size = 1,
     max_num_batched_tokens = 512, max_num_encoder_input_tokens = 0\<rparr>,
     num_gpu_blocks_override = None, disable_hybrid_kv_cache_manager = False, original_max_model_len = 4096\<rparr>"

definition sample_model :: "(string, layer_spec) odict" where
  "sample_model = [(''f0'', sample_full 128 None), (''w0'', sample_window), (''w1'', sample_window)]"

theorem groups_partition_layers_witness:
  "\<exists>groups. get_kv_cache_groups sample_setup sample_model = Inr groups \<and> mset (concat (map layer_names groups)) = mset [''f0'', ''w0'', ''w1'']"
proof -
  have "case get_kv_cache_groups sample_setup sample_model of Inr groups \<Rightarrow> True | Inl _ \<Rightarrow> False" by code_simp
  then obtain groups where g: "get_kv_cache_groups sample_setup sample_model = Inr groups" by (auto split: sum.splits)
  have "distinct (map fst sample_model)" by (simp add: sample_model_def)
  from groups_partition_layers [OF g this] g show ?thesis by (auto simp: sample_model_def)
qed


end
