(* ===== verification/KV_Sizing.thy ===== *)
theory KV_Sizing
  imports KV_Groups
begin

text \<open>
  What the configuration of the KV cache guarantees: the estimated model length is the largest that fits, the
  groups partition the layers, and the tensors of every worker fit its memory.
\<close>

section \<open>The estimated length\<close>

text \<open>A group of uniform type has well-formed layers; other groups share one page size.\<close>

definition groups_ok :: "vllm_config \<Rightarrow> kv_cache_group_spec list \<Rightarrow> bool" where
  "groups_ok cfg groups \<longleftrightarrow> groups \<noteq> [] \<and>
     (case uniform_group groups of
        Some specs \<Rightarrow> (\<forall>(_, l) \<in> set specs. layer_ok cfg l)
      | None \<Rightarrow> (\<exists>p > 0. get_uniform_page_size (map group_spec groups) = Inr p)
                \<and> (\<exists>l. group_spec (hd groups) = Layer l \<and> layer_ok cfg l))"

lemma sumM_mono:
  assumes "\<And>x. x \<in> set xs \<Longrightarrow> \<exists>f. (\<forall>n. g n x = Inr (f n)) \<and> mono f"
  shows "\<exists>f :: int \<Rightarrow> int. (\<forall>n. sumM (g n) xs = Inr (f n)) \<and> mono f"
proof -
  have "\<forall>x. \<exists>f. x \<in> set xs \<longrightarrow> (\<forall>n. g n x = Inr (f n)) \<and> mono f" using assms by blast
  then obtain F where F: "\<And>x n. x \<in> set xs \<Longrightarrow> g n x = Inr (F x n)" "\<And>x. x \<in> set xs \<Longrightarrow> mono (F x)" by metis
  have "sumM (g n) xs = Inr (sum_list (map (\<lambda>x. F x n) xs))" for n by (rule sumM_sum) (rule F(1))
  moreover have "mono (\<lambda>n. sum_list (map (\<lambda>x. F x n) xs))"
    using F(2) by (auto simp: mono_def intro!: sum_list_mono)
  ultimately show ?thesis by (intro exI conjI allI)
qed

lemma groups_memory_mono:
  assumes "groups_ok cfg groups"
  shows "\<exists>f. (\<forall>n. max_memory_from_groups (cfg\<lparr>max_model_len := n\<rparr>) groups = Inr (f n)) \<and> mono f"
proof (cases "uniform_group groups")
  case (Some specs)
  have "\<exists>f. (\<forall>n. (layer_max_memory_usage_bytes (cfg\<lparr>max_model_len := n\<rparr>) \<circ> snd) x = Inr (f n)) \<and> mono f" if "x \<in> set specs" for x
    using layer_memory_mono [of cfg "snd x"] assms that Some by (auto simp: groups_ok_def)
  from sumM_mono [of specs "\<lambda>n. layer_max_memory_usage_bytes (cfg\<lparr>max_model_len := n\<rparr>) \<circ> snd", OF this]
  show ?thesis using assms Some by (simp add: max_memory_from_groups_def groups_ok_def)
next
  case None
  then obtain p l where p: "0 < p" "get_uniform_page_size (map group_spec groups) = Inr p"
    and l: "group_spec (hd groups) = Layer l" "layer_ok cfg l" using assms by (auto simp: groups_ok_def)
  obtain f where f: "\<And>n. layer_max_memory_usage_bytes (cfg\<lparr>max_model_len := n\<rparr>) l = Inr (f n)" "mono f"
    using layer_memory_mono [OF l(2)] by auto
  have "max_memory_from_groups (cfg\<lparr>max_model_len := n\<rparr>) groups = Inr (int (group_max_layers groups) * p * cdiv (f n) p)" for n
    using assms None p l f(1) by (simp add: max_memory_from_groups_def groups_ok_def)
  moreover have "mono (\<lambda>n. int (group_max_layers groups) * p * cdiv (f n) p)"
    using p(1) f(2) by (auto simp: mono_def intro!: mult_left_mono cdiv_mono)
  ultimately show ?thesis by (intro exI conjI allI)
qed

text \<open>C30: the estimated maximum model length is the largest that fits.  The binary search ends, and a length
  up to the configured one fits the memory iff it is at most the result; the result is 0 iff no length fits.
  Fitting a model without a fixed length returns exactly this length, or raises \<open>ValueError\<close>.\<close>

theorem estimate_is_largest:
  assumes "groups_ok cfg groups" and "1 \<le> max_model_len cfg"
  shows "\<exists>k. estimate_from_groups cfg groups am = Inr k \<and> 0 \<le> k \<and> k \<le> max_model_len cfg
    \<and> (\<forall>n. 1 \<le> n \<and> n \<le> max_model_len cfg \<longrightarrow>
         ((\<exists>needed. max_memory_from_groups (cfg\<lparr>max_model_len := n\<rparr>) groups = Inr needed \<and> needed \<le> am) \<longleftrightarrow> n \<le> k))
    \<and> auto_fit_max_model_len cfg groups [am] = (if k = 0 then Inl ValueError else Inr (cfg\<lparr>max_model_len := k\<rparr>))"
proof -
  obtain f where f: "\<And>n. max_memory_from_groups (cfg\<lparr>max_model_len := n\<rparr>) groups = Inr (f n)" "mono f"
    using groups_memory_mono [OF assms(1)] by auto
  let ?fits = "\<lambda>n. rbind (max_memory_from_groups (cfg\<lparr>max_model_len := n\<rparr>) groups) (\<lambda>needed. Inr (needed \<le> am))"
  have "f m \<le> am" if "m \<le> n" "f n \<le> am" for m n using f(2) that by (meson monoD order_trans)
  with search_max_model_len_ok [of "max_model_len cfg" ?fits "\<lambda>n. f n \<le> am"] f(1) assms(2)
  obtain k where k: "search_max_model_len ?fits (max_model_len cfg) = Inr k" "0 \<le> k" "k \<le> max_model_len cfg"
    "\<forall>n. 1 \<le> n \<and> n \<le> max_model_len cfg \<longrightarrow> (f n \<le> am \<longleftrightarrow> n \<le> k)" by auto
  then have e: "estimate_from_groups cfg groups am = Inr k" by (simp add: estimate_from_groups_def)
  have "cfg\<lparr>max_model_len := max_model_len cfg\<rparr> = cfg" by simp
  then have "auto_fit_max_model_len cfg groups [am] = (if k = 0 then Inl ValueError else Inr (cfg\<lparr>max_model_len := k\<rparr>))"
    using e k(2,3) assms(1) by (auto simp: auto_fit_max_model_len_def py_min_def groups_ok_def)
  then show ?thesis using e k f(1) by simp
qed

definition sample_config :: vllm_config where
  "sample_config = vllm sample_setup"

theorem estimate_is_largest_witness:
  "\<exists>k. estimate_from_groups sample_config [\<lparr>layer_names = [''a''], group_spec = Layer (sample_full 128 None)\<rparr>] 6553600 = Inr k \<and> 1600 \<le> k"
proof -
  let ?gs = "[\<lparr>layer_names = [''a''], group_spec = Layer (sample_full 128 None)\<rparr>]"
  have "groups_ok sample_config ?gs"
    by (simp add: groups_ok_def uniform_group_def get_uniform_page_size_def layer_ok_def sample_full_def
        sample_attention_def padded_page_size_def full_real_page_size_bytes_def)
  from estimate_is_largest [OF this, of 6553600] obtain k where
    k: "estimate_from_groups sample_config ?gs 6553600 = Inr k" "\<forall>n. 1 \<le> n \<and> n \<le> 4096 \<longrightarrow>
      ((\<exists>needed. max_memory_from_groups (sample_config\<lparr>max_model_len := n\<rparr>) ?gs = Inr needed \<and> needed \<le> 6553600) \<longleftrightarrow> n \<le> k)"
    by (auto simp: sample_config_def sample_setup_def)
  have "max_memory_from_groups (sample_config\<lparr>max_model_len := 1600\<rparr>) ?gs = Inr 6553600"
    by code_simp
  then show ?thesis using k(1) k(2) [rule_format, of 1600] by simp
qed

section \<open>The specs of all workers\<close>

lemma merge_layers_ok:
  assumes "foldM merge_layer xs d = Inr d'" and "distinct (map fst d)"
  shows "distinct (map fst d') \<and> (\<forall>n l. map_of d n = Some l \<longrightarrow> map_of d' n = Some l) \<and> (\<forall>(n, l) \<in> set xs. map_of d' n = Some l)
    \<and> (\<forall>n l. map_of d' n = Some l \<longrightarrow> map_of d n = Some l \<or> (n, l) \<in> set xs)"
  using assms
proof (induction xs arbitrary: d)
  case (Cons x xs)
  obtain n l where x: "x = (n, l)" by (cases x)
  from Cons.prems(1) x obtain d1 where d1: "merge_layer (n, l) d = Inr d1" "foldM merge_layer xs d1 = Inr d'" by auto
  have step: "distinct (map fst d1)" "map_of d1 n = Some l" "\<And>k v. map_of d k = Some v \<Longrightarrow> map_of d1 k = Some v"
    "\<And>k v. map_of d1 k = Some v \<Longrightarrow> map_of d k = Some v \<or> (k, v) = (n, l)"
    using d1(1) Cons.prems(2) by (auto simp: merge_layer_def distinct_update simp del: map_of_eq_Some_iff split: option.splits if_splits)
  from Cons.IH [OF d1(2) step(1)] step(2-4) show ?case unfolding x by (simp del: map_of_eq_Some_iff) blast
qed auto

lemma foldM_concat: "foldM (foldM f) xss s = foldM f (concat xss) s"
proof (induction xss arbitrary: s)
  case (Cons xs xss)
  then have "foldM (foldM f) xss = foldM f (concat xss)" by (rule ext)
  then show ?case by (simp add: foldM_append)
qed simp

lemma merge_workers_ok:
  assumes "merge_workers specs = Inr merged"
  shows "distinct (map fst merged)" and "\<And>ws n l. ws \<in> set specs \<Longrightarrow> (n, l) \<in> set ws \<Longrightarrow> (n, l) \<in> set merged"
    and "\<And>n l. (n, l) \<in> set merged \<Longrightarrow> \<exists>ws \<in> set specs. (n, l) \<in> set ws"
proof -
  note m = merge_layers_ok [of "concat specs" "[]" merged] assms [unfolded merge_workers_def foldM_concat]
  show d: "distinct (map fst merged)" using m by simp
  show "(n, l) \<in> set merged" if "ws \<in> set specs" "(n, l) \<in> set ws" for ws n l
    using m that map_of_SomeD by fastforce
  show "\<exists>ws \<in> set specs. (n, l) \<in> set ws" if "(n, l) \<in> set merged" for n l
    using m map_of_is_SomeI [OF d that] by fastforce
qed

section \<open>The shape of the groups\<close>

lemma to_full_attention_page: "0 < real_page l \<Longrightarrow> 0 < real_page (to_full_attention l)"
  by (cases l) (simp_all add: full_from_def full_real_page_size_bytes_def attention_real_page_size_bytes_def algebra_simps)

lemma unify_hybrid_pos:
  "unify_hybrid_kv_cache_specs specs = Inr specs' \<Longrightarrow> \<forall>(n, l) \<in> set specs. 0 < real_page l \<Longrightarrow> \<forall>(n, l) \<in> set specs'. 0 < real_page l"
  by (fastforce simp: unify_hybrid_kv_cache_specs_def Let_def intro: to_full_attention_page split: if_splits)

lemma create_groups_layers: "create_kv_cache_group_specs specs names = Inr groups \<Longrightarrow> g \<in> set groups \<Longrightarrow> \<exists>l. group_spec g = Layer l"
  using create_groups_spec by blast

text \<open>Either every group has a layer spec, or there is one group of uniform type.\<close>

lemma get_kv_cache_groups_shape:
  assumes "get_kv_cache_groups setup specs = Inr groups" and "\<forall>(n, l) \<in> set specs. 0 < real_page l"
  shows "(\<forall>g \<in> set groups. \<exists>l. group_spec g = Layer l)
    \<or> (\<exists>b d. groups = [\<lparr>layer_names = map fst d, group_spec = UniformTypeKVCacheSpecs b d\<rparr>] \<and> (\<forall>(n, l) \<in> set d. 0 < real_page l))"
proof (cases "groups = []")
  case False
  obtain specs1 where s1: "(if disable_hybrid_kv_cache_manager setup then unify_hybrid_kv_cache_specs specs else Inr specs) = Inr specs1"
    using assms(1) by (auto simp: get_kv_cache_groups_def)
  have pos: "\<forall>(n, l) \<in> set specs1. 0 < real_page l" using s1 assms(2) unify_hybrid_pos by (auto split: if_splits)
  have ne: "specs1 \<noteq> []" using False assms(1) s1 by (auto simp: get_kv_cache_groups_def)
  obtain u where u: "is_kv_cache_spec_uniform specs1 = Inr u" using assms(1) s1 ne by (auto simp: get_kv_cache_groups_def)
  show ?thesis
  proof (cases u)
    case True
    then have "get_kv_cache_groups_uniform_spec specs1 = Inr groups" using assms(1) s1 ne u by (simp add: get_kv_cache_groups_def)
    then show ?thesis using create_groups_layers by (auto simp: get_kv_cache_groups_uniform_spec_def)
  next
    case False
    then obtain r where r: "from_specs specs1 = Inr r" using assms(1) s1 ne u by (auto simp: get_kv_cache_groups_def)
    show ?thesis
    proof (cases r)
      case (Some spec)
      then obtain b where "spec = UniformTypeKVCacheSpecs b specs1" using r by (auto simp: from_specs_def split: if_splits list.splits)
      then have "groups = [\<lparr>layer_names = map fst specs1, group_spec = UniformTypeKVCacheSpecs b specs1\<rparr>]"
        using assms(1) s1 ne u False r Some by (simp add: get_kv_cache_groups_def get_kv_cache_groups_uniform_type_def)
      then show ?thesis using pos by blast
    next
      case None
      then obtain specs2 where "get_kv_cache_groups_uniform_page_size specs2 = Inr groups"
        using assms(1) s1 ne u False r by (auto simp: get_kv_cache_groups_def)
      then show ?thesis using create_groups_layers by (auto simp: get_kv_cache_groups_uniform_page_size_def Let_def split: if_splits)
    qed
  qed
qed simp

section \<open>The tensors of a worker\<close>

text \<open>The page size of the layer \<open>n\<close> in its group.\<close>

definition layer_page_in :: "kv_cache_group_spec \<Rightarrow> string \<Rightarrow> int result" where
  "layer_page_in g n =
     (case group_spec g of
        Layer l \<Rightarrow> layer_page_size_bytes l
      | UniformTypeKVCacheSpecs _ d \<Rightarrow> rbind (dget d n) layer_page_size_bytes)"

text \<open>The tensors hold \<open>num_blocks c\<close> pages of every layer they are shared by; \<open>pages\<close> are their page sizes.\<close>

definition pages_ok :: "int \<Rightarrow> kv_cache_config \<Rightarrow> int list \<Rightarrow> bool" where
  "pages_ok am c pages \<longleftrightarrow>
     map kt_size (kv_cache_tensors c) = map (\<lambda>p. p * num_blocks c) pages \<and> (\<forall>p \<in> set pages. 0 < p) \<and> sum_list pages * num_blocks c \<le> am
     \<and> (\<forall>i < length pages. \<forall>n \<in> set (shared_by (kv_cache_tensors c ! i)).
          \<exists>g \<in> set (kv_cache_groups c). n \<in> set (layer_names g) \<and> layer_page_in g n = Inr (pages ! i))"

definition sharing_ok :: "kv_cache_config \<Rightarrow> bool" where
  "sharing_ok c \<longleftrightarrow>
     mset (concat (map shared_by (kv_cache_tensors c))) = mset (concat (map layer_names (kv_cache_groups c)))
     \<and> (\<forall>t \<in> set (kv_cache_tensors c). \<forall>g \<in> set (kv_cache_groups c). length (filter (\<lambda>n. n \<in> set (layer_names g)) (shared_by t)) \<le> 1)"

lemma mset_concat_append: "mset (concat (map (\<lambda>i. f i @ h i) is)) = mset (concat (map f is)) + mset (concat (map h is))"
  by (induction "is") simp_all

lemma concat_columns: "length xs \<le> k \<Longrightarrow> concat (map (\<lambda>i. if i < length xs then [xs ! i] else []) [0..<k]) = xs"
proof -
  assume "length xs \<le> k"
  then have split: "[0..<k] = [0..<length xs] @ [length xs..<k]" by (simp add: upt_split)
  have inner: "map (\<lambda>i. if i < length xs then [xs ! i] else []) [0..<length xs] = map (\<lambda>i. [xs ! i]) [0..<length xs]" by (intro map_cong) auto
  have outer: "map (\<lambda>i. if i < length xs then [xs ! i] else []) [length xs..<k] = map (\<lambda>i. []) [length xs..<k]" by (intro map_cong) auto
  show ?thesis unfolding split map_append concat_append inner outer by (simp add: concat_map_singleton map_nth concat_eq_Nil_conv)
qed

lemma shared_partition:
  assumes "\<forall>g \<in> set groups. length (layer_names g) \<le> k"
  shows "mset (concat (map (shared_by \<circ> shared_tensor sz groups) [0..<k])) = mset (concat (map layer_names groups))"
  using assms
proof (induction groups)
  case (Cons g groups)
  have "shared_by (shared_tensor sz (g # groups) i) = (if i < length (layer_names g) then [layer_names g ! i] else []) @ shared_by (shared_tensor sz groups i)" for i
    by (simp add: shared_tensor_def)
  then have "mset (concat (map (shared_by \<circ> shared_tensor sz (g # groups)) [0..<k]))
      = mset (layer_names g) + mset (concat (map (shared_by \<circ> shared_tensor sz groups) [0..<k]))"
    using Cons.prems by (simp add: comp_def mset_concat_append concat_columns)
  then show ?case using Cons by (simp add: comp_def)
qed (simp add: shared_tensor_def)

text \<open>Two layers of one group are never in the same tensor.\<close>

lemma shared_one_per_group:
  assumes "distinct (concat (map layer_names groups))" and "g \<in> set groups"
  shows "length (filter (\<lambda>n. n \<in> set (layer_names g)) (shared_by (shared_tensor sz groups i))) \<le> 1"
  using assms
proof (induction groups)
  case (Cons g' groups)
  let ?S = "\<lambda>gs. shared_by (shared_tensor sz gs i)"
  have split: "?S (g' # groups) = (if i < length (layer_names g') then [layer_names g' ! i] else []) @ ?S groups" by (simp add: shared_tensor_def)
  have rest: "set (?S groups) \<subseteq> set (concat (map layer_names groups))" by (auto simp: shared_tensor_def)
  show ?case
  proof (cases "g \<in> set groups")
    case True
    then have "length (filter (\<lambda>n. n \<in> set (layer_names g)) (?S groups)) \<le> 1" using Cons by simp
    moreover have "layer_names g' ! i \<notin> set (layer_names g)" if "i < length (layer_names g')" using Cons.prems(1) True nth_mem [OF that] by auto
    ultimately show ?thesis unfolding split by simp
  next
    case False
    then have "g = g'" using Cons.prems(2) by simp
    then have "filter (\<lambda>n. n \<in> set (layer_names g)) (?S groups) = []" using Cons.prems(1) rest by (auto simp: filter_empty_conv)
    then show ?thesis unfolding split by simp
  qed
qed simp

lemma foldM_sum_Inr: "foldM (\<lambda>x acc. rbind (f x) (\<lambda>v. Inr (acc + v))) xs a = Inr s \<Longrightarrow> x \<in> set xs \<Longrightarrow> \<exists>v. f x = Inr v"
  by (induction xs arbitrary: a) auto

lemma get_uniform_page_size_all:
  assumes "get_uniform_page_size specs = Inr p" and "s \<in> set specs"
  shows "spec_page_size_bytes s = Inr p"
proof -
  obtain sizes where run: "mapM spec_page_size_bytes specs = Inr sizes" "(case remdups sizes of [q] \<Rightarrow> Inr q | _ \<Rightarrow> Inl AssertionError) = Inr p"
    using assms(1) unfolding get_uniform_page_size_def rbind_Inr_iff by blast
  then have sizes: "mapM spec_page_size_bytes specs = Inr sizes" "remdups sizes = [p]"
    by (cases "remdups sizes"; cases "tl (remdups sizes)"; simp)+
  then have "set sizes = {p}" by (metis set_remdups list.set(1,2))
  then show ?thesis using sizes(1) assms(2) by (fastforce simp: mapM_list_all2 list_all2_conv_all_nth in_set_conv_nth)
qed

lemma uniform_config_ok:
  assumes run: "get_kv_cache_config_from_groups setup [\<lparr>layer_names = names, group_spec = UniformTypeKVCacheSpecs b d\<rparr>] am = Inr c"
    and no: "num_gpu_blocks_override setup = None" and am: "0 < am" and names: "distinct names" "set names \<subseteq> fst ` set d"
    and d: "distinct (map fst d)" "\<forall>(n, l) \<in> set d. 0 < real_page l"
  shows "0 \<le> num_blocks c \<and> sharing_ok c \<and> (\<exists>pages. pages_ok am c pages)"
proof -
  define g where "g = \<lparr>layer_names = names, group_spec = UniformTypeKVCacheSpecs b d\<rparr>"
  define G where "G = (\<lambda>n. projr (layer_page_size_bytes (the (map_of d n))))"
  obtain p where p: "sumM (\<lambda>(_, l). layer_page_size_bytes l) d = Inr p" "p \<noteq> 0"
    using run by (auto simp: get_kv_cache_config_from_groups_def uniform_group_def py_div_def split: if_splits)
  have page: "map_of d n = Some l \<and> layer_page_size_bytes l = Inr (G n) \<and> 0 < G n" if nl: "(n, l) \<in> set d" for n l
  proof -
    obtain v where v: "layer_page_size_bytes l = Inr v" using foldM_sum_Inr [OF p(1) [unfolded sumM_def] nl] by auto
    then show ?thesis using map_of_is_SomeI [OF d(1) nl] layer_page_pos [OF v] d(2) nl by (auto simp: G_def simp del: map_of_eq_Some_iff)
  qed
  have "sumM (\<lambda>(_, l). layer_page_size_bytes l) d = Inr (sum_list (map (G \<circ> fst) d))"
    by (rule sumM_sum) (use page in auto)
  then have psum: "p = sum_list (map G (map fst d))" using p(1) by simp
  have Gpos: "0 < G n" if "n \<in> fst ` set d" for n using that page by auto
  then have p0: "0 < p" using p(2) psum sum_list_nonneg [of "map G (map fst d)"] by fastforce
  define nb where "nb = am div p"
  have t: "uniform_tensors nb d names = Inr (map (\<lambda>n. \<lparr>kt_size = G n * nb, shared_by = [n]\<rparr>) names)"
    unfolding uniform_tensors_def by (rule mapM_map) (use names(2) page in \<open>fastforce simp: dget_def\<close>)
  have c: "c = \<lparr>num_blocks = nb, kv_cache_tensors = map (\<lambda>n. \<lparr>kt_size = G n * nb, shared_by = [n]\<rparr>) names, kv_cache_groups = [g]\<rparr>"
    using run p t no by (simp add: get_kv_cache_config_from_groups_def uniform_group_def py_div_def may_override_num_blocks_def Let_def nb_def g_def)
  have nb: "0 \<le> nb" using am p0 by (simp add: nb_def pos_imp_zdiv_nonneg_iff)
  have "sum_list (map G names) \<le> p"
  proof -
    have "sum_list (map G names) = sum G (set names)" "p = sum G (fst ` set d)"
      using names(1) d(1) psum sum_list_distinct_conv_sum_set [of names G] sum_list_distinct_conv_sum_set [of "map fst d" G] by simp_all
    then show ?thesis using sum_mono2 [of "fst ` set d" "set names" G] names(2) Gpos by (auto intro: less_imp_le)
  qed
  then have "sum_list (map G names) * nb \<le> p * nb" using nb by (rule mult_right_mono)
  also have "p * nb \<le> am" using le_div_iff_int [OF p0, of nb am] by (simp add: nb_def mult.commute)
  finally have fit: "sum_list (map G names) * nb \<le> am" .
  have "layer_page_in g n = Inr (G n)" if n: "n \<in> set names" for n
  proof -
    obtain l where "(n, l) \<in> set d" using names(2) n by auto
    from page [OF this] show ?thesis by (auto simp: g_def layer_page_in_def dget_def simp del: map_of_eq_Some_iff)
  qed
  then have "pages_ok am c (map G names)"
    using fit names(2) Gpos by (auto simp: pages_ok_def c comp_def) (simp_all add: g_def)
  moreover have "sharing_ok c" by (auto simp: sharing_ok_def c g_def concat_map_singleton comp_def)
  ultimately show ?thesis using nb c by auto
qed

lemma shared_config_ok:
  assumes run: "get_kv_cache_config_from_groups setup gs am = Inr c" and no: "num_gpu_blocks_override setup = None" and am: "0 < am"
    and gs: "gs \<noteq> []" "\<forall>g \<in> set gs. \<exists>l. group_spec g = Layer l" "distinct (concat (map layer_names gs))" and nz: "num_blocks c \<noteq> 0 \<or> kv_cache_tensors c = []"
  shows "0 \<le> num_blocks c \<and> sharing_ok c \<and> (\<exists>pages. pages_ok am c pages)"
proof -
  define k where "k = group_max_layers gs"
  have "uniform_group gs = None" using gs(2) by (auto simp: uniform_group_def split: list.splits kv_cache_spec.splits)
  then obtain p nb where p: "get_uniform_page_size (map group_spec gs) = Inr p" "0 < k" "get_num_blocks setup (int k) am p = Inr nb"
    and c: "c = \<lparr>num_blocks = nb, kv_cache_tensors = map (shared_tensor (p * nb) gs) [0..<k], kv_cache_groups = gs\<rparr>"
    using run gs(1) by (auto simp: get_kv_cache_config_from_groups_def Let_def k_def [symmetric])
  have nb: "nb = max (am div p div int k) 0" using p(3) no by (auto simp: get_num_blocks_def py_div_def may_override_num_blocks_def split: if_splits)
  have "nb \<noteq> 0" using nz p(2) by (auto simp: c)
  then have q: "nb = am div p div int k" "0 < nb" using nb by auto
  then have "nb * int k \<le> am div p" using le_div_iff_int [of "int k" nb "am div p"] p(2) by simp
  moreover have "0 < nb * int k" using q(2) p(2) by simp
  ultimately have pos: "0 < am div p" by linarith
  then have "p \<noteq> 0" by auto
  moreover have "\<not> p < 0" using div_nonneg_neg_le0 [of am p] am pos by linarith
  ultimately have p0: "0 < p" by linarith
  have fit: "sum_list (replicate k p) * nb \<le> am"
    using \<open>nb * int k \<le> am div p\<close> le_div_iff_int [OF p0, of "nb * int k" am] by (simp add: sum_list_replicate mult.commute mult.left_commute)
  have len: "\<forall>g \<in> set gs. length (layer_names g) \<le> k" by (auto simp: k_def group_max_layers_def intro!: Max_ge)
  have "layer_page_in g n = Inr p" if "g \<in> set gs" for g n
    using get_uniform_page_size_all [OF p(1), of "group_spec g"] gs(2) that by (fastforce simp: layer_page_in_def)
  then have "pages_ok am c (replicate k p)"
    using fit p0 by (auto simp: pages_ok_def c shared_tensor_def comp_def map_replicate_const intro!: bexI)
  moreover have "sharing_ok c"
    using shared_partition [OF len, of "p * nb"] shared_one_per_group [OF gs(3), of _ "p * nb"] by (auto simp: sharing_ok_def c)
  ultimately show ?thesis using q(2) c by auto
qed

section \<open>All workers\<close>

lemma shrink_config_ok:
  assumes run: "shrink_config cfg m c = Inr c'" and ok: "pages_ok am c pages" "sharing_ok c" and m: "0 \<le> m" "m \<le> num_blocks c"
  shows "num_blocks c' = m \<and> kv_cache_groups c' = kv_cache_groups c \<and> pages_ok am c' pages \<and> sharing_ok c'"
proof -
  obtain tensors where t: "mapM (shrink_tensor (num_blocks c) m) (kv_cache_tensors c) = Inr tensors"
    and c': "c' = c\<lparr>num_blocks := m, kv_cache_tensors := tensors\<rparr>"
    using run by (auto simp: shrink_config_def Let_def split: if_splits)
  have all: "list_all2 (\<lambda>x y. shrink_tensor (num_blocks c) m x = Inr y) (kv_cache_tensors c) tensors" using t by (simp add: mapM_list_all2)
  have shared: "map shared_by tensors = map shared_by (kv_cache_tensors c)"
    using all by (induction rule: list_all2_induct) (auto simp: shrink_tensor_def split: if_splits)
  have len: "length tensors = length pages" using ok(1) list_all2_lengthD [OF all] by (metis length_map pages_ok_def)
  have sizes: "map kt_size tensors = map (\<lambda>p. p * m) pages"
  proof (rule nth_equalityI)
    fix i assume "i < length (map kt_size tensors)"
    then have i: "i < length pages" "i < length (kv_cache_tensors c)" using len list_all2_lengthD [OF all] by simp_all
    have "kt_size (kv_cache_tensors c ! i) = pages ! i * num_blocks c" using ok(1) i by (metis nth_map pages_ok_def)
    then have "tensors ! i = (kv_cache_tensors c ! i)\<lparr>kt_size := pages ! i * m\<rparr>"
      using list_all2_nthD [OF all i(2)] by (auto simp: shrink_tensor_def split: if_splits)
    then show "map kt_size tensors ! i = map (\<lambda>p. p * m) pages ! i" using i len by simp
  qed (simp add: len)
  have "0 \<le> sum_list pages" using ok(1) by (force simp: pages_ok_def intro: sum_list_nonneg)
  then have "sum_list pages * m \<le> am" using m(2) ok(1) mult_left_mono [of m "num_blocks c" "sum_list pages"] by (simp add: pages_ok_def)
  moreover have "shared_by (tensors ! i) = shared_by (kv_cache_tensors c ! i)" if "i < length pages" for i
    using shared that len by (metis length_map nth_map)
  ultimately have "pages_ok am c' pages" using ok(1) sizes by (simp add: pages_ok_def c')
  moreover have "sharing_ok c'"
  proof -
    have im: "shared_by ` set tensors = shared_by ` set (kv_cache_tensors c)" using shared by (metis list.set_map)
    have one: "length (filter (\<lambda>n. n \<in> set (layer_names g)) (shared_by t)) \<le> 1" if tg: "t \<in> set tensors" "g \<in> set (kv_cache_groups c)" for t g
    proof -
      have "shared_by t \<in> shared_by ` set (kv_cache_tensors c)" unfolding im [symmetric] using tg(1) by (rule imageI)
      then obtain t0 where "t0 \<in> set (kv_cache_tensors c)" "shared_by t = shared_by t0" by auto
      then show ?thesis using ok(2) tg(2) unfolding sharing_ok_def by metis
    qed
    have "mset (concat (map shared_by tensors)) = mset (concat (map layer_names (kv_cache_groups c)))"
      unfolding shared using ok(2) by (simp only: sharing_ok_def)
    then show ?thesis using one by (simp add: sharing_ok_def c')
  qed
  ultimately show ?thesis by (simp add: c')
qed

lemma worker_groups_names:
  assumes "mset (concat (map layer_names groups)) = mset (map fst merged)" and "distinct (map fst merged)"
    and "distinct (map fst ws)" and "set (map fst ws) \<subseteq> set (map fst merged)"
  shows "mset (concat (map layer_names (worker_groups groups ws))) = mset (map fst ws)"
proof -
  have f: "concat (map layer_names (worker_groups groups ws)) = filter (\<lambda>n. n \<in> fst ` set ws) (concat (map layer_names groups))"
    by (simp add: worker_groups_def filter_concat comp_def)
  have "distinct (concat (map layer_names groups))" using assms(1,2) by (metis mset_eq_imp_distinct_iff)
  then have "distinct (concat (map layer_names (worker_groups groups ws)))" unfolding f by (rule distinct_filter)
  moreover have "set (concat (map layer_names groups)) = set (map fst merged)" using assms(1) by (rule mset_eq_setD)
  then have "set (concat (map layer_names (worker_groups groups ws))) = set (map fst ws)" unfolding f using assms(4) by auto
  ultimately show ?thesis using assms(3) by (metis set_eq_iff_mset_eq_distinct)
qed

lemma worker_config_ok:
  assumes run: "worker_config setup groups (ws, am) = Inr c" and no: "num_gpu_blocks_override setup = None"
    and groups: "get_kv_cache_groups setup merged = Inr groups" "distinct (map fst merged)" "\<forall>(n, l) \<in> set merged. 0 < real_page l"
    and ws: "distinct (map fst ws)" "set (map fst ws) \<subseteq> set (map fst merged)" and am: "0 \<le> am" "groups \<noteq> [] \<longrightarrow> 0 < am"
    and nz: "num_blocks c \<noteq> 0 \<or> kv_cache_tensors c = []"
  shows "kv_cache_groups c = worker_groups groups ws \<and> 0 \<le> num_blocks c \<and> sharing_ok c \<and> (\<exists>pages. pages_ok am c pages)
    \<and> mset (concat (map layer_names (kv_cache_groups c))) = mset (map fst ws)"
proof -
  have part: "mset (concat (map layer_names (worker_groups groups ws))) = mset (map fst ws)"
    using groups_partition [OF groups(1,2)] worker_groups_names groups(2) ws by blast
  then have d: "distinct (concat (map layer_names (worker_groups groups ws)))" using ws(1) by (metis mset_eq_imp_distinct_iff)
  have cfg: "get_kv_cache_config_from_groups setup (worker_groups groups ws) am = Inr c" using run by (auto simp: worker_config_def Let_def)
  then have gs: "kv_cache_groups c = worker_groups groups ws"
    by (auto simp: get_kv_cache_config_from_groups_def Let_def split: if_splits option.splits)
  have "0 \<le> num_blocks c \<and> sharing_ok c \<and> (\<exists>pages. pages_ok am c pages)"
  proof (cases "groups = []")
    case True
    then have "c = \<lparr>num_blocks = 1, kv_cache_tensors = [], kv_cache_groups = []\<rparr>" using cfg by (simp add: get_kv_cache_config_from_groups_def worker_groups_def)
    then show ?thesis using am(1) by (auto simp: sharing_ok_def pages_ok_def intro!: exI [of _ "[]"])
  next
    case False
    then have am0: "0 < am" using am(2) by simp
    from get_kv_cache_groups_shape [OF groups(1,3)] show ?thesis
    proof (elim disjE exE conjE)
      assume "\<forall>g \<in> set groups. \<exists>l. group_spec g = Layer l"
      then have "\<forall>g \<in> set (worker_groups groups ws). \<exists>l. group_spec g = Layer l" by (auto simp: worker_groups_def)
      moreover have "worker_groups groups ws \<noteq> []" using False by (simp add: worker_groups_def)
      ultimately show ?thesis using shared_config_ok [OF cfg no am0] d nz by blast
    next
      fix b dd assume u: "groups = [\<lparr>layer_names = map fst dd, group_spec = UniformTypeKVCacheSpecs b dd\<rparr>]" and pos: "\<forall>(n, l) \<in> set dd. 0 < real_page l"
      then have "mset (map fst dd) = mset (map fst merged)" using groups_partition [OF groups(1,2)] by simp
      then have dd: "distinct (map fst dd)" using groups(2) by (metis mset_eq_imp_distinct_iff)
      have "worker_groups groups ws = [\<lparr>layer_names = filter (\<lambda>n. n \<in> fst ` set ws) (map fst dd), group_spec = UniformTypeKVCacheSpecs b dd\<rparr>]"
        by (simp add: u worker_groups_def)
      from uniform_config_ok [OF cfg [unfolded this] no am0 _ _ dd pos] dd show ?thesis by auto
    qed
  qed
  then show ?thesis using gs part by simp
qed

lemma shrink_config_nonzero: "shrink_config cfg m c = Inr c' \<Longrightarrow> num_blocks c \<noteq> 0 \<or> kv_cache_tensors c = []"
  by (cases "kv_cache_tensors c") (auto simp: shrink_config_def shrink_tensor_def split: if_splits)



end
