(* ===== verification/Block_Table.thy ===== *)
theory Block_Table
  imports Prelude
begin

text \<open>
  The block tables of a worker: \<open>vllm/v1/worker/block_table.py\<close>.  They hold the block ids the scheduler sends and turn
  the position of a token into the slot of the KV cache where its keys and values go.  A two-dimensional
  numpy array is the list of its rows.  The copies to the device are left out, and so are the buffers' dtypes: all
  numbers are block ids and slots of one device.  The context parallel groups are given by their sizes and ranks.
\<close>

section \<open>One table\<close>

record block_table =
  bt_block_size :: int
  blocks_per_kv_block :: nat
  use_hybrid_blocks :: bool
  max_num_blocks_per_req :: nat
  bt_rows :: "int list list"
  num_blocks_per_row :: "nat list"
  slot_mapping :: "int list"
  pcp_world_size :: int
  pcp_rank :: int
  dcp_world_size :: int
  dcp_rank :: int
  cp_kv_cache_interleave_size :: int

text \<open>The sizes and ranks of the context parallel groups.\<close>

record cp_groups =
  cp_pcp_world_size :: int
  cp_pcp_rank :: int
  cp_dcp_world_size :: int
  cp_dcp_rank :: int

definition BlockTable :: "cp_groups \<Rightarrow> int \<Rightarrow> nat \<Rightarrow> nat \<Rightarrow> nat \<Rightarrow> int \<Rightarrow> int \<Rightarrow> block_table result" where
  "BlockTable cp block_size max_num_reqs max_blocks max_num_batched_tokens kernel_block_size interleave =
     (if kernel_block_size = block_size \<or> kernel_block_size \<noteq> 0 \<and> block_size mod kernel_block_size = 0 then
        let hybrid = (kernel_block_size \<noteq> block_size);
            per_kv = (if hybrid then nat (block_size div kernel_block_size) else 1)
        in Inr \<lparr>bt_block_size = (if hybrid then kernel_block_size else block_size), blocks_per_kv_block = per_kv,
                use_hybrid_blocks = hybrid, max_num_blocks_per_req = max_blocks * per_kv,
                bt_rows = replicate max_num_reqs (replicate (max_blocks * per_kv) 0),
                num_blocks_per_row = replicate max_num_reqs 0, slot_mapping = replicate max_num_batched_tokens 0,
                pcp_world_size = cp_pcp_world_size cp, pcp_rank = cp_pcp_rank cp,
                dcp_world_size = cp_dcp_world_size cp, dcp_rank = cp_dcp_rank cp,
                cp_kv_cache_interleave_size = interleave\<rparr>
      else Inl (if kernel_block_size = 0 then ZeroDivisionError else ValueError))"

definition map_to_kernel_blocks :: "nat \<Rightarrow> int list \<Rightarrow> int list" where
  "map_to_kernel_blocks per_kv ids =
     (if per_kv = 1 then ids else concat (map (\<lambda>b. map (\<lambda>j. b * int per_kv + int j) [0..<per_kv]) ids))"

text \<open>\<open>row[start : start + len(xs)] = xs\<close> in numpy: the slice ends at the end of the row, and the lengths must agree,
  but for a single value, which is broadcast.\<close>

definition assign_slice :: "nat \<Rightarrow> int list \<Rightarrow> int list \<Rightarrow> int list result" where
  "assign_slice start xs row =
     (let room = min (length xs) (length row - start) in
      if room = length xs then Inr (take start row @ xs @ drop (start + length xs) row)
      else if length xs = 1 then Inr row
      else Inl ValueError)"

definition append_row :: "int list \<Rightarrow> nat \<Rightarrow> block_table \<Rightarrow> block_table result" where
  "append_row block_ids row_idx bt =
     (if block_ids = [] then Inr bt
      else
        let ids = (if use_hybrid_blocks bt then map_to_kernel_blocks (blocks_per_kv_block bt) block_ids else block_ids) in
        rbind (py_index (num_blocks_per_row bt) (int row_idx)) (\<lambda>start.
          rbind (py_index (bt_rows bt) (int row_idx)) (\<lambda>row.
            rbind (assign_slice start ids row) (\<lambda>row'.
              Inr (bt\<lparr>num_blocks_per_row := (num_blocks_per_row bt)[row_idx := start + length ids],
                      bt_rows := (bt_rows bt)[row_idx := row']\<rparr>)))))"

definition add_row :: "int list \<Rightarrow> nat \<Rightarrow> block_table \<Rightarrow> block_table result" where
  "add_row block_ids row_idx bt =
     rbind (py_index (num_blocks_per_row bt) (int row_idx)) (\<lambda>_.
       append_row block_ids row_idx (bt\<lparr>num_blocks_per_row := (num_blocks_per_row bt)[row_idx := 0]\<rparr>))"

definition move_row :: "nat \<Rightarrow> nat \<Rightarrow> block_table \<Rightarrow> block_table result" where
  "move_row src tgt bt =
     rbind (py_index (num_blocks_per_row bt) (int src)) (\<lambda>n.
       rbind (py_index (bt_rows bt) (int src)) (\<lambda>row.
         rbind (py_index (bt_rows bt) (int tgt)) (\<lambda>old.
           Inr (bt\<lparr>bt_rows := (bt_rows bt)[tgt := take n row @ drop n old],
                   num_blocks_per_row := (num_blocks_per_row bt)[tgt := n]\<rparr>))))"

definition swap_row :: "nat \<Rightarrow> nat \<Rightarrow> block_table \<Rightarrow> block_table result" where
  "swap_row src tgt bt =
     rbind (py_index (num_blocks_per_row bt) (int src)) (\<lambda>n_src.
       rbind (py_index (num_blocks_per_row bt) (int tgt)) (\<lambda>n_tgt.
         rbind (py_index (bt_rows bt) (int src)) (\<lambda>row_src.
           rbind (py_index (bt_rows bt) (int tgt)) (\<lambda>row_tgt.
             Inr (bt\<lparr>num_blocks_per_row := (num_blocks_per_row bt)[src := n_tgt, tgt := n_src],
                     bt_rows := (bt_rows bt)[src := row_tgt, tgt := row_src]\<rparr>)))))"

definition cp_world_size :: "block_table \<Rightarrow> int" where
  "cp_world_size bt = pcp_world_size bt * dcp_world_size bt"

definition cp_rank :: "block_table \<Rightarrow> int" where
  "cp_rank bt = pcp_rank bt * dcp_world_size bt + dcp_rank bt"

text \<open>The slot of one token; \<open>-1\<close> when another rank keeps it.  The table is indexed as one flat array.\<close>

definition slot_of :: "block_table \<Rightarrow> int \<Rightarrow> int \<Rightarrow> int result" where
  "slot_of bt req_index position =
     (let W = cp_world_size bt; I = cp_kv_cache_interleave_size bt; bs = bt_block_size bt in
      if 1 < W then
        let virtual_block_size = bs * W;
            offset = position mod virtual_block_size;
            block_offset = offset div (W * I) * I + offset mod I
        in rbind (py_index (concat (bt_rows bt)) (req_index * int (max_num_blocks_per_req bt) + position div virtual_block_size))
             (\<lambda>block_number. Inr (if offset div I mod W = cp_rank bt then block_number * bs + block_offset else -1))
      else
        rbind (py_index (concat (bt_rows bt)) (req_index * int (max_num_blocks_per_req bt) + position div bs))
          (\<lambda>block_number. Inr (block_number * bs + position mod bs)))"

definition compute_slot_mapping :: "int list \<Rightarrow> int list \<Rightarrow> block_table \<Rightarrow> block_table result" where
  "compute_slot_mapping req_indices positions bt =
     rbind (mapM (\<lambda>(r, p). slot_of bt r p) (zip req_indices positions)) (\<lambda>slots.
       if length slots \<le> length (slot_mapping bt)
       then Inr (bt\<lparr>slot_mapping := slots @ drop (length slots) (slot_mapping bt)\<rparr>)
       else Inl ValueError)"

definition clear_table :: "block_table \<Rightarrow> block_table" where
  "clear_table bt = bt\<lparr>bt_rows := map (map (\<lambda>_. 0)) (bt_rows bt)\<rparr>"

section \<open>The tables of all groups\<close>

definition total_cp_world_size :: "cp_groups \<Rightarrow> int" where
  "total_cp_world_size cp = cp_dcp_world_size cp * cp_pcp_world_size cp"

definition MultiGroupBlockTable :: "cp_groups \<Rightarrow> nat \<Rightarrow> int \<Rightarrow> nat \<Rightarrow> int list \<Rightarrow> int list \<Rightarrow> nat \<Rightarrow> int \<Rightarrow> block_table list result" where
  "MultiGroupBlockTable cp max_num_reqs max_model_len max_num_batched_tokens block_sizes kernel_block_sizes num_speculative_tokens interleave =
     (if length kernel_block_sizes \<noteq> length block_sizes then Inl ValueError
      else mapM (\<lambda>(block_size, kernel_block_size).
        if block_size * total_cp_world_size cp = 0 then Inl ZeroDivisionError
        else BlockTable cp block_size max_num_reqs
               (nat (max (cdiv max_model_len (block_size * total_cp_world_size cp)) (1 + int num_speculative_tokens)))
               max_num_batched_tokens kernel_block_size interleave) (zip block_sizes kernel_block_sizes))"

text \<open>\<open>for i, block_table in enumerate(self.block_tables)\<close>: \<open>block_ids[i]\<close> raises when there are fewer groups.\<close>

definition for_groups :: "(int list \<Rightarrow> block_table \<Rightarrow> block_table result) \<Rightarrow> int list list \<Rightarrow> block_table list \<Rightarrow> block_table list result" where
  "for_groups f block_ids tables =
     mapM (\<lambda>i. rbind (py_index block_ids (int i)) (\<lambda>ids. f ids (tables ! i))) [0..<length tables]"

definition multi_append_row :: "int list list \<Rightarrow> nat \<Rightarrow> block_table list \<Rightarrow> block_table list result" where
  "multi_append_row block_ids row_idx = for_groups (\<lambda>ids. append_row ids row_idx) block_ids"

definition multi_add_row :: "int list list \<Rightarrow> nat \<Rightarrow> block_table list \<Rightarrow> block_table list result" where
  "multi_add_row block_ids row_idx = for_groups (\<lambda>ids. add_row ids row_idx) block_ids"

definition multi_move_row :: "nat \<Rightarrow> nat \<Rightarrow> block_table list \<Rightarrow> block_table list result" where
  "multi_move_row src tgt = mapM (move_row src tgt)"

definition multi_swap_row :: "nat \<Rightarrow> nat \<Rightarrow> block_table list \<Rightarrow> block_table list result" where
  "multi_swap_row src tgt = mapM (swap_row src tgt)"

definition multi_compute_slot_mapping :: "int list \<Rightarrow> int list \<Rightarrow> block_table list \<Rightarrow> block_table list result" where
  "multi_compute_slot_mapping req_indices positions = mapM (compute_slot_mapping req_indices positions)"

definition multi_clear :: "block_table list \<Rightarrow> block_table list" where
  "multi_clear = map clear_table"

section \<open>The flat table\<close>

lemma flat_index:
  assumes "\<forall>row \<in> set rows. length row = m" and "r < length rows" and "k < m"
  shows "r * m + k < length (concat rows)" and "concat rows ! (r * m + k) = rows ! r ! k"
proof -
  have "r * m + k < length (concat rows) \<and> concat rows ! (r * m + k) = rows ! r ! k"
    using assms
  proof (induction rows arbitrary: r)
    case (Cons row rows)
    show ?case
    proof (cases r)
      case 0
      then show ?thesis using Cons.prems by (simp add: nth_append)
    next
      case (Suc r')
      then show ?thesis using Cons.IH [of r'] Cons.prems by (simp add: nth_append)
    qed
  qed simp
  then show "r * m + k < length (concat rows)" "concat rows ! (r * m + k) = rows ! r ! k" by auto
qed

definition table_ok :: "block_table \<Rightarrow> bool" where
  "table_ok bt \<longleftrightarrow> (\<forall>row \<in> set (bt_rows bt). length row = max_num_blocks_per_req bt) \<and> length (num_blocks_per_row bt) = length (bt_rows bt)
     \<and> 0 < bt_block_size bt \<and> 0 < blocks_per_kv_block bt \<and> (\<not> use_hybrid_blocks bt \<longrightarrow> blocks_per_kv_block bt = 1)"

lemma flat_lookup:
  assumes "table_ok bt" and "0 \<le> r" and "r < int (length (bt_rows bt))" and "0 \<le> k" and "k < int (max_num_blocks_per_req bt)"
  shows "py_index (concat (bt_rows bt)) (r * int (max_num_blocks_per_req bt) + k) = Inr (bt_rows bt ! nat r ! nat k)"
proof -
  have i: "r * int (max_num_blocks_per_req bt) + k = int (nat r * max_num_blocks_per_req bt + nat k)" using assms(2,4) by simp
  have "\<forall>row \<in> set (bt_rows bt). length row = max_num_blocks_per_req bt" "nat r < length (bt_rows bt)" "nat k < max_num_blocks_per_req bt"
    using assms by (auto simp: table_ok_def)
  from flat_index [OF this] have len: "nat r * max_num_blocks_per_req bt + nat k < length (concat (bt_rows bt))"
    and nth: "concat (bt_rows bt) ! (nat r * max_num_blocks_per_req bt + nat k) = bt_rows bt ! nat r ! nat k" by auto
  show ?thesis unfolding i py_index_nat [OF len] nth by (rule refl)
qed

section \<open>Slots never collide\<close>

text \<open>The tokens of a block of the table, over all ranks; the block of a token, and its offset there.\<close>

definition virtual_block :: "block_table \<Rightarrow> int" where
  "virtual_block bt = (if 1 < cp_world_size bt then bt_block_size bt * cp_world_size bt else bt_block_size bt)"

definition block_at :: "block_table \<Rightarrow> int \<Rightarrow> int \<Rightarrow> int" where
  "block_at bt r p = bt_rows bt ! nat r ! nat (p div virtual_block bt)"

definition local_offset :: "block_table \<Rightarrow> int \<Rightarrow> int option" where
  "local_offset bt p =
     (let W = cp_world_size bt; I = cp_kv_cache_interleave_size bt; offset = p mod virtual_block bt in
      if 1 < W then if offset div I mod W = cp_rank bt then Some (offset div (W * I) * I + offset mod I) else None
      else Some offset)"

definition token_ok :: "block_table \<Rightarrow> int \<Rightarrow> int \<Rightarrow> bool" where
  "token_ok bt r p \<longleftrightarrow> 0 \<le> r \<and> r < int (length (bt_rows bt)) \<and> 0 \<le> p \<and> p div virtual_block bt < int (max_num_blocks_per_req bt)"

lemma slot_of_ok:
  assumes "table_ok bt" and "token_ok bt r p"
  shows "slot_of bt r p = Inr (case local_offset bt p of None \<Rightarrow> -1 | Some off \<Rightarrow> block_at bt r p * bt_block_size bt + off)"
proof -
  have "0 < virtual_block bt" using assms(1) by (simp add: virtual_block_def table_ok_def)
  then have "0 \<le> p div virtual_block bt" using assms(2) by (simp add: token_ok_def pos_imp_zdiv_nonneg_iff)
  then have "py_index (concat (bt_rows bt)) (r * int (max_num_blocks_per_req bt) + p div virtual_block bt) = Inr (block_at bt r p)"
    using flat_lookup [OF assms(1)] assms(2) by (simp add: token_ok_def block_at_def)
  then show ?thesis by (auto simp: slot_of_def virtual_block_def local_offset_def Let_def split: if_splits)
qed

lemma interleave_bound:
  fixes v :: int
  assumes "0 < I" and "0 < W" and "0 \<le> v" and "v < bs * W" and "I dvd bs"
  shows "v div (W * I) * I + v mod I < bs"
proof -
  obtain c where c: "bs = I * c" using assms(5) by (auto simp: dvd_def)
  have "v < c * (W * I)" using assms(4) c by (simp add: mult.commute mult.left_commute)
  then have "\<not> c \<le> v div (W * I)" using le_div_iff_int [of "W * I" c v] assms(1,2) by simp
  then have "(v div (W * I) + 1) * I \<le> c * I" using assms(1) by (intro mult_right_mono) auto
  then have "v div (W * I) * I + I \<le> c * I" by (simp only: distrib_right mult_1)
  moreover have "v mod I < I" using assms(1) by simp
  ultimately show ?thesis using c mult.commute [of I c] by linarith
qed

lemma interleave_inj:
  fixes v :: int
  assumes I: "0 < I" and W: "0 < W" and "v div I mod W = w div I mod W" and "v div (W * I) * I + v mod I = w div (W * I) * I + w mod I"
  shows "v = w"
proof -
  have q: "v div (W * I) = w div (W * I)" "v mod I = w mod I"
  proof -
    have "(x div (W * I) * I + x mod I) div I = x div (W * I)" "(x div (W * I) * I + x mod I) mod I = x mod I" for x
      using I by simp_all
    then show "v div (W * I) = w div (W * I)" "v mod I = w mod I" using assms(4) by metis+
  qed
  have "x = (x div (W * I) * W + x div I mod W) * I + x mod I" for x
  proof -
    have "x div (W * I) = x div I div W" using W I by (simp add: zdiv_zmult2_eq mult.commute)
    then show ?thesis by simp
  qed
  then show ?thesis using q assms(3) by metis
qed

lemma local_offset_range:
  assumes "table_ok bt" and "0 < cp_kv_cache_interleave_size bt" and "cp_kv_cache_interleave_size bt dvd bt_block_size bt" and "local_offset bt p = Some off"
  shows "0 \<le> off \<and> off < bt_block_size bt"
proof (cases "1 < cp_world_size bt")
  case True
  let ?v = "p mod (bt_block_size bt * cp_world_size bt)"
  have "0 < bt_block_size bt * cp_world_size bt" using True assms(1) by (simp add: table_ok_def)
  then have v: "0 \<le> ?v" "?v < bt_block_size bt * cp_world_size bt" by simp_all
  have off: "off = ?v div (cp_world_size bt * cp_kv_cache_interleave_size bt) * cp_kv_cache_interleave_size bt + ?v mod cp_kv_cache_interleave_size bt"
    using True assms(4) by (auto simp: local_offset_def virtual_block_def Let_def split: if_splits)
  have "0 \<le> off" unfolding off using v(1) assms(2) True by (simp add: pos_imp_zdiv_nonneg_iff)
  then show ?thesis using interleave_bound [OF assms(2) _ v assms(3)] True off by simp
next
  case False
  then show ?thesis using assms(1,4) by (auto simp: local_offset_def virtual_block_def table_ok_def)
qed

lemma local_offset_inj:
  assumes "table_ok bt" and "0 < cp_kv_cache_interleave_size bt" and "local_offset bt p = Some off" and "local_offset bt p' = Some off"
    and "p div virtual_block bt = p' div virtual_block bt"
  shows "p = p'"
proof -
  have "p mod virtual_block bt = p' mod virtual_block bt"
  proof (cases "1 < cp_world_size bt")
    case True
    let ?W = "cp_world_size bt" and ?I = "cp_kv_cache_interleave_size bt" and ?v = "p mod virtual_block bt" and ?w = "p' mod virtual_block bt"
    have "?v div ?I mod ?W = cp_rank bt" "?w div ?I mod ?W = cp_rank bt"
      "?v div (?W * ?I) * ?I + ?v mod ?I = off" "?w div (?W * ?I) * ?I + ?w mod ?I = off"
      using True assms(3,4) by (simp_all add: local_offset_def Let_def split: if_splits)
    moreover have "0 < ?W" using True by simp
    ultimately show ?thesis using interleave_inj [OF assms(2)] by metis
  next
    case False
    then show ?thesis using assms(3,4) by (simp add: local_offset_def)
  qed
  then show ?thesis using assms(5) by (metis div_mult_mod_eq)
qed


definition sample_groups :: cp_groups where
  "sample_groups = \<lparr>cp_pcp_world_size = 1, cp_pcp_rank = 0, cp_dcp_world_size = 2, cp_dcp_rank = 1\<rparr>"

definition sample_table :: "int \<Rightarrow> int \<Rightarrow> block_table" where
  "sample_table block_size kernel_block_size = projr (BlockTable sample_groups block_size 2 2 8 kernel_block_size 1)"


section \<open>Kernel blocks\<close>

text \<open>Row \<open>row\<close> holds the blocks \<open>ids\<close> of the scheduler, each as its kernel blocks.\<close>

definition holds_blocks :: "block_table \<Rightarrow> nat \<Rightarrow> int list \<Rightarrow> bool" where
  "holds_blocks bt row ids \<longleftrightarrow> row < length (bt_rows bt) \<and> num_blocks_per_row bt ! row = length ids * blocks_per_kv_block bt
     \<and> length ids * blocks_per_kv_block bt \<le> max_num_blocks_per_req bt
     \<and> take (length ids * blocks_per_kv_block bt) (bt_rows bt ! row) = map_to_kernel_blocks (blocks_per_kv_block bt) ids"

lemma map_to_kernel_alt: "0 < n \<Longrightarrow> map_to_kernel_blocks n ids = concat (map (\<lambda>b. map (\<lambda>j. b * int n + int j) [0..<n]) ids)"
  by (simp add: map_to_kernel_blocks_def concat_map_singleton)

lemma map_to_kernel_length: "0 < n \<Longrightarrow> length (map_to_kernel_blocks n ids) = length ids * n"
  by (simp add: map_to_kernel_alt length_concat comp_def sum_list_triv)

lemma map_to_kernel_append: "0 < n \<Longrightarrow> map_to_kernel_blocks n (ids @ ids') = map_to_kernel_blocks n ids @ map_to_kernel_blocks n ids'"
  by (simp add: map_to_kernel_alt)

lemma map_to_kernel_nth:
  assumes "0 < n" and "k < length ids * n"
  shows "map_to_kernel_blocks n ids ! k = ids ! (k div n) * int n + int (k mod n)"
proof -
  have d: "k div n < length ids" using assms by (simp add: less_mult_imp_div_less)
  have "concat (map (\<lambda>b. map (\<lambda>j. b * int n + int j) [0..<n]) ids) ! (k div n * n + k mod n)
      = map (\<lambda>b. map (\<lambda>j. b * int n + int j) [0..<n]) ids ! (k div n) ! (k mod n)"
    using assms(1) d by (intro flat_index(2)) auto
  then show ?thesis using d assms(1) by (simp add: map_to_kernel_alt)
qed

lemma append_row_ok:
  assumes ok: "table_ok bt" and held: "holds_blocks bt row ids" and room: "length (ids @ ids') * blocks_per_kv_block bt \<le> max_num_blocks_per_req bt"
  shows "\<exists>bt'. append_row ids' row bt = Inr bt' \<and> table_ok bt' \<and> holds_blocks bt' row (ids @ ids')
    \<and> bt' = bt\<lparr>num_blocks_per_row := num_blocks_per_row bt', bt_rows := bt_rows bt'\<rparr> \<and> length (bt_rows bt') = length (bt_rows bt)
    \<and> (\<forall>r. r \<noteq> row \<longrightarrow> bt_rows bt' ! r = bt_rows bt ! r \<and> num_blocks_per_row bt' ! r = num_blocks_per_row bt ! r)"
proof (cases "ids' = []")
  case True
  then show ?thesis using ok held by (simp add: append_row_def)
next
  case False
  let ?n = "blocks_per_kv_block bt" and ?old = "bt_rows bt ! row"
  define new where "new = map_to_kernel_blocks ?n ids'"
  have n: "0 < ?n" "\<not> use_hybrid_blocks bt \<longrightarrow> ?n = 1" using ok by (simp_all add: table_ok_def)
  have row: "row < length (bt_rows bt)" "row < length (num_blocks_per_row bt)" "length ?old = max_num_blocks_per_req bt"
    and start: "num_blocks_per_row bt ! row = length ids * ?n" "take (length ids * ?n) ?old = map_to_kernel_blocks ?n ids"
    using ok held by (auto simp: table_ok_def holds_blocks_def)
  have len: "length new = length ids' * ?n" using n by (simp add: new_def map_to_kernel_length)
  have fits: "length ids * ?n + length ids' * ?n \<le> length ?old" using room row(3) by (simp add: distrib_right)
  have ids: "(if use_hybrid_blocks bt then map_to_kernel_blocks ?n ids' else ids') = new"
    using n(2) by (simp add: new_def map_to_kernel_blocks_def)
  define row' where "row' = take (length ids * ?n) ?old @ new @ drop (length ids * ?n + length new) ?old"
  have assign: "assign_slice (length ids * ?n) new ?old = Inr row'" using fits len by (simp add: assign_slice_def row'_def Let_def)
  define bt' where "bt' = bt\<lparr>num_blocks_per_row := (num_blocks_per_row bt)[row := length ids * ?n + length new], bt_rows := (bt_rows bt)[row := row']\<rparr>"
  have run: "append_row ids' row bt = Inr bt'" using False row start(1) assign ids by (simp add: append_row_def Let_def bt'_def)
  have "length row' = max_num_blocks_per_req bt" using fits len row(3) by (simp add: row'_def)
  then have "table_ok bt'" using ok set_update_subset_insert [of "bt_rows bt" row row'] by (fastforce simp: table_ok_def bt'_def)
  moreover have "take (length (ids @ ids') * ?n) row' = map_to_kernel_blocks ?n (ids @ ids')"
    using fits len start(2) n(1) by (simp add: row'_def map_to_kernel_append new_def [symmetric] distrib_right map_to_kernel_length)
  then have "holds_blocks bt' row (ids @ ids')" using row room len by (simp add: holds_blocks_def bt'_def distrib_right)
  ultimately show ?thesis using run by (simp add: bt'_def)
qed


definition sample_table1 :: block_table where
  "sample_table1 = projr (BlockTable (sample_groups\<lparr>cp_dcp_world_size := 1, cp_dcp_rank := 0\<rparr>) 4 2 2 8 2 1)"


end
