(* ===== verification/Detokenizer.thy ===== *)
theory Detokenizer
  imports Prelude
begin

text \<open>
  Incremental detokenization and stop strings: \<open>vllm/v1/engine/detokenizer.py\<close> and
  \<open>vllm/tokenizers/detokenizer_utils.py\<close>.  A Python \<open>str\<close> is the list of its code points.  The decoding of one
  token is a parameter \<open>decode\<close> of the common part: it gets the tokens so far and a state of its own, which
  is the stream of the library \<open>tokenizers\<close> in the fast variant.  The slow variant is modelled over a
  tokenizer given by the record \<open>tokenizer_like\<close>.
\<close>

type_synonym ustr = "nat list"

section \<open>Searching\<close>

text \<open>\<open>text.find(sub, start)\<close>: the first position from \<open>start\<close> on, or \<open>-1\<close>; a negative start counts from the end.\<close>

definition str_find :: "ustr \<Rightarrow> ustr \<Rightarrow> int \<Rightarrow> int" where
  "str_find txt sub start =
     (let lo = nat (if start < 0 then start + int (length txt) else start) in
      case List.find (\<lambda>i. take (length sub) (drop i txt) = sub) [lo..<Suc (length txt - length sub)] of
        None \<Rightarrow> -1
      | Some i \<Rightarrow> int i)"

text \<open>The result is the stop string and the length to truncate to, \<open>-1\<close> for no truncation.\<close>

fun check_stop_list :: "ustr \<Rightarrow> nat \<Rightarrow> bool \<Rightarrow> ustr list \<Rightarrow> (ustr \<times> int) option" where
  "check_stop_list output_text new_char_count include_in_output [] = None"
| "check_stop_list output_text new_char_count include_in_output (stop_str # stops) =
     (let stop_index = str_find output_text stop_str (1 - int new_char_count - int (length stop_str)) in
      if stop_index = -1 then check_stop_list output_text new_char_count include_in_output stops
      else if include_in_output then
        (let stop_end = stop_index + int (length stop_str) in
         if int (length output_text) \<le> stop_end then Some (stop_str, -1) else Some (stop_str, stop_end))
      else Some (stop_str, stop_index))"

definition check_stop_strings :: "ustr \<Rightarrow> nat \<Rightarrow> ustr list \<Rightarrow> bool \<Rightarrow> (ustr \<times> int) option" where
  "check_stop_strings output_text new_char_count stops include_in_output =
     (if new_char_count = 0 \<or> stops = [] then None else check_stop_list output_text new_char_count include_in_output stops)"

section \<open>The detokenizer of a request\<close>

record 's detok =
  dt_token_ids :: "int list"
  dt_prompt_len :: nat
  stop_strings :: "ustr list"
  dt_min_tokens :: nat
  include_stop_str_in_output :: bool
  stop_buffer_length :: nat
  last_output_text_offset :: int
  output_text :: ustr
  decoder :: 's

definition BaseIncrementalDetokenizer :: "ustr list \<Rightarrow> nat \<Rightarrow> bool \<Rightarrow> 's \<Rightarrow> 's detok" where
  "BaseIncrementalDetokenizer stops min_tokens include_stop s =
     \<lparr>dt_token_ids = [], dt_prompt_len = 0, stop_strings = stops, dt_min_tokens = min_tokens, include_stop_str_in_output = include_stop,
      stop_buffer_length = (if stops \<noteq> [] \<and> \<not> include_stop then Max (length ` set stops) - 1 else 0),
      last_output_text_offset = 0, output_text = [], decoder = s\<rparr>"

text \<open>The slow variant keeps the tokens of the prompt in front.\<close>

definition output_token_ids_of :: "'s detok \<Rightarrow> int list" where
  "output_token_ids_of d = drop (dt_prompt_len d) (dt_token_ids d)"

definition detok_one :: "(int list \<Rightarrow> 's \<Rightarrow> (ustr \<times> 's) result) \<Rightarrow> int \<Rightarrow> 's detok \<times> nat \<Rightarrow> ('s detok \<times> nat) result" where
  "detok_one decode new_token_id = (\<lambda>(d, stop_check_offset).
     let d1 = d\<lparr>dt_token_ids := dt_token_ids d @ [new_token_id]\<rparr> in
     rbind (decode (dt_token_ids d1) (decoder d1)) (\<lambda>(txt, s).
       let d2 = d1\<lparr>output_text := output_text d1 @ txt, decoder := s\<rparr> in
       Inr (d2, if dt_min_tokens d2 \<noteq> 0 \<and> length (output_token_ids_of d2) \<le> dt_min_tokens d2
                then length (output_text d2) else stop_check_offset)))"

text \<open>The token that ended the request is not decoded when stop strings are excluded.\<close>

definition update_detok :: "(int list \<Rightarrow> 's \<Rightarrow> (ustr \<times> 's) result) \<Rightarrow> int list \<Rightarrow> bool \<Rightarrow> 's detok \<Rightarrow> (ustr option \<times> 's detok) result" where
  "update_detok decode new_token_ids stop_terminated d =
     (if new_token_ids = [] then Inr (None, d)
      else
        let skip = (stop_terminated \<and> \<not> include_stop_str_in_output d);
            decoded = (if skip then butlast new_token_ids else new_token_ids)
        in rbind (foldM (detok_one decode) decoded (d, length (output_text d))) (\<lambda>(d1, stop_check_offset).
             let d2 = (if skip then d1\<lparr>dt_token_ids := dt_token_ids d1 @ [last new_token_ids]\<rparr> else d1) in
             if stop_strings d2 \<noteq> [] \<and> dt_min_tokens d2 < length (output_token_ids_of d2) then
               (case check_stop_strings (output_text d2) (length (output_text d2) - stop_check_offset) (stop_strings d2) (include_stop_str_in_output d2) of
                  None \<Rightarrow> Inr (None, d2)
                | Some (stop_string, truncate_to) \<Rightarrow>
                    Inr (Some stop_string, if truncate_to \<noteq> -1 then d2\<lparr>output_text := take (nat truncate_to) (output_text d2)\<rparr> else d2))
             else Inr (None, d2)))"

definition get_next_output_text :: "bool \<Rightarrow> bool \<Rightarrow> 's detok \<Rightarrow> ustr \<times> 's detok" where
  "get_next_output_text finished delta d =
     (let buffer_length = (if finished then 0 else stop_buffer_length d) in
      if \<not> delta then (if buffer_length \<noteq> 0 then take (length (output_text d) - buffer_length) (output_text d) else output_text d, d)
      else
        let len = int (length (output_text d)) - int buffer_length;
            last_offset = last_output_text_offset d
        in if last_offset < len
           then (take (nat len - nat last_offset) (drop (nat last_offset) (output_text d)), d\<lparr>last_output_text_offset := len\<rparr>)
           else ([], d))"

section \<open>The slow variant\<close>

text \<open>What the code uses of a tokenizer; \<open>all_special_tokens\<close> and the added vocabulary are sets of tokens.\<close>

record tokenizer_like =
  vocab_len :: int
  tk_is_fast :: bool
  added_vocab :: "ustr list"
  all_special_tokens :: "ustr list"
  convert_ids_to_tokens :: "int list \<Rightarrow> bool \<Rightarrow> ustr option list"
  convert_tokens_to_string :: "ustr list \<Rightarrow> ustr"

definition replace_none_with_empty :: "ustr option list \<Rightarrow> ustr list" where
  "replace_none_with_empty tokens = map (\<lambda>t. case t of None \<Rightarrow> [] | Some x \<Rightarrow> x) tokens"

definition add_sub_text :: "tokenizer_like \<Rightarrow> bool \<Rightarrow> ustr \<Rightarrow> ustr list \<times> ustr list \<Rightarrow> ustr list \<times> ustr list" where
  "add_sub_text tk skip_special_tokens token = (\<lambda>(sub_texts, current).
     if skip_special_tokens \<and> token \<in> set (all_special_tokens tk) then (sub_texts, current)
     else if token \<in> set (added_vocab tk) then
       ((if current \<noteq> [] then sub_texts @ [convert_tokens_to_string tk current] else sub_texts) @ [token], [])
     else (sub_texts, current @ [token]))"

fun join_with :: "ustr \<Rightarrow> ustr list \<Rightarrow> ustr" where
  "join_with sep [] = []"
| "join_with sep [x] = x"
| "join_with sep (x # y # xs) = x @ sep @ join_with sep (y # xs)"

definition convert_tokens_with_added_encoders :: "tokenizer_like \<Rightarrow> ustr list \<Rightarrow> bool \<Rightarrow> bool \<Rightarrow> ustr" where
  "convert_tokens_with_added_encoders tk output_tokens skip_special_tokens spaces_between_special_tokens =
     (let (sub_texts, current) = fold (add_sub_text tk skip_special_tokens) output_tokens ([], []);
          all_texts = (if current \<noteq> [] then sub_texts @ [convert_tokens_to_string tk current] else sub_texts)
      in join_with (if spaces_between_special_tokens then [32] else []) all_texts)"

definition convert_prompt_ids_to_tokens :: "tokenizer_like \<Rightarrow> int list \<Rightarrow> bool \<Rightarrow> ustr list \<times> nat \<times> nat" where
  "convert_prompt_ids_to_tokens tk prompt_ids skip_special_tokens =
     (let new_tokens = convert_ids_to_tokens tk (drop (length prompt_ids - 7) prompt_ids) skip_special_tokens;
          read_offset = length new_tokens
      in (replace_none_with_empty new_tokens, read_offset - 5, read_offset))"

text \<open>The new tokens, the new text and the two offsets.  A text that ends in U+FFFD may be unfinished.  Tokens are
  \<open>None\<close> only for ids outside the vocabulary.\<close>

definition detokenize_incrementally ::
  "tokenizer_like \<Rightarrow> int list \<Rightarrow> ustr list option \<Rightarrow> nat \<Rightarrow> nat \<Rightarrow> bool \<Rightarrow> bool \<Rightarrow> ustr list \<times> ustr \<times> nat \<times> nat" where
  "detokenize_incrementally tk all_input_ids prev_tokens0 prefix0 read0 skip_special_tokens spaces_between_special_tokens =
     (let new_token_id = last all_input_ids;
          (prev_tokens, prefix_offset, read_offset) =
            (case prev_tokens0 of
               None \<Rightarrow> convert_prompt_ids_to_tokens tk (butlast all_input_ids) skip_special_tokens
             | Some ts \<Rightarrow> (ts, prefix0, read0));
          new_tokens0 = (if 0 \<le> new_token_id \<and> new_token_id < vocab_len tk
                         then replace_none_with_empty (convert_ids_to_tokens tk [new_token_id] skip_special_tokens) else [[]]);
          output_tokens = prev_tokens @ new_tokens0;
          new_tokens = (if prev_tokens0 = None then output_tokens else new_tokens0);
          conv = (if tk_is_fast tk \<or> added_vocab tk = [] then convert_tokens_to_string tk
                  else (\<lambda>ts. convert_tokens_with_added_encoders tk ts skip_special_tokens spaces_between_special_tokens));
          prefix_text = conv (drop prefix_offset (take read_offset output_tokens));
          new_text = conv (drop prefix_offset output_tokens)
      in if length new_text \<le> length prefix_text \<or> (new_text \<noteq> [] \<and> last new_text = 65533)
         then (new_tokens, [], prefix_offset, read_offset)
         else (new_tokens, drop (length prefix_text) new_text, read_offset, length output_tokens))"

text \<open>The state of \<open>SlowIncrementalDetokenizer\<close>.  For a prompt given by embeddings the constructor assigns
  \<open>read_offest\<close>, so the attribute \<open>read_offset\<close> does not exist: \<open>None\<close>.\<close>

record slow_state =
  sl_tokens :: "ustr list"
  prefix_offset :: nat
  read_offset :: "nat option"

definition slow_decode_next :: "tokenizer_like \<Rightarrow> bool \<Rightarrow> bool \<Rightarrow> int list \<Rightarrow> slow_state \<Rightarrow> (ustr \<times> slow_state) result" where
  "slow_decode_next tk skip_special_tokens spaces_between_special_tokens all_token_ids s =
     (case read_offset s of
        None \<Rightarrow> Inl AttributeError
      | Some r \<Rightarrow>
          let (new_tokens, decoded_text, p', r') =
            detokenize_incrementally tk all_token_ids (Some (sl_tokens s)) (prefix_offset s) r skip_special_tokens spaces_between_special_tokens
          in Inr (decoded_text, \<lparr>sl_tokens = sl_tokens s @ new_tokens, prefix_offset = p', read_offset = Some r'\<rparr>))"

text \<open>The prompt is given by its tokens or, without tokens, by the number of its embeddings.\<close>

definition SlowIncrementalDetokenizer :: "tokenizer_like \<Rightarrow> ustr list \<Rightarrow> nat \<Rightarrow> bool \<Rightarrow> bool \<Rightarrow> int list + nat \<Rightarrow> slow_state detok" where
  "SlowIncrementalDetokenizer tk stops min_tokens include_stop skip_special_tokens prompt =
     (let s = (case prompt of
                 Inl ids \<Rightarrow> (let (ts, p, r) = convert_prompt_ids_to_tokens tk ids skip_special_tokens
                            in \<lparr>sl_tokens = ts, prefix_offset = p, read_offset = Some r\<rparr>)
               | Inr n \<Rightarrow> \<lparr>sl_tokens = replicate n [], prefix_offset = 0, read_offset = None\<rparr>)
      in (BaseIncrementalDetokenizer stops min_tokens include_stop s)
           \<lparr>dt_prompt_len := (case prompt of Inl ids \<Rightarrow> length ids | Inr n \<Rightarrow> n),
            dt_token_ids := (case prompt of Inl ids \<Rightarrow> ids | Inr n \<Rightarrow> replicate n 0)\<rparr>)"

section \<open>Detokenizers\<close>

text \<open>Without a tokenizer, \<open>from_new_request\<close> takes the base class, which only collects the tokens.\<close>

datatype 's detokenizer = IncrementalDetokenizer "int list" | Incremental "'s detok"

fun d_output_token_ids :: "'s detokenizer \<Rightarrow> int list" where
  "d_output_token_ids (IncrementalDetokenizer token_ids) = token_ids"
| "d_output_token_ids (Incremental d) = output_token_ids_of d"

fun d_update :: "(int list \<Rightarrow> 's \<Rightarrow> (ustr \<times> 's) result) \<Rightarrow> int list \<Rightarrow> bool \<Rightarrow> 's detokenizer \<Rightarrow> (ustr option \<times> 's detokenizer) result" where
  "d_update decode new_token_ids stop_terminated (IncrementalDetokenizer token_ids) = Inr (None, IncrementalDetokenizer (token_ids @ new_token_ids))"
| "d_update decode new_token_ids stop_terminated (Incremental d) =
     rbind (update_detok decode new_token_ids stop_terminated d) (\<lambda>(ss, d1). Inr (ss, Incremental d1))"

fun d_get_next_output_text :: "bool \<Rightarrow> bool \<Rightarrow> 's detokenizer \<Rightarrow> ustr \<times> 's detokenizer" where
  "d_get_next_output_text finished delta (IncrementalDetokenizer token_ids) = ([], IncrementalDetokenizer token_ids)"
| "d_get_next_output_text finished delta (Incremental d) = (let (x, d1) = get_next_output_text finished delta d in (x, Incremental d1))"

section \<open>The search\<close>

definition occurs_at :: "ustr \<Rightarrow> ustr \<Rightarrow> nat \<Rightarrow> bool" where
  "occurs_at txt sub i \<longleftrightarrow> i + length sub \<le> length txt \<and> take (length sub) (drop i txt) = sub"

lemma occurs_at_take: "sub \<noteq> [] \<Longrightarrow> take (length sub) (drop i txt) = sub \<longleftrightarrow> occurs_at txt sub i"
  by (auto simp: occurs_at_def) (metis Suc_leI diff_diff_left le_diff_conv2 length_drop length_greater_0_conv length_take min.cobounded1
      nat_le_linear not_less_eq_eq zero_less_diff add.commute diff_is_0_eq)

lemma find_from: "(\<And>i. i < lo \<Longrightarrow> \<not> Q i) \<Longrightarrow> List.find Q [lo..<m] = List.find Q [0..<m]"
proof (cases "lo \<le> m")
  case True
  assume none: "\<And>i. i < lo \<Longrightarrow> \<not> Q i"
  have app: "List.find Q (xs @ ys) = (case List.find Q xs of None \<Rightarrow> List.find Q ys | Some x \<Rightarrow> Some x)" for xs ys
    by (induction xs) auto
  have "List.find Q [0..<lo] = None" using none by (simp add: find_None_iff)
  then show ?thesis using app [of "[0..<lo]" "[lo..<m]"] upt_split [OF True] by simp
next
  case False
  assume "\<And>i. i < lo \<Longrightarrow> \<not> Q i"
  then have "List.find Q [0..<m] = None" using False by (simp add: find_None_iff)
  then show ?thesis using False by simp
qed

lemma find_SomeD: "List.find Q xs = Some x \<Longrightarrow> x \<in> set xs \<and> Q x"
  by (induction xs) (auto split: if_splits)

lemma str_find_ge:
  assumes "str_find txt sub start = i" and "i \<noteq> -1"
  shows "0 \<le> i" and "start < 0 \<Longrightarrow> start + int (length txt) \<le> i"
proof -
  obtain k where k: "List.find (\<lambda>i. take (length sub) (drop i txt) = sub)
      [nat (if start < 0 then start + int (length txt) else start)..<Suc (length txt - length sub)] = Some k" "i = int k"
    using assms by (auto simp: str_find_def Let_def split: option.splits)
  then show "0 \<le> i" "start < 0 \<Longrightarrow> start + int (length txt) \<le> i" using find_SomeD [OF k(1)] by auto
qed

text \<open>Starting where an occurrence that reaches into the new text can start loses nothing.\<close>

lemma str_find_incremental:
  assumes "sub \<noteq> []" and "new \<noteq> []" and "\<And>i. \<not> occurs_at old sub i"
  shows "str_find (old @ new) sub (1 - int (length new) - int (length sub)) = str_find (old @ new) sub 0"
proof -
  have neg: "1 - int (length new) - int (length sub) < 0" using assms(1,2) by (cases new; cases sub) auto
  define lo where "lo = nat (1 - int (length new) - int (length sub) + int (length (old @ new)))"
  have "\<not> take (length sub) (drop i (old @ new)) = sub" if i: "i < lo" for i
  proof
    assume t: "take (length sub) (drop i (old @ new)) = sub"
    have "i + length sub \<le> length old" using i by (simp add: lo_def)
    then have "occurs_at old sub i" using t by (simp add: occurs_at_def)
    then show False using assms(3) by blast
  qed
  then have "List.find (\<lambda>i. take (length sub) (drop i (old @ new)) = sub) [lo..<m] = List.find (\<lambda>i. take (length sub) (drop i (old @ new)) = sub) [0..<m]" for m
    by (rule find_from)
  then show ?thesis unfolding str_find_def Let_def lo_def using neg by (simp only: if_True if_False nat_0 less_irrefl)
qed

lemma check_stop_list_incremental:
  assumes "\<forall>s \<in> set stops. s \<noteq> [] \<and> (\<forall>i. \<not> occurs_at old s i)" and "new \<noteq> []"
  shows "check_stop_list (old @ new) (length new) incl stops
    = (case List.find (\<lambda>s. str_find (old @ new) s 0 \<noteq> -1) stops of
         None \<Rightarrow> None
       | Some s \<Rightarrow>
           (let first = str_find (old @ new) s 0; stop_end = first + int (length s) in
            Some (s, if \<not> incl then first else if int (length (old @ new)) \<le> stop_end then -1 else stop_end)))"
  using assms(1)
proof (induction stops)
  case (Cons s stops)
  then have "str_find (old @ new) s (1 - int (length new) - int (length s)) = str_find (old @ new) s 0"
    using assms(2) by (intro str_find_incremental) auto
  then show ?case using Cons by (simp add: Let_def)
qed simp

text \<open>C35: looking only at the new text finds every stop string.  If no stop string occurs in the text before, the
  incremental check gives what a search of the whole text gives: the first stop string of the list that occurs, cut
  before or after its first occurrence.\<close>

theorem stop_check_is_full_search:
  assumes "\<forall>s \<in> set stops. s \<noteq> [] \<and> (\<forall>i. \<not> occurs_at old s i)"
  shows "check_stop_strings (old @ new) (length new) stops incl
    = (case List.find (\<lambda>s. str_find (old @ new) s 0 \<noteq> -1) stops of
         None \<Rightarrow> None
       | Some s \<Rightarrow>
           (let first = str_find (old @ new) s 0; stop_end = first + int (length s) in
            Some (s, if \<not> incl then first else if int (length (old @ new)) \<le> stop_end then -1 else stop_end)))"
proof (cases "new = []")
  case True
  have "str_find old s 0 = -1" if s: "s \<in> set stops" for s
  proof -
    have "s \<noteq> []" "\<And>i. \<not> occurs_at old s i" using assms s by auto
    then have "List.find (\<lambda>i. take (length s) (drop i old) = s) [0..<m] = None" for m
      using occurs_at_take [of s] by (simp add: find_None_iff)
    then show ?thesis by (simp add: str_find_def del: upt_Suc)
  qed
  then have "List.find (\<lambda>s. str_find (old @ new) s 0 \<noteq> -1) stops = None" using True by (simp add: find_None_iff)
  then show ?thesis using True by (simp add: check_stop_strings_def)
next
  case False
  then show ?thesis using check_stop_list_incremental [OF assms False]
    by (cases stops) (simp_all add: check_stop_strings_def)
qed

theorem stop_check_is_full_search_witness:
  "check_stop_strings ([1, 2, 3] @ [4, 5]) 2 [[9], [3, 4]] False = Some ([3, 4], 2)"
proof -
  have "\<forall>s \<in> set [[9], [3, 4]]. s \<noteq> [] \<and> (\<forall>i. \<not> occurs_at [1, 2, 3] s i)"
  proof -
    have "\<not> occurs_at [1, 2, 3] [9] i" "\<not> occurs_at [1, 2, 3] [3, 4] i" for i
      by (cases i; cases "i - 1"; auto simp: occurs_at_def drop_Cons' take_Cons')+
    then show ?thesis by simp
  qed
  note eq = stop_check_is_full_search [OF this, of "[4, 5]" False]
  have f: "str_find ([1, 2, 3] @ [4, 5]) [9] 0 = -1" "str_find ([1, 2, 3] @ [4, 5]) [3, 4] 0 = 2" by code_simp+
  have l: "length ([4, 5] :: ustr) = 2" by simp
  have "(2 :: int) \<noteq> -1" by simp
  then show ?thesis using eq by (simp only: find.simps f l Let_def option.case not_True_eq_False not_False_eq_True if_True if_False simp_thms)
qed

section \<open>What has been sent stays true\<close>

definition detok_config :: "'s detok \<Rightarrow> 's detok \<Rightarrow> bool" where
  "detok_config d d' \<longleftrightarrow> stop_strings d' = stop_strings d \<and> include_stop_str_in_output d' = include_stop_str_in_output d
     \<and> stop_buffer_length d' = stop_buffer_length d \<and> last_output_text_offset d' = last_output_text_offset d"

text \<open>Decoding only appends, and the position from which stop strings count stays in the new text.\<close>

definition detok_appended :: "'s detok \<Rightarrow> 's detok \<times> nat \<Rightarrow> bool" where
  "detok_appended d = (\<lambda>(d', p). (\<exists>x. output_text d' = output_text d @ x) \<and> detok_config d d'
     \<and> length (output_text d) \<le> p \<and> p \<le> length (output_text d'))"

lemma detok_one_appends:
  "detok_appended d dp \<Longrightarrow> detok_one decode i dp = Inr dp' \<Longrightarrow> detok_appended d dp'"
  by (cases dp) (auto simp: detok_appended_def detok_one_def Let_def detok_config_def)

lemma detok_all_append:
  assumes "foldM (detok_one decode) ids (d, length (output_text d)) = Inr dp"
  shows "detok_appended d dp"
  by (rule foldM_invariant [where P = "detok_appended d", OF detok_one_appends _ assms])
    (auto simp: detok_appended_def detok_config_def)

lemma check_stop_list_cut:
  assumes "check_stop_list txt n incl stops = Some (s, t)" and "t \<noteq> -1" and "0 < n" and "\<forall>s \<in> set stops. s \<noteq> []"
  shows "s \<in> set stops \<and> 0 \<le> t \<and> int (length txt) - int n + 1 \<le> (if incl then t else t + int (length s))"
  using assms
proof (induction stops)
  case (Cons a stops)
  let ?start = "1 - int n - int (length a)"
  have neg: "?start < 0" using Cons.prems by (cases a) auto
  show ?case
  proof (cases "str_find txt a ?start = -1")
    case True
    then show ?thesis using Cons by (simp add: Let_def)
  next
    case False
    note ge = str_find_ge [OF refl False]
    show ?thesis using Cons.prems False ge(1) ge(2) [OF neg] by (auto simp: Let_def split: if_splits)
  qed
qed simp

lemma check_stop_strings_cut:
  assumes "check_stop_strings txt (length txt - p) stops incl = Some (s, t)" and "t \<noteq> -1" and "p \<le> length txt" and "\<forall>s \<in> set stops. s \<noteq> []"
  shows "s \<in> set stops \<and> 0 \<le> t \<and> int p + 1 \<le> (if incl then t else t + int (length s))"
proof -
  have new: "0 < length txt - p" and list: "check_stop_list txt (length txt - p) incl stops = Some (s, t)"
    using assms(1) by (auto simp: check_stop_strings_def split: if_splits)
  show ?thesis using check_stop_list_cut [OF list assms(2) new assms(4)] assms(3) by simp
qed

text \<open>The text is appended to, or cut where nothing sent before is lost.\<close>

definition detok_wf :: "'s detok \<Rightarrow> bool" where
  "detok_wf d \<longleftrightarrow> (\<forall>s \<in> set (stop_strings d). s \<noteq> [])
     \<and> (\<not> include_stop_str_in_output d \<longrightarrow> (\<forall>s \<in> set (stop_strings d). length s \<le> Suc (stop_buffer_length d)))"

lemma update_detok_text:
  assumes "update_detok decode ids st d = Inr (ss, d')" and wf: "detok_wf d"
  shows "detok_config d d'"
    and "\<exists>x. output_text d' = output_text d @ x
       \<or> ss \<noteq> None \<and> (\<exists>t. output_text d' = take t (output_text d @ x) \<and> length (output_text d) \<le> t + stop_buffer_length d)"
proof -
  consider (none) "ids = []" | (some) "ids \<noteq> []" by blast
  then have "detok_config d d' \<and> (\<exists>x. output_text d' = output_text d @ x
       \<or> ss \<noteq> None \<and> (\<exists>t. output_text d' = take t (output_text d @ x) \<and> length (output_text d) \<le> t + stop_buffer_length d))"
  proof cases
    case none
    then show ?thesis using assms(1) by (simp add: update_detok_def detok_config_def)
  next
    case some
    let ?skip = "st \<and> \<not> include_stop_str_in_output d"
    obtain d1 p where fold: "foldM (detok_one decode) (if ?skip then butlast ids else ids) (d, length (output_text d)) = Inr (d1, p)"
      using assms(1) some by (auto simp: update_detok_def Let_def split: if_splits)
    note ap = detok_all_append [OF fold]
    define d2 where "d2 = (if ?skip then d1\<lparr>dt_token_ids := dt_token_ids d1 @ [last ids]\<rparr> else d1)"
    obtain x where x: "output_text d2 = output_text d @ x" and cfg: "detok_config d d2"
      and p: "length (output_text d) \<le> p" "p \<le> length (output_text d2)"
      using ap by (auto simp: detok_appended_def d2_def detok_config_def)
    have e: "update_detok decode ids st d = (if stop_strings d2 \<noteq> [] \<and> dt_min_tokens d2 < length (output_token_ids_of d2) then
         (case check_stop_strings (output_text d2) (length (output_text d2) - p) (stop_strings d2) (include_stop_str_in_output d2) of
            None \<Rightarrow> Inr (None, d2)
          | Some (stop_string, truncate_to) \<Rightarrow>
              Inr (Some stop_string, if truncate_to \<noteq> -1 then d2\<lparr>output_text := take (nat truncate_to) (output_text d2)\<rparr> else d2))
       else Inr (None, d2))"
        unfolding update_detok_def Let_def fold d2_def by (simp only: some fold rbind.simps if_False prod.case)
    note res = trans [OF e [symmetric] assms(1)]
    show ?thesis
    proof (cases "d' = d2")
      case True
      then show ?thesis using x cfg by auto
    next
      case False
      then obtain s t where stop: "check_stop_strings (output_text d2) (length (output_text d2) - p) (stop_strings d2) (include_stop_str_in_output d2) = Some (s, t)"
        and t: "t \<noteq> -1" and d': "d' = d2\<lparr>output_text := take (nat t) (output_text d2)\<rparr>" and ss: "ss = Some s"
        using res by (auto split: if_splits option.splits prod.splits)
      have "\<forall>s \<in> set (stop_strings d2). s \<noteq> []" using wf cfg by (simp add: detok_wf_def detok_config_def)
      note c = check_stop_strings_cut [OF stop t p(2) this]
      then have cut: "s \<in> set (stop_strings d)" "0 \<le> t" "int p + 1 \<le> (if include_stop_str_in_output d then t else t + int (length s))"
        using cfg by (auto simp: detok_config_def)
      moreover have "\<not> include_stop_str_in_output d \<Longrightarrow> length s \<le> Suc (stop_buffer_length d)" using cut wf by (simp add: detok_wf_def)
      ultimately have "length (output_text d) \<le> nat t + stop_buffer_length d" using p(1) cut by (auto split: if_splits)
      then show ?thesis using d' ss x cfg by (auto simp: detok_config_def)
    qed
  qed
  then show "detok_config d d'" "\<exists>x. output_text d' = output_text d @ x
       \<or> ss \<noteq> None \<and> (\<exists>t. output_text d' = take t (output_text d @ x) \<and> length (output_text d) \<le> t + stop_buffer_length d)" by blast+
qed

text \<open>\<open>sent\<close> is what the client has.  Unless it is all, the buffer that a stop string may cut away is held back.\<close>

definition sent_ok :: "ustr \<Rightarrow> 's detok \<Rightarrow> bool" where
  "sent_ok sent d \<longleftrightarrow> detok_wf d \<and> last_output_text_offset d = int (length sent) \<and> sent = take (length sent) (output_text d)
     \<and> (sent = [] \<or> length sent + stop_buffer_length d \<le> length (output_text d))"

lemma sent_ok_update:
  assumes "sent_ok sent d" and "update_detok decode ids st d = Inr (ss, d')"
  shows "sent = take (length sent) (output_text d')" and "length sent \<le> length (output_text d')" and "ss = None \<Longrightarrow> sent_ok sent d'"
proof -
  have wf: "detok_wf d" using assms(1) by (simp add: sent_ok_def)
  note u = update_detok_text [OF assms(2) wf]
  have sent: "sent = take (length sent) (output_text d)" "sent = [] \<or> length sent + stop_buffer_length d \<le> length (output_text d)"
    using assms(1) by (auto simp: sent_ok_def)
  then have le: "length sent \<le> length (output_text d)" by auto
  have "sent = take (length sent) (output_text d') \<and> length sent \<le> length (output_text d')"
    using u(2)
  proof (elim exE disjE conjE)
    fix x
    assume "output_text d' = output_text d @ x"
    then show ?thesis using sent le by simp
  next
    fix x t
    assume t: "output_text d' = take t (output_text d @ x)" "length (output_text d) \<le> t + stop_buffer_length d"
    then have "length sent \<le> t" using sent(2) by auto
    then show ?thesis using t(1) sent(1) le by (simp add: min_def)
  qed
  then show "sent = take (length sent) (output_text d')" "length sent \<le> length (output_text d')" by simp_all
  then show "sent_ok sent d'" if "ss = None"
    using u that assms(1) by (auto simp: sent_ok_def detok_wf_def detok_config_def)
qed

lemma next_text_finished:
  assumes "get_next_output_text True True d = (w, d')" and "last_output_text_offset d = int (length sent)"
    and "sent = take (length sent) (output_text d)" and "length sent \<le> length (output_text d)"
  shows "sent @ w = output_text d'"
  using assms append_take_drop_id [of "length sent" "output_text d"]
  by (auto simp: get_next_output_text_def Let_def split: if_splits)

lemma next_text_sent:
  assumes "sent_ok sent d" and nt: "get_next_output_text False True d = (w, d')"
  shows "sent_ok (sent @ w) d'"
proof -
  have off: "last_output_text_offset d = int (length sent)" and s: "sent = take (length sent) (output_text d)"
    using assms(1) by (simp_all add: sent_ok_def)
  show ?thesis
  proof (cases "int (length sent) < int (length (output_text d)) - int (stop_buffer_length d)")
    case True
    let ?n = "length (output_text d) - stop_buffer_length d"
    have "w = take (?n - length sent) (drop (length sent) (output_text d))" "d' = d\<lparr>last_output_text_offset := int ?n\<rparr>"
      using nt True off by (auto simp: get_next_output_text_def Let_def nat_diff_distrib' of_nat_diff)
    moreover have "take ?n (output_text d) = take (length sent) (output_text d) @ take (?n - length sent) (drop (length sent) (output_text d))"
      using True take_add [of "length sent" "?n - length sent" "output_text d"] by simp
    ultimately show ?thesis using assms(1) s True by (auto simp: sent_ok_def detok_wf_def)
  next
    case False
    then have "w = [] \<and> d' = d" using nt off by (auto simp: get_next_output_text_def Let_def split: if_splits)
    then show ?thesis using assms(1) by simp
  qed
qed

lemma fresh_sent_ok:
  assumes "\<forall>s \<in> set stops. s \<noteq> []"
  shows "sent_ok [] ((BaseIncrementalDetokenizer stops min_tokens incl s)\<lparr>dt_prompt_len := n, dt_token_ids := ids\<rparr>)"
proof -
  have "length x \<le> Suc (Max (length ` set stops) - 1)" if "x \<in> set stops" for x
  proof -
    have "length x \<le> Max (length ` set stops)" using that by (intro Max_ge) auto
    then show ?thesis by linarith
  qed
  then show ?thesis using assms by (auto simp: sent_ok_def detok_wf_def BaseIncrementalDetokenizer_def)
qed

text \<open>No token is lost.\<close>

lemma foldM_detok_tokens:
  "foldM (detok_one decode) ids (d, p) = Inr (d', p') \<Longrightarrow> dt_token_ids d' = dt_token_ids d @ ids \<and> dt_prompt_len d' = dt_prompt_len d"
proof (induction ids arbitrary: d p)
  case (Cons i ids)
  then obtain d1 p1 where one: "detok_one decode i (d, p) = Inr (d1, p1)" and rest: "foldM (detok_one decode) ids (d1, p1) = Inr (d', p')" by auto
  have "dt_token_ids d1 = dt_token_ids d @ [i] \<and> dt_prompt_len d1 = dt_prompt_len d" using one by (auto simp: detok_one_def Let_def)
  then show ?case using Cons.IH [OF rest] by simp
qed simp

lemma update_detok_tokens:
  assumes "update_detok decode ids st d = Inr (ss, d')"
  shows "dt_token_ids d' = dt_token_ids d @ ids \<and> dt_prompt_len d' = dt_prompt_len d"
proof (cases "ids = []")
  case True
  then show ?thesis using assms by (simp add: update_detok_def)
next
  case False
  let ?skip = "st \<and> \<not> include_stop_str_in_output d"
  obtain d1 p where fold: "foldM (detok_one decode) (if ?skip then butlast ids else ids) (d, length (output_text d)) = Inr (d1, p)"
    using assms False by (auto simp: update_detok_def Let_def split: if_splits)
  then have "dt_token_ids (if ?skip then d1\<lparr>dt_token_ids := dt_token_ids d1 @ [last ids]\<rparr> else d1) = dt_token_ids d @ ids
      \<and> dt_prompt_len d1 = dt_prompt_len d"
    using foldM_detok_tokens [OF fold] False by simp
  then show ?thesis using assms False fold by (auto simp: update_detok_def Let_def split: if_splits option.splits prod.splits)
qed

text \<open>A prompt given by embeddings cannot be decoded by the slow variant.\<close>

lemma slow_embeds_prompt_fails:
  "update_detok (slow_decode_next tk skip spaces) [i] False
     (SlowIncrementalDetokenizer tk stops min_tokens incl skip (Inr n)) = Inl AttributeError"
  by (simp add: SlowIncrementalDetokenizer_def BaseIncrementalDetokenizer_def update_detok_def detok_one_def slow_decode_next_def Let_def)

end
