(* ===== verification/Output_Processor.thy ===== *)
theory Output_Processor
  imports Detokenizer Sched_Update
begin

text \<open>
  The front end behind the engine: \<open>vllm/v1/engine/output_processor.py\<close> and \<open>parallel_sampling.py\<close>, the merging of
  outputs in \<open>vllm/outputs.py\<close> and the fan-out of \<open>LLMEngine.add_request\<close>.  Log probabilities, statistics and
  tracing are left out.  Objects that several others refer to are reached by name: a \<open>ParentRequest\<close> by its request
  id, a \<open>RequestOutputCollector\<close> by a number.
\<close>

section \<open>Outputs\<close>

datatype request_output_kind = CUMULATIVE | DELTA | FINAL_ONLY

datatype stop_value = StopToken int | StopString ustr

record completion_output =
  co_index :: nat
  co_text :: ustr
  co_token_ids :: "int list"
  co_finish_reason :: "finish_reason option"
  co_stop_reason :: "stop_value option"

text \<open>\<open>outputs\<close> can hold \<open>None\<close>: the slots of \<open>output_aggregator\<close> start with it.\<close>

record request_output =
  ro_request_id :: string
  ro_prompt_token_ids :: "int list option"
  ro_outputs :: "completion_output option list"
  ro_finished :: bool
  ro_num_cached_tokens :: int

record pooling_request_output =
  po_request_id :: string
  po_outputs :: string
  po_num_cached_tokens :: int
  po_prompt_token_ids :: "int list"
  po_finished :: bool

datatype client_output = RequestOutput request_output | PoolingRequestOutput pooling_request_output

definition merge_completion :: "completion_output \<Rightarrow> completion_output \<Rightarrow> completion_output" where
  "merge_completion completion next_completion =
     completion\<lparr>co_text := co_text completion @ co_text next_completion,
       co_token_ids := co_token_ids completion @ co_token_ids next_completion,
       co_finish_reason := co_finish_reason next_completion, co_stop_reason := co_stop_reason next_completion\<rparr>"

text \<open>The inner loop of \<open>RequestOutput.add\<close>; \<open>None\<close> has no attribute \<open>index\<close>.\<close>

fun add_completion :: "bool \<Rightarrow> completion_output option \<Rightarrow> completion_output option list \<Rightarrow> completion_output option list result" where
  "add_completion aggregate next_completion [] = Inr [next_completion]"
| "add_completion aggregate next_completion (completion # outputs) =
     (case (completion, next_completion) of
        (Some c, Some n) \<Rightarrow>
          if co_index c = co_index n then Inr (Some (if aggregate then merge_completion c n else n) # outputs)
          else rbind (add_completion aggregate next_completion outputs) (\<lambda>rest. Inr (completion # rest))
      | _ \<Rightarrow> Inl AttributeError)"

definition add_output :: "bool \<Rightarrow> request_output \<Rightarrow> request_output \<Rightarrow> request_output result" where
  "add_output aggregate next_output self =
     rbind (foldM (add_completion aggregate) (ro_outputs next_output) (ro_outputs self)) (\<lambda>outputs.
       Inr (self\<lparr>ro_finished := ro_finished self \<or> ro_finished next_output, ro_outputs := outputs\<rparr>))"

section \<open>The collector of a request\<close>

text \<open>The event \<open>ready\<close> is kept beside the pending output.\<close>

record collector =
  aggregate :: bool
  pending :: "(error + client_output) option"
  ready :: bool

definition RequestOutputCollector :: "request_output_kind \<Rightarrow> collector" where
  "RequestOutputCollector output_kind = \<lparr>aggregate = (output_kind = DELTA), pending = None, ready = False\<rparr>"

definition put :: "error + client_output \<Rightarrow> collector \<Rightarrow> collector result" where
  "put out c =
     (case (pending c, out) of
        (None, _) \<Rightarrow> Inr (c\<lparr>pending := Some out, ready := True\<rparr>)
      | (_, Inl e) \<Rightarrow> Inr (c\<lparr>pending := Some out, ready := True\<rparr>)
      | (Some (Inr (RequestOutput old)), Inr (RequestOutput new)) \<Rightarrow>
          rbind (add_output (aggregate c) new old) (\<lambda>merged. Inr (c\<lparr>pending := Some (Inr (RequestOutput merged))\<rparr>))
      | (Some (Inr (PoolingRequestOutput old)), Inr (PoolingRequestOutput new)) \<Rightarrow>
          Inr (c\<lparr>pending := Some (Inr (PoolingRequestOutput new))\<rparr>)
      | _ \<Rightarrow> Inr c)"

text \<open>The result is the output, or the exception to raise; without an output nothing changes.  \<open>get\<close> waits until
  there is an output and then does the same.\<close>

definition get_nowait :: "collector \<Rightarrow> (error + client_output) option \<times> collector" where
  "get_nowait c = (case pending c of None \<Rightarrow> (None, c) | Some out \<Rightarrow> (Some out, c\<lparr>pending := None, ready := False\<rparr>))"

section \<open>Parallel sampling\<close>

record child_params =
  sp_n :: nat
  sp_seed :: "int option"
  sp_output_kind :: request_output_kind

text \<open>\<open>child_requests\<close> is a set; the list keeps its elements in the order of insertion.\<close>

record parent_request =
  pr_request_id :: string
  pr_external_req_id :: string
  pr_sampling_params :: child_params
  child_requests :: "string list"
  output_aggregator :: "completion_output option list"
  max_num_generation_tokens :: int
  cached_child_sampling_params :: "child_params option"

definition ParentRequest :: "string \<Rightarrow> string \<Rightarrow> child_params \<Rightarrow> parent_request" where
  "ParentRequest rid ext params =
     \<lparr>pr_request_id = rid, pr_external_req_id = ext, pr_sampling_params = params, child_requests = [],
      output_aggregator = (if sp_output_kind params = FINAL_ONLY then replicate (sp_n params) None else []),
      max_num_generation_tokens = 0, cached_child_sampling_params = None\<rparr>"

definition get_child_sampling_params :: "nat \<Rightarrow> parent_request \<Rightarrow> child_params \<times> parent_request" where
  "get_child_sampling_params idx p =
     (case cached_child_sampling_params p of
        Some params \<Rightarrow> (params, p)
      | None \<Rightarrow>
          let params = (pr_sampling_params p)\<lparr>sp_n := 1\<rparr> in
          case sp_seed (pr_sampling_params p) of
            None \<Rightarrow> (params, p\<lparr>cached_child_sampling_params := Some params\<rparr>)
          | Some seed \<Rightarrow> (params\<lparr>sp_seed := Some (seed + int idx)\<rparr>, p))"

fun decimal :: "nat \<Rightarrow> string" where
  "decimal n = (if n < 10 then [char_of (48 + n)] else decimal (n div 10) @ [char_of (48 + n mod 10)])"

declare decimal.simps [simp del]

definition child_req_id :: "nat \<Rightarrow> string \<Rightarrow> string" where
  "child_req_id idx rid = decimal idx @ ''_'' @ rid"

definition get_child_info :: "nat \<Rightarrow> parent_request \<Rightarrow> (string \<times> child_params) \<times> parent_request" where
  "get_child_info idx p =
     (let cid = child_req_id idx (pr_request_id p);
          p1 = (if cid \<in> set (child_requests p) then p else p\<lparr>child_requests := child_requests p @ [cid]\<rparr>);
          (params, p2) = get_child_sampling_params idx p1
      in ((cid, params), p2))"

definition get_outputs :: "string \<Rightarrow> completion_output \<Rightarrow> parent_request \<Rightarrow> ((completion_output option list \<times> bool) \<times> parent_request) result" where
  "get_outputs child_request_id completion p =
     (let done = (co_finish_reason completion \<noteq> None);
          already = (done \<and> child_request_id \<notin> set (child_requests p));
          p1 = (if done then p\<lparr>child_requests := removeAll child_request_id (child_requests p)\<rparr> else p);
          finished = (child_requests p1 = [])
      in if sp_output_kind (pr_sampling_params p) \<noteq> FINAL_ONLY
         then Inr ((if already then [] else [Some completion], finished), p1)
         else if length (output_aggregator p) \<le> co_index completion then Inl IndexError
         else
           let p2 = p1\<lparr>output_aggregator := (output_aggregator p)[co_index completion := Some completion]\<rparr>
           in Inr ((if child_requests p1 \<noteq> [] then [] else output_aggregator p2, finished), p2))"

definition observe_num_generation_tokens :: "int \<Rightarrow> parent_request \<Rightarrow> int \<times> parent_request" where
  "observe_num_generation_tokens num_generation_tokens p =
     (let m = max num_generation_tokens (max_num_generation_tokens p) in (m, p\<lparr>max_num_generation_tokens := m\<rparr>))"

section \<open>The state of a request\<close>

record 's request_state =
  rs_request_id :: string
  rs_external_req_id :: string
  rs_parent_req :: "string option"
  rs_request_index :: nat
  rs_output_kind :: request_output_kind
  rs_prompt_token_ids :: "int list option"
  rs_prompt_embeds :: "nat option"
  rs_detokenizer :: "'s detokenizer option"
  is_prefilling :: bool
  rs_queue :: "nat option"
  rs_num_cached_tokens :: int
  rs_stream_interval :: nat
  sent_tokens_offset :: nat

type_synonym parents = "string \<Rightarrow> parent_request option"

definition new_completion_output ::
  "int list \<Rightarrow> finish_reason option \<Rightarrow> stop_value option \<Rightarrow> 's request_state \<Rightarrow> (completion_output \<times> 's request_state) result" where
  "new_completion_output new_token_ids finish_reason stop_rsn rs =
     (case rs_detokenizer rs of
        None \<Rightarrow> Inl AssertionError
      | Some d \<Rightarrow>
          let finished = (finish_reason \<noteq> None);
              delta = (rs_output_kind rs = DELTA);
              (txt, d1) = d_get_next_output_text finished delta d
          in Inr (\<lparr>co_index = rs_request_index rs, co_text = txt,
                   co_token_ids = (if delta then new_token_ids else d_output_token_ids d),
                   co_finish_reason = finish_reason, co_stop_reason = (if finished then stop_rsn else None)\<rparr>,
                  rs\<lparr>rs_detokenizer := Some d1\<rparr>))"

definition new_request_output :: "string \<Rightarrow> completion_output option list \<Rightarrow> bool \<Rightarrow> 's request_state \<Rightarrow> client_output" where
  "new_request_output ext outputs finished rs =
     RequestOutput \<lparr>ro_request_id = ext,
       ro_prompt_token_ids = (case (rs_prompt_token_ids rs, rs_prompt_embeds rs) of (None, Some n) \<Rightarrow> Some (replicate n 0) | (ids, _) \<Rightarrow> ids),
       ro_outputs = outputs, ro_finished = finished, ro_num_cached_tokens = rs_num_cached_tokens rs\<rparr>"

definition new_pooling_request_output :: "string \<Rightarrow> string \<Rightarrow> bool \<Rightarrow> 's request_state \<Rightarrow> client_output result" where
  "new_pooling_request_output ext data finished rs =
     (case rs_prompt_token_ids rs of
        None \<Rightarrow> Inl AssertionError
      | Some ids \<Rightarrow> Inr (PoolingRequestOutput \<lparr>po_request_id = ext, po_outputs = data, po_num_cached_tokens = rs_num_cached_tokens rs,
                         po_prompt_token_ids = ids, po_finished = finished\<rparr>))"

text \<open>The tokens to send, or \<open>None\<close> when no output is due (\<open>stream_interval\<close>).\<close>

definition stream_tokens :: "int list \<Rightarrow> bool \<Rightarrow> 's request_state \<Rightarrow> (int list option \<times> 's request_state) result" where
  "stream_tokens new_token_ids finished rs =
     (if rs_stream_interval rs \<le> 1 then Inr (Some new_token_ids, rs)
      else case rs_detokenizer rs of
        None \<Rightarrow> Inl AssertionError
      | Some d \<Rightarrow>
          let ids = d_output_token_ids d in
          if \<not> (finished \<or> sent_tokens_offset rs = 0 \<or> int (rs_stream_interval rs) \<le> int (length ids) - int (sent_tokens_offset rs))
          then Inr (None, rs)
          else if rs_output_kind rs = DELTA
          then Inr (Some (drop (sent_tokens_offset rs) ids), rs\<lparr>sent_tokens_offset := length ids\<rparr>)
          else Inr (Some new_token_ids, rs))"

text \<open>A due output, with the tokens to send.\<close>

definition due_output ::
  "int list \<Rightarrow> string option \<Rightarrow> finish_reason option \<Rightarrow> stop_value option \<Rightarrow> 's request_state \<Rightarrow> parents
    \<Rightarrow> (client_output option \<times> 's request_state \<times> parents) result" where
  "due_output new_token_ids pooling_output finish_reason stop_rsn rs ps =
     (let finished = (finish_reason \<noteq> None) in
      case pooling_output of
        Some data \<Rightarrow> rbind (new_pooling_request_output (rs_external_req_id rs) data finished rs) (\<lambda>out. Inr (Some out, rs, ps))
      | None \<Rightarrow>
          rbind (new_completion_output new_token_ids finish_reason stop_rsn rs) (\<lambda>(completion, rs1).
            case rs_parent_req rs1 of
              None \<Rightarrow> Inr (Some (new_request_output (rs_external_req_id rs1) [Some completion] finished rs1), rs1, ps)
            | Some pid \<Rightarrow>
                (case ps pid of
                   None \<Rightarrow> Inl AttributeError
                 | Some p \<Rightarrow>
                     rbind (get_outputs (rs_request_id rs1) completion p) (\<lambda>((outputs, all_finished), p1).
                       let ps1 = ps(pid \<mapsto> p1) in
                       if outputs = [] then Inr (None, rs1, ps1)
                       else Inr (Some (new_request_output (pr_external_req_id p1) outputs all_finished rs1), rs1, ps1)))))"

definition make_request_output ::
  "int list \<Rightarrow> string option \<Rightarrow> finish_reason option \<Rightarrow> stop_value option \<Rightarrow> 's request_state \<Rightarrow> parents
    \<Rightarrow> (client_output option \<times> 's request_state \<times> parents) result" where
  "make_request_output new_token_ids pooling_output finish_reason stop_rsn rs ps =
     (if finish_reason = None \<and> rs_output_kind rs = FINAL_ONLY then Inr (None, rs, ps)
      else rbind (stream_tokens new_token_ids (finish_reason \<noteq> None) rs) (\<lambda>(due, rs1).
        case due of
          None \<Rightarrow> Inr (None, rs1, ps)
        | Some ids \<Rightarrow> due_output ids pooling_output finish_reason stop_rsn rs1 ps))"

section \<open>The output processor\<close>

text \<open>What is used of \<open>EngineCoreRequest\<close>: of the sampling parameters the output kind and \<open>detokenize\<close>, of the pooling
  parameters the output kind.\<close>

record engine_core_request =
  er_request_id :: string
  er_external_req_id :: "string option"
  er_prompt_token_ids :: "int list option"
  er_prompt_embeds :: "nat option"
  er_sampling_params :: "(request_output_kind \<times> bool) option"
  er_pooling_params :: "request_output_kind option"

text \<open>\<open>parents\<close> and \<open>queues\<close> are the objects; \<open>parent_requests\<close> has the keys of the attribute of this name.\<close>

record 's output_processor =
  op_stream_interval :: nat
  request_states :: "(string, 's request_state) odict"
  parent_requests :: "string list"
  external_req_ids :: "(string, string list) odict"
  parents :: parents
  queues :: "nat \<Rightarrow> collector"
  requests_drained :: bool

definition OutputProcessor :: "nat \<Rightarrow> (nat \<Rightarrow> collector) \<Rightarrow> 's output_processor" where
  "OutputProcessor interval qs =
     \<lparr>op_stream_interval = interval, request_states = [], parent_requests = [], external_req_ids = [],
      parents = (\<lambda>_. None), queues = qs, requests_drained = True\<rparr>"

text \<open>\<open>d\<close> is the incremental detokenizer of the processor's tokenizer for this request, if there is a tokenizer.\<close>

definition from_new_request ::
  "'s detok option \<Rightarrow> engine_core_request \<Rightarrow> string option \<Rightarrow> nat \<Rightarrow> nat option \<Rightarrow> nat \<Rightarrow> 's request_state result" where
  "from_new_request d req parent_req request_index queue interval =
     rbind (case er_sampling_params req of
         Some (kind, detokenize) \<Rightarrow>
           Inr (kind, Some (case (if detokenize then d else None) of None \<Rightarrow> IncrementalDetokenizer [] | Some d1 \<Rightarrow> Incremental d1))
       | None \<Rightarrow> (case er_pooling_params req of None \<Rightarrow> Inl AssertionError | Some kind \<Rightarrow> Inr (kind, None)))
       (\<lambda>(kind, dt). case er_external_req_id req of
          None \<Rightarrow> Inl AssertionError
        | Some ext \<Rightarrow>
            Inr \<lparr>rs_request_id = er_request_id req, rs_external_req_id = ext, rs_parent_req = parent_req, rs_request_index = request_index,
              rs_output_kind = kind, rs_prompt_token_ids = er_prompt_token_ids req, rs_prompt_embeds = er_prompt_embeds req,
              rs_detokenizer = dt, is_prefilling = True, rs_queue = queue, rs_num_cached_tokens = 0,
              rs_stream_interval = interval, sent_tokens_offset = 0\<rparr>)"

text \<open>\<open>external_req_ids\<close> is a \<open>defaultdict(list)\<close>.\<close>

definition internal_ids_of :: "string \<Rightarrow> (string, string list) odict \<Rightarrow> string list" where
  "internal_ids_of ext d = (case map_of d ext of None \<Rightarrow> [] | Some ids \<Rightarrow> ids)"

definition remove_internal_id :: "string \<Rightarrow> string \<Rightarrow> (string, string list) odict \<Rightarrow> (string, string list) odict result" where
  "remove_internal_id ext rid d =
     (let ids = internal_ids_of ext d in
      if rid \<notin> set ids then Inl ValueError
      else let ids' = remove1 rid ids in Inr (if ids' = [] then AList.delete ext d else AList.update ext ids' d))"

definition processor_add_request ::
  "'s detok option \<Rightarrow> engine_core_request \<Rightarrow> string option \<Rightarrow> nat \<Rightarrow> nat option \<Rightarrow> 's output_processor \<Rightarrow> 's output_processor result" where
  "processor_add_request d req parent_req request_index queue op =
     (let rid = er_request_id req in
      if rid \<in> fst ` set (request_states op) then Inl ValueError
      else rbind (from_new_request d req parent_req request_index queue (op_stream_interval op)) (\<lambda>rs.
        Inr (op\<lparr>requests_drained := False,
          request_states := AList.update rid rs (request_states op),
          parent_requests := (case parent_req of None \<Rightarrow> parent_requests op | Some pid \<Rightarrow> List.insert pid (parent_requests op)),
          external_req_ids := AList.update (rs_external_req_id rs) (internal_ids_of (rs_external_req_id rs) (external_req_ids op) @ [rid])
            (external_req_ids op)\<rparr>)))"

text \<open>The detokenizer and the stop check of one output; a stop string overrides the reason of the engine.\<close>

definition detokenize_output ::
  "(int list \<Rightarrow> 's \<Rightarrow> (ustr \<times> 's) result) \<Rightarrow> engine_core_output \<Rightarrow> 's request_state
    \<Rightarrow> (finish_reason option \<times> stop_value option \<times> 's request_state) result" where
  "detokenize_output decode eco rs =
     (case ec_pooling_output eco of
        Some _ \<Rightarrow> Inr (ec_finish_reason eco, map_option StopToken (ec_stop_reason eco), rs)
      | None \<Rightarrow>
          (case rs_detokenizer rs of
             None \<Rightarrow> Inl AssertionError
           | Some d \<Rightarrow>
               rbind (d_update decode (ec_new_token_ids eco) (ec_finish_reason eco = Some FR_STOP) d) (\<lambda>(stop_string, d1).
                 let rs1 = rs\<lparr>rs_detokenizer := Some d1\<rparr> in
                 case stop_string of
                   Some (c # cs) \<Rightarrow> Inr (Some FR_STOP, Some (StopString (c # cs)), rs1)
                 | _ \<Rightarrow> Inr (ec_finish_reason eco, map_option StopToken (ec_stop_reason eco), rs1))))"

definition handle_output ::
  "(int list \<Rightarrow> 's \<Rightarrow> (ustr \<times> 's) result) \<Rightarrow> engine_core_output \<Rightarrow> 's request_state \<Rightarrow> parents
    \<Rightarrow> (client_output option \<times> finish_reason option \<times> 's request_state \<times> parents) result" where
  "handle_output decode eco rs ps =
     (let rs1 = rs\<lparr>rs_num_cached_tokens := ec_num_cached_tokens eco, is_prefilling := False\<rparr> in
      rbind (detokenize_output decode eco rs1) (\<lambda>(fr, sr, rs2).
        rbind (make_request_output (ec_new_token_ids eco) (ec_pooling_output eco) fr sr rs2 ps) (\<lambda>(out, rs3, ps1).
          Inr (out, fr, rs3, ps1))))"

text \<open>A completed request is forgotten; the engine is asked to abort it if it does not know that it is finished.\<close>

definition finish_request :: "string \<Rightarrow> 's request_state \<Rightarrow> 's output_processor \<Rightarrow> 's output_processor result" where
  "finish_request rid rs op =
     rbind (remove_internal_id (rs_external_req_id rs) rid (external_req_ids op)) (\<lambda>ext.
       let states = AList.delete rid (request_states op) in
       Inr (op\<lparr>request_states := states, external_req_ids := ext,
         parent_requests :=
           (case rs_parent_req rs of
              None \<Rightarrow> parent_requests op
            | Some pid \<Rightarrow> (case parents op pid of
                None \<Rightarrow> parent_requests op
              | Some p \<Rightarrow> if child_requests p = [] then removeAll pid (parent_requests op) else parent_requests op)),
         requests_drained := (if states = [] then True else requests_drained op)\<rparr>))"

definition emit_output :: "client_output option \<Rightarrow> nat option \<Rightarrow> 's output_processor \<Rightarrow> client_output list
    \<Rightarrow> ('s output_processor \<times> client_output list) result" where
  "emit_output out queue op request_outputs =
     (case out of
        None \<Rightarrow> Inr (op, request_outputs)
      | Some ro \<Rightarrow>
          (case queue of
             None \<Rightarrow> Inr (op, request_outputs @ [ro])
           | Some q \<Rightarrow> rbind (put (Inr ro) (queues op q)) (\<lambda>c. Inr (op\<lparr>queues := (queues op)(q := c)\<rparr>, request_outputs))))"

definition process_one ::
  "(int list \<Rightarrow> 's \<Rightarrow> (ustr \<times> 's) result) \<Rightarrow> engine_core_output \<Rightarrow> 's output_processor \<times> client_output list \<times> string list
    \<Rightarrow> ('s output_processor \<times> client_output list \<times> string list) result" where
  "process_one decode eco = (\<lambda>(op, request_outputs, reqs_to_abort).
     let rid = ec_request_id eco in
     case map_of (request_states op) rid of
       None \<Rightarrow> Inr (op, request_outputs, reqs_to_abort)
     | Some rs \<Rightarrow>
         rbind (handle_output decode eco rs (parents op)) (\<lambda>(out, fr, rs1, ps1).
           let op1 = op\<lparr>request_states := AList.update rid rs1 (request_states op), parents := ps1\<rparr> in
           rbind (emit_output out (rs_queue rs1) op1 request_outputs) (\<lambda>(op2, outs).
             if fr = None then Inr (op2, outs, reqs_to_abort)
             else rbind (finish_request rid rs1 op2) (\<lambda>op3.
               Inr (op3, outs, if ec_finish_reason eco = None then reqs_to_abort @ [rid] else reqs_to_abort)))))"

definition process_outputs ::
  "(int list \<Rightarrow> 's \<Rightarrow> (ustr \<times> 's) result) \<Rightarrow> engine_core_output list \<Rightarrow> 's output_processor
    \<Rightarrow> ('s output_processor \<times> client_output list \<times> string list) result" where
  "process_outputs decode ecos op = foldM (process_one decode) ecos (op, [], [])"

definition propagate_error :: "error \<Rightarrow> 's output_processor \<Rightarrow> 's output_processor result" where
  "propagate_error e op =
     foldM (\<lambda>(rid, rs) op. case rs_queue rs of
         None \<Rightarrow> Inl AssertionError
       | Some q \<Rightarrow> rbind (put (Inl e) (queues op q)) (\<lambda>c. Inr (op\<lparr>queues := (queues op)(q := c)\<rparr>))) (request_states op) op"

section \<open>Abort\<close>

text \<open>The internal ids to abort; they leave the mapping of external ids.\<close>

definition collect_abort :: "bool \<Rightarrow> string \<Rightarrow> 's output_processor \<times> string list \<Rightarrow> ('s output_processor \<times> string list) result" where
  "collect_abort internal rid = (\<lambda>(op, ids).
     if internal then
       (case map_of (request_states op) rid of
          None \<Rightarrow> Inr (op, ids @ [rid])
        | Some rs \<Rightarrow> rbind (remove_internal_id (rs_external_req_id rs) rid (external_req_ids op)) (\<lambda>ext.
            Inr (op\<lparr>external_req_ids := ext\<rparr>, ids @ [rid])))
     else Inr (op\<lparr>external_req_ids := AList.delete rid (external_req_ids op)\<rparr>, ids @ internal_ids_of rid (external_req_ids op)))"

text \<open>\<open>abort_children\<close> is the recursive call.\<close>

definition abort_one ::
  "(string list \<Rightarrow> 's output_processor \<Rightarrow> ('s output_processor \<times> string list) result) \<Rightarrow> string
    \<Rightarrow> 's output_processor \<times> string list \<Rightarrow> ('s output_processor \<times> string list) result" where
  "abort_one abort_children rid = (\<lambda>(op, aborted).
     case map_of (request_states op) rid of
       Some rs \<Rightarrow>
         let op1 = op\<lparr>request_states := AList.delete rid (request_states op)\<rparr> in
         if rs_queue rs = None then Inr (op1, aborted @ [rid])
         else rbind (make_request_output [] (if rs_detokenizer rs = None then Some [] else None) (Some FR_ABORT) None rs (parents op1))
           (\<lambda>(out, rs1, ps1). rbind (emit_output out (rs_queue rs) (op1\<lparr>parents := ps1\<rparr>) []) (\<lambda>(op2, _). Inr (op2, aborted @ [rid])))
     | None \<Rightarrow>
         if rid \<notin> set (parent_requests op) then Inr (op, aborted)
         else (case parents op rid of
             None \<Rightarrow> Inl AttributeError
           | Some p \<Rightarrow>
               rbind (if child_requests p = [] then Inr (op, []) else abort_children (child_requests p) op) (\<lambda>(op1, child_reqs).
                 Inr (op1\<lparr>parent_requests := removeAll rid (parent_requests op1)\<rparr>, aborted @ child_reqs))))"

text \<open>The depth is the recursion limit of the interpreter.\<close>

fun abort_requests :: "nat \<Rightarrow> string list \<Rightarrow> bool \<Rightarrow> 's output_processor \<Rightarrow> ('s output_processor \<times> string list) result" where
  "abort_requests 0 request_ids internal op = Inl RuntimeError"
| "abort_requests (Suc depth) request_ids internal op =
     rbind (foldM (collect_abort internal) request_ids (op, [])) (\<lambda>(op1, ids).
       rbind (foldM (abort_one (\<lambda>cs. abort_requests depth cs True)) ids (op1, [])) (\<lambda>(op2, aborted).
         Inr (if request_states op2 = [] then op2\<lparr>requests_drained := True\<rparr> else op2, aborted)))"

section \<open>Adding a request to the engine\<close>

text \<open>The child requests of a request with \<open>n > 1\<close> are sent to the engine in order.  \<open>AsyncLLM\<close> does the same with a
  queue, and can be interrupted between two children.\<close>

definition add_child :: "'s detok option \<Rightarrow> engine_core_request \<Rightarrow> string \<Rightarrow> nat option \<Rightarrow> nat
    \<Rightarrow> 's output_processor \<times> (engine_core_request \<times> child_params) list \<Rightarrow> ('s output_processor \<times> (engine_core_request \<times> child_params) list) result" where
  "add_child d req pid queue idx = (\<lambda>(op, sent).
     case parents op pid of
       None \<Rightarrow> Inl AttributeError
     | Some p \<Rightarrow>
         let ((cid, params), p1) = get_child_info idx p;
             child = req\<lparr>er_request_id := cid, er_sampling_params := map_option (\<lambda>(k, detokenize). (sp_output_kind params, detokenize)) (er_sampling_params req)\<rparr>
         in rbind (processor_add_request d child (Some pid) idx queue (op\<lparr>parents := (parents op)(pid \<mapsto> p1)\<rparr>)) (\<lambda>op1.
              Inr (op1, sent @ [(child, params)])))"

definition engine_add_request :: "'s detok option \<Rightarrow> engine_core_request \<Rightarrow> child_params \<Rightarrow> nat option \<Rightarrow> 's output_processor
    \<Rightarrow> ('s output_processor \<times> (engine_core_request \<times> child_params) list) result" where
  "engine_add_request d req params queue op =
     (if er_sampling_params req = None \<or> sp_n params = 1
      then rbind (processor_add_request d req None 0 queue op) (\<lambda>op1. Inr (op1, [(req, params)]))
      else
        (case er_external_req_id req of
           None \<Rightarrow> Inl AssertionError
         | Some ext \<Rightarrow>
             let pid = er_request_id req in
             foldM (add_child d req pid queue) [0..<sp_n params] (op\<lparr>parents := (parents op)(pid \<mapsto> ParentRequest pid ext params)\<rparr>, [])))"

section \<open>The consumer of a collector\<close>

text \<open>The output handler puts, the task of the client gets, in any order.\<close>

datatype collector_step = Put request_output | Get

fun run_collector :: "collector_step list \<Rightarrow> collector \<Rightarrow> (request_output list \<times> collector) result" where
  "run_collector [] c = Inr ([], c)"
| "run_collector (Put ro # steps) c = rbind (put (Inr (RequestOutput ro)) c) (run_collector steps)"
| "run_collector (Get # steps) c =
     (case get_nowait c of
        (None, c1) \<Rightarrow> run_collector steps c1
      | (Some (Inl e), c1) \<Rightarrow> Inl e
      | (Some (Inr (PoolingRequestOutput po)), c1) \<Rightarrow> Inl AssertionError
      | (Some (Inr (RequestOutput ro)), c1) \<Rightarrow> rbind (run_collector steps c1) (\<lambda>(outs, c2). Inr (ro # outs, c2)))"

text \<open>What a list of outputs delivers for the sample with index \<open>i\<close>.\<close>

definition delivered :: "(completion_output \<Rightarrow> 'a list) \<Rightarrow> nat \<Rightarrow> completion_output option list \<Rightarrow> 'a list" where
  "delivered f i outputs = concat (map f (filter (\<lambda>c. co_index c = i) (map the outputs)))"

definition one_each :: "completion_output option list \<Rightarrow> bool" where
  "one_each outputs \<longleftrightarrow> None \<notin> set outputs \<and> distinct (map (co_index \<circ> the) outputs)"

lemma delivered_Nil [simp]: "delivered f i [] = []"
  by (simp add: delivered_def)

lemma delivered_Cons [simp]: "delivered f i (c # cs) = (if co_index (the c) = i then f (the c) else []) @ delivered f i cs"
  by (simp add: delivered_def)

lemma delivered_absent: "i \<notin> (co_index \<circ> the) ` set outputs \<Longrightarrow> delivered f i outputs = []"
  by (induction outputs) auto

lemma merge_completion_index [simp]: "co_index (merge_completion c n) = co_index c"
  by (simp add: merge_completion_def)

lemma add_completion_ok:
  assumes "one_each xs" and merge: "\<And>a b. f (merge_completion a b) = f a @ f b"
  shows "\<exists>ys. add_completion True (Some n) xs = Inr ys \<and> one_each ys \<and> (co_index \<circ> the) ` set ys = insert (co_index n) ((co_index \<circ> the) ` set xs)
    \<and> (\<forall>i. delivered f i ys = delivered f i xs @ (if co_index n = i then f n else []))"
  using assms(1)
proof (induction xs)
  case Nil
  then show ?case by (simp add: one_each_def)
next
  case (Cons x xs)
  then obtain c where x: "x = Some c" by (cases x) (auto simp: one_each_def)
  have wf: "one_each xs" using Cons.prems by (simp add: one_each_def)
  show ?case
  proof (cases "co_index c = co_index n")
    case True
    have "co_index n \<notin> (co_index \<circ> the) ` set xs" using Cons.prems True by (simp add: one_each_def x)
    then have "delivered f (co_index n) xs = []" by (rule delivered_absent)
    moreover have "one_each (Some (merge_completion c n) # xs)" using Cons.prems True by (auto simp: one_each_def x)
    ultimately show ?thesis using True by (auto simp: x merge)
  next
    case False
    obtain ys where ys: "add_completion True (Some n) xs = Inr ys" "one_each ys"
        "(co_index \<circ> the) ` set ys = insert (co_index n) ((co_index \<circ> the) ` set xs)"
        "\<forall>i. delivered f i ys = delivered f i xs @ (if co_index n = i then f n else [])"
      using Cons.IH [OF wf] by blast
    have "co_index c \<notin> (co_index \<circ> the) ` set xs" using Cons.prems by (simp add: one_each_def x)
    then have "one_each (Some c # ys)" using ys(2,3) False by (simp add: one_each_def)
    then show ?thesis using ys False by (auto simp: x)
  qed
qed

lemma add_completions_ok:
  assumes "one_each xs" and "None \<notin> set ns" and merge: "\<And>a b. f (merge_completion a b) = f a @ f b"
  shows "\<exists>ys. foldM (add_completion True) ns xs = Inr ys \<and> one_each ys \<and> (\<forall>i. delivered f i ys = delivered f i xs @ delivered f i ns)"
  using assms(1,2)
proof (induction ns arbitrary: xs)
  case (Cons n ns)
  then obtain a where n: "n = Some a" by (cases n) auto
  obtain ys where ys: "add_completion True n xs = Inr ys" "one_each ys"
      "\<forall>i. delivered f i ys = delivered f i xs @ (if co_index a = i then f a else [])"
    using add_completion_ok [OF Cons.prems(1) merge] n by blast
  show ?case using Cons.IH [OF ys(2)] Cons.prems(2) ys by (auto simp: n)
qed auto

definition pending_outputs :: "collector \<Rightarrow> request_output list" where
  "pending_outputs c = (case pending c of Some (Inr (RequestOutput ro)) \<Rightarrow> [ro] | _ \<Rightarrow> [])"

definition collector_ok :: "collector \<Rightarrow> bool" where
  "collector_ok c \<longleftrightarrow> aggregate c \<and> (ready c \<longleftrightarrow> pending c \<noteq> None) \<and> (pending c = None \<or> (\<exists>ro. pending c = Some (Inr (RequestOutput ro)) \<and> one_each (ro_outputs ro)))"

lemma put_ok:
  assumes "collector_ok c" and "one_each (ro_outputs ro)" and merge: "\<And>a b. f (merge_completion a b) = f a @ f b"
  shows "\<exists>c'. put (Inr (RequestOutput ro)) c = Inr c' \<and> collector_ok c'
    \<and> concat (map (delivered f i \<circ> ro_outputs) (pending_outputs c')) = concat (map (delivered f i \<circ> ro_outputs) (pending_outputs c)) @ delivered f i (ro_outputs ro)
    \<and> ((\<exists>x \<in> set (pending_outputs c'). ro_finished x) \<longleftrightarrow> (\<exists>x \<in> set (pending_outputs c). ro_finished x) \<or> ro_finished ro)"
proof (cases "pending c = None")
  case True
  then show ?thesis using assms(1,2) by (simp add: put_def collector_ok_def pending_outputs_def)
next
  case False
  then obtain old where old: "pending c = Some (Inr (RequestOutput old))" "one_each (ro_outputs old)" using assms(1) by (auto simp: collector_ok_def)
  have "None \<notin> set (ro_outputs ro)" using assms(2) by (simp add: one_each_def)
  from add_completions_ok [OF old(2) this merge] obtain ys where ys: "foldM (add_completion True) (ro_outputs ro) (ro_outputs old) = Inr ys"
      "one_each ys" "\<forall>i. delivered f i ys = delivered f i (ro_outputs old) @ delivered f i (ro_outputs ro)" by blast
  show ?thesis using assms(1) old ys by (auto simp: put_def add_output_def collector_ok_def pending_outputs_def)
qed

lemma run_collector_ok:
  assumes "collector_ok c" and "\<forall>ro. Put ro \<in> set steps \<longrightarrow> one_each (ro_outputs ro)" and merge: "\<And>a b. f (merge_completion a b) = f a @ f b"
  shows "\<exists>gets c'. run_collector steps c = Inr (gets, c') \<and> collector_ok c'
    \<and> concat (map (delivered f i \<circ> ro_outputs) (gets @ pending_outputs c'))
      = concat (map (delivered f i \<circ> ro_outputs) (pending_outputs c @ [ro. Put ro \<leftarrow> steps]))
    \<and> ((\<exists>x \<in> set (gets @ pending_outputs c'). ro_finished x) \<longleftrightarrow> (\<exists>x \<in> set (pending_outputs c @ [ro. Put ro \<leftarrow> steps]). ro_finished x))"
  using assms(1,2)
proof (induction steps arbitrary: c)
  case (Cons step steps)
  show ?case
  proof (cases step)
    case (Put ro)
    obtain c1 where c1: "put (Inr (RequestOutput ro)) c = Inr c1" "collector_ok c1"
        "concat (map (delivered f i \<circ> ro_outputs) (pending_outputs c1)) = concat (map (delivered f i \<circ> ro_outputs) (pending_outputs c)) @ delivered f i (ro_outputs ro)"
        "(\<exists>x \<in> set (pending_outputs c1). ro_finished x) \<longleftrightarrow> (\<exists>x \<in> set (pending_outputs c). ro_finished x) \<or> ro_finished ro"
      using put_ok [OF Cons.prems(1) _ merge] Cons.prems(2) Put by (metis list.set_intros(1))
    have "\<forall>ro. Put ro \<in> set steps \<longrightarrow> one_each (ro_outputs ro)" using Cons.prems(2) by simp
    from Cons.IH [OF c1(2) this] obtain gets c' where run: "run_collector steps c1 = Inr (gets, c')" "collector_ok c'"
        "concat (map (delivered f i \<circ> ro_outputs) (gets @ pending_outputs c'))
          = concat (map (delivered f i \<circ> ro_outputs) (pending_outputs c1 @ [ro. Put ro \<leftarrow> steps]))"
        "(\<exists>x \<in> set (gets @ pending_outputs c'). ro_finished x) \<longleftrightarrow> (\<exists>x \<in> set (pending_outputs c1 @ [ro. Put ro \<leftarrow> steps]). ro_finished x)" by blast
    have puts: "[ro. Put ro \<leftarrow> step # steps] = ro # [ro. Put ro \<leftarrow> steps]" by (simp add: Put)
    have "run_collector (step # steps) c = Inr (gets, c')" using c1(1) run(1) by (simp add: Put)
    moreover have "concat (map (delivered f i \<circ> ro_outputs) (gets @ pending_outputs c'))
        = concat (map (delivered f i \<circ> ro_outputs) (pending_outputs c @ [ro. Put ro \<leftarrow> step # steps]))"
      unfolding run(3) puts using c1(3) by simp
    moreover have "(\<exists>x \<in> set (gets @ pending_outputs c'). ro_finished x) \<longleftrightarrow> (\<exists>x \<in> set (pending_outputs c @ [ro. Put ro \<leftarrow> step # steps]). ro_finished x)"
      unfolding run(4) puts using c1(4) by auto
    ultimately show ?thesis using run(2) by blast
  next
    case Get
    show ?thesis
    proof (cases "pending c")
      case None
      then show ?thesis using Cons Get by (simp add: get_nowait_def)
    next
      case (Some out)
      then obtain ro where ro: "pending c = Some (Inr (RequestOutput ro))" using Cons.prems(1) by (auto simp: collector_ok_def)
      have "collector_ok (c\<lparr>pending := None, ready := False\<rparr>)" using Cons.prems(1) by (simp add: collector_ok_def)
      from Cons.IH [OF this] Cons.prems(2) show ?thesis using Get ro by (auto simp: get_nowait_def pending_outputs_def)
    qed
  qed
qed (auto simp: pending_outputs_def)

lemma merge_completion_fields:
  "co_text (merge_completion a b) = co_text a @ co_text b" "co_token_ids (merge_completion a b) = co_token_ids a @ co_token_ids b"
  by (simp_all add: merge_completion_def)


definition sample_delta :: "nat \<Rightarrow> int list \<Rightarrow> bool \<Rightarrow> request_output" where
  "sample_delta i ids fin =
     \<lparr>ro_request_id = ''r'', ro_prompt_token_ids = Some [1],
      ro_outputs = [Some \<lparr>co_index = i, co_text = map nat ids, co_token_ids = ids,
         co_finish_reason = (if fin then Some FR_LENGTH else None), co_stop_reason = None\<rparr>],
      ro_finished = fin, ro_num_cached_tokens = 0\<rparr>"


section \<open>The children of a request\<close>

lemma decimal_value: "foldl (\<lambda>a c. 10 * a + (of_char c - 48)) 0 (decimal n) = n"
  by (induction n rule: decimal.induct) (subst decimal.simps, auto simp: of_char_of take_bit_eq_mod)

lemma child_req_id_inj [simp]: "child_req_id i rid = child_req_id j rid \<longleftrightarrow> i = j"
  using decimal_value by (metis append_same_eq child_req_id_def)

text \<open>\<open>n\<close> child requests are registered, then they finish in some order.\<close>

definition register_children :: "nat \<Rightarrow> parent_request \<Rightarrow> parent_request" where
  "register_children n p = fold (\<lambda>i p. snd (get_child_info i p)) [0..<n] p"

fun finish_children :: "completion_output list \<Rightarrow> parent_request \<Rightarrow> ((completion_output option list \<times> bool) list \<times> parent_request) result" where
  "finish_children [] p = Inr ([], p)"
| "finish_children (c # cs) p =
     rbind (get_outputs (child_req_id (co_index c) (pr_request_id p)) c p) (\<lambda>(out, p1).
       rbind (finish_children cs p1) (\<lambda>(outs, p2). Inr (out # outs, p2)))"

lemma get_child_info_fields:
  assumes "child_requests p = map (\<lambda>i. child_req_id i (pr_request_id p)) idxs" and "i \<notin> set idxs"
  shows "child_requests (snd (get_child_info i p)) = map (\<lambda>i. child_req_id i (pr_request_id p)) (idxs @ [i])
    \<and> pr_request_id (snd (get_child_info i p)) = pr_request_id p \<and> pr_sampling_params (snd (get_child_info i p)) = pr_sampling_params p
    \<and> output_aggregator (snd (get_child_info i p)) = output_aggregator p"
  using assms by (auto simp: get_child_info_def get_child_sampling_params_def Let_def split: option.splits prod.splits)

lemma register_children_fields:
  "child_requests (register_children n (ParentRequest rid ext params)) = map (\<lambda>i. child_req_id i rid) [0..<n]
    \<and> pr_request_id (register_children n (ParentRequest rid ext params)) = rid
    \<and> pr_sampling_params (register_children n (ParentRequest rid ext params)) = params
    \<and> output_aggregator (register_children n (ParentRequest rid ext params)) = (if sp_output_kind params = FINAL_ONLY then replicate (sp_n params) None else [])"
proof (induction n)
  case 0
  then show ?case by (simp add: register_children_def ParentRequest_def)
next
  case (Suc n)
  let ?p = "register_children n (ParentRequest rid ext params)"
  have "register_children (Suc n) (ParentRequest rid ext params) = snd (get_child_info n ?p)" by (simp add: register_children_def)
  then show ?case using Suc get_child_info_fields [of ?p "[0..<n]" n] by simp
qed

lemma get_outputs_child:
  assumes "child_requests p = map (\<lambda>i. child_req_id i (pr_request_id p)) idxs" and "distinct idxs"
    and "co_index c \<in> set idxs" and "co_finish_reason c \<noteq> None"
    and "sp_output_kind (pr_sampling_params p) = FINAL_ONLY \<longrightarrow> co_index c < length (output_aggregator p)"
  defines "final \<equiv> sp_output_kind (pr_sampling_params p) = FINAL_ONLY"
    and "agg \<equiv> (output_aggregator p)[co_index c := Some c]" and "at_end \<equiv> idxs = [co_index c]"
  shows "\<exists>p1. get_outputs (child_req_id (co_index c) (pr_request_id p)) c p
      = Inr (((if \<not> final then [Some c] else if at_end then agg else []), at_end), p1)
    \<and> child_requests p1 = map (\<lambda>i. child_req_id i (pr_request_id p)) (remove1 (co_index c) idxs) \<and> pr_request_id p1 = pr_request_id p
    \<and> pr_sampling_params p1 = pr_sampling_params p \<and> output_aggregator p1 = (if final then agg else output_aggregator p)"
proof -
  let ?cid = "\<lambda>i. child_req_id i (pr_request_id p)"
  have "removeAll (?cid (co_index c)) (map ?cid is) = map ?cid (removeAll (co_index c) is)" for "is" by (induction "is") auto
  then have rest: "removeAll (?cid (co_index c)) (child_requests p) = map ?cid (remove1 (co_index c) idxs)"
    using assms(1,2) distinct_remove1_removeAll by metis
  have "remove1 (co_index c) idxs = [] \<longleftrightarrow> idxs = [co_index c]" using assms(2,3) by (cases idxs) auto
  moreover have "?cid (co_index c) \<in> set (child_requests p)" using assms(1,3) by auto
  ultimately show ?thesis using assms(4,5) rest by (auto simp: get_outputs_def Let_def final_def agg_def at_end_def not_le)
qed

lemma finish_children_results:
  assumes "child_requests p = map (\<lambda>i. child_req_id i (pr_request_id p)) idxs" and "distinct idxs"
    and "mset (map co_index cs) = mset idxs" and "\<forall>c \<in> set cs. co_finish_reason c \<noteq> None" and "cs \<noteq> []"
    and "sp_output_kind (pr_sampling_params p) = FINAL_ONLY \<longrightarrow> (\<forall>i \<in> set idxs. i < length (output_aggregator p))"
  shows "\<exists>p'. finish_children cs p = Inr (if sp_output_kind (pr_sampling_params p) = FINAL_ONLY
      then replicate (length cs - 1) ([], False) @ [(fold (\<lambda>c a. a[co_index c := Some c]) cs (output_aggregator p), True)]
      else map (\<lambda>c. ([Some c], False)) (butlast cs) @ [([Some (last cs)], True)], p') \<and> child_requests p' = []"
  using assms
proof (induction cs arbitrary: p idxs)
  case (Cons c cs)
  have cin: "co_index c \<in> set idxs" using Cons.prems(3) by (metis list.set_intros(1) list.simps(9) mset_eq_setD)
  obtain p1 where p1: "get_outputs (child_req_id (co_index c) (pr_request_id p)) c p
      = Inr (((if sp_output_kind (pr_sampling_params p) \<noteq> FINAL_ONLY then [Some c] else if idxs = [co_index c] then (output_aggregator p)[co_index c := Some c] else []),
          idxs = [co_index c]), p1)"
      "child_requests p1 = map (\<lambda>i. child_req_id i (pr_request_id p)) (remove1 (co_index c) idxs)" "pr_request_id p1 = pr_request_id p"
      "pr_sampling_params p1 = pr_sampling_params p"
      "output_aggregator p1 = (if sp_output_kind (pr_sampling_params p) = FINAL_ONLY then (output_aggregator p)[co_index c := Some c] else output_aggregator p)"
    using get_outputs_child [OF Cons.prems(1,2) cin] Cons.prems(4,6) cin by auto
  show ?case
  proof (cases "cs = []")
    case True
    then have "idxs = [co_index c]" using Cons.prems(3) by simp
    then show ?thesis using True p1 by simp
  next
    case False
    have ms: "mset (map co_index cs) = mset (remove1 (co_index c) idxs)" using Cons.prems(3) by (metis add_mset_remove_trivial list.simps(9) mset.simps(2) mset_remove1)
    then have ne: "idxs \<noteq> [co_index c]" using False by auto
    have "child_requests p1 = map (\<lambda>i. child_req_id i (pr_request_id p1)) (remove1 (co_index c) idxs)" using p1 by simp
    from Cons.IH [OF this _ ms _ False] Cons.prems p1 have "\<exists>p'. finish_children cs p1 = Inr (if sp_output_kind (pr_sampling_params p) = FINAL_ONLY
      then replicate (length cs - 1) ([], False) @ [(fold (\<lambda>c a. a[co_index c := Some c]) cs (output_aggregator p1), True)]
      else map (\<lambda>c. ([Some c], False)) (butlast cs) @ [([Some (last cs)], True)], p') \<and> child_requests p' = []"
      by (auto dest: notin_set_remove1)
    then obtain p' where p': "finish_children cs p1 = Inr (if sp_output_kind (pr_sampling_params p) = FINAL_ONLY
      then replicate (length cs - 1) ([], False) @ [(fold (\<lambda>c a. a[co_index c := Some c]) cs (output_aggregator p1), True)]
      else map (\<lambda>c. ([Some c], False)) (butlast cs) @ [([Some (last cs)], True)], p')" "child_requests p' = []" by blast
    obtain m where m: "length cs = Suc m" using False by (cases cs) auto
    show ?thesis using p1 p' ne False m by simp
  qed
qed simp

lemma fold_slots:
  assumes "distinct (map co_index cs)" and "\<forall>c \<in> set cs. co_index c < length a"
  shows "length (fold (\<lambda>c a. a[co_index c := Some c]) cs a) = length a \<and> (\<forall>c \<in> set cs. fold (\<lambda>c a. a[co_index c := Some c]) cs a ! co_index c = Some c)"
  using assms
proof (induction cs rule: rev_induct)
  case (snoc c cs)
  then show ?case by (auto simp: nth_list_update)
qed simp

lemma fold_slots_permutation:
  assumes "mset (map co_index cs) = mset [0..<n]"
  shows "\<exists>samples. fold (\<lambda>c a. a[co_index c := Some c]) cs (replicate n None) = map Some samples
    \<and> map co_index samples = [0..<n] \<and> set samples = set cs"
proof -
  let ?agg = "fold (\<lambda>c a. a[co_index c := Some c]) cs (replicate n None)"
  have idx: "distinct (map co_index cs)" "set (map co_index cs) = {0..<n}"
    using assms by (metis distinct_upt mset_eq_imp_distinct_iff) (metis assms atLeastLessThan_upt mset_eq_setD)
  have lt: "\<forall>c \<in> set cs. co_index c < length (replicate n None)" using idx(2) by auto
  note slots = fold_slots [OF idx(1) lt]
  have filled: "\<exists>c \<in> set cs. co_index c = i \<and> ?agg ! i = Some c" if "i < n" for i
  proof -
    have "i \<in> set (map co_index cs)" using that idx(2) by simp
    then show ?thesis using slots by auto
  qed
  define samples where "samples = map the ?agg"
  have nth: "?agg ! i = Some (samples ! i) \<and> co_index (samples ! i) = i \<and> samples ! i \<in> set cs" if "i < n" for i
    using filled [OF that] slots that by (auto simp: samples_def)
  have l: "length samples = n" using slots by (simp add: samples_def)
  have s1: "?agg = map Some samples" using nth slots l by (intro nth_equalityI) auto
  have s2: "map co_index samples = [0..<n]" using nth l by (intro nth_equalityI) auto
  have s3: "set samples = set cs"
  proof
    show "set samples \<subseteq> set cs" using nth l by (auto simp: in_set_conv_nth)
    show "set cs \<subseteq> set samples"
    proof
      fix c assume c: "c \<in> set cs"
      have agg: "?agg ! co_index c = Some c" using slots c by blast
      have i: "co_index c < n" using c lt by auto
      then have "samples ! co_index c = c" using nth [OF i] agg by simp
      moreover have "co_index c < length samples" using i l by simp
      ultimately show "c \<in> set samples" using nth_mem by force
    qed
  qed
  show ?thesis using s1 s2 s3 by blast
qed


definition sample_completion :: "nat \<Rightarrow> completion_output" where
  "sample_completion i = \<lparr>co_index = i, co_text = [], co_token_ids = [int i], co_finish_reason = Some FR_LENGTH, co_stop_reason = None\<rparr>"

definition sample_params :: child_params where
  "sample_params = \<lparr>sp_n = 2, sp_seed = Some 3, sp_output_kind = FINAL_ONLY\<rparr>"


text \<open>The fan-out of \<open>AsyncLLM\<close> can be interrupted between two children.  If a child finishes before the next one is
  registered, the request is reported as finished without its other samples.\<close>

lemma parent_finishes_early:
  assumes "co_index c = 0" and "co_finish_reason c \<noteq> None"
  shows "\<exists>outs p. finish_children [c] (register_children 1 (ParentRequest rid ext \<lparr>sp_n = 2, sp_seed = None, sp_output_kind = FINAL_ONLY\<rparr>))
    = Inr ([([Some c, None], True)], p)"
proof -
  note f = register_children_fields [of 1 rid ext "\<lparr>sp_n = 2, sp_seed = None, sp_output_kind = FINAL_ONLY\<rparr>"]
  show ?thesis using finish_children_results [of "register_children 1 (ParentRequest rid ext \<lparr>sp_n = 2, sp_seed = None, sp_output_kind = FINAL_ONLY\<rparr>)" "[0]" "[c]"]
      f assms by (auto simp: numeral_2_eq_2)
qed

end
