(* ===== verification/Output_Safe.thy ===== *)
theory Output_Safe
  imports Output_Processor
begin

text \<open>
  What a client of the output processor receives for one request: the pieces that are streamed make up its text and its
  tokens.
\<close>

section \<open>One request\<close>

text \<open>The outputs of the engine for one request are handled until it is finished.\<close>

fun serve :: "(int list \<Rightarrow> 's \<Rightarrow> (ustr \<times> 's) result) \<Rightarrow> engine_core_output list \<Rightarrow> 's request_state \<Rightarrow> parents
    \<Rightarrow> (client_output list \<times> bool \<times> 's request_state) result" where
  "serve decode [] rs ps = Inr ([], False, rs)"
| "serve decode (eco # ecos) rs ps =
     rbind (handle_output decode eco rs ps) (\<lambda>(out, fr, rs1, ps1).
       let here = (case out of None \<Rightarrow> [] | Some x \<Rightarrow> [x]) in
       if fr \<noteq> None then Inr (here, True, rs1)
       else rbind (serve decode ecos rs1 ps1) (\<lambda>(outs, finished, rs2). Inr (here @ outs, finished, rs2)))"

definition received :: "(completion_output \<Rightarrow> 'a list) \<Rightarrow> nat \<Rightarrow> client_output list \<Rightarrow> 'a list" where
  "received f i outs = concat (map (\<lambda>out. case out of RequestOutput ro \<Rightarrow> delivered f i (ro_outputs ro) | PoolingRequestOutput po \<Rightarrow> []) outs)"

lemma received_simps [simp]: "received f i [] = []"
  "received f i (RequestOutput ro # outs) = delivered f i (ro_outputs ro) @ received f i outs"
  "received f i (xs @ ys) = received f i xs @ received f i ys"
  by (simp_all add: received_def)

lemma check_stop_list_in: "check_stop_list txt n incl stops = Some (s, t) \<Longrightarrow> s \<in> set stops"
  by (induction stops) (auto simp: Let_def split: if_splits)

lemma foldM_detok_stops:
  "foldM (detok_one decode) ids (d, p) = Inr (d', p') \<Longrightarrow> stop_strings d' = stop_strings d"
  by (induction ids arbitrary: d p) (auto simp: detok_one_def Let_def)

lemma update_detok_stop:
  assumes "update_detok decode ids st d = Inr (Some s, d')"
  shows "s \<in> set (stop_strings d)"
proof -
  have "ids \<noteq> []" using assms by (auto simp: update_detok_def)
  then obtain d1 p where fold: "foldM (detok_one decode) (if st \<and> \<not> include_stop_str_in_output d then butlast ids else ids) (d, length (output_text d)) = Inr (d1, p)"
    using assms by (auto simp: update_detok_def Let_def split: if_splits)
  have "s \<in> set (stop_strings d1)"
    using assms \<open>ids \<noteq> []\<close> fold
    by (auto simp: update_detok_def Let_def check_stop_strings_def split: if_splits option.splits prod.splits dest!: check_stop_list_in)
  then show ?thesis using foldM_detok_stops [OF fold] by simp
qed

text \<open>\<open>txts\<close> and \<open>toks\<close> were sent so far.\<close>

definition tokens_ok :: "int list \<Rightarrow> 's request_state \<Rightarrow> 's detok \<Rightarrow> bool" where
  "tokens_ok toks rs d \<longleftrightarrow> dt_prompt_len d \<le> length (dt_token_ids d) \<and>
     (if rs_stream_interval rs \<le> 1 then toks = output_token_ids_of d
      else sent_tokens_offset rs = length toks \<and> toks = take (length toks) (output_token_ids_of d))"

definition streaming :: "ustr \<Rightarrow> int list \<Rightarrow> 's request_state \<Rightarrow> 's detok \<Rightarrow> bool" where
  "streaming txts toks rs d \<longleftrightarrow> rs_output_kind rs = DELTA \<and> rs_parent_req rs = None \<and> rs_detokenizer rs = Some (Incremental d)
     \<and> sent_ok txts d \<and> tokens_ok toks rs d"

lemma output_token_ids_append:
  "dt_token_ids d' = dt_token_ids d @ ids \<Longrightarrow> dt_prompt_len d' = dt_prompt_len d \<Longrightarrow> dt_prompt_len d \<le> length (dt_token_ids d)
    \<Longrightarrow> output_token_ids_of d' = output_token_ids_of d @ ids"
  by (simp add: output_token_ids_of_def)

lemma next_text_tokens: "get_next_output_text fin delta d = (w, d') \<Longrightarrow> dt_token_ids d' = dt_token_ids d \<and> dt_prompt_len d' = dt_prompt_len d \<and> output_text d' = output_text d"
  by (auto simp: get_next_output_text_def Let_def split: if_splits)

text \<open>Which tokens are due.\<close>

lemma stream_tokens_due:
  assumes "rs_output_kind rs = DELTA" and "rs_detokenizer rs = Some (Incremental d1)" and "tokens_ok toks rs d"
    and "dt_token_ids d1 = dt_token_ids d @ ids" and "dt_prompt_len d1 = dt_prompt_len d"
    and "stream_tokens ids fin rs = Inr (due, rs1)"
  shows "rs_detokenizer rs1 = rs_detokenizer rs \<and> rs_output_kind rs1 = DELTA \<and> rs_parent_req rs1 = rs_parent_req rs
    \<and> rs_external_req_id rs1 = rs_external_req_id rs \<and> rs_request_index rs1 = rs_request_index rs
    \<and> (case due of None \<Rightarrow> \<not> fin \<and> tokens_ok toks rs1 d1
       | Some ts \<Rightarrow> tokens_ok (toks @ ts) rs1 d1 \<and> toks @ ts = output_token_ids_of d1)"
proof -
  have len: "dt_prompt_len d \<le> length (dt_token_ids d)" using assms(3) by (simp add: tokens_ok_def)
  note out = output_token_ids_append [OF assms(4,5) len]
  have app: "take (length toks) (output_token_ids_of d1) = toks" if "toks = take (length toks) (output_token_ids_of d)"
  proof -
    have "length toks \<le> length (output_token_ids_of d)" using that by (metis length_take min.cobounded1)
    then show ?thesis using that out by simp
  qed
  then have "toks @ drop (length toks) (output_token_ids_of d1) = output_token_ids_of d1" if "toks = take (length toks) (output_token_ids_of d)"
    using that append_take_drop_id by metis
  moreover have "length (output_token_ids_of d1) = length toks + (length (output_token_ids_of d1) - length toks)" if "toks = take (length toks) (output_token_ids_of d)"
    using app [OF that] by (metis le_add_diff_inverse length_take min.cobounded1)
  ultimately show ?thesis using assms out len app
    by (auto simp: stream_tokens_def tokens_ok_def Let_def split: if_splits)
qed

lemma stream_tokens_fields:
  "stream_tokens ids fin rs = Inr (due, rs1) \<Longrightarrow> rs_output_kind rs1 = rs_output_kind rs \<and> rs_parent_req rs1 = rs_parent_req rs
    \<and> rs_detokenizer rs1 = rs_detokenizer rs"
  by (auto simp: stream_tokens_def Let_def split: if_splits option.splits)

lemma make_delta_output:
  assumes "rs_output_kind rs = DELTA" and "rs_parent_req rs = None" and "rs_detokenizer rs = Some (Incremental d)"
    and run: "make_request_output ids None fr sr rs ps = Inr (out, rs', ps')"
  shows "\<exists>due rs1. stream_tokens ids (fr \<noteq> None) rs = Inr (due, rs1)
    \<and> (case due of None \<Rightarrow> out = None \<and> rs' = rs1
       | Some ts \<Rightarrow>
           (\<exists>w d' ro. get_next_output_text (fr \<noteq> None) True d = (w, d') \<and> out = Some (RequestOutput ro) \<and> rs' = rs1\<lparr>rs_detokenizer := Some (Incremental d')\<rparr>
             \<and> (\<exists>c. ro_outputs ro = [Some c] \<and> co_index c = rs_request_index rs1 \<and> co_text c = w \<and> co_token_ids c = ts)))"
proof -
  obtain due rs1 where st: "stream_tokens ids (fr \<noteq> None) rs = Inr (due, rs1)"
    using assms(1,4) by (auto simp: make_request_output_def Let_def)
  have rs1: "rs_output_kind rs1 = DELTA" "rs_parent_req rs1 = None" "rs_detokenizer rs1 = Some (Incremental d)"
    using stream_tokens_fields [OF st] assms by simp_all
  obtain w d' where w: "get_next_output_text (fr \<noteq> None) True d = (w, d')" by (cases "get_next_output_text (fr \<noteq> None) True d")
  have "case due of None \<Rightarrow> out = None \<and> rs' = rs1
    | Some ts \<Rightarrow> \<exists>c. out = Some (new_request_output (rs_external_req_id rs1) [Some c] (fr \<noteq> None) (rs1\<lparr>rs_detokenizer := Some (Incremental d')\<rparr>))
        \<and> rs' = rs1\<lparr>rs_detokenizer := Some (Incremental d')\<rparr> \<and> co_index c = rs_request_index rs1 \<and> co_text c = w \<and> co_token_ids c = ts"
    using run st w rs1 by (cases due) (auto simp: make_request_output_def due_output_def new_completion_output_def Let_def assms(1))
  then show ?thesis using st w by (cases due) (auto simp: new_request_output_def)
qed

text \<open>One output of the engine.\<close>

lemma detokenize_output_incremental:
  assumes det: "detokenize_output decode eco rs = Inr (fr, sr, rs2)" and "ec_pooling_output eco = None"
    and d: "rs_detokenizer rs = Some (Incremental d)" and stops: "\<forall>s \<in> set (stop_strings d). s \<noteq> []"
  shows "\<exists>ss d1. update_detok decode (ec_new_token_ids eco) (ec_finish_reason eco = Some FR_STOP) d = Inr (ss, d1)
    \<and> rs2 = rs\<lparr>rs_detokenizer := Some (Incremental d1)\<rparr> \<and> (fr = None \<longrightarrow> ss = None)"
proof -
  obtain ss d1 where up: "update_detok decode (ec_new_token_ids eco) (ec_finish_reason eco = Some FR_STOP) d = Inr (ss, d1)"
    using assms by (auto simp: detokenize_output_def)
  have "ss \<noteq> Some []" using update_detok_stop up stops by metis
  then consider (none) "ss = None" | (stop) c cs where "ss = Some (c # cs)" by (metis list.exhaust not_None_eq)
  then have "rs2 = rs\<lparr>rs_detokenizer := Some (Incremental d1)\<rparr> \<and> (fr = None \<longrightarrow> ss = None)"
    using assms up by cases (auto simp: detokenize_output_def Let_def)
  then show ?thesis using up by blast
qed

text \<open>One output of the engine.\<close>

lemma handle_output_streaming:
  assumes str: "streaming txts toks rs d" and pool: "ec_pooling_output eco = None"
    and run: "handle_output decode eco rs ps = Inr (out, fr, rs', ps')"
  defines "outs \<equiv> (case out of None \<Rightarrow> [] | Some x \<Rightarrow> [x])"
  defines "txts' \<equiv> txts @ received co_text (rs_request_index rs) outs" and "toks' \<equiv> toks @ received co_token_ids (rs_request_index rs) outs"
  shows "rs_request_index rs' = rs_request_index rs \<and> (\<exists>d'. dt_token_ids d' = dt_token_ids d @ ec_new_token_ids eco \<and> dt_prompt_len d' = dt_prompt_len d
    \<and> (if fr = None then streaming txts' toks' rs' d'
       else rs_detokenizer rs' = Some (Incremental d') \<and> txts' = output_text d' \<and> toks' = output_token_ids_of d'))"
proof -
  have d: "rs_output_kind rs = DELTA" "rs_parent_req rs = None" "rs_detokenizer rs = Some (Incremental d)" "sent_ok txts d" "tokens_ok toks rs d"
    using str by (simp_all add: streaming_def)
  let ?rs1 = "rs\<lparr>rs_num_cached_tokens := ec_num_cached_tokens eco, is_prefilling := False\<rparr>"
  obtain sr rs2 where det: "detokenize_output decode eco ?rs1 = Inr (fr, sr, rs2)"
    and mk: "make_request_output (ec_new_token_ids eco) None fr sr rs2 ps = Inr (out, rs', ps')"
    using run pool by (auto simp: handle_output_def Let_def)
  have stops: "\<forall>s \<in> set (stop_strings d). s \<noteq> []" using d(4) by (simp add: sent_ok_def detok_wf_def)
  have d': "rs_detokenizer ?rs1 = Some (Incremental d)" using d(3) by simp
  obtain ss d1 where up: "update_detok decode (ec_new_token_ids eco) (ec_finish_reason eco = Some FR_STOP) d = Inr (ss, d1)"
    and rs2: "rs2 = ?rs1\<lparr>rs_detokenizer := Some (Incremental d1)\<rparr>" and ss: "fr = None \<Longrightarrow> ss = None"
    using detokenize_output_incremental [OF det pool d' stops] by blast
  note tok = update_detok_tokens [OF up]
  note sent = sent_ok_update [OF d(4) up]
  have off: "last_output_text_offset d1 = int (length txts)"
    using update_detok_text(1) [OF up] d(4) by (simp add: sent_ok_def detok_config_def)
  have r2: "rs_output_kind rs2 = DELTA" "rs_parent_req rs2 = None" "rs_detokenizer rs2 = Some (Incremental d1)" "tokens_ok toks rs2 d"
    "rs_request_index rs2 = rs_request_index rs" using d rs2 by (simp_all add: tokens_ok_def)
  obtain due rs1 where st: "stream_tokens (ec_new_token_ids eco) (fr \<noteq> None) rs2 = Inr (due, rs1)" and
    out: "case due of None \<Rightarrow> out = None \<and> rs' = rs1
       | Some ts \<Rightarrow>
           (\<exists>w d' ro. get_next_output_text (fr \<noteq> None) True d1 = (w, d') \<and> out = Some (RequestOutput ro) \<and> rs' = rs1\<lparr>rs_detokenizer := Some (Incremental d')\<rparr>
             \<and> (\<exists>c. ro_outputs ro = [Some c] \<and> co_index c = rs_request_index rs1 \<and> co_text c = w \<and> co_token_ids c = ts))"
    using make_delta_output [OF r2(1-3) mk] by blast
  note due = stream_tokens_due [OF r2(1,3,4) conjunct1 [OF tok] conjunct2 [OF tok] st]
  show ?thesis
  proof (cases due)
    case None
    then have "fr = None" "out = None" "rs' = rs1" "tokens_ok toks rs1 d1" using due out by auto
    moreover have "sent_ok txts d1" using sent(3) ss \<open>fr = None\<close> by simp
    ultimately show ?thesis using due r2 tok
      by (auto simp: streaming_def outs_def txts'_def toks'_def intro!: exI [of _ d1])
  next
    case (Some ts)
    then obtain w d' ro c where o: "get_next_output_text (fr \<noteq> None) True d1 = (w, d')" "out = Some (RequestOutput ro)" "rs' = rs1\<lparr>rs_detokenizer := Some (Incremental d')\<rparr>"
        "ro_outputs ro = [Some c]" "co_index c = rs_request_index rs" "co_text c = w" "co_token_ids c = ts"
      using due out r2 by auto
    have new: "txts' = txts @ w" "toks' = toks @ ts" by (simp_all add: txts'_def toks'_def outs_def o)
    note same = next_text_tokens [OF o(1)]
    have all: "toks @ ts = output_token_ids_of d'" "tokens_ok (toks @ ts) rs' d'"
      using due Some same o(3) by (simp_all add: output_token_ids_of_def tokens_ok_def)
    show ?thesis
    proof (cases "fr = None")
      case True
      then have "sent_ok (txts @ w) d'" using next_text_sent [OF sent(3) ] ss o(1) by simp
      then show ?thesis using True all new o(3) due r2 tok same by (auto simp: streaming_def intro!: exI [of _ d'])
    next
      case False
      have fin: "get_next_output_text True True d1 = (w, d')" using o(1) False by simp
      show ?thesis using next_text_finished [OF fin off sent(1,2)] False all new o(3) due r2 tok same by (auto intro!: exI [of _ d'])
    qed
  qed
qed

lemma serve_streaming:
  assumes "streaming txts toks rs d" and "\<forall>eco \<in> set ecos. ec_pooling_output eco = None" and "serve decode ecos rs ps = Inr (outs, finished, rs')"
  shows "\<exists>d' k. rs_detokenizer rs' = Some (Incremental d') \<and> dt_token_ids d' = dt_token_ids d @ concat (map ec_new_token_ids (take k ecos))
    \<and> dt_prompt_len d' = dt_prompt_len d \<and> (if finished then 0 < k \<and> txts @ received co_text (rs_request_index rs) outs = output_text d'
         \<and> toks @ received co_token_ids (rs_request_index rs) outs = output_token_ids_of d'
       else length ecos \<le> k \<and> streaming (txts @ received co_text (rs_request_index rs) outs) (toks @ received co_token_ids (rs_request_index rs) outs) rs' d')"
  using assms
proof (induction ecos arbitrary: txts toks rs d ps outs)
  case Nil
  then show ?case by (auto simp: streaming_def)
next
  case (Cons eco ecos)
  obtain out fr rs1 ps1 where h: "handle_output decode eco rs ps = Inr (out, fr, rs1, ps1)" using Cons.prems(3) by auto
  let ?here = "case out of None \<Rightarrow> [] | Some x \<Rightarrow> [x]" and ?i = "rs_request_index rs"
  have pool: "ec_pooling_output eco = None" using Cons.prems(2) by simp
  obtain d1 where idx: "rs_request_index rs1 = ?i"
    and d1: "dt_token_ids d1 = dt_token_ids d @ ec_new_token_ids eco" "dt_prompt_len d1 = dt_prompt_len d"
      "if fr = None then streaming (txts @ received co_text ?i ?here) (toks @ received co_token_ids ?i ?here) rs1 d1
       else rs_detokenizer rs1 = Some (Incremental d1) \<and> txts @ received co_text ?i ?here = output_text d1 \<and> toks @ received co_token_ids ?i ?here = output_token_ids_of d1"
    using handle_output_streaming [OF Cons.prems(1) pool h] by blast
  show ?case
  proof (cases "fr = None")
    case False
    then have "outs = ?here" "finished" "rs' = rs1" using Cons.prems(3) h by (auto simp: Let_def)
    then show ?thesis using d1 False by (auto intro!: exI [of _ d1] exI [of _ "Suc 0"])
  next
    case True
    then obtain outs1 where rest: "serve decode ecos rs1 ps1 = Inr (outs1, finished, rs')" "outs = ?here @ outs1"
      using Cons.prems(3) h by (auto simp: Let_def)
    have str: "streaming (txts @ received co_text ?i ?here) (toks @ received co_token_ids ?i ?here) rs1 d1" using d1(3) True by simp
    have pools: "\<forall>eco \<in> set ecos. ec_pooling_output eco = None" using Cons.prems(2) by simp
    obtain d' k where "rs_detokenizer rs' = Some (Incremental d')" "dt_token_ids d' = dt_token_ids d1 @ concat (map ec_new_token_ids (take k ecos))"
        "dt_prompt_len d' = dt_prompt_len d1" "if finished then 0 < k \<and> (txts @ received co_text ?i ?here) @ received co_text ?i outs1 = output_text d'
         \<and> (toks @ received co_token_ids ?i ?here) @ received co_token_ids ?i outs1 = output_token_ids_of d'
       else length ecos \<le> k \<and> streaming ((txts @ received co_text ?i ?here) @ received co_text ?i outs1) ((toks @ received co_token_ids ?i ?here) @ received co_token_ids ?i outs1) rs' d'"
      using Cons.IH [OF str pools rest(1), unfolded idx] by blast
    then show ?thesis using d1(1,2) rest(2) by (intro exI [of _ d'] exI [of _ "Suc k"]) (auto split: if_splits)
  qed
qed

lemma prefix_take: "sent = take (length sent) xs \<Longrightarrow> \<exists>ys. xs = sent @ ys"
  by (metis append_take_drop_id)

lemma streaming_prefix:
  assumes "streaming txts toks rs d"
  shows "(\<exists>x. output_text d = txts @ x) \<and> (\<exists>y. output_token_ids_of d = toks @ y)"
proof
  show "\<exists>x. output_text d = txts @ x" by (rule prefix_take) (use assms in \<open>simp add: streaming_def sent_ok_def\<close>)
  have "toks = take (length toks) (output_token_ids_of d)" using assms by (auto simp: streaming_def tokens_ok_def split: if_splits)
  then show "\<exists>y. output_token_ids_of d = toks @ y" by (rule prefix_take)
qed

text \<open>C38: what is streamed is the final text.  The pieces a client gets for a request are, when the request has finished,
  exactly its text after the cut at its stop string and exactly its tokens, and before that a prefix of them: nothing
  that a later stop string removes is ever sent, however the tokens are batched and whatever the stream interval.  The
  tokens are those of the engine up to the output that finished the request.\<close>

theorem streamed_text_is_final_text:
  assumes "\<forall>s \<in> set stops. s \<noteq> []" and "rs_output_kind rs = DELTA" and "rs_parent_req rs = None" and "sent_tokens_offset rs = 0"
    and "rs_detokenizer rs = Some (Incremental ((BaseIncrementalDetokenizer stops min_tokens incl s)\<lparr>dt_prompt_len := length ids, dt_token_ids := ids\<rparr>))"
    and "\<forall>eco \<in> set ecos. ec_pooling_output eco = None" and "serve decode ecos rs ps = Inr (outs, finished, rs')"
  shows "\<exists>d k. rs_detokenizer rs' = Some (Incremental d) \<and> output_token_ids_of d = concat (map ec_new_token_ids (take k ecos))
    \<and> (if finished
       then received co_text (rs_request_index rs) outs = output_text d \<and> received co_token_ids (rs_request_index rs) outs = output_token_ids_of d
       else length ecos \<le> k \<and> (\<exists>txts. output_text d = received co_text (rs_request_index rs) outs @ txts)
         \<and> (\<exists>toks. output_token_ids_of d = received co_token_ids (rs_request_index rs) outs @ toks))"
proof -
  let ?d0 = "(BaseIncrementalDetokenizer stops min_tokens incl s)\<lparr>dt_prompt_len := length ids, dt_token_ids := ids\<rparr>"
  have d0: "dt_token_ids ?d0 = ids" "dt_prompt_len ?d0 = length ids" by simp_all
  have "streaming [] [] rs ?d0" using assms(2-5) fresh_sent_ok [OF assms(1)] by (simp add: streaming_def tokens_ok_def output_token_ids_of_def)
  from serve_streaming [OF this assms(6,7), unfolded append_Nil d0] obtain d k where d: "rs_detokenizer rs' = Some (Incremental d)"
      "dt_token_ids d = ids @ concat (map ec_new_token_ids (take k ecos))" "dt_prompt_len d = length ids"
    and fin: "if finished then 0 < k \<and> received co_text (rs_request_index rs) outs = output_text d \<and> received co_token_ids (rs_request_index rs) outs = output_token_ids_of d
       else length ecos \<le> k \<and> streaming (received co_text (rs_request_index rs) outs) (received co_token_ids (rs_request_index rs) outs) rs' d" by blast
  have "if finished
       then received co_text (rs_request_index rs) outs = output_text d \<and> received co_token_ids (rs_request_index rs) outs = output_token_ids_of d
       else length ecos \<le> k \<and> (\<exists>txts. output_text d = received co_text (rs_request_index rs) outs @ txts)
         \<and> (\<exists>toks. output_token_ids_of d = received co_token_ids (rs_request_index rs) outs @ toks)"
    using fin streaming_prefix [of "received co_text (rs_request_index rs) outs" "received co_token_ids (rs_request_index rs) outs" rs' d] by (cases finished) simp_all
  moreover have "output_token_ids_of d = concat (map ec_new_token_ids (take k ecos))" using d by (simp add: output_token_ids_of_def)
  ultimately show ?thesis using d(1) by blast
qed

definition sample_eco :: "int list \<Rightarrow> engine_core_output" where
  "sample_eco ids = \<lparr>ec_request_id = ''r'', ec_new_token_ids = ids, ec_finish_reason = None, ec_pooling_output = None,
     ec_stop_reason = None, ec_events = None, ec_num_cached_tokens = 0\<rparr>"

definition sample_state :: "unit request_state" where
  "sample_state = \<lparr>rs_request_id = ''r'', rs_external_req_id = ''e'', rs_parent_req = None, rs_request_index = 0, rs_output_kind = DELTA,
     rs_prompt_token_ids = Some [7], rs_prompt_embeds = None,
     rs_detokenizer = Some (Incremental ((BaseIncrementalDetokenizer [[2, 3]] 0 False ())\<lparr>dt_prompt_len := length [7 :: int], dt_token_ids := [7]\<rparr>)),
     is_prefilling = True, rs_queue = None, rs_num_cached_tokens = 0, rs_stream_interval = 2, sent_tokens_offset = 0\<rparr>"

text \<open>The stop string is \<open>[2, 3]\<close>, split over two outputs of the engine.\<close>

theorem streamed_text_is_final_text_witness:
  "\<exists>outs rs' d. serve (\<lambda>ids s. Inr ([nat (last ids)], s)) [sample_eco [1], sample_eco [2], sample_eco [3, 4]] sample_state (\<lambda>_. None) = Inr (outs, True, rs')
    \<and> rs_detokenizer rs' = Some (Incremental d) \<and> received co_text 0 outs = output_text d \<and> output_text d = [1]"
proof -
  let ?run = "serve (\<lambda>ids s. Inr ([nat (last ids)], s)) [sample_eco [1], sample_eco [2], sample_eco [3, 4]] sample_state (\<lambda>_. None)"
  have "case ?run of Inl e \<Rightarrow> False | Inr (outs, fin, rs') \<Rightarrow> fin \<and> received co_text 0 outs = [1]" by code_simp
  then obtain outs rs' where run: "?run = Inr (outs, True, rs')" and one: "received co_text 0 outs = [1]" by (auto split: sum.splits)
  have rs: "rs_output_kind sample_state = DELTA" "rs_parent_req sample_state = None" "sent_tokens_offset sample_state = 0" "rs_request_index sample_state = 0"
    "rs_detokenizer sample_state = Some (Incremental ((BaseIncrementalDetokenizer [[2, 3]] 0 False ())\<lparr>dt_prompt_len := length [7 :: int], dt_token_ids := [7]\<rparr>))"
    by (simp_all add: sample_state_def)
  have stops: "\<forall>s \<in> set [[2, 3 :: nat]]. s \<noteq> []" and pool: "\<forall>eco \<in> set [sample_eco [1], sample_eco [2], sample_eco [3, 4]]. ec_pooling_output eco = None"
    by (simp_all add: sample_eco_def)
  show ?thesis using streamed_text_is_final_text [OF stops rs(1-3) rs(5) pool run] run one rs(4) by auto
qed

end
