(* ===== verification/Output_Tables.thy ===== *)
theory Output_Tables
  imports Output_Safe
begin

text \<open>
  The tables of the output processor: the mapping from external to internal request ids describes exactly the requests
  that are alive, and processing and aborting requests never fails and keeps it so.
\<close>

section \<open>External request ids\<close>

definition ids_ok :: "(string, 's request_state) odict \<Rightarrow> (string, string list) odict \<Rightarrow> bool" where
  "ids_ok states ext \<longleftrightarrow> distinct (map fst states) \<and> distinct (map fst ext) \<and> (\<forall>(e, ids) \<in> set ext. ids \<noteq> [] \<and> distinct ids)
     \<and> (\<forall>e rid. rid \<in> set (internal_ids_of e ext) \<longleftrightarrow> (\<exists>rs. map_of states rid = Some rs \<and> rs_external_req_id rs = e))"

lemma ids_okD:
  assumes "ids_ok states ext"
  shows "distinct (internal_ids_of e ext)"
    and "rid \<in> set (internal_ids_of e ext) \<longleftrightarrow> (\<exists>rs. map_of states rid = Some rs \<and> rs_external_req_id rs = e)"
proof -
  show "rid \<in> set (internal_ids_of e ext) \<longleftrightarrow> (\<exists>rs. map_of states rid = Some rs \<and> rs_external_req_id rs = e)"
    using assms unfolding ids_ok_def by blast
  show "distinct (internal_ids_of e ext)" using assms by (auto simp: ids_ok_def internal_ids_of_def split: option.splits dest: map_of_SomeD)
qed

lemma internal_ids_of_update [simp]: "internal_ids_of e' (AList.update e ids ext) = (if e' = e then ids else internal_ids_of e' ext)"
  by (simp add: internal_ids_of_def)

lemma internal_ids_of_delete [simp]: "internal_ids_of e' (AList.delete e ext) = (if e' = e then [] else internal_ids_of e' ext)"
  by (cases "e' = e") (simp_all add: internal_ids_of_def)

lemma in_update: "x \<in> set (AList.update k v d) \<Longrightarrow> x = (k, v) \<or> x \<in> set d"
  by (induction d) (auto split: if_splits)

lemma ids_ok_remove:
  assumes "ids_ok states ext" and "map_of states rid = Some rs"
  shows "\<exists>ext'. remove_internal_id (rs_external_req_id rs) rid ext = Inr ext' \<and> ids_ok (AList.delete rid states) ext'"
proof -
  let ?e = "rs_external_req_id rs"
  let ?ids = "remove1 rid (internal_ids_of ?e ext)"
  let ?ext = "if ?ids = [] then AList.delete ?e ext else AList.update ?e ?ids ext"
  have rid: "rid \<in> set (internal_ids_of ?e ext)" using ids_okD(2) [OF assms(1)] assms(2) by blast
  have d: "distinct (internal_ids_of ?e ext)" by (rule ids_okD(1) [OF assms(1)])
  have ids: "internal_ids_of e ?ext = (if e = ?e then ?ids else internal_ids_of e ext)" for e by simp
  have "id \<in> set (internal_ids_of e ?ext) \<longleftrightarrow> (\<exists>r. map_of (AList.delete rid states) id = Some r \<and> rs_external_req_id r = e)" for e id
    unfolding ids using ids_okD(2) [OF assms(1)] assms(2) d by (cases "id = rid") (auto simp: set_remove1_eq)
  moreover have "\<forall>(e, ids) \<in> set ?ext. ids \<noteq> [] \<and> distinct ids"
    using assms(1) d by (auto simp: ids_ok_def distinct_remove1 AList.delete_eq dest!: in_update split: if_splits)
  moreover have "distinct (map fst ?ext)" using assms(1) by (auto simp: ids_ok_def distinct_update distinct_delete)
  moreover have "distinct (map fst (AList.delete rid states))" using assms(1) by (simp add: ids_ok_def distinct_delete)
  ultimately have "ids_ok (AList.delete rid states) ?ext" by (simp add: ids_ok_def)
  then show ?thesis using rid by (auto simp: remove_internal_id_def Let_def)
qed

lemma ids_ok_add:
  assumes "ids_ok states ext" and "rid \<notin> fst ` set states"
  shows "ids_ok (AList.update rid rs states) (AList.update (rs_external_req_id rs) (internal_ids_of (rs_external_req_id rs) ext @ [rid]) ext)"
proof -
  have none: "map_of states rid = None" using assms(2) by (simp add: map_of_eq_None_iff)
  have new: "rid \<notin> set (internal_ids_of e ext)" for e using ids_okD(2) [OF assms(1)] none by simp
  have "\<forall>(e, ids) \<in> set (AList.update (rs_external_req_id rs) (internal_ids_of (rs_external_req_id rs) ext @ [rid]) ext). ids \<noteq> [] \<and> distinct ids"
    using assms(1) ids_okD(1) [OF assms(1)] new by (auto simp: ids_ok_def dest!: in_update)
  then show ?thesis using assms(1) ids_okD(2) [OF assms(1)] none by (auto simp: ids_ok_def distinct_update)
qed

lemma ids_ok_same:
  assumes "ids_ok states ext" and "map_of states rid = Some rs" and "rs_external_req_id rs' = rs_external_req_id rs"
  shows "ids_ok (AList.update rid rs' states) ext"
  using assms by (auto simp: ids_ok_def distinct_update simp del: map_of_eq_Some_iff)

section \<open>Handling never fails\<close>

text \<open>What does not change in the life of a request.\<close>

definition same_shape :: "'s request_state \<Rightarrow> 's request_state \<Rightarrow> bool" where
  "same_shape rs rs' \<longleftrightarrow> rs_external_req_id rs' = rs_external_req_id rs \<and> rs_parent_req rs' = rs_parent_req rs
     \<and> rs_request_index rs' = rs_request_index rs \<and> rs_queue rs' = rs_queue rs \<and> rs_stream_interval rs' = rs_stream_interval rs
     \<and> rs_prompt_token_ids rs' = rs_prompt_token_ids rs \<and> (rs_detokenizer rs' = None \<longleftrightarrow> rs_detokenizer rs = None)"

definition parents_grow :: "parents \<Rightarrow> parents \<Rightarrow> bool" where
  "parents_grow ps ps' \<longleftrightarrow> (\<forall>pid p. ps pid = Some p \<longrightarrow> (\<exists>p'. ps' pid = Some p' \<and> pr_sampling_params p' = pr_sampling_params p
     \<and> length (output_aggregator p') = length (output_aggregator p)))"

text \<open>A request without detokenizer is a pooling request: it has prompt tokens, and no stream interval.  The samples
  of a request with one final output are not collected in a queue.\<close>

definition state_ok :: "parents \<Rightarrow> 's request_state \<Rightarrow> bool" where
  "state_ok ps rs \<longleftrightarrow> (rs_detokenizer rs = None \<longrightarrow> rs_stream_interval rs \<le> 1 \<and> rs_prompt_token_ids rs \<noteq> None)
     \<and> (\<forall>pid. rs_parent_req rs = Some pid \<longrightarrow> (\<exists>p. ps pid = Some p
          \<and> (sp_output_kind (pr_sampling_params p) = FINAL_ONLY \<longrightarrow> rs_request_index rs < length (output_aggregator p) \<and> rs_queue rs = None)))"

lemma parents_grow_refl [simp]: "parents_grow ps ps"
  by (simp add: parents_grow_def)

lemma parents_grow_trans: "parents_grow a b \<Longrightarrow> parents_grow b c \<Longrightarrow> parents_grow a c"
  unfolding parents_grow_def by metis

lemma same_shape_refl [simp]: "same_shape rs rs"
  by (simp add: same_shape_def)

lemma same_shape_trans: "same_shape a b \<Longrightarrow> same_shape b c \<Longrightarrow> same_shape a c"
  by (simp add: same_shape_def)

lemma state_ok_shape: "state_ok ps rs \<Longrightarrow> same_shape rs rs' \<Longrightarrow> parents_grow ps ps' \<Longrightarrow> state_ok ps' rs'"
  by (simp add: state_ok_def same_shape_def parents_grow_def) metis

lemma d_update_total:
  assumes "\<forall>ids s. \<exists>r. decode ids s = Inr r"
  shows "\<exists>ss d'. d_update decode ids st d = Inr (ss, d')"
proof (cases d)
  case (Incremental x)
  have "\<exists>r. detok_one decode i dp = Inr r" for i and dp :: "'a detok \<times> nat"
    using assms by (cases dp) (force simp: detok_one_def Let_def split: sum.splits prod.splits)
  then have "\<exists>r. foldM (detok_one decode) is dp = Inr r \<and> True" for "is" and dp :: "'a detok \<times> nat" by (intro foldM_total) auto
  then obtain r where "foldM (detok_one decode) (if st \<and> \<not> include_stop_str_in_output x then butlast ids else ids) (x, length (output_text x)) = Inr r" by blast
  then have "\<exists>r. update_detok decode ids st x = Inr r" by (cases r) (auto simp: update_detok_def Let_def split: option.splits)
  then show ?thesis using Incremental by auto
qed simp

lemma stream_tokens_total:
  assumes "rs_detokenizer rs = None \<longrightarrow> rs_stream_interval rs \<le> 1"
  shows "\<exists>due rs1. stream_tokens ids fin rs = Inr (due, rs1) \<and> same_shape rs rs1"
  using assms by (auto simp: stream_tokens_def same_shape_def Let_def split: option.splits)

definition no_gap :: "client_output option \<Rightarrow> bool" where
  "no_gap out \<longleftrightarrow> (\<forall>ro. out = Some (RequestOutput ro) \<longrightarrow> None \<notin> set (ro_outputs ro))"

lemma get_outputs_total:
  assumes "sp_output_kind (pr_sampling_params p) = FINAL_ONLY \<longrightarrow> co_index c < length (output_aggregator p)"
  shows "\<exists>outs fin p'. get_outputs cid c p = Inr ((outs, fin), p') \<and> pr_sampling_params p' = pr_sampling_params p
    \<and> length (output_aggregator p') = length (output_aggregator p) \<and> (sp_output_kind (pr_sampling_params p) \<noteq> FINAL_ONLY \<longrightarrow> None \<notin> set outs)"
  using assms by (auto simp: get_outputs_def Let_def)

lemma new_completion_total:
  assumes "rs_detokenizer rs \<noteq> None"
  shows "\<exists>c rs'. new_completion_output ids fr sr rs = Inr (c, rs') \<and> same_shape rs rs' \<and> co_index c = rs_request_index rs"
  using assms by (auto simp: new_completion_output_def same_shape_def Let_def split: prod.splits)

lemma due_output_total:
  assumes ok: "state_ok ps rs" and pool: "pool = None \<longrightarrow> rs_detokenizer rs \<noteq> None" "pool \<noteq> None \<longrightarrow> rs_prompt_token_ids rs \<noteq> None"
  shows "\<exists>out rs' ps'. due_output ids pool fr sr rs ps = Inr (out, rs', ps') \<and> same_shape rs rs' \<and> parents_grow ps ps'
    \<and> (rs_queue rs \<noteq> None \<longrightarrow> no_gap out)"
proof (cases pool)
  case (Some data)
  then obtain ids where "rs_prompt_token_ids rs = Some ids" using pool(2) by auto
  then show ?thesis using Some by (simp add: due_output_def new_pooling_request_output_def no_gap_def)
next
  case None
  then have "rs_detokenizer rs \<noteq> None" using pool(1) by simp
  from new_completion_total [OF this] obtain c rs2 where c: "new_completion_output ids fr sr rs = Inr (c, rs2)" "same_shape rs rs2" "co_index c = rs_request_index rs" by blast
  then have par: "rs_parent_req rs2 = rs_parent_req rs" by (simp add: same_shape_def)
  show ?thesis
  proof (cases "rs_parent_req rs")
    case None
    then show ?thesis using \<open>pool = None\<close> c par by (simp add: due_output_def no_gap_def new_request_output_def)
  next
    case (Some pid)
    then obtain p where p: "ps pid = Some p" "sp_output_kind (pr_sampling_params p) = FINAL_ONLY \<longrightarrow> co_index c < length (output_aggregator p) \<and> rs_queue rs = None"
      using ok c(3) by (auto simp: state_ok_def)
    obtain outs fin p' where g: "get_outputs (rs_request_id rs2) c p = Inr ((outs, fin), p')" "pr_sampling_params p' = pr_sampling_params p"
        "length (output_aggregator p') = length (output_aggregator p)" "sp_output_kind (pr_sampling_params p) \<noteq> FINAL_ONLY \<longrightarrow> None \<notin> set outs"
      using get_outputs_total [of p c "rs_request_id rs2"] p(2) by blast
    have "parents_grow ps (ps(pid \<mapsto> p'))" using p(1) g(2,3) by (auto simp: parents_grow_def)
    then show ?thesis using \<open>pool = None\<close> c(1,2) par Some p g(1,4) by (auto simp: due_output_def Let_def no_gap_def new_request_output_def)
  qed
qed

lemma make_request_output_total:
  assumes ok: "state_ok ps rs" and pool: "pool = None \<longrightarrow> rs_detokenizer rs \<noteq> None" "pool \<noteq> None \<longrightarrow> rs_prompt_token_ids rs \<noteq> None"
  shows "\<exists>out rs' ps'. make_request_output ids pool fr sr rs ps = Inr (out, rs', ps') \<and> same_shape rs rs' \<and> parents_grow ps ps'
    \<and> (rs_queue rs \<noteq> None \<longrightarrow> no_gap out)"
proof (cases "fr = None \<and> rs_output_kind rs = FINAL_ONLY")
  case True
  then show ?thesis by (simp add: make_request_output_def no_gap_def)
next
  case False
  obtain due rs1 where st: "stream_tokens ids (fr \<noteq> None) rs = Inr (due, rs1)" "same_shape rs rs1"
    using stream_tokens_total [of rs ids "fr \<noteq> None"] ok unfolding state_ok_def by blast
  show ?thesis
  proof (cases due)
    case None
    then show ?thesis using st False by (auto simp: make_request_output_def no_gap_def)
  next
    case (Some ts)
    have ok1: "state_ok ps rs1" by (rule state_ok_shape [OF ok st(2)]) simp
    have pool1: "pool = None \<longrightarrow> rs_detokenizer rs1 \<noteq> None" "pool \<noteq> None \<longrightarrow> rs_prompt_token_ids rs1 \<noteq> None" and q: "rs_queue rs1 = rs_queue rs"
      using pool st(2) by (simp_all add: same_shape_def)
    obtain out rs' ps' where d: "due_output ts pool fr sr rs1 ps = Inr (out, rs', ps')" "same_shape rs1 rs'" "parents_grow ps ps'"
        "rs_queue rs1 \<noteq> None \<longrightarrow> no_gap out"
      using due_output_total [OF ok1 pool1] by blast
    have "make_request_output ids pool fr sr rs ps = Inr (out, rs', ps')" using False st(1) Some d(1) by (auto simp: make_request_output_def)
    then show ?thesis using same_shape_trans [OF st(2) d(2)] d(3,4) q by auto
  qed
qed

lemma handle_output_total:
  assumes dec: "\<forall>ids s. \<exists>r. decode ids s = Inr r" and ok: "state_ok ps rs"
    and fits: "ec_pooling_output eco = None \<longrightarrow> rs_detokenizer rs \<noteq> None" "ec_pooling_output eco \<noteq> None \<longrightarrow> rs_prompt_token_ids rs \<noteq> None"
  shows "\<exists>out fr rs' ps'. handle_output decode eco rs ps = Inr (out, fr, rs', ps') \<and> same_shape rs rs' \<and> parents_grow ps ps'
    \<and> (rs_queue rs \<noteq> None \<longrightarrow> no_gap out) \<and> (ec_finish_reason eco \<noteq> None \<longrightarrow> fr \<noteq> None)"
proof -
  let ?rs1 = "rs\<lparr>rs_num_cached_tokens := ec_num_cached_tokens eco, is_prefilling := False\<rparr>"
  have "\<exists>fr sr rs2. detokenize_output decode eco ?rs1 = Inr (fr, sr, rs2) \<and> same_shape rs rs2 \<and> (ec_finish_reason eco \<noteq> None \<longrightarrow> fr \<noteq> None)"
  proof (cases "ec_pooling_output eco")
    case None
    then obtain d where d: "rs_detokenizer rs = Some d" using fits(1) by auto
    obtain ss d' where u: "d_update decode (ec_new_token_ids eco) (ec_finish_reason eco = Some FR_STOP) d = Inr (ss, d')"
      using d_update_total [OF dec] by blast
    consider "ss = None \<or> ss = Some []" | c cs where "ss = Some (c # cs)" by (metis list.exhaust not_None_eq)
    then show ?thesis using None d u by cases (auto simp: detokenize_output_def same_shape_def Let_def)
  qed (simp add: detokenize_output_def same_shape_def)
  then obtain fr sr rs2 where d: "detokenize_output decode eco ?rs1 = Inr (fr, sr, rs2)" "same_shape rs rs2" "ec_finish_reason eco \<noteq> None \<longrightarrow> fr \<noteq> None" by blast
  have ok2: "state_ok ps rs2" by (rule state_ok_shape [OF ok d(2)]) simp
  have pool: "ec_pooling_output eco = None \<longrightarrow> rs_detokenizer rs2 \<noteq> None" "ec_pooling_output eco \<noteq> None \<longrightarrow> rs_prompt_token_ids rs2 \<noteq> None"
    and q: "rs_queue rs2 = rs_queue rs" using fits d(2) by (simp_all add: same_shape_def)
  obtain out rs' ps' where m: "make_request_output (ec_new_token_ids eco) (ec_pooling_output eco) fr sr rs2 ps = Inr (out, rs', ps')" "same_shape rs2 rs'"
      "parents_grow ps ps'" "rs_queue rs2 \<noteq> None \<longrightarrow> no_gap out"
    using make_request_output_total [OF ok2 pool] by blast
  have "handle_output decode eco rs ps = Inr (out, fr, rs', ps')" using d(1) m(1) by (simp add: handle_output_def)
  then show ?thesis using same_shape_trans [OF d(2) m(2)] m(3,4) q d(3) by auto
qed

section \<open>The queues\<close>

definition queue_ok :: "collector \<Rightarrow> bool" where
  "queue_ok c \<longleftrightarrow> (\<forall>ro. pending c = Some (Inr (RequestOutput ro)) \<longrightarrow> None \<notin> set (ro_outputs ro))"

lemma add_completion_total:
  "None \<notin> set xs \<Longrightarrow> \<exists>ys. add_completion agg (Some n) xs = Inr ys \<and> None \<notin> set ys"
proof (induction xs)
  case (Cons x xs)
  then show ?case by (cases x) auto
qed simp

lemma put_total:
  assumes "queue_ok c" and "no_gap (Some out)"
  shows "\<exists>c'. put (Inr out) c = Inr c' \<and> queue_ok c'"
proof -
  have add: "\<exists>ys. foldM (add_completion agg) ns xs = Inr ys \<and> None \<notin> set ys" if "None \<notin> set ns" "None \<notin> set xs" for agg ns xs
    using that
  proof (induction ns arbitrary: xs)
    case (Cons n ns)
    obtain a where n: "n = Some a" using Cons.prems(1) by (cases n) auto
    obtain ys where "add_completion agg n xs = Inr ys" "None \<notin> set ys" using add_completion_total [OF Cons.prems(2)] n by blast
    then show ?case using Cons by auto
  qed simp
  show ?thesis
  proof (cases "\<exists>old new. pending c = Some (Inr (RequestOutput old)) \<and> out = RequestOutput new")
    case True
    then obtain old new where o: "pending c = Some (Inr (RequestOutput old))" "out = RequestOutput new" by blast
    then have "None \<notin> set (ro_outputs new)" "None \<notin> set (ro_outputs old)" using assms by (auto simp: queue_ok_def no_gap_def)
    then obtain ys where "foldM (add_completion (aggregate c)) (ro_outputs new) (ro_outputs old) = Inr ys" "None \<notin> set ys" using add by blast
    then show ?thesis using o by (auto simp: put_def add_output_def queue_ok_def)
  next
    case False
    then show ?thesis using assms
      by (cases "pending c"; cases out) (auto simp: put_def queue_ok_def no_gap_def split: sum.splits client_output.splits)
  qed
qed

lemma emit_output_total:
  assumes "\<forall>q. queue_ok (queues op q)" and "queue \<noteq> None \<longrightarrow> no_gap out"
  shows "\<exists>qs outs'. emit_output out queue op outs = Inr (op\<lparr>queues := qs\<rparr>, outs') \<and> (\<forall>q. queue_ok (qs q))"
proof (cases "out = None \<or> queue = None")
  case True
  then show ?thesis using assms(1) by (auto simp: emit_output_def split: option.splits intro!: exI [of _ "queues op"])
next
  case False
  then obtain ro q where o: "out = Some ro" "queue = Some q" by auto
  obtain c where "put (Inr ro) (queues op q) = Inr c" "queue_ok c" using put_total assms o by blast
  then show ?thesis using o assms(1) by (auto simp: emit_output_def intro!: exI [of _ "(queues op)(q := c)"])
qed

section \<open>Processing outputs\<close>

definition processor_ok :: "'s output_processor \<Rightarrow> bool" where
  "processor_ok op \<longleftrightarrow> ids_ok (request_states op) (external_req_ids op)
     \<and> (\<forall>rid rs. map_of (request_states op) rid = Some rs \<longrightarrow> state_ok (parents op) rs)
     \<and> (requests_drained op \<longleftrightarrow> request_states op = []) \<and> (\<forall>q. queue_ok (queues op q))"

definition fits :: "'s output_processor \<Rightarrow> engine_core_output \<Rightarrow> bool" where
  "fits op eco \<longleftrightarrow> (\<forall>rs. map_of (request_states op) (ec_request_id eco) = Some rs \<longrightarrow>
     (if ec_pooling_output eco = None then rs_detokenizer rs \<noteq> None else rs_prompt_token_ids rs \<noteq> None))"

abbreviation alive :: "'s output_processor \<Rightarrow> string \<Rightarrow> bool" where
  "alive op rid \<equiv> map_of (request_states op) rid \<noteq> None"

definition shapes_kept :: "'s output_processor \<Rightarrow> 's output_processor \<Rightarrow> bool" where
  "shapes_kept op op' \<longleftrightarrow> (\<forall>rid rs'. map_of (request_states op') rid = Some rs' \<longrightarrow> (\<exists>rs. map_of (request_states op) rid = Some rs \<and> same_shape rs rs'))"

lemma shapes_kept_refl [simp]: "shapes_kept op op"
  by (simp add: shapes_kept_def)

lemma shapes_kept_trans: "shapes_kept a b \<Longrightarrow> shapes_kept b c \<Longrightarrow> shapes_kept a c"
  unfolding shapes_kept_def using same_shape_trans by blast

lemma fits_shape: "fits op eco \<Longrightarrow> shapes_kept op op' \<Longrightarrow> fits op' eco"
  unfolding fits_def shapes_kept_def same_shape_def by metis

lemma update_not_Nil [simp]: "AList.update k v d \<noteq> []"
  by (cases d) auto

lemma finish_request_total:
  assumes ok: "processor_ok op" and rs: "map_of (request_states op) rid = Some rs"
  shows "\<exists>op'. finish_request rid rs op = Inr op' \<and> processor_ok op' \<and> request_states op' = AList.delete rid (request_states op) \<and> parents op' = parents op"
proof -
  have ids: "ids_ok (request_states op) (external_req_ids op)" and st: "\<forall>rid rs. map_of (request_states op) rid = Some rs \<longrightarrow> state_ok (parents op) rs"
    and dr: "requests_drained op \<longleftrightarrow> request_states op = []" and qs: "\<forall>q. queue_ok (queues op q)"
    using ok by (simp_all add: processor_ok_def)
  obtain ext where ext: "remove_internal_id (rs_external_req_id rs) rid (external_req_ids op) = Inr ext" "ids_ok (AList.delete rid (request_states op)) ext"
    using ids_ok_remove [OF ids rs] by blast
  have "request_states op \<noteq> []" using rs by auto
  then have "\<not> requests_drained op" using dr by simp
  moreover have "state_ok (parents op) r" if "map_of (AList.delete rid (request_states op)) id = Some r" for id r
    using that st by (cases "id = rid") auto
  ultimately show ?thesis using ext qs by (auto simp: finish_request_def processor_ok_def Let_def simp del: map_of_eq_Some_iff split: option.splits)
qed

text \<open>Up to the removal of a finished request.\<close>

lemma store_request_total:
  assumes dec: "\<forall>ids s. \<exists>r. decode ids s = Inr r" and ok: "processor_ok op" and fit: "fits op eco"
    and Some: "map_of (request_states op) (ec_request_id eco) = Some rs"
  shows "\<exists>out fr rs1 ps1 op2 outs'. handle_output decode eco rs (parents op) = Inr (out, fr, rs1, ps1)
    \<and> emit_output out (rs_queue rs1) (op\<lparr>request_states := AList.update (ec_request_id eco) rs1 (request_states op), parents := ps1\<rparr>) outs = Inr (op2, outs')
    \<and> request_states op2 = AList.update (ec_request_id eco) rs1 (request_states op) \<and> processor_ok op2 \<and> same_shape rs rs1
    \<and> (ec_finish_reason eco \<noteq> None \<longrightarrow> fr \<noteq> None)"
proof -
  let ?rid = "ec_request_id eco"
  have inv: "ids_ok (request_states op) (external_req_ids op)" "state_ok (parents op) rs" "requests_drained op \<longleftrightarrow> request_states op = []" "\<forall>q. queue_ok (queues op q)"
    and all: "\<forall>rid rs. map_of (request_states op) rid = Some rs \<longrightarrow> state_ok (parents op) rs"
    using ok Some by (simp_all add: processor_ok_def)
  have f: "ec_pooling_output eco = None \<longrightarrow> rs_detokenizer rs \<noteq> None" "ec_pooling_output eco \<noteq> None \<longrightarrow> rs_prompt_token_ids rs \<noteq> None"
    using fit Some by (auto simp: fits_def)
  obtain out fr rs1 ps1 where h: "handle_output decode eco rs (parents op) = Inr (out, fr, rs1, ps1)" "same_shape rs rs1" "parents_grow (parents op) ps1"
      "rs_queue rs \<noteq> None \<longrightarrow> no_gap out" "ec_finish_reason eco \<noteq> None \<longrightarrow> fr \<noteq> None"
    using handle_output_total [OF dec inv(2) f] by blast
  let ?op1 = "op\<lparr>request_states := AList.update ?rid rs1 (request_states op), parents := ps1\<rparr>"
  have q: "rs_queue rs1 = rs_queue rs" using h(2) by (simp add: same_shape_def)
  have "\<forall>q. queue_ok (queues ?op1 q)" "rs_queue rs1 \<noteq> None \<longrightarrow> no_gap out" using inv(4) h(4) q by simp_all
  from emit_output_total [OF this] obtain qs outs' where e: "emit_output out (rs_queue rs1) ?op1 outs = Inr (?op1\<lparr>queues := qs\<rparr>, outs')" "\<forall>q. queue_ok (qs q)" by blast
  let ?op2 = "?op1\<lparr>queues := qs\<rparr>"
  have st: "state_ok ps1 r" if "map_of (AList.update ?rid rs1 (request_states op)) id = Some r" for id r
  proof (cases "id = ?rid")
    case True
    then show ?thesis using that state_ok_shape [OF inv(2) h(2,3)] by simp
  next
    case False
    then have "state_ok (parents op) r" using that all by simp
    then show ?thesis using state_ok_shape [OF _ same_shape_refl h(3)] by blast
  qed
  have ext: "rs_external_req_id rs1 = rs_external_req_id rs" using h(2) by (simp add: same_shape_def)
  have "request_states op \<noteq> []" using Some by auto
  then have ok2: "processor_ok ?op2"
    using inv(3) e(2) st ids_ok_same [OF inv(1) Some ext] by (simp add: processor_ok_def del: map_of_eq_Some_iff)
  show ?thesis
    by (rule exI [of _ out], rule exI [of _ fr], rule exI [of _ rs1], rule exI [of _ ps1], rule exI [of _ ?op2], rule exI [of _ outs'])
      (use h(1,2,5) e(1) ok2 in simp)
qed

lemma process_one_total:
  assumes dec: "\<forall>ids s. \<exists>r. decode ids s = Inr r" and ok: "processor_ok op" and fit: "fits op eco"
  shows "\<exists>op' outs' ab'. process_one decode eco (op, outs, ab) = Inr (op', outs', ab') \<and> processor_ok op' \<and> shapes_kept op op'
    \<and> (\<forall>rid. alive op' rid \<longrightarrow> \<not> (ec_request_id eco = rid \<and> ec_finish_reason eco \<noteq> None))
    \<and> (\<exists>new. ab' = ab @ new \<and> (\<forall>rid \<in> set new. alive op rid \<and> \<not> alive op' rid)
       \<and> (\<forall>rid. alive op rid \<and> \<not> alive op' rid \<longrightarrow> rid \<in> set new \<or> ec_request_id eco = rid \<and> ec_finish_reason eco \<noteq> None))"
proof (cases "map_of (request_states op) (ec_request_id eco)")
  case None
  then show ?thesis using ok by (auto simp: process_one_def Let_def)
next
  case (Some rs)
  let ?rid = "ec_request_id eco"
  obtain out fr rs1 ps1 op2 outs' where h: "handle_output decode eco rs (parents op) = Inr (out, fr, rs1, ps1)"
    and e: "emit_output out (rs_queue rs1) (op\<lparr>request_states := AList.update ?rid rs1 (request_states op), parents := ps1\<rparr>) outs = Inr (op2, outs')"
    and op2: "request_states op2 = AList.update ?rid rs1 (request_states op)" and ok2: "processor_ok op2" and shape: "same_shape rs rs1"
    and fr: "ec_finish_reason eco \<noteq> None \<longrightarrow> fr \<noteq> None"
    using store_request_total [OF dec ok fit Some] by blast
  have sh: "shapes_kept op op2" using Some shape by (auto simp: shapes_kept_def op2 simp del: map_of_eq_Some_iff)
  have al: "alive op2 rid \<longleftrightarrow> alive op rid" for rid using Some by (auto simp: op2 simp del: map_of_eq_Some_iff)
  show ?thesis
  proof (cases "fr = None")
    case True
    then have "process_one decode eco (op, outs, ab) = Inr (op2, outs', ab)" using Some h e by (simp add: process_one_def Let_def)
    moreover have "ec_finish_reason eco = None" using fr True by blast
    ultimately show ?thesis using ok2 sh al by (intro exI [of _ op2] exI [of _ outs'] exI [of _ ab]) (auto simp del: map_of_eq_Some_iff)
  next
    case False
    have "map_of (request_states op2) ?rid = Some rs1" by (simp add: op2)
    from finish_request_total [OF ok2 this] obtain op3 where fin: "finish_request ?rid rs1 op2 = Inr op3" "processor_ok op3"
        "request_states op3 = AList.delete ?rid (request_states op2)" by blast
    let ?new = "if ec_finish_reason eco = None then [?rid] else []"
    have run: "process_one decode eco (op, outs, ab) = Inr (op3, outs', ab @ ?new)" using Some h e fin(1) False by (auto simp: process_one_def Let_def simp del: map_of_eq_Some_iff)
    have al3: "alive op3 rid \<longleftrightarrow> rid \<noteq> ?rid \<and> alive op rid" for rid using fin(3) al [of rid] by (cases "rid = ?rid") (simp_all del: map_of_eq_Some_iff)
    have "shapes_kept op2 op3" unfolding shapes_kept_def fin(3)
      using same_shape_refl by (metis map_of_delete_other map_of_delete_same option.distinct(1))
    then have "shapes_kept op op3" using sh shapes_kept_trans by blast
    moreover have "alive op ?rid" using Some by simp
    ultimately show ?thesis using run fin(2) al3
      by (intro exI [of _ op3] exI [of _ outs'] exI [of _ "ab @ ?new"] conjI exI [of _ ?new]) (auto simp del: map_of_eq_Some_iff)
  qed
qed

lemma process_all_total:
  assumes "\<forall>ids s. \<exists>r. decode ids s = Inr r" and "processor_ok op" and "\<forall>eco \<in> set ecos. fits op eco"
  shows "\<exists>op' outs' new. foldM (process_one decode) ecos (op, outs, ab) = Inr (op', outs', ab @ new) \<and> processor_ok op' \<and> shapes_kept op op'
    \<and> (\<forall>rid \<in> set new. alive op rid \<and> \<not> alive op' rid)
    \<and> (\<forall>rid. alive op' rid \<longrightarrow> \<not> (\<exists>eco \<in> set ecos. ec_request_id eco = rid \<and> ec_finish_reason eco \<noteq> None))
    \<and> (\<forall>rid. alive op rid \<and> \<not> alive op' rid \<longrightarrow> rid \<in> set new \<or> (\<exists>eco \<in> set ecos. ec_request_id eco = rid \<and> ec_finish_reason eco \<noteq> None))"
  using assms(2,3)
proof (induction ecos arbitrary: op outs ab)
  case (Cons eco ecos)
  have fit: "fits op eco" using Cons.prems(2) by simp
  obtain op1 outs1 new1 where one: "process_one decode eco (op, outs, ab) = Inr (op1, outs1, ab @ new1)" "processor_ok op1" "shapes_kept op op1"
      "\<forall>rid. alive op1 rid \<longrightarrow> \<not> (ec_request_id eco = rid \<and> ec_finish_reason eco \<noteq> None)" "\<forall>rid \<in> set new1. alive op rid \<and> \<not> alive op1 rid"
      "\<forall>rid. alive op rid \<and> \<not> alive op1 rid \<longrightarrow> rid \<in> set new1 \<or> ec_request_id eco = rid \<and> ec_finish_reason eco \<noteq> None"
    using process_one_total [OF assms(1) Cons.prems(1) fit, of outs ab] by blast
  have fits1: "\<forall>eco \<in> set ecos. fits op1 eco" using Cons.prems(2) one(3) fits_shape by auto
  obtain op' outs' new where rest: "foldM (process_one decode) ecos (op1, outs1, ab @ new1) = Inr (op', outs', (ab @ new1) @ new)" "processor_ok op'" "shapes_kept op1 op'"
      "\<forall>rid \<in> set new. alive op1 rid \<and> \<not> alive op' rid"
      "\<forall>rid. alive op' rid \<longrightarrow> \<not> (\<exists>eco \<in> set ecos. ec_request_id eco = rid \<and> ec_finish_reason eco \<noteq> None)"
      "\<forall>rid. alive op1 rid \<and> \<not> alive op' rid \<longrightarrow> rid \<in> set new \<or> (\<exists>eco \<in> set ecos. ec_request_id eco = rid \<and> ec_finish_reason eco \<noteq> None)"
    using Cons.IH [OF one(2) fits1] by blast
  have down: "alive op rid" if "alive op1 rid" for rid using one(3) that unfolding shapes_kept_def by fastforce
  have down1: "alive op1 rid" if "alive op' rid" for rid using rest(3) that unfolding shapes_kept_def by fastforce
  have "foldM (process_one decode) (eco # ecos) (op, outs, ab) = Inr (op', outs', ab @ (new1 @ new))" using one(1) rest(1) by simp
  moreover have "\<forall>rid \<in> set (new1 @ new). alive op rid \<and> \<not> alive op' rid" using one(5) rest(4) down down1 by (metis Un_iff set_append)
  moreover have "\<forall>rid. alive op' rid \<longrightarrow> \<not> (\<exists>e \<in> set (eco # ecos). ec_request_id e = rid \<and> ec_finish_reason e \<noteq> None)"
    using one(4) rest(5) down1 by (metis set_ConsD)
  moreover have "\<forall>rid. alive op rid \<and> \<not> alive op' rid \<longrightarrow> rid \<in> set (new1 @ new) \<or> (\<exists>e \<in> set (eco # ecos). ec_request_id e = rid \<and> ec_finish_reason e \<noteq> None)"
    using one(6) rest(6) by (metis Un_iff list.set_intros set_append)
  ultimately show ?case using rest(2) shapes_kept_trans [OF one(3) rest(3)] by blast
qed auto


section \<open>Adding requests\<close>

lemma processor_init_ok: "\<forall>q. queue_ok (qs q) \<Longrightarrow> processor_ok (OutputProcessor interval qs)"
  by (simp add: OutputProcessor_def processor_ok_def ids_ok_def internal_ids_of_def)

lemma collector_init_ok [simp]: "queue_ok (RequestOutputCollector kind)"
  by (simp add: RequestOutputCollector_def queue_ok_def)

lemma processor_add_ok:
  assumes ok: "processor_ok op" and run: "processor_add_request d req parent idx queue op = Inr op'"
    and st: "\<And>rs. from_new_request d req parent idx queue (op_stream_interval op) = Inr rs \<Longrightarrow> state_ok (parents op) rs"
  shows "processor_ok op'" and "\<exists>rs. from_new_request d req parent idx queue (op_stream_interval op) = Inr rs
    \<and> request_states op' = AList.update (er_request_id req) rs (request_states op)"
proof -
  let ?rid = "er_request_id req"
  have new: "?rid \<notin> fst ` set (request_states op)" using run by (auto simp: processor_add_request_def Let_def split: if_splits)
  obtain rs where rs: "from_new_request d req parent idx queue (op_stream_interval op) = Inr rs"
    and op': "op' = op\<lparr>requests_drained := False, request_states := AList.update ?rid rs (request_states op),
        parent_requests := (case parent of None \<Rightarrow> parent_requests op | Some pid \<Rightarrow> List.insert pid (parent_requests op)),
        external_req_ids := AList.update (rs_external_req_id rs) (internal_ids_of (rs_external_req_id rs) (external_req_ids op) @ [?rid]) (external_req_ids op)\<rparr>"
    using run new by (auto simp: processor_add_request_def Let_def)
  have "ids_ok (request_states op') (external_req_ids op')" using ids_ok_add [OF _ new, of "external_req_ids op" rs] ok op' by (simp add: processor_ok_def)
  moreover have "state_ok (parents op) r" if "map_of (AList.update ?rid rs (request_states op)) id = Some r" for id r
    using that st [OF rs] ok by (cases "id = ?rid") (auto simp: processor_ok_def simp del: map_of_eq_Some_iff)
  ultimately show "processor_ok op'" using ok op' by (simp add: processor_ok_def del: map_of_eq_Some_iff)
  show "\<exists>rs. from_new_request d req parent idx queue (op_stream_interval op) = Inr rs \<and> request_states op' = AList.update ?rid rs (request_states op)"
    using rs op' by simp
qed

section \<open>Aborting\<close>

lemma collect_external:
  assumes "distinct (map fst (external_req_ids op))" and "distinct ids" and "\<forall>e. distinct (internal_ids_of e (external_req_ids op))"
    and "\<forall>e e'. e \<noteq> e' \<longrightarrow> set (internal_ids_of e (external_req_ids op)) \<inter> set (internal_ids_of e' (external_req_ids op)) = {}"
    and "\<forall>e. set ids \<inter> set (internal_ids_of e (external_req_ids op)) = {}"
  shows "\<exists>ext ids'. foldM (collect_abort False) exts (op, ids) = Inr (op\<lparr>external_req_ids := ext\<rparr>, ids') \<and> distinct (map fst ext) \<and> set ext \<subseteq> set (external_req_ids op)
    \<and> (\<forall>e. internal_ids_of e ext = (if e \<in> set exts then [] else internal_ids_of e (external_req_ids op)))
    \<and> distinct ids' \<and> set ids' = set ids \<union> (\<Union>e \<in> set exts. set (internal_ids_of e (external_req_ids op)))"
  using assms
proof (induction exts arbitrary: op ids)
  case Nil
  then show ?case by (intro exI [of _ "external_req_ids op"]) simp
next
  case (Cons e exts)
  let ?ext = "AList.delete e (external_req_ids op)" and ?ids = "ids @ internal_ids_of e (external_req_ids op)"
  let ?op = "op\<lparr>external_req_ids := ?ext\<rparr>"
  have one: "collect_abort False e (op, ids) = Inr (?op, ?ids)" by (simp add: collect_abort_def)
  have "distinct (map fst (external_req_ids ?op))" using Cons.prems(1) by (simp add: distinct_delete)
  moreover have "distinct ?ids" using Cons.prems(2,3,5) by simp
  moreover have "\<forall>e'. distinct (internal_ids_of e' (external_req_ids ?op))" using Cons.prems(3) by simp
  moreover have "\<forall>a b. a \<noteq> b \<longrightarrow> set (internal_ids_of a (external_req_ids ?op)) \<inter> set (internal_ids_of b (external_req_ids ?op)) = {}" using Cons.prems(4) by simp
  moreover have "\<forall>a. set ?ids \<inter> set (internal_ids_of a (external_req_ids ?op)) = {}" using Cons.prems(4,5) by (auto simp: Int_Un_distrib2)
  ultimately obtain ext ids' where rest: "foldM (collect_abort False) exts (?op, ?ids) = Inr (?op\<lparr>external_req_ids := ext\<rparr>, ids')" "distinct (map fst ext)"
      "set ext \<subseteq> set (external_req_ids ?op)" "\<forall>a. internal_ids_of a ext = (if a \<in> set exts then [] else internal_ids_of a (external_req_ids ?op))"
      "distinct ids'" "set ids' = set ?ids \<union> (\<Union>a \<in> set exts. set (internal_ids_of a (external_req_ids ?op)))"
    using Cons.IH [of ?op ?ids] by blast
  have "set ext \<subseteq> set (external_req_ids op)" using rest(3) by (auto simp: AList.delete_eq)
  moreover have "\<forall>a. internal_ids_of a ext = (if a \<in> set (e # exts) then [] else internal_ids_of a (external_req_ids op))" using rest(4) by simp
  moreover have "set ids' = set ids \<union> (\<Union>a \<in> set (e # exts). set (internal_ids_of a (external_req_ids op)))" using rest(6) by (auto split: if_splits)
  ultimately show ?case using one rest(1,2,5) by (intro exI [of _ ext] exI [of _ ids']) simp
qed

lemma abort_one_total:
  assumes rs: "map_of (request_states op) rid = Some rs" and ok: "state_ok (parents op) rs" and qs: "\<forall>q. queue_ok (queues op q)"
  shows "\<exists>ps qs'. abort_one rec rid (op, aborted) = Inr (op\<lparr>request_states := AList.delete rid (request_states op), parents := ps, queues := qs'\<rparr>, aborted @ [rid])
    \<and> parents_grow (parents op) ps \<and> (\<forall>q. queue_ok (qs' q))"
proof (cases "rs_queue rs = None")
  case True
  then show ?thesis using rs qs by (intro exI [of _ "parents op"] exI [of _ "queues op"]) (simp add: abort_one_def Let_def del: map_of_eq_Some_iff)
next
  case False
  let ?pool = "if rs_detokenizer rs = None then Some [] else None" and ?op1 = "op\<lparr>request_states := AList.delete rid (request_states op)\<rparr>"
  have pool: "?pool = None \<longrightarrow> rs_detokenizer rs \<noteq> None" "?pool \<noteq> None \<longrightarrow> rs_prompt_token_ids rs \<noteq> None" using ok by (auto simp: state_ok_def)
  obtain out rs' ps where m: "make_request_output [] ?pool (Some FR_ABORT) None rs (parents op) = Inr (out, rs', ps)" "parents_grow (parents op) ps"
      "rs_queue rs \<noteq> None \<longrightarrow> no_gap out"
    using make_request_output_total [OF ok pool] by blast
  have q1: "\<forall>q. queue_ok (queues (?op1\<lparr>parents := ps\<rparr>) q)" using qs by simp
  obtain qs' outs' where e: "emit_output out (rs_queue rs) (?op1\<lparr>parents := ps\<rparr>) [] = Inr (?op1\<lparr>parents := ps, queues := qs'\<rparr>, outs')" "\<forall>q. queue_ok (qs' q)"
    using emit_output_total [OF q1 m(3)] by blast
  show ?thesis using rs False m(1,2) e by (intro exI [of _ ps] exI [of _ qs']) (auto simp: abort_one_def Let_def simp del: map_of_eq_Some_iff)
qed

lemma abort_all_total:
  assumes "\<forall>rid \<in> set ids. alive op rid" and "distinct ids" and "\<forall>rid rs. map_of (request_states op) rid = Some rs \<longrightarrow> state_ok (parents op) rs"
    and "\<forall>q. queue_ok (queues op q)"
  shows "\<exists>ps qs. foldM (abort_one rec) ids (op, aborted)
      = Inr (op\<lparr>request_states := fold AList.delete ids (request_states op), parents := ps, queues := qs\<rparr>, aborted @ ids)
    \<and> (\<forall>rid rs. map_of (fold AList.delete ids (request_states op)) rid = Some rs \<longrightarrow> state_ok ps rs) \<and> (\<forall>q. queue_ok (qs q))"
  using assms
proof (induction ids arbitrary: op aborted)
  case Nil
  then show ?case by (intro exI [of _ "parents op"] exI [of _ "queues op"]) simp
next
  case (Cons rid ids)
  obtain rs where rs: "map_of (request_states op) rid = Some rs" using Cons.prems(1) by auto
  have "state_ok (parents op) rs" using Cons.prems(3) rs by blast
  from abort_one_total [OF rs this Cons.prems(4)] obtain ps qs where
    one: "abort_one rec rid (op, aborted) = Inr (op\<lparr>request_states := AList.delete rid (request_states op), parents := ps, queues := qs\<rparr>, aborted @ [rid])"
      "parents_grow (parents op) ps" "\<forall>q. queue_ok (qs q)" by blast
  let ?op = "op\<lparr>request_states := AList.delete rid (request_states op), parents := ps, queues := qs\<rparr>"
  have al: "\<forall>r \<in> set ids. alive ?op r"
  proof
    fix r assume "r \<in> set ids"
    then show "alive ?op r" using Cons.prems(1,2) by (cases "r = rid") (auto simp del: map_of_eq_Some_iff)
  qed
  have st: "\<forall>r rs. map_of (request_states ?op) r = Some rs \<longrightarrow> state_ok (parents ?op) rs"
  proof (intro allI impI)
    fix r rs assume "map_of (request_states ?op) r = Some rs"
    then have "map_of (request_states op) r = Some rs" by (cases "r = rid") (simp_all del: map_of_eq_Some_iff)
    then have "state_ok (parents op) rs" using Cons.prems(3) by blast
    from state_ok_shape [OF this same_shape_refl one(2)] show "state_ok (parents ?op) rs" by simp
  qed
  have dist: "distinct ids" and qs1: "\<forall>q. queue_ok (queues ?op q)" using Cons.prems(2) one(3) by simp_all
  obtain ps' qs' where "foldM (abort_one rec) ids (?op, aborted @ [rid])
      = Inr (?op\<lparr>request_states := fold AList.delete ids (request_states ?op), parents := ps', queues := qs'\<rparr>, (aborted @ [rid]) @ ids)"
    "\<forall>rid rs. map_of (fold AList.delete ids (request_states ?op)) rid = Some rs \<longrightarrow> state_ok ps' rs" "\<forall>q. queue_ok (qs' q)"
    using Cons.IH [OF al dist st qs1, of "aborted @ [rid]"] by blast
  then show ?case using one(1) by (intro exI [of _ ps'] exI [of _ qs']) simp
qed

lemma map_of_fold_delete: "map_of (fold AList.delete ids d) k = (if k \<in> set ids then None else map_of d k)"
proof (induction ids arbitrary: d)
  case (Cons i ids)
  then show ?case by (cases "k = i") simp_all
qed simp

lemma distinct_fold_delete: "distinct (map fst d) \<Longrightarrow> distinct (map fst (fold AList.delete ids d))"
  by (induction ids arbitrary: d) (simp_all add: distinct_delete)


section \<open>Examples\<close>

definition sample_req :: engine_core_request where
  "sample_req = \<lparr>er_request_id = ''r'', er_external_req_id = Some ''e'', er_prompt_token_ids = Some [7], er_prompt_embeds = None,
     er_sampling_params = Some (DELTA, True), er_pooling_params = None\<rparr>"

definition sample_processor :: "unit output_processor" where
  "sample_processor = projr (processor_add_request None sample_req None 0 (Some 0) (OutputProcessor 1 (\<lambda>_. RequestOutputCollector DELTA)))"

lemma sample_processor_ok: "processor_ok sample_processor" and sample_processor_states: "map fst (request_states sample_processor) = [''r'']"
  "\<forall>rs. map_of (request_states sample_processor) ''r'' = Some rs \<longrightarrow> rs_detokenizer rs \<noteq> None \<and> rs_external_req_id rs = ''e''"
proof -
  let ?op0 = "OutputProcessor 1 (\<lambda>_. RequestOutputCollector DELTA) :: unit output_processor"
  have run: "processor_add_request None sample_req None 0 (Some 0) ?op0 = Inr sample_processor"
    by (simp add: sample_processor_def processor_add_request_def from_new_request_def sample_req_def OutputProcessor_def Let_def)
  have "processor_ok ?op0" by (rule processor_init_ok) simp
  from processor_add_ok(1) [OF this run] show "processor_ok sample_processor"
    by (auto simp: from_new_request_def sample_req_def state_ok_def)
  show "map fst (request_states sample_processor) = [''r'']"
    "\<forall>rs. map_of (request_states sample_processor) ''r'' = Some rs \<longrightarrow> rs_detokenizer rs \<noteq> None \<and> rs_external_req_id rs = ''e''"
    by (simp_all add: sample_processor_def processor_add_request_def from_new_request_def sample_req_def OutputProcessor_def Let_def)
qed



text \<open>An abort by external id does not remove the parent of the aborted children: \<open>parent_requests\<close> keeps it.\<close>

lemma abort_leaks_parent:
  "case rbind (engine_add_request None (sample_req\<lparr>er_request_id := ''p''\<rparr>) \<lparr>sp_n = 2, sp_seed = None, sp_output_kind = DELTA\<rparr> None
       (OutputProcessor 1 (\<lambda>_. RequestOutputCollector DELTA) :: unit output_processor)) (\<lambda>(op, _). abort_requests 9 [''e''] False op) of
     Inr (op', aborted) \<Rightarrow> aborted = [''0_p'', ''1_p''] \<and> request_states op' = [] \<and> parent_requests op' = [''p'']
   | Inl e \<Rightarrow> False"
  by code_simp

text \<open>A pooling request cannot be served with a stream interval.\<close>

lemma pooling_stream_interval_fails:
  "rs_detokenizer rs = None \<Longrightarrow> 1 < rs_stream_interval rs \<Longrightarrow> make_request_output ids (Some data) (Some fr) sr rs ps = Inl AssertionError"
  by (simp add: make_request_output_def stream_tokens_def)

end
