(* ===== verification/Spec2Isabelle.thy ===== *)
theory Spec2Isabelle
  imports Engine Lopt Offload_ARC Ngram KV_Sizing Block_Table Detokenizer Output_Tables
begin

text \<open>
  A verification library for the core of vLLM and of the lossless parallel tokenizer LoPT that this repository adds.
  Paths are relative to \<open>src/vllm/vllm\<close> unless they start with \<open>benchmarks\<close>, which is \<open>src/benchmarks\<close>.

  \<^bold>\<open>The program.\<close>  A prompt is tokenized (LoPT splits a long one into overlapping chunks and joins the results).  The
  engine (\<open>v1/engine/core.py\<close>) adds it to the scheduler (\<open>v1/core/sched\<close>), which in every step gives the requests tokens
  to compute, within a token budget, and asks the KV cache manager for the blocks that will hold their keys and values.
  The manager owns a coordinator, the coordinator one manager per group of layers with equal attention type, and all of
  them share one pool of blocks (\<open>v1/core\<close>).  Full blocks are hashed, so that later requests with the same prefix reuse
  them; blocks without references wait in a free queue and are evicted in the order in which they were freed.  When the
  pool is exhausted, the scheduler preempts a running request.  Evicted content can be offloaded to other memory
  (\<open>v1/kv_offload\<close>).  The workers map token positions to slots with their block tables (\<open>v1/worker\<close>), a proposer may add
  drafts (\<open>v1/spec_decode\<close>), and the results go back to the scheduler and then to the output processor, which turns
  tokens into text, finds stop strings and streams to the client (\<open>v1/engine\<close>).  Before all this, the layout of the
  cache is computed from the layers of the model (\<open>v1/core/kv_cache_utils.py\<close>).

  \<^bold>\<open>Conventions\<close> (theory \<open>Prelude\<close>).  An exception is a value of \<open>error + 'a\<close>; \<open>rbind\<close> and \<open>foldM\<close> are sequencing and loops.
  A mutable object that several others refer to lives in a store or in a map from names; other objects are records.
  Every operation is a definition with the source's name where that is possible, and every early return, assertion and
  exception of the code is a branch of it.  A loop is a recursive function with a termination proof, or
  \<open>partial_function (option)\<close> where it may not end; that it returns is then a theorem.  There is one bound: the recursion
  depth of \<open>abort_requests\<close>, which stands for the interpreter's limit, and one level is shown to be enough.

  \<^bold>\<open>The theories and what their lemmas show.\<close>
  \<^item> \<open>Free_Queue\<close>, \<open>Block_Hash\<close> (\<open>v1/core/kv_cache_utils.py\<close>) and \<open>Block_Pool\<close> (\<open>block_pool.py\<close>): the doubly linked free queue
    implements a list (locale \<open>free_list\<close>, with the store of blocks); hashing is incremental and equal hashes mean equal
    prefixes; the pool's free queue, reference counts and hash map (locale \<open>block_multimap\<close>) agree in every reachable state.
  \<^item> \<open>KV_Specs\<close> (\<open>v1/kv_cache_interface.py\<close>), \<open>Single_Type\<close> and \<open>Cache_Hit\<close> (\<open>single_type_kv_cache_manager.py\<close>), \<open>Coordinator\<close>
    and \<open>Hybrid_Lookup\<close> (\<open>kv_cache_coordinator.py\<close>), \<open>KV_Manager\<close> (\<open>kv_cache_manager.py\<close>), \<open>Cache_Stats\<close>
    (\<open>v1/metrics/stats.py\<close>): lookups return only sound hits and end, allocation never raises and gives every token a slot or
    nothing, freeing gives everything back.
  \<^item> \<open>Request\<close> (\<open>v1/request.py\<close>), \<open>Heapq\<close> and \<open>Request_Queue\<close> (\<open>sched/request_queue.py\<close>; locales \<open>heap_order\<close> and
    \<open>waiting_queue\<close>), \<open>Encoder_Cache\<close> (\<open>encoder_cache_manager.py\<close>), \<open>Encoder_Sched\<close>, \<open>Scheduler\<close> and \<open>Sched_Update\<close>
    (\<open>sched/scheduler.py\<close>, \<open>async_scheduler.py\<close>): the queues, the encoder budget, the step and what happens between steps.
  \<^item> \<open>Sched_View\<close> states what the scheduler needs of the KV cache manager as the locale \<open>kv_contract\<close>, interpreted on
    \<open>KV_Manager\<close>.  \<open>Sched_Inv\<close>, \<open>Sched_Step\<close>, \<open>Sched_Safe\<close>, \<open>Sched_Life\<close>, \<open>Sched_Tokens\<close> and \<open>Sched_Output\<close> carry the invariant of
    the scheduler through every operation.  \<open>Engine\<close> (\<open>v1/engine/core.py\<close>) composes them: the inductive relation
    \<open>engine_step\<close> has the calls of the engine as its steps, and the theorems hold in every state it can reach.
  \<^item> \<open>Offload\<close> and \<open>Offload_ARC\<close> (\<open>v1/kv_offload\<close>): both eviction policies over the CPU backend (locale \<open>offload_backend\<close>)
    never raise when storing, never overwrite a block in use, and give memory back.
  \<^item> \<open>KV_Config\<close>, \<open>KV_Groups\<close> and \<open>KV_Sizing\<close> (\<open>kv_cache_utils.py\<close>): the layers are partitioned into groups, the tensors fit
    the memory of every worker, and the automatic model length is the largest that fits.
  \<^item> \<open>Ngram\<close> (\<open>v1/spec_decode/ngram_proposer.py\<close>): the linear scan finds what a direct search finds.
  \<^item> \<open>Block_Table\<close> (\<open>v1/worker/block_table.py\<close>): no two tokens share a slot, and kernel blocks do not change slots.
  \<^item> \<open>Detokenizer\<close> (\<open>v1/engine/detokenizer.py\<close>, \<open>tokenizers/detokenizer_utils.py\<close>), \<open>Output_Processor\<close>, \<open>Output_Safe\<close> and
    \<open>Output_Tables\<close> (\<open>v1/engine/output_processor.py\<close>, \<open>parallel_sampling.py\<close>, \<open>outputs.py\<close>): stop strings, streaming, parallel
    sampling, the collector of a client, and the tables of requests.
  \<^item> \<open>Lopt\<close> (\<open>tokenizers/lopt_wrapper.py\<close>, \<open>tokenizers/lopt_utils.py\<close>, \<open>benchmarks/csrc/match_merge.cpp\<close>): the parallel
    tokenizer ends and its identifiers spell the text; the C++ merge equals the Python merge.

  \<^bold>\<open>Hypotheses about code that is not modelled.\<close>  \<open>hash_ideal\<close>: the hash function does not collide on the inputs of the
  program.  \<open>outputs_ok\<close> and \<open>new_request_ok\<close>: what the worker promises of its output and the front end of a new request.
  \<open>spells\<close>: the tokens and offsets of the library tokenizer spell the text it was given.  The decoding of one token, the
  clock, the order in which a set is enumerated and the readiness of a grammar are parameters.  Each theorem with
  hypotheses has a witness on a concrete input.

  \<^bold>\<open>Scope.\<close>  The theorems about the engine are for one KV cache group, text requests and the synchronous scheduler without
  a KV connector; those about the manager, the coordinator and the pool are for any number of groups.  Integers that are
  unbounded in Python are \<open>int\<close> or \<open>nat\<close>; the packed group id of a block hash and bytes are words.

  \<^bold>\<open>Not modelled.\<close>  Models, kernels, quantization and the model runner compute on tensors of devices through \<open>torch\<close> and
  generated extensions.  The processes of the engine and the server, KV transfer and the offload workers consist of
  sockets, device streams and plug-ins.  Multimodal processing and grammars call third-party libraries; of their
  results the scheduler sees positions and identifiers, which are modelled.  Configuration, the command line and the
  measurement scripts have no state of their own.  Log messages, log probabilities, tracing and most statistics are left
  out where they do not change the state.
\<close>

end
